(* ===== verification/Prelude.thy ===== *)
theory Prelude
  imports "HOL-Library.Word"
begin

text \<open>
  Shared vocabulary of the development: the machine integers of the C sources, the
  outcome type of kernel operations with its sequencing function, byte encodings, and the
  generic facts on words and lists that the components use.

  A kernel operation takes the state it runs in and gives an outcome:
  \<^item> \<open>Ret r s\<close>: it returned \<open>r\<close> and left the state \<open>s\<close>;
  \<^item> \<open>Panic msg\<close>: it called \<open>panic(msg)\<close>, which never returns (console.c);
  \<^item> \<open>Spin\<close>: it spins for ever on a condition that this processor cannot change
    (a spin lock of another processor, a device that stays busy);
  \<^item> \<open>Slp s\<close>: the calling process went to sleep, in state \<open>s\<close>;
  \<^item> \<open>Undef what\<close>: the code accessed an array outside its bounds or followed a null pointer,
    so the C program has no meaning from there on.
\<close>

unbundle bit_operations_syntax

section \<open>Machine integers\<close>

type_synonym u8 = "8 word"
type_synonym u16 = "16 word"
type_synonym u32 = "32 word"

named_theorems kres_simps \<open>evaluation of outcomes\<close>
named_theorems state_defs \<open>definitions that are record updates, unfolded in frame proofs\<close>

section \<open>Outcomes\<close>

datatype ('a, 's) kres = Ret (retval: 'a) (retstate: 's) | Panic string | Spin | Slp 's | Undef string

text \<open>Sequencing: \<open>bnd m f\<close> is \<open>m\<close> followed by \<open>f\<close>, if \<open>m\<close> returns.\<close>

fun bnd :: "('a, 's) kres \<Rightarrow> ('a \<Rightarrow> 's \<Rightarrow> ('b, 's) kres) \<Rightarrow> ('b, 's) kres" where
  "bnd (Ret r s) f = f r s"
| "bnd (Panic e) f = Panic e"
| "bnd Spin f = Spin"
| "bnd (Slp s) f = Slp s"
| "bnd (Undef e) f = Undef e"

lemmas [kres_simps] = bnd.simps

text \<open>A loop over a list of items.\<close>

fun mfor :: "('x \<Rightarrow> 's \<Rightarrow> (unit, 's) kres) \<Rightarrow> 'x list \<Rightarrow> 's \<Rightarrow> (unit, 's) kres" where
  "mfor f [] s = Ret () s"
| "mfor f (x # xs) s = bnd (f x s) (\<lambda>_ s. mfor f xs s)"

lemma bnd_cong [fundef_cong]:
  assumes "m = m'" and "\<And>r s. m' = Ret r s \<Longrightarrow> f r s = f' r s"
  shows "bnd m f = bnd m' f'"
  using assms by (cases m') auto

lemma bnd_Ret_iff:
  "bnd m f = Ret r s \<longleftrightarrow> (\<exists>r' s'. m = Ret r' s' \<and> f r' s' = Ret r s)"
  by (cases m) auto

lemma bnd_RetE [elim]:
  assumes "bnd m f = Ret r s"
  obtains r' s' where "m = Ret r' s'" and "f r' s' = Ret r s"
  using assms by (cases m) auto

lemma bnd_assoc: "bnd (bnd m f) g = bnd m (\<lambda>r s. bnd (f r s) g)"
  by (cases m) auto

lemma bnd_Ret_right: "bnd m Ret = m"
  by (cases m) auto

text \<open>The loop as a function, for loops below \<open>bnd\<close>.\<close>

lemma mfor_fun: "mfor f [] = Ret ()" "mfor f (x # xs) = (\<lambda>s. bnd (f x s) (\<lambda>_. mfor f xs))"
  by (simp_all add: fun_eq_iff)

text \<open>An operation that returned: its outcome is \<open>Ret\<close>.\<close>

definition returns :: "('a, 's) kres \<Rightarrow> bool" where
  "returns m \<longleftrightarrow> (\<exists>r s. m = Ret r s)"

lemma returns_Ret [simp]: "returns (Ret r s)"
  by (simp add: returns_def)

section \<open>Words\<close>

lemma unat_lt2p32 [simp]: "unat (x :: u32) < 4294967296"
  using unsigned_less [of x] by simp

lemma unat_lt2p8 [simp]: "unat (x :: u8) < 256"
  using unsigned_less [of x] by simp

lemma word_eq_unat: "(x = y) \<longleftrightarrow> unat x = unat (y :: 'a :: len word)"
  by (simp add: word_unat_eq_iff)

lemma unat_of_nat32: "n < 4294967296 \<Longrightarrow> unat (of_nat n :: u32) = n"
  by (simp add: unat_of_nat take_bit_nat_eq_self)

lemma unat_of_nat8: "n < 256 \<Longrightarrow> unat (of_nat n :: u8) = n"
  by (simp add: unat_of_nat take_bit_nat_eq_self)

lemma unat_add32: "unat (a + b :: u32) = (unat a + unat b) mod 4294967296"
  by (simp add: unat_word_ariths)

lemma unat_add32_small:
  "unat a + unat b < 4294967296 \<Longrightarrow> unat (a + b :: u32) = unat a + unat b"
  by (simp add: unat_add32)

lemma unat_sub32:
  "unat (a - b :: u32) = (if unat b \<le> unat a then unat a - unat b
                          else unat a + 4294967296 - unat b)"
  by (simp add: unat_sub_if')

text \<open>Clearing the low bits of a word is rounding down to a multiple of a power of two.\<close>

lemma and_not_mask_eq: "a AND NOT (mask n) = a - take_bit n a" for a :: u32
proof -
  have "(a AND NOT (mask n)) + (a AND mask n) = (a AND NOT (mask n)) OR (a AND mask n)"
    by (rule disjunctive_add) (auto simp: bit_simps)
  also have "\<dots> = a"
    by (rule bit_eqI) (auto simp: bit_simps)
  finally show ?thesis
    by (simp add: take_bit_eq_mask algebra_simps)
qed

lemma unat_take_bit: "unat (take_bit n (a :: u32)) = unat a mod 2 ^ n"
  by (metis take_bit_nat_def unsigned_take_bit_eq)

lemma unat_and_not_mask: "unat (a AND NOT (mask n)) = unat (a :: u32) - unat a mod 2 ^ n"
proof -
  have "unat (take_bit n a) \<le> unat a"
    by (simp add: unat_take_bit)
  then have "take_bit n a \<le> a"
    by (simp add: word_le_nat_alt)
  then show ?thesis
    by (simp add: and_not_mask_eq unat_sub unat_take_bit)
qed

section \<open>Bytes\<close>

text \<open>Little-endian encoding of a 32-bit word in four bytes, as the processor stores it.\<close>

definition byte_of :: "u32 \<Rightarrow> nat \<Rightarrow> u8" where
  "byte_of v i = of_nat (unat v div 256 ^ i)"

definition word_of_bytes :: "u8 \<Rightarrow> u8 \<Rightarrow> u8 \<Rightarrow> u8 \<Rightarrow> u32" where
  "word_of_bytes b0 b1 b2 b3 =
     of_nat (unat b0 + 256 * unat b1 + 65536 * unat b2 + 16777216 * unat b3)"

lemma unat_byte_of: "unat (byte_of v i) = unat v div 256 ^ i mod 256"
  by (simp add: byte_of_def unat_of_nat take_bit_nat_def)

lemma digits256:
  fixes x :: nat
  shows "x mod 256 + 256 * (x div 256 mod 256) + 65536 * (x div 65536 mod 256)
           + 16777216 * (x div 16777216) = x"
proof -
  have d: "x div 65536 = x div 256 div 256" "x div 16777216 = x div 256 div 256 div 256"
    by (simp_all flip: div_mult2_eq)
  have "256 * (x div 256) + x mod 256 = x"
    "256 * (x div 256 div 256) + x div 256 mod 256 = x div 256"
    "256 * (x div 256 div 256 div 256) + x div 256 div 256 mod 256 = x div 256 div 256"
    by (rule mult_div_mod_eq)+
  then show ?thesis
    unfolding d by linarith
qed

lemma word_of_bytes_byte_of [simp]:
  "word_of_bytes (byte_of v 0) (byte_of v (Suc 0)) (byte_of v 2) (byte_of v 3) = v"
proof -
  have "unat v div 16777216 < 256"
    by (rule less_mult_imp_div_less) simp
  then have "unat (byte_of v 0) + 256 * unat (byte_of v (Suc 0)) + 65536 * unat (byte_of v 2)
          + 16777216 * unat (byte_of v 3) = unat v"
    using digits256 [of "unat v"] by (simp add: unat_byte_of)
  then show ?thesis
    by (simp only: word_of_bytes_def of_nat_unat ucast_id)
qed

lemma undigits256:
  fixes a b c d :: nat
  assumes "a < 256" "b < 256" "c < 256" "d < 256"
  defines "n \<equiv> a + 256 * b + 65536 * c + 16777216 * d"
  shows "n mod 256 = a" "n div 256 mod 256 = b" "n div 65536 mod 256 = c"
    "n div 16777216 mod 256 = d"
proof -
  have n: "n = a + 256 * (b + 256 * (c + 256 * d))"
    by (simp add: n_def)
  have 1: "n mod 256 = a" and q1: "n div 256 = b + 256 * (c + 256 * d)"
    using assms(1) by (simp_all only: n mod_mult_self2 div_mult_self2 mod_less div_less)
  have q2: "n div 65536 = c + 256 * d"
    using div_mult2_eq [of n 256 256] q1 assms(2) by simp
  have q3: "n div 16777216 = d"
    using div_mult2_eq [of n 65536 256] q2 assms(3) by simp
  show "n mod 256 = a" by (rule 1)
  show "n div 256 mod 256 = b" "n div 65536 mod 256 = c" "n div 16777216 mod 256 = d"
    using assms(2-4) by (simp_all only: q1 q2 q3 mod_mult_self2 mod_less)
qed

lemma byte_of_word_of_bytes [simp]:
  "byte_of (word_of_bytes b0 b1 b2 b3) 0 = b0"
  "byte_of (word_of_bytes b0 b1 b2 b3) (Suc 0) = b1"
  "byte_of (word_of_bytes b0 b1 b2 b3) 2 = b2"
  "byte_of (word_of_bytes b0 b1 b2 b3) 3 = b3"
proof -
  let ?n = "unat b0 + 256 * unat b1 + 65536 * unat b2 + 16777216 * unat b3"
  have "?n < 4294967296"
    using unat_lt2p8 [of b0] unat_lt2p8 [of b1] unat_lt2p8 [of b2] unat_lt2p8 [of b3]
    by linarith
  then have u: "unat (word_of_bytes b0 b1 b2 b3) = ?n"
    by (simp only: word_of_bytes_def unat_of_nat32)
  note e = undigits256 [OF unat_lt2p8 [of b0] unat_lt2p8 [of b1] unat_lt2p8 [of b2] unat_lt2p8 [of b3]]
  show "byte_of (word_of_bytes b0 b1 b2 b3) 0 = b0"
    "byte_of (word_of_bytes b0 b1 b2 b3) (Suc 0) = b1"
    "byte_of (word_of_bytes b0 b1 b2 b3) 2 = b2"
    "byte_of (word_of_bytes b0 b1 b2 b3) 3 = b3"
    using e by (simp_all add: word_eq_unat unat_byte_of u)
qed

section \<open>Lists\<close>

text \<open>The first index of a list at which a predicate holds (a linear scan).\<close>

fun scan :: "('a \<Rightarrow> bool) \<Rightarrow> 'a list \<Rightarrow> nat option" where
  "scan P [] = None"
| "scan P (x # xs) = (if P x then Some 0 else map_option Suc (scan P xs))"

lemma scan_Some:
  "scan P xs = Some i \<Longrightarrow> i < length xs \<and> P (xs ! i) \<and> (\<forall>j < i. \<not> P (xs ! j))"
proof (induction xs arbitrary: i)
  case (Cons x xs)
  show ?case
  proof (cases "P x")
    case True
    with Cons.prems show ?thesis by simp
  next
    case False
    with Cons.prems obtain k where k: "scan P xs = Some k" "i = Suc k" by auto
    from Cons.IH [OF k(1)] k(2) False show ?thesis
      by (auto simp: nth_Cons less_Suc_eq_0_disj split: nat.splits)
  qed
qed simp

lemma scan_None: "scan P xs = None \<longleftrightarrow> (\<forall>x \<in> set xs. \<not> P x)"
  by (induction xs) auto

lemma scan_cong: "(\<And>x. x \<in> set xs \<Longrightarrow> P x = Q x) \<Longrightarrow> scan P xs = scan Q xs"
  by (induction xs) auto

lemma scan_unique:
  assumes "distinct (map f xs)" "i < length xs"
  shows "scan (\<lambda>x. f x = f (xs ! i)) xs = Some i"
proof (cases "scan (\<lambda>x. f x = f (xs ! i)) xs")
  case None
  then show ?thesis using assms(2) by (auto simp: scan_None)
next
  case (Some j)
  from scan_Some [OF this] have "j < length xs" "f (xs ! j) = f (xs ! i)" by auto
  then have "j = i"
    using assms nth_eq_iff_index_eq [OF assms(1), of j i] by simp
  with Some show ?thesis by simp
qed

end
