(* ===== verification/Cmem.thy ===== *)
theory Cmem
  imports Prelude
begin

text \<open>
  Byte-addressed memory and the routines of string.c that work on it (with the two string
  instructions of x86.h they use). Memory is a total function from 32-bit addresses to
  bytes; pointers are 32-bit words and pointer arithmetic wraps, as on the machine.

  The lemmas give each routine a closed form: both code paths of \<open>memset\<close> fill the
  same bytes, \<open>memmove\<close> copies the original source bytes even where the two
  regions overlap, \<open>safestrcpy\<close> always leaves a terminated string inside its buffer.
\<close>

section \<open>Memory\<close>

type_synonym mem = "u32 \<Rightarrow> u8"

definition load32 :: "mem \<Rightarrow> u32 \<Rightarrow> u32" where
  "load32 m a = word_of_bytes (m a) (m (a + 1)) (m (a + 2)) (m (a + 3))"

definition store32 :: "mem \<Rightarrow> u32 \<Rightarrow> u32 \<Rightarrow> mem" where
  "store32 m a v = m(a := byte_of v 0, a + 1 := byte_of v 1, a + 2 := byte_of v 2,
                     a + 3 := byte_of v 3)"

section \<open>String instructions (x86.h)\<close>

text \<open>\<open>rep stosb\<close>: \<open>cnt\<close> bytes from \<open>addr\<close> on become the low byte of \<open>data\<close>.\<close>

definition stosb :: "mem \<Rightarrow> u32 \<Rightarrow> u32 \<Rightarrow> u32 \<Rightarrow> mem" where
  "stosb m addr data cnt = (\<lambda>x. if x - addr < cnt then byte_of data 0 else m x)"

text \<open>\<open>rep stosl\<close>: \<open>cnt\<close> four-byte words from \<open>addr\<close> on become \<open>data\<close>.\<close>

definition stosl :: "mem \<Rightarrow> u32 \<Rightarrow> u32 \<Rightarrow> u32 \<Rightarrow> mem" where
  "stosl m addr data cnt =
     (\<lambda>x. if unat (x - addr) < 4 * unat cnt then byte_of data (unat (x - addr) mod 4) else m x)"

section \<open>string.c\<close>

definition memset :: "mem \<Rightarrow> u32 \<Rightarrow> u32 \<Rightarrow> u32 \<Rightarrow> mem" where
  "memset m dst c n =
     (if dst mod 4 = 0 \<and> n mod 4 = 0
      then (let c = c AND 0xFF
            in stosl m dst (push_bit 24 c OR push_bit 16 c OR push_bit 8 c OR c) (n div 4))
      else stosb m dst c n)"

fun memcmp_loop :: "mem \<Rightarrow> u32 \<Rightarrow> u32 \<Rightarrow> nat \<Rightarrow> int" where
  "memcmp_loop m s1 s2 0 = 0"
| "memcmp_loop m s1 s2 (Suc n) =
     (if m s1 \<noteq> m s2 then int (unat (m s1)) - int (unat (m s2))
      else memcmp_loop m (s1 + 1) (s2 + 1) n)"

definition memcmp :: "mem \<Rightarrow> u32 \<Rightarrow> u32 \<Rightarrow> u32 \<Rightarrow> int" where
  "memcmp m v1 v2 n = memcmp_loop m v1 v2 (unat n)"

text \<open>The two loops of \<open>memmove\<close>: upwards, and downwards from the end pointers.\<close>

fun memmove_up :: "mem \<Rightarrow> u32 \<Rightarrow> u32 \<Rightarrow> nat \<Rightarrow> mem" where
  "memmove_up m d s 0 = m"
| "memmove_up m d s (Suc n) = memmove_up (m(d := m s)) (d + 1) (s + 1) n"

fun memmove_down :: "mem \<Rightarrow> u32 \<Rightarrow> u32 \<Rightarrow> nat \<Rightarrow> mem" where
  "memmove_down m d s 0 = m"
| "memmove_down m d s (Suc n) = memmove_down (m(d - 1 := m (s - 1))) (d - 1) (s - 1) n"

definition memmove :: "mem \<Rightarrow> u32 \<Rightarrow> u32 \<Rightarrow> u32 \<Rightarrow> mem" where
  "memmove m dst src n =
     (if src < dst \<and> src + n > dst then memmove_down m (dst + n) (src + n) (unat n)
      else memmove_up m dst src (unat n))"

definition memcpy :: "mem \<Rightarrow> u32 \<Rightarrow> u32 \<Rightarrow> u32 \<Rightarrow> mem" where
  "memcpy m dst src n = memmove m dst src n"

fun strncmp_loop :: "mem \<Rightarrow> u32 \<Rightarrow> u32 \<Rightarrow> nat \<Rightarrow> int" where
  "strncmp_loop m p q 0 = 0"
| "strncmp_loop m p q (Suc n) =
     (if m p \<noteq> 0 \<and> m p = m q then strncmp_loop m (p + 1) (q + 1) n
      else int (unat (m p)) - int (unat (m q)))"

definition strncmp :: "mem \<Rightarrow> u32 \<Rightarrow> u32 \<Rightarrow> u32 \<Rightarrow> int" where
  "strncmp m p q n = strncmp_loop m p q (unat n)"

fun strncpy_pad :: "mem \<Rightarrow> u32 \<Rightarrow> nat \<Rightarrow> mem" where
  "strncpy_pad m s 0 = m"
| "strncpy_pad m s (Suc n) = strncpy_pad (m(s := 0)) (s + 1) n"

fun strncpy_copy :: "mem \<Rightarrow> u32 \<Rightarrow> u32 \<Rightarrow> nat \<Rightarrow> mem" where
  "strncpy_copy m s t 0 = m"
| "strncpy_copy m s t (Suc n) =
     (let c = m t; m = m(s := c)
      in if c \<noteq> 0 then strncpy_copy m (s + 1) (t + 1) n else strncpy_pad m (s + 1) n)"

definition strncpy :: "mem \<Rightarrow> u32 \<Rightarrow> u32 \<Rightarrow> int \<Rightarrow> mem" where
  "strncpy m s t n = strncpy_copy m s t (nat n)"

text \<open>
  After the loop stops at the terminator it has just copied, \<open>s\<close> points one past it, and
  the final \<open>*s = 0\<close> stores a second zero byte there.
\<close>

fun safestrcpy_loop :: "mem \<Rightarrow> u32 \<Rightarrow> u32 \<Rightarrow> nat \<Rightarrow> mem" where
  "safestrcpy_loop m s t 0 = m(s := 0)"
| "safestrcpy_loop m s t (Suc n) =
     (let c = m t; m = m(s := c)
      in if c \<noteq> 0 then safestrcpy_loop m (s + 1) (t + 1) n else m(s + 1 := 0))"

definition safestrcpy :: "mem \<Rightarrow> u32 \<Rightarrow> u32 \<Rightarrow> int \<Rightarrow> mem" where
  "safestrcpy m s t n = (if n \<le> 0 then m else safestrcpy_loop m s t (nat n - 1))"

text \<open>\<open>strlen\<close> does not return on memory without a zero byte.\<close>

partial_function (option) strlen_from :: "mem \<Rightarrow> u32 \<Rightarrow> nat \<Rightarrow> nat option" where
  "strlen_from m s n = (if m (s + of_nat n) = 0 then Some n else strlen_from m s (Suc n))"

definition strlen :: "mem \<Rightarrow> u32 \<Rightarrow> nat option" where
  "strlen m s = strlen_from m s 0"

section \<open>Terminated strings\<close>

text \<open>The string at an address: its bytes up to the terminator, looking at most at \<open>n\<close> bytes.\<close>

fun cstr :: "mem \<Rightarrow> u32 \<Rightarrow> nat \<Rightarrow> u8 list" where
  "cstr m p 0 = []"
| "cstr m p (Suc n) = (if m p = 0 then [] else m p # cstr m (p + 1) n)"

section \<open>Addresses\<close>

lemma addr_eq:
  fixes a b :: u32
  assumes "unat a + k < 4294967296" "unat b + j < 4294967296"
  shows "a + of_nat k = b + of_nat j \<longleftrightarrow> unat a + k = unat b + j"
proof -
  have "unat (a + of_nat k) = unat a + k" "unat (b + of_nat j) = unat b + j"
    using assms by (simp_all add: unat_add32 unat_of_nat32)
  then show ?thesis
    by (simp add: word_eq_unat)
qed

lemma offset_of_nat: "x = d + of_nat (unat (x - d))" for x d :: u32
  by simp

lemma unat_offset [simp]:
  "k < 4294967296 \<Longrightarrow> unat (d + of_nat k - d :: u32) = k"
  by (simp add: unat_of_nat32)

text \<open>Two memories are equal if they agree at every offset from a base address.\<close>

lemma mem_eqI:
  fixes m m' :: mem
  assumes "\<And>k. k < 4294967296 \<Longrightarrow> m (d + of_nat k) = m' (d + of_nat k)"
  shows "m = m'"
proof
  fix x
  show "m x = m' x"
    using assms [of "unat (x - d)"] by (metis offset_of_nat unat_lt2p32)
qed

lemma load32_store32_same [simp]: "load32 (store32 m a v) a = v"
proof -
  have "a + 1 \<noteq> a" "a + 2 \<noteq> a" "a + 3 \<noteq> a" "a + 2 \<noteq> a + 1" "a + 3 \<noteq> a + 1" "a + 3 \<noteq> a + 2"
    by simp_all
  then show ?thesis
    by (simp add: load32_def store32_def)
qed

lemma store32_other: "unat (x - a) \<ge> 4 \<Longrightarrow> store32 m a v x = m x"
proof -
  assume "unat (x - a) \<ge> 4"
  moreover have "unat (0::u32) = 0" "unat (1::u32) = 1" "unat (2::u32) = 2" "unat (3::u32) = 3"
    by simp_all
  ultimately have "x - a \<noteq> 0" "x - a \<noteq> 1" "x - a \<noteq> 2" "x - a \<noteq> 3"
    by auto
  then have "x \<noteq> a" "x \<noteq> a + 1" "x \<noteq> a + 2" "x \<noteq> a + 3"
    by (auto simp: algebra_simps)
  then show ?thesis
    by (simp add: store32_def)
qed

lemma load32_cong:
  "m a = m' a \<Longrightarrow> m (a + 1) = m' (a + 1) \<Longrightarrow> m (a + 2) = m' (a + 2) \<Longrightarrow> m (a + 3) = m' (a + 3)
     \<Longrightarrow> load32 m a = load32 m' a"
  by (simp add: load32_def)

lemma load32_store32_other:
  assumes "4 \<le> unat (b - a)" "4 \<le> unat (a - b)"
  shows "load32 (store32 m a v) b = load32 m b"
proof -
  have "unat (b - a) + 4 \<le> 4294967296"
    using assms(2) unat_lt2p32 [of "b - a"] unat_lt2p32 [of "a - b"]
    by (auto simp: unat_sub32 split: if_splits)
  then have "unat (b + i - a) = unat (b - a) + unat i" if "unat i < 4" for i
    using that unat_add32_small [of "b - a" i] by (simp add: algebra_simps)
  then have "store32 m a v (b + i) = m (b + i)" if "unat i < 4" for i
    using that assms(1) by (intro store32_other) simp
  from this [of 0] this [of 1] this [of 2] this [of 3] show ?thesis
    by (intro load32_cong) simp_all
qed

section \<open>Closed forms of the block routines\<close>

lemma byte_of_ucast: "byte_of v i = ucast (drop_bit (8 * i) v)"
proof -
  have "unat (drop_bit (8 * i) v) = unat v div 256 ^ i"
    by (simp add: unsigned_drop_bit_eq drop_bit_nat_def power_mult take_bit_nat_def)
  then have "byte_of v i = of_nat (unat (drop_bit (8 * i) v))"
    by (simp only: byte_of_def)
  then show ?thesis
    by (simp only: of_nat_unat)
qed

lemma fill_word_bytes:
  assumes "i < 4"
  shows "byte_of (push_bit 24 (c AND 0xFF) OR push_bit 16 (c AND 0xFF) OR push_bit 8 (c AND 0xFF)
                  OR (c AND 0xFF)) i = byte_of c 0"
proof -
  have m: "(0xFF :: u32) = mask 8"
    by (simp add: mask_eq_exp_minus_1)
  from assms consider "i = 0" | "i = 1" | "i = 2" | "i = 3" by linarith
  then show ?thesis
    unfolding byte_of_ucast m
    by cases (rule bit_eqI; auto simp: bit_simps)+
qed

lemma memset_eq: "memset m dst c n = (\<lambda>x. if x - dst < n then byte_of c 0 else m x)"
proof (cases "dst mod 4 = 0 \<and> n mod 4 = 0")
  case True
  then have "unat n mod 4 = 0"
    using unat_mod_distrib [of n 4] by simp
  then have "4 * unat (n div 4) = unat n"
    using mult_div_mod_eq [of 4 "unat n"] by (simp add: unat_div_distrib)
  moreover have "unat (x - dst) mod 4 < 4" for x
    by simp
  ultimately have "stosl m dst (push_bit 24 (c AND 0xFF) OR push_bit 16 (c AND 0xFF)
        OR push_bit 8 (c AND 0xFF) OR (c AND 0xFF)) (n div 4)
      = (\<lambda>x. if x - dst < n then byte_of c 0 else m x)"
    by (simp only: stosl_def fill_word_bytes word_less_nat_alt)
  with True show ?thesis
    by (simp only: memset_def Let_def simp_thms if_True)
next
  case False
  then show ?thesis
    by (simp only: memset_def stosb_def if_False)
qed


lemma memmove_up_eq:
  assumes "unat s + n \<le> 4294967296" "unat d + n \<le> 4294967296"
    and "unat d \<le> unat s \<or> unat s + n \<le> unat d"
  shows "memmove_up m d s n = (\<lambda>x. if unat (x - d) < n then m (s + (x - d)) else m x)"
  using assms
proof (induction m d s n rule: memmove_up.induct)
  case (1 m d s)
  then show ?case by simp
next
  case (2 m d s n)
  have pre: "n = 0 \<or> unat (s + 1) = unat s + 1 \<and> unat (d + 1) = unat d + 1"
    using "2.prems"(1,2) by (auto simp: unat_add32)
  have IH: "memmove_up (m(d := m s)) (d + 1) (s + 1) n =
      (\<lambda>x. if unat (x - (d + 1)) < n then (m(d := m s)) (s + 1 + (x - (d + 1)))
           else (m(d := m s)) x)"
  proof (cases "n = 0")
    case False
    with pre "2.prems" show ?thesis
      by (intro "2.IH") auto
  qed (simp add: fun_eq_iff)
  show ?case
  proof
    fix x
    show "memmove_up m d s (Suc n) x =
        (if unat (x - d) < Suc n then m (s + (x - d)) else m x)"
    proof (cases "x = d")
      case True
      have "unat (- 1 :: u32) = 4294967295" by (simp add: unsigned_minus_1_eq_mask mask_eq_exp_minus_1)
      moreover have "n < 4294967296" using "2.prems"(1) by simp
      ultimately show ?thesis
        using True by (simp add: IH)
    next
      case False
      then have "x - d \<noteq> 0" by simp
      then have k: "unat (x - (d + 1)) = unat (x - d) - 1" "0 < unat (x - d)"
        using unat_minus_one [of "x - d"] by (simp_all add: algebra_simps unat_gt_0)
      have "s + (x - d) \<noteq> d" if "unat (x - d) < Suc n"
        using addr_eq [of s "unat (x - d)" d 0] that k(2) "2.prems" by auto
      moreover have "s + 1 + (x - (d + 1)) = s + (x - d)"
        by simp
      ultimately show ?thesis
        using False k by (auto simp: IH)
    qed
  qed
qed

lemma memmove_down_eq:
  assumes "unat s + n \<le> 4294967296" "unat d + n \<le> 4294967296" "unat s < unat d"
  shows "memmove_down m (d + of_nat n) (s + of_nat n) n =
     (\<lambda>x. if unat (x - d) < n then m (s + (x - d)) else m x)"
  using assms
proof (induction n arbitrary: m)
  case 0
  then show ?case by simp
next
  case (Suc n)
  let ?m = "m(d + of_nat n := m (s + of_nat n))"
  have IH: "memmove_down ?m (d + of_nat n) (s + of_nat n) n =
      (\<lambda>x. if unat (x - d) < n then ?m (s + (x - d)) else ?m x)"
    using Suc.prems by (intro Suc.IH) auto
  have "memmove_down m (d + of_nat (Suc n)) (s + of_nat (Suc n)) (Suc n) =
      memmove_down ?m (d + of_nat n) (s + of_nat n) n"
    by (simp add: algebra_simps)
  also have "\<dots> = (\<lambda>x. if unat (x - d) < Suc n then m (s + (x - d)) else m x)"
  proof
    fix x
    have x: "x = d + of_nat n \<longleftrightarrow> unat (x - d) = n"
    proof
      assume "x = d + of_nat n"
      then show "unat (x - d) = n" using Suc.prems(1) by (simp add: unat_of_nat32)
    next
      assume "unat (x - d) = n"
      then show "x = d + of_nat n" using offset_of_nat [of x d] by simp
    qed
    have "s + (x - d) \<noteq> d + of_nat n" if "unat (x - d) < n"
      using addr_eq [of s "unat (x - d)" d n] that Suc.prems by auto
    then show "memmove_down ?m (d + of_nat n) (s + of_nat n) n x =
        (if unat (x - d) < Suc n then m (s + (x - d)) else m x)"
      using x by (auto simp: IH less_Suc_eq)
  qed
  finally show ?case .
qed

lemma memmove_eq:
  assumes "unat src + unat n < 4294967296" "unat dst + unat n \<le> 4294967296"
  shows "memmove m dst src n = (\<lambda>x. if x - dst < n then m (src + (x - dst)) else m x)"
proof (cases "src < dst \<and> src + n > dst")
  case True
  then have "unat src < unat dst"
    by (simp add: word_less_nat_alt)
  from memmove_down_eq [OF less_imp_le [OF assms(1)] assms(2) this, of m] True show ?thesis
    by (simp add: memmove_def word_less_nat_alt)
next
  case False
  have "unat dst \<le> unat src \<or> unat src + unat n \<le> unat dst"
  proof -
    from assms(1) have "unat (src + n) = unat src + unat n"
      by (simp add: unat_add32)
    with False show ?thesis
      by (auto simp: word_less_nat_alt)
  qed
  from memmove_up_eq [OF less_imp_le [OF assms(1)] assms(2) this, of m] False show ?thesis
    by (auto simp add: memmove_def word_less_nat_alt)
qed

lemma cstr_cong:
  "(\<And>i. i < n \<Longrightarrow> m (p + of_nat i) = m' (p + of_nat i)) \<Longrightarrow> cstr m p n = cstr m' p n"
proof (induction n arbitrary: p)
  case (Suc n)
  have "cstr m (p + 1) n = cstr m' (p + 1) n"
  proof (rule Suc.IH)
    fix i assume "i < n"
    then show "m (p + 1 + of_nat i) = m' (p + 1 + of_nat i)"
      using Suc.prems [of "Suc i"] by (simp add: add.assoc)
  qed
  moreover have "m p = m' p"
    using Suc.prems [of 0] by simp
  ultimately show ?case by simp
qed simp

lemma length_cstr: "length (cstr m p n) \<le> n"
  by (induction n arbitrary: p) auto

lemma strncmp_loop_eq_0: "strncmp_loop m p q n = 0 \<longleftrightarrow> cstr m p n = cstr m q n"
  by (induction n arbitrary: p q) (auto simp: word_uint_eq_iff)

lemma strncmp_eq_0: "strncmp m p q n = 0 \<longleftrightarrow> cstr m p (unat n) = cstr m q (unat n)"
  by (simp add: strncmp_def strncmp_loop_eq_0)

lemma strlen_from_first_zero:
  assumes "\<forall>i. n \<le> i \<and> i < k \<longrightarrow> m (s + of_nat i) \<noteq> 0" and "m (s + of_nat k) = 0" and "n \<le> k"
  shows "strlen_from m s n = Some k"
  using assms(3,1)
proof (induction rule: inc_induct)
  case base
  then show ?case using assms(2) by (simp add: strlen_from.simps)
next
  case (step n)
  then have "m (s + of_nat n) \<noteq> 0" by simp
  moreover have "strlen_from m s (Suc n) = Some k"
    using step by auto
  ultimately show ?case
    by (subst strlen_from.simps) simp
qed

lemma strlen_first_zero:
  assumes "\<forall>i < k. m (s + of_nat i) \<noteq> 0" and "m (s + of_nat k) = 0"
  shows "strlen m s = Some k"
  unfolding strlen_def by (rule strlen_from_first_zero) (use assms in auto)

text \<open>Bytes outside the destination buffer are not touched.\<close>

lemma shift_offset: "unat (x - s) \<noteq> 0 \<Longrightarrow> unat (x - (s + 1)) = unat (x - s) - 1" for x s :: u32
  using unat_minus_one [of "x - s"] by (metis add_diff_eq diff_diff_add unat_0)

lemma strncpy_pad_eq:
  "n \<le> 4294967296 \<Longrightarrow> strncpy_pad m s n = (\<lambda>x. if unat (x - s) < n then 0 else m x)"
proof (induction n arbitrary: m s)
  case (Suc n)
  show ?case
  proof
    fix x
    have "unat (- 1 :: u32) = 4294967295"
      by (simp add: unsigned_minus_1_eq_mask mask_eq_exp_minus_1)
    then show "strncpy_pad m s (Suc n) x = (if unat (x - s) < Suc n then 0 else m x)"
      using Suc shift_offset [of x s] by (cases "x = s") (auto simp: unat_eq_zero)
  qed
qed simp

lemma safestrcpy_loop_frame:
  "Suc n \<le> unat (x - s) \<Longrightarrow> safestrcpy_loop m s t n x = m x"
proof (induction n arbitrary: m s t)
  case 0
  then show ?case by auto
next
  case (Suc n)
  then have "unat (x - (s + 1)) = unat (x - s) - 1"
    by (intro shift_offset) auto
  with Suc have "Suc n \<le> unat (x - (s + 1))" and "x \<noteq> s" "x \<noteq> s + 1"
    by auto
  then show ?case
    using Suc.IH by (simp add: Let_def)
qed

lemma safestrcpy_loop_cstr:
  assumes "unat s + n < 4294967296" "unat t + n \<le> 4294967296"
    and "unat s + n < unat t \<or> unat t + n \<le> unat s"
  shows "cstr (safestrcpy_loop m s t n) s (Suc n) = cstr m t n"
  using assms
proof (induction n arbitrary: m s t)
  case (Suc n)
  let ?m = "m(s := m t)"
  have s1: "unat (s + 1) = unat s + 1"
    using Suc.prems(1) by (simp add: unat_add32)
  have t1: "n = 0 \<or> unat (t + 1) = unat t + 1"
    using Suc.prems(2) by (cases "n = 0") (auto intro: unat_add32_small [of t 1, simplified])
  show ?case
  proof (cases "m t = 0")
    case True
    then show ?thesis by (simp add: Let_def)
  next
    case False
    let ?r = "safestrcpy_loop ?m (s + 1) (t + 1) n"
    have "?r s = ?m s"
    proof (rule safestrcpy_loop_frame)
      have "unat (- 1 :: u32) = 4294967295"
        by (simp add: unsigned_minus_1_eq_mask mask_eq_exp_minus_1)
      then show "Suc n \<le> unat (s - (s + 1))"
        using Suc.prems(1) by simp
    qed
    moreover have "cstr ?r (s + 1) (Suc n) = cstr ?m (t + 1) n"
    proof (cases "n = 0")
      case False
      show ?thesis
        by (rule Suc.IH) (use Suc.prems s1 t1 False in auto)
    qed simp
    moreover have "cstr ?m (t + 1) n = cstr m (t + 1) n"
    proof (rule cstr_cong)
      fix i assume "i < n"
      then have "t + of_nat (Suc i) \<noteq> s + of_nat 0"
        using Suc.prems by (subst addr_eq) auto
      then show "?m (t + 1 + of_nat i) = m (t + 1 + of_nat i)"
        by (simp add: add.assoc)
    qed
    ultimately show ?thesis
      using False by (simp add: Let_def)
  qed
qed simp


section \<open>Properties\<close>

text \<open>
  \<open>memset\<close> fills exactly the \<open>n\<close> bytes from \<open>dst\<close> on with the low byte of
  \<open>c\<close>, whichever of its two code paths (four bytes at a time, or one) it takes.
\<close>

theorem memset_fills: "memset m dst c n x = (if x - dst < n then byte_of c 0 else m x)"
  by (simp only: memset_eq)

text \<open>
  C39. \<open>memmove\<close> copies the bytes the source region held before the call, also where source and
  destination overlap in either direction, and changes nothing else. The regions must not run
  over the end of the address space.
\<close>

theorem memmove_copies:
  assumes "unat src + unat n < 4294967296" "unat dst + unat n \<le> 4294967296"
  shows "memmove m dst src n x = (if x - dst < n then m (src + (x - dst)) else m x)"
  using memmove_eq [OF assms, of m] by simp

theorem memmove_copies_witness:
  "memmove (\<lambda>a. ucast a) 0x1002 0x1000 8 0x1005 = 3"
  using memmove_copies [of "0x1000" 8 "0x1002" "\<lambda>a. ucast a" "0x1005"] by simp

text \<open>
  \<open>safestrcpy\<close> with a positive size leaves, in a destination that does not overlap
  the bytes it reads, the source string cut to \<open>n - 1\<close> characters and terminated inside the
  \<open>n\<close>-byte buffer, and touches no byte outside that buffer.
\<close>

theorem safestrcpy_correct:
  assumes "0 < n" "unat s + nat n \<le> 4294967296" "unat t + nat n \<le> 4294967296"
    and "unat s + nat n \<le> unat t \<or> unat t + nat n \<le> unat s"
  shows "cstr (safestrcpy m s t n) s (nat n) = cstr m t (nat n - 1) \<and>
    (\<forall>x. nat n \<le> unat (x - s) \<longrightarrow> safestrcpy m s t n x = m x)"
proof -
  obtain k where k: "nat n = Suc k"
    using assms(1) by (metis gr0_conv_Suc zero_less_nat_eq)
  then have e: "safestrcpy m s t n = safestrcpy_loop m s t k"
    using assms(1) by (simp add: safestrcpy_def)
  have "cstr (safestrcpy m s t n) s (nat n) = cstr m t (nat n - 1)"
    using safestrcpy_loop_cstr [of s k t m] assms k by (auto simp: e)
  moreover have "safestrcpy m s t n x = m x" if "nat n \<le> unat (x - s)" for x
    using safestrcpy_loop_frame [of k x s m t] that k by (simp add: e)
  ultimately show ?thesis by blast
qed

theorem safestrcpy_correct_witness:
  "cstr (safestrcpy (\<lambda>a. if a < 105 then 65 else 0) 0 100 4) 0 4 = [65, 65, 65]"
proof -
  have "cstr (\<lambda>a. if a < 105 then 65 else 0) 100 3 = [65, 65, 65]"
    by (simp add: numeral_3_eq_3)
  then show ?thesis
    using safestrcpy_correct [of 4 0 100 "\<lambda>a. if a < 105 then 65 else 0"] by simp
qed

end
