(* ===== verification/Machine.thy ===== *)
theory Machine
  imports Cmem
begin

text \<open>
  The processor state that kernel code reads and writes: the per-CPU structures of proc.h
  and mmu.h, the registers of the processor that executes, and the spin locks. Every other
  component of the kernel extends the record \<open>machine\<close> by its own fields, in the order in
  which the kernel's layers call each other, so that an operation of a lower layer applies
  to the state of every layer above it.
\<close>

section \<open>Constants of param.h and mmu.h\<close>

definition NCPU :: nat where "NCPU = 8"

definition SEG_KCODE :: nat where "SEG_KCODE = 1"
definition SEG_KDATA :: nat where "SEG_KDATA = 2"
definition SEG_UCODE :: nat where "SEG_UCODE = 3"
definition SEG_UDATA :: nat where "SEG_UDATA = 4"
definition SEG_TSS :: nat where "SEG_TSS = 5"
definition DPL_USER :: nat where "DPL_USER = 3"

section \<open>Segment descriptors\<close>

text \<open>The bit fields of \<open>struct segdesc\<close>, each kept as the number it holds (\<open>SEG\<close> truncates to the field's width).\<close>

record segdesc =
  lim_15_0 :: nat
  base_15_0 :: nat
  base_23_16 :: nat
  seg_type :: nat
  seg_s :: nat
  seg_dpl :: nat
  seg_p :: nat
  lim_19_16 :: nat
  seg_avl :: nat
  seg_rsv1 :: nat
  seg_db :: nat
  seg_g :: nat
  base_31_24 :: nat

text \<open>The macros \<open>SEG\<close> and \<open>SEG16\<close>.\<close>

definition SEG :: "nat \<Rightarrow> u32 \<Rightarrow> u32 \<Rightarrow> nat \<Rightarrow> segdesc" where
  "SEG ty base lim dpl =
     \<lparr>lim_15_0 = unat (drop_bit 12 lim AND 0xffff), base_15_0 = unat (base AND 0xffff),
      base_23_16 = unat (drop_bit 16 base AND 0xff), seg_type = ty mod 16, seg_s = 1, seg_dpl = dpl mod 4,
      seg_p = 1, lim_19_16 = unat (drop_bit 28 lim), seg_avl = 0, seg_rsv1 = 0, seg_db = 1,
      seg_g = 1, base_31_24 = unat (drop_bit 24 base)\<rparr>"

definition SEG16 :: "nat \<Rightarrow> u32 \<Rightarrow> u32 \<Rightarrow> nat \<Rightarrow> segdesc" where
  "SEG16 ty base lim dpl =
     \<lparr>lim_15_0 = unat (lim AND 0xffff), base_15_0 = unat (base AND 0xffff),
      base_23_16 = unat (drop_bit 16 base AND 0xff), seg_type = ty mod 16, seg_s = 1, seg_dpl = dpl mod 4,
      seg_p = 1, lim_19_16 = unat (drop_bit 16 lim) mod 16, seg_avl = 0, seg_rsv1 = 0, seg_db = 1,
      seg_g = 0, base_31_24 = unat (drop_bit 24 base)\<rparr>"

text \<open>The fields of \<open>struct taskstate\<close> that the kernel writes.\<close>

record taskstate =
  ss0 :: nat
  esp0 :: u32
  iomb :: nat

section \<open>Processors and spin locks\<close>

text \<open>
  \<open>struct cpu\<close>. A pointer to a process is its index in the process table, \<open>None\<close> for the null
  pointer; \<open>ts_addr\<close> is the address of the \<open>ts\<close> field, which \<open>switchuvm\<close> puts in a descriptor.
  The saved scheduler context is not modelled: it is only used by swtch.S.
\<close>

record cpu =
  apicid :: u8
  ts :: taskstate
  ts_addr :: u32
  gdt :: "segdesc list"
  started :: bool
  ncli :: int
  intena :: bool
  cproc :: "nat option"

text \<open>The spin locks of the kernel, by the structure they are part of.\<close>

datatype lock =
    Lptable | Lkmem | Lcons | Ltickslock | Lidelock | Lbcache | Llog | Lftable | Licache
  | Lbuf nat      \<comment> \<open>the spin lock inside the sleep lock of buffer \<open>i\<close>\<close>
  | Linode nat    \<comment> \<open>the spin lock inside the sleep lock of in-memory inode \<open>i\<close>\<close>
  | Lpipe u32     \<comment> \<open>the lock of the pipe at that address\<close>

text \<open>
  \<open>struct spinlock\<close>. A pointer to a \<open>struct cpu\<close> is its index in \<open>cpus\<close>. The recorded call
  stack \<open>pcs\<close>, which no code of the kernel reads, is not modelled.
\<close>

record spinlock =
  locked :: u32
  lname :: string
  lcpu :: "nat option"

record machine =
  cpus :: "cpu list"
  ncpu :: nat
  lapic_id :: u8        \<comment> \<open>what \<open>lapicid()\<close> reads on the executing processor\<close>
  IF :: bool            \<comment> \<open>the interrupt flag of its eflags\<close>
  cr3 :: u32
  tr :: nat
  gdtr :: "segdesc list"
  locks :: "lock \<Rightarrow> spinlock"
  printed :: "string list"  \<comment> \<open>the messages given to \<open>cprintf\<close>, in order\<close>

text \<open>
  A call of \<open>cprintf\<close> from a kernel routine, recorded by its format string; how the console
  renders the text is the business of console.c.
\<close>

definition cprintf :: "string \<Rightarrow> 'a machine_scheme \<Rightarrow> 'a machine_scheme" where
  "cprintf fmt s = s\<lparr>printed := printed s @ [fmt]\<rparr>"

definition cli :: "'a machine_scheme \<Rightarrow> 'a machine_scheme" where
  "cli s = s\<lparr>IF := False\<rparr>"

definition sti :: "'a machine_scheme \<Rightarrow> 'a machine_scheme" where
  "sti s = s\<lparr>IF := True\<rparr>"

text \<open>Update of one processor structure and of one lock.\<close>

definition upd_cpu :: "nat \<Rightarrow> (cpu \<Rightarrow> cpu) \<Rightarrow> 'a machine_scheme \<Rightarrow> 'a machine_scheme" where
  "upd_cpu c f s = s\<lparr>cpus := (cpus s)[c := f (cpus s ! c)]\<rparr>"

definition upd_lock :: "lock \<Rightarrow> (spinlock \<Rightarrow> spinlock) \<Rightarrow> 'a machine_scheme \<Rightarrow> 'a machine_scheme" where
  "upd_lock l f s = s\<lparr>locks := (locks s)(l := f (locks s l))\<rparr>"

lemmas [state_defs] = cli_def sti_def upd_cpu_def upd_lock_def

text \<open>proc.c: which entry of \<open>cpus\<close> is the executing processor, by a scan for its APIC id.\<close>

definition this_cpu :: "'a machine_scheme \<Rightarrow> nat option" where
  "this_cpu s = scan (\<lambda>c. apicid c = lapic_id s) (take (ncpu s) (cpus s))"

definition mycpu :: "'a machine_scheme \<Rightarrow> (nat, 'a machine_scheme) kres" where
  "mycpu s =
     (if IF s then Panic (''mycpu called with interrupts enabled'' @ [CHR 0x0A])
      else (case this_cpu s of
              Some i \<Rightarrow> Ret i s
            | None \<Rightarrow> Panic (''unknown apicid'' @ [CHR 0x0A])))"

definition cpuid :: "'a machine_scheme \<Rightarrow> (nat, 'a machine_scheme) kres" where
  "cpuid s = mycpu s"

end
