(* ===== verification/Spinlock.thy ===== *)
theory Spinlock
  imports Machine
begin

text \<open>
  spinlock.c: interrupt nesting (\<open>pushcli\<close>, \<open>popcli\<close>), the spin locks and the stack walk
  \<open>getcallerpcs\<close>. Each routine is given its exact result on the
  processor that runs it; Smp.thy interleaves several processors.
\<close>

section \<open>spinlock.c\<close>

definition initlock :: "lock \<Rightarrow> string \<Rightarrow> 'a machine_scheme \<Rightarrow> 'a machine_scheme" where
  "initlock l name s = upd_lock l (\<lambda>k. k\<lparr>lname := name, locked := 0, lcpu := None\<rparr>) s"

definition pushcli :: "'a machine_scheme \<Rightarrow> (unit, 'a machine_scheme) kres" where
  "pushcli s =
     (let eflags = IF s; s = cli s
      in bnd (mycpu s) (\<lambda>c s.
         let s = (if ncli (cpus s ! c) = 0 then upd_cpu c (\<lambda>k. k\<lparr>intena := eflags\<rparr>) s else s)
         in Ret () (upd_cpu c (\<lambda>k. k\<lparr>ncli := ncli k + 1\<rparr>) s)))"

definition popcli :: "'a machine_scheme \<Rightarrow> (unit, 'a machine_scheme) kres" where
  "popcli s =
     (if IF s then Panic ''popcli - interruptible''
      else bnd (mycpu s) (\<lambda>c s.
        let s = upd_cpu c (\<lambda>k. k\<lparr>ncli := ncli k - 1\<rparr>) s
        in if ncli (cpus s ! c) < 0 then Panic ''popcli''
           else if ncli (cpus s ! c) = 0 \<and> intena (cpus s ! c) then Ret () (sti s)
           else Ret () s))"

definition holding :: "lock \<Rightarrow> 'a machine_scheme \<Rightarrow> (bool, 'a machine_scheme) kres" where
  "holding l s =
     bnd (pushcli s) (\<lambda>_ s.
     bnd (mycpu s) (\<lambda>c s.
     let r = (locked (locks s l) \<noteq> 0 \<and> lcpu (locks s l) = Some c)
     in bnd (popcli s) (\<lambda>_ s. Ret r s)))"

text \<open>
  \<open>acquire\<close>, in the pieces at which other processors can interleave: entry (interrupts off,
  check that this processor does not hold the lock), the atomic exchange, and the record of
  the owner.
\<close>

definition acq_enter :: "lock \<Rightarrow> 'a machine_scheme \<Rightarrow> (unit, 'a machine_scheme) kres" where
  "acq_enter l s =
     bnd (pushcli s) (\<lambda>_ s.
     bnd (holding l s) (\<lambda>h s. if h then Panic ''acquire'' else Ret () s))"

definition xchg_locked :: "lock \<Rightarrow> 'a machine_scheme \<Rightarrow> u32 \<times> 'a machine_scheme" where
  "xchg_locked l s = (locked (locks s l), upd_lock l (\<lambda>k. k\<lparr>locked := 1\<rparr>) s)"

definition acq_record :: "lock \<Rightarrow> 'a machine_scheme \<Rightarrow> (unit, 'a machine_scheme) kres" where
  "acq_record l s = bnd (mycpu s) (\<lambda>c s. Ret () (upd_lock l (\<lambda>k. k\<lparr>lcpu := Some c\<rparr>) s))"

definition acquire :: "lock \<Rightarrow> 'a machine_scheme \<Rightarrow> (unit, 'a machine_scheme) kres" where
  "acquire l s =
     bnd (acq_enter l s) (\<lambda>_ s.
     case xchg_locked l s of (old, s) \<Rightarrow>
       if old \<noteq> 0 then Spin else acq_record l s)"

text \<open>\<open>release\<close>, in the pieces: check and clear the owner, store zero, \<open>popcli\<close>.\<close>

definition rel_clear :: "lock \<Rightarrow> 'a machine_scheme \<Rightarrow> (unit, 'a machine_scheme) kres" where
  "rel_clear l s =
     bnd (holding l s) (\<lambda>h s.
       if \<not> h then Panic ''release'' else Ret () (upd_lock l (\<lambda>k. k\<lparr>lcpu := None\<rparr>) s))"

definition rel_unlock :: "lock \<Rightarrow> 'a machine_scheme \<Rightarrow> 'a machine_scheme" where
  "rel_unlock l s = upd_lock l (\<lambda>k. k\<lparr>locked := 0\<rparr>) s"

definition release :: "lock \<Rightarrow> 'a machine_scheme \<Rightarrow> (unit, 'a machine_scheme) kres" where
  "release l s = bnd (rel_clear l s) (\<lambda>_ s. popcli (rel_unlock l s))"

text \<open>
  The walk up the \<open>%ebp\<close> chain: at most ten return addresses, stopping at a frame pointer that
  is not a kernel address; the rest of the array is zero.
\<close>

fun getcallerpcs_loop :: "mem \<Rightarrow> u32 \<Rightarrow> nat \<Rightarrow> u32 list" where
  "getcallerpcs_loop m ebp 0 = []"
| "getcallerpcs_loop m ebp (Suc n) =
     (if ebp = 0 \<or> ebp < 0x80000000 \<or> ebp = 0xffffffff then replicate (Suc n) 0
      else load32 m (ebp + 4) # getcallerpcs_loop m (load32 m ebp) n)"

definition getcallerpcs :: "mem \<Rightarrow> u32 \<Rightarrow> u32 list" where
  "getcallerpcs m v = getcallerpcs_loop m (v - 8) 10"

section \<open>One processor\<close>

text \<open>The state in which kernel code runs on processor \<open>c\<close>.\<close>

definition cpu_ok :: "nat \<Rightarrow> 'a machine_scheme \<Rightarrow> bool" where
  "cpu_ok c s \<longleftrightarrow> this_cpu s = Some c \<and> 0 \<le> ncli (cpus s ! c) \<and> (0 < ncli (cpus s ! c) \<longrightarrow> \<not> IF s)"

text \<open>The effect of each routine as a state transformer.\<close>

definition push_st :: "nat \<Rightarrow> 'a machine_scheme \<Rightarrow> 'a machine_scheme" where
  "push_st c s = s\<lparr>IF := False,
     cpus := (cpus s)[c := (cpus s ! c)\<lparr>intena := (if ncli (cpus s ! c) = 0 then IF s
                                                   else intena (cpus s ! c)),
                                        ncli := ncli (cpus s ! c) + 1\<rparr>]\<rparr>"

definition pop_st :: "nat \<Rightarrow> 'a machine_scheme \<Rightarrow> 'a machine_scheme" where
  "pop_st c s = s\<lparr>IF := (ncli (cpus s ! c) = 1 \<and> intena (cpus s ! c)),
     cpus := (cpus s)[c := (cpus s ! c)\<lparr>ncli := ncli (cpus s ! c) - 1\<rparr>]\<rparr>"

definition acq_st :: "nat \<Rightarrow> lock \<Rightarrow> 'a machine_scheme \<Rightarrow> 'a machine_scheme" where
  "acq_st c l s = upd_lock l (\<lambda>k. k\<lparr>locked := 1, lcpu := Some c\<rparr>) (push_st c s)"

definition rel_st :: "nat \<Rightarrow> lock \<Rightarrow> 'a machine_scheme \<Rightarrow> 'a machine_scheme" where
  "rel_st c l s = pop_st c (upd_lock l (\<lambda>k. k\<lparr>lcpu := None, locked := 0\<rparr>) s)"

text \<open>A whole critical section, as far as the lock and the interrupt state are concerned.\<close>

definition cs_st :: "nat \<Rightarrow> lock \<Rightarrow> 'a machine_scheme \<Rightarrow> 'a machine_scheme" where
  "cs_st c l s = rel_st c l (acq_st c l s)"

definition lock_free :: "lock \<Rightarrow> 'a machine_scheme \<Rightarrow> bool" where
  "lock_free l s \<longleftrightarrow> locked (locks s l) = 0"

definition lock_held :: "nat \<Rightarrow> lock \<Rightarrow> 'a machine_scheme \<Rightarrow> bool" where
  "lock_held c l s \<longleftrightarrow> locked (locks s l) \<noteq> 0 \<and> lcpu (locks s l) = Some c"

text \<open>
  Two states that processor \<open>c\<close> cannot tell apart by the synchronisation operations: the
  interrupt nesting is the same, and the same locks are free and held.
\<close>

definition same_sync :: "nat \<Rightarrow> 'a machine_scheme \<Rightarrow> 'a machine_scheme \<Rightarrow> bool" where
  "same_sync c s s' \<longleftrightarrow>
     this_cpu s' = this_cpu s \<and> IF s' = IF s \<and> length (cpus s') = length (cpus s) \<and>
     ncli (cpus s' ! c) = ncli (cpus s ! c) \<and> cproc (cpus s' ! c) = cproc (cpus s ! c) \<and>
     (\<forall>l. lock_free l s' = lock_free l s \<and> lock_held c l s' = lock_held c l s)"

named_theorems lock_defs \<open>unfolding of the lock state transformers\<close>

lemmas [lock_defs] =
  push_st_def pop_st_def acq_st_def rel_st_def lock_free_def lock_held_def
  cli_def sti_def upd_cpu_def upd_lock_def

lemma this_cpuD:
  assumes "this_cpu s = Some c"
  shows "c < length (cpus s)" "c < ncpu s" "apicid (cpus s ! c) = lapic_id s"
  using scan_Some [OF assms [unfolded this_cpu_def]] by auto

text \<open>The scan reads the APIC ids only.\<close>

lemma this_cpu_cong:
  assumes "map apicid (cpus s) = map apicid (cpus s')" "ncpu s = ncpu s'" "lapic_id s = lapic_id s'"
  shows "this_cpu s = this_cpu s'"
proof -
  have scan_map: "scan (\<lambda>c. apicid c = a) xs = scan (\<lambda>b. b = a) (map apicid xs)" for a xs
    by (induction xs) auto
  show ?thesis
    using assms by (simp add: this_cpu_def scan_map flip: take_map)
qed

lemma map_apicid_upd [simp]:
  "apicid k = apicid (xs ! c) \<Longrightarrow> map apicid (xs[c := k]) = map apicid xs"
  by (metis list_update_beyond list_update_id map_update nth_map not_le)

lemma this_cpu_simps [simp]:
  "this_cpu (push_st c s) = this_cpu s"
  "this_cpu (pop_st c s) = this_cpu s"
  "this_cpu (acq_st c l s) = this_cpu s"
  "this_cpu (rel_st c l s) = this_cpu s"
  "this_cpu (upd_lock l f s) = this_cpu s"
  "this_cpu (s\<lparr>IF := b\<rparr>) = this_cpu s"
  "this_cpu (s\<lparr>locks := ls\<rparr>) = this_cpu s"
  "map apicid xs = map apicid (cpus s) \<Longrightarrow> this_cpu (s\<lparr>cpus := xs\<rparr>) = this_cpu s"
  by (auto intro!: this_cpu_cong simp: lock_defs)

text \<open>Fields after each transformer.\<close>

lemma st_fields [simp]:
  "IF (push_st c s) = False"
  "IF (acq_st c l s) = False"
  "locks (push_st c s) = locks s"
  "locks (pop_st c s) = locks s"
  "locks (upd_lock l f s) = (locks s)(l := f (locks s l))"
  "locks (acq_st c l s) = (locks s)(l := (locks s l)\<lparr>locked := 1, lcpu := Some c\<rparr>)"
  "locks (rel_st c l s) = (locks s)(l := (locks s l)\<lparr>lcpu := None, locked := 0\<rparr>)"
  "cpus (upd_lock l f s) = cpus s"
  "cpus (acq_st c l s) = cpus (push_st c s)"
  "cpus (rel_st c l s) = cpus (pop_st c s)"
  "IF (upd_lock l f s) = IF s"
  "length (cpus (push_st c s)) = length (cpus s)"
  "length (cpus (pop_st c s)) = length (cpus s)"
  "ncpu (push_st c s) = ncpu s" "ncpu (pop_st c s) = ncpu s" "ncpu (upd_lock l f s) = ncpu s"
  "lapic_id (push_st c s) = lapic_id s" "lapic_id (pop_st c s) = lapic_id s"
  "lapic_id (upd_lock l f s) = lapic_id s"
  by (simp_all add: lock_defs)

lemma ncli_st [simp]:
  "c < length (cpus s) \<Longrightarrow> ncli (cpus (push_st c s) ! c) = ncli (cpus s ! c) + 1"
  "c < length (cpus s) \<Longrightarrow> ncli (cpus (pop_st c s) ! c) = ncli (cpus s ! c) - 1"
  by (simp_all add: lock_defs)

lemma lock_held_st [simp]:
  "lock_held d l (push_st c s) = lock_held d l s"
  "lock_held d l (pop_st c s) = lock_held d l s"
  "lock_free l (push_st c s) = lock_free l s"
  "lock_free l (pop_st c s) = lock_free l s"
  by (simp_all add: lock_held_def lock_free_def)

lemma mycpu_ok: "this_cpu s = Some c \<Longrightarrow> \<not> IF s \<Longrightarrow> mycpu s = Ret c s"
  by (simp add: mycpu_def)

lemma pushcli_ok:
  assumes "this_cpu s = Some c"
  shows "pushcli s = Ret () (push_st c s)"
proof -
  have "mycpu (cli s) = Ret c (cli s)"
    using assms by (intro mycpu_ok) (simp_all add: cli_def)
  then show ?thesis
    using this_cpuD(1) [OF assms] by (simp add: pushcli_def Let_def lock_defs)
qed

lemma popcli_ok:
  assumes "this_cpu s = Some c" "\<not> IF s" "0 < ncli (cpus s ! c)"
  shows "popcli s = Ret () (pop_st c s)"
  using assms this_cpuD(1) [OF assms(1)]
  by (simp add: popcli_def mycpu_ok Let_def lock_defs)

lemma cpu_ok_this: "cpu_ok c s \<Longrightarrow> this_cpu s = Some c"
  by (simp add: cpu_ok_def)

lemma pop_push_st:
  assumes "cpu_ok c s"
  shows "pop_st c (push_st c s) = upd_cpu c (\<lambda>k. k\<lparr>intena := (if ncli k = 0 then IF s else intena k)\<rparr>) s"
proof -
  have "IF (pop_st c (push_st c s)) = IF s"
    using assms this_cpuD(1) [OF cpu_ok_this [OF assms]]
    by (auto simp: lock_defs cpu_ok_def)
  then show ?thesis
    using this_cpuD(1) [OF cpu_ok_this [OF assms]]
    by (simp add: lock_defs) 
qed

text \<open>\<open>holding\<close> answers the question; below another \<open>pushcli\<close> it leaves the state as it was.\<close>

lemma holding_ok:
  assumes "cpu_ok c s"
  shows "holding l s = Ret (lock_held c l s) (pop_st c (push_st c s))"
proof -
  have c: "c < length (cpus s)" and th: "this_cpu s = Some c"
    using assms this_cpuD(1) by (auto simp: cpu_ok_def)
  have m: "mycpu (push_st c s) = Ret c (push_st c s)"
    using th by (intro mycpu_ok) simp_all
  have p: "popcli (push_st c s) = Ret () (pop_st c (push_st c s))"
    using assms th c by (intro popcli_ok) (simp_all add: cpu_ok_def)
  show ?thesis
    using th by (simp add: holding_def pushcli_ok m p Let_def lock_held_def)
qed

lemma holding_nested:
  assumes "this_cpu s = Some c" "\<not> IF s" "0 < ncli (cpus s ! c)"
  shows "holding l s = Ret (lock_held c l s) s"
proof -
  have "cpu_ok c s"
    using assms by (simp add: cpu_ok_def)
  then have "pop_st c (push_st c s) = s"
    using assms(3) by (simp add: pop_push_st upd_cpu_def)
  with \<open>cpu_ok c s\<close> show ?thesis
    by (simp add: holding_ok)
qed

lemma acq_enter_ok:
  assumes "cpu_ok c s" "\<not> lock_held c l s"
  shows "acq_enter l s = Ret () (push_st c s)"
proof -
  have "c < length (cpus s)"
    using assms(1) this_cpuD(1) cpu_ok_this by blast
  then have "holding l (push_st c s) = Ret (lock_held c l (push_st c s)) (push_st c s)"
    using assms(1) by (intro holding_nested) (simp_all add: cpu_ok_def)
  moreover have "\<not> lock_held c l (push_st c s)"
    using assms(2) by simp
  ultimately show ?thesis
    using assms(1) by (simp add: acq_enter_def pushcli_ok cpu_ok_this)
qed

lemma acq_record_ok:
  "this_cpu s = Some c \<Longrightarrow> \<not> IF s \<Longrightarrow>
     acq_record l s = Ret () (upd_lock l (\<lambda>k. k\<lparr>lcpu := Some c\<rparr>) s)"
  by (simp add: acq_record_def mycpu_ok)

lemma acquire_ok:
  assumes "cpu_ok c s" "lock_free l s"
  shows "acquire l s = Ret () (acq_st c l s)"
proof -
  have "\<not> lock_held c l s"
    using assms(2) by (simp add: lock_held_def lock_free_def)
  moreover have "locked (locks (push_st c s) l) = 0"
    using assms(2) by (simp add: lock_free_def)
  ultimately show ?thesis
    using assms(1)
    by (simp add: acquire_def acq_enter_ok xchg_locked_def acq_record_ok cpu_ok_this)
       (simp add: acq_st_def upd_lock_def)
qed

lemma acquire_spins:
  assumes "cpu_ok c s" "\<not> lock_free l s" "\<not> lock_held c l s"
  shows "acquire l s = Spin"
  using assms by (simp add: acquire_def acq_enter_ok xchg_locked_def lock_free_def)

lemma acquire_twice_panics:
  assumes "cpu_ok c s" "lock_held c l s"
  shows "acquire l s = Panic ''acquire''"
proof -
  have "c < length (cpus s)"
    using assms(1) this_cpuD(1) cpu_ok_this by blast
  then have "holding l (push_st c s) = Ret (lock_held c l (push_st c s)) (push_st c s)"
    using assms(1) by (intro holding_nested) (simp_all add: cpu_ok_def)
  moreover have "lock_held c l (push_st c s)"
    using assms(2) by simp
  ultimately show ?thesis
    using assms(1) by (simp add: acquire_def acq_enter_def pushcli_ok cpu_ok_this)
qed

lemma release_ok:
  assumes "cpu_ok c s" "0 < ncli (cpus s ! c)" "lock_held c l s"
  shows "release l s = Ret () (rel_st c l s)"
proof -
  let ?s = "upd_lock l (\<lambda>k. k\<lparr>lcpu := None, locked := 0\<rparr>) s"
  have "popcli ?s = Ret () (pop_st c ?s)"
    using assms by (intro popcli_ok) (simp_all add: cpu_ok_def)
  moreover have "rel_unlock l (upd_lock l (\<lambda>k. k\<lparr>lcpu := None\<rparr>) s) = ?s"
    by (simp add: rel_unlock_def upd_lock_def)
  moreover have "holding l s = Ret True s"
    using assms by (simp add: holding_nested cpu_ok_def)
  ultimately show ?thesis
    by (simp add: release_def rel_clear_def rel_st_def)
qed

text \<open>What a critical section leaves unchanged, and what it may rely on.\<close>

lemma acq_st_facts:
  assumes "cpu_ok c s"
  shows "cpu_ok c (acq_st c l s)" "0 < ncli (cpus (acq_st c l s) ! c)" "lock_held c l (acq_st c l s)"
    and "ncli (cpus (acq_st c l s) ! c) = ncli (cpus s ! c) + 1" "\<not> IF (acq_st c l s)"
    and "l' \<noteq> l \<Longrightarrow> locks (acq_st c l s) l' = locks s l'"
  using assms this_cpuD(1) [OF cpu_ok_this [OF assms]]
  by (auto simp: cpu_ok_def) (auto simp: lock_defs)

lemma rel_st_facts:
  assumes "cpu_ok c s" "0 < ncli (cpus s ! c)"
  shows "cpu_ok c (rel_st c l s)" "lock_free l (rel_st c l s)"
    and "ncli (cpus (rel_st c l s) ! c) = ncli (cpus s ! c) - 1"
    and "l' \<noteq> l \<Longrightarrow> locks (rel_st c l s) l' = locks s l'"
  using assms this_cpuD(1) [OF cpu_ok_this [OF assms(1)]]
  by (auto simp: cpu_ok_def) (auto simp: lock_defs)

text \<open>What a return of the pieces tells.\<close>

lemma acq_enter_Ret:
  assumes "cpu_ok c s" "acq_enter l s = Ret r s'"
  shows "s' = push_st c s" "\<not> lock_held c l s"
proof -
  have c: "c < length (cpus s)"
    using assms(1) this_cpuD(1) cpu_ok_this by blast
  have "holding l (push_st c s) = Ret (lock_held c l (push_st c s)) (push_st c s)"
    using assms(1) c by (intro holding_nested) (simp_all add: cpu_ok_def)
  then show "s' = push_st c s" "\<not> lock_held c l s"
    using assms by (auto simp: acq_enter_def pushcli_ok cpu_ok_this split: if_splits)
qed

lemma rel_clear_Ret:
  assumes "cpu_ok c s" "rel_clear l s = Ret r s'"
  shows "lock_held c l s" "s' = upd_lock l (\<lambda>k. k\<lparr>lcpu := None\<rparr>) (pop_st c (push_st c s))"
  using assms by (auto simp: rel_clear_def holding_ok split: if_splits)

lemma pop_push_cpus:
  assumes "cpu_ok c s"
  shows "cpus (pop_st c (push_st c s)) =
    (cpus s)[c := (cpus s ! c)\<lparr>intena := (if ncli (cpus s ! c) = 0 then IF s else intena (cpus s ! c))\<rparr>]"
    "IF (pop_st c (push_st c s)) = IF s"
  using assms by (simp_all add: pop_push_st upd_cpu_def)

text \<open>The critical section leaves the synchronisation state as it found it.\<close>

lemma same_sync_refl [simp]: "same_sync c s s"
  by (simp add: same_sync_def)

lemma same_sync_trans [trans]: "same_sync c s s' \<Longrightarrow> same_sync c s' s'' \<Longrightarrow> same_sync c s s''"
  by (simp add: same_sync_def)

lemma same_sync_cpu_ok: "same_sync c s s' \<Longrightarrow> cpu_ok c s' = cpu_ok c s"
  by (simp add: same_sync_def cpu_ok_def)

lemma cs_st_fields [simp]:
  "locks (cs_st c l s) = (locks s)(l := (locks s l)\<lparr>lcpu := None, locked := 0\<rparr>)"
  "ncpu (cs_st c l s) = ncpu s" "lapic_id (cs_st c l s) = lapic_id s"
  "printed (cs_st c l s) = printed s" "cr3 (cs_st c l s) = cr3 s" "tr (cs_st c l s) = tr s" "gdtr (cs_st c l s) = gdtr s"
  "machine.more (cs_st c l s) = machine.more s"
  by (simp_all add: cs_st_def lock_defs)

lemma rel_acq_st: "rel_st c l (acq_st c l s) = cs_st c l s"
  by (simp add: cs_st_def)

lemma cs_st_IF: "cpu_ok c s \<Longrightarrow> IF (cs_st c l s) = IF s"
  using this_cpuD(1) [of s c] by (auto simp: cs_st_def lock_defs cpu_ok_def)

lemma this_cpu_cs_st [simp]: "this_cpu (cs_st c l s) = this_cpu s"
  by (simp add: cs_st_def)

lemma cs_st_same_sync:
  assumes "cpu_ok c s" "lock_free l s"
  shows "same_sync c s (cs_st c l s)"
  unfolding same_sync_def
proof (intro conjI allI)
  have c: "c < length (cpus s)"
    by (rule this_cpuD(1) [OF cpu_ok_this [OF assms(1)]])
  show "IF (cs_st c l s) = IF s"
    by (rule cs_st_IF [OF assms(1)])
  show "length (cpus (cs_st c l s)) = length (cpus s)"
    by (simp add: cs_st_def)
  show "ncli (cpus (cs_st c l s) ! c) = ncli (cpus s ! c)"
    "cproc (cpus (cs_st c l s) ! c) = cproc (cpus s ! c)"
    using c by (simp_all add: cs_st_def lock_defs)
  fix k
  show "lock_free k (cs_st c l s) = lock_free k s"
    "lock_held c k (cs_st c l s) = lock_held c k s"
    using assms(2) by (simp_all add: lock_free_def lock_held_def)
qed simp

end
