(* ===== verification/Kalloc.thy ===== *)
theory Kalloc
  imports Spinlock
begin

text \<open>
  kalloc.c, the allocator of physical pages. The free pages are linked through their own
  first words in memory. The invariant says that the chain from \<open>kmem.freelist\<close> is a list of
  distinct usable pages; \<open>kalloc\<close> and \<open>kfree\<close> are then the two operations of a stack of
  pages, which is the contract (locale \<open>page_allocator\<close>) the rest of the kernel relies on.
\<close>

section \<open>Constants of memlayout.h and mmu.h\<close>

definition EXTMEM :: u32 where "EXTMEM = 0x100000"
definition PHYSTOP :: u32 where "PHYSTOP = 0xE000000"
definition DEVSPACE :: u32 where "DEVSPACE = 0xFE000000"
definition KERNBASE :: u32 where "KERNBASE = 0x80000000"
definition KERNLINK :: u32 where "KERNLINK = KERNBASE + EXTMEM"
definition PGSIZE :: u32 where "PGSIZE = 4096"

definition V2P :: "u32 \<Rightarrow> u32" where "V2P a = a - KERNBASE"
definition P2V :: "u32 \<Rightarrow> u32" where "P2V a = a + KERNBASE"

definition PGROUNDUP :: "u32 \<Rightarrow> u32" where "PGROUNDUP sz = (sz + PGSIZE - 1) AND NOT (PGSIZE - 1)"
definition PGROUNDDOWN :: "u32 \<Rightarrow> u32" where "PGROUNDDOWN a = a AND NOT (PGSIZE - 1)"

section \<open>State and operations\<close>

text \<open>
  The kernel's memory, addressed by kernel virtual address; the linker's symbol \<open>end\<close>; the
  fields of \<open>kmem\<close> other than its lock.
\<close>

record kmem = machine +
  mem :: mem
  kend :: u32
  use_lock :: bool
  freelist :: u32

definition kfree :: "u32 \<Rightarrow> 'a kmem_scheme \<Rightarrow> (unit, 'a kmem_scheme) kres" where
  "kfree v s =
     (if v mod PGSIZE \<noteq> 0 \<or> v < kend s \<or> V2P v \<ge> PHYSTOP then Panic ''kfree''
      else
        let s = s\<lparr>mem := memset (mem s) v 1 PGSIZE\<rparr>
        in bnd (if use_lock s then acquire Lkmem s else Ret () s) (\<lambda>_ s.
           let s = s\<lparr>mem := store32 (mem s) v (freelist s)\<rparr>;
               s = s\<lparr>freelist := v\<rparr>
           in if use_lock s then release Lkmem s else Ret () s))"

definition kalloc :: "'a kmem_scheme \<Rightarrow> (u32, 'a kmem_scheme) kres" where
  "kalloc s =
     bnd (if use_lock s then acquire Lkmem s else Ret () s) (\<lambda>_ s.
     let r = freelist s;
         s = (if r \<noteq> 0 then s\<lparr>freelist := load32 (mem s) r\<rparr> else s)
     in bnd (if use_lock s then release Lkmem s else Ret () s) (\<lambda>_ s. Ret r s))"

lemma kfree_Ret_bound: "kfree p s = Ret r s' \<Longrightarrow> unat (p + PGSIZE) = unat p + 4096"
proof -
  assume "kfree p s = Ret r s'"
  then have "p - KERNBASE < PHYSTOP"
    by (auto simp: kfree_def V2P_def not_le split: if_splits)
  then have "unat p < 4294963200"
    by (auto simp: word_less_nat_alt unat_sub32 KERNBASE_def PHYSTOP_def split: if_splits)
  then show ?thesis
    by (simp add: unat_add32 PGSIZE_def)
qed

text \<open>The loop of \<open>freerange\<close>. It stops: \<open>kfree\<close> panics before \<open>p\<close> can wrap around.\<close>

function freerange_loop :: "u32 \<Rightarrow> u32 \<Rightarrow> 'a kmem_scheme \<Rightarrow> (unit, 'a kmem_scheme) kres" where
  "freerange_loop p vend s =
     (if p + PGSIZE \<le> vend then bnd (kfree p s) (\<lambda>_ s. freerange_loop (p + PGSIZE) vend s)
      else Ret () s)"
  by auto
termination
  by (relation "measure (\<lambda>(p, _, _). 4294967296 - unat p)")
     (auto dest!: kfree_Ret_bound intro!: diff_less_mono2)

definition freerange :: "u32 \<Rightarrow> u32 \<Rightarrow> 'a kmem_scheme \<Rightarrow> (unit, 'a kmem_scheme) kres" where
  "freerange vstart vend s = freerange_loop (PGROUNDUP vstart) vend s"

definition kinit1 :: "u32 \<Rightarrow> u32 \<Rightarrow> 'a kmem_scheme \<Rightarrow> (unit, 'a kmem_scheme) kres" where
  "kinit1 vstart vend s =
     (let s = initlock Lkmem ''kmem'' s; s = s\<lparr>use_lock := False\<rparr>
      in freerange vstart vend s)"

definition kinit2 :: "u32 \<Rightarrow> u32 \<Rightarrow> 'a kmem_scheme \<Rightarrow> (unit, 'a kmem_scheme) kres" where
  "kinit2 vstart vend s =
     bnd (freerange vstart vend s) (\<lambda>_ s. Ret () (s\<lparr>use_lock := True\<rparr>))"

section \<open>Invariant\<close>

text \<open>A page the allocator may hold: what \<open>kfree\<close> checks.\<close>

definition page_ok :: "'a kmem_scheme \<Rightarrow> u32 \<Rightarrow> bool" where
  "page_ok s v \<longleftrightarrow> v mod PGSIZE = 0 \<and> kend s \<le> v \<and> V2P v < PHYSTOP"

text \<open>The chain of pages from \<open>a\<close> on.\<close>

fun chain :: "mem \<Rightarrow> u32 \<Rightarrow> u32 list \<Rightarrow> bool" where
  "chain m a [] \<longleftrightarrow> a = 0"
| "chain m a (p # ps) \<longleftrightarrow> a = p \<and> p \<noteq> 0 \<and> chain m (load32 m p) ps"

text \<open>The same chain as a list, of at most the given length.\<close>

fun chain_list :: "mem \<Rightarrow> u32 \<Rightarrow> nat \<Rightarrow> u32 list" where
  "chain_list m a 0 = []"
| "chain_list m a (Suc n) = (if a = 0 then [] else a # chain_list m (load32 m a) n)"

text \<open>The free pages; there are at most \<open>PHYSTOP / PGSIZE\<close> of them.\<close>

definition free_pages :: "'a kmem_scheme \<Rightarrow> u32 list" where
  "free_pages s = chain_list (mem s) (freelist s) 57344"

definition kmem_inv :: "'a kmem_scheme \<Rightarrow> bool" where
  "kmem_inv s \<longleftrightarrow> chain (mem s) (freelist s) (free_pages s) \<and> distinct (free_pages s) \<and>
     (\<forall>p \<in> set (free_pages s). page_ok s p)"

text \<open>The lock part of an allocator call on processor \<open>c\<close>.\<close>

definition kcs_st :: "nat \<Rightarrow> 'a kmem_scheme \<Rightarrow> 'a kmem_scheme" where
  "kcs_st c s = (if use_lock s then cs_st c Lkmem s else s)"

text \<open>
  The allocator can be called: it does not lock yet, or this processor runs kernel code and
  \<open>kmem.lock\<close> is free.
\<close>

definition kready :: "nat \<Rightarrow> 'a kmem_scheme \<Rightarrow> bool" where
  "kready c s \<longleftrightarrow> (use_lock s \<longrightarrow> cpu_ok c s \<and> lock_free Lkmem s)"

text \<open>\<open>n\<close> allocations in a row; \<open>n\<close> consecutive pages from \<open>p\<close> on.\<close>

fun alloc_n :: "('s \<Rightarrow> (u32, 's) kres) \<Rightarrow> nat \<Rightarrow> 's \<Rightarrow> (u32 list, 's) kres" where
  "alloc_n alloc 0 s = Ret [] s"
| "alloc_n alloc (Suc n) s =
     bnd (alloc s) (\<lambda>p s. bnd (alloc_n alloc n s) (\<lambda>ps s. Ret (p # ps) s))"

definition page_range :: "u32 \<Rightarrow> nat \<Rightarrow> u32 list" where
  "page_range p n = map (\<lambda>k. p + of_nat (4096 * k)) [0..<n]"

text \<open>A kernel of one processor before \<open>kinit1\<close>, its image ending at \<open>0x80112345\<close>.\<close>

definition kmem0 :: kmem where
  "kmem0 = \<lparr>cpus = [\<lparr>apicid = 0, ts = \<lparr>ss0 = 0, esp0 = 0, iomb = 0\<rparr>, ts_addr = 0, gdt = [], started = True,
                     ncli = 0, intena = False, cproc = None\<rparr>],
     ncpu = 1, lapic_id = 0, IF = False, cr3 = 0, tr = 0, gdtr = [],
     locks = (\<lambda>_. \<lparr>locked = 0, lname = [], lcpu = None\<rparr>), printed = [],
     mem = (\<lambda>_. 0), kend = 0x80112345, use_lock = False, freelist = 0\<rparr>"

section \<open>Lemmas\<close>

text \<open>The allocator's fields and the synchronisation state do not interfere.\<close>

lemma kmem_frame [simp]:
  "mem (acq_st c l s) = mem s" "mem (rel_st c l s) = mem s" "mem (cs_st c l s) = mem s"
  "mem (push_st c s) = mem s" "mem (pop_st c s) = mem s"
  "kend (acq_st c l s) = kend s" "kend (rel_st c l s) = kend s" "kend (cs_st c l s) = kend s"
  "kend (push_st c s) = kend s" "kend (pop_st c s) = kend s"
  "use_lock (acq_st c l s) = use_lock s" "use_lock (rel_st c l s) = use_lock s" "use_lock (cs_st c l s) = use_lock s"
  "use_lock (push_st c s) = use_lock s" "use_lock (pop_st c s) = use_lock s"
  "freelist (acq_st c l s) = freelist s" "freelist (rel_st c l s) = freelist s" "freelist (cs_st c l s) = freelist s"
  "freelist (push_st c s) = freelist s" "freelist (pop_st c s) = freelist s"
  by (simp_all add: cs_st_def lock_defs)

lemma kmem_commute [simp]:
  "acq_st c l (s\<lparr>mem := x0\<rparr>) = (acq_st c l s)\<lparr>mem := x0\<rparr>"
  "rel_st c l (s\<lparr>mem := x0\<rparr>) = (rel_st c l s)\<lparr>mem := x0\<rparr>"
  "push_st c (s\<lparr>mem := x0\<rparr>) = (push_st c s)\<lparr>mem := x0\<rparr>"
  "pop_st c (s\<lparr>mem := x0\<rparr>) = (pop_st c s)\<lparr>mem := x0\<rparr>"
  "acq_st c l (s\<lparr>use_lock := x1\<rparr>) = (acq_st c l s)\<lparr>use_lock := x1\<rparr>"
  "rel_st c l (s\<lparr>use_lock := x1\<rparr>) = (rel_st c l s)\<lparr>use_lock := x1\<rparr>"
  "push_st c (s\<lparr>use_lock := x1\<rparr>) = (push_st c s)\<lparr>use_lock := x1\<rparr>"
  "pop_st c (s\<lparr>use_lock := x1\<rparr>) = (pop_st c s)\<lparr>use_lock := x1\<rparr>"
  "acq_st c l (s\<lparr>freelist := x2\<rparr>) = (acq_st c l s)\<lparr>freelist := x2\<rparr>"
  "rel_st c l (s\<lparr>freelist := x2\<rparr>) = (rel_st c l s)\<lparr>freelist := x2\<rparr>"
  "push_st c (s\<lparr>freelist := x2\<rparr>) = (push_st c s)\<lparr>freelist := x2\<rparr>"
  "pop_st c (s\<lparr>freelist := x2\<rparr>) = (pop_st c s)\<lparr>freelist := x2\<rparr>"
  by (rule kmem.equality; simp add: lock_defs)+

lemma kmem_sync [simp]:
  "cs_st c l (s\<lparr>mem := x0\<rparr>) = (cs_st c l s)\<lparr>mem := x0\<rparr>" "this_cpu (s\<lparr>mem := x0\<rparr>) = this_cpu s"
  "cpu_ok c (s\<lparr>mem := x0\<rparr>) = cpu_ok c s" "lock_free l (s\<lparr>mem := x0\<rparr>) = lock_free l s"
  "lock_held c l (s\<lparr>mem := x0\<rparr>) = lock_held c l s"
  "same_sync c s (t\<lparr>mem := x0\<rparr>) = same_sync c s t" "same_sync c (s\<lparr>mem := x0\<rparr>) t = same_sync c s t"
  "cs_st c l (s\<lparr>use_lock := x1\<rparr>) = (cs_st c l s)\<lparr>use_lock := x1\<rparr>" "this_cpu (s\<lparr>use_lock := x1\<rparr>) = this_cpu s"
  "cpu_ok c (s\<lparr>use_lock := x1\<rparr>) = cpu_ok c s" "lock_free l (s\<lparr>use_lock := x1\<rparr>) = lock_free l s"
  "lock_held c l (s\<lparr>use_lock := x1\<rparr>) = lock_held c l s"
  "same_sync c s (t\<lparr>use_lock := x1\<rparr>) = same_sync c s t" "same_sync c (s\<lparr>use_lock := x1\<rparr>) t = same_sync c s t"
  "cs_st c l (s\<lparr>freelist := x2\<rparr>) = (cs_st c l s)\<lparr>freelist := x2\<rparr>" "this_cpu (s\<lparr>freelist := x2\<rparr>) = this_cpu s"
  "cpu_ok c (s\<lparr>freelist := x2\<rparr>) = cpu_ok c s" "lock_free l (s\<lparr>freelist := x2\<rparr>) = lock_free l s"
  "lock_held c l (s\<lparr>freelist := x2\<rparr>) = lock_held c l s"
  "same_sync c s (t\<lparr>freelist := x2\<rparr>) = same_sync c s t" "same_sync c (s\<lparr>freelist := x2\<rparr>) t = same_sync c s t"
  by (simp_all add: cs_st_def this_cpu_def cpu_ok_def lock_free_def lock_held_def same_sync_def)

lemma kready_kcs [simp]:
  "kready c s \<Longrightarrow> same_sync c s (kcs_st c s)" "mem (kcs_st c s) = mem s" "kend (kcs_st c s) = kend s"
  "freelist (kcs_st c s) = freelist s" "use_lock (kcs_st c s) = use_lock s"
  "kcs_st c (s\<lparr>mem := m\<rparr>) = (kcs_st c s)\<lparr>mem := m\<rparr>"
  "kcs_st c (s\<lparr>freelist := a\<rparr>) = (kcs_st c s)\<lparr>freelist := a\<rparr>"
  by (auto simp: kcs_st_def kready_def cs_st_same_sync)

lemma same_sync_kready: "same_sync c s s' \<Longrightarrow> use_lock s' = use_lock s \<Longrightarrow> kready c s' = kready c s"
  by (simp add: kready_def same_sync_cpu_ok) (simp add: same_sync_def)

lemma critical_release:
  assumes "cpu_ok c s" "lock_free l s"
  shows "release l (acq_st c l s) = Ret () (cs_st c l s)"
  using release_ok [of c "acq_st c l s" l] acq_st_facts [OF assms(1), of l] by (simp add: rel_acq_st)

text \<open>\<open>kfree\<close> and \<open>kalloc\<close> in one step each.\<close>

lemma kfree_ok:
  assumes "kready c s" "page_ok s v"
  shows "kfree v s = Ret () ((kcs_st c s)\<lparr>mem := store32 (memset (mem s) v 1 PGSIZE) v (freelist s),
                                         freelist := v\<rparr>)"
proof -
  let ?s = "(acq_st c Lkmem s)\<lparr>mem := store32 (memset (mem s) v 1 PGSIZE) v (freelist s), freelist := v\<rparr>"
  have "release Lkmem ?s = Ret () (rel_st c Lkmem ?s)" if "cpu_ok c s"
    using acq_st_facts [OF that, of Lkmem] by (intro release_ok) simp_all
  then show ?thesis
    using assms by (auto simp: kfree_def kready_def page_ok_def Let_def acquire_ok kcs_st_def rel_acq_st)
qed

lemma kalloc_ok:
  assumes "kready c s"
  shows "kalloc s = Ret (freelist s)
     (if freelist s = 0 then kcs_st c s
      else (kcs_st c s)\<lparr>freelist := load32 (mem s) (freelist s)\<rparr>)"
proof -
  let ?s = "(acq_st c Lkmem s)\<lparr>freelist := load32 (mem s) (freelist s)\<rparr>"
  have "release Lkmem ?s = Ret () (rel_st c Lkmem ?s)" if "cpu_ok c s"
    using acq_st_facts [OF that, of Lkmem] by (intro release_ok) simp_all
  then show ?thesis
    using assms critical_release [of c s Lkmem]
    by (auto simp: kalloc_def kready_def Let_def acquire_ok kcs_st_def rel_acq_st)
qed

declare freerange_loop.simps [simp del]

text \<open>Pages are disjoint.\<close>

lemma unat_page [simp]: "unat PGSIZE = 4096" "unat KERNBASE = 2147483648" "unat PHYSTOP = 234881024"
  by (simp_all add: PGSIZE_def KERNBASE_def PHYSTOP_def)

lemma aligned_iff: "v mod PGSIZE = 0 \<longleftrightarrow> unat v mod 4096 = 0"
  by (simp add: word_eq_unat unat_mod_distrib)

lemma page_ok_range:
  assumes "page_ok s v"
  shows "unat v mod 4096 = 0" "2147483648 \<le> unat v" "unat v < 2382364672" "unat (V2P v) = unat v - 2147483648"
proof -
  have *: "unat v mod 4096 = 0" "unat (v - KERNBASE) < 234881024"
    using assms by (auto simp: page_ok_def aligned_iff V2P_def word_less_nat_alt)
  then show "unat v mod 4096 = 0" "2147483648 \<le> unat v" "unat v < 2382364672" "unat (V2P v) = unat v - 2147483648"
    using unat_lt2p32 [of v] by (auto simp: unat_sub32 V2P_def split: if_splits)
qed

lemma page_ok_nonzero: "page_ok s v \<Longrightarrow> v \<noteq> 0"
  using page_ok_range(2) by fastforce

lemma page_disjoint:
  assumes "unat p mod 4096 = 0" "unat v mod 4096 = 0" "p \<noteq> v" "unat i < 4096"
  shows "\<not> p + i - v < PGSIZE"
proof -
  have "4096 dvd unat (p - v)"
    using assms(1,2) by (auto simp: unat_sub32 mod_eq_0_iff_dvd intro!: dvd_diff_nat dvd_add)
  moreover have "unat (p - v) \<noteq> 0"
    using assms(3) by (simp add: unat_eq_0)
  ultimately have ge: "4096 \<le> unat (p - v)"
    by (simp add: dvd_imp_le)
  have "unat (p - v) + 4096 \<le> 4294967296"
  proof -
    obtain k where "unat (p - v) = 4096 * k"
      using \<open>4096 dvd unat (p - v)\<close> by blast
    then show ?thesis
      using unat_lt2p32 [of "p - v"] by simp
  qed
  then have "unat (p - v + i) = unat (p - v) + unat i"
    using assms(4) by (intro unat_add32_small) simp
  then show ?thesis
    using ge by (simp add: word_less_nat_alt algebra_simps)
qed

lemma load32_page_frame:
  assumes "\<And>i. unat i < 4096 \<Longrightarrow> m' (p + i) = m (p + i)"
  shows "load32 m' p = load32 m p"
  using assms [of 0] assms [of 1] assms [of 2] assms [of 3] by (intro load32_cong) simp_all

text \<open>What \<open>kfree\<close> writes stays inside the page.\<close>

lemma store32_in_page: "\<not> x - v < PGSIZE \<Longrightarrow> store32 m v w x = m x"
  by (rule store32_other) (simp add: word_less_nat_alt)

lemma chain_frame:
  "chain m a ps \<Longrightarrow> (\<And>p. p \<in> set ps \<Longrightarrow> load32 m' p = load32 m p) \<Longrightarrow> chain m' a ps"
  by (induction ps arbitrary: a) auto

lemma chain_list_eq: "chain m a ps \<Longrightarrow> length ps \<le> n \<Longrightarrow> chain_list m a n = ps"
proof (induction ps arbitrary: a n)
  case Nil
  then show ?case by (cases n) auto
next
  case (Cons p ps)
  then show ?case by (cases n) auto
qed

lemma pages_bound:
  assumes "distinct ps" "\<forall>p \<in> set ps. page_ok s p"
  shows "length ps \<le> 57344"
proof -
  have "inj_on unat (set ps)"
    by (auto intro: inj_onI simp: word_eq_unat)
  have "unat ` set ps \<subseteq> (\<lambda>k. 2147483648 + 4096 * k) ` {..<57344}"
  proof
    fix x
    assume "x \<in> unat ` set ps"
    then obtain p where p: "p \<in> set ps" "x = unat p" by auto
    with assms(2) have r: "x mod 4096 = 0" "2147483648 \<le> x" "x < 2382364672"
      using page_ok_range [of s p] by auto
    then obtain k where k: "x = 4096 * k" by auto
    then have "x = 2147483648 + 4096 * (k - 524288)" "k - 524288 < 57344"
      using r by auto
    then show "x \<in> (\<lambda>k. 2147483648 + 4096 * k) ` {..<57344}" by blast
  qed
  then have "card (unat ` set ps) \<le> card ((\<lambda>k::nat. 2147483648 + 4096 * k) ` {..<57344})"
    by (intro card_mono) simp_all
  also have "\<dots> \<le> 57344"
    using card_image_le [of "{..<57344}" "\<lambda>k::nat. 2147483648 + 4096 * k"] by simp
  finally show ?thesis
    using assms(1) \<open>inj_on unat (set ps)\<close> by (simp add: card_image distinct_card)
qed

lemma kmem_invI:
  assumes "chain (mem s) (freelist s) ps" "distinct ps" "\<forall>p \<in> set ps. page_ok s p"
  shows "kmem_inv s" "free_pages s = ps"
proof -
  show "free_pages s = ps"
    using chain_list_eq [OF assms(1) pages_bound [OF assms(2,3)]] by (simp add: free_pages_def)
  then show "kmem_inv s"
    using assms by (simp add: kmem_inv_def)
qed

lemma kfree_inv:
  assumes "kmem_inv s" "page_ok s v" "v \<notin> set (free_pages s)" "kready c s" "kfree v s = Ret () s'"
  shows "kmem_inv s'" "free_pages s' = v # free_pages s"
proof -
  let ?m = "store32 (memset (mem s) v 1 PGSIZE) v (freelist s)"
  have s': "s' = (kcs_st c s)\<lparr>mem := ?m, freelist := v\<rparr>"
    using assms(5) kfree_ok [OF assms(4,2)] by simp
  have "load32 ?m p = load32 (mem s) p" if "p \<in> set (free_pages s)" for p
  proof (rule load32_page_frame)
    fix i :: u32
    assume "unat i < 4096"
    moreover have "p \<noteq> v" "page_ok s p"
      using that assms(1,3) by (auto simp: kmem_inv_def)
    ultimately have "\<not> p + i - v < PGSIZE"
      using page_ok_range(1) assms(2) by (intro page_disjoint) auto
    then show "?m (p + i) = mem s (p + i)"
      by (simp only: store32_in_page memset_eq if_False not_False_eq_True)
  qed
  then have "chain ?m (freelist s) (free_pages s)"
    using assms(1) chain_frame unfolding kmem_inv_def by blast
  then have "chain (mem s') (freelist s') (v # free_pages s)"
    using page_ok_nonzero [OF assms(2)] by (simp add: s')
  moreover have "distinct (v # free_pages s)" "\<forall>p \<in> set (v # free_pages s). page_ok s' p"
    using assms(1-3) by (auto simp: kmem_inv_def s' page_ok_def)
  ultimately show "kmem_inv s'" "free_pages s' = v # free_pages s"
    by (rule kmem_invI)+
qed

lemma kalloc_inv:
  assumes "kmem_inv s" "kready c s" "kalloc s = Ret r s'"
  shows "kmem_inv s'" "free_pages s' = tl (free_pages s)" "mem s' = mem s"
    "r = (case free_pages s of [] \<Rightarrow> 0 | p # ps \<Rightarrow> p)" "same_sync c s s'" "kend s' = kend s" "use_lock s' = use_lock s"
proof -
  have s': "s' = (if freelist s = 0 then kcs_st c s
      else (kcs_st c s)\<lparr>freelist := load32 (mem s) (freelist s)\<rparr>)" and r: "r = freelist s"
    using assms(3) kalloc_ok [OF assms(2)] by auto
  show "mem s' = mem s" "same_sync c s s'" "kend s' = kend s" "use_lock s' = use_lock s"
    using assms(2) by (auto simp: s')
  have "chain (mem s) (freelist s) (free_pages s)"
    using assms(1) by (simp add: kmem_inv_def)
  then have c: "chain (mem s') (freelist s') (tl (free_pages s))"
    and "r = (case free_pages s of [] \<Rightarrow> 0 | p # ps \<Rightarrow> p)"
    by (cases "free_pages s"; auto simp: s' r)+
  then show "r = (case free_pages s of [] \<Rightarrow> 0 | p # ps \<Rightarrow> p)" by blast
  have "distinct (tl (free_pages s))" "\<forall>p \<in> set (tl (free_pages s)). page_ok s' p"
    using assms(1) by (cases "free_pages s"; simp add: kmem_inv_def s' page_ok_def)+
  then show "kmem_inv s'" "free_pages s' = tl (free_pages s)"
    using kmem_invI [OF c] by auto
qed


section \<open>The contract\<close>

text \<open>
  What the rest of the kernel relies on: a stack of distinct, usable, nonzero pages.
\<close>

locale page_allocator =
  fixes ready :: "'s \<Rightarrow> bool" and pages :: "'s \<Rightarrow> u32 list" and usable :: "'s \<Rightarrow> u32 \<Rightarrow> bool"
    and alloc :: "'s \<Rightarrow> (u32, 's) kres" and free :: "u32 \<Rightarrow> 's \<Rightarrow> (unit, 's) kres"
  assumes pages_distinct: "ready s \<Longrightarrow> distinct (pages s)"
    and pages_usable: "ready s \<Longrightarrow> p \<in> set (pages s) \<Longrightarrow> usable s p"
    and usable_nonzero: "usable s p \<Longrightarrow> p \<noteq> 0"
    and alloc_law: "ready s \<Longrightarrow> \<exists>s'. alloc s = Ret (case pages s of [] \<Rightarrow> 0 | p # ps \<Rightarrow> p) s' \<and>
      ready s' \<and> pages s' = tl (pages s) \<and> usable s' = usable s"
    and free_law: "ready s \<Longrightarrow> usable s p \<Longrightarrow> p \<notin> set (pages s) \<Longrightarrow>
      \<exists>s'. free p s = Ret () s' \<and> ready s' \<and> pages s' = p # pages s \<and> usable s' = usable s"
begin

lemma alloc_n_law:
  "ready s \<Longrightarrow> n \<le> length (pages s) \<Longrightarrow>
     \<exists>s'. alloc_n alloc n s = Ret (take n (pages s)) s' \<and> ready s' \<and> pages s' = drop n (pages s)"
proof (induction n arbitrary: s)
  case (Suc n)
  then obtain p ps where ps: "pages s = p # ps"
    by (cases "pages s") auto
  with alloc_law [OF Suc.prems(1)] obtain s1
    where s1: "alloc s = Ret p s1" "ready s1" "pages s1 = ps" by auto
  with Suc.IH [of s1] Suc.prems ps show ?case
    by auto
qed simp

lemma alloc_n_distinct:
  assumes "ready s" "alloc_n alloc n s = Ret ps s'" "n \<le> length (pages s)"
  shows "distinct ps \<and> 0 \<notin> set ps \<and> length ps = n \<and> set ps \<inter> set (pages s') = {}"
proof -
  have "distinct (take n (pages s) @ drop n (pages s))"
    using pages_distinct [OF assms(1)] by simp
  moreover have "0 \<notin> set (take n (pages s))"
    using pages_usable [OF assms(1)] usable_nonzero by (metis in_set_takeD)
  ultimately show ?thesis
    using alloc_n_law [OF assms(1,3)] assms(2,3) by (auto simp del: append_take_drop_id)
qed

lemma free_alloc:
  assumes "ready s" "usable s p" "p \<notin> set (pages s)"
  shows "\<exists>s' s''. free p s = Ret () s' \<and> alloc s' = Ret p s'' \<and> ready s'' \<and> pages s'' = pages s"
  using free_law [OF assms] alloc_law by fastforce

lemma alloc_free:
  assumes "ready s" "pages s = p # ps"
  shows "\<exists>s' s''. alloc s = Ret p s' \<and> free p s' = Ret () s'' \<and> ready s'' \<and> pages s'' = pages s"
proof -
  obtain s' where s': "alloc s = Ret p s'" "ready s'" "pages s' = ps" "usable s' = usable s"
    using alloc_law [OF assms(1)] assms(2) by auto
  moreover have "usable s p" "p \<notin> set ps"
    using pages_usable [OF assms(1)] pages_distinct [OF assms(1)] assms(2) by auto
  ultimately show ?thesis
    using free_law [of s' p] assms(2) by auto
qed

end

interpretation ka: page_allocator "\<lambda>s. kready c s \<and> kmem_inv s" free_pages page_ok kalloc kfree
  for c
proof
  fix s :: "'a kmem_scheme" and p
  assume r: "kready c s \<and> kmem_inv s"
  show "distinct (free_pages s)" and "p \<in> set (free_pages s) \<Longrightarrow> page_ok s p"
    using r by (auto simp: kmem_inv_def)
  obtain x s' where k: "kalloc s = Ret x s'"
    using kalloc_ok [of c s] r by blast
  note ki = kalloc_inv [OF conjunct2 [OF r] conjunct1 [OF r] k]
  have "page_ok s' = page_ok s"
    by (simp add: page_ok_def fun_eq_iff ki)
  then show "\<exists>s'. kalloc s = Ret (case free_pages s of [] \<Rightarrow> 0 | p # ps \<Rightarrow> p) s' \<and>
      (kready c s' \<and> kmem_inv s') \<and> free_pages s' = tl (free_pages s) \<and> page_ok s' = page_ok s"
    using k ki r same_sync_kready [of c s s'] by auto
  assume p: "page_ok s p" "p \<notin> set (free_pages s)"
  obtain s' where k: "kfree p s = Ret () s'"
    using kfree_ok [of c s p] r p by blast
  moreover have "same_sync c s s'" "page_ok s' = page_ok s" "use_lock s' = use_lock s"
    using k kfree_ok [of c s p] r p by (auto simp: page_ok_def fun_eq_iff)
  ultimately show "\<exists>s'. kfree p s = Ret () s' \<and> (kready c s' \<and> kmem_inv s') \<and>
      free_pages s' = p # free_pages s \<and> page_ok s' = page_ok s"
    using kfree_inv [of s p c s'] r p same_sync_kready [of c s s'] by auto
qed (rule page_ok_nonzero)

section \<open>Building the free list\<close>

lemma kfree_inv_ex:
  assumes "kready c s" "kmem_inv s" "page_ok s p" "p \<notin> set (free_pages s)"
  shows "\<exists>s'. kfree p s = Ret () s' \<and> kready c s' \<and> kmem_inv s' \<and> free_pages s' = p # free_pages s \<and>
    page_ok s' = page_ok s \<and> kend s' = kend s"
  using ka.free_law [of c s p] assms kfree_ok [OF assms(1,3)] by auto

lemma page_range_Suc: "page_range p (Suc n) = p # page_range (p + PGSIZE) n"
proof -
  have "[0..<Suc n] = 0 # map Suc [0..<n]"
    by (simp add: map_Suc_upt upt_conv_Cons del: upt_Suc)
  then show ?thesis
    by (simp add: page_range_def PGSIZE_def algebra_simps del: upt_Suc)
qed

lemma freerange_loop_ok:
  assumes "kready c s" "kmem_inv s" "unat p mod 4096 = 0" "kend s \<le> p" "2147483648 \<le> unat p"
    and "unat p + 4096 * n \<le> unat vend" "unat vend < unat p + 4096 * Suc n" "unat vend \<le> 2382364672"
    and "set (page_range p n) \<inter> set (free_pages s) = {}" "distinct (page_range p n)"
  shows "\<exists>s'. freerange_loop p vend s = Ret () s' \<and> kready c s' \<and> kmem_inv s' \<and>
    free_pages s' = rev (page_range p n) @ free_pages s"
  using assms
proof (induction n arbitrary: p s)
  case 0
  have "unat (p + PGSIZE) = unat p + 4096"
    using 0 by (subst unat_add32_small) simp_all
  then have "\<not> p + PGSIZE \<le> vend"
    using 0 by (simp add: word_le_nat_alt)
  with 0 show ?case
    by (simp add: page_range_def freerange_loop.simps [of p])
next
  case (Suc n)
  have u: "unat (p + PGSIZE) = unat p + 4096"
    using Suc.prems by (subst unat_add32_small) simp_all
  then have le: "p + PGSIZE \<le> vend"
    using Suc.prems by (simp add: word_le_nat_alt)
  have "unat (p - KERNBASE) = unat p - 2147483648"
    using Suc.prems(5) by (simp add: unat_sub32)
  then have ok: "page_ok s p"
    using Suc.prems by (simp add: page_ok_def aligned_iff V2P_def word_less_nat_alt)
  have "p \<notin> set (free_pages s)"
    using Suc.prems(9) by (simp add: page_range_Suc)
  from kfree_inv_ex [OF Suc.prems(1,2) ok this] obtain s1
    where s1: "kfree p s = Ret () s1" "kready c s1" "kmem_inv s1" "free_pages s1 = p # free_pages s" "kend s1 = kend s"
    by blast
  have "kend s1 \<le> p + PGSIZE"
    using Suc.prems(4) u s1(5) by (simp add: word_le_nat_alt)
  moreover have "(unat p + 4096) mod 4096 = 0"
    using Suc.prems(3) by simp
  moreover have "set (page_range (p + PGSIZE) n) \<inter> set (free_pages s1) = {}" "distinct (page_range (p + PGSIZE) n)"
    using Suc.prems(9,10) by (auto simp: page_range_Suc s1)
  ultimately have "\<exists>s'. freerange_loop (p + PGSIZE) vend s1 = Ret () s' \<and> kready c s' \<and> kmem_inv s' \<and>
      free_pages s' = rev (page_range (p + PGSIZE) n) @ free_pages s1"
    using Suc.prems(5-8) by (intro Suc.IH) (simp_all add: u s1)
  with le s1(1,4) show ?case
    by (simp add: page_range_Suc freerange_loop.simps [of p])
qed

lemma unat_PGROUNDUP:
  assumes "unat a \<le> 4294963200"
  shows "unat (PGROUNDUP a) = (unat a + 4095) div 4096 * 4096"
proof -
  have "PGSIZE - 1 = mask 12"
    by (simp add: PGSIZE_def mask_eq_exp_minus_1)
  moreover have "unat (a + PGSIZE - 1) = unat a + 4095"
  proof -
    have e: "a + PGSIZE - 1 = a + 4095" and c: "unat (4095 :: u32) = 4095"
      by (simp_all add: PGSIZE_def)
    show ?thesis
      using assms unat_add32_small [of a 4095] unfolding c e by simp
  qed
  ultimately have "unat (PGROUNDUP a) = (unat a + 4095) - (unat a + 4095) mod 4096"
    using unat_and_not_mask [of "a + PGSIZE - 1" 12] by (simp add: PGROUNDUP_def)
  then show ?thesis
    by (simp add: minus_mod_eq_div_mult)
qed

lemma page_range_mem:
  assumes "unat p + 4096 * n \<le> 4294967296"
  shows "q \<in> set (page_range p n) \<longleftrightarrow> (\<exists>k < n. unat q = unat p + 4096 * k)"
proof -
  have "unat (p + of_nat (4096 * k)) = unat p + 4096 * k" if "k < n" for k
    using that assms by (subst unat_add32_small) (simp_all add: unat_of_nat32 del: of_nat_mult)
  then show ?thesis
    by (auto simp: page_range_def word_eq_unat image_iff simp del: of_nat_mult)
qed

lemma page_range_distinct:
  assumes "unat p + 4096 * n \<le> 4294967296"
  shows "distinct (page_range p n)"
proof -
  have "inj_on (\<lambda>k. p + of_nat (4096 * k)) {0..<n}"
  proof (rule inj_onI)
    fix j k
    assume "j \<in> {0..<n}" "k \<in> {0..<n}" "p + of_nat (4096 * j) = p + of_nat (4096 * k)"
    moreover from this have "4096 * j < 4294967296" "4096 * k < 4294967296"
      using assms by auto
    ultimately show "j = k"
      using addr_eq [of p "4096 * j" p "4096 * k"] assms by auto
  qed
  then show ?thesis
    by (simp add: page_range_def distinct_map)
qed

lemma aligned_above:
  fixes q v :: nat
  assumes "q mod 4096 = 0"
  shows "v \<le> q \<longleftrightarrow> (v + 4095) div 4096 * 4096 \<le> q"
proof -
  obtain k where q: "q = 4096 * k" using assms by auto
  have "(v + 4095) div 4096 < Suc k \<longleftrightarrow> v + 4095 < Suc k * 4096"
    by (rule div_less_iff_less_mult) simp
  then show ?thesis unfolding q by auto
qed

lemma freerange_ok:
  assumes "kready c s" "kmem_inv s" "kend s \<le> vstart" "KERNBASE \<le> vstart" "vstart \<le> vend" "vend \<le> P2V PHYSTOP"
    and "\<forall>p \<in> set (free_pages s). vend \<le> p \<or> p < vstart"
  shows "\<exists>s'. freerange vstart vend s = Ret () s' \<and> kready c s' \<and> kmem_inv s' \<and>
    (\<forall>p. p \<in> set (free_pages s') \<longleftrightarrow> p \<in> set (free_pages s) \<or>
       p mod PGSIZE = 0 \<and> vstart \<le> p \<and> unat p + 4096 \<le> unat vend)"
proof -
  let ?p = "PGROUNDUP vstart"
  have "unat (P2V PHYSTOP) = 2382364672"
    by (simp add: P2V_def KERNBASE_def PHYSTOP_def)
  then have b: "unat vend \<le> 2382364672" "2147483648 \<le> unat vstart" "unat vstart \<le> unat vend"
    using assms(4-6) by (simp_all add: word_le_nat_alt)
  then have p: "unat ?p = (unat vstart + 4095) div 4096 * 4096"
    by (intro unat_PGROUNDUP) simp
  then have p': "unat ?p mod 4096 = 0"
    by (simp only: mod_mult_self2_is_0)
  then have p'': "unat vstart \<le> unat ?p"
    using iffD2 [OF aligned_above [of "unat ?p" "unat vstart"]] p by (metis order_refl)
  have up: "q mod PGSIZE = 0 \<and> vstart \<le> q \<and> R \<longleftrightarrow> unat q mod 4096 = 0 \<and> unat ?p \<le> unat q \<and> R" for q R
    unfolding aligned_iff word_le_nat_alt p by (intro conj_cong refl aligned_above)
  show ?thesis
  proof (cases "unat ?p \<le> unat vend")
    case False
    then have "unat (?p + PGSIZE) = unat ?p + 4096"
      using p b by (subst unat_add32_small) simp_all
    then have "freerange vstart vend s = Ret () s"
      using False by (simp add: freerange_def word_le_nat_alt freerange_loop.simps [of ?p])
    then show ?thesis
      using assms(1,2) False unfolding up by auto
  next
    case True
    define n where "n = (unat vend - unat ?p) div 4096"
    have n: "unat ?p + 4096 * n \<le> unat vend" "unat vend < unat ?p + 4096 * Suc n"
      using True by (auto simp: n_def)
    then have r: "unat ?p + 4096 * n \<le> 4294967296" using b by simp
    note mem = page_range_mem [OF r]
    have "set (page_range ?p n) \<inter> set (free_pages s) = {}"
    proof -
      have "vstart \<le> q \<and> q < vend" if "q \<in> set (page_range ?p n)" for q
        using that mem n(1) p'' by (auto simp: word_le_nat_alt word_less_nat_alt)
      then show ?thesis
        using assms(7) by (auto simp: not_le [symmetric])
    qed
    then have "\<exists>s'. freerange_loop ?p vend s = Ret () s' \<and> kready c s' \<and> kmem_inv s' \<and>
        free_pages s' = rev (page_range ?p n) @ free_pages s"
      using assms(1-3) p' p'' n b page_range_distinct [OF r]
      by (intro freerange_loop_ok) (auto simp: word_le_nat_alt)
    moreover have "q \<in> set (page_range ?p n) \<longleftrightarrow> unat q mod 4096 = 0 \<and> unat ?p \<le> unat q \<and> unat q + 4096 \<le> unat vend" for q
    proof -
      have "(\<exists>k < n. x = unat ?p + 4096 * k) \<longleftrightarrow> x mod 4096 = 0 \<and> unat ?p \<le> x \<and> x + 4096 \<le> unat vend" for x
      proof (intro iffI)
        assume x: "x mod 4096 = 0 \<and> unat ?p \<le> x \<and> x + 4096 \<le> unat vend"
        then have "4096 dvd x - unat ?p"
          using p' by (simp add: mod_eq_0_iff_dvd dvd_diff_nat)
        then obtain k where "x - unat ?p = 4096 * k" by blast
        with x n(2) show "\<exists>k < n. x = unat ?p + 4096 * k"
          by (intro exI [of _ k]) auto
      qed (use p' n(1) in auto)
      then show ?thesis by (simp add: mem)
    qed
    ultimately show ?thesis
      unfolding freerange_def up by auto
  qed
qed

lemma kmem0_simps:
  "kready c kmem0" "mem kmem0 = (\<lambda>_. 0)" "kend kmem0 = 0x80112345" "freelist kmem0 = 0"
  by (simp_all add: kmem0_def kready_def)

lemma kmem_inv_empty: "freelist s = 0 \<Longrightarrow> kmem_inv s" "freelist s = 0 \<Longrightarrow> free_pages s = []"
  using kmem_invI [of s "[]"] by auto

text \<open>A kernel with one free page.\<close>

lemma kmem0_one_page:
  defines "s \<equiv> kmem0\<lparr>freelist := 0x80200000\<rparr>"
  shows "kmem_inv s" "free_pages s = [0x80200000]" "kready c s"
proof -
  have "chain (mem s) (freelist s) [0x80200000]" "\<forall>p \<in> set [0x80200000]. page_ok s p"
    by (simp_all add: s_def kmem0_simps load32_def word_of_bytes_def page_ok_def V2P_def KERNBASE_def PHYSTOP_def PGSIZE_def)
  then show "kmem_inv s" "free_pages s = [0x80200000]"
    using kmem_invI [of s "[0x80200000]"] by auto
  show "kready c s"
    by (simp add: s_def kmem0_def kready_def)
qed

section \<open>Properties\<close>

text \<open>
  C5. No page is handed out twice: while \<open>n\<close> pages are free, \<open>n\<close> calls of \<open>kalloc\<close> in a row
  all succeed and return \<open>n\<close> different nonzero pages, none of which is still on the free list.
\<close>

theorem kalloc_distinct:
  assumes "kready c s" "kmem_inv s" "n \<le> length (free_pages s)"
  shows "\<exists>ps s'. alloc_n kalloc n s = Ret ps s' \<and> distinct ps \<and> 0 \<notin> set ps \<and> length ps = n \<and>
    set ps \<inter> set (free_pages s') = {} \<and> kmem_inv s'"
  using ka.alloc_n_law [of c s n] ka.alloc_n_distinct [of c s n] assms by blast

theorem kalloc_distinct_witness:
  "\<exists>p s'. alloc_n kalloc 1 (kmem0\<lparr>freelist := 0x80200000\<rparr>) = Ret [p] s' \<and> p \<noteq> 0 \<and> p \<notin> set (free_pages s')"
  using kalloc_distinct [OF kmem0_one_page(3,1), of 1] kmem0_one_page(2)
  by (auto simp: length_Suc_conv)

text \<open>
  C36. \<open>kfree\<close> and \<open>kalloc\<close> undo each other: a page that is freed is the next one allocated, and
  the free list is then what it was before; freeing changes no byte outside the freed page.
\<close>

theorem kfree_kalloc_roundtrip:
  assumes "kready c s" "kmem_inv s" "page_ok s v" "v \<notin> set (free_pages s)"
  shows "\<exists>s' s''. kfree v s = Ret () s' \<and> kalloc s' = Ret v s'' \<and> kmem_inv s'' \<and>
    free_pages s'' = free_pages s \<and> (\<forall>x. \<not> x - v < PGSIZE \<longrightarrow> mem s'' x = mem s x)"
proof -
  obtain s' s'' where s: "kfree v s = Ret () s'" "kalloc s' = Ret v s''" "kmem_inv s''"
    "free_pages s'' = free_pages s"
    using ka.free_alloc [of c s v] assms by blast
  obtain s1 where s1: "kfree v s = Ret () s1" "kready c s1" "kmem_inv s1"
    using kfree_inv_ex [OF assms] by blast
  then have "mem s'' = mem s'"
    using kalloc_inv(3) [of s' c v s''] s(1,2) by simp
  moreover have "mem s' = store32 (memset (mem s) v 1 PGSIZE) v (freelist s)"
    using kfree_ok [OF assms(1,3)] s(1) by simp
  ultimately have "mem s'' x = mem s x" if "\<not> x - v < PGSIZE" for x
    using that by (simp only: store32_in_page memset_eq if_False not_False_eq_True)
  with s show ?thesis by blast
qed

theorem kfree_kalloc_roundtrip_witness:
  "\<exists>s' s''. kfree 0x80200000 kmem0 = Ret () s' \<and> kalloc s' = Ret 0x80200000 s'' \<and> free_pages s'' = []"
proof -
  have "page_ok kmem0 0x80200000"
    by (simp add: kmem0_simps page_ok_def V2P_def KERNBASE_def PHYSTOP_def PGSIZE_def)
  then show ?thesis
    using kfree_kalloc_roundtrip [OF kmem0_simps(1), of "0x80200000"] kmem_inv_empty [of kmem0]
    by (auto simp: kmem0_simps)
qed

text \<open>
  C38. Start of the allocator: on an empty free list, \<open>kinit1(vstart, vend)\<close> frees exactly the
  whole pages inside the range, each once, and does not panic.
\<close>

theorem kinit1_frees_range:
  assumes "freelist s = 0" "kend s \<le> vstart" "KERNBASE \<le> vstart" "vstart \<le> vend" "vend \<le> P2V PHYSTOP"
  shows "\<exists>s'. kinit1 vstart vend s = Ret () s' \<and> kmem_inv s' \<and>
    (\<forall>p. p \<in> set (free_pages s') \<longleftrightarrow> p mod PGSIZE = 0 \<and> vstart \<le> p \<and> unat p + 4096 \<le> unat vend)"
proof -
  let ?s = "(initlock Lkmem ''kmem'' s)\<lparr>use_lock := False\<rparr>"
  have "freelist ?s = 0" "kend ?s = kend s" "kready 0 ?s"
    using assms(1) by (simp_all add: initlock_def upd_lock_def kready_def)
  then show ?thesis
    using freerange_ok [of 0 ?s vstart vend] kmem_inv_empty [of ?s] assms(2-5)
    by (auto simp: kinit1_def)
qed

theorem kinit1_frees_range_witness:
  "\<exists>s'. kinit1 0x80112345 0x80400000 kmem0 = Ret () s' \<and> 0x80113000 \<in> set (free_pages s') \<and>
     0x80112000 \<notin> set (free_pages s') \<and> 0x80400000 \<notin> set (free_pages s')"
  using kinit1_frees_range [of kmem0 "0x80112345" "0x80400000"]
  by (fastforce simp: kmem0_simps KERNBASE_def P2V_def PHYSTOP_def PGSIZE_def)

text \<open>
  \<open>kfree\<close> accepts exactly the page-aligned addresses between \<open>end\<close> and the top of physical
  memory; every other pointer is a panic.
\<close>

theorem kfree_checks:
  assumes "kready c s"
  shows "(kfree v s = Panic ''kfree'' \<longleftrightarrow> \<not> page_ok s v) \<and> (returns (kfree v s) \<longleftrightarrow> page_ok s v)"
proof (cases "page_ok s v")
  case True
  then show ?thesis using kfree_ok [OF assms True] by simp
next
  case False
  then have "kfree v s = Panic ''kfree''"
    by (auto simp: kfree_def page_ok_def not_less not_le)
  then show ?thesis using False by (simp add: returns_def)
qed

theorem kfree_checks_witness: "kfree 0x80200001 kmem0 = Panic ''kfree''"
  using kfree_checks [OF kmem0_simps(1), of "0x80200001"] by (simp add: page_ok_def PGSIZE_def)

end
