(* ===== verification/Vm.thy ===== *)
theory Vm
  imports Kalloc
begin

text \<open>
  vm.c: two-level page tables in kernel memory. A page directory and its page tables are pages
  of the allocator, read and written through \<open>load32\<close> and \<open>store32\<close>; a user address space is
  what the tables say, given by \<open>pte_val\<close>. \<open>loaduvm\<close>, which reads a file, is in Exec.thy, and
  \<open>switchuvm\<close>, which reads a process, in Proc.thy.

  The loops that step through an address range count the pages they visit and take a bound,
  \<open>PAGES\<close>, the number of pages of the address space. Every visit advances by at least one
  page, so the bound is only reached by a range that wraps around, where the C loop does not
  stop; the outcome is then \<open>Spin\<close>.
\<close>

section \<open>Constants and macros of mmu.h\<close>

definition PDX :: "u32 \<Rightarrow> u32" where "PDX va = drop_bit 22 va AND 0x3FF"
definition PTX :: "u32 \<Rightarrow> u32" where "PTX va = drop_bit 12 va AND 0x3FF"
definition PGADDR :: "u32 \<Rightarrow> u32 \<Rightarrow> u32 \<Rightarrow> u32" where
  "PGADDR d t off = push_bit 22 d OR push_bit 12 t OR off"

definition NPDENTRIES :: nat where "NPDENTRIES = 1024"
definition PTE_P :: u32 where "PTE_P = 1"
definition PTE_W :: u32 where "PTE_W = 2"
definition PTE_U :: u32 where "PTE_U = 4"
definition PTE_ADDR :: "u32 \<Rightarrow> u32" where "PTE_ADDR pte = pte AND NOT 0xFFF"
definition PTE_FLAGS :: "u32 \<Rightarrow> u32" where "PTE_FLAGS pte = pte AND 0xFFF"

definition STA_X :: nat where "STA_X = 8"
definition STA_W :: nat where "STA_W = 2"
definition STA_R :: nat where "STA_R = 2"

definition PAGES :: nat where "PAGES = 1048576"

section \<open>State\<close>

text \<open>The linker's symbol \<open>data\<close> and the kernel's own page directory.\<close>

record vm = kmem +
  kdata :: u32
  kpgdir :: u32

section \<open>Operations\<close>

definition seginit :: "'a machine_scheme \<Rightarrow> (unit, 'a machine_scheme) kres" where
  "seginit s = bnd (cpuid s) (\<lambda>c s.
     let s = upd_cpu c (\<lambda>k. k\<lparr>gdt := (gdt k)[SEG_KCODE := SEG (or STA_X STA_R) 0 0xffffffff 0]\<rparr>) s;
         s = upd_cpu c (\<lambda>k. k\<lparr>gdt := (gdt k)[SEG_KDATA := SEG STA_W 0 0xffffffff 0]\<rparr>) s;
         s = upd_cpu c (\<lambda>k. k\<lparr>gdt := (gdt k)[SEG_UCODE := SEG (or STA_X STA_R) 0 0xffffffff DPL_USER]\<rparr>) s;
         s = upd_cpu c (\<lambda>k. k\<lparr>gdt := (gdt k)[SEG_UDATA := SEG STA_W 0 0xffffffff DPL_USER]\<rparr>) s
     in Ret () (s\<lparr>gdtr := gdt (cpus s ! c)\<rparr>))"

definition walkpgdir :: "u32 \<Rightarrow> u32 \<Rightarrow> bool \<Rightarrow> 'a kmem_scheme \<Rightarrow> (u32, 'a kmem_scheme) kres" where
  "walkpgdir pgdir va alloc s =
     (let pde = pgdir + 4 * PDX va
      in if load32 (mem s) pde AND PTE_P \<noteq> 0
         then Ret (P2V (PTE_ADDR (load32 (mem s) pde)) + 4 * PTX va) s
         else if \<not> alloc then Ret 0 s
         else bnd (kalloc s) (\<lambda>pgtab s.
           if pgtab = 0 then Ret 0 s
           else
             let s = s\<lparr>mem := memset (mem s) pgtab 0 PGSIZE\<rparr>;
                 s = s\<lparr>mem := store32 (mem s) pde (V2P pgtab OR PTE_P OR PTE_W OR PTE_U)\<rparr>
             in Ret (pgtab + 4 * PTX va) s))"

fun mappages_loop :: "nat \<Rightarrow> u32 \<Rightarrow> u32 \<Rightarrow> u32 \<Rightarrow> u32 \<Rightarrow> u32 \<Rightarrow> 'a kmem_scheme \<Rightarrow>
    (int, 'a kmem_scheme) kres" where
  "mappages_loop 0 pgdir a lst pa perm s = Spin"
| "mappages_loop (Suc n) pgdir a lst pa perm s =
     bnd (walkpgdir pgdir a True s) (\<lambda>pte s.
     if pte = 0 then Ret (-1) s
     else if load32 (mem s) pte AND PTE_P \<noteq> 0 then Panic ''remap''
     else
       let s = s\<lparr>mem := store32 (mem s) pte (pa OR perm OR PTE_P)\<rparr>
       in if a = lst then Ret 0 s
          else mappages_loop n pgdir (a + PGSIZE) lst (pa + PGSIZE) perm s)"

definition mappages :: "u32 \<Rightarrow> u32 \<Rightarrow> u32 \<Rightarrow> u32 \<Rightarrow> u32 \<Rightarrow> 'a kmem_scheme \<Rightarrow> (int, 'a kmem_scheme) kres" where
  "mappages pgdir va siz pa perm s =
     mappages_loop PAGES pgdir (PGROUNDDOWN va) (PGROUNDDOWN (va + siz - 1)) pa perm s"

fun deallocuvm_loop :: "nat \<Rightarrow> u32 \<Rightarrow> u32 \<Rightarrow> u32 \<Rightarrow> 'a kmem_scheme \<Rightarrow> (unit, 'a kmem_scheme) kres" where
  "deallocuvm_loop 0 pgdir a oldsz s = (if a < oldsz then Spin else Ret () s)"
| "deallocuvm_loop (Suc n) pgdir a oldsz s =
     (if a < oldsz then
        bnd (walkpgdir pgdir a False s) (\<lambda>pte s.
        if pte = 0 then deallocuvm_loop n pgdir (PGADDR (PDX a + 1) 0 0 - PGSIZE + PGSIZE) oldsz s
        else if load32 (mem s) pte AND PTE_P \<noteq> 0 then
          (let pa = PTE_ADDR (load32 (mem s) pte)
           in if pa = 0 then Panic ''kfree''
              else bnd (kfree (P2V pa) s) (\<lambda>_ s.
                let s = s\<lparr>mem := store32 (mem s) pte 0\<rparr>
                in deallocuvm_loop n pgdir (a + PGSIZE) oldsz s))
        else deallocuvm_loop n pgdir (a + PGSIZE) oldsz s)
      else Ret () s)"

definition deallocuvm :: "u32 \<Rightarrow> u32 \<Rightarrow> u32 \<Rightarrow> 'a kmem_scheme \<Rightarrow> (u32, 'a kmem_scheme) kres" where
  "deallocuvm pgdir oldsz newsz s =
     (if newsz \<ge> oldsz then Ret oldsz s
      else bnd (deallocuvm_loop PAGES pgdir (PGROUNDUP newsz) oldsz s) (\<lambda>_ s. Ret newsz s))"

definition freevm :: "u32 \<Rightarrow> 'a kmem_scheme \<Rightarrow> (unit, 'a kmem_scheme) kres" where
  "freevm pgdir s =
     (if pgdir = 0 then Panic ''freevm: no pgdir''
      else bnd (deallocuvm pgdir KERNBASE 0 s) (\<lambda>_ s.
        bnd (mfor (\<lambda>i s.
               let pde = load32 (mem s) (pgdir + 4 * of_nat i)
               in if pde AND PTE_P \<noteq> 0 then kfree (P2V (PTE_ADDR pde)) s else Ret () s)
             [0..<NPDENTRIES] s) (\<lambda>_ s.
        kfree pgdir s)))"

record kmap =
  virt :: u32
  phys_start :: u32
  phys_end :: u32
  kperm :: u32

definition kmaps :: "u32 \<Rightarrow> kmap list" where
  "kmaps dat =
     [\<lparr>virt = KERNBASE, phys_start = 0, phys_end = EXTMEM, kperm = PTE_W\<rparr>,
      \<lparr>virt = KERNLINK, phys_start = V2P KERNLINK, phys_end = V2P dat, kperm = 0\<rparr>,
      \<lparr>virt = dat, phys_start = V2P dat, phys_end = PHYSTOP, kperm = PTE_W\<rparr>,
      \<lparr>virt = DEVSPACE, phys_start = DEVSPACE, phys_end = 0, kperm = PTE_W\<rparr>]"

fun setupkvm_loop :: "u32 \<Rightarrow> kmap list \<Rightarrow> 'a kmem_scheme \<Rightarrow> (u32, 'a kmem_scheme) kres" where
  "setupkvm_loop pgdir [] s = Ret pgdir s"
| "setupkvm_loop pgdir (k # ks) s =
     bnd (mappages pgdir (virt k) (phys_end k - phys_start k) (phys_start k) (kperm k) s) (\<lambda>r s.
     if r < 0 then bnd (freevm pgdir s) (\<lambda>_ s. Ret 0 s)
     else setupkvm_loop pgdir ks s)"

definition setupkvm :: "'a vm_scheme \<Rightarrow> (u32, 'a vm_scheme) kres" where
  "setupkvm s =
     bnd (kalloc s) (\<lambda>pgdir s.
     if pgdir = 0 then Ret 0 s
     else
       let s = s\<lparr>mem := memset (mem s) pgdir 0 PGSIZE\<rparr>
       in if P2V PHYSTOP > DEVSPACE then Panic ''PHYSTOP too high''
          else setupkvm_loop pgdir (kmaps (kdata s)) s)"

definition switchkvm :: "'a vm_scheme \<Rightarrow> 'a vm_scheme" where
  "switchkvm s = s\<lparr>cr3 := V2P (kpgdir s)\<rparr>"

definition kvmalloc :: "'a vm_scheme \<Rightarrow> (unit, 'a vm_scheme) kres" where
  "kvmalloc s = bnd (setupkvm s) (\<lambda>d s. let s = s\<lparr>kpgdir := d\<rparr> in Ret () (switchkvm s))"

definition inituvm :: "u32 \<Rightarrow> u32 \<Rightarrow> u32 \<Rightarrow> 'a kmem_scheme \<Rightarrow> (unit, 'a kmem_scheme) kres" where
  "inituvm pgdir init sz s =
     (if sz \<ge> PGSIZE then Panic ''inituvm: more than a page''
      else bnd (kalloc s) (\<lambda>pg s.
        let s = s\<lparr>mem := memset (mem s) pg 0 PGSIZE\<rparr>
        in bnd (mappages pgdir 0 PGSIZE (V2P pg) (PTE_W OR PTE_U) s) (\<lambda>_ s.
           Ret () (s\<lparr>mem := memmove (mem s) pg init sz\<rparr>))))"

fun allocuvm_loop :: "nat \<Rightarrow> u32 \<Rightarrow> u32 \<Rightarrow> u32 \<Rightarrow> u32 \<Rightarrow> 'a kmem_scheme \<Rightarrow> (u32, 'a kmem_scheme) kres" where
  "allocuvm_loop 0 pgdir a oldsz newsz s = (if a < newsz then Spin else Ret newsz s)"
| "allocuvm_loop (Suc n) pgdir a oldsz newsz s =
     (if a < newsz then
        bnd (kalloc s) (\<lambda>pg s.
        if pg = 0 then
          (let s = cprintf (''allocuvm out of memory'' @ [CHR 0x0A]) s
           in bnd (deallocuvm pgdir newsz oldsz s) (\<lambda>_ s. Ret 0 s))
        else
          let s = s\<lparr>mem := memset (mem s) pg 0 PGSIZE\<rparr>
          in bnd (mappages pgdir a PGSIZE (V2P pg) (PTE_W OR PTE_U) s) (\<lambda>r s.
             if r < 0 then
               (let s = cprintf (''allocuvm out of memory (2)'' @ [CHR 0x0A]) s
                in bnd (deallocuvm pgdir newsz oldsz s) (\<lambda>_ s.
                   bnd (kfree pg s) (\<lambda>_ s. Ret 0 s)))
             else allocuvm_loop n pgdir (a + PGSIZE) oldsz newsz s))
      else Ret newsz s)"

definition allocuvm :: "u32 \<Rightarrow> u32 \<Rightarrow> u32 \<Rightarrow> 'a kmem_scheme \<Rightarrow> (u32, 'a kmem_scheme) kres" where
  "allocuvm pgdir oldsz newsz s =
     (if newsz \<ge> KERNBASE then Ret 0 s
      else if newsz < oldsz then Ret oldsz s
      else allocuvm_loop PAGES pgdir (PGROUNDUP oldsz) oldsz newsz s)"

definition clearpteu :: "u32 \<Rightarrow> u32 \<Rightarrow> 'a kmem_scheme \<Rightarrow> (unit, 'a kmem_scheme) kres" where
  "clearpteu pgdir uva s =
     bnd (walkpgdir pgdir uva False s) (\<lambda>pte s.
     if pte = 0 then Panic ''clearpteu''
     else Ret () (s\<lparr>mem := store32 (mem s) pte (load32 (mem s) pte AND NOT PTE_U)\<rparr>))"

fun copyuvm_loop :: "nat \<Rightarrow> u32 \<Rightarrow> u32 \<Rightarrow> u32 \<Rightarrow> u32 \<Rightarrow> 'a kmem_scheme \<Rightarrow> (u32, 'a kmem_scheme) kres" where
  "copyuvm_loop 0 d pgdir i sz s = (if i < sz then Spin else Ret d s)"
| "copyuvm_loop (Suc n) d pgdir i sz s =
     (if i < sz then
        bnd (walkpgdir pgdir i False s) (\<lambda>pte s.
        if pte = 0 then Panic ''copyuvm: pte should exist''
        else if load32 (mem s) pte AND PTE_P = 0 then Panic ''copyuvm: page not present''
        else
          let pa = PTE_ADDR (load32 (mem s) pte); flags = PTE_FLAGS (load32 (mem s) pte)
          in bnd (kalloc s) (\<lambda>pg s.
             if pg = 0 then bnd (freevm d s) (\<lambda>_ s. Ret 0 s)
             else
               let s = s\<lparr>mem := memmove (mem s) pg (P2V pa) PGSIZE\<rparr>
               in bnd (mappages d i PGSIZE (V2P pg) flags s) (\<lambda>r s.
                  if r < 0 then
                    bnd (kfree pg s) (\<lambda>_ s. bnd (freevm d s) (\<lambda>_ s. Ret 0 s))
                  else copyuvm_loop n d pgdir (i + PGSIZE) sz s)))
      else Ret d s)"

definition copyuvm :: "u32 \<Rightarrow> u32 \<Rightarrow> 'a vm_scheme \<Rightarrow> (u32, 'a vm_scheme) kres" where
  "copyuvm pgdir sz s =
     bnd (setupkvm s) (\<lambda>d s. if d = 0 then Ret 0 s else copyuvm_loop PAGES d pgdir 0 sz s)"

text \<open>
  \<open>uva2ka\<close> does not check the result of \<open>walkpgdir\<close>: with no page table for the address it
  reads the entry through a null pointer.
\<close>

definition uva2ka :: "u32 \<Rightarrow> u32 \<Rightarrow> 'a kmem_scheme \<Rightarrow> (u32, 'a kmem_scheme) kres" where
  "uva2ka pgdir uva s =
     bnd (walkpgdir pgdir uva False s) (\<lambda>pte s.
     if load32 (mem s) pte AND PTE_P = 0 then Ret 0 s
     else if load32 (mem s) pte AND PTE_U = 0 then Ret 0 s
     else Ret (P2V (PTE_ADDR (load32 (mem s) pte))) s)"

lemma PGROUNDDOWN_off: "unat (va - PGROUNDDOWN va) = unat va mod 4096"
proof -
  have "PGSIZE - 1 = mask 12"
    by (simp add: PGSIZE_def mask_eq_exp_minus_1)
  then have "va - PGROUNDDOWN va = take_bit 12 va"
    by (simp add: PGROUNDDOWN_def and_not_mask_eq)
  then show ?thesis
    using unat_take_bit [of 12 va] by simp
qed

function copyout_loop :: "u32 \<Rightarrow> u32 \<Rightarrow> u32 \<Rightarrow> u32 \<Rightarrow> 'a kmem_scheme \<Rightarrow> (int, 'a kmem_scheme) kres" where
  "copyout_loop pgdir va buf len s =
     (if len > 0 then
        (let va0 = PGROUNDDOWN va
         in bnd (uva2ka pgdir va0 s) (\<lambda>pa0 s.
            if pa0 = 0 then Ret (-1) s
            else
              let n = PGSIZE - (va - va0); n = (if n > len then len else n);
                  s = s\<lparr>mem := memmove (mem s) (pa0 + (va - va0)) buf n\<rparr>
              in copyout_loop pgdir (va0 + PGSIZE) (buf + n) (len - n) s))
      else Ret 0 s)"
  by auto
termination
proof (relation "measure (\<lambda>(_, _, _, len, _). unat len)", goal_cases)
  case (2 pgdir va buf len s va0 r s' x xa xb)
  have "unat (va - va0) < 4096"
    using 2(2) by (simp add: PGROUNDDOWN_off)
  then have "0 < unat (PGSIZE - (va - va0))"
    by (simp add: unat_sub32)
  then have "0 < unat xa" "unat xa \<le> unat len"
    using 2 by (auto simp: word_less_nat_alt split: if_splits)
  then show ?case
    by (simp add: unat_sub32)
qed simp

definition copyout :: "u32 \<Rightarrow> u32 \<Rightarrow> u32 \<Rightarrow> u32 \<Rightarrow> 'a kmem_scheme \<Rightarrow> (int, 'a kmem_scheme) kres" where
  "copyout pgdir va p len s = copyout_loop pgdir va p len s"

section \<open>Address spaces\<close>

text \<open>
  The page table that covers an address, the entry for the address (0 where there is no table),
  and the well-formedness of a page directory: it and its tables are distinct pages, none on
  the free list.
\<close>

definition tab :: "mem \<Rightarrow> u32 \<Rightarrow> u32 \<Rightarrow> u32 option" where
  "tab m pgdir va =
     (let pde = load32 m (pgdir + 4 * PDX va)
      in if pde AND PTE_P \<noteq> 0 then Some (P2V (PTE_ADDR pde)) else None)"

definition pte_val :: "mem \<Rightarrow> u32 \<Rightarrow> u32 \<Rightarrow> u32" where
  "pte_val m pgdir va = (case tab m pgdir va of Some t \<Rightarrow> load32 m (t + 4 * PTX va) | None \<Rightarrow> 0)"

definition tables :: "mem \<Rightarrow> u32 \<Rightarrow> u32 set" where
  "tables m pgdir = {t. \<exists>va. tab m pgdir va = Some t}"

definition pgdir_wf :: "'a kmem_scheme \<Rightarrow> u32 \<Rightarrow> bool" where
  "pgdir_wf s pgdir \<longleftrightarrow>
     page_ok s pgdir \<and> pgdir \<notin> set (free_pages s) \<and>
     (\<forall>va t. tab (mem s) pgdir va = Some t \<longrightarrow> page_ok s t \<and> t \<notin> set (free_pages s) \<and> t \<noteq> pgdir) \<and>
     (\<forall>va vb t. tab (mem s) pgdir va = Some t \<and> tab (mem s) pgdir vb = Some t \<longrightarrow> PDX va = PDX vb)"

text \<open>The state in which the routines run: an allocator that can be called, and a good directory.\<close>

definition vmok :: "nat \<Rightarrow> 'a kmem_scheme \<Rightarrow> u32 \<Rightarrow> bool" where
  "vmok c s pgdir \<longleftrightarrow> kready c s \<and> kmem_inv s \<and> pgdir_wf s pgdir \<and> KERNBASE < kend s"

text \<open>All fields but those of the allocator and the synchronisation state are the same.\<close>

definition kframe :: "'a kmem_scheme \<Rightarrow> 'a kmem_scheme \<Rightarrow> bool" where
  "kframe s s' \<longleftrightarrow> s' = s\<lparr>cpus := cpus s', locks := locks s', mem := mem s', freelist := freelist s'\<rparr>"

text \<open>
  What a routine that works on the address space \<open>pgdir\<close> may do: take pages from the free list,
  and write the directory, its tables and the pages it took.
\<close>

definition vstep :: "nat \<Rightarrow> u32 \<Rightarrow> 'a kmem_scheme \<Rightarrow> 'a kmem_scheme \<Rightarrow> bool" where
  "vstep c pgdir s s' \<longleftrightarrow>
     vmok c s' pgdir \<and> same_sync c s s' \<and> kframe s s' \<and>
     (\<exists>k. free_pages s' = drop k (free_pages s)) \<and>
     tables (mem s') pgdir \<subseteq> tables (mem s) pgdir \<union> set (free_pages s) \<and>
     (\<forall>x. PGROUNDDOWN x \<notin> set (free_pages s) \<union> {pgdir} \<union> tables (mem s) pgdir \<longrightarrow> mem s' x = mem s x)"

text \<open>
  The user part of an address space: which page an address is mapped to, and the isolation
  invariant: user pages are distinct, not free, and not part of the page table itself.
\<close>

definition umap :: "mem \<Rightarrow> u32 \<Rightarrow> u32 \<Rightarrow> u32 \<Rightarrow> bool" where
  "umap m pgdir va pg \<longleftrightarrow> va < KERNBASE \<and> pte_val m pgdir va AND PTE_P \<noteq> 0 \<and>
     pg = P2V (PTE_ADDR (pte_val m pgdir va))"

definition uvm_wf :: "'a kmem_scheme \<Rightarrow> u32 \<Rightarrow> bool" where
  "uvm_wf s pgdir \<longleftrightarrow>
     (\<forall>va pg. umap (mem s) pgdir va pg \<longrightarrow>
        page_ok s pg \<and> pg \<notin> set (free_pages s) \<and> pg \<noteq> pgdir \<and> pg \<notin> tables (mem s) pgdir) \<and>
     (\<forall>va vb pg. umap (mem s) pgdir va pg \<and> umap (mem s) pgdir vb pg \<longrightarrow>
        unat va div 4096 = unat vb div 4096)"

text \<open>What freeing user pages may do to the state; \<open>F\<close> is the set of pages given back.\<close>

definition dstep :: "nat \<Rightarrow> u32 \<Rightarrow> u32 set \<Rightarrow> 'a kmem_scheme \<Rightarrow> 'a kmem_scheme \<Rightarrow> bool" where
  "dstep c pgdir F s s' \<longleftrightarrow>
     vmok c s' pgdir \<and> uvm_wf s' pgdir \<and> same_sync c s s' \<and> kframe s s' \<and>
     set (free_pages s') = set (free_pages s) \<union> F \<and> tab (mem s') pgdir = tab (mem s) pgdir \<and>
     (\<forall>x. PGROUNDDOWN x \<notin> F \<union> tables (mem s) pgdir \<longrightarrow> mem s' x = mem s x)"

text \<open>The pages from \<open>a\<close> up to the size \<open>oldsz\<close>, and what is mapped there.\<close>

definition in_rng :: "u32 \<Rightarrow> u32 \<Rightarrow> u32 \<Rightarrow> bool" where
  "in_rng a oldsz vb \<longleftrightarrow> unat a div 4096 \<le> unat vb div 4096 \<and> 4096 * (unat vb div 4096) < unat oldsz"

definition freed :: "mem \<Rightarrow> u32 \<Rightarrow> u32 \<Rightarrow> u32 \<Rightarrow> u32 set" where
  "freed m pgdir a oldsz = {pg. \<exists>vb. in_rng a oldsz vb \<and> umap m pgdir vb pg}"

text \<open>The kernel address of a user byte, and the user addresses that user code may write through.\<close>

definition uaddr :: "mem \<Rightarrow> u32 \<Rightarrow> u32 \<Rightarrow> u32" where
  "uaddr m pgdir va = P2V (PTE_ADDR (pte_val m pgdir va)) + (va - PGROUNDDOWN va)"

definition upage_ok :: "mem \<Rightarrow> u32 \<Rightarrow> u32 \<Rightarrow> bool" where
  "upage_ok m pgdir va \<longleftrightarrow> va < KERNBASE \<and> pte_val m pgdir va AND PTE_P \<noteq> 0 \<and> pte_val m pgdir va AND PTE_U \<noteq> 0"

text \<open>A kernel with an empty directory at \<open>0x80200000\<close> and two free pages.\<close>

definition vm0 :: kmem where
  "vm0 = kmem0\<lparr>mem := store32 (\<lambda>_. 0) 0x80201000 0x80202000, freelist := 0x80201000\<rparr>"

section \<open>Entries\<close>

declare copyout_loop.simps [simp del]

lemma unat_PDX: "unat (PDX va) = unat va div 4194304"
proof -
  have "(0x3FF :: u32) = mask 10"
    by (simp add: mask_eq_exp_minus_1)
  then have "PDX va = take_bit 10 (drop_bit 22 va)"
    by (simp add: PDX_def take_bit_eq_mask)
  moreover have "unat (drop_bit 22 va) = unat va div 4194304"
    by (simp add: unsigned_drop_bit_eq drop_bit_nat_def take_bit_nat_eq_self)
  ultimately have "unat (PDX va) = unat va div 4194304 mod 1024"
    using unat_take_bit [of 10 "drop_bit 22 va"] by simp
  moreover have "unat va div 4194304 < 1024"
    by (rule less_mult_imp_div_less) simp
  ultimately show ?thesis by simp
qed

lemma unat_PTX: "unat (PTX va) = unat va div 4096 mod 1024"
proof -
  have "(0x3FF :: u32) = mask 10"
    by (simp add: mask_eq_exp_minus_1)
  then have "PTX va = take_bit 10 (drop_bit 12 va)"
    by (simp add: PTX_def take_bit_eq_mask)
  moreover have "unat (drop_bit 12 va) = unat va div 4096"
    by (simp add: unsigned_drop_bit_eq drop_bit_nat_def take_bit_nat_eq_self)
  ultimately show ?thesis
    using unat_take_bit [of 10 "drop_bit 12 va"] by simp
qed

lemma PDX_PTX_lt: "unat (PDX va) < 1024" "unat (PTX va) < 1024"
  by (simp_all add: unat_PTX) (simp add: unat_PDX less_mult_imp_div_less)

lemma same_page_iff: "PDX a = PDX b \<and> PTX a = PTX b \<longleftrightarrow> unat a div 4096 = unat b div 4096"
proof -
  have d: "unat x div 4194304 = unat x div 4096 div 1024" for x :: u32
    by (simp add: div_mult2_eq [symmetric])
  show ?thesis
    unfolding word_eq_unat [of "PDX a"] word_eq_unat [of "PTX a"] unat_PDX unat_PTX d
    by (metis div_mult_mod_eq)
qed

lemma load32_store32_aligned:
  assumes "unat a mod 4 = 0" "unat b mod 4 = 0"
  shows "load32 (store32 m a v) b = (if a = b then v else load32 m b)"
proof (cases "a = b")
  case False
  have "4 dvd unat (x - y)" if "unat x mod 4 = 0" "unat y mod 4 = 0" for x y :: u32
    using that by (auto simp: unat_sub32 mod_eq_0_iff_dvd intro!: dvd_diff_nat dvd_add)
  then have "4 \<le> unat (x - y)" if "unat x mod 4 = 0" "unat y mod 4 = 0" "x \<noteq> y" for x y :: u32
    using that by (intro dvd_imp_le) (simp_all add: unat_gt_0)
  with assms False show ?thesis
    by (simp add: load32_store32_other)
qed simp

text \<open>The entries of a page.\<close>

lemma unat_entry:
  fixes p i :: u32
  assumes "unat p mod 4096 = 0" "unat i < 1024"
  shows "unat (p + 4 * i) = unat p + 4 * unat i"
proof -
  obtain k where k: "unat p = 4096 * k" using assms(1) by auto
  then have "unat p + 4096 \<le> 4294967296"
    using unat_lt2p32 [of p] by simp
  moreover have "unat (4 * i) = 4 * unat i"
    using assms(2) by (simp add: unat_word_ariths)
  ultimately show ?thesis
    using assms(2) by (subst unat_add32_small) simp_all
qed

lemma entry_aligned: "unat p mod 4096 = 0 \<Longrightarrow> unat i < 1024 \<Longrightarrow> unat (p + 4 * i) mod 4 = 0" for p i :: u32
  by (auto simp: unat_entry)

lemma entry_inj:
  fixes p q i j :: u32
  assumes "unat p mod 4096 = 0" "unat i < 1024" "unat q mod 4096 = 0" "unat j < 1024"
  shows "p + 4 * i = q + 4 * j \<longleftrightarrow> p = q \<and> i = j"
proof
  assume "p + 4 * i = q + 4 * j"
  then have e: "unat p + 4 * unat i = unat q + 4 * unat j"
    using assms by (metis unat_entry)
  have "(unat p + 4 * unat i) div 4096 = unat p div 4096" "(unat q + 4 * unat j) div 4096 = unat q div 4096"
    using assms by (auto simp: div_add1_eq)
  with e assms have "unat p = unat q"
    by (metis div_mult_mod_eq)
  with e show "p = q \<and> i = j"
    by (simp add: word_eq_unat)
qed simp

lemma load32_store32_entry:
  fixes p q i j :: u32
  assumes "unat p mod 4096 = 0" "unat i < 1024" "unat q mod 4096 = 0" "unat j < 1024"
  shows "load32 (store32 m (p + 4 * i) v) (q + 4 * j) = (if p = q \<and> i = j then v else load32 m (q + 4 * j))"
  using assms by (simp add: load32_store32_aligned entry_aligned entry_inj)

lemma load32_memset_entry:
  fixes p q j :: u32
  assumes "unat p mod 4096 = 0" "unat q mod 4096 = 0" "unat j < 1024"
  shows "load32 (memset m p 0 PGSIZE) (q + 4 * j) = (if p = q then 0 else load32 m (q + 4 * j))"
proof -
  have j: "unat (4 * j + i) = 4 * unat j + unat i" if "unat i < 4" for i
    using assms(3) that by (subst unat_add32_small) (simp_all add: unat_word_ariths)
  show ?thesis
  proof (cases "p = q")
    case True
    have "q + 4 * j + i - p < PGSIZE" if "unat i < 4" for i
    proof -
      have "q + 4 * j + i - p = 4 * j + i"
        using True by simp
      then show ?thesis
        using j [OF that] assms(3) that by (simp only: word_less_nat_alt unat_page)
    qed
    then have "memset m p 0 PGSIZE (q + 4 * j + i) = 0" if "unat i < 4" for i
      using that by (simp only: memset_eq if_True) (simp add: byte_of_def)
    from this [of 0] this [of 1] this [of 2] this [of 3] show ?thesis
      using True by (simp add: load32_def word_of_bytes_def)
  next
    case False
    have "\<not> q + (4 * j + i) - p < PGSIZE" if "unat i < 4" for i
      using j [OF that] assms that False by (intro page_disjoint) auto
    then have "memset m p 0 PGSIZE (q + 4 * j + i) = m (q + 4 * j + i)" if "unat i < 4" for i
      using that by (simp only: memset_eq if_False add.assoc not_False_eq_True)
    from this [of 0] this [of 1] this [of 2] this [of 3]
    have "load32 (memset m p 0 PGSIZE) (q + 4 * j) = load32 m (q + 4 * j)"
      by (intro load32_cong) simp_all
    with False show ?thesis by simp
  qed
qed

lemma and_split: "(a AND NOT b) OR (a AND b) = a" for a b :: u32
  by (rule bit_eqI) (auto simp: bit_simps)

lemma page_end: "unat p mod 4096 = 0 \<Longrightarrow> unat p + 4096 \<le> 4294967296" for p :: u32
proof -
  assume "unat p mod 4096 = 0"
  then obtain k where "unat p = 4096 * k" by auto
  then show ?thesis using unat_lt2p32 [of p] by simp
qed

lemma page_frame_mem:
  assumes "unat p mod 4096 = 0" "PGROUNDDOWN x \<noteq> p"
  shows "\<not> x - p < PGSIZE"
proof
  assume "x - p < PGSIZE"
  then have u: "unat (x - p) < 4096"
    by (simp add: word_less_nat_alt)
  have "unat p + 4096 \<le> 4294967296"
    by (rule page_end [OF assms(1)])
  then have x: "unat x = unat p + unat (x - p)"
    using unat_add32_small [of p "x - p"] u by simp
  have "unat (x - PGROUNDDOWN x) = unat x mod 4096"
    by (rule PGROUNDDOWN_off)
  also have "\<dots> = unat (x - p)"
    using assms(1) u by (simp add: x mod_add_eq [of "unat p", symmetric])
  finally have "x - PGROUNDDOWN x = x - p"
    by (simp add: word_eq_unat)
  then show False
    using assms(2) by simp
qed

lemma unat_PTE_ADDR: "unat (PTE_ADDR x) = unat x - unat x mod 4096"
proof -
  have "(0xFFF :: u32) = mask 12"
    by (simp add: mask_eq_exp_minus_1)
  then show ?thesis
    using unat_and_not_mask [of x 12] by (simp add: PTE_ADDR_def)
qed

lemma PTE_ADDR_aligned [simp]: "unat (PTE_ADDR x) mod 4096 = 0"
  by (simp add: unat_PTE_ADDR minus_mod_eq_mult_div)

text \<open>An entry built from an aligned physical address and flags.\<close>

lemma aligned_bits: "unat a mod 4096 = 0 \<Longrightarrow> a AND 0xFFF = 0" for a :: u32
proof -
  assume a: "unat a mod 4096 = 0"
  have "(0xFFF :: u32) = mask 12"
    by (simp add: mask_eq_exp_minus_1)
  then have "unat (a AND 0xFFF) = unat a mod 4096"
    using unat_take_bit [of 12 a] by (simp add: take_bit_eq_mask)
  with a show ?thesis
    by (simp add: unat_eq_0)
qed

lemma PTE_make:
  assumes "unat a mod 4096 = 0" "f AND NOT 0xFFF = 0"
  shows "PTE_ADDR (a OR f) = a" "PTE_FLAGS (a OR f) = f"
proof -
  have 1: "a AND NOT 0xFFF = a"
    using aligned_bits [OF assms(1)] and_split [of a "0xFFF"] by simp
  have 2: "f AND 0xFFF = f"
    using assms(2) and_split [of f "0xFFF"] by simp
  show "PTE_ADDR (a OR f) = a" "PTE_FLAGS (a OR f) = f"
    using assms aligned_bits [OF assms(1)]
    by (simp_all only: PTE_ADDR_def PTE_FLAGS_def bit.conj_disj_distrib2 1 2) simp_all
qed

lemma V2P_P2V [simp]: "V2P (P2V a) = a" "P2V (V2P a) = a"
  by (simp_all add: V2P_def P2V_def)

lemma V2P_aligned: "unat p mod 4096 = 0 \<Longrightarrow> unat (V2P p) mod 4096 = 0"
  by (auto simp: V2P_def unat_sub32 mod_eq_0_iff_dvd intro!: dvd_diff_nat dvd_add)

lemma table_entry:
  assumes "unat t mod 4096 = 0"
  shows "P2V (PTE_ADDR (V2P t OR PTE_P OR PTE_W OR PTE_U)) = t"
    "(V2P t OR PTE_P OR PTE_W OR PTE_U) AND PTE_P \<noteq> 0"
proof -
  have f: "PTE_P OR PTE_W OR PTE_U = 7"
    by (simp add: PTE_P_def PTE_W_def PTE_U_def)
  show "P2V (PTE_ADDR (V2P t OR PTE_P OR PTE_W OR PTE_U)) = t"
    using PTE_make(1) [OF V2P_aligned [OF assms], of 7] by (simp add: f or.assoc)
  show "(V2P t OR PTE_P OR PTE_W OR PTE_U) AND PTE_P \<noteq> 0"
    by (simp add: PTE_P_def PTE_W_def PTE_U_def bit.conj_disj_distrib2)
qed

section \<open>Frames and updates\<close>

text \<open>Frames.\<close>

lemma kframe_refl [simp]: "kframe s s"
  by (simp add: kframe_def)

lemma kframe_upd [simp]:
  "kframe s (s\<lparr>mem := m\<rparr>)" "kframe s (s\<lparr>freelist := a\<rparr>)"
  by (simp_all add: kframe_def)

lemma kframe_trans [trans]:
  assumes "kframe s s'" "kframe s' s''"
  shows "kframe s s''"
proof -
  have s': "s' = s\<lparr>cpus := cpus s', locks := locks s', mem := mem s', freelist := freelist s'\<rparr>"
    using assms(1) by (simp add: kframe_def)
  have "s'' = s'\<lparr>cpus := cpus s'', locks := locks s'', mem := mem s'', freelist := freelist s''\<rparr>"
    using assms(2) by (simp add: kframe_def)
  then show ?thesis
    unfolding kframe_def by (subst (asm) s') simp
qed

lemma kframe_fields:
  assumes "kframe s s'"
  shows "kend s' = kend s" "use_lock s' = use_lock s" "kmem.more s' = kmem.more s" "IF s' = IF s"
proof -
  have e: "s' = s\<lparr>cpus := cpus s', locks := locks s', mem := mem s', freelist := freelist s'\<rparr>"
    using assms by (simp add: kframe_def)
  show "kend s' = kend s" "use_lock s' = use_lock s" "kmem.more s' = kmem.more s" "IF s' = IF s"
    by (subst e, simp)+
qed

lemma kcs_st_kframe [simp]: "kready c s \<Longrightarrow> kframe s (kcs_st c s)"
proof -
  assume r: "kready c s"
  have "cs_st c l s = s\<lparr>cpus := cpus (cs_st c l s), locks := locks (cs_st c l s)\<rparr>" if "cpu_ok c s" for l
    using cs_st_IF [OF that, of l] by (intro machine.equality) simp_all
  then show ?thesis
    using r unfolding kcs_st_def kready_def kframe_def by auto
qed

text \<open>Writes outside the free pages leave the free list alone.\<close>

lemma free_pages_frame:
  assumes "kmem_inv s" "freelist s' = freelist s" "kend s' = kend s"
    and "\<And>x. PGROUNDDOWN x \<in> set (free_pages s) \<Longrightarrow> mem s' x = mem s x"
  shows "kmem_inv s'" "free_pages s' = free_pages s"
proof -
  have "load32 (mem s') p = load32 (mem s) p" if "p \<in> set (free_pages s)" for p
  proof (rule load32_page_frame)
    fix i :: u32
    assume i: "unat i < 4096"
    have p: "unat p mod 4096 = 0"
      using that assms(1) page_ok_range(1) by (auto simp: kmem_inv_def)
    have "PGROUNDDOWN (p + i) = p"
      using page_frame_mem [OF p, of "p + i"] i by (auto simp: word_less_nat_alt)
    then show "mem s' (p + i) = mem s (p + i)"
      using assms(4) that by simp
  qed
  then have "chain (mem s') (freelist s') (free_pages s)"
    using assms(1,2) chain_frame unfolding kmem_inv_def by metis
  moreover have "distinct (free_pages s)" "\<forall>p \<in> set (free_pages s). page_ok s' p"
    using assms(1,3) by (auto simp: kmem_inv_def page_ok_def)
  ultimately show "kmem_inv s'" "free_pages s' = free_pages s"
    by (rule kmem_invI)+
qed

lemma page_of_entry:
  fixes p i :: u32
  assumes "unat p mod 4096 = 0" "unat i < 4096"
  shows "PGROUNDDOWN (p + i) = p"
  using page_frame_mem [OF assms(1), of "p + i"] assms(2) by (auto simp: word_less_nat_alt)

text \<open>A store to an entry of page \<open>p\<close> changes bytes of \<open>p\<close> only.\<close>

lemma store32_entry_frame:
  fixes p i :: u32
  assumes "unat p mod 4096 = 0" "unat i < 1024" "PGROUNDDOWN x \<noteq> p"
  shows "store32 m (p + 4 * i) v x = m x"
proof (rule store32_other, rule ccontr)
  assume "\<not> 4 \<le> unat (x - (p + 4 * i))"
  then have d: "unat (x - (p + 4 * i)) < 4" by simp
  have "unat (4 * i + (x - (p + 4 * i))) = 4 * unat i + unat (x - (p + 4 * i))"
    using assms(2) d by (subst unat_add32_small) (simp_all add: unat_word_ariths)
  then have "unat (4 * i + (x - (p + 4 * i))) < 4096"
    using assms(2) d by simp
  then have "PGROUNDDOWN (p + (4 * i + (x - (p + 4 * i)))) = p"
    using assms(1) by (rule page_of_entry [rotated])
  with assms(3) show False by simp
qed

lemma memset_page_frame:
  "unat p mod 4096 = 0 \<Longrightarrow> PGROUNDDOWN x \<noteq> p \<Longrightarrow> memset m p v PGSIZE x = m x"
  using page_frame_mem by (simp add: memset_eq)

lemma page_range_aligned: "page_ok s p \<Longrightarrow> unat p mod 4096 = 0"
  by (rule page_ok_range(1))

text \<open>Directory and tables after a store.\<close>

lemma tab_store_other:
  fixes p i :: u32
  assumes "unat p mod 4096 = 0" "unat i < 1024" "unat pgdir mod 4096 = 0" "p \<noteq> pgdir"
  shows "tab (store32 m (p + 4 * i) v) pgdir = tab m pgdir"
  using assms by (simp add: tab_def fun_eq_iff load32_store32_entry PDX_PTX_lt)

lemma tab_store_dir:
  assumes "unat pgdir mod 4096 = 0"
  shows "tab (store32 m (pgdir + 4 * PDX va) v) pgdir vb =
    (if PDX vb = PDX va then (if v AND PTE_P \<noteq> 0 then Some (P2V (PTE_ADDR v)) else None)
     else tab m pgdir vb)"
  using assms by (auto simp: tab_def load32_store32_entry PDX_PTX_lt)

lemma tab_memset:
  assumes "unat p mod 4096 = 0" "unat pgdir mod 4096 = 0" "p \<noteq> pgdir"
  shows "tab (memset m p 0 PGSIZE) pgdir = tab m pgdir"
  using assms by (simp add: tab_def fun_eq_iff load32_memset_entry PDX_PTX_lt)

lemma pgdir_wfD:
  assumes "pgdir_wf s pgdir"
  shows "page_ok s pgdir" "pgdir \<notin> set (free_pages s)" "unat pgdir mod 4096 = 0"
    "tab (mem s) pgdir va = Some t \<Longrightarrow> page_ok s t \<and> t \<notin> set (free_pages s) \<and> t \<noteq> pgdir \<and> unat t mod 4096 = 0"
    "tab (mem s) pgdir va = Some t \<Longrightarrow> tab (mem s) pgdir vb = Some t \<Longrightarrow> PDX va = PDX vb"
proof -
  show p: "page_ok s pgdir" and "pgdir \<notin> set (free_pages s)"
    using assms by (simp_all add: pgdir_wf_def)
  show "unat pgdir mod 4096 = 0"
    by (rule page_ok_range(1) [OF p])
  show "tab (mem s) pgdir va = Some t \<Longrightarrow> page_ok s t \<and> t \<notin> set (free_pages s) \<and> t \<noteq> pgdir \<and> unat t mod 4096 = 0"
    using assms page_ok_range(1) [of s t] unfolding pgdir_wf_def by blast
  show "tab (mem s) pgdir va = Some t \<Longrightarrow> tab (mem s) pgdir vb = Some t \<Longrightarrow> PDX va = PDX vb"
    using assms unfolding pgdir_wf_def by blast
qed

lemma pte_val_store:
  assumes "pgdir_wf s pgdir" "tab (mem s) pgdir va = Some t"
  shows "pte_val (store32 (mem s) (t + 4 * PTX va) v) pgdir vb =
    (if unat va div 4096 = unat vb div 4096 then v else pte_val (mem s) pgdir vb)"
proof -
  note w = pgdir_wfD [OF assms(1)] and t = pgdir_wfD(4) [OF assms]
  have tb: "tab (store32 (mem s) (t + 4 * PTX va) v) pgdir = tab (mem s) pgdir"
    using t w(3) by (intro tab_store_other) (auto simp: PDX_PTX_lt)
  show ?thesis
  proof (cases "tab (mem s) pgdir vb")
    case None
    then have "PDX va \<noteq> PDX vb"
      using assms(2) by (auto simp: tab_def)
    then have "unat va div 4096 \<noteq> unat vb div 4096"
      using same_page_iff by blast
    with None show ?thesis
      by (simp add: pte_val_def tb)
  next
    case (Some u)
    have "tab (mem s) pgdir va = tab (mem s) pgdir vb" if "PDX va = PDX vb"
      using that by (simp add: tab_def)
    then have "t = u \<longleftrightarrow> PDX va = PDX vb"
      using w(5) [OF assms(2), of vb] assms(2) Some by auto
    then have "t = u \<and> PTX va = PTX vb \<longleftrightarrow> unat va div 4096 = unat vb div 4096"
      using same_page_iff by metis
    moreover have "unat u mod 4096 = 0"
      using w(4) [OF Some] by simp
    ultimately show ?thesis
      using t Some by (simp add: pte_val_def tb load32_store32_entry PDX_PTX_lt)
  qed
qed

section \<open>Walking and mapping\<close>

lemma vmokD:
  assumes "vmok c s pgdir"
  shows "kready c s" "kmem_inv s" "pgdir_wf s pgdir" "KERNBASE < kend s"
  using assms by (simp_all add: vmok_def)

lemma vstep_refl: "vmok c s pgdir \<Longrightarrow> vstep c pgdir s s"
  by (auto simp: vstep_def intro: exI [of _ 0])

lemma vstepD:
  assumes "vstep c pgdir s s'"
  shows "vmok c s' pgdir" "same_sync c s s'" "kframe s s'" "set (free_pages s') \<subseteq> set (free_pages s)"
    "tables (mem s') pgdir \<subseteq> tables (mem s) pgdir \<union> set (free_pages s)"
    "PGROUNDDOWN x \<notin> set (free_pages s) \<Longrightarrow> PGROUNDDOWN x \<noteq> pgdir \<Longrightarrow>
       PGROUNDDOWN x \<notin> tables (mem s) pgdir \<Longrightarrow> mem s' x = mem s x"
  using assms by (auto simp: vstep_def dest: in_set_dropD)

lemma vstep_trans [trans]:
  assumes "vstep c pgdir s s'" "vstep c pgdir s' s''"
  shows "vstep c pgdir s s''"
  unfolding vstep_def
proof (intro conjI allI impI)
  note a = vstepD [OF assms(1)] and b = vstepD [OF assms(2)]
  show "vmok c s'' pgdir" by (rule b(1))
  show "same_sync c s s''" by (rule same_sync_trans [OF a(2) b(2)])
  show "kframe s s''" by (rule kframe_trans [OF a(3) b(3)])
  show "\<exists>k. free_pages s'' = drop k (free_pages s)"
    using assms unfolding vstep_def by (metis drop_drop)
  show "tables (mem s'') pgdir \<subseteq> tables (mem s) pgdir \<union> set (free_pages s)"
    using a(4,5) b(5) by blast
  fix x
  assume x: "PGROUNDDOWN x \<notin> set (free_pages s) \<union> {pgdir} \<union> tables (mem s) pgdir"
  then have "mem s' x = mem s x" "mem s'' x = mem s' x"
    using a(4-6) b(6) by blast+
  then show "mem s'' x = mem s x" by simp
qed

text \<open>A store to an entry of a table of the directory.\<close>

lemma vstep_store_pte:
  assumes "vmok c s pgdir" "tab (mem s) pgdir va = Some t"
  shows "vstep c pgdir s (s\<lparr>mem := store32 (mem s) (t + 4 * PTX va) v\<rparr>)"
    "free_pages (s\<lparr>mem := store32 (mem s) (t + 4 * PTX va) v\<rparr>) = free_pages s"
    "tab (store32 (mem s) (t + 4 * PTX va) v) pgdir = tab (mem s) pgdir"
proof -
  let ?m = "store32 (mem s) (t + 4 * PTX va) v"
  let ?s = "s\<lparr>mem := ?m\<rparr>"
  note ok = vmokD [OF assms(1)]
  note w = pgdir_wfD [OF ok(3)] and t = pgdir_wfD(4) [OF ok(3) assms(2)]
  show tb: "tab ?m pgdir = tab (mem s) pgdir"
    using t w(3) by (intro tab_store_other) (auto simp: PDX_PTX_lt)
  have fr: "?m x = mem s x" if "PGROUNDDOWN x \<noteq> t" for x
    using that t by (intro store32_entry_frame) (auto simp: PDX_PTX_lt)
  have "mem ?s x = mem s x" if "PGROUNDDOWN x \<in> set (free_pages s)" for x
    using that t fr [of x] by auto
  then have f: "kmem_inv ?s" "free_pages ?s = free_pages s"
    using free_pages_frame [OF ok(2), of ?s] by auto
  show "free_pages ?s = free_pages s" by (rule f(2))
  have "pgdir_wf ?s pgdir"
    using ok(3) f(2) by (simp add: pgdir_wf_def tb page_ok_def)
  then have "vmok c ?s pgdir"
    using ok(1,4) f(1) by (simp add: vmok_def kready_def)
  moreover have "t \<in> tables (mem s) pgdir"
    using assms(2) by (auto simp: tables_def)
  moreover from this have "?m x = mem s x" if "PGROUNDDOWN x \<notin> tables (mem s) pgdir" for x
    using that fr by metis
  moreover have "tables ?m pgdir = tables (mem s) pgdir"
    by (simp add: tables_def tb)
  ultimately show "vstep c pgdir s ?s"
    using f(2) by (auto simp: vstep_def intro: exI [of _ 0])
qed

lemma walk_present:
  "tab (mem s) pgdir va = Some t \<Longrightarrow> walkpgdir pgdir va al s = Ret (t + 4 * PTX va) s"
  by (auto simp: tab_def walkpgdir_def Let_def split: if_splits)

lemma walk_absent: "tab (mem s) pgdir va = None \<Longrightarrow> walkpgdir pgdir va False s = Ret 0 s"
  by (auto simp: tab_def walkpgdir_def Let_def split: if_splits)

lemma entry_nonzero: "page_ok s t \<Longrightarrow> t + 4 * PTX va \<noteq> 0"
  using unat_entry [of t "PTX va"] page_ok_range(1,2) [of s t] PDX_PTX_lt(2) [of va]
  by (metis add_is_0 not_numeral_le_zero unat_0)

lemma kalloc_kframe: "kready c s \<Longrightarrow> kalloc s = Ret r s' \<Longrightarrow> kframe s s'"
  using kframe_trans [OF kcs_st_kframe kframe_upd(2)] by (auto simp: kalloc_ok split: if_splits)

text \<open>\<open>walkpgdir\<close> when it has to make a table.\<close>

lemma walk_no_memory:
  assumes "vmok c s pgdir" "tab (mem s) pgdir va = None" "free_pages s = []"
  shows "\<exists>s'. walkpgdir pgdir va True s = Ret 0 s' \<and> vstep c pgdir s s' \<and> free_pages s' = [] \<and> mem s' = mem s"
proof -
  note ok = vmokD [OF assms(1)]
  obtain r s' where k: "kalloc s = Ret r s'"
    using kalloc_ok [OF ok(1)] by blast
  note ki = kalloc_inv [OF ok(2,1) k]
  have fr: "kframe s s'"
    by (rule kalloc_kframe [OF ok(1) k])
  have w: "walkpgdir pgdir va True s = Ret 0 s'"
    using assms(2,3) k ki(4) by (auto simp: walkpgdir_def tab_def Let_def split: if_splits)
  have "free_pages s' = []" using ki(2) assms(3) by simp
  then have "vmok c s' pgdir"
    using ok ki same_sync_kready [OF ki(5,7)] assms(3)
    by (auto simp: vmok_def pgdir_wf_def page_ok_def)
  with w ki assms(3) fr show ?thesis
    by (auto simp: vstep_def intro!: exI [of _ s'])
qed


lemma walk_alloc:
  assumes "vmok c s pgdir" "tab (mem s) pgdir va = None" "free_pages s = t # us"
  shows "\<exists>s'. walkpgdir pgdir va True s = Ret (t + 4 * PTX va) s' \<and> vstep c pgdir s s' \<and>
    free_pages s' = us \<and> tab (mem s') pgdir va = Some t \<and> pte_val (mem s') pgdir = pte_val (mem s) pgdir"
proof -
  note ok = vmokD [OF assms(1)] 
  note w = pgdir_wfD [OF ok(3)]
  obtain r s1 where k: "kalloc s = Ret r s1"
    using kalloc_ok [OF ok(1)] by blast
  note ki = kalloc_inv [OF ok(2,1) k]
  let ?v = "V2P t OR PTE_P OR PTE_W OR PTE_U"
  let ?m = "store32 (memset (mem s) t 0 PGSIZE) (pgdir + 4 * PDX va) ?v"
  let ?s = "s1\<lparr>mem := ?m\<rparr>"
  have t: "page_ok s t" "t \<noteq> pgdir" "t \<notin> set us" "r = t" "free_pages s1 = us"
    using ok(2) w(2) assms(3) ki(2,4) by (auto simp: kmem_inv_def)
  then have ta: "unat t mod 4096 = 0" and tn: "t \<noteq> 0"
    using page_ok_range(1) page_ok_nonzero by blast+
  have wk: "walkpgdir pgdir va True s = Ret (t + 4 * PTX va) ?s"
    using assms(2) k t(4) tn ki(3) by (auto simp: walkpgdir_def tab_def Let_def split: if_splits)
  have tb: "tab ?m pgdir vb = (if PDX vb = PDX va then Some t else tab (mem s) pgdir vb)" for vb
    using table_entry [OF ta] t(2) ta w(3) by (simp add: tab_store_dir tab_memset)
  have fr: "?m x = mem s x" if "PGROUNDDOWN x \<noteq> t" "PGROUNDDOWN x \<noteq> pgdir" for x
    using that ta w(3) by (simp add: store32_entry_frame PDX_PTX_lt memset_page_frame)
  have "mem ?s x = mem s1 x" if "PGROUNDDOWN x \<in> set (free_pages s1)" for x
    using that t w(2) assms(3) fr [of x] by (auto simp: ki(3))
  then have f: "kmem_inv ?s" "free_pages ?s = us"
    using free_pages_frame [OF ki(1), of ?s] t(5) by auto
  have old: "u \<noteq> t" if "tab (mem s) pgdir vb = Some u" for u vb
    using w(4) [OF that] assms(3) by auto
  have pk: "page_ok ?s = page_ok s"
    by (simp add: page_ok_def fun_eq_iff ki)
  have "pgdir_wf ?s pgdir"
    unfolding pgdir_wf_def
  proof (intro conjI allI impI)
    show "page_ok ?s pgdir" "pgdir \<notin> set (free_pages ?s)"
      using w(1,2) assms(3) by (simp_all add: pk f(2))
    fix va' u assume "tab (mem ?s) pgdir va' = Some u"
    then have "u = t \<or> tab (mem s) pgdir va' = Some u"
      by (simp add: tb split: if_splits)
    then show "page_ok ?s u" "u \<notin> set (free_pages ?s)" "u \<noteq> pgdir"
      using t w(4) assms(3) by (auto simp: pk f(2))
  next
    fix va' vb u
    assume "tab (mem ?s) pgdir va' = Some u \<and> tab (mem ?s) pgdir vb = Some u"
    then show "PDX va' = PDX vb"
      using old w(5) by (auto simp: tb split: if_splits)
  qed
  then have vm: "vmok c ?s pgdir"
    using f(1) ok(1,4) same_sync_kready [OF ki(5,7)] by (simp add: vmok_def kready_def ki(6))
  have "pte_val ?m pgdir vb = pte_val (mem s) pgdir vb" for vb
  proof (cases "PDX vb = PDX va")
    case True
    then have "tab (mem s) pgdir vb = None"
      using assms(2) by (simp add: tab_def)
    then show ?thesis
      using True ta t(2) w(3) by (simp add: pte_val_def tb load32_store32_entry load32_memset_entry PDX_PTX_lt)
  next
    case False
    show ?thesis
    proof (cases "tab (mem s) pgdir vb")
      case (Some u)
      then show ?thesis
        using False ta w(3) w(4) [OF Some] old [OF Some]
        by (auto simp: pte_val_def tb load32_store32_entry load32_memset_entry PDX_PTX_lt)
    qed (simp add: False pte_val_def tb)
  qed
  then have pv: "pte_val (mem ?s) pgdir = pte_val (mem s) pgdir" by (simp add: fun_eq_iff)
  have "kframe s ?s"
    by (rule kframe_trans [OF kalloc_kframe [OF ok(1) k] kframe_upd(1)])
  moreover have "tables (mem ?s) pgdir \<subseteq> tables (mem s) pgdir \<union> set (free_pages s)"
    using assms(3) by (auto simp: tables_def tb split: if_splits)
  moreover have "free_pages ?s = drop 1 (free_pages s)" "t \<in> set (free_pages s)"
    by (simp_all add: f(2) assms(3))
  moreover from this have "mem ?s x = mem s x"
    if "PGROUNDDOWN x \<notin> set (free_pages s) \<union> {pgdir} \<union> tables (mem s) pgdir" for x
    using that fr [of x] by auto
  ultimately have "vstep c pgdir s ?s"
    unfolding vstep_def using vm ki(5) by auto
  with wk f(2) pv show ?thesis
    by (intro exI [of _ ?s]) (simp add: tb)
qed


text \<open>One round of \<open>mappages\<close>: there is no page for a table, or the entry is found and can be set.\<close>

lemma walk_entry:
  assumes "vmok c s pgdir" "tab (mem s) pgdir va = Some t"
  shows "t + 4 * PTX va \<noteq> 0" "load32 (mem s) (t + 4 * PTX va) = pte_val (mem s) pgdir va"
  using entry_nonzero pgdir_wfD(4) [OF vmokD(3) [OF assms(1)] assms(2)] assms(2)
  by (auto simp: pte_val_def)

lemma map_one:
  assumes ok: "vmok c s pgdir"
  shows "(\<exists>s'. walkpgdir pgdir a True s = Ret 0 s' \<and> vstep c pgdir s s' \<and> free_pages s = [] \<and>
      free_pages s' = [] \<and> mem s' = mem s) \<or>
    (\<exists>p s1. walkpgdir pgdir a True s = Ret p s1 \<and> p \<noteq> 0 \<and>
      load32 (mem s1) p = pte_val (mem s) pgdir a \<and>
      (\<forall>v. vstep c pgdir s (s1\<lparr>mem := store32 (mem s1) p v\<rparr>) \<and>
        length (free_pages s) \<le> Suc (length (free_pages (s1\<lparr>mem := store32 (mem s1) p v\<rparr>))) \<and>
        (\<forall>vb. pte_val (store32 (mem s1) p v) pgdir vb =
           (if unat a div 4096 = unat vb div 4096 then v else pte_val (mem s) pgdir vb))))"
proof (cases "tab (mem s) pgdir a")
  case (Some t)
  then show ?thesis
    using walk_present [OF Some] walk_entry [OF ok Some] vstep_store_pte [OF ok Some]
      pte_val_store [OF vmokD(3) [OF ok] Some] by auto
next
  case None
  show ?thesis
  proof (cases "free_pages s")
    case Nil
    then show ?thesis using walk_no_memory [OF ok None Nil] by auto
  next
    case (Cons t us)
    from walk_alloc [OF ok None Cons] obtain s1 where s1:
      "walkpgdir pgdir a True s = Ret (t + 4 * PTX a) s1" "vstep c pgdir s s1" "free_pages s1 = us"
      "tab (mem s1) pgdir a = Some t" "pte_val (mem s1) pgdir = pte_val (mem s) pgdir" by blast
    note ok1 = vstepD(1) [OF s1(2)]
    show ?thesis
      using s1(1,3,5) walk_entry [OF ok1 s1(4)] vstep_trans [OF s1(2) vstep_store_pte(1) [OF ok1 s1(4)]]
        vstep_store_pte(2) [OF ok1 s1(4)] pte_val_store [OF vmokD(3) [OF ok1] s1(4)] Cons
      by auto
  qed
qed


lemma mappages_loop_ok:
  assumes "vmok c s pgdir" "unat a + 4096 * n < 4294967296" "unat a mod 4096 = 0" "n < N"
    and "lst = a + of_nat (4096 * n)"
    and "\<forall>vb. unat a div 4096 \<le> unat vb div 4096 \<and> unat vb div 4096 \<le> unat a div 4096 + n \<longrightarrow>
           pte_val (mem s) pgdir vb AND PTE_P = 0"
  shows "\<exists>r s'. mappages_loop N pgdir a lst pa perm s = Ret r s' \<and> vstep c pgdir s s' \<and>
    (r = 0 \<or> r = -1 \<and> free_pages s' = []) \<and> (n < length (free_pages s) \<longrightarrow> r = 0) \<and>
    length (free_pages s) \<le> length (free_pages s') + Suc n \<and>
    (r = 0 \<longrightarrow> (\<forall>vb. pte_val (mem s') pgdir vb =
       (if unat a div 4096 \<le> unat vb div 4096 \<and> unat vb div 4096 \<le> unat a div 4096 + n
        then (pa + of_nat (4096 * (unat vb div 4096 - unat a div 4096))) OR perm OR PTE_P
        else pte_val (mem s) pgdir vb)))"
  using assms
proof (induction n arbitrary: N a pa s)
  case (0 N a pa s)
  then obtain M where N: "N = Suc M" by (cases N) auto
  have "pte_val (mem s) pgdir a AND PTE_P = 0" using 0 by auto
  with map_one [OF 0(1), of a] 0(5) show ?case
    by (auto simp: N)
next
  case (Suc n N a pa s)
  then obtain M where N: "N = Suc M" by (cases N) auto
  have np: "pte_val (mem s) pgdir a AND PTE_P = 0" using Suc.prems(6) by auto
  have u: "unat (a + PGSIZE) = unat a + 4096"
    using Suc.prems(2) by (subst unat_add32_small) simp_all
  have ne: "a \<noteq> lst"
  proof -
    have "unat (of_nat (4096 * Suc n) :: u32) = 4096 * Suc n"
      by (rule unat_of_nat32) (use Suc.prems(2) in linarith)
    then have "unat lst = unat a + 4096 * Suc n"
      using Suc.prems(2) unat_add32_small [of a "of_nat (4096 * Suc n)"] unfolding Suc.prems(5) by metis
    then show ?thesis by auto
  qed
  from map_one [OF Suc.prems(1), of a] show ?case
  proof (elim disjE exE conjE)
    fix s'
    assume "walkpgdir pgdir a True s = Ret 0 s'" "vstep c pgdir s s'" "free_pages s = []" "free_pages s' = []"
    then show ?thesis by (auto simp: N)
  next
    fix p and s1 :: "'a kmem_scheme"
    let ?v = "pa OR perm OR PTE_P"
    let ?s2 = "s1\<lparr>mem := store32 (mem s1) p ?v\<rparr>"
    assume w: "walkpgdir pgdir a True s = Ret p s1" "p \<noteq> 0" "load32 (mem s1) p = pte_val (mem s) pgdir a"
      and all: "\<forall>v. vstep c pgdir s (s1\<lparr>mem := store32 (mem s1) p v\<rparr>) \<and>
        length (free_pages s) \<le> Suc (length (free_pages (s1\<lparr>mem := store32 (mem s1) p v\<rparr>))) \<and>
        (\<forall>vb. pte_val (store32 (mem s1) p v) pgdir vb =
           (if unat a div 4096 = unat vb div 4096 then v else pte_val (mem s) pgdir vb))"
    then have s2: "vstep c pgdir s ?s2" "length (free_pages s) \<le> Suc (length (free_pages ?s2))"
      "\<And>vb. pte_val (store32 (mem s1) p ?v) pgdir vb =
           (if unat a div 4096 = unat vb div 4096 then ?v else pte_val (mem s) pgdir vb)"
      by auto
    have e: "(unat a + 4096) div 4096 = Suc (unat a div 4096)" by simp
    have "\<exists>r s'. mappages_loop M pgdir (a + PGSIZE) lst (pa + PGSIZE) perm ?s2 = Ret r s' \<and> vstep c pgdir ?s2 s' \<and>
      (r = 0 \<or> r = -1 \<and> free_pages s' = []) \<and> (n < length (free_pages ?s2) \<longrightarrow> r = 0) \<and>
      length (free_pages ?s2) \<le> length (free_pages s') + Suc n \<and>
      (r = 0 \<longrightarrow> (\<forall>vb. pte_val (mem s') pgdir vb =
         (if unat (a + PGSIZE) div 4096 \<le> unat vb div 4096 \<and> unat vb div 4096 \<le> unat (a + PGSIZE) div 4096 + n
          then (pa + PGSIZE + of_nat (4096 * (unat vb div 4096 - unat (a + PGSIZE) div 4096))) OR perm OR PTE_P
          else pte_val (mem ?s2) pgdir vb)))"
    proof (rule Suc.IH)
      show "vmok c ?s2 pgdir" by (rule vstepD(1) [OF s2(1)])
      show "unat (a + PGSIZE) + 4096 * n < 4294967296" "unat (a + PGSIZE) mod 4096 = 0" "n < M"
        using Suc.prems(2-4) N by (simp_all add: u)
      show "lst = a + PGSIZE + of_nat (4096 * n)"
        using Suc.prems(5) by (simp add: PGSIZE_def algebra_simps)
      show "\<forall>vb. unat (a + PGSIZE) div 4096 \<le> unat vb div 4096 \<and>
          unat vb div 4096 \<le> unat (a + PGSIZE) div 4096 + n \<longrightarrow> pte_val (mem ?s2) pgdir vb AND PTE_P = 0"
        using Suc.prems(6) by (auto simp: s2(3) u e)
    qed
    then obtain r s' where r: "mappages_loop M pgdir (a + PGSIZE) lst (pa + PGSIZE) perm ?s2 = Ret r s'"
      "vstep c pgdir ?s2 s'" "r = 0 \<or> r = -1 \<and> free_pages s' = []" "n < length (free_pages ?s2) \<longrightarrow> r = 0"
      "length (free_pages ?s2) \<le> length (free_pages s') + Suc n"
      "r = 0 \<longrightarrow> (\<forall>vb. pte_val (mem s') pgdir vb =
         (if unat (a + PGSIZE) div 4096 \<le> unat vb div 4096 \<and> unat vb div 4096 \<le> unat (a + PGSIZE) div 4096 + n
          then (pa + PGSIZE + of_nat (4096 * (unat vb div 4096 - unat (a + PGSIZE) div 4096))) OR perm OR PTE_P
          else pte_val (mem ?s2) pgdir vb))" by blast
    have "mappages_loop N pgdir a lst pa perm s = Ret r s'"
      using r(1) w np ne by (simp add: N)
    moreover have "vstep c pgdir s s'"
      by (rule vstep_trans [OF s2(1) r(2)])
    moreover have "pte_val (mem s') pgdir vb =
       (if unat a div 4096 \<le> unat vb div 4096 \<and> unat vb div 4096 \<le> unat a div 4096 + Suc n
        then (pa + of_nat (4096 * (unat vb div 4096 - unat a div 4096))) OR perm OR PTE_P
        else pte_val (mem s) pgdir vb)" if "r = 0" for vb
    proof -
      have "pa + PGSIZE + of_nat (4096 * (y - Suc x)) = pa + of_nat (4096 * (y - x))" if "Suc x \<le> y" for x y :: nat
      proof -
        have "4096 * (y - x) = 4096 + 4096 * (y - Suc x)" using that by simp
        then show ?thesis by (simp add: PGSIZE_def)
      qed
      then show ?thesis
        using r(6) that s2(3) [of vb] by (auto simp: u e)
    qed
    ultimately show ?thesis
      using r(3-5) s2(2) by (intro exI conjI) auto
  qed
qed

lemma unat_PGROUNDDOWN: "unat (PGROUNDDOWN a) = 4096 * (unat a div 4096)"
proof -
  have "PGROUNDDOWN a = a - (a - PGROUNDDOWN a)" by simp
  moreover have "unat (a - PGROUNDDOWN a) \<le> unat a"
    by (simp add: PGROUNDDOWN_off)
  ultimately have "unat (PGROUNDDOWN a) = unat a - unat a mod 4096"
    by (metis PGROUNDDOWN_off unat_sub word_le_nat_alt)
  then show ?thesis
    by (simp add: minus_mod_eq_mult_div)
qed

lemma mappages_ok:
  assumes "vmok c s pgdir" "0 < unat siz" "unat va + unat siz \<le> 4294967296"
  defines "lo \<equiv> unat va div 4096" and "hi \<equiv> (unat va + unat siz - 1) div 4096"
  assumes "\<forall>vb. lo \<le> unat vb div 4096 \<and> unat vb div 4096 \<le> hi \<longrightarrow> pte_val (mem s) pgdir vb AND PTE_P = 0"
  shows "\<exists>r s'. mappages pgdir va siz pa perm s = Ret r s' \<and> vstep c pgdir s s' \<and>
    (r = 0 \<or> r = -1 \<and> free_pages s' = []) \<and> (hi - lo < length (free_pages s) \<longrightarrow> r = 0) \<and>
    length (free_pages s) \<le> length (free_pages s') + Suc (hi - lo) \<and>
    (r = 0 \<longrightarrow> (\<forall>vb. pte_val (mem s') pgdir vb =
       (if lo \<le> unat vb div 4096 \<and> unat vb div 4096 \<le> hi
        then (pa + of_nat (4096 * (unat vb div 4096 - lo))) OR perm OR PTE_P
        else pte_val (mem s) pgdir vb)))"
proof -
  let ?a = "PGROUNDDOWN va"
  have le: "lo \<le> hi"
    unfolding lo_def hi_def using assms(2) by (intro div_le_mono) simp
  have hi: "hi < 1048576"
    unfolding hi_def using assms(2,3) by (intro less_mult_imp_div_less) linarith
  have a: "unat ?a = 4096 * lo"
    by (simp add: lo_def unat_PGROUNDDOWN)
  have e: "unat (va + siz - 1) = unat va + unat siz - 1"
  proof -
    have "unat (siz - 1) = unat siz - 1"
      using assms(2) unat_minus_one [of siz] by (metis less_numeral_extra(3) unat_0)
    then have "unat (va + (siz - 1)) = unat va + (unat siz - 1)"
      using assms(2,3) by (subst unat_add32_small) simp_all
    then show ?thesis using assms(2) by (simp add: algebra_simps)
  qed
  have h4: "4096 * hi < 4294967296" using hi by simp
  have l: "unat (PGROUNDDOWN (va + siz - 1)) = 4096 * hi"
    by (simp add: unat_PGROUNDDOWN e hi_def)
  have "unat (?a + of_nat (4096 * (hi - lo))) = 4096 * hi"
  proof -
    have "unat (of_nat (4096 * (hi - lo)) :: u32) = 4096 * (hi - lo)"
      by (rule unat_of_nat32) (use hi in simp)
    then show ?thesis
      using unat_add32_small [of ?a "of_nat (4096 * (hi - lo))"] a le hi
      by (simp add: diff_mult_distrib2 del: of_nat_mult)
  qed
  with l have lst: "PGROUNDDOWN (va + siz - 1) = ?a + of_nat (4096 * (hi - lo))"
    unfolding word_eq_unat by metis
  have d: "unat ?a div 4096 = lo" "lo + (hi - lo) = hi" "unat ?a + 4096 * (hi - lo) < 4294967296"
    using a le hi by simp_all
  have am: "unat ?a mod 4096 = 0" and N: "hi - lo < PAGES"
    using a hi by (simp_all add: PAGES_def)
  show ?thesis
    unfolding mappages_def
    using mappages_loop_ok [OF assms(1) d(3) am N lst, of pa perm, unfolded d(1,2)] assms(6) by blast
qed

text \<open>One page.\<close>

lemma PGROUNDDOWN_id: "unat a mod 4096 = 0 \<Longrightarrow> PGROUNDDOWN a = a"
  by (auto simp: word_eq_unat unat_PGROUNDDOWN)

lemma map_page:
  assumes ok: "vmok c s pgdir" and "unat a mod 4096 = 0" "pte_val (mem s) pgdir a AND PTE_P = 0"
  shows "\<exists>r s'. mappages pgdir a PGSIZE pa perm s = Ret r s' \<and> vstep c pgdir s s' \<and>
    (r = 0 \<and> length (free_pages s) \<le> Suc (length (free_pages s')) \<and>
      (\<forall>vb. pte_val (mem s') pgdir vb =
       (if unat a div 4096 = unat vb div 4096 then pa OR perm OR PTE_P else pte_val (mem s) pgdir vb)) \<or>
     r = -1 \<and> free_pages s = [] \<and> mem s' = mem s)"
proof -
  have "PGROUNDDOWN (a + 4095) = a"
    by (rule page_of_entry [OF assms(2)]) simp
  then have "PGROUNDDOWN (a + PGSIZE - 1) = a"
    by (simp add: PGSIZE_def add.commute)
  moreover obtain N where "PAGES = Suc N"
    by (cases PAGES) (simp_all add: PAGES_def)
  ultimately have "mappages pgdir a PGSIZE pa perm s = mappages_loop (Suc N) pgdir a a pa perm s"
    using PGROUNDDOWN_id [OF assms(2)] by (simp only: mappages_def)
  with map_one [OF ok, of a] assms(3) show ?thesis
    by auto
qed

text \<open>Taking a page and clearing it.\<close>

lemma kalloc_zero:
  assumes ok: "vmok c s pgdir" and fp: "free_pages s = pg # us"
  shows "\<exists>s1. kalloc s = Ret pg s1 \<and> pg \<noteq> 0 \<and> page_ok s pg \<and>
    vstep c pgdir s (s1\<lparr>mem := memset (mem s1) pg 0 PGSIZE\<rparr>) \<and>
    free_pages (s1\<lparr>mem := memset (mem s1) pg 0 PGSIZE\<rparr>) = us \<and>
    mem s1 = mem s \<and> tab (memset (mem s1) pg 0 PGSIZE) pgdir = tab (mem s) pgdir \<and>
    pte_val (memset (mem s1) pg 0 PGSIZE) pgdir = pte_val (mem s) pgdir"
proof -
  note k = vmokD [OF ok] and w = pgdir_wfD [OF vmokD(3) [OF ok]]
  obtain r s1 where a: "kalloc s = Ret r s1"
    using kalloc_ok [OF k(1)] by blast
  note ki = kalloc_inv [OF k(2,1) a]
  have pg: "r = pg" "page_ok s pg" "pg \<notin> set us" "pg \<noteq> pgdir" "free_pages s1 = us"
    using ki(2,4) fp k(2) w(2) by (auto simp: kmem_inv_def)
  have pa: "unat pg mod 4096 = 0" by (rule page_ok_range(1) [OF pg(2)])
  let ?m = "memset (mem s) pg 0 PGSIZE"
  let ?s = "s1\<lparr>mem := ?m\<rparr>"
  have fr: "?m x = mem s x" if "PGROUNDDOWN x \<noteq> pg" for x
    using that pa by (simp add: memset_page_frame)
  have "mem ?s x = mem s1 x" if "PGROUNDDOWN x \<in> set (free_pages s1)" for x
    using that pg fr [of x] by (auto simp: ki(3))
  then have f: "kmem_inv ?s" "free_pages ?s = us"
    using free_pages_frame [OF ki(1), of ?s] pg(5) by auto
  have tb: "tab ?m pgdir = tab (mem s) pgdir"
    by (rule tab_memset [OF pa w(3) pg(4)])
  have tn: "u \<noteq> pg" "unat u mod 4096 = 0" if "tab (mem s) pgdir vb = Some u" for u vb
    using w(4) [OF that] fp by auto
  have pv: "pte_val ?m pgdir = pte_val (mem s) pgdir"
  proof
    fix vb
    show "pte_val ?m pgdir vb = pte_val (mem s) pgdir vb"
      using tn [of vb] pa by (auto simp: pte_val_def tb load32_memset_entry PDX_PTX_lt split: option.splits)
  qed
  have "pgdir_wf ?s pgdir"
    using k(3) fp by (auto simp: pgdir_wf_def tb f(2) page_ok_def ki(6))
  then have "vmok c ?s pgdir"
    using f(1) k(1,4) same_sync_kready [OF ki(5,7)] by (simp add: vmok_def kready_def ki(6))
  moreover have "kframe s ?s"
    by (rule kframe_trans [OF kalloc_kframe [OF k(1) a] kframe_upd(1)])
  moreover have "free_pages ?s = drop 1 (free_pages s)" "pg \<in> set (free_pages s)"
    by (simp_all add: f(2) fp)
  moreover have "mem ?s x = mem s x" if "PGROUNDDOWN x \<notin> set (free_pages s)" for x
    using that fr [of x] fp by auto
  ultimately have "vstep c pgdir s ?s"
    unfolding vstep_def using ki(5) tb by (auto simp: tables_def)
  then show ?thesis
    using a pg(1,2) page_ok_nonzero f(2) ki(3) tb pv by auto
qed


text \<open>What one round of \<open>allocuvm\<close> does: a fresh zero page at \<open>a\<close>.\<close>

lemma user_entry:
  assumes "unat pg mod 4096 = 0"
  shows "P2V (PTE_ADDR (V2P pg OR (PTE_W OR PTE_U) OR PTE_P)) = pg"
    "(V2P pg OR (PTE_W OR PTE_U) OR PTE_P) AND PTE_P \<noteq> 0"
proof -
  have f: "PTE_W OR (PTE_U OR PTE_P) = 7"
    by (simp add: PTE_P_def PTE_W_def PTE_U_def)
  show "P2V (PTE_ADDR (V2P pg OR (PTE_W OR PTE_U) OR PTE_P)) = pg"
    using PTE_make(1) [OF V2P_aligned [OF assms], of 7] by (simp add: f or.assoc)
  show "(V2P pg OR (PTE_W OR PTE_U) OR PTE_P) AND PTE_P \<noteq> 0"
    by (simp add: PTE_P_def PTE_W_def PTE_U_def bit.conj_disj_distrib2)
qed

lemma uvm_wf_add_page:
  assumes wf: "uvm_wf s pgdir" and st: "vstep c pgdir s1 s2" and s1: "vstep c pgdir s s1"
    and pg: "free_pages s = pg # free_pages s1" "page_ok s pg" "vmok c s pgdir"
      "tables (mem s1) pgdir = tables (mem s) pgdir"
    and pv: "\<forall>vb. pte_val (mem s2) pgdir vb =
       (if unat a div 4096 = unat vb div 4096 then V2P pg OR (PTE_W OR PTE_U) OR PTE_P
        else pte_val (mem s) pgdir vb)"
  shows "uvm_wf s2 pgdir"
proof -
  note v = vstepD [OF st] and v1 = vstepD [OF s1] and k = vmokD [OF pg(3)]
  have pk: "page_ok s2 = page_ok s"
    using kframe_fields(1) [OF v(3)] kframe_fields(1) [OF v1(3)] by (simp add: page_ok_def fun_eq_iff)
  have ua: "unat pg mod 4096 = 0" by (rule page_ok_range(1) [OF pg(2)])
  have um: "umap (mem s2) pgdir va q \<longleftrightarrow>
      (if unat a div 4096 = unat va div 4096 then va < KERNBASE \<and> q = pg else umap (mem s) pgdir va q)" for va q
    using pv user_entry [OF ua] by (auto simp: umap_def)
  have tb: "tables (mem s2) pgdir \<subseteq> tables (mem s) pgdir \<union> set (free_pages s1)"
    using v(5) pg(4) by auto
  have d: "pg \<notin> set (free_pages s1)" "pg \<noteq> pgdir" "pg \<notin> tables (mem s) pgdir"
    using k(2,3) pg(1) pgdir_wfD(2,4) [OF k(3)] by (auto simp: kmem_inv_def tables_def)
  have old: "page_ok s q \<and> q \<notin> set (free_pages s) \<and> q \<noteq> pgdir \<and> q \<notin> tables (mem s) pgdir"
    if "umap (mem s) pgdir va q" for va q
    using wf that unfolding uvm_wf_def by blast
  have "page_ok s2 q \<and> q \<notin> set (free_pages s2) \<and> q \<noteq> pgdir \<and> q \<notin> tables (mem s2) pgdir"
    if "umap (mem s2) pgdir va q" for va q
    using that old [of va q] d pg(1,2) v(4) tb by (auto simp: um pk split: if_splits)
  moreover have "unat va div 4096 = unat vb div 4096"
    if "umap (mem s2) pgdir va q" "umap (mem s2) pgdir vb q" for va vb q
  proof -
    have "q \<noteq> pg" if "umap (mem s) pgdir vc q" for vc
      using old [OF that] pg(1) by auto
    moreover have "unat va div 4096 = unat vb div 4096" if "umap (mem s) pgdir va q" "umap (mem s) pgdir vb q"
      using wf that unfolding uvm_wf_def by blast
    ultimately show ?thesis
      using that unfolding um by (metis (full_types))
  qed
  ultimately show ?thesis
    unfolding uvm_wf_def by blast
qed


lemma alloc_one:
  assumes ok: "vmok c s pgdir" "uvm_wf s pgdir" and a: "unat a mod 4096 = 0" "a < KERNBASE"
    and np: "pte_val (mem s) pgdir a AND PTE_P = 0" and fp: "2 \<le> length (free_pages s)"
  shows "\<exists>pg s1 s2. kalloc s = Ret pg s1 \<and> pg \<noteq> 0 \<and> pg \<in> set (free_pages s) \<and>
    mappages pgdir a PGSIZE (V2P pg) (PTE_W OR PTE_U) (s1\<lparr>mem := memset (mem s1) pg 0 PGSIZE\<rparr>) = Ret 0 s2 \<and>
    vstep c pgdir s s2 \<and> uvm_wf s2 pgdir \<and> length (free_pages s) \<le> length (free_pages s2) + 2 \<and>
    umap (mem s2) pgdir a pg \<and> (\<forall>x. PGROUNDDOWN x = pg \<longrightarrow> mem s2 x = 0) \<and>
    (\<forall>vb. pte_val (mem s2) pgdir vb =
       (if unat a div 4096 = unat vb div 4096 then V2P pg OR (PTE_W OR PTE_U) OR PTE_P
        else pte_val (mem s) pgdir vb))"
proof -
  obtain pg us where us: "free_pages s = pg # us" "us \<noteq> []"
    using fp by (cases "free_pages s") (auto simp: Suc_le_eq)
  from kalloc_zero [OF ok(1) us(1)] obtain s1 where s1: "kalloc s = Ret pg s1" "pg \<noteq> 0" "page_ok s pg"
    "vstep c pgdir s (s1\<lparr>mem := memset (mem s1) pg 0 PGSIZE\<rparr>)"
    "free_pages (s1\<lparr>mem := memset (mem s1) pg 0 PGSIZE\<rparr>) = us" "mem s1 = mem s"
    "tab (memset (mem s1) pg 0 PGSIZE) pgdir = tab (mem s) pgdir"
    "pte_val (memset (mem s1) pg 0 PGSIZE) pgdir = pte_val (mem s) pgdir" by blast
  let ?s = "s1\<lparr>mem := memset (mem s1) pg 0 PGSIZE\<rparr>"
  have np': "pte_val (mem ?s) pgdir a AND PTE_P = 0"
    using np s1(8) by simp
  from map_page [OF vstepD(1) [OF s1(4)] a(1) np', of "V2P pg" "PTE_W OR PTE_U"] us(2) s1(5,8)
  obtain s2 where s2: "mappages pgdir a PGSIZE (V2P pg) (PTE_W OR PTE_U) ?s = Ret 0 s2" "vstep c pgdir ?s s2"
    "length us \<le> Suc (length (free_pages s2))"
    "\<forall>vb. pte_val (mem s2) pgdir vb =
       (if unat a div 4096 = unat vb div 4096 then V2P pg OR (PTE_W OR PTE_U) OR PTE_P else pte_val (mem s) pgdir vb)"
    by auto
  have tt: "tables (mem ?s) pgdir = tables (mem s) pgdir"
    using s1(7) by (simp add: tables_def)
  have pa: "unat pg mod 4096 = 0" by (rule page_ok_range(1) [OF s1(3)])
  have wf: "uvm_wf s2 pgdir"
    using uvm_wf_add_page [OF ok(2) s2(2) s1(4) _ s1(3) ok(1) tt s2(4)] us(1) s1(5) by simp
  have um: "umap (mem s2) pgdir a pg"
    using s2(4) user_entry [OF pa] a(2) by (auto simp: umap_def)
  have "mem s2 x = 0" if "PGROUNDDOWN x = pg" for x
  proof -
    have "pg \<notin> set us" "pg \<noteq> pgdir" "pg \<notin> tables (mem s) pgdir"
      using vmokD(2) [OF ok(1)] us(1) pgdir_wfD(2,4) [OF vmokD(3) [OF ok(1)]]
      by (auto simp: kmem_inv_def tables_def)
    then have "mem s2 x = memset (mem s) pg 0 PGSIZE x"
      using vstepD(6) [OF s2(2), of x] that s1(5,6) tt by auto
    moreover have "x - pg < PGSIZE"
      using PGROUNDDOWN_off [of x] that by (simp add: word_less_nat_alt)
    ultimately show ?thesis
      by (simp only: memset_eq if_True) (simp add: byte_of_def)
  qed
  then show ?thesis
    using s1(1,2) s2 us um wf vstep_trans [OF s1(4) s2(2)] by auto
qed


lemma allocuvm_loop_ok:
  assumes "vmok c s pgdir" "uvm_wf s pgdir" "unat a mod 4096 = 0" "newsz < KERNBASE"
    and "m \<le> N" "unat newsz \<le> unat a + 4096 * m" "m = 0 \<or> unat a + 4096 * (m - 1) < unat newsz"
    and "2 * m \<le> length (free_pages s)"
    and "\<forall>vb. unat a div 4096 \<le> unat vb div 4096 \<and> unat vb div 4096 < unat a div 4096 + m \<longrightarrow>
           pte_val (mem s) pgdir vb AND PTE_P = 0"
  shows "\<exists>s'. allocuvm_loop N pgdir a oldsz newsz s = Ret newsz s' \<and> vstep c pgdir s s' \<and> uvm_wf s' pgdir \<and>
    (\<forall>vb. if unat a div 4096 \<le> unat vb div 4096 \<and> unat vb div 4096 < unat a div 4096 + m
      then \<exists>pg. pg \<in> set (free_pages s) \<and> pte_val (mem s') pgdir vb = V2P pg OR (PTE_W OR PTE_U) OR PTE_P \<and>
        (\<forall>x. PGROUNDDOWN x = pg \<longrightarrow> mem s' x = 0)
      else pte_val (mem s') pgdir vb = pte_val (mem s) pgdir vb)"
  using assms
proof (induction m arbitrary: N a s)
  case 0
  then have "\<not> a < newsz" by (simp add: word_less_nat_alt)
  then have "allocuvm_loop N pgdir a oldsz newsz s = Ret newsz s" by (cases N) auto
  with 0 vstep_refl show ?case by auto
next
  case (Suc m N a s)
  obtain M where N: "N = Suc M" using Suc.prems(5) by (cases N) auto
  have kb: "unat newsz < 2147483648" using Suc.prems(4) by (simp add: word_less_nat_alt)
  have lt: "unat a + 4096 * m < unat newsz" using Suc.prems(7) by simp
  then have aa: "a < newsz" "a < KERNBASE" using kb by (simp_all add: word_less_nat_alt)
  have u: "unat (a + PGSIZE) = unat a + 4096"
    using lt kb by (subst unat_add32_small) simp_all
  have e: "(unat a + 4096) div 4096 = Suc (unat a div 4096)" by simp
  have np: "pte_val (mem s) pgdir a AND PTE_P = 0" using Suc.prems(9) by auto
  from alloc_one [OF Suc.prems(1,2,3) aa(2) np] Suc.prems(8) obtain pg s1 s2 where
    s2: "kalloc s = Ret pg s1" "pg \<noteq> 0" "pg \<in> set (free_pages s)"
      "mappages pgdir a PGSIZE (V2P pg) (PTE_W OR PTE_U) (s1\<lparr>mem := memset (mem s1) pg 0 PGSIZE\<rparr>) = Ret 0 s2"
      "vstep c pgdir s s2" "uvm_wf s2 pgdir" "length (free_pages s) \<le> length (free_pages s2) + 2"
      "umap (mem s2) pgdir a pg" "\<forall>x. PGROUNDDOWN x = pg \<longrightarrow> mem s2 x = 0"
      "\<forall>vb. pte_val (mem s2) pgdir vb =
       (if unat a div 4096 = unat vb div 4096 then V2P pg OR (PTE_W OR PTE_U) OR PTE_P
        else pte_val (mem s) pgdir vb)" by auto
  have "\<exists>s'. allocuvm_loop M pgdir (a + PGSIZE) oldsz newsz s2 = Ret newsz s' \<and> vstep c pgdir s2 s' \<and> uvm_wf s' pgdir \<and>
    (\<forall>vb. if unat (a + PGSIZE) div 4096 \<le> unat vb div 4096 \<and> unat vb div 4096 < unat (a + PGSIZE) div 4096 + m
      then \<exists>pg. pg \<in> set (free_pages s2) \<and> pte_val (mem s') pgdir vb = V2P pg OR (PTE_W OR PTE_U) OR PTE_P \<and>
        (\<forall>x. PGROUNDDOWN x = pg \<longrightarrow> mem s' x = 0)
      else pte_val (mem s') pgdir vb = pte_val (mem s2) pgdir vb)"
  proof (rule Suc.IH)
    show "vmok c s2 pgdir" by (rule vstepD(1) [OF s2(5)])
    show "2 * m \<le> length (free_pages s2)" using s2(7) Suc.prems(8) by simp
    show "unat newsz \<le> unat (a + PGSIZE) + 4096 * m" using Suc.prems(6) by (simp add: u)
    show "m = 0 \<or> unat (a + PGSIZE) + 4096 * (m - 1) < unat newsz" using lt by (cases m) (simp_all add: u)
    show "\<forall>vb. unat (a + PGSIZE) div 4096 \<le> unat vb div 4096 \<and> unat vb div 4096 < unat (a + PGSIZE) div 4096 + m \<longrightarrow>
        pte_val (mem s2) pgdir vb AND PTE_P = 0"
      using Suc.prems(9) s2(10) unfolding u e by auto
  qed (use Suc.prems s2(6) N in \<open>simp_all add: u\<close>)
  then obtain s' where s': "allocuvm_loop M pgdir (a + PGSIZE) oldsz newsz s2 = Ret newsz s'" "vstep c pgdir s2 s'"
    "uvm_wf s' pgdir"
    and pv: "\<forall>vb. if Suc (unat a div 4096) \<le> unat vb div 4096 \<and> unat vb div 4096 < Suc (unat a div 4096) + m
      then \<exists>pg. pg \<in> set (free_pages s2) \<and> pte_val (mem s') pgdir vb = V2P pg OR (PTE_W OR PTE_U) OR PTE_P \<and>
        (\<forall>x. PGROUNDDOWN x = pg \<longrightarrow> mem s' x = 0)
      else pte_val (mem s') pgdir vb = pte_val (mem s2) pgdir vb"
    unfolding u e by blast
  have z: "mem s' x = 0" if "PGROUNDDOWN x = pg" for x
    using vstepD(6) [OF s'(2), of x] s2(6,8,9) that unfolding uvm_wf_def by metis
  have "if unat a div 4096 \<le> unat vb div 4096 \<and> unat vb div 4096 < unat a div 4096 + Suc m
      then \<exists>pg. pg \<in> set (free_pages s) \<and> pte_val (mem s') pgdir vb = V2P pg OR (PTE_W OR PTE_U) OR PTE_P \<and>
        (\<forall>x. PGROUNDDOWN x = pg \<longrightarrow> mem s' x = 0)
      else pte_val (mem s') pgdir vb = pte_val (mem s) pgdir vb" for vb
  proof (cases "unat a div 4096 = unat vb div 4096")
    case True
    then have "pte_val (mem s') pgdir vb = V2P pg OR (PTE_W OR PTE_U) OR PTE_P"
      using spec [OF pv, of vb] spec [OF s2(10), of vb] by simp
    with True s2(3) z show ?thesis by auto
  next
    case False
    then show ?thesis
      using spec [OF pv, of vb] spec [OF s2(10), of vb] vstepD(4) [OF s2(5)] by (auto split: if_splits)
  qed
  moreover have "allocuvm_loop N pgdir a oldsz newsz s = Ret newsz s'"
    using s2(1,2,4) s'(1) aa(1) by (simp add: N)
  ultimately show ?case
    using vstep_trans [OF s2(5) s'(2)] s'(3) by blast
qed

section \<open>Freeing\<close>

lemma uvm_wfD:
  assumes "uvm_wf s pgdir" "umap (mem s) pgdir va pg"
  shows "page_ok s pg" "pg \<notin> set (free_pages s)" "pg \<noteq> pgdir" "pg \<notin> tables (mem s) pgdir"
    "umap (mem s) pgdir vb pg \<Longrightarrow> unat va div 4096 = unat vb div 4096"
  using assms unfolding uvm_wf_def by blast+

lemma uvm_wfI:
  assumes "\<And>va pg. umap (mem s) pgdir va pg \<Longrightarrow>
      page_ok s pg \<and> pg \<notin> set (free_pages s) \<and> pg \<noteq> pgdir \<and> pg \<notin> tables (mem s) pgdir"
    and "\<And>va vb pg. umap (mem s) pgdir va pg \<Longrightarrow> umap (mem s) pgdir vb pg \<Longrightarrow>
      unat va div 4096 = unat vb div 4096"
  shows "uvm_wf s pgdir"
  using assms unfolding uvm_wf_def by blast

lemma kfree_user_page:
  assumes ok: "vmok c s pgdir" and pg: "page_ok s pg" "pg \<notin> set (free_pages s)" "pg \<noteq> pgdir"
    "pg \<notin> tables (mem s) pgdir"
  shows "\<exists>s'. kfree pg s = Ret () s' \<and> vmok c s' pgdir \<and> same_sync c s s' \<and> kframe s s' \<and>
    free_pages s' = pg # free_pages s \<and> tab (mem s') pgdir = tab (mem s) pgdir \<and>
    pte_val (mem s') pgdir = pte_val (mem s) pgdir \<and>
    (\<forall>x. PGROUNDDOWN x \<noteq> pg \<longrightarrow> mem s' x = mem s x)"
proof -
  note k = vmokD [OF ok] and w = pgdir_wfD [OF vmokD(3) [OF ok]]
  let ?m = "store32 (memset (mem s) pg 1 PGSIZE) pg (freelist s)"
  let ?s = "(kcs_st c s)\<lparr>mem := ?m, freelist := pg\<rparr>"
  have kf: "kfree pg s = Ret () ?s" by (rule kfree_ok [OF k(1) pg(1)])
  have pa: "unat pg mod 4096 = 0" by (rule page_ok_range(1) [OF pg(1)])
  have fr: "?m x = mem s x" if "PGROUNDDOWN x \<noteq> pg" for x
    using store32_in_page [OF page_frame_mem [OF pa that]] memset_page_frame [OF pa that] by simp
  have le: "load32 ?m (q + 4 * j) = load32 (mem s) (q + 4 * j)"
    if "unat q mod 4096 = 0" "unat j < 1024" "q \<noteq> pg" for q j
  proof -
    have "?m (q + 4 * j + i) = mem s (q + 4 * j + i)" if "unat i < 4" for i
    proof (rule fr)
      have "unat (4 * j + i) = 4 * unat j + unat i"
        using that \<open>unat j < 1024\<close> by (subst unat_add32_small) (simp_all add: unat_word_ariths)
      then have "PGROUNDDOWN (q + (4 * j + i)) = q"
        using that \<open>unat j < 1024\<close> by (intro page_of_entry [OF \<open>unat q mod 4096 = 0\<close>]) simp
      then show "PGROUNDDOWN (q + 4 * j + i) \<noteq> pg"
        using \<open>q \<noteq> pg\<close> by (simp add: add.assoc)
    qed
    from this [of 0] this [of 1] this [of 2] this [of 3] show ?thesis
      by (intro load32_cong) simp_all
  qed
  have tb: "tab ?m pgdir = tab (mem s) pgdir"
    using le [OF w(3)] pg(3) by (simp add: tab_def fun_eq_iff PDX_PTX_lt)
  have tn: "u \<noteq> pg" "unat u mod 4096 = 0" if "tab (mem s) pgdir vb = Some u" for u vb
    using w(4) [OF that] that pg(4) by (auto simp: tables_def)
  have "pte_val ?m pgdir vb = pte_val (mem s) pgdir vb" for vb
    using tn [of vb] le by (auto simp: pte_val_def tb PDX_PTX_lt split: option.splits)
  then have pv: "pte_val ?m pgdir = pte_val (mem s) pgdir" by auto
  note ki = kfree_inv [OF k(2) pg(1,2) k(1) kf]
  have "pgdir_wf ?s pgdir"
    using k(3) pg(3) tn by (auto simp: pgdir_wf_def tb ki(2) page_ok_def)
  then have "vmok c ?s pgdir"
    using ki(1) k(1,4) same_sync_kready [of c s "kcs_st c s"] by (simp add: vmok_def kready_def)
  moreover have "kframe s ?s"
    by (rule kframe_trans [OF kcs_st_kframe [OF k(1)] kframe_trans [OF kframe_upd(1) kframe_upd(2)]])
  ultimately show ?thesis
    using kf ki(2) tb pv fr k(1) by (intro exI [of _ ?s]) auto
qed

lemma dealloc_one:
  assumes ok: "vmok c s pgdir" "uvm_wf s pgdir" and um: "umap (mem s) pgdir va pg"
    and t: "tab (mem s) pgdir va = Some t"
  shows "\<exists>s1. kfree pg s = Ret () s1 \<and>
    dstep c pgdir {pg} s (s1\<lparr>mem := store32 (mem s1) (t + 4 * PTX va) 0\<rparr>) \<and>
    (\<forall>vb. pte_val (store32 (mem s1) (t + 4 * PTX va) 0) pgdir vb =
       (if unat va div 4096 = unat vb div 4096 then 0 else pte_val (mem s) pgdir vb))"
proof -
  have pg: "page_ok s pg" "pg \<notin> set (free_pages s)" "pg \<noteq> pgdir" "pg \<notin> tables (mem s) pgdir"
    by (rule uvm_wfD [OF ok(2) um])+
  from kfree_user_page [OF ok(1) pg] obtain s1 where
    s1: "kfree pg s = Ret () s1" "vmok c s1 pgdir" "same_sync c s s1" "kframe s s1"
      "free_pages s1 = pg # free_pages s" "tab (mem s1) pgdir = tab (mem s) pgdir"
      "pte_val (mem s1) pgdir = pte_val (mem s) pgdir"
      "\<forall>x. PGROUNDDOWN x \<noteq> pg \<longrightarrow> mem s1 x = mem s x" by blast
  let ?m = "store32 (mem s1) (t + 4 * PTX va) 0"
  let ?s = "s1\<lparr>mem := ?m\<rparr>"
  have t1: "tab (mem s1) pgdir va = Some t" using t s1(6) by simp
  note st = vstep_store_pte [OF s1(2) t1, of 0] and sp = pte_val_store [OF vmokD(3) [OF s1(2)] t1, of 0]
  have pv: "pte_val ?m pgdir vb = (if unat va div 4096 = unat vb div 4096 then 0 else pte_val (mem s) pgdir vb)" for vb
    by (simp add: sp s1(7))
  have um2: "umap ?m pgdir vb q \<longleftrightarrow> unat va div 4096 \<noteq> unat vb div 4096 \<and> umap (mem s) pgdir vb q" for vb q
    by (auto simp: umap_def pv)
  have tb: "tables ?m pgdir = tables (mem s) pgdir"
    by (simp add: tables_def st(3) s1(6))
  have pk: "page_ok ?s = page_ok s"
    using kframe_fields(1) [OF s1(4)] by (simp add: page_ok_def fun_eq_iff)
  have "uvm_wf ?s pgdir"
  proof (rule uvm_wfI)
    fix vb q
    assume "umap (mem ?s) pgdir vb q"
    then have u: "umap (mem s) pgdir vb q" "unat va div 4096 \<noteq> unat vb div 4096"
      by (simp_all add: um2)
    then have "q \<noteq> pg" using uvm_wfD(5) [OF ok(2) um, of vb] by auto
    then show "page_ok ?s q \<and> q \<notin> set (free_pages ?s) \<and> q \<noteq> pgdir \<and> q \<notin> tables (mem ?s) pgdir"
      using uvm_wfD(1-4) [OF ok(2) u(1)] by (simp add: pk st(2) s1(5) tb)
  next
    fix va' vb q
    assume "umap (mem ?s) pgdir va' q" "umap (mem ?s) pgdir vb q"
    then show "unat va' div 4096 = unat vb div 4096"
      using uvm_wfD(5) [OF ok(2), of va' q vb] by (simp add: um2)
  qed
  moreover have "?m x = mem s x" if "PGROUNDDOWN x \<notin> {pg} \<union> tables (mem s) pgdir" for x
  proof -
    have "PGROUNDDOWN x \<noteq> t" using that t by (auto simp: tables_def)
    then have "?m x = mem s1 x"
      using pgdir_wfD(4) [OF vmokD(3) [OF ok(1)] t] by (intro store32_entry_frame) (auto simp: PDX_PTX_lt)
    then show ?thesis using s1(8) that by auto
  qed
  moreover have "kframe s ?s"
    by (rule kframe_trans [OF s1(4) kframe_upd(1)])
  ultimately have "dstep c pgdir {pg} s ?s"
    unfolding dstep_def using vstepD(1) [OF st(1)] s1(3,5,6) st(2,3) by auto
  then show ?thesis
    using s1(1) pv by blast
qed


lemma pte_val_same: "unat va div 4096 = unat vb div 4096 \<Longrightarrow> pte_val m pgdir va = pte_val m pgdir vb"
proof -
  assume "unat va div 4096 = unat vb div 4096"
  then have "PDX va = PDX vb" "PTX va = PTX vb"
    using same_page_iff by blast+
  then show ?thesis unfolding pte_val_def tab_def by (simp only:)
qed

lemma dstep_trans:
  assumes "dstep c pgdir F s s'" "dstep c pgdir G s' s''"
  shows "dstep c pgdir (F \<union> G) s s''"
  unfolding dstep_def
proof (intro conjI allI impI)
  have t: "tables (mem s') pgdir = tables (mem s) pgdir"
    using assms(1) by (simp add: dstep_def tables_def)
  show "same_sync c s s''" using assms same_sync_trans unfolding dstep_def by blast
  show "kframe s s''" using assms kframe_trans unfolding dstep_def by blast
  fix x assume "PGROUNDDOWN x \<notin> F \<union> G \<union> tables (mem s) pgdir"
  then show "mem s'' x = mem s x"
    using assms t unfolding dstep_def by (metis Un_iff)
qed (use assms in \<open>auto simp: dstep_def\<close>)

lemma dstep_refl: "vmok c s pgdir \<Longrightarrow> uvm_wf s pgdir \<Longrightarrow> dstep c pgdir {} s s"
  by (simp add: dstep_def)

lemma next_table:
  assumes "a < KERNBASE"
  shows "unat (PGADDR (PDX a + 1) 0 0 - PGSIZE + PGSIZE) = 4194304 * Suc (unat a div 4194304)"
proof -
  have "unat a div 4194304 < 512"
    using assms by (intro less_mult_imp_div_less) (simp add: word_less_nat_alt)
  then have p: "unat (PDX a + 1) = Suc (unat a div 4194304)"
    using unat_add32_small [of "PDX a" 1] by (simp add: unat_PDX)
  define y where "y = PDX a + 1"
  have "PGADDR y 0 0 = y * 4194304"
    by (simp add: PGADDR_def push_bit_eq_mult)
  moreover have "unat (y * 4194304) = unat y * 4194304 mod 4294967296"
    by (simp add: unat_word_ariths(2))
  ultimately show ?thesis
    using p \<open>unat a div 4194304 < 512\<close> unfolding y_def [symmetric] by simp
qed

lemma div_tables: "n div 4194304 = n div 4096 div 1024" for n :: nat
  by (simp add: div_mult2_eq [symmetric])

text \<open>Moving the start of the range past addresses that are not mapped.\<close>

lemma freed_skip:
  assumes "unat a div 4096 \<le> unat b div 4096"
    and "\<And>vb. unat a div 4096 \<le> unat vb div 4096 \<Longrightarrow> unat vb div 4096 < unat b div 4096 \<Longrightarrow>
      pte_val m pgdir vb AND PTE_P = 0"
  shows "freed m pgdir b oldsz = freed m pgdir a oldsz"
proof -
  have "in_rng b oldsz vb \<and> umap m pgdir vb pg \<longleftrightarrow> in_rng a oldsz vb \<and> umap m pgdir vb pg" for vb pg
    using assms(1) assms(2) [of vb] by (auto simp: in_rng_def umap_def not_le [symmetric])
  then show ?thesis by (simp add: freed_def)
qed

lemma deallocuvm_loop_ok:
  assumes "vmok c s pgdir" "uvm_wf s pgdir" "unat a mod 4096 = 0" "oldsz \<le> KERNBASE"
    and "unat oldsz \<le> unat a + 4096 * N"
  shows "\<exists>s'. deallocuvm_loop N pgdir a oldsz s = Ret () s' \<and>
    dstep c pgdir (freed (mem s) pgdir a oldsz) s s' \<and>
    (\<forall>vb. pte_val (mem s') pgdir vb =
       (if in_rng a oldsz vb \<and> pte_val (mem s) pgdir vb AND PTE_P \<noteq> 0 then 0 else pte_val (mem s) pgdir vb))"
  using assms
proof (induction N arbitrary: a s)
  case (0 a s)
  then have "\<not> a < oldsz" "\<And>vb. \<not> in_rng a oldsz vb"
    by (auto simp: word_less_nat_alt in_rng_def)
  with 0 dstep_refl show ?case by (simp add: freed_def)
next
  case (Suc N a s)
  show ?case
  proof (cases "a < oldsz")
    case False
    then have "\<And>vb. \<not> in_rng a oldsz vb"
      using Suc.prems(3) by (auto simp: word_less_nat_alt in_rng_def)
    with False Suc.prems(1,2) dstep_refl show ?thesis by (simp add: freed_def)
  next
    case True
    have kb: "a < KERNBASE" using True Suc.prems(4) by (rule order_less_le_trans)
    have u: "unat (a + PGSIZE) = unat a + 4096"
      using kb by (subst unat_add32_small) (simp_all add: word_less_nat_alt)
    have e: "(unat a + 4096) div 4096 = Suc (unat a div 4096)" by simp
    have skip: ?thesis
      if st: "deallocuvm_loop (Suc N) pgdir a oldsz s = deallocuvm_loop N pgdir b oldsz s"
        and b: "unat b mod 4096 = 0" "unat a + 4096 \<le> unat b"
        and np: "\<And>vb. unat a div 4096 \<le> unat vb div 4096 \<Longrightarrow> unat vb div 4096 < unat b div 4096 \<Longrightarrow>
           pte_val (mem s) pgdir vb AND PTE_P = 0" for b
    proof -
      have le: "unat a div 4096 \<le> unat b div 4096"
        using b(2) by (intro div_le_mono) simp
      have rng: "in_rng b oldsz vb \<and> pte_val (mem s) pgdir vb AND PTE_P \<noteq> 0 \<longleftrightarrow>
          in_rng a oldsz vb \<and> pte_val (mem s) pgdir vb AND PTE_P \<noteq> 0" for vb
        using le np [of vb] by (auto simp: in_rng_def not_le [symmetric])
      have fs: "freed (mem s) pgdir b oldsz = freed (mem s) pgdir a oldsz"
        using le np by (rule freed_skip)
      have "unat oldsz \<le> unat b + 4096 * N"
        using Suc.prems(5) b(2) by simp
      from Suc.IH [OF Suc.prems(1,2) b(1) Suc.prems(4) this] show ?thesis
        unfolding st fs rng .
    qed
    have lt: "unat vb div 4096 = unat a div 4096"
      if "unat a div 4096 \<le> unat vb div 4096" "unat vb div 4096 < unat (a + PGSIZE) div 4096" for vb
      using that unfolding u e by simp
    show ?thesis
    proof (cases "tab (mem s) pgdir a")
      case None
      let ?b = "PGADDR (PDX a + 1) 0 0 - PGSIZE + PGSIZE"
      have nt: "unat (PGADDR (PDX a + 1) 0 0) = 4194304 * Suc (unat a div 4194304)"
        using next_table [OF kb] by simp
      have "pte_val (mem s) pgdir vb = 0"
        if "unat a div 4096 \<le> unat vb div 4096" "unat vb div 4096 < unat ?b div 4096" for vb
      proof -
        have "unat ?b div 4096 = 1024 * Suc (unat a div 4096 div 1024)"
          by (simp add: nt div_tables)
        then have "unat vb div 4096 div 1024 = unat a div 4096 div 1024"
          using that order_trans [OF times_div_less_eq_dividend [of 1024 "unat a div 4096"] that(1)]
          by (intro div_nat_eqI) auto
        then have "PDX vb = PDX a"
          by (simp add: word_eq_unat unat_PDX div_tables)
        then show ?thesis using None by (simp add: pte_val_def tab_def)
      qed
      moreover have "unat a + 4096 \<le> unat ?b"
      proof -
        obtain k where k: "unat a = 4096 * k" using Suc.prems(3) by auto
        have "unat a < 4194304 * Suc (unat a div 4194304)"
          using dividend_less_times_div [of 4194304 "unat a"] by simp
        then show ?thesis by (simp add: nt) (simp add: k)
      qed
      ultimately show ?thesis
        using True walk_absent [OF None] by (intro skip [of ?b]) (simp_all add: nt)
    next
      case (Some t)
      note we = walk_entry [OF Suc.prems(1) Some] and wp = walk_present [OF Some, of False]
      show ?thesis
      proof (cases "pte_val (mem s) pgdir a AND PTE_P = 0")
        case np: True
        have "pte_val (mem s) pgdir vb AND PTE_P = 0"
          if "unat a div 4096 \<le> unat vb div 4096" "unat vb div 4096 < unat (a + PGSIZE) div 4096" for vb
          using pte_val_same [OF lt [OF that]] np by simp
        then show ?thesis
          using True np we wp Suc.prems(3) by (intro skip [of "a + PGSIZE"]) (simp_all add: u)
      next
        case pr: False
        let ?pg = "P2V (PTE_ADDR (pte_val (mem s) pgdir a))"
        have um: "umap (mem s) pgdir a ?pg" using pr kb by (simp add: umap_def)
        from dealloc_one [OF Suc.prems(1,2) um Some] obtain s1 where s1: "kfree ?pg s = Ret () s1"
          "dstep c pgdir {?pg} s (s1\<lparr>mem := store32 (mem s1) (t + 4 * PTX a) 0\<rparr>)"
          "\<forall>vb. pte_val (store32 (mem s1) (t + 4 * PTX a) 0) pgdir vb =
             (if unat a div 4096 = unat vb div 4096 then 0 else pte_val (mem s) pgdir vb)" by blast
        let ?s = "s1\<lparr>mem := store32 (mem s1) (t + 4 * PTX a) 0\<rparr>"
        have "PTE_ADDR (pte_val (mem s) pgdir a) \<noteq> 0"
        proof
          assume "PTE_ADDR (pte_val (mem s) pgdir a) = 0"
          then have "?pg = KERNBASE" by (simp add: P2V_def)
          then show False
            using uvm_wfD(1) [OF Suc.prems(2) um] vmokD(4) [OF Suc.prems(1)]
            by (auto simp: page_ok_def)
        qed
        then have st: "deallocuvm_loop (Suc N) pgdir a oldsz s = deallocuvm_loop N pgdir (a + PGSIZE) oldsz ?s"
          using True pr we wp s1(1) by simp
        have A: "vmok c ?s pgdir" "uvm_wf ?s pgdir"
          using s1(2) by (simp_all add: dstep_def)
        have B: "unat (a + PGSIZE) mod 4096 = 0" "unat oldsz \<le> unat (a + PGSIZE) + 4096 * N"
          using Suc.prems(3,5) by (simp_all add: u)
        obtain s' where s': "deallocuvm_loop N pgdir (a + PGSIZE) oldsz ?s = Ret () s'"
          "dstep c pgdir (freed (mem ?s) pgdir (a + PGSIZE) oldsz) ?s s'"
          "\<forall>vb. pte_val (mem s') pgdir vb =
             (if in_rng (a + PGSIZE) oldsz vb \<and> pte_val (mem ?s) pgdir vb AND PTE_P \<noteq> 0 then 0
              else pte_val (mem ?s) pgdir vb)"
          using Suc.IH [OF A B(1) Suc.prems(4) B(2)] by blast
        have rng: "in_rng a oldsz vb \<longleftrightarrow> unat a div 4096 = unat vb div 4096 \<or> in_rng (a + PGSIZE) oldsz vb" for vb
        proof -
          have "4096 * (unat a div 4096) < unat oldsz"
            using True Suc.prems(3) by (auto simp: word_less_nat_alt)
          then show ?thesis unfolding in_rng_def u e by auto
        qed
        have "umap (mem ?s) pgdir vb q \<longleftrightarrow> unat a div 4096 \<noteq> unat vb div 4096 \<and> umap (mem s) pgdir vb q" for vb q
          using s1(3) by (auto simp: umap_def)
        moreover have "umap (mem s) pgdir vb q \<longleftrightarrow> vb < KERNBASE \<and> q = ?pg" if "unat a div 4096 = unat vb div 4096" for vb q
          using pte_val_same [OF that, of "mem s" pgdir] pr by (auto simp: umap_def)
        ultimately have "freed (mem s) pgdir a oldsz = {?pg} \<union> freed (mem ?s) pgdir (a + PGSIZE) oldsz"
          unfolding freed_def rng using um by auto
        moreover have "pte_val (mem s') pgdir vb =
           (if in_rng a oldsz vb \<and> pte_val (mem s) pgdir vb AND PTE_P \<noteq> 0 then 0 else pte_val (mem s) pgdir vb)" for vb
        proof (cases "unat a div 4096 = unat vb div 4096")
          case same: True
          then have "pte_val (mem s) pgdir vb = pte_val (mem s) pgdir a"
            using pte_val_same [of a vb] by simp
          then show ?thesis using same pr s'(3) s1(3) by (simp add: rng)
        next
          case False
          then show ?thesis using s'(3) s1(3) by (simp add: rng)
        qed
        ultimately show ?thesis
          using dstep_trans [OF s1(2) s'(2)] s'(1) unfolding st by simp
      qed
    qed
  qed
qed

lemma deallocuvm_ok:
  assumes "vmok c s pgdir" "uvm_wf s pgdir" "oldsz \<le> KERNBASE" "newsz < oldsz"
  shows "\<exists>s'. deallocuvm pgdir oldsz newsz s = Ret newsz s' \<and>
    dstep c pgdir (freed (mem s) pgdir (PGROUNDUP newsz) oldsz) s s' \<and>
    (\<forall>vb. pte_val (mem s') pgdir vb =
       (if in_rng (PGROUNDUP newsz) oldsz vb \<and> pte_val (mem s) pgdir vb AND PTE_P \<noteq> 0 then 0
        else pte_val (mem s) pgdir vb))"
proof -
  have "unat newsz \<le> 2147483648" "unat oldsz \<le> 2147483648"
    using assms(3,4) by (simp_all add: word_le_nat_alt word_less_nat_alt)
  moreover from this have "unat (PGROUNDUP newsz) mod 4096 = 0"
    by (simp add: unat_PGROUNDUP)
  ultimately show ?thesis
    using deallocuvm_loop_ok [OF assms(1,2), of "PGROUNDUP newsz" oldsz PAGES] assms(3,4)
    by (auto simp: deallocuvm_def PAGES_def not_le)
qed

section \<open>Copying to user space\<close>

lemma load32_entry_frame:
  fixes q j :: u32
  assumes "unat q mod 4096 = 0" "unat j < 1024" "\<And>x. PGROUNDDOWN x = q \<Longrightarrow> m' x = m x"
  shows "load32 m' (q + 4 * j) = load32 m (q + 4 * j)"
proof -
  have "m' (q + 4 * j + i) = m (q + 4 * j + i)" if "unat i < 4" for i
  proof (rule assms(3))
    have "unat (4 * j + i) = 4 * unat j + unat i"
      using that assms(2) by (subst unat_add32_small) (simp_all add: unat_word_ariths)
    then have "PGROUNDDOWN (q + (4 * j + i)) = q"
      using that assms(2) by (intro page_of_entry [OF assms(1)]) simp
    then show "PGROUNDDOWN (q + 4 * j + i) = q" by (simp add: add.assoc)
  qed
  from this [of 0] this [of 1] this [of 2] this [of 3] show ?thesis
    by (intro load32_cong) simp_all
qed

text \<open>Writes outside the directory and its tables leave the address space as it is.\<close>

lemma pte_val_frame:
  assumes "pgdir_wf s pgdir"
    and "\<And>x. PGROUNDDOWN x = pgdir \<or> PGROUNDDOWN x \<in> tables (mem s) pgdir \<Longrightarrow> m' x = mem s x"
  shows "tab m' pgdir = tab (mem s) pgdir" "pte_val m' pgdir = pte_val (mem s) pgdir"
proof -
  note w = pgdir_wfD [OF assms(1)]
  have "load32 m' (pgdir + 4 * PDX va) = load32 (mem s) (pgdir + 4 * PDX va)" for va
    using w(3) assms(2) by (intro load32_entry_frame) (auto simp: PDX_PTX_lt)
  then show tb: "tab m' pgdir = tab (mem s) pgdir"
    by (simp add: tab_def fun_eq_iff)
  have "load32 m' (t + 4 * PTX va) = load32 (mem s) (t + 4 * PTX va)" if "tab (mem s) pgdir vb = Some t" for t va vb
    using w(4) [OF that] that assms(2) by (intro load32_entry_frame) (auto simp: PDX_PTX_lt tables_def)
  then show "pte_val m' pgdir = pte_val (mem s) pgdir"
    by (auto simp: pte_val_def tb fun_eq_iff split: option.splits)
qed

lemma uva2ka_ok:
  assumes "upage_ok (mem s) pgdir va" "unat va div 4096 = unat vb div 4096"
  shows "uva2ka pgdir vb s = Ret (P2V (PTE_ADDR (pte_val (mem s) pgdir va))) s"
proof -
  have e: "pte_val (mem s) pgdir vb = pte_val (mem s) pgdir va"
    using pte_val_same [OF assms(2)] by simp
  have "pte_val (mem s) pgdir va AND PTE_P \<noteq> 0" "pte_val (mem s) pgdir va AND PTE_U \<noteq> 0"
    using assms(1) by (simp_all add: upage_ok_def)
  moreover obtain t where t: "tab (mem s) pgdir vb = Some t"
    using calculation(1) e by (cases "tab (mem s) pgdir vb") (auto simp: pte_val_def)
  then have "load32 (mem s) (t + 4 * PTX vb) = pte_val (mem s) pgdir va"
    using e by (simp add: pte_val_def)
  ultimately show ?thesis
    using walk_present [OF t, of False] by (simp add: uva2ka_def)
qed

lemma uaddr_page:
  assumes "uvm_wf s pgdir" "upage_ok (mem s) pgdir va"
  shows "PGROUNDDOWN (uaddr (mem s) pgdir va) = P2V (PTE_ADDR (pte_val (mem s) pgdir va))"
    "umap (mem s) pgdir va (P2V (PTE_ADDR (pte_val (mem s) pgdir va)))"
    "unat (uaddr (mem s) pgdir va) = unat (P2V (PTE_ADDR (pte_val (mem s) pgdir va))) + unat va mod 4096"
proof -
  let ?p = "P2V (PTE_ADDR (pte_val (mem s) pgdir va))"
  show um: "umap (mem s) pgdir va ?p"
    using assms(2) by (simp add: umap_def upage_ok_def)
  have p: "unat ?p mod 4096 = 0"
    by (rule page_ok_range(1) [OF uvm_wfD(1) [OF assms(1) um]])
  show "PGROUNDDOWN (uaddr (mem s) pgdir va) = ?p"
    unfolding uaddr_def by (rule page_of_entry [OF p]) (simp add: PGROUNDDOWN_off)
  show "unat (uaddr (mem s) pgdir va) = unat ?p + unat va mod 4096"
    unfolding uaddr_def using page_end [OF p] by (subst unat_add32_small) (simp_all add: PGROUNDDOWN_off)
qed

lemma uaddr_inj:
  assumes "uvm_wf s pgdir" "upage_ok (mem s) pgdir va" "upage_ok (mem s) pgdir vb"
    and "uaddr (mem s) pgdir va = uaddr (mem s) pgdir vb"
  shows "va = vb"
proof -
  note a = uaddr_page [OF assms(1,2)] and b = uaddr_page [OF assms(1,3)]
  have p: "P2V (PTE_ADDR (pte_val (mem s) pgdir va)) = P2V (PTE_ADDR (pte_val (mem s) pgdir vb))"
    using a(1) b(1) assms(4) by simp
  have "unat va div 4096 = unat vb div 4096"
    using uvm_wfD(5) [OF assms(1) a(2), of vb] b(2) p by simp
  moreover have "unat va mod 4096 = unat vb mod 4096"
    using a(3) b(3) p assms(4) by simp
  ultimately show ?thesis
    by (metis div_mult_mod_eq word_eq_unat)
qed


text \<open>A write to mapped user pages only.\<close>

lemma user_write:
  assumes ok: "vmok c s pgdir" "uvm_wf s pgdir"
    and m: "\<And>x. \<not> (\<exists>va. umap (mem s) pgdir va (PGROUNDDOWN x)) \<Longrightarrow> m' x = mem s x"
  shows "vmok c (s\<lparr>mem := m'\<rparr>) pgdir" "uvm_wf (s\<lparr>mem := m'\<rparr>) pgdir"
    "pte_val m' pgdir = pte_val (mem s) pgdir" "tab m' pgdir = tab (mem s) pgdir"
proof -
  let ?s = "s\<lparr>mem := m'\<rparr>"
  note k = vmokD [OF ok(1)]
  have "m' x = mem s x" if "PGROUNDDOWN x = pgdir \<or> PGROUNDDOWN x \<in> tables (mem s) pgdir" for x
    using that uvm_wfD(3,4) [OF ok(2)] by (intro m) auto
  then show tb: "tab m' pgdir = tab (mem s) pgdir" and pv: "pte_val m' pgdir = pte_val (mem s) pgdir"
    using pte_val_frame [OF k(3), of m'] by auto
  have "mem ?s x = mem s x" if "PGROUNDDOWN x \<in> set (free_pages s)" for x
    using that uvm_wfD(2) [OF ok(2)] m [of x] by auto
  then have f: "kmem_inv ?s" "free_pages ?s = free_pages s"
    using free_pages_frame [OF k(2), of ?s] by auto
  have pk: "page_ok ?s = page_ok s" by (simp add: page_ok_def fun_eq_iff)
  show "vmok c ?s pgdir"
    using k f by (simp add: vmok_def pgdir_wf_def tb pk kready_def)
  have "umap (mem ?s) pgdir = umap (mem s) pgdir" "tables (mem ?s) pgdir = tables (mem s) pgdir"
    by (simp_all add: umap_def fun_eq_iff pv tables_def tb)
  then show "uvm_wf ?s pgdir"
    using ok(2) by (simp only: uvm_wf_def pk f(2))
qed

lemma copyout_loop_ok:
  assumes "vmok c s pgdir" "uvm_wf s pgdir" "unat va + unat len \<le> 2147483648" "unat buf + unat len < 4294967296"
    and "\<And>i. i < unat len \<Longrightarrow> upage_ok (mem s) pgdir (va + of_nat i)"
    and "\<And>i vb. i < unat len \<Longrightarrow> \<not> umap (mem s) pgdir vb (PGROUNDDOWN (buf + of_nat i))"
  shows "\<exists>m'. copyout_loop pgdir va buf len s = Ret 0 (s\<lparr>mem := m'\<rparr>) \<and>
    (\<forall>i < unat len. m' (uaddr (mem s) pgdir (va + of_nat i)) = mem s (buf + of_nat i)) \<and>
    (\<forall>x. (\<forall>i < unat len. x \<noteq> uaddr (mem s) pgdir (va + of_nat i)) \<longrightarrow> m' x = mem s x)"
  using assms
proof (induction "unat len" arbitrary: va buf len s rule: less_induct)
  case (less len va buf s)
  show ?case
  proof (cases "len = 0")
    case True
    then show ?thesis by (auto simp: copyout_loop.simps intro: exI [of _ "mem s"])
  next
    case False
    then have l0: "0 < unat len" by (simp add: unat_gt_0)
    define off where "off = unat va mod 4096"
    define n where "n = (if unat len < 4096 - off then unat len else 4096 - off)"
    let ?pg = "P2V (PTE_ADDR (pte_val (mem s) pgdir va))"
    have off: "off < 4096" by (simp add: off_def)
    have n: "0 < n" "n \<le> unat len" "off + n \<le> 4096" using l0 off by (auto simp: n_def)
    have up: "upage_ok (mem s) pgdir va" using less.prems(5) [OF l0] by simp
    note ua = uaddr_page [OF less.prems(2) up, folded off_def]
    have pgl: "unat ?pg + 4096 \<le> 4294967296"
      by (rule page_end [OF page_ok_range(1) [OF uvm_wfD(1) [OF less.prems(2) ua(2)]]])
    have vi: "unat (va + of_nat i) = unat va + i" if "i < unat len" for i
      using that less.prems(3) by (subst unat_add32_small) (simp_all add: unat_of_nat32)
    have page: "unat (va + of_nat i) div 4096 = unat va div 4096"
      and pmod: "unat (va + of_nat i) mod 4096 = off + i" if "i < n" for i
    proof -
      have "unat va = 4096 * (unat va div 4096) + off" by (simp add: off_def)
      then have "unat (va + of_nat i) = (off + i) + 4096 * (unat va div 4096)"
        using vi [of i] that n(2) by simp
      moreover have "off + i < 4096" using that n(3) by simp
      ultimately show "unat (va + of_nat i) div 4096 = unat va div 4096" "unat (va + of_nat i) mod 4096 = off + i"
        by simp_all
    qed
    have uai: "uaddr (mem s) pgdir (va + of_nat i) = uaddr (mem s) pgdir va + of_nat i" if "i < n" for i
    proof -
      have "pte_val (mem s) pgdir (va + of_nat i) = pte_val (mem s) pgdir va"
        by (rule pte_val_same [OF page [OF that]])
      moreover have "upage_ok (mem s) pgdir (va + of_nat i)"
        using less.prems(5) that n(2) by simp
      ultimately have "unat (uaddr (mem s) pgdir (va + of_nat i)) = unat ?pg + (off + i)"
        using uaddr_page(3) [OF less.prems(2)] pmod [OF that] by metis
      moreover have "unat (uaddr (mem s) pgdir va + of_nat i) = unat ?pg + off + i"
        using ua(3) that n pgl by (subst unat_add32_small) (simp_all add: unat_of_nat32)
      ultimately show ?thesis by (simp add: word_eq_unat)
    qed
    define nw where "nw = (if PGSIZE - (va - PGROUNDDOWN va) > len then len else PGSIZE - (va - PGROUNDDOWN va))"
    let ?dst = "uaddr (mem s) pgdir va"
    have "unat (PGSIZE - (va - PGROUNDDOWN va)) = 4096 - off"
      using unat_sub32 [of PGSIZE "va - PGROUNDDOWN va"] off by (simp add: PGROUNDDOWN_off off_def)
    then have un: "unat nw = n"
      by (simp add: n_def nw_def word_less_nat_alt)
    define m1 where "m1 = memmove (mem s) ?dst buf nw"
    have m1: "m1 x = (if unat (x - ?dst) < n then mem s (buf + (x - ?dst)) else mem s x)" for x
    proof -
      have "m1 = (\<lambda>x. if x - ?dst < nw then mem s (buf + (x - ?dst)) else mem s x)"
        unfolding m1_def using less.prems(4) n ua(3) pgl by (intro memmove_eq) (simp_all add: un)
      then show ?thesis by (simp add: word_less_nat_alt un)
    qed
    have m1a: "m1 (uaddr (mem s) pgdir (va + of_nat i)) = mem s (buf + of_nat i)" if "i < n" for i
      using that n(3) by (simp add: uai [OF that] m1 unat_of_nat32)
    have m1b: "m1 x = mem s x" if "\<forall>i < n. x \<noteq> uaddr (mem s) pgdir (va + of_nat i)" for x
    proof -
      have "\<not> unat (x - ?dst) < n"
      proof
        assume d: "unat (x - ?dst) < n"
        then have "x \<noteq> ?dst + of_nat (unat (x - ?dst))" using that uai by metis
        then show False by simp
      qed
      then show ?thesis by (simp add: m1)
    qed
    have pgi: "PGROUNDDOWN (uaddr (mem s) pgdir (va + of_nat i)) = ?pg" if "i < n" for i
      using uaddr_page(1) [OF less.prems(2), of "va + of_nat i"] less.prems(5) that n(2)
        pte_val_same [OF page [OF that]] by simp
    have fr: "m1 x = mem s x" if "\<not> (\<exists>vb. umap (mem s) pgdir vb (PGROUNDDOWN x))" for x
      using that pgi ua(2) by (intro m1b) auto
    let ?s = "s\<lparr>mem := m1\<rparr>"
    have uw: "vmok c ?s pgdir" "uvm_wf ?s pgdir" "pte_val m1 pgdir = pte_val (mem s) pgdir"
      by (rule user_write [OF less.prems(1,2)], erule fr)+
    have step: "copyout_loop pgdir va buf len s = copyout_loop pgdir (PGROUNDDOWN va + PGSIZE) (buf + nw) (len - nw) ?s"
    proof -
      have "uva2ka pgdir (PGROUNDDOWN va) s = Ret ?pg s"
        by (rule uva2ka_ok [OF up]) (simp add: unat_PGROUNDDOWN)
      moreover have "?pg \<noteq> 0" by (rule page_ok_nonzero [OF uvm_wfD(1) [OF less.prems(2) ua(2)]])
      ultimately show ?thesis
        using False by (subst copyout_loop.simps) (simp add: Let_def m1_def uaddr_def word_gt_0 nw_def)
    qed
    have ul: "unat (len - nw) = unat len - n" using un n(2) by (simp add: unat_sub32)
    show ?thesis
    proof (cases "n = unat len")
      case True
      then have "len - nw = 0" using ul by (simp add: word_eq_unat)
      then have "copyout_loop pgdir va buf len s = Ret 0 ?s"
        unfolding step by (simp add: copyout_loop.simps)
      then show ?thesis using m1a m1b True by blast
    next
      case False
      then have nl: "n < unat len" "off + n = 4096" using n(2) off by (auto simp: n_def split: if_splits)
      have nn: "nw = of_nat n" using un by (metis of_nat_unat ucast_id)
      have "unat va + n = 4096 * (unat va div 4096) + 4096"
        using nl(2) by (simp add: off_def) (metis add.assoc mult_div_mod_eq)
      then have va': "PGROUNDDOWN va + PGSIZE = va + of_nat n"
        using vi [OF nl(1)] less.prems(3) nl(1)
        by (simp add: word_eq_unat unat_add32 unat_PGROUNDDOWN)
      have sh: "w + of_nat n + of_nat i = w + of_nat (n + i)" for w :: u32 and i by simp
      have ue: "uaddr m1 pgdir = uaddr (mem s) pgdir" "upage_ok m1 pgdir = upage_ok (mem s) pgdir"
        "umap m1 pgdir = umap (mem s) pgdir"
        by (simp_all add: uaddr_def upage_ok_def umap_def fun_eq_iff uw(3))
      have "\<exists>m'. copyout_loop pgdir (va + of_nat n) (buf + of_nat n) (len - nw) ?s = Ret 0 (?s\<lparr>mem := m'\<rparr>) \<and>
          (\<forall>i < unat (len - nw). m' (uaddr (mem ?s) pgdir (va + of_nat n + of_nat i)) = mem ?s (buf + of_nat n + of_nat i)) \<and>
          (\<forall>x. (\<forall>i < unat (len - nw). x \<noteq> uaddr (mem ?s) pgdir (va + of_nat n + of_nat i)) \<longrightarrow> m' x = mem ?s x)"
      proof (rule less.hyps)
        show "unat (len - nw) < unat len" using ul n(1) l0 by simp
        show "unat (va + of_nat n) + unat (len - nw) \<le> 2147483648"
          using vi [OF nl(1)] ul less.prems(3) nl(1) by simp
        have "unat (buf + of_nat n) = unat buf + n"
          using less.prems(4) nl(1) by (subst unat_add32_small) (simp_all add: unat_of_nat32)
        then show "unat (buf + of_nat n) + unat (len - nw) < 4294967296"
          using ul less.prems(4) nl(1) by simp
        show "upage_ok (mem ?s) pgdir (va + of_nat n + of_nat i)" if "i < unat (len - nw)" for i
          using less.prems(5) [of "n + i"] that unfolding ul sh by (simp add: ue)
        show "\<not> umap (mem ?s) pgdir vb (PGROUNDDOWN (buf + of_nat n + of_nat i))" if "i < unat (len - nw)" for i vb
          using less.prems(6) [of "n + i"] that unfolding ul sh by (simp add: ue)
      qed (rule uw(1,2))+
      then obtain m' where m': "copyout_loop pgdir (va + of_nat n) (buf + of_nat n) (len - nw) ?s = Ret 0 (s\<lparr>mem := m'\<rparr>)"
        "\<And>i. i < unat len - n \<Longrightarrow> m' (uaddr (mem s) pgdir (va + of_nat (n + i))) = m1 (buf + of_nat (n + i))"
        "\<And>x. (\<forall>i < unat len - n. x \<noteq> uaddr (mem s) pgdir (va + of_nat (n + i))) \<Longrightarrow> m' x = m1 x"
        unfolding ul sh by (auto simp: ue)
      have "m' (uaddr (mem s) pgdir (va + of_nat i)) = mem s (buf + of_nat i)" if i: "i < unat len" for i
      proof (cases "i < n")
        case True
        have "va + of_nat i \<noteq> va + of_nat (n + j)" if "j < unat len - n" for j
          using vi [OF i] vi [of "n + j"] that True by (metis add_left_cancel less_diff_conv add.commute not_add_less1)
        then have "\<forall>j < unat len - n. uaddr (mem s) pgdir (va + of_nat i) \<noteq> uaddr (mem s) pgdir (va + of_nat (n + j))"
          using uaddr_inj [OF less.prems(2) less.prems(5) [OF i] less.prems(5)] by (metis add.commute less_diff_conv)
        then show ?thesis using m'(3) m1a [OF True] by simp
      next
        case False
        then have "m' (uaddr (mem s) pgdir (va + of_nat i)) = m1 (buf + of_nat i)"
          using m'(2) [of "i - n"] i by simp
        also have "\<dots> = mem s (buf + of_nat i)"
          using less.prems(6) [OF i] by (intro fr) auto
        finally show ?thesis .
      qed
      moreover have "m' x = mem s x" if "\<forall>i < unat len. x \<noteq> uaddr (mem s) pgdir (va + of_nat i)" for x
      proof -
        have "\<forall>i < unat len - n. x \<noteq> uaddr (mem s) pgdir (va + of_nat (n + i))" "\<forall>i < n. x \<noteq> uaddr (mem s) pgdir (va + of_nat i)"
          using that nl(1) by (auto simp del: of_nat_add)
        then show ?thesis using m'(3) [of x] m1b [of x] by simp
      qed
      ultimately show ?thesis
        using m'(1) unfolding step va' nn by blast
    qed
  qed
qed

section \<open>Growing\<close>

lemma vm0_ok: "vmok c vm0 0x80200000" "uvm_wf vm0 0x80200000" "free_pages vm0 = [0x80201000, 0x80202000]"
  "tab (mem vm0) 0x80200000 va = None"
proof -
  have pk: "page_ok vm0 p" if "p \<in> {0x80200000, 0x80201000, 0x80202000}" for p
    using that by (auto simp: vm0_def kmem0_def page_ok_def V2P_def KERNBASE_def PHYSTOP_def PGSIZE_def)
  have m: "mem vm0 = store32 (\<lambda>_. 0) 0x80201000 0x80202000" "freelist vm0 = 0x80201000" "kend vm0 = 0x80112345"
    by (simp_all add: vm0_def kmem0_def)
  have z: "load32 (\<lambda>_. 0) a = 0" for a
    by (simp add: load32_def word_of_bytes_def)
  have "load32 (mem vm0) 0x80202000 = 0"
    using load32_store32_aligned [of "0x80201000" "0x80202000"] by (simp add: m z)
  then have "chain (mem vm0) (freelist vm0) [0x80201000, 0x80202000]"
    by (simp add: m)
  then have f: "kmem_inv vm0" "free_pages vm0 = [0x80201000, 0x80202000]"
    using kmem_invI [of vm0 "[0x80201000, 0x80202000]"] pk by auto
  then show "free_pages vm0 = [0x80201000, 0x80202000]" by simp
  have tb: "tab (mem vm0) 0x80200000 va = None" for va
  proof -
    have "load32 (mem vm0) (0x80200000 + 4 * PDX va) = 0"
      using load32_store32_entry [of "0x80201000" 0 "0x80200000" "PDX va"] PDX_PTX_lt(1) [of va]
      by (simp add: m z)
    then show ?thesis by (simp add: tab_def)
  qed
  then show "tab (mem vm0) 0x80200000 va = None" .
  show "vmok c vm0 0x80200000"
    using f pk tb by (simp add: vmok_def pgdir_wf_def m KERNBASE_def kready_def) (simp add: vm0_def kmem0_def)
  show "uvm_wf vm0 0x80200000"
    using tb by (auto intro!: uvm_wfI simp: umap_def pte_val_def)
qed

lemma page_bounds:
  assumes "unat a mod 4096 = 0" "unat b mod 4096 = 0"
  shows "unat a div 4096 \<le> unat v div 4096 \<longleftrightarrow> unat a \<le> unat v"
    "unat v div 4096 < unat b div 4096 \<longleftrightarrow> unat v < unat b"
proof -
  have *: "n div 4096 \<le> k div 4096 \<longleftrightarrow> n \<le> k" if "n mod 4096 = 0" for n k :: nat
  proof
    assume "n div 4096 \<le> k div 4096"
    then have "4096 * (n div 4096) \<le> 4096 * (k div 4096)" by simp
    also have "\<dots> \<le> k" by simp
    finally show "n \<le> k" using that by (metis mult_div_mod_eq add_0_right)
  qed (rule div_le_mono)
  show "unat a div 4096 \<le> unat v div 4096 \<longleftrightarrow> unat a \<le> unat v"
    by (rule * [OF assms(1)])
  show "unat v div 4096 < unat b div 4096 \<longleftrightarrow> unat v < unat b"
    using * [OF assms(2), of "unat v"] by (simp add: not_le [symmetric])
qed

lemma allocuvm_ok:
  assumes "vmok c s pgdir" "uvm_wf s pgdir" "oldsz \<le> newsz" "newsz < KERNBASE"
    and "\<forall>vb. PGROUNDUP oldsz \<le> vb \<and> vb < PGROUNDUP newsz \<longrightarrow> pte_val (mem s) pgdir vb AND PTE_P = 0"
    and "2 * ((unat (PGROUNDUP newsz) - unat (PGROUNDUP oldsz)) div 4096) \<le> length (free_pages s)"
  shows "\<exists>s'. allocuvm pgdir oldsz newsz s = Ret newsz s' \<and> vstep c pgdir s s' \<and> uvm_wf s' pgdir \<and>
    (\<forall>vb. if PGROUNDUP oldsz \<le> vb \<and> vb < PGROUNDUP newsz
      then \<exists>pg. pg \<in> set (free_pages s) \<and> pte_val (mem s') pgdir vb = V2P pg OR (PTE_W OR PTE_U) OR PTE_P \<and>
        (\<forall>x. PGROUNDDOWN x = pg \<longrightarrow> mem s' x = 0)
      else pte_val (mem s') pgdir vb = pte_val (mem s) pgdir vb)"
proof -
  let ?a = "PGROUNDUP oldsz" and ?b = "PGROUNDUP newsz"
  define m where "m = (unat ?b - unat ?a) div 4096"
  have kb: "unat newsz < 2147483648" "unat oldsz \<le> unat newsz"
    using assms(3,4) by (simp_all add: word_le_nat_alt word_less_nat_alt)
  then have u: "unat ?a = (unat oldsz + 4095) div 4096 * 4096" "unat ?b = (unat newsz + 4095) div 4096 * 4096"
    by (simp_all add: unat_PGROUNDUP)
  then have al: "unat ?a mod 4096 = 0" "unat ?b mod 4096 = 0" by simp_all
  have le: "unat ?a \<le> unat ?b"
    unfolding u using kb(2) by (intro mult_le_mono1 div_le_mono) simp
  have b: "unat ?b = unat ?a + 4096 * m"
    using le unfolding m_def u by (simp add: diff_mult_distrib [symmetric])
  have nb: "unat newsz \<le> unat ?b" "unat ?b < unat newsz + 4096"
    unfolding u by (simp_all add: div_mult_mod_eq less_add_eq_less)
  have rng: "unat ?a div 4096 \<le> unat vb div 4096 \<and> unat vb div 4096 < unat ?a div 4096 + m \<longleftrightarrow> ?a \<le> vb \<and> vb < ?b" for vb
    using page_bounds [OF al, of vb] by (simp add: b word_le_nat_alt word_less_nat_alt add.commute)
  have m: "m \<le> PAGES" using b nb kb by (simp add: PAGES_def)
  have "m = 0 \<or> unat ?a + 4096 * (m - 1) < unat newsz" "unat newsz \<le> unat ?a + 4096 * m"
    using b nb by (cases m; simp)+
  moreover have "2 * m \<le> length (free_pages s)"
    using assms(6) by (simp add: m_def)
  ultimately obtain s' where s': "allocuvm_loop PAGES pgdir ?a oldsz newsz s = Ret newsz s'"
    "vstep c pgdir s s'" "uvm_wf s' pgdir"
    "\<forall>vb. if ?a \<le> vb \<and> vb < ?b
      then \<exists>pg. pg \<in> set (free_pages s) \<and> pte_val (mem s') pgdir vb = V2P pg OR (PTE_W OR PTE_U) OR PTE_P \<and>
        (\<forall>x. PGROUNDDOWN x = pg \<longrightarrow> mem s' x = 0)
      else pte_val (mem s') pgdir vb = pte_val (mem s) pgdir vb"
    using allocuvm_loop_ok [OF assms(1,2) al(1) assms(4) m, of oldsz, unfolded rng] assms(5) by blast
  moreover have "allocuvm pgdir oldsz newsz s = Ret newsz s'"
  proof -
    have "\<not> KERNBASE \<le> newsz" "\<not> newsz < oldsz" using assms(3,4) by auto
    then show ?thesis using s'(1) by (simp add: allocuvm_def)
  qed
  ultimately show ?thesis by blast
qed


lemma user_entry_U: "(V2P pg OR (PTE_W OR PTE_U) OR PTE_P) AND PTE_U \<noteq> 0"
proof
  assume "(V2P pg OR (PTE_W OR PTE_U) OR PTE_P) AND PTE_U = 0"
  then have "bit ((V2P pg OR (PTE_W OR PTE_U) OR PTE_P) AND PTE_U) 2 = False" by simp
  then show False by (simp add: PTE_U_def PTE_W_def PTE_P_def bit_simps)
qed

lemma vm0_one_page:
  "\<exists>s. allocuvm 0x80200000 0 4096 vm0 = Ret 4096 s \<and> vmok c s 0x80200000 \<and> uvm_wf s 0x80200000 \<and>
     kend s = 0x80112345 \<and> (\<forall>i < 4. upage_ok (mem s) 0x80200000 (8 + of_nat i))"
proof -
  have r: "PGROUNDUP 0 = 0" "PGROUNDUP 4096 = 4096"
    by (simp_all add: PGROUNDUP_def PGSIZE_def)
  have z: "pte_val (mem vm0) 0x80200000 vb = 0" for vb
    by (simp add: pte_val_def vm0_ok)
  obtain s where s: "allocuvm 0x80200000 0 4096 vm0 = Ret 4096 s" "vstep c 0x80200000 vm0 s" "uvm_wf s 0x80200000"
    "\<forall>vb. if PGROUNDUP 0 \<le> vb \<and> vb < PGROUNDUP 4096
      then \<exists>pg. pg \<in> set (free_pages vm0) \<and> pte_val (mem s) 0x80200000 vb = V2P pg OR (PTE_W OR PTE_U) OR PTE_P \<and>
        (\<forall>x. PGROUNDDOWN x = pg \<longrightarrow> mem s x = 0)
      else pte_val (mem s) 0x80200000 vb = pte_val (mem vm0) 0x80200000 vb"
    using allocuvm_ok [OF vm0_ok(1) [of c] vm0_ok(2), where oldsz = 0 and newsz = 4096]
    by (auto simp: r z vm0_ok(3) KERNBASE_def)
  have "upage_ok (mem s) 0x80200000 (8 + of_nat i)" if "i < 4" for i
  proof -
    have u: "unat (8 + of_nat i :: u32) = 8 + i"
      using that by (subst unat_add32_small) (simp_all add: unat_of_nat32)
    then have lt: "(8 + of_nat i :: u32) < 4096" "(8 + of_nat i :: u32) < KERNBASE"
      using that by (simp_all add: word_less_nat_alt)
    then obtain pg where pg: "pg \<in> set (free_pages vm0)"
      "pte_val (mem s) 0x80200000 (8 + of_nat i) = V2P pg OR (PTE_W OR PTE_U) OR PTE_P"
      using spec [OF s(4), of "8 + of_nat i"] unfolding r by auto
    then have "unat pg mod 4096 = 0" by (auto simp: vm0_ok(3))
    then have "(V2P pg OR (PTE_W OR PTE_U) OR PTE_P) AND PTE_P \<noteq> 0"
      by (rule user_entry(2))
    then show ?thesis
      unfolding upage_ok_def pg(2) by (intro conjI lt(2) user_entry_U)
  qed
  moreover have "kend s = 0x80112345"
    using kframe_fields(1) [OF vstepD(3) [OF s(2)]] by (simp add: vm0_def kmem0_def)
  ultimately show ?thesis
    using s vstepD(1) [OF s(2)] by blast
qed

section \<open>Properties\<close>

text \<open>
  C4. Growing a process. If there is memory (two pages per new page are enough: one may go to a
  page table), \<open>allocuvm\<close> returns the new size, every page between the two rounded-up sizes is
  mapped writable for the user to a page taken from the free list that reads as zero, every
  other mapping is unchanged, and the address space stays well-formed: no two user pages
  share memory with each other, with the page tables, or with the free list.
\<close>

theorem allocuvm_grows:
  assumes "vmok c s pgdir" "uvm_wf s pgdir" "oldsz \<le> newsz" "newsz < KERNBASE"
    and "\<forall>vb. PGROUNDUP oldsz \<le> vb \<and> vb < PGROUNDUP newsz \<longrightarrow> pte_val (mem s) pgdir vb AND PTE_P = 0"
    and "2 * ((unat (PGROUNDUP newsz) - unat (PGROUNDUP oldsz)) div 4096) \<le> length (free_pages s)"
  shows "\<exists>s'. allocuvm pgdir oldsz newsz s = Ret newsz s' \<and> vmok c s' pgdir \<and> uvm_wf s' pgdir \<and>
    (\<forall>vb. if PGROUNDUP oldsz \<le> vb \<and> vb < PGROUNDUP newsz
      then \<exists>pg. pg \<in> set (free_pages s) \<and> pte_val (mem s') pgdir vb = V2P pg OR (PTE_W OR PTE_U) OR PTE_P \<and>
        (\<forall>x. PGROUNDDOWN x = pg \<longrightarrow> mem s' x = 0)
      else pte_val (mem s') pgdir vb = pte_val (mem s) pgdir vb)"
  using allocuvm_ok [OF assms] vstepD(1) [of c pgdir s] by blast

theorem allocuvm_grows_witness:
  "\<exists>s' pg. allocuvm 0x80200000 0 4096 vm0 = Ret 4096 s' \<and> uvm_wf s' 0x80200000 \<and>
     pte_val (mem s') 0x80200000 5 = V2P pg OR (PTE_W OR PTE_U) OR PTE_P \<and>
     (\<forall>x. PGROUNDDOWN x = pg \<longrightarrow> mem s' x = 0)"
proof -
  have r: "PGROUNDUP 0 = 0" "PGROUNDUP 4096 = 4096"
    by (simp_all add: PGROUNDUP_def PGSIZE_def)
  have z: "pte_val (mem vm0) 0x80200000 vb = 0" for vb
    by (simp add: pte_val_def vm0_ok)
  obtain s' where s': "allocuvm 0x80200000 0 4096 vm0 = Ret 4096 s'" "uvm_wf s' 0x80200000"
    "\<forall>vb. if PGROUNDUP 0 \<le> vb \<and> vb < PGROUNDUP 4096
      then \<exists>pg. pg \<in> set (free_pages vm0) \<and> pte_val (mem s') 0x80200000 vb = V2P pg OR (PTE_W OR PTE_U) OR PTE_P \<and>
        (\<forall>x. PGROUNDDOWN x = pg \<longrightarrow> mem s' x = 0)
      else pte_val (mem s') 0x80200000 vb = pte_val (mem vm0) 0x80200000 vb"
    using allocuvm_grows [OF vm0_ok(1) [of 0] vm0_ok(2), where oldsz = 0 and newsz = 4096]
    by (auto simp: r z vm0_ok(3) KERNBASE_def)
  moreover have "\<exists>pg. pte_val (mem s') 0x80200000 5 = V2P pg OR (PTE_W OR PTE_U) OR PTE_P \<and>
      (\<forall>x. PGROUNDDOWN x = pg \<longrightarrow> mem s' x = 0)"
    using spec [OF s'(3), of 5] unfolding r by (simp only: if_True word_zero_le) auto
  ultimately show ?thesis by blast
qed

text \<open>
  C26. Shrinking a process. \<open>deallocuvm\<close> always returns (the walk over missing page tables makes
  progress), gives back to the allocator exactly the user pages mapped between the two sizes,
  clears their entries, and leaves every other mapping and the memory of every other page alone.
\<close>

theorem deallocuvm_shrinks:
  assumes "vmok c s pgdir" "uvm_wf s pgdir" "oldsz \<le> KERNBASE" "newsz < oldsz"
  shows "\<exists>s'. deallocuvm pgdir oldsz newsz s = Ret newsz s' \<and> vmok c s' pgdir \<and> uvm_wf s' pgdir \<and>
    set (free_pages s') = set (free_pages s) \<union> freed (mem s) pgdir (PGROUNDUP newsz) oldsz \<and>
    (\<forall>vb. pte_val (mem s') pgdir vb =
       (if in_rng (PGROUNDUP newsz) oldsz vb \<and> pte_val (mem s) pgdir vb AND PTE_P \<noteq> 0 then 0
        else pte_val (mem s) pgdir vb)) \<and>
    (\<forall>x. PGROUNDDOWN x \<notin> freed (mem s) pgdir (PGROUNDUP newsz) oldsz \<union> tables (mem s) pgdir \<longrightarrow>
       mem s' x = mem s x)"
  using deallocuvm_ok [OF assms] by (auto simp: dstep_def)

text \<open>
  C27. \<open>copyout\<close> to mapped user pages returns 0, puts the bytes of the kernel buffer at the user
  addresses, across page boundaries, and changes no other byte of memory.
\<close>

theorem copyout_writes:
  assumes "vmok c s pgdir" "uvm_wf s pgdir" "unat va + unat len \<le> 2147483648" "unat p + unat len < 4294967296"
    and "\<forall>i < unat len. upage_ok (mem s) pgdir (va + of_nat i)"
    and "\<forall>i < unat len. \<forall>vb. \<not> umap (mem s) pgdir vb (PGROUNDDOWN (p + of_nat i))"
  shows "\<exists>m'. copyout pgdir va p len s = Ret 0 (s\<lparr>mem := m'\<rparr>) \<and>
    (\<forall>i < unat len. m' (uaddr (mem s) pgdir (va + of_nat i)) = mem s (p + of_nat i)) \<and>
    (\<forall>x. (\<forall>i < unat len. x \<noteq> uaddr (mem s) pgdir (va + of_nat i)) \<longrightarrow> m' x = mem s x)"
  unfolding copyout_def using copyout_loop_ok [OF assms(1-4)] assms(5,6) by simp

theorem copyout_writes_witness:
  "\<exists>s m'. allocuvm 0x80200000 0 4096 vm0 = Ret 4096 s \<and>
     copyout 0x80200000 8 0x80112000 4 s = Ret 0 (s\<lparr>mem := m'\<rparr>) \<and>
     m' (uaddr (mem s) 0x80200000 9) = mem s 0x80112001"
proof -
  obtain s where s: "allocuvm 0x80200000 0 4096 vm0 = Ret 4096 s" "vmok 0 s 0x80200000" "uvm_wf s 0x80200000"
    "kend s = 0x80112345" "\<forall>i < 4. upage_ok (mem s) 0x80200000 (8 + of_nat i)"
    using vm0_one_page by blast
  have "\<forall>i < unat (4 :: u32). \<forall>vb. \<not> umap (mem s) 0x80200000 vb (PGROUNDDOWN (0x80112000 + of_nat i))"
  proof (intro allI impI notI)
    fix i vb
    assume i: "i < unat (4 :: u32)" and u: "umap (mem s) 0x80200000 vb (PGROUNDDOWN (0x80112000 + of_nat i))"
    have "PGROUNDDOWN (0x80112000 + of_nat i) = 0x80112000"
      using i by (intro page_of_entry) (simp_all add: unat_of_nat32)
    with uvm_wfD(1) [OF s(3) u] show False
      by (simp add: page_ok_def s(4))
  qed
  then obtain m' where m': "copyout 0x80200000 8 0x80112000 4 s = Ret 0 (s\<lparr>mem := m'\<rparr>)"
    "\<forall>i < unat (4 :: u32). m' (uaddr (mem s) 0x80200000 (8 + of_nat i)) = mem s (0x80112000 + of_nat i)"
    using copyout_writes [OF s(2,3), where va = 8 and p = "0x80112000" and len = 4] s(5) by auto
  then show ?thesis
    using s(1) spec [OF m'(2), of 1] by auto
qed

text \<open>
  C37. \<open>mappages\<close> on an unmapped range with memory for the page tables returns 0, and the page
  \<open>k\<close> of the range is then mapped to physical page \<open>pa + k * PGSIZE\<close> with the given
  permissions; no other mapping changes.
\<close>

theorem mappages_maps:
  assumes "vmok c s pgdir" "0 < unat siz" "unat va + unat siz \<le> 4294967296"
    and "\<forall>vb. unat va div 4096 \<le> unat vb div 4096 \<and> unat vb div 4096 \<le> (unat va + unat siz - 1) div 4096 \<longrightarrow>
      pte_val (mem s) pgdir vb AND PTE_P = 0"
    and "(unat va + unat siz - 1) div 4096 - unat va div 4096 < length (free_pages s)"
  shows "\<exists>s'. mappages pgdir va siz pa perm s = Ret 0 s' \<and> vmok c s' pgdir \<and>
    (\<forall>vb. pte_val (mem s') pgdir vb =
       (if unat va div 4096 \<le> unat vb div 4096 \<and> unat vb div 4096 \<le> (unat va + unat siz - 1) div 4096
        then (pa + of_nat (4096 * (unat vb div 4096 - unat va div 4096))) OR perm OR PTE_P
        else pte_val (mem s) pgdir vb))"
proof -
  obtain r s' where s': "mappages pgdir va siz pa perm s = Ret r s'" "vstep c pgdir s s'" "r = 0"
    "r = 0 \<longrightarrow> (\<forall>vb. pte_val (mem s') pgdir vb =
       (if unat va div 4096 \<le> unat vb div 4096 \<and> unat vb div 4096 \<le> (unat va + unat siz - 1) div 4096
        then (pa + of_nat (4096 * (unat vb div 4096 - unat va div 4096))) OR perm OR PTE_P
        else pte_val (mem s) pgdir vb))"
    using mappages_ok [OF assms(1-4), of pa perm] assms(5) by blast
  then show ?thesis using vstepD(1) [OF s'(2)] by blast
qed

theorem mappages_maps_witness:
  "\<exists>s'. mappages 0x80200000 0x1234 4096 0x5000 PTE_W vm0 = Ret 0 s' \<and>
     pte_val (mem s') 0x80200000 0x1FFF = 0x5003 \<and> pte_val (mem s') 0x80200000 0x2000 = 0x6003 \<and>
     pte_val (mem s') 0x80200000 0x3000 = 0"
proof -
  have z: "pte_val (mem vm0) 0x80200000 vb = 0" for vb
    by (simp add: pte_val_def vm0_ok)
  obtain s' where "mappages 0x80200000 0x1234 4096 0x5000 PTE_W vm0 = Ret 0 s'"
    and pv: "\<forall>vb. pte_val (mem s') 0x80200000 vb =
       (if unat (0x1234 :: u32) div 4096 \<le> unat vb div 4096 \<and>
           unat vb div 4096 \<le> (unat (0x1234 :: u32) + unat (4096 :: u32) - 1) div 4096
        then (0x5000 + of_nat (4096 * (unat vb div 4096 - unat (0x1234 :: u32) div 4096))) OR PTE_W OR PTE_P
        else pte_val (mem vm0) 0x80200000 vb)"
    using mappages_maps [OF vm0_ok(1) [of 0], where siz = 4096 and va = "0x1234" and pa = "0x5000" and perm = PTE_W]
    by (auto simp: z vm0_ok(3))
  then show ?thesis
    using spec [OF pv, of "0x1FFF"] spec [OF pv, of "0x2000"] spec [OF pv, of "0x3000"]
    by (auto simp: z PTE_W_def PTE_P_def)
qed

theorem deallocuvm_shrinks_witness:
  "\<exists>s'. deallocuvm 0x80200000 0x500000 0x1000 vm0 = Ret 0x1000 s' \<and> uvm_wf s' 0x80200000"
proof -
  have "0x500000 \<le> KERNBASE" "(0x1000 :: u32) < 0x500000" by (simp_all add: KERNBASE_def)
  from deallocuvm_shrinks [OF vm0_ok(1) [of 0] vm0_ok(2) this] show ?thesis by blast
qed

end
