(* ===== verification/Proc.thy ===== *)
theory Proc
  imports Vm
begin

text \<open>
  proc.c: the process table, scheduling, sleep and wakeup, kill and wait, and the operations
  this kernel adds (\<open>waitForProcess\<close>, \<open>getMostCaller\<close>, \<open>find_next_prime_number\<close>). \<open>fork\<close>, \<open>exit\<close>,
  \<open>userinit\<close> and \<open>forkret\<close>, which call into the file system, are in Fork.thy.

  A pointer to a process is its index in \<open>ptable.proc\<close>, \<open>None\<close> for null. A context switch splits
  a routine in two: what it does before \<open>swtch\<close> leaves the processor (\<open>sched_out\<close>, \<open>sleep_enter\<close>)
  and what it does when the scheduler switches back (\<open>sched_in\<close>, \<open>sleep_exit\<close>). A routine that
  sleeps in a loop has the outcome \<open>Slp s\<close> when the process leaves the processor, and a
  \<open>resume\<close> operation that continues it.
\<close>

section \<open>Processes\<close>

definition NOFILE :: nat where "NOFILE = 16"
definition KSTACKSIZE :: u32 where "KSTACKSIZE = 4096"
definition STS_T32A :: nat where "STS_T32A = 9"

datatype procstate = UNUSED | EMBRYO | SLEEPING | RUNNABLE | RUNNING | ZOMBIE

text \<open>The addresses processes sleep on, by the object whose address it is.\<close>

datatype chan =
    Cproc nat | Cticks | Clog | Cinput | Cbuf nat | Cbuflock nat | Cinodelock nat
  | Cnread u32 | Cnwrite u32

text \<open>
  \<open>struct proc\<close>. The trap frame and the saved pcontext are in the kernel stack, which is in
  memory: \<open>tf\<close> and \<open>pcontext\<close> are their addresses. Open files and the current directory are
  indices in the file table and the inode cache. The system call counters are C \<open>int\<close>s.
\<close>

record proc =
  sz :: u32
  pgdir :: u32
  kstack :: u32
  state :: procstate
  pid :: int
  parent :: "nat option"
  tf :: u32
  pcontext :: u32
  pchan :: "chan option"
  killed :: bool
  ofile :: "nat option list"
  cwd :: "nat option"
  pname :: "u8 list"
  counter :: "int list"

text \<open>Offsets in \<open>struct trapframe\<close> and \<open>struct pcontext\<close>, and their sizes.\<close>

definition TF_ebx :: u32 where "TF_ebx = 16"
definition TF_eax :: u32 where "TF_eax = 28"
definition TF_es :: u32 where "TF_es = 40"
definition TF_ds :: u32 where "TF_ds = 44"
definition TF_eip :: u32 where "TF_eip = 56"
definition TF_cs :: u32 where "TF_cs = 60"
definition TF_eflags :: u32 where "TF_eflags = 64"
definition TF_esp :: u32 where "TF_esp = 68"
definition TF_ss :: u32 where "TF_ss = 72"
definition TF_size :: u32 where "TF_size = 76"
definition CTX_ebp :: u32 where "CTX_ebp = 12"
definition CTX_eip :: u32 where "CTX_eip = 16"
definition CTX_size :: u32 where "CTX_size = 20"

text \<open>The table, and the addresses of \<open>trapret\<close> and \<open>forkret\<close>.\<close>

record ptable = vm +
  procs :: "proc list"
  nextpid :: int
  initproc :: "nat option"
  trapret_addr :: u32
  forkret_addr :: u32

definition upd_proc :: "nat \<Rightarrow> (proc \<Rightarrow> proc) \<Rightarrow> 'a ptable_scheme \<Rightarrow> 'a ptable_scheme" where
  "upd_proc i f s = s\<lparr>procs := (procs s)[i := f (procs s ! i)]\<rparr>"

text \<open>Arithmetic of a C \<open>int\<close>, with the wrap-around of the machine.\<close>

definition c_int :: "int \<Rightarrow> int" where
  "c_int x = signed_take_bit 31 x"

section \<open>The running process\<close>

definition pinit :: "'a machine_scheme \<Rightarrow> 'a machine_scheme" where
  "pinit s = initlock Lptable ''ptable'' s"

definition myproc :: "'a machine_scheme \<Rightarrow> (nat option, 'a machine_scheme) kres" where
  "myproc s =
     bnd (pushcli s) (\<lambda>_ s.
     bnd (mycpu s) (\<lambda>c s.
     let p = cproc (cpus s ! c)
     in bnd (popcli s) (\<lambda>_ s. Ret p s)))"

text \<open>Code that follows the pointer \<open>myproc()\<close> returns.\<close>

definition with_myproc ::
    "'a machine_scheme \<Rightarrow> (nat \<Rightarrow> 'a machine_scheme \<Rightarrow> ('r, 'a machine_scheme) kres) \<Rightarrow>
     ('r, 'a machine_scheme) kres" where
  "with_myproc s f =
     bnd (myproc s) (\<lambda>p s. case p of None \<Rightarrow> Undef ''null process'' | Some i \<Rightarrow> f i s)"

definition switchuvm :: "nat option \<Rightarrow> 'a ptable_scheme \<Rightarrow> (unit, 'a ptable_scheme) kres" where
  "switchuvm po s =
     (case po of
        None \<Rightarrow> Panic ''switchuvm: no process''
      | Some i \<Rightarrow>
          let p = procs s ! i
          in if kstack p = 0 then Panic ''switchuvm: no kstack''
             else if pgdir p = 0 then Panic ''switchuvm: no pgdir''
             else
               bnd (pushcli s) (\<lambda>_ s.
               bnd (mycpu s) (\<lambda>c s.
               let s = upd_cpu c (\<lambda>k. k\<lparr>gdt := (gdt k)[SEG_TSS := SEG16 STS_T32A (ts_addr k) 103 0]\<rparr>) s;
                   s = upd_cpu c (\<lambda>k. k\<lparr>gdt := (gdt k)[SEG_TSS := (gdt k ! SEG_TSS)\<lparr>seg_s := 0\<rparr>]\<rparr>) s;
                   s = upd_cpu c (\<lambda>k. k\<lparr>ts := (ts k)\<lparr>ss0 := SEG_KDATA * 8\<rparr>\<rparr>) s;
                   s = upd_cpu c (\<lambda>k. k\<lparr>ts := (ts k)\<lparr>esp0 := kstack p + KSTACKSIZE\<rparr>\<rparr>) s;
                   s = upd_cpu c (\<lambda>k. k\<lparr>ts := (ts k)\<lparr>iomb := 0xFFFF\<rparr>\<rparr>) s;
                   s = s\<lparr>tr := SEG_TSS * 8\<rparr>;
                   s = s\<lparr>cr3 := V2P (pgdir p)\<rparr>
               in popcli s)))"

definition growproc :: "int \<Rightarrow> 'a ptable_scheme \<Rightarrow> (int, 'a ptable_scheme) kres" where
  "growproc n s =
     with_myproc s (\<lambda>i s.
       let p = procs s ! i
       in bnd (if n > 0 then allocuvm (pgdir p) (sz p) (sz p + of_int n) s
               else if n < 0 then deallocuvm (pgdir p) (sz p) (sz p + of_int n) s
               else Ret (sz p) s) (\<lambda>r s.
          if n \<noteq> 0 \<and> r = 0 then Ret (-1) s
          else
            let s = upd_proc i (\<lambda>p. p\<lparr>sz := r\<rparr>) s
            in bnd (switchuvm (Some i) s) (\<lambda>_ s. Ret 0 s)))"

section \<open>Allocating a process\<close>

definition allocproc :: "'a ptable_scheme \<Rightarrow> (nat option, 'a ptable_scheme) kres" where
  "allocproc s =
     bnd (acquire Lptable s) (\<lambda>_ s.
     case scan (\<lambda>p. state p = UNUSED) (procs s) of
       None \<Rightarrow> bnd (release Lptable s) (\<lambda>_ s. Ret None s)
     | Some i \<Rightarrow>
         let s = upd_proc i (\<lambda>p. p\<lparr>state := EMBRYO\<rparr>) s;
             s = upd_proc i (\<lambda>p. p\<lparr>pid := nextpid s\<rparr>) s;
             s = s\<lparr>nextpid := c_int (nextpid s + 1)\<rparr>;
             s = upd_proc i (\<lambda>p. p\<lparr>counter := replicate 100 0\<rparr>) s
         in bnd (release Lptable s) (\<lambda>_ s.
            bnd (kalloc s) (\<lambda>k s.
            let s = upd_proc i (\<lambda>p. p\<lparr>kstack := k\<rparr>) s
            in if k = 0 then
                 Ret None (upd_proc i (\<lambda>p. p\<lparr>state := UNUSED\<rparr>) s)
               else
                 let sp = k + KSTACKSIZE;
                     sp = sp - TF_size;
                     s = upd_proc i (\<lambda>p. p\<lparr>tf := sp\<rparr>) s;
                     sp = sp - 4;
                     s = s\<lparr>mem := store32 (mem s) sp (trapret_addr s)\<rparr>;
                     sp = sp - CTX_size;
                     s = upd_proc i (\<lambda>p. p\<lparr>pcontext := sp\<rparr>) s;
                     s = s\<lparr>mem := memset (mem s) sp 0 CTX_size\<rparr>;
                     s = s\<lparr>mem := store32 (mem s) (sp + CTX_eip) (forkret_addr s)\<rparr>
                 in Ret (Some i) s)))"

section \<open>Scheduling\<close>

text \<open>\<open>sched\<close> up to the switch to the scheduler, with the saved \<open>intena\<close>; and after it.\<close>

definition sched_out :: "'a ptable_scheme \<Rightarrow> (bool, 'a ptable_scheme) kres" where
  "sched_out s =
     with_myproc s (\<lambda>i s.
     bnd (holding Lptable s) (\<lambda>h s.
     if \<not> h then Panic ''sched ptable.lock''
     else bnd (mycpu s) (\<lambda>c s.
       if ncli (cpus s ! c) \<noteq> 1 then Panic ''sched locks''
       else if state (procs s ! i) = RUNNING then Panic ''sched running''
       else if IF s then Panic ''sched interruptible''
       else Ret (intena (cpus s ! c)) s)))"

definition sched_in :: "bool \<Rightarrow> 'a ptable_scheme \<Rightarrow> (unit, 'a ptable_scheme) kres" where
  "sched_in saved s = bnd (mycpu s) (\<lambda>c s. Ret () (upd_cpu c (\<lambda>k. k\<lparr>intena := saved\<rparr>) s))"

text \<open>The scheduler's loop body: it switches to process \<open>i\<close>, and continues when that comes back.\<close>

definition scheduler_run :: "nat \<Rightarrow> nat \<Rightarrow> 'a ptable_scheme \<Rightarrow> (unit, 'a ptable_scheme) kres" where
  "scheduler_run c i s =
     (let s = upd_cpu c (\<lambda>k. k\<lparr>cproc := Some i\<rparr>) s
      in bnd (switchuvm (Some i) s) (\<lambda>_ s.
         Ret () (upd_proc i (\<lambda>p. p\<lparr>state := RUNNING\<rparr>) s)))"

definition scheduler_back :: "nat \<Rightarrow> 'a ptable_scheme \<Rightarrow> 'a ptable_scheme" where
  "scheduler_back c s = upd_cpu c (\<lambda>k. k\<lparr>cproc := None\<rparr>) (switchkvm s)"

text \<open>
  The scan of the table from entry \<open>n\<close> on: run the next runnable process, or end the round.
  The result is the process that now runs.
\<close>

definition scheduler_scan :: "nat \<Rightarrow> nat \<Rightarrow> 'a ptable_scheme \<Rightarrow> (nat option, 'a ptable_scheme) kres" where
  "scheduler_scan c n s =
     (case scan (\<lambda>p. state p = RUNNABLE) (drop n (procs s)) of
        None \<Rightarrow> bnd (release Lptable s) (\<lambda>_ s. Ret None s)
      | Some k \<Rightarrow> bnd (scheduler_run c (n + k) s) (\<lambda>_ s. Ret (Some (n + k)) s))"

text \<open>A new round, and the continuation after process \<open>i\<close> has switched back.\<close>

definition scheduler_round :: "nat \<Rightarrow> 'a ptable_scheme \<Rightarrow> (nat option, 'a ptable_scheme) kres" where
  "scheduler_round c s = bnd (acquire Lptable (sti s)) (\<lambda>_ s. scheduler_scan c 0 s)"

definition scheduler_continue :: "nat \<Rightarrow> nat \<Rightarrow> 'a ptable_scheme \<Rightarrow> (nat option, 'a ptable_scheme) kres" where
  "scheduler_continue c i s = scheduler_scan c (Suc i) (scheduler_back c s)"

definition scheduler_start :: "'a ptable_scheme \<Rightarrow> (nat, 'a ptable_scheme) kres" where
  "scheduler_start s = bnd (mycpu s) (\<lambda>c s. Ret c (upd_cpu c (\<lambda>k. k\<lparr>cproc := None\<rparr>) s))"

definition yield_enter :: "'a ptable_scheme \<Rightarrow> (bool, 'a ptable_scheme) kres" where
  "yield_enter s =
     bnd (acquire Lptable s) (\<lambda>_ s.
     with_myproc s (\<lambda>i s.
     let s = upd_proc i (\<lambda>p. p\<lparr>state := RUNNABLE\<rparr>) s
     in sched_out s))"

definition yield_exit :: "bool \<Rightarrow> 'a ptable_scheme \<Rightarrow> (unit, 'a ptable_scheme) kres" where
  "yield_exit saved s = bnd (sched_in saved s) (\<lambda>_ s. release Lptable s)"

section \<open>Sleep and wakeup\<close>

text \<open>
  The statements of \<open>sleep\<close> before and after the switch and those of \<open>wakeup\<close> are lists, in the order of
  the source: \<open>sleep\<close> and \<open>wakeup\<close> run them one after the other on one processor, and Wakeup.thy runs them
  interleaved on several. The null lock pointer, which \<open>sleep\<close> refuses, is \<open>None\<close>.
\<close>

type_synonym 's stmts = "('s \<Rightarrow> (unit, 's) kres) list"

abbreviation stmts :: "'s stmts \<Rightarrow> 's \<Rightarrow> (unit, 's) kres" where
  "stmts fs \<equiv> mfor (\<lambda>f. f) fs"

definition sleep_steps :: "chan \<Rightarrow> lock \<Rightarrow> nat \<Rightarrow> 'a ptable_scheme stmts" where
  "sleep_steps ch l i =
     (if l \<noteq> Lptable then [acquire Lptable, release l] else []) @
     [\<lambda>s. Ret () (upd_proc i (\<lambda>p. p\<lparr>pchan := Some ch\<rparr>) s),
      \<lambda>s. Ret () (upd_proc i (\<lambda>p. p\<lparr>state := SLEEPING\<rparr>) s)]"

definition sleep_enter :: "chan \<Rightarrow> lock option \<Rightarrow> 'a ptable_scheme \<Rightarrow> (bool, 'a ptable_scheme) kres" where
  "sleep_enter ch lk s =
     bnd (myproc s) (\<lambda>po s.
     case po of
       None \<Rightarrow> Panic ''sleep''
     | Some i \<Rightarrow>
       (case lk of
          None \<Rightarrow> Panic ''sleep without lk''
        | Some l \<Rightarrow>
            bnd (stmts (sleep_steps ch l i) s) (\<lambda>_ s. sched_out s)))"

definition unsleep_steps :: "lock \<Rightarrow> nat \<Rightarrow> bool \<Rightarrow> 'a ptable_scheme stmts" where
  "unsleep_steps l i saved =
     [sched_in saved, \<lambda>s. Ret () (upd_proc i (\<lambda>p. p\<lparr>pchan := None\<rparr>) s)] @
     (if l \<noteq> Lptable then [release Lptable, acquire l] else [])"

definition sleep_exit :: "nat \<Rightarrow> bool \<Rightarrow> lock \<Rightarrow> 'a ptable_scheme \<Rightarrow> (unit, 'a ptable_scheme) kres" where
  "sleep_exit i saved l s = stmts (unsleep_steps l i saved) s"

text \<open>The outcome of a routine that goes to sleep.\<close>

definition sleep_on :: "chan \<Rightarrow> lock \<Rightarrow> 'a ptable_scheme \<Rightarrow> ('r, 'a ptable_scheme) kres" where
  "sleep_on ch l s = bnd (sleep_enter ch (Some l) s) (\<lambda>_ s. Slp s)"

definition wakeup1 :: "chan option \<Rightarrow> 'a ptable_scheme \<Rightarrow> 'a ptable_scheme" where
  "wakeup1 ch s =
     s\<lparr>procs := map (\<lambda>p. if state p = SLEEPING \<and> pchan p = ch then p\<lparr>state := RUNNABLE\<rparr> else p) (procs s)\<rparr>"

definition wakeup_steps :: "chan \<Rightarrow> 'a ptable_scheme stmts" where
  "wakeup_steps ch = [acquire Lptable, \<lambda>s. Ret () (wakeup1 (Some ch) s), release Lptable]"

definition wakeup :: "chan \<Rightarrow> 'a ptable_scheme \<Rightarrow> (unit, 'a ptable_scheme) kres" where
  "wakeup ch s = stmts (wakeup_steps ch) s"

lemma wakeup_unfold: "wakeup ch s = bnd (acquire Lptable s) (\<lambda>_ s. release Lptable (wakeup1 (Some ch) s))"
  by (simp add: wakeup_def wakeup_steps_def mfor_fun bnd_Ret_right)

definition kill :: "int \<Rightarrow> 'a ptable_scheme \<Rightarrow> (int, 'a ptable_scheme) kres" where
  "kill n s =
     bnd (acquire Lptable s) (\<lambda>_ s.
     case scan (\<lambda>p. pid p = n) (procs s) of
       Some i \<Rightarrow>
         let s = upd_proc i (\<lambda>p. p\<lparr>killed := True\<rparr>) s;
             s = (if state (procs s ! i) = SLEEPING then upd_proc i (\<lambda>p. p\<lparr>state := RUNNABLE\<rparr>) s else s)
         in bnd (release Lptable s) (\<lambda>_ s. Ret 0 s)
     | None \<Rightarrow> bnd (release Lptable s) (\<lambda>_ s. Ret (-1) s))"

section \<open>Waiting for a process\<close>

text \<open>The part \<open>wait\<close> and \<open>waitForProcess\<close> share: free the resources of zombie \<open>i\<close>.\<close>

definition reap :: "nat \<Rightarrow> 'a ptable_scheme \<Rightarrow> (int, 'a ptable_scheme) kres" where
  "reap i s =
     (let n = pid (procs s ! i)
      in bnd (kfree (kstack (procs s ! i)) s) (\<lambda>_ s.
         let s = upd_proc i (\<lambda>p. p\<lparr>kstack := 0\<rparr>) s
         in bnd (freevm (pgdir (procs s ! i)) s) (\<lambda>_ s.
            let s = upd_proc i (\<lambda>p. p\<lparr>pid := 0, parent := None, pname := (pname p)[0 := 0],
                                       killed := False, state := UNUSED\<rparr>) s
            in bnd (release Lptable s) (\<lambda>_ s. Ret n s))))"

definition wait_loop :: "nat \<Rightarrow> 'a ptable_scheme \<Rightarrow> (int, 'a ptable_scheme) kres" where
  "wait_loop cur s =
     (case scan (\<lambda>p. parent p = Some cur \<and> state p = ZOMBIE) (procs s) of
        Some i \<Rightarrow> reap i s
      | None \<Rightarrow>
          if \<not> (\<exists>p \<in> set (procs s). parent p = Some cur) \<or> killed (procs s ! cur)
          then bnd (release Lptable s) (\<lambda>_ s. Ret (-1) s)
          else sleep_on (Cproc cur) Lptable s)"

definition wait :: "'a ptable_scheme \<Rightarrow> (int, 'a ptable_scheme) kres" where
  "wait s = with_myproc s (\<lambda>cur s. bnd (acquire Lptable s) (\<lambda>_ s. wait_loop cur s))"

definition wait_resume :: "nat \<Rightarrow> bool \<Rightarrow> 'a ptable_scheme \<Rightarrow> (int, 'a ptable_scheme) kres" where
  "wait_resume cur saved s = bnd (sleep_exit cur saved Lptable s) (\<lambda>_ s. wait_loop cur s)"

definition waitForProcess_loop :: "nat \<Rightarrow> int \<Rightarrow> 'a ptable_scheme \<Rightarrow> (int, 'a ptable_scheme) kres" where
  "waitForProcess_loop cur n s =
     (case scan (\<lambda>p. pid p = n \<and> state p = ZOMBIE) (procs s) of
        Some i \<Rightarrow> reap i s
      | None \<Rightarrow>
          if \<not> (\<exists>p \<in> set (procs s). pid p = n) \<or> killed (procs s ! cur)
          then bnd (release Lptable s) (\<lambda>_ s. Ret (-1) s)
          else sleep_on (Cproc cur) Lptable s)"

definition waitForProcess :: "int \<Rightarrow> 'a ptable_scheme \<Rightarrow> (int, 'a ptable_scheme) kres" where
  "waitForProcess n s =
     with_myproc s (\<lambda>cur s. bnd (acquire Lptable s) (\<lambda>_ s. waitForProcess_loop cur n s))"

definition waitForProcess_resume :: "nat \<Rightarrow> bool \<Rightarrow> int \<Rightarrow> 'a ptable_scheme \<Rightarrow> (int, 'a ptable_scheme) kres" where
  "waitForProcess_resume cur saved n s =
     bnd (sleep_exit cur saved Lptable s) (\<lambda>_ s. waitForProcess_loop cur n s)"

section \<open>Reports\<close>

text \<open>\<open>procdump\<close>: the calls of \<open>cprintf\<close> for one process, and for the table.\<close>

definition procdump1 :: "mem \<Rightarrow> proc \<Rightarrow> string list" where
  "procdump1 m p =
     (if state p = UNUSED then []
      else [''%d %s %s''] @
        (if state p = SLEEPING
         then map (\<lambda>_. '' %p'') (takeWhile (\<lambda>a. a \<noteq> 0) (getcallerpcs m (load32 m (pcontext p + CTX_ebp) + 8)))
         else []) @ [[CHR 0x0A]])"

definition procdump :: "'a ptable_scheme \<Rightarrow> 'a ptable_scheme" where
  "procdump s = s\<lparr>printed := printed s @ concat (map (procdump1 (mem s)) (procs s))\<rparr>"

text \<open>\<open>find_next_prime_number\<close>, whose outer loop has no bound of its own.\<close>

fun has_divisor :: "int \<Rightarrow> int list \<Rightarrow> bool" where
  "has_divisor n [] = False"
| "has_divisor n (i # is) = (n mod i = 0 \<or> has_divisor n is)"

partial_function (option) next_prime_loop :: "int \<Rightarrow> int option" where
  "next_prime_loop n =
     (if has_divisor n [2..n - 1] then next_prime_loop (c_int (n + 1)) else Some n)"

definition find_next_prime_number :: "int \<Rightarrow> int option" where
  "find_next_prime_number n = next_prime_loop (c_int (n + 1))"

text \<open>\<open>getMostCaller\<close>: the loop over the table, and the read of a counter out of bounds.\<close>

fun mostCaller_loop :: "nat \<Rightarrow> int \<Rightarrow> int \<Rightarrow> proc list \<Rightarrow> int" where
  "mostCaller_loop k cnt n [] = n"
| "mostCaller_loop k cnt n (p # ps) =
     (if counter p ! k > cnt then mostCaller_loop k (int k) (pid p) ps
      else mostCaller_loop k cnt n ps)"

definition getMostCaller :: "int \<Rightarrow> 'a ptable_scheme \<Rightarrow> (int, 'a ptable_scheme) kres" where
  "getMostCaller syscallid s =
     (if 0 \<le> syscallid \<and> syscallid < 100
      then Ret (mostCaller_loop (nat syscallid) 0 0 (procs s)) s
      else Undef ''counter index'')"

end
