(* ===== verification/Quiet.thy ===== *)
theory Quiet
  imports Proc
begin

text \<open>
  What the synchronisation of a kernel path leaves behind. Code of the upper layers takes and
  drops spin locks, looks up the running process and wakes sleepers. The relation \<open>qt c L s t\<close> says
  that \<open>t\<close> is the state \<open>s\<close>, seen by processor \<open>c\<close> with the locks \<open>L\<close> taken since, up to processor
  and lock bookkeeping and up to sleepers that were made runnable: all other fields are equal. The
  rules below run each synchronisation routine from such a \<open>t\<close>, so that the proofs about the upper
  layers are about \<open>s\<close> only.
\<close>

section \<open>The relation\<close>

definition procs_wk :: "proc list \<Rightarrow> proc list \<Rightarrow> bool" where
  "procs_wk ps ps' \<longleftrightarrow>
     list_all2 (\<lambda>p p'. p' = p \<or> (state p = SLEEPING \<and> p' = p\<lparr>state := RUNNABLE\<rparr>)) ps ps'"

definition locks_rel :: "nat \<Rightarrow> lock set \<Rightarrow> 'a machine_scheme \<Rightarrow> 'a machine_scheme \<Rightarrow> bool" where
  "locks_rel c L s t \<longleftrightarrow>
     (\<forall>l. if l \<in> L then lock_free l s \<and> lock_held c l t
          else lock_free l t = lock_free l s \<and> lock_held c l t = lock_held c l s)"

definition sync_rel :: "nat \<Rightarrow> lock set \<Rightarrow> 'a machine_scheme \<Rightarrow> 'a machine_scheme \<Rightarrow> bool" where
  "sync_rel c L s t \<longleftrightarrow>
     finite L \<and> cpu_ok c s \<and> this_cpu t = Some c \<and> length (cpus t) = length (cpus s) \<and>
     cproc (cpus t ! c) = cproc (cpus s ! c) \<and>
     ncli (cpus t ! c) = ncli (cpus s ! c) + int (card L) \<and>
     (if L = {} then IF t = IF s
      else \<not> IF t \<and> (ncli (cpus s ! c) = 0 \<longrightarrow> intena (cpus t ! c) = IF s)) \<and>
     locks_rel c L s t"

definition qt :: "nat \<Rightarrow> lock set \<Rightarrow> 'a ptable_scheme \<Rightarrow> 'a ptable_scheme \<Rightarrow> bool" where
  "qt c L s t \<longleftrightarrow>
     sync_rel c L s t \<and> procs_wk (procs s) (procs t) \<and>
     (\<exists>i a b p. t = s\<lparr>IF := i, cpus := a, locks := b, procs := p\<rparr>)"

lemma procs_wk_refl [simp]: "procs_wk ps ps"
  by (simp add: procs_wk_def list_all2_refl)

lemma procs_wk_trans: "procs_wk ps qs \<Longrightarrow> procs_wk qs rs \<Longrightarrow> procs_wk ps rs"
  unfolding procs_wk_def by (erule (1) list_all2_trans [rotated]) auto

lemma procs_wkD:
  assumes "procs_wk ps qs"
  shows "length qs = length ps"
    and "i < length ps \<Longrightarrow> qs ! i = ps ! i \<or> (state (ps ! i) = SLEEPING \<and> qs ! i = (ps ! i)\<lparr>state := RUNNABLE\<rparr>)"
  using assms by (auto simp: procs_wk_def list_all2_conv_all_nth)

lemma procs_wk_pid: "procs_wk ps qs \<Longrightarrow> i < length ps \<Longrightarrow> pid (qs ! i) = pid (ps ! i)"
  by (drule (1) procs_wkD(2)) auto

lemma procs_wk_killed: "procs_wk ps qs \<Longrightarrow> i < length ps \<Longrightarrow> killed (qs ! i) = killed (ps ! i)"
  by (drule (1) procs_wkD(2)) auto

lemma procs_wk_running: "procs_wk ps qs \<Longrightarrow> i < length ps \<Longrightarrow> state (ps ! i) \<noteq> SLEEPING \<Longrightarrow> qs ! i = ps ! i"
  by (drule (1) procs_wkD(2)) auto

lemma procs_wk_wakeup1: "procs_wk (procs s) (procs (wakeup1 ch s))"
  by (auto simp: procs_wk_def wakeup1_def list_all2_conv_all_nth)

section \<open>Rules\<close>

lemma locks_relD:
  assumes "locks_rel c L s t"
  shows "l \<in> L \<Longrightarrow> lock_free l s" "l \<in> L \<Longrightarrow> lock_held c l t"
    and "l \<notin> L \<Longrightarrow> lock_free l t = lock_free l s" "l \<notin> L \<Longrightarrow> lock_held c l t = lock_held c l s"
  using assms by (simp_all add: locks_rel_def)

lemma locks_rel_acq:
  assumes "locks_rel c L s t" "lock_free l s"
  shows "locks_rel c (insert l L) s (acq_st c l t)"
  unfolding locks_rel_def
proof
  fix k
  show "if k \<in> insert l L then lock_free k s \<and> lock_held c k (acq_st c l t)
    else lock_free k (acq_st c l t) = lock_free k s \<and> lock_held c k (acq_st c l t) = lock_held c k s"
    using assms(2) locks_relD [OF assms(1), of k]
    by (cases "k = l"; cases "k \<in> L") (simp_all add: lock_free_def lock_held_def)
qed

lemma locks_rel_rel:
  assumes "locks_rel c L s t" "l \<in> L"
  shows "locks_rel c (L - {l}) s (rel_st c l t)"
  unfolding locks_rel_def
proof
  fix k
  show "if k \<in> L - {l} then lock_free k s \<and> lock_held c k (rel_st c l t)
    else lock_free k (rel_st c l t) = lock_free k s \<and> lock_held c k (rel_st c l t) = lock_held c k s"
    using assms(2) locks_relD [OF assms(1), of k]
    by (cases "k = l"; cases "k \<in> L") (simp_all add: lock_free_def lock_held_def)
qed

lemma qt_start: "cpu_ok c s \<Longrightarrow> qt c {} s s"
  unfolding qt_def
proof (intro conjI exI)
  assume "cpu_ok c s"
  then show "sync_rel c {} s s"
    by (simp add: sync_rel_def cpu_ok_this locks_rel_def)
  show "s = s\<lparr>IF := IF s, cpus := cpus s, locks := locks s, procs := procs s\<rparr>"
    by simp
qed simp

lemma sync_relD:
  assumes "sync_rel c L s t"
  shows "finite L" "cpu_ok c s" "this_cpu t = Some c" "length (cpus t) = length (cpus s)"
    and "cproc (cpus t ! c) = cproc (cpus s ! c)"
    and "ncli (cpus t ! c) = ncli (cpus s ! c) + int (card L)"
    and "L = {} \<Longrightarrow> IF t = IF s" "L \<noteq> {} \<Longrightarrow> \<not> IF t"
    and "L \<noteq> {} \<Longrightarrow> ncli (cpus s ! c) = 0 \<Longrightarrow> intena (cpus t ! c) = IF s"
    and "locks_rel c L s t" "c < length (cpus t)"
  using assms this_cpuD(1) [of t c] by (simp_all add: sync_rel_def)

lemma sync_rel_cpu_ok: 
  assumes "sync_rel c L s t"
  shows "cpu_ok c t"
proof (cases "L = {}")
  case True
  then show ?thesis
    using sync_relD(2,3,6,7) [OF assms] by (simp add: cpu_ok_def)
next
  case False
  then show ?thesis
    using sync_relD(2,3,6,8) [OF assms] by (simp add: cpu_ok_def)
qed

lemma sync_rel_acq:
  assumes r: "sync_rel c L s t" and "lock_free l s" "l \<notin> L"
  shows "sync_rel c (insert l L) s (acq_st c l t)"
proof -
  note d = sync_relD [OF r]
  have i: "intena (cpus (acq_st c l t) ! c) = (if ncli (cpus t ! c) = 0 then IF t else intena (cpus t ! c))"
    and cp: "cproc (cpus (acq_st c l t) ! c) = cproc (cpus t ! c)"
    using d(11) by (simp_all add: acq_st_def push_st_def upd_lock_def)
  have n: "ncli (cpus (acq_st c l t) ! c) = ncli (cpus t ! c) + 1"
    using acq_st_facts(4) [OF sync_rel_cpu_ok [OF r]] by simp
  have "ncli (cpus s ! c) = 0 \<Longrightarrow> intena (cpus (acq_st c l t) ! c) = IF s"
    using d(1,6,7,9) unfolding i by (cases "L = {}") (simp_all add: card_gt_0_iff)
  then show ?thesis
    using d(1-6) n cp assms(3) locks_rel_acq [OF d(10) assms(2)] unfolding sync_rel_def by simp
qed

lemma sync_rel_rel:
  assumes r: "sync_rel c L s t" and l: "l \<in> L"
  shows "release l t = Ret () (rel_st c l t)" "sync_rel c (L - {l}) s (rel_st c l t)"
proof -
  note d = sync_relD [OF r]
  have ok: "cpu_ok c t"
    by (rule sync_rel_cpu_ok [OF r])
  obtain m where m: "card (L - {l}) = m" and cL: "card L = Suc m"
    using card.remove [OF d(1) l] by blast
  have s: "IF s \<Longrightarrow> ncli (cpus s ! c) = 0" "0 \<le> ncli (cpus s ! c)"
    using d(2) by (auto simp: cpu_ok_def)
  have nt: "ncli (cpus t ! c) = ncli (cpus s ! c) + int m + 1"
    using d(6) by (simp add: cL)
  have pos: "0 < ncli (cpus t ! c)"
    using nt s by simp
  show "release l t = Ret () (rel_st c l t)"
    using ok pos locks_relD(2) [OF d(10) l] by (rule release_ok)
  have IFs: "IF (rel_st c l t) = (ncli (cpus t ! c) = 1 \<and> intena (cpus t ! c))"
    by (simp add: rel_st_def pop_st_def upd_lock_def)
  have cp: "cproc (cpus (rel_st c l t) ! c) = cproc (cpus t ! c)"
    "intena (cpus (rel_st c l t) ! c) = intena (cpus t ! c)"
    using d(11) by (simp_all add: rel_st_def pop_st_def upd_lock_def)
  have n: "ncli (cpus (rel_st c l t) ! c) = ncli (cpus s ! c) + int m"
    using rel_st_facts(3) [OF ok pos] nt by simp
  have ne: "L \<noteq> {}"
    using l by auto
  have emp: "L - {l} = {} \<longleftrightarrow> m = 0"
    using m d(1) by (metis card_0_eq finite_Diff)
  have 1: "IF (rel_st c l t) = IF s" if "m = 0"
    using that nt d(9) [OF ne] s by (auto simp: IFs)
  have 2: "\<not> IF (rel_st c l t)" if "m \<noteq> 0"
    using that nt s by (simp add: IFs)
  have len: "length (cpus (rel_st c l t)) = length (cpus s)"
    using d(4) by simp
  show "sync_rel c (L - {l}) s (rel_st c l t)"
    unfolding sync_rel_def emp m
    using d(1-3,5) d(9) [OF ne] n len cp 1 2 locks_rel_rel [OF d(10) l] by (auto simp del: st_fields)
qed

text \<open>The rules, one per routine.\<close>

lemma qt_sync_rel: "qt c L s t \<Longrightarrow> sync_rel c L s t"
  by (simp only: qt_def)

lemma qt_cpu_ok: "qt c L s t \<Longrightarrow> cpu_ok c t"
  by (rule sync_rel_cpu_ok [OF qt_sync_rel])

lemma qt_clean: "qt c L s t \<Longrightarrow> cpu_ok c s"
  by (rule sync_relD(2) [OF qt_sync_rel])

lemma qt_wk: "qt c L s t \<Longrightarrow> procs_wk (procs s) (procs t)"
  by (simp only: qt_def)

lemma qt_lock_free: "qt c L s t \<Longrightarrow> l \<notin> L \<Longrightarrow> lock_free l t = lock_free l s"
  by (rule locks_relD(3) [OF sync_relD(10) [OF qt_sync_rel]])

lemma qtE:
  assumes "qt c L s t"
  obtains i a b p where "t = s\<lparr>IF := i, cpus := a, locks := b, procs := p\<rparr>" "procs_wk (procs s) p"
  using assms unfolding qt_def by force

lemma qt_sync:
  assumes "qt c L s t" "sync_rel c L' s t'" "t' = t\<lparr>IF := i, cpus := a, locks := b\<rparr>"
  shows "qt c L' s t'"
proof -
  obtain i1 a1 b1 p where t: "t = s\<lparr>IF := i1, cpus := a1, locks := b1, procs := p\<rparr>" "procs_wk (procs s) p"
    using assms(1) by (rule qtE)
  then have "t' = s\<lparr>IF := i, cpus := a, locks := b, procs := p\<rparr>"
    using assms(3) by simp
  then show ?thesis
    unfolding qt_def using assms(2) t(2) by auto
qed

lemma qt_acquire:
  assumes "qt c L s t" "lock_free l s" "l \<notin> L"
  obtains t' where "acquire l t = Ret () t'" "qt c (insert l L) s t'"
proof
  show "acquire l t = Ret () (acq_st c l t)"
    using qt_cpu_ok [OF assms(1)] qt_lock_free [OF assms(1,3)] assms(2) by (simp add: acquire_ok)
  have "sync_rel c (insert l L) s (acq_st c l t)"
    using sync_rel_acq [OF qt_sync_rel [OF assms(1)] assms(2,3)] .
  with assms(1) show "qt c (insert l L) s (acq_st c l t)"
    by (rule qt_sync) (simp add: acq_st_def push_st_def upd_lock_def)
qed

lemma qt_release:
  assumes "qt c L s t" "l \<in> L"
  obtains t' where "release l t = Ret () t'" "qt c (L - {l}) s t'"
proof
  have r: "sync_rel c L s t"
    by (rule qt_sync_rel [OF assms(1)])
  show "release l t = Ret () (rel_st c l t)"
    by (rule sync_rel_rel(1) [OF r assms(2)])
  have "rel_st c l t = t\<lparr>IF := IF (rel_st c l t), cpus := cpus (rel_st c l t), locks := locks (rel_st c l t)\<rparr>"
    by (simp add: rel_st_def pop_st_def upd_lock_def)
  then show "qt c (L - {l}) s (rel_st c l t)"
    by (rule qt_sync [OF assms(1) sync_rel_rel(2) [OF r assms(2)]])
qed

lemma qt_release1:
  assumes "qt c (insert l L) s t" "l \<notin> L"
  obtains t' where "release l t = Ret () t'" "qt c L s t'"
proof -
  obtain t' where "release l t = Ret () t'" "qt c (insert l L - {l}) s t'"
    by (rule qt_release [OF assms(1) insertI1])
  then show ?thesis
    using that [of t'] assms(2) by simp
qed

lemma qt_acquire0:
  assumes "qt c {} s t" "lock_free l s"
  obtains t' where "acquire l t = Ret () t'" "qt c {l} s t'"
  using assms by (rule qt_acquire) simp_all

lemma qt_release0:
  assumes "qt c {l} s t"
  obtains t' where "release l t = Ret () t'" "qt c {} s t'"
  using assms by (rule qt_release1) simp_all

lemma locks_rel_cong: "locks t' = locks t \<Longrightarrow> locks_rel c L s t' = locks_rel c L s t"
  by (simp add: locks_rel_def lock_free_def lock_held_def)

lemma sync_rel_pushpop:
  assumes r: "sync_rel c L s t"
  shows "sync_rel c L s (pop_st c (push_st c t))"
proof -
  note d = sync_relD [OF r]
  have ok: "cpu_ok c t"
    by (rule sync_rel_cpu_ok [OF r])
  let ?t = "pop_st c (push_st c t)"
  have cpu: "cpus ?t = (cpus t)[c := (cpus t ! c)\<lparr>intena := (if ncli (cpus t ! c) = 0 then IF t else intena (cpus t ! c))\<rparr>]"
    "IF ?t = IF t"
    by (rule pop_push_cpus [OF ok])+
  have f: "ncli (cpus ?t ! c) = ncli (cpus t ! c)" "cproc (cpus ?t ! c) = cproc (cpus t ! c)"
    "intena (cpus ?t ! c) = (if ncli (cpus t ! c) = 0 then IF t else intena (cpus t ! c))"
    using d(11) by (simp_all add: cpu(1))
  have n: "L \<noteq> {} \<Longrightarrow> ncli (cpus t ! c) \<noteq> 0"
    using d(1,2,6) card_gt_0_iff [of L] by (auto simp: cpu_ok_def)
  show ?thesis
    unfolding sync_rel_def
    using d(1-10) f cpu(2) n by (simp add: locks_rel_cong [of ?t t])
qed

lemma myproc_run:
  assumes r: "sync_rel c L s t"
  shows "myproc t = Ret (cproc (cpus s ! c)) (pop_st c (push_st c t))"
proof -
  have ok: "cpu_ok c t" and th: "this_cpu t = Some c"
    using sync_rel_cpu_ok [OF r] cpu_ok_this [OF sync_rel_cpu_ok [OF r]] by simp_all
  have c: "c < length (cpus t)"
    by (rule sync_relD(11) [OF r])
  have "mycpu (push_st c t) = Ret c (push_st c t)"
    using th by (intro mycpu_ok) simp_all
  moreover have "popcli (push_st c t) = Ret () (pop_st c (push_st c t))"
    using ok th c by (intro popcli_ok) (simp_all add: cpu_ok_def)
  moreover have "cproc (cpus (push_st c t) ! c) = cproc (cpus s ! c)"
    using sync_relD(5) [OF r] c by (simp add: push_st_def)
  ultimately show ?thesis
    using th by (simp add: myproc_def pushcli_ok Let_def)
qed

lemma qt_myproc:
  assumes "qt c L s t"
  obtains t' where "myproc t = Ret (cproc (cpus s ! c)) t'" "qt c L s t'"
proof
  have r: "sync_rel c L s t" and ok: "cpu_ok c t"
    using qt_sync_rel [OF assms] qt_cpu_ok [OF assms] by simp_all
  show "myproc t = Ret (cproc (cpus s ! c)) (pop_st c (push_st c t))"
    by (rule myproc_run [OF r])
  have "pop_st c (push_st c t)
      = t\<lparr>IF := IF t, cpus := cpus (pop_st c (push_st c t)), locks := locks t\<rparr>"
    by (simp add: pop_push_st [OF ok] upd_cpu_def)
  then show "qt c L s (pop_st c (push_st c t))"
    by (rule qt_sync [OF assms sync_rel_pushpop [OF r]])
qed

lemma qt_with_myproc:
  assumes "qt c L s t" "cproc (cpus s ! c) = Some i"
  obtains t' where "with_myproc t f = f i t'" "qt c L s t'"
proof -
  obtain t' where "myproc t = Ret (cproc (cpus s ! c)) t'" "qt c L s t'"
    using assms(1) by (rule qt_myproc)
  then show ?thesis
    using that [of t'] assms(2) by (simp add: with_myproc_def)
qed

lemma sync_rel_procs [simp]:
  "sync_rel c L s (t\<lparr>procs := p\<rparr>) = sync_rel c L s t"
  "sync_rel c L (s\<lparr>procs := p\<rparr>) t = sync_rel c L s t"
  by (simp_all add: sync_rel_def locks_rel_def lock_free_def lock_held_def this_cpu_def cpu_ok_def)

lemma qt_wakeup1:
  assumes "qt c L s t"
  shows "qt c L s (wakeup1 ch t)"
proof -
  obtain i a b p where t: "t = s\<lparr>IF := i, cpus := a, locks := b, procs := p\<rparr>" "procs_wk (procs s) p"
    using assms by (rule qtE)
  have "procs_wk (procs s) (procs (wakeup1 ch t))"
    using procs_wk_trans [OF qt_wk [OF assms] procs_wk_wakeup1] .
  moreover have "sync_rel c L s (wakeup1 ch t)"
    using qt_sync_rel [OF assms] by (simp add: wakeup1_def)
  moreover have "wakeup1 ch t = s\<lparr>IF := i, cpus := a, locks := b, procs := procs (wakeup1 ch t)\<rparr>"
    by (simp add: wakeup1_def t(1))
  ultimately show ?thesis
    unfolding qt_def by blast
qed

lemma qt_wakeup:
  assumes "qt c L s t" "lock_free Lptable s" "Lptable \<notin> L"
  obtains t' where "wakeup ch t = Ret () t'" "qt c L s t'"
proof -
  obtain t1 where 1: "acquire Lptable t = Ret () t1" "qt c (insert Lptable L) s t1"
    using assms by (rule qt_acquire)
  obtain t2 where 2: "release Lptable (wakeup1 (Some ch) t1) = Ret () t2" "qt c L s t2"
    using qt_wakeup1 [OF 1(2)] assms(3) by (rule qt_release1)
  show ?thesis
    using that [of t2] 1 2 by (simp add: wakeup_unfold)
qed

section \<open>Updates of the other fields\<close>

text \<open>
  An update that neither reads nor writes the synchronisation state and the process table can be
  done on both sides of the relation.
\<close>

definition payload :: "('a ptable_scheme \<Rightarrow> 'a ptable_scheme) \<Rightarrow> bool" where
  "payload f \<longleftrightarrow>
     (\<forall>s i a b p. f (s\<lparr>IF := i, cpus := a, locks := b, procs := p\<rparr>)
                  = (f s)\<lparr>IF := i, cpus := a, locks := b, procs := p\<rparr>) \<and>
     (\<forall>s. ncpu (f s) = ncpu s \<and> lapic_id (f s) = lapic_id s)"

lemma payloadD:
  assumes "payload f"
  shows "f (s\<lparr>IF := i, cpus := a, locks := b, procs := p\<rparr>) = (f s)\<lparr>IF := i, cpus := a, locks := b, procs := p\<rparr>"
    and "ncpu (f s) = ncpu s" "lapic_id (f s) = lapic_id s"
    and "IF (f s) = IF s" "cpus (f s) = cpus s" "locks (f s) = locks s" "procs (f s) = procs s"
proof -
  have e: "f (s\<lparr>IF := i, cpus := a, locks := b, procs := p\<rparr>) = (f s)\<lparr>IF := i, cpus := a, locks := b, procs := p\<rparr>"
    for s :: "'a ptable_scheme" and i a b p using assms unfolding payload_def by blast
  show "f (s\<lparr>IF := i, cpus := a, locks := b, procs := p\<rparr>) = (f s)\<lparr>IF := i, cpus := a, locks := b, procs := p\<rparr>"
    by (rule e)
  show "ncpu (f s) = ncpu s" "lapic_id (f s) = lapic_id s"
    using assms unfolding payload_def by blast+
  have u: "f s = (f s)\<lparr>IF := IF s, cpus := cpus s, locks := locks s, procs := procs s\<rparr>"
    using e [where s = s and i = "IF s" and a = "cpus s" and b = "locks s" and p = "procs s"] by simp
  show "IF (f s) = IF s" "cpus (f s) = cpus s" "locks (f s) = locks s" "procs (f s) = procs s"
    using arg_cong [OF u, of IF] arg_cong [OF u, of cpus] arg_cong [OF u, of locks] arg_cong [OF u, of procs]
    by simp_all
qed

text \<open>What an update keeps of the synchronisation state.\<close>

lemma payload_sync:
  assumes f: "payload f"
  shows "cpu_ok c (f s) = cpu_ok c s" "lock_free l (f s) = lock_free l s" "this_cpu (f s) = this_cpu s"
    "lock_held c l (f s) = lock_held c l s"
  by (simp_all add: lock_free_def lock_held_def this_cpu_def cpu_ok_def payloadD(2-6) [OF f])

lemma qt_payload:
  assumes f: "payload f" and "qt c L s t"
  shows "qt c L (f s) (f t)"
proof -
  obtain i a b p where t: "t = s\<lparr>IF := i, cpus := a, locks := b, procs := p\<rparr>"
    using assms(2) by (rule qtE)
  have "f t = (f s)\<lparr>IF := i, cpus := a, locks := b, procs := p\<rparr>"
    unfolding t by (rule payloadD(1) [OF f])
  moreover have "sync_rel c L (f s) (f t)"
    using qt_sync_rel [OF assms(2)]
    by (simp add: sync_rel_def locks_rel_def payload_sync [OF f] payloadD(4,5) [OF f])
  moreover have "procs_wk (procs (f s)) (procs (f t))"
    using qt_wk [OF assms(2)] by (simp add: payloadD(7) [OF f])
  ultimately show ?thesis
    unfolding qt_def by blast
qed

lemma payload_comp: "payload f \<Longrightarrow> payload g \<Longrightarrow> payload (\<lambda>s. f (g s))"
  by (simp add: payload_def)

text \<open>Processor \<open>c\<close> runs process \<open>p\<close> in the kernel, and no spin lock is held.\<close>

definition kidle :: "nat \<Rightarrow> nat \<Rightarrow> 'a ptable_scheme \<Rightarrow> bool" where
  "kidle c p s \<longleftrightarrow>
     cpu_ok c s \<and> (\<forall>l. lock_free l s) \<and> cproc (cpus s ! c) = Some p \<and> p < length (procs s)"

lemma kidleD:
  assumes "kidle c p s"
  shows "cpu_ok c s" "lock_free l s" "cproc (cpus s ! c) = Some p" "p < length (procs s)"
  using assms by (simp_all add: kidle_def)

lemma kidle_payload: "payload f \<Longrightarrow> kidle c p (f s) = kidle c p s"
  by (simp add: kidle_def payload_sync payloadD(5,7))

end
