(* ===== verification/Sleeplock.thy ===== *)
theory Sleeplock
  imports Quiet
begin

text \<open>
  sleeplock.c: locks that a process holds across sleeps. A sleep lock is part of another structure
  (a buffer, an in-memory inode), so a pointer to one is given by the spin lock inside it, the
  address processes sleep on, and the access to the structure's other fields.
\<close>

record sleeplock =
  slocked :: u32
  slname :: string
  spid :: int

record 's slref =
  sl_lk :: lock
  sl_chan :: chan
  sl_get :: "'s \<Rightarrow> sleeplock"
  sl_upd :: "(sleeplock \<Rightarrow> sleeplock) \<Rightarrow> 's \<Rightarrow> 's"

definition initsleeplock :: "'a ptable_scheme slref \<Rightarrow> string \<Rightarrow> 'a ptable_scheme \<Rightarrow> 'a ptable_scheme" where
  "initsleeplock lk name s =
     (let s = initlock (sl_lk lk) ''sleep lock'' s;
          s = sl_upd lk (\<lambda>k. k\<lparr>slname := name\<rparr>) s;
          s = sl_upd lk (\<lambda>k. k\<lparr>slocked := 0\<rparr>) s
      in sl_upd lk (\<lambda>k. k\<lparr>spid := 0\<rparr>) s)"

text \<open>The loop of \<open>acquiresleep\<close>, entered with the spin lock held.\<close>

definition acquiresleep_loop :: "'a ptable_scheme slref \<Rightarrow> 'a ptable_scheme \<Rightarrow> (unit, 'a ptable_scheme) kres" where
  "acquiresleep_loop lk s =
     (if slocked (sl_get lk s) \<noteq> 0 then sleep_on (sl_chan lk) (sl_lk lk) s
      else
        let s = sl_upd lk (\<lambda>k. k\<lparr>slocked := 1\<rparr>) s
        in with_myproc s (\<lambda>i s.
           let s = sl_upd lk (\<lambda>k. k\<lparr>spid := pid (procs s ! i)\<rparr>) s
           in release (sl_lk lk) s))"

definition acquiresleep :: "'a ptable_scheme slref \<Rightarrow> 'a ptable_scheme \<Rightarrow> (unit, 'a ptable_scheme) kres" where
  "acquiresleep lk s = bnd (acquire (sl_lk lk) s) (\<lambda>_ s. acquiresleep_loop lk s)"

text \<open>Process \<open>i\<close>, which slept in \<open>acquiresleep\<close>, goes on.\<close>

definition acquiresleep_resume ::
    "nat \<Rightarrow> bool \<Rightarrow> 'a ptable_scheme slref \<Rightarrow> 'a ptable_scheme \<Rightarrow> (unit, 'a ptable_scheme) kres" where
  "acquiresleep_resume i saved lk s =
     bnd (sleep_exit i saved (sl_lk lk) s) (\<lambda>_ s. acquiresleep_loop lk s)"

definition releasesleep :: "'a ptable_scheme slref \<Rightarrow> 'a ptable_scheme \<Rightarrow> (unit, 'a ptable_scheme) kres" where
  "releasesleep lk s =
     bnd (acquire (sl_lk lk) s) (\<lambda>_ s.
     let s = sl_upd lk (\<lambda>k. k\<lparr>slocked := 0\<rparr>) s;
         s = sl_upd lk (\<lambda>k. k\<lparr>spid := 0\<rparr>) s
     in bnd (wakeup (sl_chan lk) s) (\<lambda>_ s. release (sl_lk lk) s))"

definition holdingsleep :: "'a ptable_scheme slref \<Rightarrow> 'a ptable_scheme \<Rightarrow> (bool, 'a ptable_scheme) kres" where
  "holdingsleep lk s =
     bnd (acquire (sl_lk lk) s) (\<lambda>_ s.
     bnd (if slocked (sl_get lk s) \<noteq> 0
          then with_myproc s (\<lambda>i s. Ret (spid (sl_get lk s) = pid (procs s ! i)) s)
          else Ret False s) (\<lambda>r s.
     bnd (release (sl_lk lk) s) (\<lambda>_ s. Ret r s)))"

section \<open>The interface of a sleep lock\<close>

text \<open>
  What the routines rely on: the fields of the lock are a component of the state of their own,
  present in the states of which \<open>ok\<close> holds. The lemmas give the effect of each routine on the
  underlying state of \<open>qt\<close>.
\<close>

locale sleep_lock =
  fixes lk :: "'a ptable_scheme slref" and ok :: "'a ptable_scheme \<Rightarrow> bool"
  assumes upd_payload: "payload (sl_upd lk f)"
    and get_upd: "ok s \<Longrightarrow> sl_get lk (sl_upd lk f s) = f (sl_get lk s)"
    and upd_upd: "ok s \<Longrightarrow> sl_upd lk f (sl_upd lk g s) = sl_upd lk (\<lambda>k. f (g k)) s"
    and get_qt: "qt c L s t \<Longrightarrow> sl_get lk t = sl_get lk s"
    and ok_qt: "qt c L s t \<Longrightarrow> ok t = ok s"
    and not_ptable: "sl_lk lk \<noteq> Lptable"
begin

lemma upd_sync:
  "lock_free l (sl_upd lk f s) = lock_free l s" "cpus (sl_upd lk f s) = cpus s" "procs (sl_upd lk f s) = procs s"
  using payload_sync [OF upd_payload] payloadD [OF upd_payload] by simp_all

lemma acquiresleep_free:
  assumes q: "qt c L s t" and free: "lock_free (sl_lk lk) s" "sl_lk lk \<notin> L"
    and p: "cproc (cpus s ! c) = Some i" "i < length (procs s)" and ok: "ok s" "slocked (sl_get lk s) = 0"
  obtains t' where "acquiresleep lk t = Ret () t'"
    "qt c L (sl_upd lk (\<lambda>k. k\<lparr>slocked := 1, spid := pid (procs s ! i)\<rparr>) s) t'"
proof -
  let ?s1 = "sl_upd lk (\<lambda>k. k\<lparr>slocked := 1\<rparr>) s"
  obtain t1 where 1: "acquire (sl_lk lk) t = Ret () t1" "qt c (insert (sl_lk lk) L) s t1"
    using q free by (rule qt_acquire)
  let ?f = "\<lambda>i s. release (sl_lk lk) (sl_upd lk (\<lambda>k. k\<lparr>spid := pid (procs s ! i)\<rparr>) s)"
  have "qt c (insert (sl_lk lk) L) ?s1 (sl_upd lk (\<lambda>k. k\<lparr>slocked := 1\<rparr>) t1)"
    using upd_payload 1(2) by (rule qt_payload)
  then obtain t2 where 2: "with_myproc (sl_upd lk (\<lambda>k. k\<lparr>slocked := 1\<rparr>) t1) ?f = ?f i t2"
      "qt c (insert (sl_lk lk) L) ?s1 t2"
    by (rule qt_with_myproc) (simp add: upd_sync p)
  have pid: "pid (procs t2 ! i) = pid (procs s ! i)"
    using procs_wk_pid [OF qt_wk [OF 2(2)]] p(2) by (simp add: upd_sync)
  have "qt c (insert (sl_lk lk) L) (sl_upd lk (\<lambda>k. k\<lparr>spid := pid (procs s ! i)\<rparr>) ?s1)
      (sl_upd lk (\<lambda>k. k\<lparr>spid := pid (procs s ! i)\<rparr>) t2)"
    using upd_payload 2(2) by (rule qt_payload)
  then obtain t3 where 3: "release (sl_lk lk) (sl_upd lk (\<lambda>k. k\<lparr>spid := pid (procs s ! i)\<rparr>) t2) = Ret () t3"
      "qt c L (sl_upd lk (\<lambda>k. k\<lparr>spid := pid (procs s ! i)\<rparr>) ?s1) t3"
    using free(2) by (rule qt_release1)
  show ?thesis
    using that [of t3] 1(1) 2(1) 3 pid free(2) ok get_qt [OF 1(2)]
    by (simp add: acquiresleep_def acquiresleep_loop_def Let_def upd_upd)
qed

lemma releasesleep_held:
  assumes q: "qt c L s t" and free: "lock_free (sl_lk lk) s" "sl_lk lk \<notin> L"
    and pt: "lock_free Lptable s" "Lptable \<notin> L" and ok: "ok s"
  obtains t' where "releasesleep lk t = Ret () t'"
    "qt c L (sl_upd lk (\<lambda>k. k\<lparr>slocked := 0, spid := 0\<rparr>) s) t'"
proof -
  let ?s1 = "sl_upd lk (\<lambda>k. k\<lparr>spid := 0\<rparr>) (sl_upd lk (\<lambda>k. k\<lparr>slocked := 0\<rparr>) s)"
  obtain t1 where 1: "acquire (sl_lk lk) t = Ret () t1" "qt c (insert (sl_lk lk) L) s t1"
    using q free by (rule qt_acquire)
  let ?t1 = "sl_upd lk (\<lambda>k. k\<lparr>spid := 0\<rparr>) (sl_upd lk (\<lambda>k. k\<lparr>slocked := 0\<rparr>) t1)"
  have "qt c (insert (sl_lk lk) L) ?s1 ?t1"
    by (rule qt_payload [OF upd_payload qt_payload [OF upd_payload 1(2)]])
  moreover have "lock_free Lptable ?s1" "Lptable \<notin> insert (sl_lk lk) L"
    using not_ptable pt by (auto simp: upd_sync)
  ultimately obtain t2 where 2: "wakeup (sl_chan lk) ?t1 = Ret () t2" "qt c (insert (sl_lk lk) L) ?s1 t2"
    by (rule qt_wakeup)
  obtain t3 where 3: "release (sl_lk lk) t2 = Ret () t3" "qt c L ?s1 t3"
    using 2(2) free(2) by (rule qt_release1)
  show ?thesis
    using that [of t3] 1(1) 2(1) 3 free(2) ok
    by (simp add: releasesleep_def Let_def upd_upd)
qed

lemma holdingsleep_answer:
  assumes q: "qt c L s t" and free: "lock_free (sl_lk lk) s" "sl_lk lk \<notin> L"
    and p: "cproc (cpus s ! c) = Some i" "i < length (procs s)"
  obtains t' where "holdingsleep lk t = Ret (slocked (sl_get lk s) \<noteq> 0 \<and> spid (sl_get lk s) = pid (procs s ! i)) t'"
    "qt c L s t'"
proof -
  obtain t1 where 1: "acquire (sl_lk lk) t = Ret () t1" "qt c (insert (sl_lk lk) L) s t1"
    using q free by (rule qt_acquire)
  let ?f = "\<lambda>i s. Ret (spid (sl_get lk s) = pid (procs s ! i)) s"
  obtain t2 where 2: "with_myproc t1 ?f = ?f i t2" "qt c (insert (sl_lk lk) L) s t2"
    using 1(2) p(1) by (rule qt_with_myproc)
  have pid: "pid (procs t2 ! i) = pid (procs s ! i)"
    using procs_wk_pid [OF qt_wk [OF 2(2)]] p(2) by simp
  show ?thesis
  proof (cases "slocked (sl_get lk s) = 0")
    case True
    obtain t3 where 3: "release (sl_lk lk) t1 = Ret () t3" "qt c L s t3"
      using 1(2) free(2) by (rule qt_release1)
    then show ?thesis
      using that [of t3] 1(1) free(2) True get_qt [OF 1(2)] by (simp add: holdingsleep_def)
  next
    case False
    obtain t3 where 3: "release (sl_lk lk) t2 = Ret () t3" "qt c L s t3"
      using 2(2) free(2) by (rule qt_release1)
    then show ?thesis
      using that [of t3] 1(1) 2(1) pid free(2) False get_qt [OF 1(2)] get_qt [OF 2(2)]
      by (simp add: holdingsleep_def)
  qed
qed

end

end
