(* ===== verification/Console.thy ===== *)
theory Console
  imports Sleeplock
begin

text \<open>
  console.c with its devices: the serial port of uart.c, the keyboard of kbd.c and the CGA screen.
  The operations \<open>consoleread\<close> and \<open>consolewrite\<close>, which lock an inode, are in Dir.thy.

  The registers of a device that the kernel only reads are inputs of the model: the status
  and data bytes an \<open>inb\<close> delivers.
\<close>

section \<open>State\<close>

definition BACKSPACE :: int where "BACKSPACE = 0x100"
definition INPUT_BUF :: u32 where "INPUT_BUF = 128"
definition KEY_LF :: int where "KEY_LF = 0xE4"
definition KEY_RT :: int where "KEY_RT = 0xE5"

text \<open>The macro \<open>C(x)\<close>.\<close>

definition Ctl :: "char \<Rightarrow> int" where "Ctl x = of_char x - of_char CHR ''@''"

text \<open>
  The screen memory is the 32 KB of the CGA text buffer, as 16-bit cells; an access outside it
  is outside the array. \<open>cursor\<close> is the cursor register of the CRT controller (its bytes are
  the index registers 14 and 15).
\<close>

definition CRT_CELLS :: nat where "CRT_CELLS = 16384"

record console = ptable +
  panicked :: bool
  cons_locking :: bool
  crt :: "u16 list"
  cursor :: u16
  back_counter :: int
  uart :: bool
  serial :: "u8 list"    \<comment> \<open>the bytes sent to the serial port\<close>
  inbuf :: "u8 list"     \<comment> \<open>\<open>input.buf\<close>\<close>
  in_r :: u32
  in_w :: u32
  in_e :: u32
  kbd_shift :: u32

section \<open>uart.c\<close>

text \<open>
  The loop that waits for the transmitter ends after at most 128 polls and the byte is sent in
  any case, so the polled status has no effect.
\<close>

definition uartputc :: "int \<Rightarrow> 'a console_scheme \<Rightarrow> 'a console_scheme" where
  "uartputc c s = (if \<not> uart s then s else s\<lparr>serial := serial s @ [of_int c]\<rparr>)"

text \<open>\<open>status\<close> is what the line status register reads.\<close>

definition uartinit :: "u8 \<Rightarrow> 'a console_scheme \<Rightarrow> 'a console_scheme" where
  "uartinit status s =
     (if status = 0xFF then s
      else fold (\<lambda>c s. uartputc (of_char c) s) (''xv6...'' @ [CHR 0x0A]) (s\<lparr>uart := True\<rparr>))"

definition uartgetc :: "u8 \<Rightarrow> u8 \<Rightarrow> 'a console_scheme \<Rightarrow> int" where
  "uartgetc status d s =
     (if \<not> uart s then -1 else if status AND 1 = 0 then -1 else uint d)"

section \<open>The screen\<close>

text \<open>One cell of the screen is read and written.\<close>

definition crt_ok :: "int \<Rightarrow> 'a console_scheme \<Rightarrow> bool" where
  "crt_ok i s \<longleftrightarrow> 0 \<le> i \<and> nat i < length (crt s)"

definition crt_set :: "int \<Rightarrow> u16 \<Rightarrow> 'a console_scheme \<Rightarrow> (unit, 'a console_scheme) kres" where
  "crt_set i v s =
     (if crt_ok i s then Ret () (s\<lparr>crt := (crt s)[nat i := v]\<rparr>) else Undef ''crt'')"

definition crt_move :: "int \<Rightarrow> int \<Rightarrow> 'a console_scheme \<Rightarrow> (unit, 'a console_scheme) kres" where
  "crt_move i j s =
     (if crt_ok j s then crt_set i (crt s ! nat j) s else Undef ''crt'')"

text \<open>
  \<open>cgaputc\<close>. A backspace moves the \<open>back_counter\<close> cells from the cursor on one to the left, a
  character is inserted before them.
\<close>

definition cga_put :: "int \<Rightarrow> int \<Rightarrow> 'a console_scheme \<Rightarrow> (int, 'a console_scheme) kres" where
  "cga_put c pos s =
     (if c = 10 then Ret (pos + (80 - pos mod 80)) s
      else if c = BACKSPACE then
        bnd (mfor (\<lambda>i. crt_move i (i + 1)) [pos - 1 .. pos + back_counter s - 1] s) (\<lambda>_ s.
        Ret (if pos > 0 then pos - 1 else pos) s)
      else
        bnd (mfor (\<lambda>i. crt_move i (i - 1)) (rev [pos + 1 .. pos + back_counter s]) s) (\<lambda>_ s.
        bnd (crt_set pos ((of_int c AND 0xff) OR 0x0700) s) (\<lambda>_ s.
        Ret (pos + 1) s)))"

definition cga_scroll :: "int \<Rightarrow> 'a console_scheme \<Rightarrow> int \<times> 'a console_scheme" where
  "cga_scroll pos s =
     (if pos div 80 \<ge> 24 then
        let s = s\<lparr>crt := take (23 * 80) (drop 80 (crt s)) @ drop (23 * 80) (crt s)\<rparr>;
            pos = pos - 80;
            s = s\<lparr>crt := take (nat pos) (crt s) @ replicate (24 * 80 - nat pos) 0
                          @ drop (24 * 80) (crt s)\<rparr>
        in (pos, s)
      else (pos, s))"

definition cgaputc :: "int \<Rightarrow> 'a console_scheme \<Rightarrow> (unit, 'a console_scheme) kres" where
  "cgaputc c s =
     bnd (cga_put c (uint (cursor s)) s) (\<lambda>pos s.
     if pos < 0 \<or> pos > 25 * 80 then Panic ''pos under/overflow''
     else
       case cga_scroll pos s of (pos, s) \<Rightarrow>
       let s = s\<lparr>cursor := of_int pos\<rparr>
       in crt_set (pos + back_counter s) 0x0720 s)"

text \<open>After a panic every processor that prints stops for ever.\<close>

definition consputc :: "int \<Rightarrow> 'a console_scheme \<Rightarrow> (unit, 'a console_scheme) kres" where
  "consputc c s =
     (if panicked s then Spin
      else
        let s = (if c = BACKSPACE then uartputc 8 (uartputc 32 (uartputc 8 s)) else uartputc c s)
        in cgaputc c s)"

definition move_left_cursor :: "'a console_scheme \<Rightarrow> (unit, 'a console_scheme) kres" where
  "move_left_cursor s =
     (let pos = uint (cursor s)
      in if \<not> crt_ok (pos - 2) s then Undef ''crt''
         else
           let pos = (if crt s ! nat (pos - 2) \<noteq> 0x0724 then pos - 1 else pos)
           in Ret () (s\<lparr>cursor := of_int pos\<rparr>))"

definition move_right_cursor :: "'a console_scheme \<Rightarrow> 'a console_scheme" where
  "move_right_cursor s = s\<lparr>cursor := cursor s + 1\<rparr>"

section \<open>Formatted output\<close>

definition digits :: string where "digits = ''0123456789abcdef''"

text \<open>The digits of \<open>x\<close> as the loop of \<open>printint\<close> produces them, least significant first.\<close>

function printint_digits :: "u32 \<Rightarrow> u32 \<Rightarrow> string" where
  "printint_digits x base =
     digits ! unat (x mod base) #
       (if 1 < base \<and> x div base \<noteq> 0 then printint_digits (x div base) base else [])"
  by auto
termination
proof (relation "measure (\<lambda>(x, b). unat x)", goal_cases)
  case (2 x base)
  then have "1 < unat base" "0 < unat x"
    by (auto simp: word_less_nat_alt unat_gt_0)
  then show ?case
    by (simp add: unat_div)
qed simp

definition printint :: "int \<Rightarrow> u32 \<Rightarrow> bool \<Rightarrow> string" where
  "printint xx base sgnd =
     (let neg = (sgnd \<and> xx < 0);
          x = (if neg then of_int (- xx) else of_int xx)
      in (if neg then ''-'' else []) @ rev (printint_digits x base))"

text \<open>An argument on the stack: a word, or a pointer to a string (\<open>None\<close> for null).\<close>

datatype arg = Word u32 | Str "string option"

fun argword :: "arg \<Rightarrow> u32 option" where
  "argword (Word w) = Some w"
| "argword (Str _) = None"

text \<open>
  The characters \<open>cprintf\<close> puts out for a format and its arguments; \<open>None\<close> when an argument is
  missing or of the wrong kind, where the code would read the stack at random.
\<close>

fun cprintf_text :: "string \<Rightarrow> arg list \<Rightarrow> string option" where
  "cprintf_text [] as = Some []"
| "cprintf_text [c] as = (if c = CHR ''%'' then Some [] else Some [c])"
| "cprintf_text (c # d # f) as =
     (if c \<noteq> CHR ''%'' then map_option (\<lambda>t. c # t) (cprintf_text (d # f) as)
      else if d = CHR ''d'' then
        (case as of Word w # as' \<Rightarrow> map_option (\<lambda>t. printint (sint w) 10 True @ t) (cprintf_text f as')
         | _ \<Rightarrow> None)
      else if d = CHR ''x'' \<or> d = CHR ''p'' then
        (case as of Word w # as' \<Rightarrow> map_option (\<lambda>t. printint (sint w) 16 False @ t) (cprintf_text f as')
         | _ \<Rightarrow> None)
      else if d = CHR ''s'' then
        (case as of
           Str so # as' \<Rightarrow>
             map_option (\<lambda>t. (case so of None \<Rightarrow> ''(null)'' | Some x \<Rightarrow> x) @ t) (cprintf_text f as')
         | _ \<Rightarrow> None)
      else if d = CHR ''%'' then map_option (\<lambda>t. CHR ''%'' # t) (cprintf_text f as)
      else map_option (\<lambda>t. CHR ''%'' # d # t) (cprintf_text f as))"

definition cprintf_args :: "string \<Rightarrow> arg list \<Rightarrow> 'a console_scheme \<Rightarrow> (unit, 'a console_scheme) kres" where
  "cprintf_args fmt as s =
     (let locking = cons_locking s
      in bnd (if locking then acquire Lcons s else Ret () s) (\<lambda>_ s.
         case cprintf_text fmt as of
           None \<Rightarrow> Undef ''cprintf arguments''
         | Some t \<Rightarrow>
             bnd (mfor (\<lambda>c. consputc (of_char c)) t s) (\<lambda>_ s.
             if locking then release Lcons s else Ret () s)))"

text \<open>What \<open>panic(msg)\<close> prints before it stops the machine; \<open>pcs\<close> is the call stack.\<close>

definition panic_out :: "string \<Rightarrow> u32 list \<Rightarrow> 'a console_scheme \<Rightarrow> (unit, 'a console_scheme) kres" where
  "panic_out msg pcs s =
     (let s = cli s; s = s\<lparr>cons_locking := False\<rparr>
      in bnd (cprintf_args ''lapicid %d: panic: '' [Word (ucast (lapic_id s))] s) (\<lambda>_ s.
         bnd (cprintf_args msg [] s) (\<lambda>_ s.
         bnd (cprintf_args [CHR 0x0A] [] s) (\<lambda>_ s.
         bnd (mfor (\<lambda>pc. cprintf_args '' %p'' [Word pc]) pcs s) (\<lambda>_ s.
         Ret () (s\<lparr>panicked := True\<rparr>))))))"

section \<open>Input\<close>

definition in_ix :: "u32 \<Rightarrow> nat" where "in_ix i = unat (i mod INPUT_BUF)"

text \<open>
  The loop of control-U, which removes the characters of the line being typed. At most
  \<open>input.e - input.w\<close> characters are there to remove, and that is the number of rounds it is given.
\<close>

fun kill_line :: "nat \<Rightarrow> 'a console_scheme \<Rightarrow> (unit, 'a console_scheme) kres" where
  "kill_line 0 s = Ret () s"
| "kill_line (Suc n) s =
     (if in_e s \<noteq> in_w s \<and> inbuf s ! in_ix (in_e s - 1) \<noteq> 10
      then bnd (consputc BACKSPACE (s\<lparr>in_e := in_e s - 1\<rparr>)) (\<lambda>_ s. kill_line n s)
      else Ret () s)"

text \<open>The default case: a character goes into the buffer; a full line wakes the readers.\<close>

definition console_char :: "int \<Rightarrow> 'a console_scheme \<Rightarrow> (unit, 'a console_scheme) kres" where
  "console_char c s =
     (if c \<noteq> 0 \<and> in_e s - in_r s < INPUT_BUF then
        let c = (if c = 13 then 10 else c);
            s = s\<lparr>inbuf := (inbuf s)[in_ix (in_e s) := of_int c]\<rparr>;
            s = s\<lparr>in_e := in_e s + 1\<rparr>
        in bnd (consputc c s) (\<lambda>_ s.
           if c = 10 \<or> c = Ctl CHR ''D'' \<or> in_e s = in_r s + INPUT_BUF
           then wakeup Cinput (s\<lparr>in_w := in_e s\<rparr>)
           else Ret () s)
      else Ret () s)"

text \<open>The switch of \<open>consoleintr\<close>; the result says whether to list the processes.\<close>

definition console_key :: "int \<Rightarrow> bool \<Rightarrow> 'a console_scheme \<Rightarrow> (bool, 'a console_scheme) kres" where
  "console_key c dump s =
     (if c = KEY_LF then
        bnd (move_left_cursor s) (\<lambda>_ s. Ret dump (s\<lparr>back_counter := back_counter s + 1\<rparr>))
      else if c = KEY_RT then
        (if back_counter s \<noteq> 0 then
           let s = move_right_cursor s
           in Ret dump (s\<lparr>back_counter := back_counter s - 1\<rparr>)
         else Ret dump s)
      else if c = Ctl CHR ''P'' then Ret True s
      else if c = Ctl CHR ''U'' then
        bnd (kill_line (unat (in_e s - in_w s)) s) (\<lambda>_ s. Ret dump s)
      else if c = Ctl CHR ''H'' \<or> c = 0x7f then
        (if in_e s \<noteq> in_w s then
           bnd (consputc BACKSPACE (s\<lparr>in_e := in_e s - 1\<rparr>)) (\<lambda>_ s. Ret dump s)
         else Ret dump s)
      else bnd (console_char c s) (\<lambda>_ s. Ret dump s))"

text \<open>
  \<open>consoleintr\<close>; the characters that the calls of \<open>getc\<close> deliver, up to the first negative
  one, are its argument.
\<close>

fun consoleintr_loop :: "int list \<Rightarrow> bool \<Rightarrow> 'a console_scheme \<Rightarrow> (bool, 'a console_scheme) kres" where
  "consoleintr_loop [] dump s = Ret dump s"
| "consoleintr_loop (c # cs) dump s =
     (if c < 0 then Ret dump s
      else bnd (console_key c dump s) (\<lambda>dump s. consoleintr_loop cs dump s))"

definition consoleintr :: "int list \<Rightarrow> 'a console_scheme \<Rightarrow> (unit, 'a console_scheme) kres" where
  "consoleintr cs s =
     bnd (acquire Lcons s) (\<lambda>_ s.
     bnd (consoleintr_loop cs False s) (\<lambda>dump s.
     bnd (release Lcons s) (\<lambda>_ s.
     Ret () (if dump then procdump s else s))))"

section \<open>An example\<close>

text \<open>The state of a kernel of one processor that runs process 0, with the given part above the console.\<close>

definition con0 :: "'a \<Rightarrow> 'a console_scheme" where
  "con0 x = \<lparr>cpus = [\<lparr>apicid = 0, ts = \<lparr>ss0 = 0, esp0 = 0, iomb = 0\<rparr>, ts_addr = 0, gdt = [], started = True,
                     ncli = 0, intena = False, cproc = Some 0\<rparr>],
     ncpu = 1, lapic_id = 0, IF = True, cr3 = 0, tr = 0, gdtr = [],
     locks = (\<lambda>_. \<lparr>locked = 0, lname = [], lcpu = None\<rparr>), printed = [],
     mem = (\<lambda>_. 0), kend = 0x80112345, use_lock = True, freelist = 0, kdata = 0x80108000, kpgdir = 0,
     procs = [\<lparr>sz = 4096, pgdir = 0, kstack = 0, state = RUNNING, pid = 1, parent = None, tf = 0, pcontext = 0,
               pchan = None, killed = False, ofile = replicate 16 None, cwd = None, pname = replicate 16 0,
               counter = replicate 27 0\<rparr>],
     nextpid = 2, initproc = Some 0, trapret_addr = 0, forkret_addr = 0,
     panicked = False, cons_locking = True, crt = replicate 2000 0, cursor = 0, back_counter = 0, uart = True, serial = [],
     inbuf = replicate 128 0, in_r = 0, in_w = 0, in_e = 0, kbd_shift = 0, \<dots> = x\<rparr>"

lemma con0_kidle: "kidle 0 0 (con0 x)"
  by (simp add: kidle_def con0_def cpu_ok_def this_cpu_def lock_free_def)

end
