(* ===== verification/Sched.thy ===== *)
theory Sched
  imports Console
begin

text \<open>
  Facts on proc.c: going to sleep, the scheduler, process ids, \<open>kill\<close> and \<open>wait\<close>, and the
  calls added to xv6 here (the most frequent caller of a system call, the next prime).
\<close>

section \<open>Synchronisation that leaves the process table alone\<close>

definition qx :: "nat \<Rightarrow> lock set \<Rightarrow> 'a ptable_scheme \<Rightarrow> 'a ptable_scheme \<Rightarrow> bool" where
  "qx c L s t \<longleftrightarrow> sync_rel c L s t \<and> (\<exists>i a b. t = s\<lparr>IF := i, cpus := a, locks := b\<rparr>)"

lemma qx_start: "cpu_ok c s \<Longrightarrow> qx c {} s s"
proof -
  assume "cpu_ok c s"
  then have "sync_rel c {} s s"
    by (simp add: sync_rel_def cpu_ok_this locks_rel_def)
  moreover have "s = s\<lparr>IF := IF s, cpus := cpus s, locks := locks s\<rparr>"
    by simp
  ultimately show ?thesis
    unfolding qx_def by blast
qed

lemma qxE:
  assumes "qx c L s t"
  obtains i a b where "t = s\<lparr>IF := i, cpus := a, locks := b\<rparr>"
  using assms unfolding qx_def by blast

lemma qx_sync: "qx c L s t \<Longrightarrow> sync_rel c L s t"
  by (simp only: qx_def)

lemma qx_trans:
  assumes "qx c L s t" "sync_rel c L' s t'" "t' = t\<lparr>IF := i, cpus := a, locks := b\<rparr>"
  shows "qx c L' s t'"
proof -
  obtain i' a' b' where "t = s\<lparr>IF := i', cpus := a', locks := b'\<rparr>"
    using assms(1) by (rule qxE)
  then have "t' = s\<lparr>IF := i, cpus := a, locks := b\<rparr>"
    using assms(3) by simp
  then show ?thesis
    unfolding qx_def using assms(2) by blast
qed

lemma qx_cpu_ok: "qx c L s t \<Longrightarrow> cpu_ok c t"
  by (rule sync_rel_cpu_ok [OF qx_sync])

lemma qx_procs:
  assumes "qx c L s t"
  shows "procs t = procs s" "nextpid t = nextpid s" "mem t = mem s" "kend t = kend s" "use_lock t = use_lock s"
    "freelist t = freelist s" "trapret_addr t = trapret_addr s" "forkret_addr t = forkret_addr s" "cr3 t = cr3 s"
    "initproc t = initproc s"
  using assms by (auto elim!: qxE)

lemma qx_acquire:
  assumes "qx c L s t" "lock_free l s" "l \<notin> L"
  obtains t' where "acquire l t = Ret () t'" "qx c (insert l L) s t'"
proof
  have r: "sync_rel c L s t"
    by (rule qx_sync [OF assms(1)])
  have "lock_free l t"
    using locks_relD(3) [OF sync_relD(10) [OF r] assms(3)] assms(2) by simp
  then show "acquire l t = Ret () (acq_st c l t)"
    using qx_cpu_ok [OF assms(1)] by (simp add: acquire_ok)
  have "sync_rel c (insert l L) s (acq_st c l t)"
    using sync_rel_acq [OF r assms(2,3)] .
  with assms(1) show "qx c (insert l L) s (acq_st c l t)"
    by (rule qx_trans) (simp add: acq_st_def push_st_def upd_lock_def)
qed

lemma qx_release:
  assumes "qx c L s t" "l \<in> L"
  obtains t' where "release l t = Ret () t'" "qx c (L - {l}) s t'"
proof
  have r: "sync_rel c L s t"
    by (rule qx_sync [OF assms(1)])
  show "release l t = Ret () (rel_st c l t)"
    by (rule sync_rel_rel(1) [OF r assms(2)])
  have "rel_st c l t = t\<lparr>IF := IF (rel_st c l t), cpus := cpus (rel_st c l t), locks := locks (rel_st c l t)\<rparr>"
    by (simp add: rel_st_def pop_st_def upd_lock_def)
  then show "qx c (L - {l}) s (rel_st c l t)"
    by (rule qx_trans [OF assms(1) sync_rel_rel(2) [OF r assms(2)]])
qed

lemma qx_acquire0:
  assumes "qx c {} s t" "lock_free l s"
  obtains t' where "acquire l t = Ret () t'" "qx c {l} s t'"
  using assms by (rule qx_acquire) simp_all

lemma qx_release0:
  assumes "qx c {l} s t"
  obtains t' where "release l t = Ret () t'" "qx c {} s t'"
proof -
  obtain t' where "release l t = Ret () t'" "qx c ({l} - {l}) s t'"
    by (rule qx_release [OF assms singletonI])
  then show ?thesis
    using that by simp
qed

lemma qx_myproc:
  assumes "qx c L s t"
  obtains t' where "myproc t = Ret (cproc (cpus s ! c)) t'" "qx c L s t'"
proof -
  have ok: "cpu_ok c t" and r: "sync_rel c L s t"
    using qx_cpu_ok [OF assms] qx_sync [OF assms] by simp_all
  have "myproc t = Ret (cproc (cpus s ! c)) (pop_st c (push_st c t))"
    by (rule myproc_run [OF r])
  moreover have "pop_st c (push_st c t) = t\<lparr>IF := IF t, cpus := cpus (pop_st c (push_st c t)), locks := locks t\<rparr>"
    by (simp add: pop_push_st [OF ok] upd_cpu_def)
  then have "qx c L s (pop_st c (push_st c t))"
    by (rule qx_trans [OF assms sync_rel_pushpop [OF r]])
  ultimately show ?thesis
    by (rule that)
qed

lemma sync_rel_fields:
  assumes "IF s' = IF s" "cpus s' = cpus s" "locks s' = locks s" "ncpu s' = ncpu s" "lapic_id s' = lapic_id s"
    and "IF t' = IF t" "cpus t' = cpus t" "locks t' = locks t" "ncpu t' = ncpu t" "lapic_id t' = lapic_id t"
  shows "sync_rel c L s' t' = sync_rel c L s t"
  by (simp add: sync_rel_def locks_rel_def lock_free_def lock_held_def this_cpu_def cpu_ok_def assms)

lemma qx_upd:
  assumes "qx c L s t"
  shows "qx c L (upd_proc i f s) (upd_proc i f t)" "qx c L (s\<lparr>nextpid := n\<rparr>) (t\<lparr>nextpid := n\<rparr>)"
    "qx c L (s\<lparr>mem := m\<rparr>) (t\<lparr>mem := m\<rparr>)"
proof -
  obtain j a b where t: "t = s\<lparr>IF := j, cpus := a, locks := b\<rparr>"
    using assms by (rule qxE)
  have "upd_proc i f t = (upd_proc i f s)\<lparr>IF := j, cpus := a, locks := b\<rparr>"
    "t\<lparr>nextpid := n\<rparr> = s\<lparr>nextpid := n\<rparr>\<lparr>IF := j, cpus := a, locks := b\<rparr>"
    "t\<lparr>mem := m\<rparr> = s\<lparr>mem := m\<rparr>\<lparr>IF := j, cpus := a, locks := b\<rparr>"
    by (simp_all add: upd_proc_def t)
  moreover have "sync_rel c L (upd_proc i f s) (upd_proc i f t)" "sync_rel c L (s\<lparr>nextpid := n\<rparr>) (t\<lparr>nextpid := n\<rparr>)"
    "sync_rel c L (s\<lparr>mem := m\<rparr>) (t\<lparr>mem := m\<rparr>)"
    by (rule iffD2 [OF sync_rel_fields qx_sync [OF assms]]; simp add: upd_proc_def)+
  ultimately show "qx c L (upd_proc i f s) (upd_proc i f t)" "qx c L (s\<lparr>nextpid := n\<rparr>) (t\<lparr>nextpid := n\<rparr>)"
    "qx c L (s\<lparr>mem := m\<rparr>) (t\<lparr>mem := m\<rparr>)"
    unfolding qx_def by blast+
qed

section \<open>Sleeping\<close>

text \<open>
  With the lock \<open>l\<close> held and nothing else, \<open>sleep\<close> reaches the switch to the scheduler with \<open>l\<close> given up, the
  process table locked, and the process marked as sleeping on the channel.
\<close>

lemma sched_out_ok:
  assumes q: "qx c {Lptable} s t" and n: "ncli (cpus s ! c) = 0" and i: "cproc (cpus s ! c) = Some i" "state (procs s ! i) \<noteq> RUNNING"
  obtains t' b where "sched_out t = Ret b t'" "qx c {Lptable} s t'"
proof -
  obtain t1 where 1: "myproc t = Ret (cproc (cpus s ! c)) t1" "qx c {Lptable} s t1"
    using q by (rule qx_myproc)
  note d = sync_relD [OF qx_sync [OF 1(2)]]
  have nc: "ncli (cpus t1 ! c) = 1" and f: "\<not> IF t1"
    using d(6,8) n by simp_all
  have h: "holding Lptable t1 = Ret True t1"
    using holding_nested [OF d(3) f, of Lptable] locks_relD(2) [OF d(10)] nc by simp
  have m: "mycpu t1 = Ret c t1"
    using d(3) f by (rule mycpu_ok)
  have "sched_out t = Ret (intena (cpus t1 ! c)) t1"
    using 1(1) h m i nc f qx_procs(1) [OF 1(2)] by (simp add: sched_out_def with_myproc_def)
  then show ?thesis
    using that 1(2) by blast
qed

lemma sleep_enter_ok:
  assumes q: "qx c {l} s t" and k: "kidle c p s" "ncli (cpus s ! c) = 0" and l: "l \<noteq> Lptable"
  obtains b t' where "sleep_enter ch (Some l) t = Ret b t'"
    "qx c {Lptable} (upd_proc p (\<lambda>r. r\<lparr>pchan := Some ch, state := SLEEPING\<rparr>) s) t'"
proof -
  let ?f = "\<lambda>r. r\<lparr>pchan := Some ch, state := SLEEPING\<rparr>"
  obtain t1 where 1: "myproc t = Ret (cproc (cpus s ! c)) t1" "qx c {l} s t1"
    using q by (rule qx_myproc)
  have nl: "Lptable \<notin> {l}" "l \<in> {Lptable, l}"
    using l by auto
  obtain t2 where 2: "acquire Lptable t1 = Ret () t2" "qx c {Lptable, l} s t2"
    using 1(2) kidleD(2) [OF k(1)] nl(1) by (rule qx_acquire)
  obtain t3 where 3: "release l t2 = Ret () t3" "qx c ({Lptable, l} - {l}) s t3"
    using 2(2) nl(2) by (rule qx_release)
  have e: "{Lptable, l} - {l} = {Lptable}"
    using l by auto
  have q4: "qx c {Lptable} (upd_proc p ?f s) (upd_proc p ?f t3)"
    using qx_upd(1) [OF 3(2)] unfolding e .
  have p: "p < length (procs s)" "cproc (cpus s ! c) = Some p"
    using kidleD [OF k(1)] by simp_all
  have s': "ncli (cpus (upd_proc p ?f s) ! c) = 0" "cproc (cpus (upd_proc p ?f s) ! c) = Some p"
    "state (procs (upd_proc p ?f s) ! p) \<noteq> RUNNING"
    using k(2) p by (simp_all add: upd_proc_def)
  obtain t5 b where 5: "sched_out (upd_proc p ?f t3) = Ret b t5" "qx c {Lptable} (upd_proc p ?f s) t5"
    using q4 s' by (rule sched_out_ok)
  have u: "upd_proc p (\<lambda>r. r\<lparr>state := SLEEPING\<rparr>) (upd_proc p (\<lambda>r. r\<lparr>pchan := Some ch\<rparr>) t3) = upd_proc p ?f t3"
    using p(1) qx_procs(1) [OF 3(2)] by (simp add: upd_proc_def)
  have "sleep_enter ch (Some l) t = Ret b t5"
    using 1(1) 2(1) 3(1) 5(1) p(2) l u by (simp add: sleep_enter_def sleep_steps_def mfor_fun)
  then show ?thesis
    using 5(2) by (rule that)
qed

lemma wakeup1_nth:
  "j < length (procs s) \<Longrightarrow> procs (wakeup1 ch s) ! j
     = (if state (procs s ! j) = SLEEPING \<and> pchan (procs s ! j) = ch then (procs s ! j)\<lparr>state := RUNNABLE\<rparr> else procs s ! j)"
  by (simp add: wakeup1_def)

section \<open>The scheduler\<close>

lemma sync_procs:
  "pushcli s = Ret () s1 \<Longrightarrow> procs s1 = procs s" "popcli s = Ret () s1 \<Longrightarrow> procs s1 = procs s"
  "mycpu s = Ret c s1 \<Longrightarrow> s1 = s"
  by (auto simp: pushcli_def popcli_def mycpu_def Let_def upd_cpu_def cli_def sti_def
      elim!: bnd_RetE split: option.splits if_splits)

lemma switchuvm_procs:
  assumes "switchuvm po s = Ret () s'"
  shows "procs s' = procs s"
proof -
  obtain i where i: "po = Some i" "kstack (procs s ! i) \<noteq> 0" "pgdir (procs s ! i) \<noteq> 0"
    using assms by (auto simp: switchuvm_def Let_def split: option.splits if_splits)
  with assms obtain s1 c s2 where 1: "pushcli s = Ret () s1" and 2: "mycpu s1 = Ret c s2"
    unfolding switchuvm_def Let_def by (auto elim!: bnd_RetE)
  have "procs s' = procs s2"
    using assms i 1 2 by (auto simp: switchuvm_def Let_def upd_cpu_def dest!: sync_procs(2))
  then show ?thesis
    using sync_procs(1) [OF 1] sync_procs(3) [OF 2] by simp
qed

lemma scheduler_scan_Some:
  assumes "scheduler_scan c n s = Ret (Some i) s'"
  shows "n \<le> i" "i < length (procs s)" "state (procs s ! i) = RUNNABLE" "state (procs s' ! i) = RUNNING"
    and "\<And>j. n \<le> j \<Longrightarrow> j < i \<Longrightarrow> state (procs s ! j) \<noteq> RUNNABLE"
    and "\<And>j. j \<noteq> i \<Longrightarrow> procs s' ! j = procs s ! j" "length (procs s') = length (procs s)"
proof -
  obtain k s1 where k: "scan (\<lambda>p. state p = RUNNABLE) (drop n (procs s)) = Some k" "i = n + k"
    and s1: "switchuvm (Some i) (upd_cpu c (\<lambda>k. k\<lparr>cproc := Some i\<rparr>) s) = Ret () s1"
      "s' = upd_proc i (\<lambda>p. p\<lparr>state := RUNNING\<rparr>) s1"
    using assms by (auto simp: scheduler_scan_def scheduler_run_def Let_def elim!: bnd_RetE split: option.splits)
  have b: "k < length (procs s) - n" "state (procs s ! i) = RUNNABLE" "\<forall>j < k. state (procs s ! (n + j)) \<noteq> RUNNABLE"
    using scan_Some [OF k(1)] k(2) by auto
  have p1: "procs s1 = procs s"
    using switchuvm_procs [OF s1(1)] by (simp add: upd_cpu_def)
  show "n \<le> i" "i < length (procs s)" "state (procs s ! i) = RUNNABLE"
    using b k(2) by simp_all
  then show "state (procs s' ! i) = RUNNING" "\<And>j. j \<noteq> i \<Longrightarrow> procs s' ! j = procs s ! j" "length (procs s') = length (procs s)"
    by (simp_all add: s1(2) upd_proc_def p1)
  show "state (procs s ! j) \<noteq> RUNNABLE" if "n \<le> j" "j < i" for j
    using b(3) that k(2) by (metis le_add_diff_inverse nat_add_left_cancel_less)
qed

lemma scheduler_scan_None:
  assumes "scheduler_scan c n s = Ret None s'" "n \<le> j" "j < length (procs s)"
  shows "state (procs s ! j) \<noteq> RUNNABLE"
proof -
  have "scan (\<lambda>p. state p = RUNNABLE) (drop n (procs s)) = None"
    using assms(1) by (auto simp: scheduler_scan_def elim!: bnd_RetE split: option.splits)
  then have "\<forall>x \<in> set (drop n (procs s)). state x \<noteq> RUNNABLE"
    by (simp add: scan_None)
  moreover have "procs s ! j \<in> set (drop n (procs s))"
    using nth_mem [of "j - n" "drop n (procs s)"] assms(2,3) by simp
  ultimately show ?thesis
    by blast
qed

text \<open>
  What holds when the scheduler of processor \<open>c\<close> has the processor: it holds the lock of the table and nothing
  else, and the processes it may choose can be switched to.
\<close>

definition sched_ok :: "nat \<Rightarrow> 'a ptable_scheme \<Rightarrow> bool" where
  "sched_ok c s \<longleftrightarrow>
     cpu_ok c s \<and> lock_held c Lptable s \<and> ncli (cpus s ! c) = 1 \<and>
     (\<forall>p \<in> set (procs s). state p = RUNNABLE \<longrightarrow> kstack p \<noteq> 0 \<and> pgdir p \<noteq> 0)"

lemma sched_okD:
  assumes "sched_ok c s"
  shows "cpu_ok c s" "this_cpu s = Some c" "c < length (cpus s)" "lock_held c Lptable s" "ncli (cpus s ! c) = 1"
  using assms this_cpuD(1) [of s c] by (auto simp: sched_ok_def cpu_ok_def)

text \<open>Changes of what \<open>switchuvm\<close> and the scheduler write of the processor do not matter to that.\<close>

lemma switchuvm_ok:
  assumes ok: "cpu_ok c s" and n: "0 < ncli (cpus s ! c)" and k: "kstack (procs s ! i) \<noteq> 0" "pgdir (procs s ! i) \<noteq> 0"
  obtains k' v where "switchuvm (Some i) s = Ret () (s\<lparr>cpus := (cpus s)[c := k'], tr := v, cr3 := V2P (pgdir (procs s ! i))\<rparr>)"
    "apicid k' = apicid (cpus s ! c)" "ncli k' = ncli (cpus s ! c)" "cproc k' = cproc (cpus s ! c)"
    "intena k' = intena (cpus s ! c)"
proof -
  have th: "this_cpu s = Some c" and f: "\<not> IF s" and c: "c < length (cpus s)"
    using ok n this_cpuD(1) by (auto simp: cpu_ok_def)
  have m: "mycpu (push_st c s) = Ret c (push_st c s)" using th by (intro mycpu_ok) simp_all
  let ?k = "cpus (push_st c s) ! c" and ?p = "procs s ! i"
  define g where "g = (let g = (gdt ?k)[SEG_TSS := SEG16 STS_T32A (ts_addr ?k) 103 0] in g[SEG_TSS := (g ! SEG_TSS)\<lparr>seg_s := 0\<rparr>])"
  define k2 where "k2 = ?k\<lparr>gdt := g, ts := (ts ?k)\<lparr>ss0 := SEG_KDATA * 8, esp0 := kstack ?p + KSTACKSIZE, iomb := 0xFFFF\<rparr>\<rparr>"
  define t where "t = (push_st c s)\<lparr>cpus := (cpus s)[c := k2], tr := SEG_TSS * 8, cr3 := V2P (pgdir ?p)\<rparr>"
  have k2: "apicid k2 = apicid (cpus s ! c)" "ncli k2 = ncli (cpus s ! c) + 1" "cproc k2 = cproc (cpus s ! c)" "intena k2 = intena (cpus s ! c)"
    using c n by (simp_all add: k2_def push_st_def)
  have "switchuvm (Some i) s = popcli t"
    using k m th c by (simp add: switchuvm_def pushcli_ok Let_def t_def k2_def g_def upd_cpu_def push_st_def)
  moreover have "this_cpu t = Some c"
    using th k2(1) by (subst this_cpu_cong [of t s]) (simp_all add: t_def)
  then have "popcli t = Ret () (pop_st c t)"
    using n c k2(2) by (intro popcli_ok) (simp_all add: t_def push_st_def)
  moreover have "pop_st c t = s\<lparr>cpus := (cpus s)[c := k2\<lparr>ncli := ncli (cpus s ! c)\<rparr>], tr := SEG_TSS * 8, cr3 := V2P (pgdir ?p)\<rparr>"
    using n c f k2(2) by (simp add: pop_st_def t_def push_st_def)
  ultimately have r: "switchuvm (Some i) s =
      Ret () (s\<lparr>cpus := (cpus s)[c := k2\<lparr>ncli := ncli (cpus s ! c)\<rparr>], tr := SEG_TSS * 8, cr3 := V2P (pgdir ?p)\<rparr>)" by simp
  show ?thesis by (rule that [OF r]) (simp_all add: k2)
qed

lemma scheduler_scan_ok:
  assumes ok: "sched_ok c s"
  obtains (None) "scheduler_scan c n s = Ret None (rel_st c Lptable s)"
    | (Some) i k v w where
      "scheduler_scan c n s = Ret (Some i) (upd_proc i (\<lambda>p. p\<lparr>state := RUNNING\<rparr>) (s\<lparr>cpus := (cpus s)[c := k], tr := v, cr3 := w\<rparr>))"
      "apicid k = apicid (cpus s ! c)" "ncli k = 1" "cproc k = Some i" "i < length (procs s)" "state (procs s ! i) = RUNNABLE"
proof (cases "scan (\<lambda>p. state p = RUNNABLE) (drop n (procs s))")
  case N: None
  have "release Lptable s = Ret () (rel_st c Lptable s)" using ok by (intro release_ok) (simp_all add: sched_ok_def)
  then show ?thesis using N None by (simp add: scheduler_scan_def)
next
  case S: (Some j)
  let ?s = "upd_cpu c (\<lambda>k. k\<lparr>cproc := Some (n + j)\<rparr>) s"
  have j: "n + j < length (procs s)" "state (procs s ! (n + j)) = RUNNABLE" using scan_Some [OF S] by auto
  then have p: "kstack (procs ?s ! (n + j)) \<noteq> 0" "pgdir (procs ?s ! (n + j)) \<noteq> 0"
    using ok nth_mem [OF j(1)] by (simp_all add: sched_ok_def upd_cpu_def)
  have c: "c < length (cpus s)" by (rule sched_okD(3) [OF ok])
  have o: "cpu_ok c ?s" "0 < ncli (cpus ?s ! c)" using ok c by (simp_all add: sched_ok_def cpu_ok_def upd_cpu_def)
  obtain k v where k: "switchuvm (Some (n + j)) ?s = Ret () (?s\<lparr>cpus := (cpus ?s)[c := k], tr := v, cr3 := V2P (pgdir (procs ?s ! (n + j)))\<rparr>)"
      "apicid k = apicid (cpus ?s ! c)" "ncli k = ncli (cpus ?s ! c)" "cproc k = cproc (cpus ?s ! c)"
    using o p by (rule switchuvm_ok)
  have "scheduler_scan c n s = Ret (Some (n + j)) (upd_proc (n + j) (\<lambda>p. p\<lparr>state := RUNNING\<rparr>)
      (s\<lparr>cpus := (cpus s)[c := k], tr := v, cr3 := V2P (pgdir (procs ?s ! (n + j)))\<rparr>))"
    using S k(1) by (simp add: scheduler_scan_def scheduler_run_def Let_def) (simp add: upd_cpu_def)
  then show ?thesis using Some k(2-4) c j ok by (simp add: upd_cpu_def sched_ok_def)
qed

text \<open>
  A round of the loop of the scheduler of processor \<open>c\<close>, with what happens between the switch to a process \<open>i\<close>
  and the switch back as a function \<open>run i\<close> of the state. The result has the processes that ran, in order; it
  is \<open>None\<close> if the round does not end or panics.
\<close>

partial_function (option) scheduler_rest ::
  "(nat \<Rightarrow> 'a ptable_scheme \<Rightarrow> 'a ptable_scheme) \<Rightarrow> nat \<Rightarrow> nat option \<Rightarrow> 'a ptable_scheme \<Rightarrow> (nat list \<times> 'a ptable_scheme) option" where
  "scheduler_rest run c r s =
     (case r of
        None \<Rightarrow> Some ([], s)
      | Some i \<Rightarrow>
          (case scheduler_continue c i (run i s) of
             Ret r s \<Rightarrow> Option.bind (scheduler_rest run c r s) (\<lambda>(ran, s). Some (i # ran, s))
           | _ \<Rightarrow> None))"

definition scheduler_cycle ::
  "(nat \<Rightarrow> 'a ptable_scheme \<Rightarrow> 'a ptable_scheme) \<Rightarrow> nat \<Rightarrow> 'a ptable_scheme \<Rightarrow> (nat list \<times> 'a ptable_scheme) option" where
  "scheduler_cycle run c s = (case scheduler_round c s of Ret r s \<Rightarrow> scheduler_rest run c r s | _ \<Rightarrow> None)"

text \<open>
  What the scheduler relies on: a process that runs comes back with the lock of the table held, as the comment
  in \<open>scheduler\<close> says.
\<close>

definition comes_back :: "nat \<Rightarrow> (nat \<Rightarrow> 'a ptable_scheme \<Rightarrow> 'a ptable_scheme) \<Rightarrow> bool" where
  "comes_back c run \<longleftrightarrow> (\<forall>i s. sched_ok c s \<and> i < length (procs s) \<and> state (procs s ! i) = RUNNING \<longrightarrow>
     sched_ok c (run i s) \<and> length (procs (run i s)) = length (procs s))"

definition leaves_runnable :: "nat \<Rightarrow> (nat \<Rightarrow> 'a ptable_scheme \<Rightarrow> 'a ptable_scheme) \<Rightarrow> bool" where
  "leaves_runnable k run \<longleftrightarrow> (\<forall>i s. i \<noteq> k \<and> state (procs s ! k) = RUNNABLE \<longrightarrow> state (procs (run i s) ! k) = RUNNABLE)"

lemma scheduler_back_procs [simp]: "procs (scheduler_back c s) = procs s"
  by (simp add: scheduler_back_def switchkvm_def upd_cpu_def)

lemma scheduler_scan_running:
  assumes "sched_ok c s" "scheduler_scan c n s = Ret (Some i) s'"
  shows "sched_ok c s'"
  using assms(1)
proof (cases rule: scheduler_scan_ok [of c s n])
  case (Some j k v w)
  note c = sched_okD(3) [OF assms(1)] and th = sched_okD(2) [OF assms(1)]
  have "this_cpu s' = Some c" using Some(1,2) assms(2) th by (subst this_cpu_cong [of s' s]) (auto simp: upd_proc_def)
  moreover have "state p = RUNNABLE \<longrightarrow> kstack p \<noteq> 0 \<and> pgdir p \<noteq> 0" if "p \<in> set (procs s')" for p
    using that Some(1,5) assms set_update_subset_insert [of "procs s" j "(procs s ! j)\<lparr>state := RUNNING\<rparr>"]
    by (auto simp: upd_proc_def sched_ok_def)
  ultimately show ?thesis using assms Some(1,3) c by (auto simp: sched_ok_def cpu_ok_def lock_held_def upd_proc_def)
qed (use assms(2) in simp)

lemma sched_ok_back:
  assumes "sched_ok c s"
  shows "sched_ok c (scheduler_back c s)"
proof -
  have "c < length (cpus s)" by (rule sched_okD(3) [OF assms])
  moreover have "this_cpu (scheduler_back c s) = Some c"
    using sched_okD(2) [OF assms] by (subst this_cpu_cong [of _ s]) (simp_all add: scheduler_back_def switchkvm_def upd_cpu_def)
  ultimately show ?thesis using assms by (auto simp: sched_ok_def cpu_ok_def lock_held_def scheduler_back_def switchkvm_def upd_cpu_def)
qed

text \<open>The rest of a round, after a scan from entry \<open>n\<close> on.\<close>

lemma scheduler_rest_ends:
  assumes cb: "comes_back c run" and "sched_ok c s" "scheduler_scan c n s = Ret r s1"
  shows "\<exists>ran s'. scheduler_rest run c r s1 = Some (ran, s') \<and> sorted_wrt (<) ran \<and> set ran \<subseteq> {n..<length (procs s)} \<and>
    lock_free Lptable s' \<and>
    (\<forall>k. n \<le> k \<and> k < length (procs s) \<and> state (procs s ! k) = RUNNABLE \<and> leaves_runnable k run \<longrightarrow> k \<in> set ran)"
  using assms(2-)
proof (induction "length (procs s) - n" arbitrary: n s r s1 rule: less_induct)
  case less
  show ?case
  proof (cases r)
    case None
    then have "s1 = rel_st c Lptable s" using scheduler_scan_ok [OF less.prems(1), of n] less.prems(2) by fastforce
    moreover have "lock_free Lptable (rel_st c Lptable s)" by (simp add: lock_free_def)
    moreover have "scheduler_rest run c None s1 = Some ([], s1)" by (subst scheduler_rest.simps) simp
    ultimately show ?thesis using scheduler_scan_None less.prems(2) unfolding None by fastforce
  next
    case (Some i)
    note sc = scheduler_scan_Some [OF less.prems(2) [unfolded Some]]
    have ok1: "sched_ok c s1"
      using scheduler_scan_running [OF less.prems(1)] less.prems(2) Some by blast
    let ?s2 = "run i s1"
    have ok2: "sched_ok c ?s2" "length (procs ?s2) = length (procs s)"
      using cb ok1 sc(2,4,7) unfolding comes_back_def by auto
    let ?b = "scheduler_back c ?s2"
    have b: "sched_ok c ?b" "length (procs ?b) - Suc i < length (procs s) - n" using sched_ok_back [OF ok2(1)] ok2(2) sc(1,2) by simp_all
    obtain r3 s3 where s3: "scheduler_continue c i ?s2 = Ret r3 s3"
      unfolding scheduler_continue_def using scheduler_scan_ok [OF b(1), of "Suc i"] by metis
    then obtain ran s' where ih: "scheduler_rest run c r3 s3 = Some (ran, s')" "sorted_wrt (<) ran" "set ran \<subseteq> {Suc i..<length (procs s)}"
        "lock_free Lptable s'" "\<forall>k. Suc i \<le> k \<and> k < length (procs s) \<and> state (procs ?b ! k) = RUNNABLE \<and> leaves_runnable k run \<longrightarrow> k \<in> set ran"
      using less.hyps [OF b(2,1), of r3 s3] ok2(2) by (auto simp: scheduler_continue_def)
    have "scheduler_rest run c r s1 = Some (i # ran, s')"
      unfolding Some by (subst scheduler_rest.simps) (simp add: s3 ih(1))
    moreover have "sorted_wrt (<) (i # ran)" "set (i # ran) \<subseteq> {n..<length (procs s)}" using ih(2,3) sc(1,2) by auto
    moreover have "k \<in> set (i # ran)" if k: "n \<le> k" "k < length (procs s)" "state (procs s ! k) = RUNNABLE" "leaves_runnable k run" for k
    proof (cases "k = i")
      case False
      then have "i < k" using sc(5) [of k] k(1,3) by (metis linorder_neqE_nat)
      moreover have "state (procs ?b ! k) = RUNNABLE" using k(3,4) False sc(6) [of k] by (simp add: leaves_runnable_def)
      ultimately show ?thesis using ih(5) k(2,4) by simp
    qed simp
    ultimately show ?thesis using ih(4) by blast
  qed
qed

section \<open>Process ids\<close>

text \<open>The routines below the process table do not touch it.\<close>

definition psame :: "'a ptable_scheme \<Rightarrow> 'a ptable_scheme \<Rightarrow> bool" where
  "psame s s' \<longleftrightarrow> procs s' = procs s \<and> nextpid s' = nextpid s"

lemma psame_simps [simp]:
  "psame s s" "psame s (s'\<lparr>mem := m\<rparr>) = psame s s'" "psame s (s'\<lparr>freelist := f\<rparr>) = psame s s'"
  "psame s (upd_lock l g s') = psame s s'" "psame s (upd_cpu c h s') = psame s s'"
  "psame (s\<lparr>mem := m\<rparr>) s' = psame s s'" "psame (s\<lparr>freelist := f\<rparr>) s' = psame s s'"
  by (simp_all add: psame_def upd_lock_def upd_cpu_def)

lemma psame_trans: "psame s s' \<Longrightarrow> psame s' s'' \<Longrightarrow> psame s s''"
  by (simp add: psame_def)

text \<open>
  A part \<open>f\<close> of the state that the interrupt flag, the processors and the locks do not belong to is
  kept by the synchronisation routines.
\<close>

locale sync_frame =
  fixes f :: "'a machine_scheme \<Rightarrow> 'b"
  assumes keeps_IF: "f (s\<lparr>IF := i\<rparr>) = f s"
    and keeps_cpus: "f (s\<lparr>cpus := a\<rparr>) = f s"
    and keeps_locks: "f (s\<lparr>locks := k\<rparr>) = f s"
begin

lemma mycpu_keeps: "mycpu s = Ret c s' \<Longrightarrow> s' = s"
  by (auto simp: mycpu_def split: if_splits option.splits)

lemma pushcli_keeps: "pushcli s = Ret r s' \<Longrightarrow> f s' = f s"
  by (auto simp: pushcli_def Let_def upd_cpu_def cli_def keeps_IF keeps_cpus elim!: bnd_RetE dest!: mycpu_keeps)

lemma popcli_keeps: "popcli s = Ret r s' \<Longrightarrow> f s' = f s"
  by (auto simp: popcli_def Let_def upd_cpu_def sti_def keeps_IF keeps_cpus elim!: bnd_RetE dest!: mycpu_keeps split: if_splits)

lemma holding_keeps: "holding l s = Ret r s' \<Longrightarrow> f s' = f s"
  by (auto simp: holding_def Let_def elim!: bnd_RetE dest!: mycpu_keeps pushcli_keeps popcli_keeps)

lemma myproc_keeps: "myproc s = Ret r s' \<Longrightarrow> f s' = f s"
  by (auto simp: myproc_def Let_def elim!: bnd_RetE dest!: mycpu_keeps pushcli_keeps popcli_keeps)

lemma acquire_keeps: "acquire l s = Ret r s' \<Longrightarrow> f s' = f s"
  by (auto simp: acquire_def acq_enter_def acq_record_def xchg_locked_def Let_def upd_lock_def keeps_locks elim!: bnd_RetE
      dest!: mycpu_keeps pushcli_keeps holding_keeps split: if_splits)

lemma release_keeps: "release l s = Ret r s' \<Longrightarrow> f s' = f s"
  by (auto simp: release_def rel_clear_def rel_unlock_def Let_def upd_lock_def keeps_locks elim!: bnd_RetE
      dest!: popcli_keeps holding_keeps split: if_splits)

end

interpretation pt: sync_frame "\<lambda>s. (procs s, nextpid s)"
  by unfold_locales simp_all

lemma acquire_psame: "acquire l s = Ret r s' \<Longrightarrow> psame s s'"
  using pt.acquire_keeps by (auto simp: psame_def)

lemma release_psame: "release l s = Ret r s' \<Longrightarrow> psame s s'"
  using pt.release_keeps by (auto simp: psame_def)

lemma myproc_psame: "myproc s = Ret r s' \<Longrightarrow> psame s s'"
  using pt.myproc_keeps by (auto simp: psame_def)

lemma kalloc_psame: "kalloc s = Ret r s' \<Longrightarrow> psame s s'"
  by (auto simp: kalloc_def Let_def elim!: bnd_RetE dest!: acquire_psame release_psame split: if_splits list.splits simp: psame_def)

lemma kfree_psame: "kfree v s = Ret r s' \<Longrightarrow> psame s s'"
  by (auto simp: kfree_def Let_def elim!: bnd_RetE dest!: acquire_psame release_psame split: if_splits list.splits simp: psame_def)

lemma walkpgdir_psame: "walkpgdir d va al s = Ret r s' \<Longrightarrow> psame s s'"
  by (auto simp: walkpgdir_def Let_def elim!: bnd_RetE dest!: kalloc_psame split: if_splits)

lemma deallocuvm_loop_psame: "deallocuvm_loop n d a old s = Ret r s' \<Longrightarrow> psame s s'"
proof (induction n arbitrary: a s r)
  case 0
  then show ?case by (simp split: if_splits)
next
  case (Suc n)
  from Suc.prems show ?case
    by (auto simp: Let_def psame_def elim!: bnd_RetE dest!: Suc.IH walkpgdir_psame kfree_psame split: if_splits)
qed

lemma mfor_psame:
  assumes "\<And>x s r s'. f x s = Ret r s' \<Longrightarrow> psame s s'"
  shows "mfor f xs s = Ret r s' \<Longrightarrow> psame s s'"
  by (induction xs arbitrary: s) (auto elim!: bnd_RetE dest!: assms intro: psame_trans)

lemma freevm_psame: "freevm d s = Ret r s' \<Longrightarrow> psame s s'"
  by (auto simp: freevm_def deallocuvm_def Let_def psame_def elim!: bnd_RetE
      dest!: deallocuvm_loop_psame kfree_psame mfor_psame [rotated] split: if_splits)

text \<open>
  The invariant: the ids of the slots in use are positive, below \<open>nextpid\<close> and pairwise
  different. A slot that is \<open>UNUSED\<close> may keep an old id.
\<close>

definition pid_inv :: "'a ptable_scheme \<Rightarrow> bool" where
  "pid_inv s \<longleftrightarrow> 1 \<le> nextpid s \<and>
     (\<forall>i < length (procs s). state (procs s ! i) \<noteq> UNUSED \<longrightarrow> 1 \<le> pid (procs s ! i) \<and> pid (procs s ! i) < nextpid s) \<and>
     (\<forall>i < length (procs s). \<forall>j < length (procs s). state (procs s ! i) \<noteq> UNUSED \<longrightarrow> state (procs s ! j) \<noteq> UNUSED \<longrightarrow>
        pid (procs s ! i) = pid (procs s ! j) \<longrightarrow> i = j)"

text \<open>Steps that take no slot into use and leave the ids of the slots in use alone keep it.\<close>

definition pid_le :: "'a ptable_scheme \<Rightarrow> 'a ptable_scheme \<Rightarrow> bool" where
  "pid_le s s' \<longleftrightarrow> nextpid s' = nextpid s \<and> length (procs s') = length (procs s) \<and>
     (\<forall>i < length (procs s). state (procs s' ! i) \<noteq> UNUSED \<longrightarrow>
        state (procs s ! i) \<noteq> UNUSED \<and> pid (procs s' ! i) = pid (procs s ! i))"

lemma pid_inv_le: "pid_inv s \<Longrightarrow> pid_le s s' \<Longrightarrow> pid_inv s'"
  by (simp add: pid_inv_def pid_le_def)

lemma pid_le_refl [simp]: "pid_le s s"
  by (simp add: pid_le_def)

lemma pid_le_trans: "pid_le s s' \<Longrightarrow> pid_le s' s'' \<Longrightarrow> pid_le s s''"
  by (simp add: pid_le_def)

lemma psame_pid_le: "psame s s' \<Longrightarrow> pid_le s s'"
  by (simp add: pid_le_def psame_def)

lemma pid_le_upd:
  assumes "state (f (procs s ! i)) \<noteq> UNUSED \<Longrightarrow> pid (f (procs s ! i)) = pid (procs s ! i) \<and> state (procs s ! i) \<noteq> UNUSED"
  shows "pid_le s (upd_proc i f s)"
  unfolding pid_le_def
proof (intro conjI allI impI)
  fix j
  assume j: "j < length (procs s)" and u: "state (procs (upd_proc i f s) ! j) \<noteq> UNUSED"
  show "state (procs s ! j) \<noteq> UNUSED" "pid (procs (upd_proc i f s) ! j) = pid (procs s ! j)"
    using assms u j by (cases "i = j"; simp add: upd_proc_def)+
qed (simp_all add: upd_proc_def)

lemma with_myproc_RetE:
  assumes "with_myproc s f = Ret r s'"
  obtains i t where "psame s t" and "f i t = Ret r s'"
  using assms by (auto simp: with_myproc_def elim!: bnd_RetE dest!: myproc_psame split: option.splits)

lemma wakeup_pid_le: "wakeup ch s = Ret r s' \<Longrightarrow> pid_le s s'"
  by (auto simp: wakeup_unfold wakeup1_def Let_def pid_le_def psame_def elim!: bnd_RetE
      dest!: acquire_psame release_psame split: if_splits)

lemma pid_le_lock:
  assumes "acquire Lptable s = Ret r t" and "pid_le t t'" and "release Lptable t' = Ret r' s'"
  shows "pid_le s s'"
  using assms by (meson acquire_psame release_psame psame_pid_le pid_le_trans)

lemma kill_pid_le:
  assumes "kill n s = Ret r s'"
  shows "pid_le s s'"
proof -
  obtain u t where a: "acquire Lptable s = Ret u t"
    and b: "(case scan (\<lambda>p. pid p = n) (procs t) of
       Some i \<Rightarrow>
         let s = upd_proc i (\<lambda>p. p\<lparr>killed := True\<rparr>) t;
             s = (if state (procs s ! i) = SLEEPING then upd_proc i (\<lambda>p. p\<lparr>state := RUNNABLE\<rparr>) s else s)
         in bnd (release Lptable s) (\<lambda>_ s. Ret 0 s)
     | None \<Rightarrow> bnd (release Lptable t) (\<lambda>_ s. Ret (-1) s)) = Ret r s'"
    using assms by (auto simp: kill_def elim!: bnd_RetE)
  show ?thesis
  proof (cases "scan (\<lambda>p. pid p = n) (procs t)")
    case None
    then show ?thesis using a b by (auto elim!: bnd_RetE intro: pid_le_lock [OF _ pid_le_refl])
  next
    case (Some i)
    let ?k = "upd_proc i (\<lambda>p. p\<lparr>killed := True\<rparr>) t"
    have k: "pid_le t ?k" by (rule pid_le_upd) simp
    have w: "state (procs ?k ! i) = SLEEPING \<Longrightarrow> pid_le t (upd_proc i (\<lambda>p. p\<lparr>state := RUNNABLE\<rparr>) ?k)"
      by (rule pid_le_trans [OF k]) (rule pid_le_upd; simp)
    show ?thesis using a b Some k w
      by (auto simp: Let_def elim!: bnd_RetE intro: pid_le_lock split: if_splits)
  qed
qed

lemma reap_pid_le:
  assumes "reap i s = Ret r s'"
  shows "pid_le s s'"
proof -
  let ?z = "\<lambda>p. p\<lparr>pid := 0, parent := None, pname := (pname p)[0 := 0], killed := False, state := UNUSED\<rparr>"
  obtain t1 t2 u3 where k: "psame s t1" and f: "psame (upd_proc i (\<lambda>p. p\<lparr>kstack := 0\<rparr>) t1) t2"
    and rl: "release Lptable (upd_proc i ?z t2) = Ret u3 s'"
    using assms by (auto simp: reap_def Let_def elim!: bnd_RetE dest!: kfree_psame freevm_psame)
  have 1: "pid_le t1 (upd_proc i (\<lambda>p. p\<lparr>kstack := 0\<rparr>) t1)" by (rule pid_le_upd) simp
  have 2: "pid_le t2 (upd_proc i ?z t2)" by (rule pid_le_upd) simp
  show ?thesis
    using k 1 f 2 release_psame [OF rl] by (meson psame_pid_le pid_le_trans)
qed

lemma wait_pid_le:
  assumes "wait s = Ret r s'"
  shows "pid_le s s'"
proof -
  obtain cur t where "psame s t" "bnd (acquire Lptable t) (\<lambda>_ s. wait_loop cur s) = Ret r s'"
    using assms unfolding wait_def by (rule with_myproc_RetE)
  then show ?thesis
    by (auto simp: wait_loop_def sleep_on_def psame_def pid_le_def elim!: bnd_RetE
        dest!: acquire_psame release_psame reap_pid_le split: option.splits if_splits)
qed

lemma waitForProcess_pid_le:
  assumes "waitForProcess n s = Ret r s'"
  shows "pid_le s s'"
proof -
  obtain cur t where "psame s t" "bnd (acquire Lptable t) (\<lambda>_ s. waitForProcess_loop cur n s) = Ret r s'"
    using assms unfolding waitForProcess_def by (rule with_myproc_RetE)
  then show ?thesis
    by (auto simp: waitForProcess_loop_def sleep_on_def psame_def pid_le_def elim!: bnd_RetE
        dest!: acquire_psame release_psame reap_pid_le split: option.splits if_splits)
qed

lemma switchuvm_psame: "switchuvm po s = Ret r s' \<Longrightarrow> psame s s'"
  by (auto simp: switchuvm_def Let_def psame_def upd_cpu_def elim!: bnd_RetE
      dest!: pt.mycpu_keeps pt.pushcli_keeps pt.popcli_keeps split: option.splits if_splits)

lemma scheduler_scan_pid_le:
  assumes "scheduler_scan c n s = Ret r s'"
  shows "pid_le s s'"
proof (cases "scan (\<lambda>p. state p = RUNNABLE) (drop n (procs s))")
  case None
  then show ?thesis
    using assms by (auto simp: scheduler_scan_def elim!: bnd_RetE dest!: release_psame intro: psame_pid_le)
next
  case (Some k)
  then obtain t where t: "switchuvm (Some (n + k)) (upd_cpu c (\<lambda>x. x\<lparr>cproc := Some (n + k)\<rparr>) s) = Ret () t"
    and s': "s' = upd_proc (n + k) (\<lambda>p. p\<lparr>state := RUNNING\<rparr>) t"
    using assms by (auto simp: scheduler_scan_def scheduler_run_def Let_def elim!: bnd_RetE)
  have "psame s t" using switchuvm_psame [OF t] by (simp add: psame_def upd_cpu_def)
  moreover have "state (procs s ! (n + k)) = RUNNABLE"
    using scan_Some [OF Some] by auto
  ultimately show ?thesis
    unfolding s' by (intro pid_le_trans [OF psame_pid_le pid_le_upd]) (auto simp: psame_def)
qed

text \<open>\<open>allocproc\<close> gives the slot it takes the next id, and advances \<open>nextpid\<close>.\<close>

lemma pid_inv_fresh:
  assumes inv: "pid_inv s" and i: "i < length (procs s)" and u: "state (procs s ! i) = UNUSED"
    and n: "nextpid s' = nextpid s + 1" and l: "length (procs s') = length (procs s)"
    and o: "\<forall>j < length (procs s). j \<noteq> i \<longrightarrow> procs s' ! j = procs s ! j"
    and p: "state (procs s' ! i) = UNUSED \<or> pid (procs s' ! i) = nextpid s"
  shows "pid_inv s'"
proof -
  have b: "\<And>j. j < length (procs s) \<Longrightarrow> j \<noteq> i \<Longrightarrow> state (procs s' ! j) \<noteq> UNUSED \<Longrightarrow> 1 \<le> pid (procs s' ! j) \<and> pid (procs s' ! j) < nextpid s"
    and d: "\<And>j k. j < length (procs s) \<Longrightarrow> k < length (procs s) \<Longrightarrow> j \<noteq> i \<Longrightarrow> k \<noteq> i \<Longrightarrow> state (procs s' ! j) \<noteq> UNUSED \<Longrightarrow>
      state (procs s' ! k) \<noteq> UNUSED \<Longrightarrow> pid (procs s' ! j) = pid (procs s' ! k) \<Longrightarrow> j = k"
    and g: "1 \<le> nextpid s"
    using inv o by (simp_all add: pid_inv_def)
  show ?thesis
    unfolding pid_inv_def n l
  proof (intro conjI allI impI)
    fix j k
    assume "j < length (procs s)" "k < length (procs s)" "state (procs s' ! j) \<noteq> UNUSED"
      "state (procs s' ! k) \<noteq> UNUSED" "pid (procs s' ! j) = pid (procs s' ! k)"
    then show "j = k" using b [of j] b [of k] d [of j k] p by (cases "j = i"; cases "k = i"; auto)
  next
    fix j assume "j < length (procs s)" "state (procs s' ! j) \<noteq> UNUSED"
    then show "1 \<le> pid (procs s' ! j)" "pid (procs s' ! j) < nextpid s + 1"
      using b [of j] p g by (cases "j = i"; auto)+
  qed (use g in simp)
qed

lemma allocproc_pid_inv:
  assumes inv: "pid_inv s" and a: "allocproc s = Ret r s'" and b: "nextpid s < 2 ^ 31 - 1"
  shows "pid_inv s'"
proof -
  obtain t where t1: "acquire Lptable s = Ret () t"
    using a by (auto simp: allocproc_def elim!: bnd_RetE)
  note t = t1 acquire_psame [OF t1]
  show ?thesis
  proof (cases "scan (\<lambda>p. state p = UNUSED) (procs t)")
    case None
    then have "psame t s'"
      using a t by (auto simp: allocproc_def elim!: bnd_RetE dest: release_psame)
    with t show ?thesis using inv by (simp add: psame_def pid_inv_def)
  next
    case (Some i)
    have i: "i < length (procs s)" "state (procs s ! i) = UNUSED"
      using scan_Some [OF Some] t by (auto simp: psame_def)
    let ?t = "upd_proc i (\<lambda>p. p\<lparr>counter := replicate 100 0\<rparr>)
      ((upd_proc i (\<lambda>p. p\<lparr>pid := nextpid t\<rparr>) (upd_proc i (\<lambda>p. p\<lparr>state := EMBRYO\<rparr>) t))\<lparr>nextpid := c_int (nextpid t + 1)\<rparr>)"
    obtain t2 t3 k where r: "release Lptable ?t = Ret () t2" "kalloc t2 = Ret k t3"
      and s': "nextpid s' = nextpid t3" "length (procs s') = length (procs t3)" "\<forall>j. j \<noteq> i \<longrightarrow> procs s' ! j = procs t3 ! j"
        "i < length (procs t3) \<longrightarrow> state (procs s' ! i) = UNUSED \<or> pid (procs s' ! i) = pid (procs t3 ! i)"
      using a t Some by (auto simp: allocproc_def Let_def upd_proc_def elim!: bnd_RetE split: if_splits)
    have "psame ?t t3"
      using release_psame [OF r(1)] kalloc_psame [OF r(2)] by (rule psame_trans)
    moreover have "c_int (nextpid s + 1) = nextpid s + 1"
      using inv b by (simp add: c_int_def pid_inv_def signed_take_bit_int_eq_self)
    ultimately have "nextpid s' = nextpid s + 1" "length (procs s') = length (procs s)"
      "\<forall>j < length (procs s). j \<noteq> i \<longrightarrow> procs s' ! j = procs s ! j"
      "state (procs s' ! i) = UNUSED \<or> pid (procs s' ! i) = nextpid s"
      using s' i t by (auto simp: psame_def upd_proc_def)
    with inv i show ?thesis by (rule pid_inv_fresh)
  qed
qed

text \<open>
  The histories of the table under the operations of \<open>proc.c\<close>, on whatever processor they
  run. The bound on \<open>nextpid\<close> is what \<open>nextpid++\<close> needs not to overflow.
\<close>

inductive preach :: "'a ptable_scheme \<Rightarrow> 'a ptable_scheme \<Rightarrow> bool" for s0 where
  preach_init: "preach s0 s0"
| preach_sync: "preach s0 s \<Longrightarrow> psame s s' \<Longrightarrow> preach s0 s'"
| preach_alloc: "preach s0 s \<Longrightarrow> nextpid s < 2 ^ 31 - 1 \<Longrightarrow> allocproc s = Ret r s' \<Longrightarrow> preach s0 s'"
| preach_kill: "preach s0 s \<Longrightarrow> kill n s = Ret k s' \<Longrightarrow> preach s0 s'"
| preach_wakeup: "preach s0 s \<Longrightarrow> wakeup ch s = Ret u s' \<Longrightarrow> preach s0 s'"
| preach_wait: "preach s0 s \<Longrightarrow> wait s = Ret k s' \<Longrightarrow> preach s0 s'"
| preach_waitFor: "preach s0 s \<Longrightarrow> waitForProcess n s = Ret k s' \<Longrightarrow> preach s0 s'"
| preach_scan: "preach s0 s \<Longrightarrow> scheduler_scan c j s = Ret po s' \<Longrightarrow> preach s0 s'"
| preach_state: "preach s0 s \<Longrightarrow> state (procs s ! i) \<noteq> UNUSED \<Longrightarrow> preach s0 (upd_proc i (\<lambda>p. p\<lparr>state := st\<rparr>) s)"

lemma preach_pid_inv:
  assumes "preach s0 s" and "pid_inv s0"
  shows "pid_inv s"
  using assms(1)
proof induction
  case (preach_state s i st)
  then show ?case
    by (auto intro!: pid_inv_le [OF _ pid_le_upd])
qed (use assms(2) in \<open>blast intro: pid_inv_le psame_pid_le kill_pid_le wakeup_pid_le wait_pid_le
  waitForProcess_pid_le scheduler_scan_pid_le allocproc_pid_inv\<close>)+

section \<open>Properties\<close>

text \<open>
  C15. The scheduler is fair to the processes that are runnable when a round starts. A round starts with a processor
  that holds no lock, the lock of the table free, and every runnable process with a kernel stack and a page
  directory; whatever a process does between the switch to it and the switch back, it comes back with the lock of
  the table, and nothing else, held. Then the round ends without a panic, with the lock free; it goes through the
  table once, so that no process runs twice; and it runs every process that was runnable at the start, unless
  another process took it out of that state before its turn.
\<close>

theorem scheduler_round_runs_all:
  assumes "cpu_ok c s" and "ncli (cpus s ! c) = 0" and "lock_free Lptable s"
    and "\<forall>p \<in> set (procs s). state p = RUNNABLE \<longrightarrow> kstack p \<noteq> 0 \<and> pgdir p \<noteq> 0" and "comes_back c run"
  shows "\<exists>ran s'. scheduler_cycle run c s = Some (ran, s') \<and> lock_free Lptable s' \<and>
    sorted_wrt (<) ran \<and> set ran \<subseteq> {..<length (procs s)} \<and>
    (\<forall>k<length (procs s). state (procs s ! k) = RUNNABLE \<and> leaves_runnable k run \<longrightarrow> k \<in> set ran)"
proof -
  let ?s = "acq_st c Lptable (sti s)"
  have i: "cpu_ok c (sti s)" "lock_free Lptable (sti s)" using assms(1-3) by (simp_all add: cpu_ok_def sti_def lock_free_def)
  have p: "procs ?s = procs s" by (simp add: acq_st_def push_st_def upd_lock_def sti_def)
  have ok: "sched_ok c ?s"
    using acq_st_facts [OF i(1), of Lptable] assms(2,4) by (simp add: sched_ok_def p) (simp add: sti_def)
  obtain r s1 where s1: "scheduler_scan c 0 ?s = Ret r s1" using scheduler_scan_ok [OF ok, of 0] by metis
  have "scheduler_cycle run c s = scheduler_rest run c r s1"
    using s1 by (simp add: scheduler_cycle_def scheduler_round_def acquire_ok [OF i])
  then show ?thesis using scheduler_rest_ends [OF assms(5) ok s1] by (auto simp: p atLeast0LessThan)
qed

text \<open>Two runnable processes, each of which goes to sleep when it runs.\<close>

definition ready0 :: "unit console_scheme" where
  "ready0 = (con0 ())\<lparr>cpus := [(cpus (con0 ()) ! 0)\<lparr>cproc := None\<rparr>],
     procs := map (\<lambda>(n, st). (procs (con0 ()) ! 0)\<lparr>pid := n, state := st, kstack := 0x80400000, pgdir := 0x80401000\<rparr>)
       [(1, SLEEPING), (2, RUNNABLE), (3, ZOMBIE), (4, RUNNABLE)]\<rparr>"

definition goes_to_sleep :: "nat \<Rightarrow> unit console_scheme \<Rightarrow> unit console_scheme" where
  "goes_to_sleep i s = upd_proc i (\<lambda>p. p\<lparr>state := SLEEPING\<rparr>) s"

lemma goes_to_sleep_back: "comes_back c goes_to_sleep" "leaves_runnable k goes_to_sleep"
proof -
  have "state p = RUNNABLE \<longrightarrow> kstack p \<noteq> 0 \<and> pgdir p \<noteq> 0"
    if "p \<in> set ((procs s)[i := (procs s ! i)\<lparr>state := SLEEPING\<rparr>])" "sched_ok c s" for p i and s :: "unit console_scheme"
    using that set_update_subset_insert [of "procs s" i "(procs s ! i)\<lparr>state := SLEEPING\<rparr>"] by (auto simp: sched_ok_def)
  then show "comes_back c goes_to_sleep"
    by (auto simp: comes_back_def goes_to_sleep_def sched_ok_def upd_proc_def cpu_ok_def this_cpu_def lock_held_def)
qed (simp add: leaves_runnable_def goes_to_sleep_def upd_proc_def)

theorem scheduler_round_runs_all_witness:
  "\<exists>ran s'. scheduler_cycle goes_to_sleep 0 ready0 = Some (ran, s') \<and> lock_free Lptable s' \<and> sorted_wrt (<) ran \<and> {1, 3} \<subseteq> set ran"
proof -
  have "cpu_ok 0 ready0" "ncli (cpus ready0 ! 0) = 0" "lock_free Lptable ready0"
      "\<forall>p \<in> set (procs ready0). state p = RUNNABLE \<longrightarrow> kstack p \<noteq> 0 \<and> pgdir p \<noteq> 0"
    by (simp_all add: ready0_def con0_def cpu_ok_def this_cpu_def lock_free_def)
  note r = scheduler_round_runs_all [OF this goes_to_sleep_back(1)]
  have "length (procs ready0) = 4" "state (procs ready0 ! 1) = RUNNABLE" "state (procs ready0 ! 3) = RUNNABLE"
    by (simp_all add: ready0_def con0_def)
  then show ?thesis using r goes_to_sleep_back(2) by auto
qed

text \<open>
  C16. Process ids are unique: in every state that the operations of the process table reach from a
  table whose ids are in order, two slots that are in use have different ids, each positive and
  below \<open>nextpid\<close>; as long as \<open>nextpid\<close> does not reach the end of a C \<open>int\<close>.
\<close>

theorem pids_unique:
  assumes "preach s0 s" and "pid_inv s0"
    and "i < length (procs s)" "j < length (procs s)" "state (procs s ! i) \<noteq> UNUSED" "state (procs s ! j) \<noteq> UNUSED"
  shows "1 \<le> pid (procs s ! i) \<and> pid (procs s ! i) < nextpid s \<and> (pid (procs s ! i) = pid (procs s ! j) \<longrightarrow> i = j)"
  using preach_pid_inv [OF assms(1,2)] assms(3-6) by (simp add: pid_inv_def)

definition two0 :: "unit console_scheme" where
  "two0 = (con0 ())\<lparr>nextpid := 3, procs := [procs (con0 ()) ! 0, (procs (con0 ()) ! 0)\<lparr>pid := 2, state := SLEEPING, parent := Some 0\<rparr>]\<rparr>"

lemma two0_kidle: "kidle 0 0 two0"
  by (simp add: two0_def kidle_def con0_def cpu_ok_def this_cpu_def lock_free_def)

text \<open>What \<open>kill\<close> does.\<close>

lemma kill_ok:
  assumes k: "kidle c p s" and i: "scan (\<lambda>r. pid r = n) (procs s) = Some i"
  obtains t where "kill n s = Ret 0 t"
    "qx c {} (upd_proc i (\<lambda>r. r\<lparr>killed := True, state := (if state r = SLEEPING then RUNNABLE else state r)\<rparr>) s) t"
proof -
  let ?f = "\<lambda>r. r\<lparr>killed := True, state := (if state r = SLEEPING then RUNNABLE else state r)\<rparr>"
  obtain t1 where 1: "acquire Lptable s = Ret () t1" "qx c {Lptable} s t1"
    using qx_start [OF kidleD(1) [OF k]] kidleD(2) [OF k] by (rule qx_acquire0)
  have q: "qx c {Lptable} (upd_proc i ?f s) (upd_proc i ?f t1)"
    by (rule qx_upd(1) [OF 1(2)])
  obtain t2 where 2: "release Lptable (upd_proc i ?f t1) = Ret () t2" "qx c {} (upd_proc i ?f s) t2"
    using q by (rule qx_release0)
  let ?k = "upd_proc i (\<lambda>p. p\<lparr>killed := True\<rparr>) t1"
  have il: "i < length (procs t1)" and p1: "procs t1 = procs s"
    using scan_Some [OF i] qx_procs(1) [OF 1(2)] by simp_all
  have "(if state (procs ?k ! i) = SLEEPING then upd_proc i (\<lambda>p. p\<lparr>state := RUNNABLE\<rparr>) ?k else ?k) = upd_proc i ?f t1"
    using il by (simp add: upd_proc_def)
  then have "kill n s = Ret 0 t2"
    using 1(1) 2(1) i p1 by (simp add: kill_def Let_def del: if_split_asm)
  then show ?thesis using 2(2) by (rule that)
qed

theorem pids_unique_witness:
  "\<exists>s. preach two0 s \<and> state (procs s ! 1) = RUNNABLE \<and> 1 \<le> pid (procs s ! 0) \<and> pid (procs s ! 0) < nextpid s \<and>
     (pid (procs s ! 0) = pid (procs s ! 1) \<longrightarrow> (0::nat) = 1)"
proof -
  have sc: "scan (\<lambda>r. pid r = 2) (procs two0) = Some 1"
    by (simp add: two0_def con0_def)
  obtain t where k: "kill 2 two0 = Ret 0 t"
    "qx 0 {} (upd_proc 1 (\<lambda>r. r\<lparr>killed := True, state := (if state r = SLEEPING then RUNNABLE else state r)\<rparr>) two0) t"
    using two0_kidle sc by (rule kill_ok)
  have p: "length (procs t) = 2" "state (procs t ! 0) = RUNNING" "state (procs t ! 1) = RUNNABLE"
    using qx_procs(1) [OF k(2)] by (simp_all add: upd_proc_def two0_def con0_def)
  have r: "preach two0 t"
    using preach_init k(1) by (rule preach_kill)
  have "pid_inv two0"
    by (simp add: pid_inv_def two0_def con0_def less_Suc_eq)
  then show ?thesis
    using pids_unique [OF r, of 0 1] p r by auto
qed

text \<open>
  \<open>kill n\<close> finds the first slot with the id \<open>n\<close>, sets its \<open>killed\<close> flag, makes it runnable if it
  sleeps, touches no other slot and returns 0; with no such slot it changes nothing and returns -1.
\<close>

theorem kill_marks:
  assumes "kidle c p s"
  shows "\<exists>r t. kill n s = Ret r t \<and>
    (case scan (\<lambda>q. pid q = n) (procs s) of
       None \<Rightarrow> r = -1 \<and> procs t = procs s
     | Some i \<Rightarrow> r = 0 \<and> procs t = (procs s)[i := (procs s ! i)\<lparr>killed := True,
         state := (if state (procs s ! i) = SLEEPING then RUNNABLE else state (procs s ! i))\<rparr>])"
proof (cases "scan (\<lambda>q. pid q = n) (procs s)")
  case None
  obtain t1 where 1: "acquire Lptable s = Ret () t1" "qx c {Lptable} s t1"
    using qx_start [OF kidleD(1) [OF assms]] kidleD(2) [OF assms] by (rule qx_acquire0)
  obtain t2 where 2: "release Lptable t1 = Ret () t2" "qx c {} s t2"
    using 1(2) by (rule qx_release0)
  then show ?thesis
    using None 1 qx_procs(1) [OF 1(2)] qx_procs(1) [OF 2(2)] by (simp add: kill_def)
next
  case (Some i)
  obtain t where t: "kill n s = Ret 0 t"
    "qx c {} (upd_proc i (\<lambda>r. r\<lparr>killed := True, state := (if state r = SLEEPING then RUNNABLE else state r)\<rparr>) s) t"
    using assms Some by (rule kill_ok)
  then show ?thesis
    using Some qx_procs(1) [OF t(2)] by (simp add: upd_proc_def)
qed

theorem kill_marks_witness:
  "\<exists>r t. kill 2 two0 = Ret r t \<and> r = 0 \<and> killed (procs t ! 1) \<and> state (procs t ! 1) = RUNNABLE"
  using kill_marks [OF two0_kidle, of 2] by (auto simp: two0_def con0_def)

section \<open>The next prime and the most frequent caller\<close>

definition prime_int :: "int \<Rightarrow> bool" where
  "prime_int p \<longleftrightarrow> 1 < p \<and> (\<forall>d. 1 < d \<longrightarrow> d < p \<longrightarrow> \<not> d dvd p)"

lemma has_divisor_iff: "has_divisor n is \<longleftrightarrow> (\<exists>d \<in> set is. d dvd n)"
  by (induction "is") (auto simp: dvd_eq_mod_eq_0)

lemma no_divisor_prime: "1 < n \<Longrightarrow> \<not> has_divisor n [2..n - 1] \<longleftrightarrow> prime_int n"
  by (force simp: has_divisor_iff prime_int_def)

lemma next_prime_loop_finds:
  assumes "prime_int q" "q < 2 ^ 31" "1 < n" "n \<le> q"
  shows "\<exists>m. next_prime_loop n = Some m \<and> n \<le> m \<and> prime_int m \<and> (\<forall>k. n \<le> k \<longrightarrow> k < m \<longrightarrow> \<not> prime_int k)"
  using assms(3,4)
proof (induction "nat (q - n)" arbitrary: n rule: less_induct)
  case less
  show ?case
  proof (cases "prime_int n")
    case True
    then have "next_prime_loop n = Some n"
      using no_divisor_prime [OF less.prems(1)] by (simp add: next_prime_loop.simps)
    then show ?thesis using True by auto
  next
    case False
    then have "n < q" using assms(1) less.prems(2) by (cases "n = q") auto
    then have c: "c_int (n + 1) = n + 1"
      using assms(2) less.prems(1) by (simp add: c_int_def signed_take_bit_int_eq_self)
    obtain m where m: "next_prime_loop (n + 1) = Some m" "n + 1 \<le> m" "prime_int m" "\<forall>k. n + 1 \<le> k \<longrightarrow> k < m \<longrightarrow> \<not> prime_int k"
      using less.hyps [of "n + 1"] less.prems \<open>n < q\<close> by auto
    have "next_prime_loop n = Some m"
      using False m(1) no_divisor_prime [OF less.prems(1)] by (subst next_prime_loop.simps) (simp add: c)
    moreover have "\<not> prime_int k" if "n \<le> k" "k < m" for k
      using that m(4) False by (cases "k = n") auto
    ultimately show ?thesis using m(2,3) by auto
  qed
qed

text \<open>
  C34. \<open>find_next_prime_number\<close> ends and is right: for a positive \<open>n\<close> below some prime that fits a C
  \<open>int\<close>, its unbounded loop returns the least prime above \<open>n\<close>.
\<close>

theorem find_next_prime_number_correct:
  assumes "1 \<le> n" and "n < q" and "prime_int q" and "q < 2 ^ 31"
  shows "\<exists>m. find_next_prime_number n = Some m \<and> n < m \<and> prime_int m \<and> (\<forall>k. n < k \<longrightarrow> k < m \<longrightarrow> \<not> prime_int k)"
proof -
  have "c_int (n + 1) = n + 1"
    using assms by (simp add: c_int_def signed_take_bit_int_eq_self)
  then show ?thesis
    using next_prime_loop_finds [OF assms(3,4), of "n + 1"] assms(1,2)
    by (simp add: find_next_prime_number_def add1_zle_eq)
qed

lemma prime_11: "prime_int 11"
proof -
  have "\<not> d dvd 11" if "1 < d" "d < 11" for d :: int
  proof -
    have "d = 2 \<or> d = 3 \<or> d = 4 \<or> d = 5 \<or> d = 6 \<or> d = 7 \<or> d = 8 \<or> d = 9 \<or> d = 10"
      using that by presburger
    then show ?thesis by auto
  qed
  then show ?thesis by (simp add: prime_int_def)
qed

theorem find_next_prime_number_correct_witness:
  "\<exists>m. find_next_prime_number 7 = Some m \<and> 7 < m \<and> prime_int m \<and> (\<forall>k. 7 < k \<longrightarrow> k < m \<longrightarrow> \<not> prime_int k)"
  by (rule find_next_prime_number_correct [OF _ _ prime_11]) simp_all

text \<open>For 0 and below it returns a number that is not prime.\<close>

lemma find_next_prime_number_zero: "find_next_prime_number 0 = Some 1"
  by (simp add: find_next_prime_number_def c_int_def next_prime_loop.simps signed_take_bit_int_eq_self)

text \<open>
  \<open>getMostCaller\<close> remembers the number of the call in place of the count, so a later process with
  a smaller count can replace the most frequent caller.
\<close>

lemma getMostCaller_not_maximal:
  "mostCaller_loop 1 0 0 [r\<lparr>pid := 1, counter := [0, 10]\<rparr>, r\<lparr>pid := 2, counter := [0, 5]\<rparr>] = 2"
  by simp

end
