(* ===== verification/Wakeup.thy ===== *)
theory Wakeup
  imports Sched
begin

text \<open>
  Sleep and wakeup on several processors: the comment in \<open>sleep\<close> (proc.c) says that, because it takes the lock of
  the process table before it gives up the caller's lock, no wakeup is missed. Here processes wait for a
  condition that a lock \<open>l\<close> protects, and set it, on any number of processors, with the scheduler of each
  processor choosing what runs; a step of the system is one statement on one processor.

  A process that waits does \<open>acquire(l); while(!cond) sleep(ch, l); cond = 0; release(l)\<close>, as the callers of
  \<open>sleep\<close> in the kernel do; one that signals does \<open>acquire(l); cond = 1; wakeup(ch); release(l)\<close>. The statements
  of \<open>sleep\<close> and \<open>wakeup\<close> are the lists \<open>sleep_steps\<close>, \<open>unsleep_steps\<close> and \<open>wakeup_steps\<close> of Proc.thy.
\<close>

section \<open>The system\<close>

text \<open>
  Where a process is: before its first statement, which releases the lock of the table (\<open>forkret\<close>); ready to start
  over; at the test; at a statement of \<open>sleep\<close> before the switch; at the switch; at a statement after it; at the
  use of the condition; at the setting of it; at a statement of \<open>wakeup\<close>; at the release of \<open>l\<close>.
\<close>

datatype pos = Forked | Ready | Test | Going nat | Switch | Coming nat | Take | Give | Waking nat | Leave

text \<open>What a processor does: look for a process, run one, or go on with the scan after one has switched back.\<close>

datatype mode = Idle | Run nat | After nat

text \<open>
  The kernel's state, the interrupt flag and the mode of each processor, the position of each process with what
  \<open>sched\<close> saved for it, and the condition.
\<close>

record 'a wsys =
  kern :: "'a ptable_scheme"
  iflag :: "nat \<Rightarrow> bool"
  mode :: "nat \<Rightarrow> mode"
  posn :: "nat \<Rightarrow> pos"
  saved :: "nat \<Rightarrow> bool"
  cond :: bool

text \<open>The state as processor \<open>c\<close> sees it, and what it leaves.\<close>

definition wview :: "nat \<Rightarrow> 'a wsys \<Rightarrow> 'a ptable_scheme" where
  "wview c t = (kern t)\<lparr>lapic_id := apicid (cpus (kern t) ! c), IF := iflag t c\<rparr>"

definition wput :: "nat \<Rightarrow> 'a ptable_scheme \<Rightarrow> 'a wsys \<Rightarrow> 'a wsys" where
  "wput c s t = t\<lparr>kern := s, iflag := (iflag t)(c := IF s)\<rparr>"

definition on :: "nat \<Rightarrow> ('a ptable_scheme \<Rightarrow> ('r, 'a ptable_scheme) kres) \<Rightarrow> 'a wsys \<Rightarrow> ('r \<Rightarrow> 'a wsys \<Rightarrow> 'a wsys) \<Rightarrow>
    (unit, 'a wsys) kres" where
  "on c f t g =
     (case f (wview c t) of
        Ret r s \<Rightarrow> Ret () (g r (wput c s t))
      | Panic m \<Rightarrow> Panic m
      | Spin \<Rightarrow> Spin
      | Slp s \<Rightarrow> Slp (wput c s t)
      | Undef m \<Rightarrow> Undef m)"

definition go :: "nat \<Rightarrow> pos \<Rightarrow> 'a wsys \<Rightarrow> 'a wsys" where
  "go i p t = t\<lparr>posn := (posn t)(i := p)\<rparr>"

definition chosen :: "nat \<Rightarrow> nat option \<Rightarrow> 'a wsys \<Rightarrow> 'a wsys" where
  "chosen c r t = t\<lparr>mode := (mode t)(c := (case r of None \<Rightarrow> Idle | Some i \<Rightarrow> Run i))\<rparr>"

text \<open>
  A step of processor \<open>c\<close>; \<open>w\<close> is the choice of a process that starts over, to signal or to wait. A processor
  that spins for a lock makes no step.
\<close>

definition wstep :: "lock \<Rightarrow> chan \<Rightarrow> bool \<Rightarrow> nat \<Rightarrow> 'a wsys \<Rightarrow> (unit, 'a wsys) kres" where
  "wstep l ch w c t =
     (case mode t c of
        Idle \<Rightarrow> on c (scheduler_round c) t (chosen c)
      | After i \<Rightarrow> on c (scheduler_continue c i) t (chosen c)
      | Run i \<Rightarrow>
          (case posn t i of
             Forked \<Rightarrow> on c (release Lptable) t (\<lambda>_. go i Ready)
           | Ready \<Rightarrow> on c (acquire l) t (\<lambda>_. go i (if w then Give else Test))
           | Test \<Rightarrow> on c (Ret ()) t (\<lambda>_ t. go i (if cond t then Take else Going 0) t)
           | Going n \<Rightarrow> on c (sleep_steps ch l i ! n) t
               (\<lambda>_. go i (if Suc n < length (sleep_steps ch l i :: 'a ptable_scheme stmts) then Going (Suc n) else Switch))
           | Switch \<Rightarrow> on c sched_out t
               (\<lambda>b t. (go i (Coming 0) t)\<lparr>saved := (saved t)(i := b), mode := (mode t)(c := After i)\<rparr>)
           | Coming n \<Rightarrow> on c (unsleep_steps l i (saved t i) ! n) t
               (\<lambda>_. go i (if Suc n < length (unsleep_steps l i (saved t i) :: 'a ptable_scheme stmts) then Coming (Suc n) else Test))
           | Take \<Rightarrow> on c (Ret ()) t (\<lambda>_ t. go i Leave (t\<lparr>cond := False\<rparr>))
           | Give \<Rightarrow> on c (Ret ()) t (\<lambda>_ t. go i (Waking 0) (t\<lparr>cond := True\<rparr>))
           | Waking n \<Rightarrow> on c (wakeup_steps ch ! n) t
               (\<lambda>_. go i (if Suc n < length (wakeup_steps ch :: 'a ptable_scheme stmts) then Waking (Suc n) else Leave))
           | Leave \<Rightarrow> on c (release l) t (\<lambda>_. go i Ready)))"

text \<open>
  The initial states: every processor looks for a process, no lock is held, the processes that can run have
  a kernel stack and a page directory, none runs, and if the condition holds then none waits for it.
\<close>

definition winit :: "chan \<Rightarrow> 'a wsys \<Rightarrow> bool" where
  "winit ch t \<longleftrightarrow>
     ncpu (kern t) \<le> length (cpus (kern t)) \<and> distinct (map apicid (take (ncpu (kern t)) (cpus (kern t)))) \<and>
     (\<forall>lk. locked (locks (kern t) lk) = 0) \<and> (\<forall>c<ncpu (kern t). mode t c = Idle \<and> ncli (cpus (kern t) ! c) = 0) \<and>
     (\<forall>i<length (procs (kern t)). state (procs (kern t) ! i) \<in> {RUNNABLE, SLEEPING} \<longrightarrow>
        kstack (procs (kern t) ! i) \<noteq> 0 \<and> pgdir (procs (kern t) ! i) \<noteq> 0 \<and> (posn t i = Forked \<or> posn t i = Coming 0)) \<and>
     (\<forall>i<length (procs (kern t)). state (procs (kern t) ! i) \<noteq> RUNNING) \<and>
     (cond t \<longrightarrow> (\<forall>i<length (procs (kern t)). \<not> (state (procs (kern t) ! i) = SLEEPING \<and> pchan (procs (kern t) ! i) = Some ch)))"

inductive wreach :: "lock \<Rightarrow> chan \<Rightarrow> 'a wsys \<Rightarrow> bool" for l ch where
  wreach_init: "winit ch t \<Longrightarrow> wreach l ch t"
| wreach_step: "wreach l ch t \<Longrightarrow> c < ncpu (kern t) \<Longrightarrow> wstep l ch w c t = Ret () u \<Longrightarrow> wreach l ch u"

section \<open>The invariant\<close>

text \<open>The locks that a process holds at a position, and a processor in a mode.\<close>

fun pos_locks :: "lock \<Rightarrow> pos \<Rightarrow> lock set" where
  "pos_locks l Forked = {Lptable}"
| "pos_locks l Ready = {}"
| "pos_locks l Test = {l}"
| "pos_locks l (Going n) = (if n = 0 then {l} else if n = 1 then {Lptable, l} else {Lptable})"
| "pos_locks l Switch = {Lptable}"
| "pos_locks l (Coming n) = (if n < 3 then {Lptable} else {})"
| "pos_locks l Take = {l}"
| "pos_locks l Give = {l}"
| "pos_locks l (Waking n) = (if n = 0 then {l} else {Lptable, l})"
| "pos_locks l Leave = {l}"

fun pos_ok :: "pos \<Rightarrow> bool" where
  "pos_ok (Going n) = (n < 4)"
| "pos_ok (Coming n) = (n < 4)"
| "pos_ok (Waking n) = (n < 3)"
| "pos_ok p = True"

fun mode_locks :: "lock \<Rightarrow> (nat \<Rightarrow> pos) \<Rightarrow> mode \<Rightarrow> lock set" where
  "mode_locks l ps Idle = {}"
| "mode_locks l ps (After i) = {Lptable}"
| "mode_locks l ps (Run i) = pos_locks l (ps i)"

abbreviation owned :: "lock \<Rightarrow> 'a wsys \<Rightarrow> nat \<Rightarrow> lock set" where
  "owned l t c \<equiv> mode_locks l (posn t) (mode t c)"

text \<open>The locks and the interrupt nesting of each processor agree with where it is.\<close>

definition wsync :: "lock \<Rightarrow> 'a wsys \<Rightarrow> bool" where
  "wsync l t \<longleftrightarrow>
     ncpu (kern t) \<le> length (cpus (kern t)) \<and> distinct (map apicid (take (ncpu (kern t)) (cpus (kern t)))) \<and>
     (\<forall>c<ncpu (kern t). (\<forall>lk. lock_held c lk (kern t) \<longleftrightarrow> lk \<in> owned l t c) \<and>
        ncli (cpus (kern t) ! c) = int (card (owned l t c)) \<and> (owned l t c \<noteq> {} \<longrightarrow> \<not> iflag t c))"

abbreviation runs :: "'a wsys \<Rightarrow> nat \<Rightarrow> nat \<Rightarrow> bool" where
  "runs t c i \<equiv> c < ncpu (kern t) \<and> mode t c = Run i"

text \<open>
  A process that runs does so on one processor, in the state that belongs to its position; one that could run
  has its saved position.
\<close>

definition wprocs :: "'a wsys \<Rightarrow> bool" where
  "wprocs t \<longleftrightarrow>
     (\<forall>c i. runs t c i \<longrightarrow> i < length (procs (kern t)) \<and> cproc (cpus (kern t) ! c) = Some i \<and> pos_ok (posn t i) \<and>
        state (procs (kern t) ! i) = (if posn t i = Switch then SLEEPING else RUNNING) \<and> (\<forall>d. runs t d i \<longrightarrow> d = c)) \<and>
     (\<forall>i<length (procs (kern t)). state (procs (kern t) ! i) \<in> {RUNNABLE, SLEEPING} \<longrightarrow>
        (\<exists>c. runs t c i) \<or> posn t i = Forked \<or> posn t i = Coming 0) \<and>
     (\<forall>i<length (procs (kern t)). state (procs (kern t) ! i) \<in> {RUNNABLE, SLEEPING, RUNNING} \<longrightarrow>
        kstack (procs (kern t) ! i) \<noteq> 0 \<and> pgdir (procs (kern t) ! i) \<noteq> 0)"

text \<open>
  Some process has tested the condition and still holds \<open>l\<close>; some process is about to mark itself as sleeping;
  some process sleeps; some process has set the condition and has its \<open>wakeup1\<close> to come.
\<close>

definition some_at :: "pos set \<Rightarrow> 'a wsys \<Rightarrow> bool" where
  "some_at P t \<longleftrightarrow> (\<exists>c i. runs t c i \<and> posn t i \<in> P)"

definition asleep :: "chan \<Rightarrow> 'a ptable_scheme \<Rightarrow> nat \<Rightarrow> bool" where
  "asleep ch s i \<longleftrightarrow> i < length (procs s) \<and> state (procs s ! i) = SLEEPING \<and> pchan (procs s ! i) = Some ch"

definition tested :: "pos set" where "tested = {Going 0, Going 1}"
definition marking :: "pos set" where "marking = {Going 2, Going 3}"
definition pending :: "pos set" where "pending = {Waking 0, Waking 1}"

definition wcond :: "chan \<Rightarrow> 'a wsys \<Rightarrow> bool" where
  "wcond ch t \<longleftrightarrow>
     (some_at tested t \<longrightarrow> \<not> cond t) \<and>
     (cond t \<and> ((\<exists>i. asleep ch (kern t) i) \<or> some_at marking t) \<longrightarrow> some_at pending t)"

definition winv :: "lock \<Rightarrow> chan \<Rightarrow> 'a wsys \<Rightarrow> bool" where
  "winv l ch t \<longleftrightarrow> wsync l t \<and> wprocs t \<and> wcond ch t"

section \<open>What a step does to the locks\<close>

lemma on_Ret: "f (wview c t) = Ret r s \<Longrightarrow> on c f t g = Ret () (g r (wput c s t))"
  by (simp add: on_def)

lemma on_Spin: "f (wview c t) = Spin \<Longrightarrow> on c f t g = Spin"
  by (simp add: on_def)

lemma wview_fields [simp]:
  "cpus (wview c t) = cpus (kern t)" "locks (wview c t) = locks (kern t)" "procs (wview c t) = procs (kern t)"
  "ncpu (wview c t) = ncpu (kern t)" "IF (wview c t) = iflag t c" "lock_held d lk (wview c t) = lock_held d lk (kern t)"
  "lock_free lk (wview c t) = lock_free lk (kern t)"
  by (simp_all add: wview_def lock_held_def lock_free_def)

lemma wsyncD:
  assumes "wsync l t" "c < ncpu (kern t)"
  shows "c < length (cpus (kern t))" "lock_held c lk (kern t) \<longleftrightarrow> lk \<in> owned l t c"
    "ncli (cpus (kern t) ! c) = int (card (owned l t c))" "owned l t c \<noteq> {} \<Longrightarrow> \<not> iflag t c"
  using assms by (auto simp: wsync_def)

lemma finite_pos_locks [simp]: "finite (pos_locks l p)"
  by (cases p) simp_all

lemma finite_mode_locks [simp]: "finite (mode_locks l ps m)"
  by (cases m) simp_all

lemma wview_ok:
  assumes "wsync l t" "c < ncpu (kern t)"
  shows "cpu_ok c (wview c t)"
proof -
  have "this_cpu (wview c t) = Some c"
    using assms scan_unique [of apicid "take (ncpu (kern t)) (cpus (kern t))" c]
    by (simp add: this_cpu_def wview_def wsync_def)
  moreover have "0 < ncli (cpus (kern t) ! c) \<longrightarrow> \<not> iflag t c" using wsyncD [OF assms] by (cases "owned l t c = {}") simp_all
  ultimately show ?thesis using wsyncD(3) [OF assms] by (simp add: cpu_ok_def)
qed

text \<open>
  Processor \<open>c\<close> ends with the locks \<open>L\<close> and the process \<open>q\<close>, and nothing changes for the other processors.
\<close>

definition lchange :: "nat \<Rightarrow> lock set \<Rightarrow> nat option \<Rightarrow> 'a ptable_scheme \<Rightarrow> 'a ptable_scheme \<Rightarrow> bool" where
  "lchange c L q s s' \<longleftrightarrow>
     ncpu s' = ncpu s \<and>
     (\<exists>k. cpus s' = (cpus s)[c := k] \<and> apicid k = apicid (cpus s ! c) \<and> cproc k = q \<and> ncli k = int (card L)) \<and>
     (\<forall>d lk. d \<noteq> c \<longrightarrow> lock_held d lk s' = lock_held d lk s) \<and> (\<forall>lk. lock_held c lk s' \<longleftrightarrow> lk \<in> L) \<and> (L \<noteq> {} \<longrightarrow> \<not> IF s')"

lemma lchange_acquire:
  assumes ok: "cpu_ok c s" and f: "lock_free lk s" and L: "\<forall>x. lock_held c x s \<longleftrightarrow> x \<in> L" "finite L" "ncli (cpus s ! c) = int (card L)"
  shows "lchange c (insert lk L) (cproc (cpus s ! c)) s (acq_st c lk s)"
proof -
  have n: "lk \<notin> L" using f L(1) by (auto simp: lock_free_def lock_held_def)
  have c: "c < length (cpus s)" using ok this_cpuD(1) cpu_ok_this by blast
  then have "cpus (acq_st c lk s) = (cpus s)[c := cpus (acq_st c lk s) ! c]" by (simp add: acq_st_def push_st_def upd_lock_def)
  moreover from c have "apicid (cpus (acq_st c lk s) ! c) = apicid (cpus s ! c)" "cproc (cpus (acq_st c lk s) ! c) = cproc (cpus s ! c)"
      "ncli (cpus (acq_st c lk s) ! c) = int (card (insert lk L))"
    using n L by (simp_all add: acq_st_def push_st_def upd_lock_def)
  moreover have "lock_held d x (acq_st c lk s) = lock_held d x s" if "d \<noteq> c" for d x
    using f that by (auto simp: lock_held_def lock_free_def)
  moreover have "lock_held c x (acq_st c lk s) \<longleftrightarrow> x \<in> insert lk L" for x using L(1) by (auto simp: lock_held_def)
  ultimately show ?thesis unfolding lchange_def by (auto simp: acq_st_def upd_lock_def)
qed

lemma lchange_release:
  assumes ok: "cpu_ok c s" and L: "\<forall>x. lock_held c x s \<longleftrightarrow> x \<in> L" "finite L" "ncli (cpus s ! c) = int (card L)" and lk: "lk \<in> L"
  shows "release lk s = Ret () (rel_st c lk s)" "lchange c (L - {lk}) (cproc (cpus s ! c)) s (rel_st c lk s)"
proof -
  have h: "lock_held c lk s" using L(1) lk by simp
  have n: "card (L - {lk}) = card L - 1" "0 < card L" using L(2) lk by (auto simp: card_gt_0_iff)
  show "release lk s = Ret () (rel_st c lk s)" using ok h L(3) n(2) by (intro release_ok) simp_all
  have c: "c < length (cpus s)" using ok this_cpuD(1) cpu_ok_this by blast
  then have "cpus (rel_st c lk s) = (cpus s)[c := cpus (rel_st c lk s) ! c]" by (simp add: rel_st_def pop_st_def upd_lock_def)
  moreover from c have "apicid (cpus (rel_st c lk s) ! c) = apicid (cpus s ! c)" "cproc (cpus (rel_st c lk s) ! c) = cproc (cpus s ! c)"
      "ncli (cpus (rel_st c lk s) ! c) = int (card (L - {lk}))"
    using n L by (simp_all add: rel_st_def pop_st_def upd_lock_def)
  moreover have "lock_held d x (rel_st c lk s) = lock_held d x s" if "d \<noteq> c" for d x
    using h that by (auto simp: lock_held_def)
  moreover have "lock_held c x (rel_st c lk s) \<longleftrightarrow> x \<in> L - {lk}" for x using L(1) by (auto simp: lock_held_def)
  moreover have "\<not> IF (rel_st c lk s)" if "L - {lk} \<noteq> {}"
  proof -
    have "card (L - {lk}) \<noteq> 0" using that L(2) by simp
    then show ?thesis using L(3) n by (simp add: rel_st_def pop_st_def)
  qed
  ultimately show "lchange c (L - {lk}) (cproc (cpus s ! c)) s (rel_st c lk s)"
    unfolding lchange_def by (auto simp: rel_st_def)
qed

lemma lchange_same:
  assumes L: "\<forall>x. lock_held c x s \<longleftrightarrow> x \<in> L" "ncli (cpus s ! c) = int (card L)" "L \<noteq> {} \<longrightarrow> \<not> IF s"
    and s': "ncpu s' = ncpu s" "cpus s' = (cpus s)[c := k]" "locks s' = locks s" "IF s' = IF s"
    and k: "apicid k = apicid (cpus s ! c)" "ncli k = ncli (cpus s ! c)"
  shows "lchange c L (cproc k) s s'"
proof -
  have "lock_held d x s' = lock_held d x s" for d x by (simp add: lock_held_def s')
  then show ?thesis using assms unfolding lchange_def by auto
qed

text \<open>The locks after a step of processor \<open>c\<close>.\<close>

lemma wsync_move:
  assumes inv: "wsync l t" and c: "c < ncpu (kern t)" and s: "lchange c (owned l u c) q (wview c t) s"
    and u: "kern u = s" "iflag u = (iflag t)(c := IF s)" and o: "\<forall>d<ncpu (kern t). d \<noteq> c \<longrightarrow> owned l u d = owned l t d"
  shows "wsync l u"
proof -
  obtain k where k: "cpus s = (cpus (kern t))[c := k]" "apicid k = apicid (cpus (kern t) ! c)" "ncli k = int (card (owned l u c))"
      "ncpu s = ncpu (kern t)"
    using s unfolding lchange_def by auto
  have "map apicid (take (ncpu s) (cpus s)) = map apicid (take (ncpu (kern t)) (cpus (kern t)))"
    using k(1,2,4) by (simp flip: take_map)
  moreover have "(\<forall>lk. lock_held d lk s \<longleftrightarrow> lk \<in> owned l u d) \<and> ncli (cpus s ! d) = int (card (owned l u d)) \<and> (owned l u d \<noteq> {} \<longrightarrow> \<not> iflag u d)"
    if d: "d < ncpu (kern t)" for d
  proof (cases "d = c")
    case True
    then show ?thesis using s k(1,3) wsyncD(1) [OF inv c] unfolding lchange_def u(2) by auto
  next
    case False
    then have "owned l u d = owned l t d" "\<forall>lk. lock_held d lk s = lock_held d lk (kern t)" using s o d unfolding lchange_def by auto
    then show ?thesis using wsyncD [OF inv d] False by (simp add: u(2) k(1))
  qed
  ultimately show ?thesis using inv k(1,4) unfolding wsync_def u(1) by simp
qed

section \<open>What a step does to the processes and the condition\<close>

lemma wprocsD:
  assumes "wprocs t" "runs t c i"
  shows "i < length (procs (kern t))" "cproc (cpus (kern t) ! c) = Some i" "pos_ok (posn t i)"
    "state (procs (kern t) ! i) = (if posn t i = Switch then SLEEPING else RUNNING)" "runs t d i \<Longrightarrow> d = c"
  using assms unfolding wprocs_def by blast+

lemma wprocsD2:
  assumes "wprocs t" "i < length (procs (kern t))"
  shows "state (procs (kern t) ! i) \<in> {RUNNABLE, SLEEPING} \<Longrightarrow> (\<exists>c. runs t c i) \<or> posn t i = Forked \<or> posn t i = Coming 0"
    "state (procs (kern t) ! i) \<in> {RUNNABLE, SLEEPING, RUNNING} \<Longrightarrow> kstack (procs (kern t) ! i) \<noteq> 0 \<and> pgdir (procs (kern t) ! i) \<noteq> 0"
  using assms unfolding wprocs_def by blast+

lemma wprocsI:
  assumes "\<And>c i. runs t c i \<Longrightarrow> i < length (procs (kern t)) \<and> cproc (cpus (kern t) ! c) = Some i \<and> pos_ok (posn t i) \<and>
      state (procs (kern t) ! i) = (if posn t i = Switch then SLEEPING else RUNNING)"
    and "\<And>c d i. runs t c i \<Longrightarrow> runs t d i \<Longrightarrow> d = c"
    and "\<And>i. i < length (procs (kern t)) \<Longrightarrow> state (procs (kern t) ! i) \<in> {RUNNABLE, SLEEPING} \<Longrightarrow>
      (\<exists>c. runs t c i) \<or> posn t i = Forked \<or> posn t i = Coming 0"
    and "\<And>i. i < length (procs (kern t)) \<Longrightarrow> state (procs (kern t) ! i) \<in> {RUNNABLE, SLEEPING, RUNNING} \<Longrightarrow>
      kstack (procs (kern t) ! i) \<noteq> 0 \<and> pgdir (procs (kern t) ! i) \<noteq> 0"
  shows "wprocs t"
  using assms unfolding wprocs_def by blast

text \<open>The other processes at positions in \<open>P\<close>.\<close>

definition others :: "nat \<Rightarrow> pos set \<Rightarrow> 'a wsys \<Rightarrow> bool" where
  "others i P t \<longleftrightarrow> (\<exists>d j. runs t d j \<and> j \<noteq> i \<and> posn t j \<in> P)"

lemma some_at_runs:
  assumes "runs t c i"
  shows "some_at P t \<longleftrightarrow> posn t i \<in> P \<or> others i P t"
  using assms unfolding some_at_def others_def by blast

text \<open>Two processes are never both at positions that hold the same lock.\<close>

lemma others_exclusive:
  assumes inv: "wsync l t" "wprocs t" and r: "runs t c i" and lk: "lk \<in> pos_locks l (posn t i)" "\<forall>p \<in> P. lk \<in> pos_locks l p"
  shows "\<not> others i P t"
proof
  assume "others i P t"
  then obtain d j where j: "runs t d j" "j \<noteq> i" "lk \<in> pos_locks l (posn t j)" using lk(2) unfolding others_def by blast
  then have "lock_held d lk (kern t)" "lock_held c lk (kern t)" using wsyncD(2) [OF inv(1)] r lk(1) by auto
  then have "d = c" by (simp add: lock_held_def)
  then show False using j r by simp
qed

text \<open>A statement of process \<open>i\<close> on processor \<open>c\<close>, which takes it to position \<open>p\<close> and the condition to \<open>b\<close>.\<close>

abbreviation moved :: "nat \<Rightarrow> nat \<Rightarrow> pos \<Rightarrow> bool \<Rightarrow> 'a ptable_scheme \<Rightarrow> 'a wsys \<Rightarrow> 'a wsys" where
  "moved c i p b s t \<equiv> go i p ((wput c s t)\<lparr>cond := b\<rparr>)"

lemma moved_fields [simp]:
  "kern (moved c i p b s t) = s" "iflag (moved c i p b s t) = (iflag t)(c := IF s)" "mode (moved c i p b s t) = mode t"
  "posn (moved c i p b s t) = (posn t)(i := p)" "cond (moved c i p b s t) = b"
  by (simp_all add: go_def wput_def)

lemma some_at_moved:
  assumes "runs t c i" "ncpu s = ncpu (kern t)"
  shows "some_at P (moved c i p b s t) \<longleftrightarrow> p \<in> P \<or> others i P t"
  using assms by (auto simp: some_at_def others_def)

definition proc_kept :: "nat \<Rightarrow> 'a wsys \<Rightarrow> 'a ptable_scheme \<Rightarrow> bool" where
  "proc_kept i t s \<longleftrightarrow>
     length (procs s) = length (procs (kern t)) \<and>
     (\<forall>j<length (procs s). kstack (procs s ! j) = kstack (procs (kern t) ! j) \<and> pgdir (procs s ! j) = pgdir (procs (kern t) ! j) \<and>
        (j \<noteq> i \<longrightarrow> state (procs s ! j) = state (procs (kern t) ! j) \<or>
           (\<forall>d. \<not> runs t d j) \<and> state (procs (kern t) ! j) = SLEEPING \<and> state (procs s ! j) = RUNNABLE))"

lemma wprocs_moved:
  assumes inv: "wprocs t" and r: "runs t c i" and s: "lchange c L (Some i) (wview c t) s" and k: "proc_kept i t s"
    and p: "pos_ok p" "state (procs s ! i) = (if p = Switch then SLEEPING else RUNNING)"
  shows "wprocs (moved c i p b s t)"
proof -
  have n: "ncpu s = ncpu (kern t)" "length (procs s) = length (procs (kern t))" using s k by (auto simp: lchange_def proc_kept_def)
  obtain q where q: "cpus s = (cpus (kern t))[c := q]" "cproc q = Some i" using s by (auto simp: lchange_def)
  have one: "j < length (procs s) \<and> cproc (cpus s ! d) = Some j \<and> pos_ok (((posn t)(i := p)) j) \<and>
      state (procs s ! j) = (if ((posn t)(i := p)) j = Switch then SLEEPING else RUNNING) \<and> (\<forall>e. runs t e j \<longrightarrow> e = d)"
    if "runs t d j" for d j
  proof -
    note j = wprocsD [OF inv that]
    have "cproc (cpus s ! d) = Some j" using q r that j(2) by (cases "d = c"; cases "c < length (cpus (kern t))") (simp_all add: not_less list_update_beyond)
    moreover have "state (procs s ! j) = state (procs (kern t) ! j)" if "j \<noteq> i"
      using k j(1) n(2) that \<open>runs t d j\<close> unfolding proc_kept_def by metis
    then have "state (procs s ! j) = (if ((posn t)(i := p)) j = Switch then SLEEPING else RUNNING)" using j(4) p(2) by (cases "j = i") simp_all
    moreover have "pos_ok (((posn t)(i := p)) j)" using j(3) p(1) by simp
    moreover have "j < length (procs s)" using j(1) n(2) by simp
    ultimately show ?thesis using j(5) by blast
  qed
  have st: "state (procs (kern t) ! j) \<in> S" if "j < length (procs s)" "j \<noteq> i" "state (procs s ! j) \<in> S" "SLEEPING \<in> S" for j S
    using that k unfolding proc_kept_def by metis
  have two: "(\<exists>d. runs t d j) \<or> ((posn t)(i := p)) j = Forked \<or> ((posn t)(i := p)) j = Coming 0"
    if "j < length (procs s)" "state (procs s ! j) \<in> {RUNNABLE, SLEEPING}" for j
  proof (cases "j = i")
    case False
    then show ?thesis using wprocsD2(1) [OF inv, of j] st [OF that(1) False that(2)] that(1) n(2) by simp
  qed (use r in blast)
  have "kstack (procs (kern t) ! j) \<noteq> 0 \<and> pgdir (procs (kern t) ! j) \<noteq> 0"
    if "j < length (procs s)" "state (procs s ! j) \<in> {RUNNABLE, SLEEPING, RUNNING}" for j
  proof (cases "j = i")
    case True
    then show ?thesis using wprocsD2(2) [OF inv, of i] wprocsD(1,4) [OF inv r] by (simp split: if_splits)
  next
    case False
    then show ?thesis using wprocsD2(2) [OF inv, of j] st [OF that(1) False that(2)] that(1) n(2) by simp
  qed
  then have three: "kstack (procs s ! j) \<noteq> 0 \<and> pgdir (procs s ! j) \<noteq> 0"
    if "j < length (procs s)" "state (procs s ! j) \<in> {RUNNABLE, SLEEPING, RUNNING}" for j
    using that k unfolding proc_kept_def by metis
  show ?thesis unfolding wprocs_def moved_fields n(1) using one two three by blast
qed

lemma owned_moved:
  assumes "wprocs t" "runs t c i" "d \<noteq> c" "d < ncpu (kern t)"
  shows "mode_locks l ((posn t)(i := p)) (mode t d) = owned l t d"
  using assms wprocsD(5) [OF assms(1,2), of d] by (cases "mode t d") auto

lemma winv_moved:
  assumes inv: "winv l ch t" and r: "runs t c i" and s: "lchange c (pos_locks l p) (Some i) (wview c t) s" and k: "proc_kept i t s"
    and p: "pos_ok p" "state (procs s ! i) = (if p = Switch then SLEEPING else RUNNING)" and w: "wcond ch (moved c i p b s t)"
  shows "winv l ch (moved c i p b s t)"
proof -
  have i: "wsync l t" "wprocs t" using inv by (simp_all add: winv_def)
  have "wsync l (moved c i p b s t)"
    by (rule wsync_move [OF i(1), of c _ "Some i" s]) (use r s owned_moved [OF i(2) r] in simp_all)
  then show ?thesis using wprocs_moved [OF i(2) r s k p] w by (simp add: winv_def)
qed

text \<open>The condition, before and after.\<close>

lemma wcondD:
  assumes "wcond ch t" "runs t c i"
  shows "posn t i \<in> tested \<or> others i tested t \<Longrightarrow> \<not> cond t"
    "cond t \<Longrightarrow> (\<exists>j. asleep ch (kern t) j) \<or> posn t i \<in> marking \<or> others i marking t \<Longrightarrow> posn t i \<in> pending \<or> others i pending t"
  using assms by (simp_all add: wcond_def some_at_runs [OF assms(2)])

lemma wcond_movedI:
  assumes "runs t c i" "lchange c L q (wview c t) s" "p \<in> tested \<or> others i tested t \<Longrightarrow> \<not> b"
    and "b \<Longrightarrow> (\<exists>j. asleep ch s j) \<or> p \<in> marking \<or> others i marking t \<Longrightarrow> p \<in> pending \<or> others i pending t"
  shows "wcond ch (moved c i p b s t)"
proof -
  have "ncpu s = ncpu (kern t)" using assms(2) by (simp add: lchange_def)
  from some_at_moved [OF assms(1) this] show ?thesis using assms(3,4) by (simp add: wcond_def)
qed

section \<open>The statements\<close>

text \<open>The state in which a statement of process \<open>i\<close> starts.\<close>

lemma start_facts:
  assumes inv: "winv l ch t" and r: "runs t c i"
  shows "cpu_ok c (wview c t)" "\<forall>x. lock_held c x (wview c t) \<longleftrightarrow> x \<in> pos_locks l (posn t i)"
    "ncli (cpus (wview c t) ! c) = int (card (pos_locks l (posn t i)))" "pos_locks l (posn t i) \<noteq> {} \<longrightarrow> \<not> IF (wview c t)"
    "cproc (cpus (wview c t) ! c) = Some i" "proc_kept i t (wview c t)"
proof -
  have i: "wsync l t" "wprocs t" and c: "c < ncpu (kern t)" using inv r by (simp_all add: winv_def)
  show "cpu_ok c (wview c t)" by (rule wview_ok [OF i(1) c])
  show "\<forall>x. lock_held c x (wview c t) \<longleftrightarrow> x \<in> pos_locks l (posn t i)" "ncli (cpus (wview c t) ! c) = int (card (pos_locks l (posn t i)))"
      "pos_locks l (posn t i) \<noteq> {} \<longrightarrow> \<not> IF (wview c t)"
    using wsyncD [OF i(1) c] r by simp_all
  show "cproc (cpus (wview c t) ! c) = Some i" using wprocsD(2) [OF i(2) r] by simp
  show "proc_kept i t (wview c t)" by (simp add: proc_kept_def)
qed

text \<open>A statement that changes no process: \<open>quiet\<close> says so of the positions before and after it.\<close>

definition quiet :: "pos \<Rightarrow> pos \<Rightarrow> bool" where
  "quiet q p \<longleftrightarrow> q \<noteq> Switch \<and> p \<noteq> Switch \<and> pos_ok p \<and>
     (p \<in> tested \<longrightarrow> q \<in> tested) \<and> (p \<in> marking \<longrightarrow> q \<in> marking \<union> tested) \<and> (q \<in> pending \<longrightarrow> p \<in> pending)"

lemma winv_quiet:
  assumes inv: "winv l ch t" and r: "runs t c i" and q: "quiet (posn t i) p"
    and s: "lchange c (pos_locks l p) (Some i) (wview c t) s" "procs s = procs (kern t)"
  shows "winv l ch (moved c i p (cond t) s t)"
proof (rule winv_moved [OF inv r s(1)])
  have i: "wprocs t" "wcond ch t" using inv by (simp_all add: winv_def)
  show "proc_kept i t s" "pos_ok p" using q by (simp_all add: proc_kept_def s(2) quiet_def)
  show "state (procs s ! i) = (if p = Switch then SLEEPING else RUNNING)"
    using wprocsD(4) [OF i(1) r] q by (simp add: quiet_def s(2))
  have "asleep ch s j = asleep ch (kern t) j" for j by (simp add: asleep_def s(2))
  then show "wcond ch (moved c i p (cond t) s t)"
    using wcondD [OF i(2) r] q unfolding quiet_def by (intro wcond_movedI [OF r s(1)]) blast+
qed

lemma go_moved: "go i p (wput c s t) = moved c i p (cond t) s t"
  by (simp add: go_def wput_def)

lemma acquire_step:
  assumes inv: "winv l ch t" and r: "runs t c i" and q: "quiet (posn t i) p"
    and L: "pos_locks l p = insert lk (pos_locks l (posn t i))" "lk \<notin> pos_locks l (posn t i)"
  shows "on c (acquire lk) t (\<lambda>_. go i p) = Spin \<or> (\<exists>u. on c (acquire lk) t (\<lambda>_. go i p) = Ret () u \<and> winv l ch u)"
proof (cases "lock_free lk (kern t)")
  case True
  note f = start_facts [OF inv r]
  have "acquire lk (wview c t) = Ret () (acq_st c lk (wview c t))" using f(1) True by (intro acquire_ok) simp_all
  moreover have "lchange c (pos_locks l p) (Some i) (wview c t) (acq_st c lk (wview c t))"
    using lchange_acquire [OF f(1) _ f(2) _ f(3), of lk] True f(5) L(1) by simp
  then have "winv l ch (moved c i p (cond t) (acq_st c lk (wview c t)) t)"
    by (rule winv_quiet [OF inv r q]) (simp add: acq_st_def push_st_def upd_lock_def)
  ultimately show ?thesis using on_Ret [of "acquire lk" c t] by (simp add: go_moved)
next
  case False
  have "\<not> lock_held c lk (wview c t)" using start_facts(2) [OF inv r] L(2) by blast
  then have "acquire lk (wview c t) = Spin" using start_facts(1) [OF inv r] False by (intro acquire_spins) simp_all
  then show ?thesis by (simp add: on_Spin)
qed

lemma release_step:
  assumes inv: "winv l ch t" and r: "runs t c i" and q: "quiet (posn t i) p"
    and L: "pos_locks l p = pos_locks l (posn t i) - {lk}" "lk \<in> pos_locks l (posn t i)"
  shows "\<exists>u. on c (release lk) t (\<lambda>_. go i p) = Ret () u \<and> winv l ch u"
proof -
  note f = start_facts [OF inv r]
  note e = lchange_release [OF f(1,2) _ f(3) L(2)]
  have "lchange c (pos_locks l p) (Some i) (wview c t) (rel_st c lk (wview c t))" using e(2) f(5) L(1) by simp
  then have "winv l ch (moved c i p (cond t) (rel_st c lk (wview c t)) t)"
    by (rule winv_quiet [OF inv r q]) (simp add: rel_st_def pop_st_def upd_lock_def)
  then show ?thesis using e(1) on_Ret [of "release lk" c t] by (simp add: go_moved)
qed

text \<open>A statement that changes no lock.\<close>

lemma lchange_local:
  assumes inv: "winv l ch t" and r: "runs t c i" and L: "pos_locks l p = pos_locks l (posn t i)"
    and s: "ncpu s = ncpu (kern t)" "cpus s = (cpus (kern t))[c := k]" "locks s = locks (kern t)" "IF s = iflag t c"
    and k: "apicid k = apicid (cpus (kern t) ! c)" "ncli k = ncli (cpus (kern t) ! c)" "cproc k = cproc (cpus (kern t) ! c)"
  shows "lchange c (pos_locks l p) (Some i) (wview c t) s"
proof -
  note f = start_facts [OF inv r]
  have "lchange c (pos_locks l p) (cproc k) (wview c t) s"
    by (rule lchange_same) (use f L s k in simp_all)
  then show ?thesis using f(5) k(3) by simp
qed

text \<open>A statement that writes the process's own entry.\<close>

lemma winv_upd:
  assumes inv: "winv l ch t" and r: "runs t c i" and q: "posn t i \<noteq> Switch" "posn t i \<notin> pending" and L: "pos_locks l p = pos_locks l (posn t i)"
    and p: "pos_ok p" "p \<notin> tested" "p \<in> marking \<or> p = Switch \<longrightarrow> posn t i \<in> marking"
    and f: "\<And>x. kstack (f x) = kstack x" "\<And>x. pgdir (f x) = pgdir x" "\<And>x. state x = RUNNING \<Longrightarrow> state (f x) = (if p = Switch then SLEEPING else RUNNING)"
  shows "winv l ch (moved c i p (cond t) (upd_proc i f (wview c t)) t)"
proof -
  let ?s = "upd_proc i f (wview c t)"
  have i: "wprocs t" "wcond ch t" using inv by (simp_all add: winv_def)
  note d = wprocsD [OF i(1) r]
  have pr: "procs ?s = (procs (kern t))[i := f (procs (kern t) ! i)]" by (simp add: upd_proc_def)
  have s: "lchange c (pos_locks l p) (Some i) (wview c t) ?s"
    by (rule lchange_local [OF inv r L, where k = "cpus (kern t) ! c"]) (simp_all add: upd_proc_def)
  have "(\<exists>j. asleep ch (kern t) j) \<or> posn t i \<in> marking" if "asleep ch ?s j" for j
    using that p(3) f(3) d q unfolding asleep_def pr by (cases "j = i") (auto split: if_splits)
  then have "wcond ch (moved c i p (cond t) ?s t)"
    using wcondD [OF i(2) r] p(2,3) q(2) by (intro wcond_movedI [OF r s]) blast+
  moreover have "kstack (procs ?s ! j) = kstack (procs (kern t) ! j)" "pgdir (procs ?s ! j) = pgdir (procs (kern t) ! j)" for j
    using f(1,2) d(1) unfolding pr by (cases "j = i"; simp)+
  then have "proc_kept i t ?s" unfolding proc_kept_def by (simp add: pr)
  moreover have "state (procs ?s ! i) = (if p = Switch then SLEEPING else RUNNING)" using d(1,4) q(1) f(3) by (simp add: pr)
  ultimately show ?thesis using winv_moved [OF inv r s _ p(1)] by blast
qed

text \<open>A statement that writes the condition.\<close>

lemma winv_cond:
  assumes inv: "winv l ch t" and r: "runs t c i" and q: "posn t i \<noteq> Switch" and L: "pos_locks l p = pos_locks l (posn t i)"
    and p: "pos_ok p" "p \<noteq> Switch" and b: "b \<Longrightarrow> l \<in> pos_locks l (posn t i) \<and> p \<in> pending"
  shows "winv l ch (moved c i p b (wview c t) t)"
proof -
  have i: "wsync l t" "wprocs t" using inv by (simp_all add: winv_def)
  have s: "lchange c (pos_locks l p) (Some i) (wview c t) (wview c t)"
    by (rule lchange_local [OF inv r L, where k = "cpus (kern t) ! c"]) simp_all
  have "\<not> others i tested t" if b using others_exclusive [OF i r, of l tested] b that by (simp add: tested_def)
  moreover have "p \<notin> tested" if "p \<in> pending" using that by (auto simp: tested_def pending_def)
  ultimately have "wcond ch (moved c i p b (wview c t) t)" using b by (intro wcond_movedI [OF r s]) blast+
  then show ?thesis using winv_moved [OF inv r s start_facts(6) [OF inv r] p(1)] wprocsD(4) [OF i(2) r] q p(2) by simp
qed

text \<open>The wakeup.\<close>

lemma winv_wakeup1:
  assumes inv: "winv l ch t" and r: "runs t c i" and q: "posn t i = Waking 1"
  shows "winv l ch (moved c i (Waking 2) (cond t) (wakeup1 (Some ch) (wview c t)) t)"
proof -
  let ?s = "wakeup1 (Some ch) (wview c t)"
  have i: "wsync l t" "wprocs t" "wcond ch t" using inv by (simp_all add: winv_def)
  have s: "lchange c (pos_locks l (Waking 2)) (Some i) (wview c t) ?s"
    by (rule lchange_local [OF inv r, where k = "cpus (kern t) ! c"]) (simp_all add: wakeup1_def q)
  have n: "\<not> others i marking t" "\<not> others i {Switch} t"
    using q by (intro others_exclusive [OF i(1,2) r, of Lptable]; simp add: marking_def)+
  have pr: "procs ?s ! j = (if state (procs (kern t) ! j) = SLEEPING \<and> pchan (procs (kern t) ! j) = Some ch
      then (procs (kern t) ! j)\<lparr>state := RUNNABLE\<rparr> else procs (kern t) ! j)" if "j < length (procs (kern t))" for j
    using wakeup1_nth [of j "wview c t" "Some ch"] that by simp
  have le: "length (procs ?s) = length (procs (kern t))" by (simp add: wakeup1_def)
  have "\<not> asleep ch ?s j" for j using pr le by (auto simp: asleep_def)
  then have "wcond ch (moved c i (Waking 2) (cond t) ?s t)"
    using wcondD(1) [OF i(3) r] n(1) by (intro wcond_movedI [OF r s]) (auto simp: tested_def marking_def)
  moreover have no: "\<forall>d. \<not> runs t d j" if "j \<noteq> i" "state (procs (kern t) ! j) = SLEEPING" for j
  proof (intro allI notI)
    fix d assume "runs t d j"
    then have "posn t j = Switch" using wprocsD(4) [OF i(2), of d j] that(2) by (auto split: if_splits)
    then show False using n(2) \<open>runs t d j\<close> that(1) by (auto simp: others_def)
  qed
  have "proc_kept i t ?s" unfolding proc_kept_def le
    using no by (intro conjI allI impI) (simp_all add: pr)
  moreover have "state (procs ?s ! i) = RUNNING" using wprocsD(1,4) [OF i(2) r] q by (simp add: pr)
  ultimately show ?thesis using winv_moved [OF inv r s] by simp
qed

section \<open>The scheduler and the switch\<close>

lemma lchange_trans:
  assumes "lchange c L q s s1" "lchange c L' q' s1 s2" "c < length (cpus s)"
  shows "lchange c L' q' s s2"
proof -
  obtain k k' where k: "cpus s1 = (cpus s)[c := k]" "apicid k = apicid (cpus s ! c)"
      "cpus s2 = (cpus s1)[c := k']" "apicid k' = apicid (cpus s1 ! c)" "cproc k' = q'" "ncli k' = int (card L')"
    using assms(1,2) unfolding lchange_def by blast
  then have "cpus s2 = (cpus s)[c := k']" "apicid k' = apicid (cpus s ! c)" using assms(3) by simp_all
  then show ?thesis using assms(1,2) k(5,6) unfolding lchange_def by auto
qed

abbreviation switched :: "nat \<Rightarrow> mode \<Rightarrow> 'a ptable_scheme \<Rightarrow> 'a wsys \<Rightarrow> 'a wsys" where
  "switched c m s t \<equiv> (wput c s t)\<lparr>mode := (mode t)(c := m)\<rparr>"

lemma switched_fields [simp]:
  "kern (switched c m s t) = s" "iflag (switched c m s t) = (iflag t)(c := IF s)" "mode (switched c m s t) = (mode t)(c := m)"
  "posn (switched c m s t) = posn t" "cond (switched c m s t) = cond t"
  by (simp_all add: wput_def)

lemma wsync_switched:
  assumes "wsync l t" "c < ncpu (kern t)" "lchange c (mode_locks l (posn t) m) q (wview c t) s"
  shows "wsync l (switched c m s t)"
  by (rule wsync_move [OF assms(1,2), where q = q and s = s]) (use assms(3) in simp_all)

text \<open>The scheduler finds no process.\<close>

lemma winv_idle:
  assumes inv: "winv l ch t" and c: "c < ncpu (kern t)" "\<forall>i. mode t c \<noteq> Run i"
    and s: "lchange c {} q (wview c t) s" "procs s = procs (kern t)"
  shows "winv l ch (switched c Idle s t)"
proof -
  have i: "wsync l t" "wprocs t" "wcond ch t" using inv by (simp_all add: winv_def)
  obtain k where k: "ncpu s = ncpu (kern t)" "cpus s = (cpus (kern t))[c := k]" using s(1) unfolding lchange_def by auto
  have r: "runs (switched c Idle s t) d j \<longleftrightarrow> runs t d j" for d j using c(2) by (simp add: k)
  have e: "cpus s ! d = cpus (kern t) ! d" if "runs t d j" for d j using c(2) that by (cases "d = c") (simp_all add: k)
  have "wprocs (switched c Idle s t)"
  proof (rule wprocsI; (unfold r)?; (unfold switched_fields(1,4) s(2))?)
    fix d j assume j: "runs t d j"
    then show "j < length (procs (kern t)) \<and> cproc (cpus s ! d) = Some j \<and> pos_ok (posn t j) \<and>
        state (procs (kern t) ! j) = (if posn t j = Switch then SLEEPING else RUNNING)"
      using wprocsD(1-4) [OF i(2) j] unfolding e [OF j] by blast
    show "d' = d" if "runs t d' j" for d' using wprocsD(5) [OF i(2) j that] .
  qed (rule wprocsD2 [OF i(2)]; assumption)+
  moreover have "some_at P (switched c Idle s t) = some_at P t" for P unfolding some_at_def r by simp
  then have "wcond ch (switched c Idle s t)" using i(3) by (simp add: wcond_def asleep_def s(2))
  ultimately show ?thesis using wsync_switched [OF i(1) c(1), of Idle q s] s(1) by (simp add: winv_def)
qed

text \<open>The scheduler switches to process \<open>j\<close>.\<close>

lemma winv_run:
  assumes inv: "winv l ch t" and c: "c < ncpu (kern t)" "\<forall>i. mode t c \<noteq> Run i"
    and s: "lchange c {Lptable} (Some j) (wview c t) s" "procs s = (procs (kern t))[j := (procs (kern t) ! j)\<lparr>state := RUNNING\<rparr>]"
    and j: "j < length (procs (kern t))" "state (procs (kern t) ! j) = RUNNABLE"
  shows "winv l ch (switched c (Run j) s t)"
proof -
  let ?u = "switched c (Run j) s t"
  have i: "wsync l t" "wprocs t" "wcond ch t" using inv by (simp_all add: winv_def)
  obtain k where k: "ncpu s = ncpu (kern t)" "cpus s = (cpus (kern t))[c := k]" "cproc k = Some j" using s(1) unfolding lchange_def by auto
  have cl: "c < length (cpus (kern t))" by (rule wsyncD(1) [OF i(1) c(1)])
  have nj: "\<not> runs t d j" for d using wprocsD(4) [OF i(2), of d j] j(2) by (auto split: if_splits)
  have p: "posn t j = Forked \<or> posn t j = Coming 0" using wprocsD2(1) [OF i(2) j(1)] j(2) nj by simp
  have r: "runs ?u d x \<longleftrightarrow> runs t d x \<or> d = c \<and> x = j" for d x using c by (auto simp: k)
  have one: "x < length (procs s) \<and> cproc (cpus s ! d) = Some x \<and> pos_ok (posn t x) \<and>
      state (procs s ! x) = (if posn t x = Switch then SLEEPING else RUNNING)" if u: "runs t d x \<or> d = c \<and> x = j" for d x
  proof (cases "x = j")
    case True
    then have "d = c" using u nj by blast
    then show ?thesis using True p j(1) k cl by (auto simp: s(2))
  next
    case False
    then have t: "runs t d x" "d \<noteq> c" using u c(2) by auto
    then have "cpus s ! d = cpus (kern t) ! d" "procs s ! x = procs (kern t) ! x" "length (procs s) = length (procs (kern t))"
      using False by (simp_all add: k(2) s(2))
    then show ?thesis using wprocsD(1-4) [OF i(2) t(1)] by simp
  qed
  have uniq: "e = d" if "runs t d x \<or> d = c \<and> x = j" "runs t e x \<or> e = c \<and> x = j" for d e x
    using that nj wprocsD(5) [OF i(2), of d x e] by blast
  have st: "x = j \<or> state (procs s ! x) = state (procs (kern t) ! x)" "kstack (procs s ! x) = kstack (procs (kern t) ! x)"
      "pgdir (procs s ! x) = pgdir (procs (kern t) ! x)" for x
    using j(1) by (cases "x = j"; simp add: s(2))+
  have sj: "state (procs s ! j) = RUNNING" and le: "length (procs s) = length (procs (kern t))" using j(1) by (simp_all add: s(2))
  have two: "(\<exists>d. runs t d x \<or> d = c \<and> x = j) \<or> posn t x = Forked \<or> posn t x = Coming 0"
    if "x < length (procs s)" "state (procs s ! x) \<in> {RUNNABLE, SLEEPING}" for x
    using wprocsD2(1) [OF i(2), of x] st(1) [of x] that le by (cases "x = j") auto
  have three: "kstack (procs s ! x) \<noteq> 0 \<and> pgdir (procs s ! x) \<noteq> 0"
    if "x < length (procs s)" "state (procs s ! x) \<in> {RUNNABLE, SLEEPING, RUNNING}" for x
    using wprocsD2(2) [OF i(2), of x] st [of x] that le j(2) by (cases "x = j") auto
  have "wprocs ?u" by (rule wprocsI; (unfold r)?; (unfold switched_fields(1,4))?) (fact one uniq two three)+
  moreover have "some_at P ?u = some_at P t" if "Forked \<notin> P" "Coming 0 \<notin> P" for P
    using that p unfolding some_at_def r by auto
  then have "some_at tested ?u = some_at tested t" "some_at marking ?u = some_at marking t" "some_at pending ?u = some_at pending t"
    by (simp_all add: tested_def marking_def pending_def)
  moreover have "asleep ch (kern t) x" if "asleep ch s x" for x
    using that le sj by (cases "x = j") (auto simp: asleep_def s(2))
  ultimately have "wprocs ?u" "wcond ch ?u" using i(3) unfolding wcond_def switched_fields by blast+
  moreover have "mode_locks l (posn t) (Run j) = {Lptable}" using p by auto
  then have "wsync l ?u" using wsync_switched [OF i(1) c(1), of "Run j" "Some j" s] s(1) by simp
  ultimately show ?thesis by (simp add: winv_def)
qed

text \<open>Process \<open>i\<close> switches to the scheduler.\<close>

lemma winv_switch:
  assumes inv: "winv l ch t" and r: "runs t c i" and q: "posn t i = Switch"
  shows "winv l ch ((go i (Coming 0) (wput c (wview c t) t))\<lparr>saved := sv, mode := (mode t)(c := After i)\<rparr>)" (is "winv l ch ?u")
proof -
  have i: "wsync l t" "wprocs t" "wcond ch t" using inv by (simp_all add: winv_def)
  note d = wprocsD [OF i(2) r]
  have u: "kern ?u = wview c t" "iflag ?u = (iflag t)(c := IF (wview c t))" "mode ?u = (mode t)(c := After i)" "posn ?u = (posn t)(i := Coming 0)"
      "cond ?u = cond t"
    by (simp_all add: go_def wput_def)
  have ru: "runs ?u e x \<longleftrightarrow> runs t e x \<and> x \<noteq> i" for e x
  proof (cases "e = c")
    case False
    then have "\<not> (runs t e x \<and> x = i)" using d(5) [of e] by blast
    then show ?thesis unfolding u(1,3) using False by auto
  qed (use r in \<open>auto simp: u\<close>)
  have "lchange c (pos_locks l Switch) (Some i) (wview c t) (wview c t)"
    by (rule lchange_local [OF inv r, where k = "cpus (kern t) ! c"]) (simp_all add: q)
  then have "wsync l ?u"
    using wsync_move [OF i(1), of c ?u "Some i" "wview c t"] r owned_moved [OF i(2) r, where p = "Coming 0" and l = l]
    by (simp add: u)
  moreover have "wprocs ?u"
  proof (rule wprocsI; (unfold ru)?; (unfold u(1,4) wview_fields)?)
    fix e x assume x: "runs t e x \<and> x \<noteq> i"
    then have y: "runs t e x" by blast
    show "x < length (procs (kern t)) \<and> cproc (cpus (kern t) ! e) = Some x \<and> pos_ok (((posn t)(i := Coming 0)) x) \<and>
        state (procs (kern t) ! x) = (if ((posn t)(i := Coming 0)) x = Switch then SLEEPING else RUNNING)"
      using wprocsD(1-4) [OF i(2) y] x by simp
    show "e' = e" if "runs t e' x \<and> x \<noteq> i" for e' using wprocsD(5) [OF i(2) y] that by blast
  next
    fix x assume "x < length (procs (kern t))" "state (procs (kern t) ! x) \<in> {RUNNABLE, SLEEPING}"
    from wprocsD2(1) [OF i(2) this]
    show "(\<exists>e. runs t e x \<and> x \<noteq> i) \<or> ((posn t)(i := Coming 0)) x = Forked \<or> ((posn t)(i := Coming 0)) x = Coming 0"
      by (cases "x = i") auto
  qed (rule wprocsD2(2) [OF i(2)]; assumption)
  moreover have "some_at P ?u = others i P t" for P unfolding some_at_def others_def ru by (auto simp: u)
  moreover have "asleep ch (wview c t) j = asleep ch (kern t) j" for j by (simp add: asleep_def)
  moreover have "Switch \<notin> tested" "Switch \<notin> marking" "Switch \<notin> pending" by (simp_all add: tested_def marking_def pending_def)
  ultimately have "wsync l ?u" "wprocs ?u" "wcond ch ?u" using wcondD [OF i(3) r, unfolded q] unfolding wcond_def u(1,5) by blast+
  then show ?thesis by (simp add: winv_def)
qed

lemma chosen_switched: "chosen c r (wput c s t) = switched c (case r of None \<Rightarrow> Idle | Some i \<Rightarrow> Run i) s t"
  by (simp add: chosen_def wput_def)

text \<open>What the scheduler does with the processor once it has the lock.\<close>

lemma scan_step:
  assumes inv: "winv l ch t" and c: "c < ncpu (kern t)" "\<forall>i. mode t c \<noteq> Run i"
    and s: "lchange c {Lptable} q (wview c t) s" "sched_ok c s" "procs s = procs (kern t)" and f: "f (wview c t) = scheduler_scan c n s"
  shows "\<exists>u. on c f t (chosen c) = Ret () u \<and> winv l ch u"
proof -
  have cl: "c < length (cpus (wview c t))" using wsyncD(1) [of l t c] inv c by (simp add: winv_def)
  have h: "\<forall>x. lock_held c x s \<longleftrightarrow> x \<in> {Lptable}" using s(1) unfolding lchange_def by blast
  note o = sched_okD [OF s(2)]
  show ?thesis
    using s(2)
  proof (cases rule: scheduler_scan_ok [of c s n])
    case None
    have "lchange c {} (cproc (cpus s ! c)) s (rel_st c Lptable s)" using lchange_release(2) [OF o(1) h] o(5) by simp
    then have "winv l ch (switched c Idle (rel_st c Lptable s) t)"
      by (intro winv_idle [OF inv c lchange_trans [OF s(1) _ cl]]) (simp_all add: rel_st_def pop_st_def upd_lock_def s(3))
    then show ?thesis using on_Ret [of f c t] f None by (simp add: chosen_switched)
  next
    case (Some j k v w)
    let ?s = "upd_proc j (\<lambda>p. p\<lparr>state := RUNNING\<rparr>) (s\<lparr>cpus := (cpus s)[c := k], tr := v, cr3 := w\<rparr>)"
    have "\<not> IF s" using o(1,5) by (simp add: cpu_ok_def)
    then have "lchange c {Lptable} (cproc k) s ?s"
      by (intro lchange_same [where k = k]) (use h o(5) Some(2,3) in \<open>simp_all add: upd_proc_def\<close>)
    then have "winv l ch (switched c (Run j) ?s t)"
      using Some(4-6) by (intro winv_run [OF inv c lchange_trans [OF s(1) _ cl]]) (simp_all add: upd_proc_def s(3))
    then show ?thesis using on_Ret [of f c t] f Some(1) by (simp add: chosen_switched)
  qed
qed

lemma sched_okI:
  assumes inv: "winv l ch t" and s: "cpu_ok c s" "lock_held c Lptable s" "ncli (cpus s ! c) = 1" "procs s = procs (kern t)"
  shows "sched_ok c s"
proof -
  have "kstack p \<noteq> 0 \<and> pgdir p \<noteq> 0" if "p \<in> set (procs (kern t))" "state p = RUNNABLE" for p
    using inv wprocsD2(2) [of t] that by (auto simp: winv_def in_set_conv_nth)
  then show ?thesis using s by (simp add: sched_ok_def)
qed

lemma round_step:
  assumes inv: "winv l ch t" and c: "c < ncpu (kern t)" "mode t c = Idle"
  shows "on c (scheduler_round c) t (chosen c) = Spin \<or> (\<exists>u. on c (scheduler_round c) t (chosen c) = Ret () u \<and> winv l ch u)"
proof -
  let ?v = "sti (wview c t)"
  have i: "wsync l t" using inv by (simp add: winv_def)
  have n: "ncli (cpus (kern t) ! c) = 0" "\<forall>x. \<not> lock_held c x (kern t)" "c < length (cpus (kern t))" using wsyncD [OF i c(1)] c(2) by simp_all
  have f: "cpus ?v = cpus (kern t)" "lock_held d x ?v = lock_held d x (kern t)" "lock_free x ?v = lock_free x (kern t)" "procs ?v = procs (kern t)" for d x
    by (simp_all add: sti_def lock_held_def lock_free_def)
  have ok: "cpu_ok c ?v" using wview_ok [OF i c(1)] n(1) by (simp add: cpu_ok_def sti_def)
  show ?thesis
  proof (cases "lock_free Lptable (kern t)")
    case True
    let ?s = "acq_st c Lptable ?v"
    have a: "acquire Lptable ?v = Ret () ?s" using ok True f(3) by (intro acquire_ok) simp_all
    have "lchange c {} (cproc (cpus (kern t) ! c)) (wview c t) ?v"
      using n(1,2) by (auto simp: lchange_def sti_def lock_held_def intro!: exI [of _ "cpus (kern t) ! c"])
    moreover have "lchange c {Lptable} (cproc (cpus (kern t) ! c)) ?v ?s"
      using lchange_acquire [OF ok, of Lptable "{}"] True n by (simp add: f)
    ultimately have s: "lchange c {Lptable} (cproc (cpus (kern t) ! c)) (wview c t) ?s" by (rule lchange_trans) (simp add: n(3))
    have p: "procs ?s = procs (kern t)" by (simp add: acq_st_def push_st_def upd_lock_def f(4))
    have "sched_ok c ?s" using acq_st_facts [OF ok, of Lptable] n(1) p by (intro sched_okI [OF inv]) (simp_all add: f(1))
    from scan_step [OF inv c(1) _ s this p, of "scheduler_round c" 0] a c(2) show ?thesis by (simp add: scheduler_round_def)
  next
    case False
    moreover have "\<not> lock_held c Lptable ?v" using n(2) f(2) by blast
    ultimately have "acquire Lptable ?v = Spin" using ok f(3) by (intro acquire_spins) simp_all
    then show ?thesis by (simp add: on_Spin scheduler_round_def)
  qed
qed

lemma continue_step:
  assumes inv: "winv l ch t" and c: "c < ncpu (kern t)" "mode t c = After i"
  shows "\<exists>u. on c (scheduler_continue c i) t (chosen c) = Ret () u \<and> winv l ch u"
proof -
  let ?s = "scheduler_back c (wview c t)"
  have i: "wsync l t" using inv by (simp add: winv_def)
  have n: "ncli (cpus (kern t) ! c) = 1" "\<forall>x. lock_held c x (kern t) \<longleftrightarrow> x \<in> {Lptable}" "c < length (cpus (kern t))" "\<not> iflag t c"
    using wsyncD [OF i c(1)] c(2) by simp_all
  have "sched_ok c (wview c t)" using wview_ok [OF i c(1)] n by (intro sched_okI [OF inv]) simp_all
  then have "sched_ok c ?s" by (rule sched_ok_back)
  moreover have "lchange c {Lptable} (cproc ((cpus (kern t) ! c)\<lparr>cproc := None\<rparr>)) (wview c t) ?s"
    by (rule lchange_same) (use n in \<open>simp_all add: scheduler_back_def switchkvm_def upd_cpu_def\<close>)
  ultimately show ?thesis using c(2) by (intro scan_step [OF inv c(1)]) (simp_all add: scheduler_continue_def)
qed

lemma sched_out_same:
  assumes "cpu_ok c s" "lock_held c Lptable s" "ncli (cpus s ! c) = 1" "cproc (cpus s ! c) = Some i" "state (procs s ! i) \<noteq> RUNNING"
  shows "sched_out s = Ret (intena (cpus s ! c)) s"
proof -
  have th: "this_cpu s = Some c" "\<not> IF s" using assms(1,3) by (simp_all add: cpu_ok_def)
  have "pop_st c (push_st c s) = s" using assms(1,3) by (simp add: pop_push_st upd_cpu_def)
  then have "myproc s = Ret (Some i) s" using myproc_run [OF qx_sync [OF qx_start [OF assms(1)]]] assms(4) by simp
  moreover have "holding Lptable s = Ret True s" using holding_nested [OF th] assms(2,3) by simp
  ultimately show ?thesis using mycpu_ok [OF th] assms(3,5) th(2) by (simp add: sched_out_def with_myproc_def)
qed

section \<open>All steps\<close>

text \<open>A step that spins, or moves and keeps the invariant.\<close>

definition fine :: "lock \<Rightarrow> chan \<Rightarrow> (unit, 'a wsys) kres \<Rightarrow> bool" where
  "fine l ch m \<longleftrightarrow> m = Spin \<or> (\<exists>u. m = Ret () u \<and> winv l ch u)"

lemma fineI: "winv l ch (moved c i p b s t) \<Longrightarrow> f (wview c t) = Ret r s \<Longrightarrow> g r (wput c s t) = moved c i p b s t \<Longrightarrow> fine l ch (on c f t g)"
  by (simp add: fine_def on_def)

lemma less_numeral_cases: "(n :: nat) < 4 \<longleftrightarrow> n = 0 \<or> n = 1 \<or> n = 2 \<or> n = 3" "n < 3 \<longleftrightarrow> n = 0 \<or> n = 1 \<or> n = 2"
  by auto

lemmas pos_sets = tested_def marking_def pending_def numeral_2_eq_2 [symmetric]

lemma sleep_steps_nth:
  assumes "l \<noteq> Lptable"
  shows "sleep_steps ch l i ! 0 = acquire Lptable" "sleep_steps ch l i ! Suc 0 = release l"
    "sleep_steps ch l i ! 2 = (\<lambda>s. Ret () (upd_proc i (\<lambda>p. p\<lparr>pchan := Some ch\<rparr>) s))"
    "sleep_steps ch l i ! 3 = (\<lambda>s. Ret () (upd_proc i (\<lambda>p. p\<lparr>state := SLEEPING\<rparr>) s))"
    "length (sleep_steps ch l i) = 4"
  using assms by (simp_all add: sleep_steps_def numeral_eq_Suc)

lemma unsleep_steps_nth:
  assumes "l \<noteq> Lptable"
  shows "unsleep_steps l i sv ! 0 = sched_in sv" "unsleep_steps l i sv ! Suc 0 = (\<lambda>s. Ret () (upd_proc i (\<lambda>p. p\<lparr>pchan := None\<rparr>) s))"
    "unsleep_steps l i sv ! 2 = release Lptable" "unsleep_steps l i sv ! 3 = acquire l" "length (unsleep_steps l i sv) = 4"
  using assms by (simp_all add: unsleep_steps_def numeral_eq_Suc)

lemma wakeup_steps_nth:
  "wakeup_steps ch ! 0 = acquire Lptable" "wakeup_steps ch ! Suc 0 = (\<lambda>s. Ret () (wakeup1 (Some ch) s))" "wakeup_steps ch ! 2 = release Lptable"
  "length (wakeup_steps ch) = 3"
  by (simp_all add: wakeup_steps_def numeral_eq_Suc)

lemma sleep_step:
  assumes inv: "winv l ch t" and r: "runs t c i" and l: "l \<noteq> Lptable" and n: "posn t i = Going n"
  shows "fine l ch (wstep l ch w c t)"
proof -
  have "n < 4" using inv wprocsD(3) [OF _ r] n by (simp add: winv_def)
  then consider "n = 0" | "n = 1" | "n = 2" | "n = 3" by (auto simp: less_numeral_cases)
  then show ?thesis
  proof cases
    case 1
    then show ?thesis using acquire_step [OF inv r, of "Going 1" Lptable] n r l
      by (auto simp: wstep_def fine_def sleep_steps_nth [OF l] quiet_def pos_sets)
  next
    case 2
    have "pos_locks l (Going 2) = pos_locks l (posn t i) - {l}" using l n 2 by auto
    then show ?thesis using release_step [OF inv r, of "Going 2" l] n r l 2
      by (auto simp: wstep_def fine_def sleep_steps_nth [OF l] quiet_def pos_sets)
  next
    case 3
    have "winv l ch (moved c i (Going 3) (cond t) (upd_proc i (\<lambda>p. p\<lparr>pchan := Some ch\<rparr>) (wview c t)) t)"
      using n 3 by (intro winv_upd [OF inv r]) (auto simp: pos_sets)
    then show ?thesis using n r 3 by (auto simp: wstep_def sleep_steps_nth [OF l] go_moved pos_sets intro!: fineI)
  next
    case 4
    have "winv l ch (moved c i Switch (cond t) (upd_proc i (\<lambda>p. p\<lparr>state := SLEEPING\<rparr>) (wview c t)) t)"
      using n 4 by (intro winv_upd [OF inv r]) (auto simp: pos_sets)
    then show ?thesis using n r 4 by (auto simp: wstep_def sleep_steps_nth [OF l] go_moved pos_sets intro!: fineI)
  qed
qed

lemma unsleep_step:
  assumes inv: "winv l ch t" and r: "runs t c i" and l: "l \<noteq> Lptable" and n: "posn t i = Coming n"
  shows "fine l ch (wstep l ch w c t)"
proof -
  have "n < 4" using inv wprocsD(3) [OF _ r] n by (simp add: winv_def)
  then consider "n = 0" | "n = 1" | "n = 2" | "n = 3" by (auto simp: less_numeral_cases)
  then show ?thesis
  proof cases
    case 1
    let ?s = "upd_cpu c (\<lambda>k. k\<lparr>intena := saved t i\<rparr>) (wview c t)"
    have f: "this_cpu (wview c t) = Some c" "\<not> IF (wview c t)"
      using start_facts(1,4) [OF inv r] n 1 by (simp_all add: cpu_ok_def)
    have "lchange c (pos_locks l (Coming 1)) (Some i) (wview c t) ?s"
      by (rule lchange_local [OF inv r, where k = "(cpus (kern t) ! c)\<lparr>intena := saved t i\<rparr>"]) (simp_all add: n 1 upd_cpu_def)
    from winv_quiet [OF inv r _ this] have "winv l ch (moved c i (Coming 1) (cond t) ?s t)"
      by (simp add: quiet_def n 1 pos_sets upd_cpu_def)
    then show ?thesis using n r 1 mycpu_ok [OF f] by (auto simp: wstep_def unsleep_steps_nth [OF l] go_moved sched_in_def pos_sets intro!: fineI)
  next
    case 2
    have "winv l ch (moved c i (Coming 2) (cond t) (upd_proc i (\<lambda>p. p\<lparr>pchan := None\<rparr>) (wview c t)) t)"
      using n 2 by (intro winv_upd [OF inv r]) (auto simp: pos_sets)
    then show ?thesis using n r 2 by (auto simp: wstep_def unsleep_steps_nth [OF l] go_moved pos_sets intro!: fineI)
  next
    case 3
    then show ?thesis using release_step [OF inv r, of "Coming 3" Lptable] n r l
      by (auto simp: wstep_def fine_def unsleep_steps_nth [OF l] quiet_def pos_sets)
  next
    case 4
    then show ?thesis using acquire_step [OF inv r, of Test l] n r l
      by (auto simp: wstep_def fine_def unsleep_steps_nth [OF l] quiet_def pos_sets)
  qed
qed

lemma wakeup_step:
  assumes inv: "winv l ch t" and r: "runs t c i" and l: "l \<noteq> Lptable" and n: "posn t i = Waking n"
  shows "fine l ch (wstep l ch w c t)"
proof -
  have "n < 3" using inv wprocsD(3) [OF _ r] n by (simp add: winv_def)
  then consider "n = 0" | "n = 1" | "n = 2" by (auto simp: less_numeral_cases)
  then show ?thesis
  proof cases
    case 1
    then show ?thesis using acquire_step [OF inv r, of "Waking 1" Lptable] n r l
      by (auto simp: wstep_def fine_def wakeup_steps_nth quiet_def pos_sets)
  next
    case 2
    then show ?thesis using winv_wakeup1 [OF inv r] n r by (auto simp: wstep_def wakeup_steps_nth go_moved pos_sets intro!: fineI)
  next
    case 3
    have "pos_locks l Leave = pos_locks l (posn t i) - {Lptable}" using l n 3 by auto
    then show ?thesis using release_step [OF inv r, of Leave Lptable] n r 3
      by (auto simp: wstep_def fine_def wakeup_steps_nth quiet_def pos_sets)
  qed
qed

lemma switch_step:
  assumes inv: "winv l ch t" and r: "runs t c i" and n: "posn t i = Switch"
  shows "fine l ch (wstep l ch w c t)"
proof -
  note f = start_facts [OF inv r]
  have "state (procs (wview c t) ! i) \<noteq> RUNNING" using inv wprocsD(4) [OF _ r] n by (simp add: winv_def)
  then have "sched_out (wview c t) = Ret (intena (cpus (wview c t) ! c)) (wview c t)"
    using f n by (intro sched_out_same) simp_all
  moreover have "mode (wput c s t) = mode t" "saved (wput c s t) = saved t" for s by (simp_all add: wput_def)
  ultimately show ?thesis using winv_switch [OF inv r n] n r
    by (auto simp: wstep_def fine_def on_def go_def wput_def)
qed

lemma run_step:
  assumes inv: "winv l ch t" and r: "runs t c i" and l: "l \<noteq> Lptable"
  shows "fine l ch (wstep l ch w c t)"
proof (cases "posn t i")
  case Forked
  then show ?thesis using release_step [OF inv r, of Ready Lptable] r by (auto simp: wstep_def fine_def quiet_def pos_sets)
next
  case Ready
  then show ?thesis using acquire_step [OF inv r, of Give l] acquire_step [OF inv r, of Test l] r
    by (auto simp: wstep_def fine_def quiet_def pos_sets)
next
  case Test
  have "lchange c (pos_locks l Take) (Some i) (wview c t) (wview c t)"
    by (rule lchange_local [OF inv r, where k = "cpus (kern t) ! c"]) (simp_all add: Test)
  from winv_quiet [OF inv r _ this] have "winv l ch (moved c i Take (cond t) (wview c t) t)" by (simp add: quiet_def Test pos_sets)
  moreover have "winv l ch (moved c i (Going 0) False (wview c t) t)" by (rule winv_cond [OF inv r]) (simp_all add: Test)
  moreover have "cond (wput c (wview c t) t) = cond t" by (simp add: wput_def)
  ultimately show ?thesis using Test r by (cases "cond t") (auto simp: wstep_def fine_def on_def go_moved)
next
  case Take
  have "winv l ch (moved c i Leave False (wview c t) t)" by (rule winv_cond [OF inv r]) (simp_all add: Take)
  then show ?thesis using Take r by (auto simp: wstep_def fine_def on_def)
next
  case Give
  have "winv l ch (moved c i (Waking 0) True (wview c t) t)" by (rule winv_cond [OF inv r]) (simp_all add: Give pos_sets)
  then show ?thesis using Give r by (auto simp: wstep_def fine_def on_def)
next
  case Leave
  then show ?thesis using release_step [OF inv r, of Ready l] r by (auto simp: wstep_def fine_def quiet_def pos_sets)
qed (erule sleep_step [OF inv r l] switch_step [OF inv r] unsleep_step [OF inv r l] wakeup_step [OF inv r l])+

lemma wstep_fine:
  assumes inv: "winv l ch t" and c: "c < ncpu (kern t)" and l: "l \<noteq> Lptable"
  shows "fine l ch (wstep l ch w c t)"
proof (cases "mode t c")
  case Idle
  then show ?thesis using round_step [OF inv c] by (simp add: wstep_def fine_def)
next
  case (After i)
  then show ?thesis using continue_step [OF inv c] by (simp add: wstep_def fine_def)
next
  case (Run i)
  then show ?thesis using run_step [OF inv _ l] c by blast
qed

lemma winv_init:
  assumes "winit ch t"
  shows "winv l ch t"
proof -
  have c: "mode t c = Idle" "ncli (cpus (kern t) ! c) = 0" if "c < ncpu (kern t)" for c using assms that by (simp_all add: winit_def)
  have "\<not> lock_held c lk (kern t)" for c lk using assms by (simp add: winit_def lock_held_def)
  then have "wsync l t" using assms c unfolding wsync_def by (simp add: winit_def)
  moreover have nr: "\<not> runs t c i" for c i using c by auto
  have "wprocs t" by (rule wprocsI) (use nr assms in \<open>auto simp: winit_def\<close>)
  moreover have "wcond ch t" using assms nr unfolding wcond_def some_at_def asleep_def winit_def by blast
  ultimately show ?thesis by (simp add: winv_def)
qed

lemma wreach_winv:
  assumes "wreach l ch t" and "l \<noteq> Lptable"
  shows "winv l ch t"
  using assms(1)
proof induction
  case (wreach_step t c w u)
  then show ?case using wstep_fine [OF wreach_step.IH wreach_step.hyps(2) assms(2), of w] by (simp add: fine_def)
qed (rule winv_init)

text \<open>The first statement of \<open>wakeup\<close>: it waits for the lock of the table, or moves on.\<close>

lemma waking_moves:
  assumes inv: "winv l ch t" and r: "runs t c j" and p: "posn t j = Waking 0" and l: "l \<noteq> Lptable"
  shows "on c (acquire Lptable) t (\<lambda>_. go j (Waking 1)) = Spin \<or>
    (\<exists>u. on c (acquire Lptable) t (\<lambda>_. go j (Waking 1)) = Ret () u \<and> runs u c j \<and> posn u j = Waking 1)"
proof (cases "lock_free Lptable (kern t)")
  case True
  then have "acquire Lptable (wview c t) = Ret () (acq_st c Lptable (wview c t))"
    using start_facts(1) [OF inv r] by (intro acquire_ok) simp_all
  then show ?thesis using r by (simp add: on_def go_moved acq_st_def)
next
  case False
  have "\<not> lock_held c Lptable (wview c t)" using start_facts(2) [OF inv r] l unfolding p by auto
  then have "acquire Lptable (wview c t) = Spin" using start_facts(1) [OF inv r] False by (intro acquire_spins) simp_all
  then show ?thesis by (simp add: on_Spin)
qed

section \<open>Properties\<close>

text \<open>
  C3. No wakeup is lost between the test of a condition and the sleep (the comment in \<open>sleep\<close>). In every state that
  processors reach which run, in any interleaving of their statements, processes that wait for a condition under a
  lock \<open>l\<close> and processes that set it under \<open>l\<close> and call \<open>wakeup\<close>: every processor spins for a lock or can make its
  next step, so that none panics; and if the condition holds while a process sleeps on the channel, then some
  processor is in a call of \<open>wakeup\<close> on it that is still to come to this process: either its next step makes the
  process runnable, or it waits for the lock of the process table to come to that step.
\<close>

theorem sleep_wakeup_not_lost:
  assumes "wreach l ch t" and "l \<noteq> Lptable"
  shows "(\<forall>c<ncpu (kern t). wstep l ch w c t = Spin \<or> (\<exists>u. wstep l ch w c t = Ret () u)) \<and>
    (cond t \<and> asleep ch (kern t) i \<longrightarrow> (\<exists>c j. runs t c j \<and>
       (posn t j = Waking 1 \<and> (\<exists>u. wstep l ch w c t = Ret () u \<and> state (procs (kern u) ! i) = RUNNABLE) \<or>
        posn t j = Waking 0 \<and> (wstep l ch w c t = Spin \<or> (\<exists>u. wstep l ch w c t = Ret () u \<and> runs u c j \<and> posn u j = Waking 1)))))"
proof -
  have inv: "winv l ch t" by (rule wreach_winv [OF assms])
  note fi = wstep_fine [OF inv _ assms(2), of _ w, unfolded fine_def]
  have "\<exists>c j. runs t c j \<and>
       (posn t j = Waking 1 \<and> (\<exists>u. wstep l ch w c t = Ret () u \<and> state (procs (kern u) ! i) = RUNNABLE) \<or>
        posn t j = Waking 0 \<and> (wstep l ch w c t = Spin \<or> (\<exists>u. wstep l ch w c t = Ret () u \<and> runs u c j \<and> posn u j = Waking 1)))"
    if a: "cond t" "asleep ch (kern t) i"
  proof -
    have "some_at pending t" using inv a by (auto simp: winv_def wcond_def)
    then obtain c j where r: "runs t c j" "posn t j = Waking 0 \<or> posn t j = Waking 1" by (auto simp: some_at_def pending_def)
    show ?thesis
    proof (cases "posn t j = Waking 1")
      case True
      have "state (procs (wakeup1 (Some ch) (wview c t)) ! i) = RUNNABLE" using a(2) by (simp add: asleep_def wakeup1_nth)
      then have "\<exists>u. wstep l ch w c t = Ret () u \<and> state (procs (kern u) ! i) = RUNNABLE"
        using True r(1) by (simp add: wstep_def on_def wakeup_steps_nth go_moved)
      then show ?thesis using r(1) True by blast
    next
      case False
      then have p: "posn t j = Waking 0" using r(2) by blast
      have "wstep l ch w c t = on c (acquire Lptable) t (\<lambda>_. go j (Waking 1))" using r(1) p by (simp add: wstep_def wakeup_steps_nth)
      then have "wstep l ch w c t = Spin \<or> (\<exists>u. wstep l ch w c t = Ret () u \<and> runs u c j \<and> posn u j = Waking 1)"
        using waking_moves [OF inv r(1) p assms(2)] by simp
      then show ?thesis using r(1) p by blast
    qed
  qed
  then show ?thesis using fi by blast
qed

text \<open>
  Two processors and two processes: the first tests the condition and gives up the lock, the second sets the
  condition before the first has marked itself as sleeping.
\<close>

definition race0 :: "unit console_ext wsys" where
  "race0 =
     (let k = (cpus (con0 ()) ! 0)\<lparr>ncli := 0, intena := False, cproc := None, gdt := []\<rparr>;
          p = (procs (con0 ()) ! 0)\<lparr>state := RUNNABLE, kstack := 0x80400000, pgdir := 0x80401000\<rparr>
      in \<lparr>kern = (con0 ())\<lparr>ncpu := 2, cpus := [k\<lparr>apicid := 0\<rparr>, k\<lparr>apicid := 1\<rparr>],
             locks := (\<lambda>_. \<lparr>locked = 0, lname = [], lcpu = None\<rparr>), procs := [p\<lparr>pid := 1\<rparr>, p\<lparr>pid := 2\<rparr>]\<rparr>,
          iflag = (\<lambda>_. True), mode = (\<lambda>_. Idle), posn = (\<lambda>_. Forked), saved = (\<lambda>_. True), cond = False\<rparr>)"

fun wrun :: "lock \<Rightarrow> chan \<Rightarrow> (nat \<times> bool) list \<Rightarrow> 'a wsys \<Rightarrow> 'a wsys option" where
  "wrun l ch [] t = Some t"
| "wrun l ch ((c, w) # xs) t =
     (if c < ncpu (kern t) then (case wstep l ch w c t of Ret _ u \<Rightarrow> wrun l ch xs u | _ \<Rightarrow> None) else None)"

lemma wrun_reach: "wreach l ch t \<Longrightarrow> wrun l ch xs t = Some u \<Longrightarrow> wreach l ch u"
  by (induction l ch xs t rule: wrun.induct) (auto split: if_splits kres.splits intro: wreach_step)

definition race_sched :: "(nat \<times> bool) list" where
  "race_sched = [(0, False), (0, False), (1, False), (1, False), (0, False), (0, False), (0, False), (0, False),
     (1, True), (1, False), (0, False), (0, False)]"

lemmas race_defs = wstep_def on_def wview_def wput_def go_def chosen_def sleep_steps_def unsleep_steps_def wakeup_steps_def
  scheduler_round_def scheduler_continue_def scheduler_scan_def scheduler_run_def scheduler_back_def switchuvm_def switchkvm_def
  sched_out_def sched_in_def with_myproc_def myproc_def pushcli_def popcli_def mycpu_def this_cpu_def holding_def
  acquire_def acq_enter_def xchg_locked_def acq_record_def release_def rel_clear_def rel_unlock_def upd_cpu_def upd_proc_def
  upd_lock_def cli_def sti_def wakeup1_def asleep_def

lemma race_run: "case wrun Ltickslock Cticks race_sched race0 of None \<Rightarrow> False | Some t \<Rightarrow> cond t \<and> asleep Cticks (kern t) 0"
  by (simp add: race_sched_def race0_def Let_def race_defs)

lemma race0_init: "winit ch race0"
  by (auto simp: winit_def race0_def Let_def less_Suc_eq less_2_cases_iff)

theorem sleep_wakeup_not_lost_witness:
  "\<exists>t :: unit console_ext wsys. wreach Ltickslock Cticks t \<and> cond t \<and> asleep Cticks (kern t) 0 \<and> (\<exists>c j. runs t c j \<and>
     (posn t j = Waking 1 \<and> (\<exists>u. wstep Ltickslock Cticks True c t = Ret () u \<and> state (procs (kern u) ! 0) = RUNNABLE) \<or>
      posn t j = Waking 0 \<and> (wstep Ltickslock Cticks True c t = Spin \<or>
        (\<exists>u. wstep Ltickslock Cticks True c t = Ret () u \<and> runs u c j \<and> posn u j = Waking 1))))"
proof -
  obtain t where t: "wrun Ltickslock Cticks race_sched race0 = Some t" "cond t" "asleep Cticks (kern t) 0"
    using race_run by (auto split: option.splits)
  have r: "wreach Ltickslock Cticks t" by (rule wrun_reach [OF wreach_init [OF race0_init] t(1)])
  have "Ltickslock \<noteq> Lptable" by simp
  from mp [OF conjunct2 [OF sleep_wakeup_not_lost [OF r this, of True 0]] conjI [OF t(2,3)]]
  show ?thesis using r t(2,3) by blast
qed

end
