(* ===== verification/Smp.thy ===== *)
theory Smp
  imports Spinlock
begin

text \<open>
  Several processors in the lock code of spinlock.c. The routines of Spinlock.thy are cut at
  the memory accesses other processors can see; a step of the system runs one piece on one
  processor. The invariant ties the lock words, their owners and the \<open>pushcli\<close> counts
  together, and gives mutual exclusion.
\<close>

section \<open>Steps\<close>

text \<open>
  Where a processor is in the lock code: outside it, past the entry of \<open>acquire\<close>, past a
  successful exchange, in \<open>release\<close> past the clearing of the owner, and past the store of zero.
\<close>

datatype lpc = Run | Try lock | Taken lock | Dropping lock | Leaving lock

text \<open>
  The shared machine with, per processor, its interrupt flag, its position, and two ghost
  fields: the locks it holds and the number of its other open \<open>pushcli\<close> calls.
\<close>

record smp =
  shared :: machine
  ifs :: "nat \<Rightarrow> bool"
  pc :: "nat \<Rightarrow> lpc"
  held :: "nat \<Rightarrow> lock set"
  extra :: "nat \<Rightarrow> nat"

definition view :: "nat \<Rightarrow> smp \<Rightarrow> machine" where
  "view c t = (shared t)\<lparr>lapic_id := apicid (cpus (shared t) ! c), IF := ifs t c\<rparr>"

definition put :: "nat \<Rightarrow> machine \<Rightarrow> smp \<Rightarrow> smp" where
  "put c s t = t\<lparr>shared := s, ifs := (ifs t)(c := IF s)\<rparr>"

inductive lstep :: "smp \<Rightarrow> smp \<Rightarrow> bool" where
  enter: "c < ncpu (shared t) \<Longrightarrow> pc t c = Run \<Longrightarrow> acq_enter l (view c t) = Ret () s \<Longrightarrow>
    lstep t ((put c s t)\<lparr>pc := (pc t)(c := Try l)\<rparr>)"
| spin: "c < ncpu (shared t) \<Longrightarrow> pc t c = Try l \<Longrightarrow> xchg_locked l (view c t) = (old, s) \<Longrightarrow>
    old \<noteq> 0 \<Longrightarrow> lstep t (put c s t)"
| take: "c < ncpu (shared t) \<Longrightarrow> pc t c = Try l \<Longrightarrow> xchg_locked l (view c t) = (old, s) \<Longrightarrow>
    old = 0 \<Longrightarrow> lstep t ((put c s t)\<lparr>pc := (pc t)(c := Taken l)\<rparr>)"
| rec: "c < ncpu (shared t) \<Longrightarrow> pc t c = Taken l \<Longrightarrow> acq_record l (view c t) = Ret () s \<Longrightarrow>
    lstep t ((put c s t)\<lparr>pc := (pc t)(c := Run), held := (held t)(c := insert l (held t c))\<rparr>)"
| clear: "c < ncpu (shared t) \<Longrightarrow> pc t c = Run \<Longrightarrow> rel_clear l (view c t) = Ret () s \<Longrightarrow>
    lstep t ((put c s t)\<lparr>pc := (pc t)(c := Dropping l), held := (held t)(c := held t c - {l})\<rparr>)"
| unlock: "c < ncpu (shared t) \<Longrightarrow> pc t c = Dropping l \<Longrightarrow> s = rel_unlock l (view c t) \<Longrightarrow>
    lstep t ((put c s t)\<lparr>pc := (pc t)(c := Leaving l)\<rparr>)"
| leave: "c < ncpu (shared t) \<Longrightarrow> pc t c = Leaving l \<Longrightarrow> popcli (view c t) = Ret () s \<Longrightarrow>
    lstep t ((put c s t)\<lparr>pc := (pc t)(c := Run)\<rparr>)"
| push: "c < ncpu (shared t) \<Longrightarrow> pc t c = Run \<Longrightarrow> pushcli (view c t) = Ret () s \<Longrightarrow>
    lstep t ((put c s t)\<lparr>extra := (extra t)(c := Suc (extra t c))\<rparr>)"
| pop: "c < ncpu (shared t) \<Longrightarrow> pc t c = Run \<Longrightarrow> extra t c = Suc n \<Longrightarrow> popcli (view c t) = Ret () s \<Longrightarrow>
    lstep t ((put c s t)\<lparr>extra := (extra t)(c := n)\<rparr>)"
| enable: "c < ncpu (shared t) \<Longrightarrow> pc t c = Run \<Longrightarrow> ncli (cpus (shared t) ! c) = 0 \<Longrightarrow>
    lstep t (put c (sti (view c t)) t)"
| disable: "c < ncpu (shared t) \<Longrightarrow> pc t c = Run \<Longrightarrow> lstep t (put c (cli (view c t)) t)"

definition smp_init :: "smp \<Rightarrow> bool" where
  "smp_init t \<longleftrightarrow>
     ncpu (shared t) \<le> length (cpus (shared t)) \<and>
     distinct (map apicid (List.take (ncpu (shared t)) (cpus (shared t)))) \<and>
     (\<forall>l. locked (locks (shared t) l) = 0 \<and> lcpu (locks (shared t) l) = None) \<and>
     (\<forall>c. pc t c = Run \<and> held t c = {} \<and> extra t c = 0) \<and>
     (\<forall>c < ncpu (shared t). ncli (cpus (shared t) ! c) = 0)"

inductive smp_reach :: "smp \<Rightarrow> bool" where
  start: "smp_init t \<Longrightarrow> smp_reach t"
| step: "smp_reach t \<Longrightarrow> lstep t u \<Longrightarrow> smp_reach u"

text \<open>A processor owns a lock from its successful exchange until it stores zero.\<close>

definition owns :: "smp \<Rightarrow> nat \<Rightarrow> lock \<Rightarrow> bool" where
  "owns t c l \<longleftrightarrow> l \<in> held t c \<or> pc t c = Taken l \<or> pc t c = Dropping l"

definition smp_inv :: "smp \<Rightarrow> bool" where
  "smp_inv t \<longleftrightarrow>
     ncpu (shared t) \<le> length (cpus (shared t)) \<and>
     distinct (map apicid (List.take (ncpu (shared t)) (cpus (shared t)))) \<and>
     (\<forall>c l. lcpu (locks (shared t) l) = Some c \<longleftrightarrow> l \<in> held t c) \<and>
     (\<forall>l. locked (locks (shared t) l) \<noteq> 0 \<longleftrightarrow> (\<exists>c. owns t c l)) \<and>
     (\<forall>c d l. owns t c l \<and> owns t d l \<longrightarrow> c = d) \<and>
     (\<forall>c l. pc t c = Taken l \<or> pc t c = Dropping l \<longrightarrow> l \<notin> held t c) \<and>
     (\<forall>c. c \<ge> ncpu (shared t) \<longrightarrow> held t c = {} \<and> pc t c = Run) \<and>
     (\<forall>c < ncpu (shared t). finite (held t c) \<and>
        ncli (cpus (shared t) ! c) =
          int (card (held t c)) + int (extra t c) + (if pc t c = Run then 0 else 1) \<and>
        (0 < ncli (cpus (shared t) ! c) \<longrightarrow> \<not> ifs t c))"

text \<open>A machine of two idle processors with all locks free.\<close>

definition two_cpus :: smp where
  "two_cpus =
    (let k = \<lparr>apicid = 0, ts = \<lparr>ss0 = 0, esp0 = 0, iomb = 0\<rparr>, ts_addr = 0, gdt = [], started = True,
              ncli = 0, intena = False, cproc = None\<rparr>
     in \<lparr>shared = \<lparr>cpus = [k, k\<lparr>apicid := 1\<rparr>], ncpu = 2, lapic_id = 0, IF = True, cr3 = 0, tr = 0,
           gdtr = [], locks = (\<lambda>_. \<lparr>locked = 0, lname = [], lcpu = None\<rparr>), printed = []\<rparr>,
         ifs = (\<lambda>_. True), pc = (\<lambda>_. Run), held = (\<lambda>_. {}), extra = (\<lambda>_. 0)\<rparr>)"

section \<open>The invariant\<close>

inductive_cases lstepE: "lstep t u"

lemma smp_inv_cpu:
  assumes "smp_inv t" "c < ncpu (shared t)"
  shows "ncli (cpus (shared t) ! c) =
      int (card (held t c)) + int (extra t c) + (if pc t c = Run then 0 else 1)"
    "finite (held t c)" "0 < ncli (cpus (shared t) ! c) \<Longrightarrow> \<not> ifs t c" "c < length (cpus (shared t))"
  using assms by (auto simp: smp_inv_def)

lemma smp_inv_lock:
  assumes "smp_inv t"
  shows "lcpu (locks (shared t) l) = Some c \<longleftrightarrow> l \<in> held t c"
    "locked (locks (shared t) l) = 0 \<longleftrightarrow> (\<forall>c. \<not> owns t c l)"
    "owns t c l \<Longrightarrow> owns t d l \<Longrightarrow> c = d"
    "pc t c = Taken l \<or> pc t c = Dropping l \<Longrightarrow> l \<notin> held t c"
  using assms unfolding smp_inv_def by (blast, metis, blast, blast)

lemma smp_inv_global:
  assumes "smp_inv t"
  shows "ncpu (shared t) \<le> length (cpus (shared t))"
    "distinct (map apicid (List.take (ncpu (shared t)) (cpus (shared t))))"
    "ncpu (shared t) \<le> c \<Longrightarrow> held t c = {}" "ncpu (shared t) \<le> c \<Longrightarrow> pc t c = Run"
  using assms unfolding smp_inv_def by (blast, blast, blast, blast)

lemma smp_inv_step:
  assumes inv: "smp_inv t" and c: "c < ncpu (shared t)"
    and u: "ncpu (shared u) = ncpu (shared t)" "cpus (shared u) = (cpus (shared t))[c := k]"
      "locks (shared u) = (locks (shared t))(l := q)" "ifs u = (ifs t)(c := b)"
      "pc u = (pc t)(c := p)" "held u = (held t)(c := h)" "extra u = (extra t)(c := e)"
    and k: "apicid k = apicid (cpus (shared t) ! c)" "finite h"
      "ncli k = int (card h) + int e + (if p = Run then 0 else 1)" "0 < ncli k \<longrightarrow> \<not> b"
    and p: "\<forall>m. p = Taken m \<or> p = Dropping m \<longrightarrow> m \<notin> h"
    and m: "\<forall>m. m \<noteq> l \<longrightarrow> (m \<in> h \<longleftrightarrow> m \<in> held t c) \<and>
        (p = Taken m \<or> p = Dropping m \<longleftrightarrow> pc t c = Taken m \<or> pc t c = Dropping m)"
    and q: "\<forall>d. lcpu q = Some d \<longleftrightarrow> (if d = c then l \<in> h else l \<in> held t d)"
      "locked q \<noteq> 0 \<longleftrightarrow> owns u c l \<or> (\<exists>d. d \<noteq> c \<and> owns t d l)"
      "owns u c l \<longrightarrow> (\<forall>d. d \<noteq> c \<longrightarrow> \<not> owns t d l)"
  shows "smp_inv u"
proof -
  note cp = smp_inv_cpu [OF inv] and lk = smp_inv_lock [OF inv] and gl = smp_inv_global [OF inv]
  have o: "owns u d n \<longleftrightarrow> (if d = c \<and> n = l then owns u c l else owns t d n)" for d n
    using m by (auto simp: owns_def u)
  have a: "map apicid (List.take (ncpu (shared u)) (cpus (shared u))) =
      map apicid (List.take (ncpu (shared t)) (cpus (shared t)))"
    using k(1) by (simp add: u flip: take_map)
  have "owns u d n \<Longrightarrow> owns u d' n \<Longrightarrow> d = d'" for d d' n
    using lk(3) q(3) o by metis
  moreover have "locked (locks (shared u) n) \<noteq> 0 \<longleftrightarrow> (\<exists>d. owns u d n)" for n
  proof (cases "n = l")
    case True
    moreover have "locked (locks (shared u) l) = locked q"
      by (simp add: u)
    ultimately show ?thesis using q(2) o by metis
  next
    case False
    then have "locks (shared u) n = locks (shared t) n" "\<And>d. owns u d n \<longleftrightarrow> owns t d n"
      using o by (simp add: u, metis)
    then show ?thesis using lk(2) [of n] by simp
  qed
  moreover have "lcpu (locks (shared u) n) = Some d \<longleftrightarrow> n \<in> held u d" for d n
    using lk(1) q(1) m by (simp add: u)
  moreover have "pc u d = Taken n \<or> pc u d = Dropping n \<Longrightarrow> n \<notin> held u d" for d n
    using lk(4) p by (cases "d = c") (auto simp: u)
  moreover have "ncpu (shared u) \<le> d \<Longrightarrow> held u d = {} \<and> pc u d = Run" for d
    using gl(3,4) c by (auto simp: u)
  moreover have "finite (held u d)" "ncli (cpus (shared u) ! d) =
          int (card (held u d)) + int (extra u d) + (if pc u d = Run then 0 else 1)"
    "0 < ncli (cpus (shared u) ! d) \<longrightarrow> \<not> ifs u d" if "d < ncpu (shared u)" for d
    using cp [of d] that k by (cases "d = c"; simp add: u)+
  moreover have "ncpu (shared u) \<le> length (cpus (shared u))"
    "distinct (map apicid (List.take (ncpu (shared u)) (cpus (shared u))))"
    using gl(1,2) unfolding a by (simp_all add: u)
  ultimately show ?thesis
    unfolding smp_inv_def by blast
qed

lemma view_simps [simp]:
  "cpus (view c t) = cpus (shared t)" "ncpu (view c t) = ncpu (shared t)"
  "locks (view c t) = locks (shared t)" "IF (view c t) = ifs t c"
  by (simp_all add: view_def)

lemma put_simps [simp]:
  "shared (put c s t) = s" "ifs (put c s t) = (ifs t)(c := IF s)" "pc (put c s t) = pc t"
  "held (put c s t) = held t" "extra (put c s t) = extra t"
  by (simp_all add: put_def)

lemma view_ok:
  assumes "smp_inv t" "c < ncpu (shared t)"
  shows "cpu_ok c (view c t)"
proof -
  have "this_cpu (view c t) = Some c"
    using assms(2) smp_inv_global(1,2) [OF assms(1)]
      scan_unique [of apicid "List.take (ncpu (shared t)) (cpus (shared t))" c]
    by (simp add: this_cpu_def view_def)
  then show ?thesis
    using smp_inv_cpu [OF assms] by (simp add: cpu_ok_def)
qed


text \<open>A step that changes no lock and not what processor \<open>c\<close> owns.\<close>

lemma smp_inv_keep:
  assumes inv: "smp_inv t" and c: "c < ncpu (shared t)"
    and u: "ncpu (shared u) = ncpu (shared t)" "cpus (shared u) = (cpus (shared t))[c := k]"
      "locks (shared u) = locks (shared t)" "ifs u = (ifs t)(c := b)"
      "pc u = (pc t)(c := p)" "held u = held t" "extra u = (extra t)(c := e)"
    and k: "apicid k = apicid (cpus (shared t) ! c)"
      "ncli k = int (card (held t c)) + int e + (if p = Run then 0 else 1)" "0 < ncli k \<longrightarrow> \<not> b"
    and p: "\<forall>m. p \<noteq> Taken m \<and> p \<noteq> Dropping m \<and> pc t c \<noteq> Taken m \<and> pc t c \<noteq> Dropping m"
  shows "smp_inv u"
proof (rule smp_inv_step [OF inv c, of u k Lkmem "locks (shared t) Lkmem" b p "held t c" e])
  note lk = smp_inv_lock [OF inv, where l = Lkmem]
  have o: "owns u c Lkmem \<longleftrightarrow> owns t c Lkmem"
    using p by (simp add: owns_def u)
  show "(locked (locks (shared t) Lkmem) \<noteq> 0) = (owns u c Lkmem \<or> (\<exists>d. d \<noteq> c \<and> owns t d Lkmem))"
    using lk(2) o by metis
  show "owns u c Lkmem \<longrightarrow> (\<forall>d. d \<noteq> c \<longrightarrow> \<not> owns t d Lkmem)"
    using lk(3) o by metis
qed (use smp_inv_cpu [OF inv c] smp_inv_lock(1) [OF inv] p k in \<open>simp_all add: u\<close>)


lemma smp_inv_enter:
  assumes "smp_inv t" "c < ncpu (shared t)" "pc t c = Run" "acq_enter l (view c t) = Ret () s"
  shows "smp_inv ((put c s t)\<lparr>pc := (pc t)(c := Try l)\<rparr>)"
proof -
  have s: "s = push_st c (view c t)"
    by (rule acq_enter_Ret(1) [OF view_ok [OF assms(1,2)] assms(4)])
  show ?thesis
    using smp_inv_cpu [OF assms(1,2)] assms(3)
    by (intro smp_inv_keep [OF assms(1,2), where k = "cpus s ! c" and b = False and p = "Try l"
          and e = "extra t c"]) (simp_all add: s push_st_def)
qed

lemma smp_inv_push:
  assumes "smp_inv t" "c < ncpu (shared t)" "pc t c = Run" "pushcli (view c t) = Ret () s"
  shows "smp_inv ((put c s t)\<lparr>extra := (extra t)(c := Suc (extra t c))\<rparr>)"
proof -
  have s: "s = push_st c (view c t)"
    using pushcli_ok [OF cpu_ok_this [OF view_ok [OF assms(1,2)]]] assms(4) by simp
  show ?thesis
    using smp_inv_cpu [OF assms(1,2)] assms(3)
    by (intro smp_inv_keep [OF assms(1,2), where k = "cpus s ! c" and b = False and p = Run
          and e = "Suc (extra t c)"]) (simp_all add: s push_st_def fun_upd_idem)
qed

text \<open>\<open>popcli\<close> of processor \<open>c\<close>, whose count is positive.\<close>

lemma smp_inv_popcli:
  assumes "smp_inv t" "c < ncpu (shared t)" "popcli (view c t) = Ret () s"
    and "\<forall>m. pc t c \<noteq> Taken m \<and> pc t c \<noteq> Dropping m"
    and "int (extra t c) + (if pc t c = Run then 0 else 1) = int e + 1"
  shows "smp_inv ((put c s t)\<lparr>pc := (pc t)(c := Run), extra := (extra t)(c := e)\<rparr>)"
proof -
  note ok = view_ok [OF assms(1,2)] and f = smp_inv_cpu [OF assms(1,2)]
  have n: "0 < ncli (cpus (shared t) ! c)"
    using f(1) assms(5) by linarith
  then have s: "s = pop_st c (view c t)"
    using popcli_ok [OF cpu_ok_this [OF ok]] f(3) assms(3) by simp
  show ?thesis
    using f assms(4,5) n
    by (intro smp_inv_keep [OF assms(1,2), where k = "cpus s ! c" and b = "IF s" and p = Run
          and e = e]) (simp_all add: s pop_st_def)
qed

lemma smp_inv_spin_take:
  assumes "smp_inv t" "c < ncpu (shared t)" "pc t c = Try l" "xchg_locked l (view c t) = (old, s)"
  shows "smp_inv ((put c s t)\<lparr>pc := (pc t)(c := if old = 0 then Taken l else Try l)\<rparr>)" (is "smp_inv ?u")
proof (rule smp_inv_step [OF assms(1,2), where k = "cpus (shared t) ! c" and l = l and b = "ifs t c"
      and q = "(locks (shared t) l)\<lparr>locked := 1\<rparr>" and p = "if old = 0 then Taken l else Try l"
      and h = "held t c" and e = "extra t c"])
  note lk = smp_inv_lock [OF assms(1), where l = l]
  have x: "old = locked (locks (shared t) l)" "s = upd_lock l (\<lambda>k. k\<lparr>locked := 1\<rparr>) (view c t)"
    using assms(4) by (simp_all add: xchg_locked_def)
  have o: "owns ?u c l \<longleftrightarrow> owns t c l \<or> old = 0"
    using assms(3) by (simp add: owns_def)
  show "(locked ((locks (shared t) l)\<lparr>locked := 1\<rparr>) \<noteq> 0) = (owns ?u c l \<or> (\<exists>d. d \<noteq> c \<and> owns t d l))"
    using lk(2) o x(1) by (simp; metis)
  show "owns ?u c l \<longrightarrow> (\<forall>d. d \<noteq> c \<longrightarrow> \<not> owns t d l)"
    using lk(2,3) o x(1) by metis
  show "\<forall>m. (if old = 0 then Taken l else Try l) = Taken m \<or> (if old = 0 then Taken l else Try l) = Dropping m
      \<longrightarrow> m \<notin> held t c"
    using lk(2) x(1) by (auto simp: owns_def)
  show "ncpu (shared ?u) = ncpu (shared t)" "cpus (shared ?u) = (cpus (shared t))[c := cpus (shared t) ! c]"
    "locks (shared ?u) = (locks (shared t))(l := (locks (shared t) l)\<lparr>locked := 1\<rparr>)"
    "ifs ?u = (ifs t)(c := ifs t c)"
    by (simp_all add: x)
qed (use smp_inv_cpu [OF assms(1,2)] smp_inv_lock(1) [OF assms(1)] assms(3) in \<open>simp_all\<close>)


lemma smp_inv_rec:
  assumes "smp_inv t" "c < ncpu (shared t)" "pc t c = Taken l" "acq_record l (view c t) = Ret () s"
  shows "smp_inv ((put c s t)\<lparr>pc := (pc t)(c := Run), held := (held t)(c := insert l (held t c))\<rparr>)"
    (is "smp_inv ?u")
proof -
  note ok = view_ok [OF assms(1,2)] and f = smp_inv_cpu [OF assms(1,2)]
    and lk = smp_inv_lock [OF assms(1)]
  have "0 < ncli (cpus (shared t) ! c)"
    using f(1) assms(3) by simp
  then have s: "s = upd_lock l (\<lambda>k. k\<lparr>lcpu := Some c\<rparr>) (view c t)"
    using assms(4) acq_record_ok [OF cpu_ok_this [OF ok], of l] f(3) by simp
  have o: "owns t c l" "owns ?u c l"
    using assms(3) by (simp_all add: owns_def)
  have "l \<notin> held t c"
    using lk(4) assms(3) by blast
  moreover have "l \<notin> held t d" if "d \<noteq> c" for d
    using lk(3) [OF o(1)] that by (auto simp: owns_def)
  moreover have "\<not> owns t d l" if "d \<noteq> c" for d
    using lk(3) [OF o(1)] that by auto
  moreover have "locked (locks (shared t) l) \<noteq> 0"
    using lk(2) o(1) by blast
  ultimately show ?thesis
    using f assms(3) o(2)
    by (intro smp_inv_step [OF assms(1,2), where k = "cpus (shared t) ! c" and l = l and b = "ifs t c"
          and q = "(locks (shared t) l)\<lparr>lcpu := Some c\<rparr>" and p = Run
          and h = "insert l (held t c)" and e = "extra t c"]) (auto simp: s)
qed

lemma smp_inv_clear:
  assumes "smp_inv t" "c < ncpu (shared t)" "pc t c = Run" "rel_clear l (view c t) = Ret () s"
  shows "smp_inv ((put c s t)\<lparr>pc := (pc t)(c := Dropping l), held := (held t)(c := held t c - {l})\<rparr>)"
    (is "smp_inv ?u")
proof -
  note ok = view_ok [OF assms(1,2)] and f = smp_inv_cpu [OF assms(1,2)]
    and lk = smp_inv_lock [OF assms(1)]
  have h: "l \<in> held t c" and ne: "locked (locks (shared t) l) \<noteq> 0"
    and s: "s = upd_lock l (\<lambda>k. k\<lparr>lcpu := None\<rparr>) (pop_st c (push_st c (view c t)))"
    using rel_clear_Ret [OF ok assms(4)] lk(1) by (auto simp: lock_held_def)
  have card: "card (held t c) = Suc (card (held t c - {l}))"
    using card.remove [OF f(2) h] .
  have o: "owns t c l" "owns ?u c l"
    using h by (simp_all add: owns_def)
  have "\<not> owns t d l" "l \<notin> held t d" if "d \<noteq> c" for d
    using lk(3) [OF o(1), of d] that by (auto simp: owns_def)
  moreover have "\<not> ifs t c"
    using f(1,3) card by simp
  ultimately show ?thesis
    using f assms(3) o(2) ne card
    by (intro smp_inv_step [OF assms(1,2), where l = l and b = "ifs t c"
          and k = "(cpus (shared t) ! c)\<lparr>intena := (if ncli (cpus (shared t) ! c) = 0
              then ifs t c else intena (cpus (shared t) ! c))\<rparr>"
          and q = "(locks (shared t) l)\<lparr>lcpu := None\<rparr>" and p = "Dropping l"
          and h = "held t c - {l}" and e = "extra t c"]) (auto simp: s pop_push_cpus [OF ok])
qed

lemma smp_inv_unlock:
  assumes "smp_inv t" "c < ncpu (shared t)" "pc t c = Dropping l" "s = rel_unlock l (view c t)"
  shows "smp_inv ((put c s t)\<lparr>pc := (pc t)(c := Leaving l)\<rparr>)" (is "smp_inv ?u")
proof -
  note f = smp_inv_cpu [OF assms(1,2)] and lk = smp_inv_lock [OF assms(1)]
  have o: "owns t c l"
    using assms(3) by (simp add: owns_def)
  have "l \<notin> held t c"
    using lk(4) assms(3) by blast
  moreover from this have "\<not> owns ?u c l"
    by (simp add: owns_def)
  moreover have "\<not> owns t d l" if "d \<noteq> c" for d
    using lk(3) [OF o] that by auto
  ultimately show ?thesis
    using f assms(3) lk(1)
    by (intro smp_inv_step [OF assms(1,2), where k = "cpus (shared t) ! c" and l = l and b = "ifs t c"
          and q = "(locks (shared t) l)\<lparr>locked := 0\<rparr>" and p = "Leaving l"
          and h = "held t c" and e = "extra t c"]) (auto simp: assms(4) rel_unlock_def)
qed

lemma smp_inv_flag:
  assumes "smp_inv t" "c < ncpu (shared t)" "pc t c = Run" "b \<longrightarrow> ncli (cpus (shared t) ! c) = 0"
    and "s = (view c t)\<lparr>IF := b\<rparr>"
  shows "smp_inv (put c s t)"
  using smp_inv_cpu [OF assms(1,2)] assms(3,4)
  by (intro smp_inv_keep [OF assms(1,2), where k = "cpus (shared t) ! c" and b = b and p = Run
        and e = "extra t c"]) (auto simp: assms(5) fun_upd_idem)

lemma smp_inv_lstep:
  assumes "lstep t u" "smp_inv t"
  shows "smp_inv u"
  using assms
proof (induction rule: lstep.induct)
  case (spin c t l old s)
  then have "pc t = (pc t)(c := Try l)" by (simp add: fun_upd_idem)
  then have "put c s t = (put c s t)\<lparr>pc := (pc t)(c := if old = 0 then Taken l else Try l)\<rparr>"
    using spin by (simp add: put_def)
  then show ?case
    using smp_inv_spin_take [OF spin(5,1,2,3)] by metis
next
  case (take c t l old s)
  then show ?case
    using smp_inv_spin_take [OF take(5,1,2,3)] by simp
next
  case (leave c t l s)
  then show ?case
    using smp_inv_popcli [OF leave(4,1,3), of "extra t c"] by (simp add: put_def)
next
  case (pop c t n s)
  then have "pc t = (pc t)(c := Run)" by (simp add: fun_upd_idem)
  then have "(put c s t)\<lparr>extra := (extra t)(c := n)\<rparr> =
      (put c s t)\<lparr>pc := (pc t)(c := Run), extra := (extra t)(c := n)\<rparr>"
    by (simp add: put_def)
  then show ?case
    using smp_inv_popcli [OF pop(5,1,4), of n] pop(2,3) by simp
qed (auto intro: smp_inv_enter smp_inv_rec smp_inv_clear smp_inv_unlock smp_inv_push
      smp_inv_flag [where b = True] smp_inv_flag [where b = False] simp: sti_def cli_def)

lemma smp_inv_init: "smp_init t \<Longrightarrow> smp_inv t"
  by (auto simp: smp_init_def smp_inv_def owns_def)

lemma smp_inv_reach: "smp_reach t \<Longrightarrow> smp_inv t"
  by (induction rule: smp_reach.induct) (auto intro: smp_inv_init smp_inv_lstep)

section \<open>Properties\<close>

text \<open>
  C2. Mutual exclusion. However the processors interleave their passes through \<open>acquire\<close> and
  \<open>release\<close>, at most one of them is between its successful exchange on a lock and its store
  of zero; that processor has interrupts off; and the lock word is nonzero exactly while some
  processor owns the lock.
\<close>

theorem spinlock_mutual_exclusion:
  assumes "smp_reach t"
  shows "(owns t c l \<and> owns t d l \<longrightarrow> c = d) \<and> (owns t c l \<longrightarrow> \<not> ifs t c) \<and>
    (locked (locks (shared t) l) \<noteq> 0 \<longleftrightarrow> (\<exists>c. owns t c l))"
proof -
  have inv: "smp_inv t"
    by (rule smp_inv_reach [OF assms])
  have "\<not> ifs t c" if "owns t c l"
  proof -
    have c: "c < ncpu (shared t)"
      using that smp_inv_global(3,4) [OF inv] by (auto simp: owns_def not_le [symmetric])
    have "0 < card (held t c) \<or> pc t c \<noteq> Run"
      using that smp_inv_cpu(2) [OF inv c] by (auto simp: owns_def card_gt_0_iff)
    then have "0 < ncli (cpus (shared t) ! c)"
      using smp_inv_cpu(1) [OF inv c] by auto
    then show ?thesis
      by (rule smp_inv_cpu(3) [OF inv c])
  qed
  then show ?thesis
    using smp_inv_lock(2,3) [OF inv] by metis
qed

text \<open>Witness: processor 1 enters \<open>acquire\<close> of the allocator's lock and wins the exchange.\<close>

theorem spinlock_mutual_exclusion_witness:
  "\<exists>t. smp_reach t \<and> owns t 1 Lkmem \<and> \<not> owns t 0 Lkmem \<and> \<not> ifs t 1"
proof -
  let ?t = two_cpus
  let ?s = "push_st 1 (view 1 ?t)"
  let ?t1 = "(put 1 ?s ?t)\<lparr>pc := (pc ?t)(1 := Try Lkmem)\<rparr>"
  let ?t2 = "(put 1 (snd (xchg_locked Lkmem (view 1 ?t1))) ?t1)\<lparr>pc := (pc ?t1)(1 := Taken Lkmem)\<rparr>"
  have i: "smp_init ?t"
    by (auto simp: smp_init_def two_cpus_def Let_def numeral_2_eq_2 less_Suc_eq)
  have n: "ncpu (shared ?t) = 2" and r: "pc ?t 1 = Run" and l: "locks (shared ?t) Lkmem = \<lparr>locked = 0, lname = [], lcpu = None\<rparr>"
    by (simp_all add: two_cpus_def Let_def)
  have "\<not> lock_held 1 Lkmem (view 1 ?t)"
    by (simp add: lock_held_def l)
  then have "acq_enter Lkmem (view 1 ?t) = Ret () ?s"
    using view_ok [OF smp_inv_init [OF i], of 1] n by (simp add: acq_enter_ok)
  then have "lstep ?t ?t1"
    using n r by (intro lstep.enter) simp_all
  moreover have "lstep ?t1 ?t2"
    using n by (intro lstep.take [where old = 0 and l = Lkmem]) (simp_all add: xchg_locked_def l)
  ultimately have "smp_reach ?t2"
    using i by (blast intro: smp_reach.intros)
  then show ?thesis
    using spinlock_mutual_exclusion [of ?t2 1 Lkmem 0] by (auto simp: owns_def intro!: exI [of _ ?t2])
qed

end
