(* ===== verification/Kbd.thy ===== *)
theory Kbd
  imports Console
begin

text \<open>
  kbd.c and kbd.h: the translation of scan codes to characters, with the shift state, and the
  interrupt handlers of the keyboard and of the serial port, which feed the console.
\<close>

definition KBS_DIB :: u8 where "KBS_DIB = 1"
definition SHIFT :: u32 where "SHIFT = 1"
definition CTL :: u32 where "CTL = 2"
definition ALT :: u32 where "ALT = 4"
definition CAPSLOCK :: u32 where "CAPSLOCK = 8"
abbreviation NUMLOCK :: u32 where "NUMLOCK \<equiv> 16"
abbreviation SCROLLLOCK :: u32 where "SCROLLLOCK \<equiv> 32"
definition E0ESC :: u32 where "E0ESC = 64"

text \<open>An array of 256 entries with the given first ones, the rest zero.\<close>

definition map256 :: "u8 list \<Rightarrow> u8 list" where
  "map256 xs = xs @ replicate (256 - length xs) 0"

definition shiftcode :: "u8 list" where
  "shiftcode = (map256 [])[0x1D := ucast CTL, 0x2A := ucast SHIFT, 0x36 := ucast SHIFT,
     0x38 := ucast ALT, 0x9D := ucast CTL, 0xB8 := ucast ALT]"

definition togglecode :: "u8 list" where
  "togglecode = (map256 [])[0x3A := ucast CAPSLOCK, 0x45 := ucast NUMLOCK, 0x46 := ucast SCROLLLOCK]"

text \<open>The keys of the extended pad, the same in the three maps.\<close>

definition with_keypad :: "u8 \<Rightarrow> u8 \<Rightarrow> u8 list \<Rightarrow> u8 list" where
  "with_keypad enter slash m = m[0x9C := enter, 0xB5 := slash, 0xC8 := 0xE2, 0xD0 := 0xE3,
     0xC9 := 0xE6, 0xD1 := 0xE7, 0xCB := 0xE4, 0xCD := 0xE5, 0x97 := 0xE0, 0xCF := 0xE1,
     0xD2 := 0xE8, 0xD3 := 0xE9]"

definition normalmap :: "u8 list" where
  "normalmap = with_keypad 10 47 (map256
     ([0, 0x1B] @ map of_char ''1234567890-='' @ [8, 9]
      @ map of_char ''qwertyuiop[]'' @ [10, 0] @ map of_char ''asdfghjkl;'' @ [39, 96, 0, 92]
      @ map of_char ''zxcvbnm,./'' @ [0] @ map of_char ''*'' @ [0] @ map of_char '' ''
      @ replicate 13 0 @ map of_char ''789-456+1230.'' @ replicate 4 0))"

definition shiftmap :: "u8 list" where
  "shiftmap = with_keypad 10 47 (map256
     ([0, 0x1B] @ map of_char ''!@#$%^&*()_+'' @ [8, 9]
      @ map of_char ''QWERTYUIOP{}'' @ [10, 0] @ map of_char ''ASDFGHJKL:'' @ [34, 126, 0, 124]
      @ map of_char ''ZXCVBNM<>?'' @ [0] @ map of_char ''*'' @ [0] @ map of_char '' ''
      @ replicate 13 0 @ map of_char ''789-456+1230.'' @ replicate 4 0))"

definition ctls :: "string \<Rightarrow> u8 list" where
  "ctls x = map (\<lambda>c. of_int (Ctl c)) x"

definition ctlmap :: "u8 list" where
  "ctlmap = with_keypad 13 (of_int (Ctl CHR ''/'')) (map256
     (replicate 16 0 @ ctls ''QWERTYUIOP'' @ [0, 0, 13, 0] @ ctls ''ASDFGHJKL'' @ replicate 4 0
      @ ctls [CHR 0x5C] @ ctls ''ZXCVBNM'' @ [0, 0] @ ctls ''/'' @ [0, 0]))"

definition charcode :: "u32 \<Rightarrow> u8 list" where
  "charcode i = [normalmap, shiftmap, ctlmap, ctlmap] ! unat i"

text \<open>The exchange of upper and lower case under caps lock.\<close>

definition capslock_char :: "int \<Rightarrow> int" where
  "capslock_char c =
     (if of_char CHR ''a'' \<le> c \<and> c \<le> of_char CHR ''z'' then c + (of_char CHR ''A'' - of_char CHR ''a'')
      else if of_char CHR ''A'' \<le> c \<and> c \<le> of_char CHR ''Z'' then c + (of_char CHR ''a'' - of_char CHR ''A'')
      else c)"

text \<open>
  \<open>kbdgetc\<close> on the bytes the status and data ports deliver: the result and the new shift state.
\<close>

definition kbdgetc :: "u8 \<Rightarrow> u8 \<Rightarrow> u32 \<Rightarrow> int \<times> u32" where
  "kbdgetc st d shift =
     (if st AND KBS_DIB = 0 then (-1, shift)
      else if d = 0xE0 then (0, shift OR E0ESC)
      else if d AND 0x80 \<noteq> 0 then
        let d = (if shift AND E0ESC \<noteq> 0 then d else d AND 0x7F)
        in (0, shift AND NOT (ucast (shiftcode ! unat d) OR E0ESC))
      else
        let d' = (if shift AND E0ESC \<noteq> 0 then d OR 0x80 else d);
            shift = (if shift AND E0ESC \<noteq> 0 then shift AND NOT E0ESC else shift);
            shift = shift OR ucast (shiftcode ! unat d');
            shift = shift XOR ucast (togglecode ! unat d');
            c = uint (charcode (shift AND (CTL OR SHIFT)) ! unat d');
            c = (if shift AND CAPSLOCK \<noteq> 0 then capslock_char c else c)
        in (c, shift))"

text \<open>The characters a sequence of calls of \<open>kbdgetc\<close> delivers.\<close>

fun kbd_chars :: "(u8 \<times> u8) list \<Rightarrow> u32 \<Rightarrow> int list \<times> u32" where
  "kbd_chars [] shift = ([], shift)"
| "kbd_chars ((st, d) # ins) shift =
     (let (c, shift) = kbdgetc st d shift
      in if c < 0 then ([c], shift)
         else let (cs, shift) = kbd_chars ins shift in (c # cs, shift))"

definition kbdintr :: "(u8 \<times> u8) list \<Rightarrow> 'a console_scheme \<Rightarrow> (unit, 'a console_scheme) kres" where
  "kbdintr ins s =
     (let (cs, shift) = kbd_chars ins (kbd_shift s)
      in consoleintr cs (s\<lparr>kbd_shift := shift\<rparr>))"

definition uartintr :: "(u8 \<times> u8) list \<Rightarrow> 'a console_scheme \<Rightarrow> (unit, 'a console_scheme) kres" where
  "uartintr ins s = consoleintr (map (\<lambda>(st, d). uartgetc st d s) ins) s"

end
