(* ===== verification/Bio.thy ===== *)
theory Bio
  imports Kbd
begin

text \<open>
  bio.c, the buffer cache, over the disk of memide.c: blocks held in memory, read and written at
  once. The disk is the list of its blocks of 512 bytes. Every block written is also appended to
  \<open>dwrites\<close>, so that the states of the disk between two writes can be talked about.

  A pointer to a buffer is \<open>Buf i\<close> for entry \<open>i\<close> of \<open>bcache.buf\<close>, and \<open>Head\<close> for \<open>bcache.head\<close>.
\<close>

section \<open>Buffers\<close>

definition BSIZE :: nat where "BSIZE = 512"
definition MAXOPBLOCKS :: nat where "MAXOPBLOCKS = 10"
definition NBUF :: nat where "NBUF = MAXOPBLOCKS * 3"
definition B_VALID :: u32 where "B_VALID = 2"
definition B_DIRTY :: u32 where "B_DIRTY = 4"

datatype bptr = Head | Buf nat

record buf =
  flags :: u32
  bdev :: u32
  blockno :: u32
  block :: sleeplock
  refcnt :: u32
  bprev :: bptr
  bnext :: bptr
  qnext :: "nat option"
  data :: "u8 list"

text \<open>
  \<open>qnext\<close> links the request queue of the other disk driver, ide.c.
\<close>

record bcache = console +
  bufs :: "buf list"
  bhead :: buf
  memdisk :: "u8 list list"
  disksize :: int
  dwrites :: "(nat \<times> u8 list) list"

definition getb :: "'a bcache_scheme \<Rightarrow> bptr \<Rightarrow> buf" where
  "getb s p = (case p of Head \<Rightarrow> bhead s | Buf i \<Rightarrow> bufs s ! i)"

definition upd_buf :: "nat \<Rightarrow> (buf \<Rightarrow> buf) \<Rightarrow> 'a bcache_scheme \<Rightarrow> 'a bcache_scheme" where
  "upd_buf i f s = s\<lparr>bufs := (bufs s)[i := f (bufs s ! i)]\<rparr>"

definition updb :: "bptr \<Rightarrow> (buf \<Rightarrow> buf) \<Rightarrow> 'a bcache_scheme \<Rightarrow> 'a bcache_scheme" where
  "updb p f s = (case p of Head \<Rightarrow> s\<lparr>bhead := f (bhead s)\<rparr> | Buf i \<Rightarrow> upd_buf i f s)"

text \<open>The sleep lock of a buffer.\<close>

definition buf_lock :: "nat \<Rightarrow> 'a bcache_scheme slref" where
  "buf_lock i =
     \<lparr>sl_lk = Lbuf i, sl_chan = Cbuflock i, sl_get = (\<lambda>s. block (bufs s ! i)),
      sl_upd = (\<lambda>f. upd_buf i (\<lambda>b. b\<lparr>block := f (block b)\<rparr>))\<rparr>"

section \<open>memide.c\<close>

text \<open>The image of the disk is \<open>img\<close>, of \<open>n\<close> bytes.\<close>

definition ideinit :: "u8 list list \<Rightarrow> u32 \<Rightarrow> 'a bcache_scheme \<Rightarrow> 'a bcache_scheme" where
  "ideinit img n s = s\<lparr>memdisk := img, disksize := uint (n div of_nat BSIZE)\<rparr>"

definition iderw :: "nat \<Rightarrow> 'a bcache_scheme \<Rightarrow> (unit, 'a bcache_scheme) kres" where
  "iderw i s =
     bnd (holdingsleep (buf_lock i) s) (\<lambda>h s.
     if \<not> h then Panic ''iderw: buf not locked''
     else if flags (bufs s ! i) AND (B_VALID OR B_DIRTY) = B_VALID then Panic ''iderw: nothing to do''
     else if bdev (bufs s ! i) \<noteq> 1 then Panic ''iderw: request not for disk 1''
     else if blockno (bufs s ! i) \<ge> of_int (disksize s) then Panic ''iderw: block out of range''
     else
       let k = unat (blockno (bufs s ! i));
           s = (if flags (bufs s ! i) AND B_DIRTY \<noteq> 0 then
                  let s = upd_buf i (\<lambda>b. b\<lparr>flags := flags b AND NOT B_DIRTY\<rparr>) s
                  in s\<lparr>memdisk := (memdisk s)[k := data (bufs s ! i)],
                       dwrites := dwrites s @ [(k, data (bufs s ! i))]\<rparr>
                else upd_buf i (\<lambda>b. b\<lparr>data := memdisk s ! k\<rparr>) s)
       in Ret () (upd_buf i (\<lambda>b. b\<lparr>flags := flags b OR B_VALID\<rparr>) s))"

section \<open>bio.c\<close>

text \<open>\<open>binit\<close>: the loop body puts buffer \<open>i\<close> at the front of the list.\<close>

definition binit1 :: "nat \<Rightarrow> 'a bcache_scheme \<Rightarrow> 'a bcache_scheme" where
  "binit1 i s =
     (let s = upd_buf i (\<lambda>b. b\<lparr>bnext := bnext (bhead s)\<rparr>) s;
          s = upd_buf i (\<lambda>b. b\<lparr>bprev := Head\<rparr>) s;
          s = initsleeplock (buf_lock i) ''buffer'' s;
          s = updb (bnext (bhead s)) (\<lambda>b. b\<lparr>bprev := Buf i\<rparr>) s
      in s\<lparr>bhead := (bhead s)\<lparr>bnext := Buf i\<rparr>\<rparr>)"

definition binit :: "'a bcache_scheme \<Rightarrow> 'a bcache_scheme" where
  "binit s =
     (let s = initlock Lbcache ''bcache'' s;
          s = s\<lparr>bhead := (bhead s)\<lparr>bprev := Head\<rparr>\<rparr>;
          s = s\<lparr>bhead := (bhead s)\<lparr>bnext := Head\<rparr>\<rparr>
      in fold binit1 [0..<NBUF] s)"

text \<open>
  The two loops of \<open>bget\<close> run along the list, forwards and backwards, up to the head. A list of
  \<open>n\<close> buffers takes \<open>n + 1\<close> rounds; a loop that does not come back to the head spins.
\<close>

fun bscan :: "nat \<Rightarrow> (buf \<Rightarrow> bool) \<Rightarrow> (buf \<Rightarrow> bptr) \<Rightarrow> bptr \<Rightarrow> 'a bcache_scheme \<Rightarrow>
    (nat option, 'a bcache_scheme) kres" where
  "bscan 0 P nx p s = Spin"
| "bscan (Suc n) P nx Head s = Ret None s"
| "bscan (Suc n) P nx (Buf i) s =
     (if P (bufs s ! i) then Ret (Some i) s else bscan n P nx (nx (bufs s ! i)) s)"

definition bget :: "u32 \<Rightarrow> u32 \<Rightarrow> 'a bcache_scheme \<Rightarrow> (nat, 'a bcache_scheme) kres" where
  "bget dev bno s =
     bnd (acquire Lbcache s) (\<lambda>_ s.
     bnd (bscan (Suc (length (bufs s))) (\<lambda>b. bdev b = dev \<and> blockno b = bno) bnext (bnext (bhead s)) s)
       (\<lambda>r s.
       case r of
         Some i \<Rightarrow>
           let s = upd_buf i (\<lambda>b. b\<lparr>refcnt := refcnt b + 1\<rparr>) s
           in bnd (release Lbcache s) (\<lambda>_ s.
              bnd (acquiresleep (buf_lock i) s) (\<lambda>_ s. Ret i s))
       | None \<Rightarrow>
           bnd (bscan (Suc (length (bufs s))) (\<lambda>b. refcnt b = 0 \<and> flags b AND B_DIRTY = 0)
                  bprev (bprev (bhead s)) s)
             (\<lambda>r s.
             case r of
               Some i \<Rightarrow>
                 let s = upd_buf i (\<lambda>b. b\<lparr>bdev := dev\<rparr>) s;
                     s = upd_buf i (\<lambda>b. b\<lparr>blockno := bno\<rparr>) s;
                     s = upd_buf i (\<lambda>b. b\<lparr>flags := 0\<rparr>) s;
                     s = upd_buf i (\<lambda>b. b\<lparr>refcnt := 1\<rparr>) s
                 in bnd (release Lbcache s) (\<lambda>_ s.
                    bnd (acquiresleep (buf_lock i) s) (\<lambda>_ s. Ret i s))
             | None \<Rightarrow> Panic ''bget: no buffers'')))"

definition bread :: "u32 \<Rightarrow> u32 \<Rightarrow> 'a bcache_scheme \<Rightarrow> (nat, 'a bcache_scheme) kres" where
  "bread dev bno s =
     bnd (bget dev bno s) (\<lambda>i s.
     if flags (bufs s ! i) AND B_VALID = 0 then bnd (iderw i s) (\<lambda>_ s. Ret i s) else Ret i s)"

definition bwrite :: "nat \<Rightarrow> 'a bcache_scheme \<Rightarrow> (unit, 'a bcache_scheme) kres" where
  "bwrite i s =
     bnd (holdingsleep (buf_lock i) s) (\<lambda>h s.
     if \<not> h then Panic ''bwrite''
     else
       let s = upd_buf i (\<lambda>b. b\<lparr>flags := flags b OR B_DIRTY\<rparr>) s
       in iderw i s)"

text \<open>The unlinking and relinking of a released buffer at the front of the list.\<close>

definition to_front :: "nat \<Rightarrow> 'a bcache_scheme \<Rightarrow> 'a bcache_scheme" where
  "to_front i s =
     (let s = updb (bnext (bufs s ! i)) (\<lambda>b. b\<lparr>bprev := bprev (bufs s ! i)\<rparr>) s;
          s = updb (bprev (bufs s ! i)) (\<lambda>b. b\<lparr>bnext := bnext (bufs s ! i)\<rparr>) s;
          s = upd_buf i (\<lambda>b. b\<lparr>bnext := bnext (bhead s)\<rparr>) s;
          s = upd_buf i (\<lambda>b. b\<lparr>bprev := Head\<rparr>) s;
          s = updb (bnext (bhead s)) (\<lambda>b. b\<lparr>bprev := Buf i\<rparr>) s
      in s\<lparr>bhead := (bhead s)\<lparr>bnext := Buf i\<rparr>\<rparr>)"

definition brelse :: "nat \<Rightarrow> 'a bcache_scheme \<Rightarrow> (unit, 'a bcache_scheme) kres" where
  "brelse i s =
     bnd (holdingsleep (buf_lock i) s) (\<lambda>h s.
     if \<not> h then Panic ''brelse''
     else
       bnd (releasesleep (buf_lock i) s) (\<lambda>_ s.
       bnd (acquire Lbcache s) (\<lambda>_ s.
       let s = upd_buf i (\<lambda>b. b\<lparr>refcnt := refcnt b - 1\<rparr>) s;
           s = (if refcnt (bufs s ! i) = 0 then to_front i s else s)
       in release Lbcache s)))"

end
