(* ===== verification/Log.thy ===== *)
theory Log
  imports Bio
begin

text \<open>
  log.c: transactions over the buffer cache, with a redo log on disk. C \<open>int\<close>s are kept as
  integers; block numbers cross between \<open>int\<close> and \<open>uint\<close> by \<open>of_int\<close> and \<open>sint\<close>, as in C. The
  super block is read here because \<open>initlog\<close> calls \<open>readsb\<close> of fs.c.
\<close>

section \<open>Words in a block\<close>

text \<open>Read and write of the 32-bit and the 16-bit word at byte \<open>k\<close> of a block.\<close>

definition get32 :: "u8 list \<Rightarrow> nat \<Rightarrow> u32" where
  "get32 d k = word_of_bytes (d ! k) (d ! (k + 1)) (d ! (k + 2)) (d ! (k + 3))"

definition set32 :: "u8 list \<Rightarrow> nat \<Rightarrow> u32 \<Rightarrow> u8 list" where
  "set32 d k v = d[k := byte_of v 0, k + 1 := byte_of v 1, k + 2 := byte_of v 2, k + 3 := byte_of v 3]"

definition get16 :: "u8 list \<Rightarrow> nat \<Rightarrow> u16" where
  "get16 d k = of_nat (unat (d ! k) + 256 * unat (d ! (k + 1)))"

definition set16 :: "u8 list \<Rightarrow> nat \<Rightarrow> u16 \<Rightarrow> u8 list" where
  "set16 d k v = d[k := of_nat (unat v), k + 1 := of_nat (unat v div 256)]"

section \<open>The super block\<close>

record superblock =
  sb_size :: u32
  sb_nblocks :: u32
  sb_ninodes :: u32
  sb_nlog :: u32
  sb_logstart :: u32
  sb_inodestart :: u32
  sb_bmapstart :: u32

definition superblock_of :: "u8 list \<Rightarrow> superblock" where
  "superblock_of d =
     \<lparr>sb_size = get32 d 0, sb_nblocks = get32 d 4, sb_ninodes = get32 d 8, sb_nlog = get32 d 12,
      sb_logstart = get32 d 16, sb_inodestart = get32 d 20, sb_bmapstart = get32 d 24\<rparr>"

definition readsb :: "int \<Rightarrow> 'a bcache_scheme \<Rightarrow> (superblock, 'a bcache_scheme) kres" where
  "readsb dev s =
     bnd (bread (of_int dev) 1 s) (\<lambda>b s.
     let r = superblock_of (data (bufs s ! b))
     in bnd (brelse b s) (\<lambda>_ s. Ret r s))"

section \<open>State\<close>

definition LOGSIZE :: nat where "LOGSIZE = MAXOPBLOCKS * 3"

text \<open>\<open>sizeof(struct logheader)\<close>.\<close>

definition LOGHEADER_SIZE :: nat where "LOGHEADER_SIZE = 4 + 4 * LOGSIZE"

record log = bcache +
  log_start :: int
  log_size :: int
  outstanding :: int
  committing :: bool
  log_dev :: int
  lh_n :: int
  lh_block :: "int list"

text \<open>A loop \<open>for (i = 0; i < n; i++)\<close> over an \<open>int\<close> bound.\<close>

definition upto_n :: "int \<Rightarrow> nat list" where
  "upto_n n = [0..<nat n]"

section \<open>Blocks of the log\<close>

text \<open>Loop body of \<open>install_trans\<close>.\<close>

definition install_trans1 :: "nat \<Rightarrow> 'a log_scheme \<Rightarrow> (unit, 'a log_scheme) kres" where
  "install_trans1 tail s =
     bnd (bread (of_int (log_dev s)) (of_int (log_start s + int tail + 1)) s) (\<lambda>lbuf s.
     if tail \<ge> LOGSIZE then Undef ''log.lh.block'' else
     bnd (bread (of_int (log_dev s)) (of_int (lh_block s ! tail)) s) (\<lambda>dbuf s.
     let s = upd_buf dbuf (\<lambda>b. b\<lparr>data := data (bufs s ! lbuf)\<rparr>) s
     in bnd (bwrite dbuf s) (\<lambda>_ s.
        bnd (brelse lbuf s) (\<lambda>_ s.
        brelse dbuf s))))"

definition install_trans :: "'a log_scheme \<Rightarrow> (unit, 'a log_scheme) kres" where
  "install_trans s = mfor install_trans1 (upto_n (lh_n s)) s"

definition read_head1 :: "nat \<Rightarrow> nat \<Rightarrow> 'a log_scheme \<Rightarrow> (unit, 'a log_scheme) kres" where
  "read_head1 b i s =
     (if i \<ge> LOGSIZE then Undef ''log.lh.block''
      else Ret () (s\<lparr>lh_block := (lh_block s)[i := sint (get32 (data (bufs s ! b)) (4 + 4 * i))]\<rparr>))"

definition read_head :: "'a log_scheme \<Rightarrow> (unit, 'a log_scheme) kres" where
  "read_head s =
     bnd (bread (of_int (log_dev s)) (of_int (log_start s)) s) (\<lambda>b s.
     let s = s\<lparr>lh_n := sint (get32 (data (bufs s ! b)) 0)\<rparr>
     in bnd (mfor (read_head1 b) (upto_n (lh_n s)) s) (\<lambda>_ s.
        brelse b s))"

definition write_head1 :: "nat \<Rightarrow> nat \<Rightarrow> 'a log_scheme \<Rightarrow> (unit, 'a log_scheme) kres" where
  "write_head1 b i s =
     (if i \<ge> LOGSIZE then Undef ''log.lh.block''
      else Ret () (upd_buf b (\<lambda>k. k\<lparr>data := set32 (data k) (4 + 4 * i) (of_int (lh_block s ! i))\<rparr>) s))"

definition write_head :: "'a log_scheme \<Rightarrow> (unit, 'a log_scheme) kres" where
  "write_head s =
     bnd (bread (of_int (log_dev s)) (of_int (log_start s)) s) (\<lambda>b s.
     let s = upd_buf b (\<lambda>k. k\<lparr>data := set32 (data k) 0 (of_int (lh_n s))\<rparr>) s
     in bnd (mfor (write_head1 b) (upto_n (lh_n s)) s) (\<lambda>_ s.
        bnd (bwrite b s) (\<lambda>_ s.
        brelse b s)))"

definition recover_from_log :: "'a log_scheme \<Rightarrow> (unit, 'a log_scheme) kres" where
  "recover_from_log s =
     bnd (read_head s) (\<lambda>_ s.
     bnd (install_trans s) (\<lambda>_ s.
     let s = s\<lparr>lh_n := 0\<rparr>
     in write_head s))"

definition initlog :: "int \<Rightarrow> 'a log_scheme \<Rightarrow> (unit, 'a log_scheme) kres" where
  "initlog dev s =
     (if LOGHEADER_SIZE \<ge> BSIZE then Panic ''initlog: too big logheader''
      else
        let s = initlock Llog ''log'' s
        in bnd (readsb dev s) (\<lambda>sb s.
           let s = s\<lparr>log_start := sint (sb_logstart sb)\<rparr>;
               s = s\<lparr>log_size := sint (sb_nlog sb)\<rparr>;
               s = s\<lparr>log_dev := dev\<rparr>
           in recover_from_log s))"

section \<open>Transactions\<close>

text \<open>The loop of \<open>begin_op\<close>, with \<open>log.lock\<close> held, and its continuation after a sleep.\<close>

definition begin_op_loop :: "'a log_scheme \<Rightarrow> (unit, 'a log_scheme) kres" where
  "begin_op_loop s =
     (if committing s then sleep_on Clog Llog s
      else if lh_n s + (outstanding s + 1) * int MAXOPBLOCKS > int LOGSIZE then sleep_on Clog Llog s
      else
        let s = s\<lparr>outstanding := outstanding s + 1\<rparr>
        in release Llog s)"

definition begin_op :: "'a log_scheme \<Rightarrow> (unit, 'a log_scheme) kres" where
  "begin_op s = bnd (acquire Llog s) (\<lambda>_ s. begin_op_loop s)"

definition begin_op_resume :: "nat \<Rightarrow> bool \<Rightarrow> 'a log_scheme \<Rightarrow> (unit, 'a log_scheme) kres" where
  "begin_op_resume i saved s = bnd (sleep_exit i saved Llog s) (\<lambda>_ s. begin_op_loop s)"

definition write_log1 :: "nat \<Rightarrow> 'a log_scheme \<Rightarrow> (unit, 'a log_scheme) kres" where
  "write_log1 tail s =
     bnd (bread (of_int (log_dev s)) (of_int (log_start s + int tail + 1)) s) (\<lambda>to s.
     if tail \<ge> LOGSIZE then Undef ''log.lh.block'' else
     bnd (bread (of_int (log_dev s)) (of_int (lh_block s ! tail)) s) (\<lambda>from s.
     let s = upd_buf to (\<lambda>b. b\<lparr>data := data (bufs s ! from)\<rparr>) s
     in bnd (bwrite to s) (\<lambda>_ s.
        bnd (brelse from s) (\<lambda>_ s.
        brelse to s))))"

definition write_log :: "'a log_scheme \<Rightarrow> (unit, 'a log_scheme) kres" where
  "write_log s = mfor write_log1 (upto_n (lh_n s)) s"

definition commit :: "'a log_scheme \<Rightarrow> (unit, 'a log_scheme) kres" where
  "commit s =
     (if lh_n s > 0 then
        bnd (write_log s) (\<lambda>_ s.
        bnd (write_head s) (\<lambda>_ s.
        bnd (install_trans s) (\<lambda>_ s.
        let s = s\<lparr>lh_n := 0\<rparr>
        in write_head s)))
      else Ret () s)"

definition end_op :: "'a log_scheme \<Rightarrow> (unit, 'a log_scheme) kres" where
  "end_op s =
     bnd (acquire Llog s) (\<lambda>_ s.
     let s = s\<lparr>outstanding := outstanding s - 1\<rparr>
     in if committing s then Panic ''log.committing''
        else
          let do_commit = (outstanding s = 0)
          in bnd (if do_commit then Ret () (s\<lparr>committing := True\<rparr>) else wakeup Clog s) (\<lambda>_ s.
             bnd (release Llog s) (\<lambda>_ s.
             if do_commit then
               bnd (commit s) (\<lambda>_ s.
               bnd (acquire Llog s) (\<lambda>_ s.
               let s = s\<lparr>committing := False\<rparr>
               in bnd (wakeup Clog s) (\<lambda>_ s.
                  release Llog s)))
             else Ret () s)))"

definition log_write :: "nat \<Rightarrow> 'a log_scheme \<Rightarrow> (unit, 'a log_scheme) kres" where
  "log_write b s =
     (if lh_n s \<ge> int LOGSIZE \<or> lh_n s \<ge> log_size s - 1 then Panic ''too big a transaction''
      else if outstanding s < 1 then Panic ''log_write outside of trans''
      else
        bnd (acquire Llog s) (\<lambda>_ s.
        let i = (case scan (\<lambda>k. of_int k = blockno (bufs s ! b)) (take (nat (lh_n s)) (lh_block s)) of
                   Some i \<Rightarrow> i | None \<Rightarrow> nat (lh_n s));
            s = s\<lparr>lh_block := (lh_block s)[i := sint (blockno (bufs s ! b))]\<rparr>;
            s = (if int i = lh_n s then s\<lparr>lh_n := lh_n s + 1\<rparr> else s);
            s = upd_buf b (\<lambda>k. k\<lparr>flags := flags k OR B_DIRTY\<rparr>) s
        in release Llog s))"

end
