(* ===== verification/Fs.thy ===== *)
theory Fs
  imports Log
begin

text \<open>
  fs.c up to the contents of inodes: the block allocator, the inode cache, inode allocation and
  update, the block map and truncation. A pointer to an in-memory inode is its index in
  \<open>icache.inode\<close>, \<open>None\<close> for null. The C \<open>short\<close>s are 16-bit words, read as signed where the code
  compares them.
\<close>

section \<open>Format constants\<close>

definition NDIRECT :: nat where "NDIRECT = 12"
definition NINDIRECT :: nat where "NINDIRECT = BSIZE div 4"
definition MAXFILE :: nat where "MAXFILE = NDIRECT + NINDIRECT"
definition ROOTINO :: u32 where "ROOTINO = 1"
definition ROOTDEV :: u32 where "ROOTDEV = 1"
definition NINODE :: nat where "NINODE = 50"
definition NDEV :: nat where "NDEV = 10"
definition CONSOLE :: nat where "CONSOLE = 1"
definition DIRSIZ :: nat where "DIRSIZ = 14"
definition T_DIR :: u16 where "T_DIR = 1"
definition T_FILE :: u16 where "T_FILE = 2"
definition T_DEV :: u16 where "T_DEV = 3"

text \<open>\<open>sizeof(struct dinode)\<close>, inodes per block, and bits per block.\<close>

definition DINODE_SIZE :: nat where "DINODE_SIZE = 2 + 2 + 2 + 2 + 4 + 4 * (NDIRECT + 1)"
definition IPB :: nat where "IPB = BSIZE div DINODE_SIZE"
definition BPB :: nat where "BPB = BSIZE * 8"

definition IBLOCK :: "u32 \<Rightarrow> superblock \<Rightarrow> u32" where
  "IBLOCK i b = i div of_nat IPB + sb_inodestart b"

definition BBLOCK :: "u32 \<Rightarrow> superblock \<Rightarrow> u32" where
  "BBLOCK b k = b div of_nat BPB + sb_bmapstart k"

section \<open>State\<close>

text \<open>\<open>struct dinode\<close>, and \<open>struct inode\<close>, which has a copy of its fields.\<close>

record dinode =
  di_type :: u16
  di_major :: u16
  di_minor :: u16
  di_nlink :: u16
  di_size :: u32
  di_addrs :: "u32 list"

record inode =
  idev :: u32
  inum :: u32
  iref :: int
  ilk :: sleeplock
  ivalid :: bool
  itype :: u16
  imajor :: u16
  iminor :: u16
  inlink :: u16
  isize :: u32
  addrs :: "u32 list"

text \<open>The device switch: which function, if any, a major number has. There is one driver.\<close>

datatype driver = Console_driver

record devsw_entry =
  dev_read :: "driver option"
  dev_write :: "driver option"

record icache = log +
  sb :: superblock
  inodes :: "inode list"
  devsw :: "devsw_entry list"

definition upd_inode :: "nat \<Rightarrow> (inode \<Rightarrow> inode) \<Rightarrow> 'a icache_scheme \<Rightarrow> 'a icache_scheme" where
  "upd_inode i f s = s\<lparr>inodes := (inodes s)[i := f (inodes s ! i)]\<rparr>"

definition inode_lock :: "nat \<Rightarrow> 'a icache_scheme slref" where
  "inode_lock i =
     \<lparr>sl_lk = Linode i, sl_chan = Cinodelock i, sl_get = (\<lambda>s. ilk (inodes s ! i)),
      sl_upd = (\<lambda>f. upd_inode i (\<lambda>p. p\<lparr>ilk := f (ilk p)\<rparr>))\<rparr>"

text \<open>The on-disk inode at byte \<open>k\<close> of a block.\<close>

definition dinode_at :: "u8 list \<Rightarrow> nat \<Rightarrow> dinode" where
  "dinode_at d k =
     \<lparr>di_type = get16 d k, di_major = get16 d (k + 2), di_minor = get16 d (k + 4),
      di_nlink = get16 d (k + 6), di_size = get32 d (k + 8),
      di_addrs = map (\<lambda>j. get32 d (k + 12 + 4 * j)) [0..<NDIRECT + 1]\<rparr>"

definition put_dinode :: "u8 list \<Rightarrow> nat \<Rightarrow> dinode \<Rightarrow> u8 list" where
  "put_dinode d k di =
     (let d = set16 d k (di_type di);
          d = set16 d (k + 2) (di_major di);
          d = set16 d (k + 4) (di_minor di);
          d = set16 d (k + 6) (di_nlink di);
          d = set32 d (k + 8) (di_size di)
      in fold (\<lambda>j d. set32 d (k + 12 + 4 * j) (di_addrs di ! j)) [0..<NDIRECT + 1] d)"

definition dinode_off :: "u32 \<Rightarrow> nat" where
  "dinode_off i = unat (i mod of_nat IPB) * DINODE_SIZE"

section \<open>Blocks\<close>

definition bzero :: "u32 \<Rightarrow> u32 \<Rightarrow> 'a log_scheme \<Rightarrow> (unit, 'a log_scheme) kres" where
  "bzero dev bno s =
     bnd (bread dev bno s) (\<lambda>b s.
     let s = upd_buf b (\<lambda>k. k\<lparr>data := replicate BSIZE 0\<rparr>) s
     in bnd (log_write b s) (\<lambda>_ s.
        brelse b s))"

text \<open>Bit \<open>bi\<close> of a bitmap block.\<close>

definition bit_mask :: "nat \<Rightarrow> u8" where
  "bit_mask bi = push_bit (bi mod 8) 1"

definition bit_clear :: "u8 list \<Rightarrow> nat \<Rightarrow> bool" where
  "bit_clear d bi \<longleftrightarrow> d ! (bi div 8) AND bit_mask bi = 0"

text \<open>The outer loop of \<open>balloc\<close> over the bitmap blocks; \<open>b\<close> is the first block a bitmap block covers.\<close>

fun balloc_loop :: "u32 \<Rightarrow> nat list \<Rightarrow> 'a icache_scheme \<Rightarrow> (u32, 'a icache_scheme) kres" where
  "balloc_loop dev [] s = Panic ''balloc: out of blocks''"
| "balloc_loop dev (b # bs) s =
     bnd (bread dev (BBLOCK (of_nat b) (sb s)) s) (\<lambda>bp s.
     case scan (bit_clear (data (bufs s ! bp))) [0..<min BPB (unat (sb_size (sb s)) - b)] of
       Some bi \<Rightarrow>
         let s = upd_buf bp (\<lambda>k. k\<lparr>data := (data k)[bi div 8 := data k ! (bi div 8) OR bit_mask bi]\<rparr>) s
         in bnd (log_write bp s) (\<lambda>_ s.
            bnd (brelse bp s) (\<lambda>_ s.
            bnd (bzero dev (of_nat (b + bi)) s) (\<lambda>_ s.
            Ret (of_nat (b + bi)) s)))
     | None \<Rightarrow> bnd (brelse bp s) (\<lambda>_ s. balloc_loop dev bs s))"

definition balloc :: "u32 \<Rightarrow> 'a icache_scheme \<Rightarrow> (u32, 'a icache_scheme) kres" where
  "balloc dev s =
     balloc_loop dev (map (\<lambda>k. k * BPB) [0..<(unat (sb_size (sb s)) + BPB - 1) div BPB]) s"

definition bfree :: "u32 \<Rightarrow> u32 \<Rightarrow> 'a icache_scheme \<Rightarrow> (unit, 'a icache_scheme) kres" where
  "bfree dev b s =
     bnd (bread dev (BBLOCK b (sb s)) s) (\<lambda>bp s.
     let bi = unat (b mod of_nat BPB)
     in if bit_clear (data (bufs s ! bp)) bi then Panic ''freeing free block''
        else
          let s = upd_buf bp (\<lambda>k. k\<lparr>data := (data k)[bi div 8 := data k ! (bi div 8) AND NOT (bit_mask bi)]\<rparr>) s
          in bnd (log_write bp s) (\<lambda>_ s.
             brelse bp s))"

section \<open>Inodes\<close>

definition iinit :: "int \<Rightarrow> 'a icache_scheme \<Rightarrow> (unit, 'a icache_scheme) kres" where
  "iinit dev s =
     (let s = initlock Licache ''icache'' s;
          s = fold (\<lambda>i. initsleeplock (inode_lock i) ''inode'') [0..<NINODE] s
      in bnd (readsb dev s) (\<lambda>k s.
         let s = s\<lparr>sb := k\<rparr>
         in Ret () (cprintf (''sb: size %d nblocks %d ninodes %d nlog %d logstart %d inodestart %d bmap start %d''
                             @ [CHR 0x0A]) s)))"

text \<open>\<open>iget\<close>: a cached entry with a reference, or else the first entry without one.\<close>

definition iget :: "u32 \<Rightarrow> u32 \<Rightarrow> 'a icache_scheme \<Rightarrow> (nat, 'a icache_scheme) kres" where
  "iget dev n s =
     bnd (acquire Licache s) (\<lambda>_ s.
     case scan (\<lambda>p. iref p > 0 \<and> idev p = dev \<and> inum p = n) (inodes s) of
       Some i \<Rightarrow>
         let s = upd_inode i (\<lambda>p. p\<lparr>iref := iref p + 1\<rparr>) s
         in bnd (release Licache s) (\<lambda>_ s. Ret i s)
     | None \<Rightarrow>
        (case scan (\<lambda>p. iref p = 0) (inodes s) of
           None \<Rightarrow> Panic ''iget: no inodes''
         | Some i \<Rightarrow>
             let s = upd_inode i (\<lambda>p. p\<lparr>idev := dev, inum := n, iref := 1, ivalid := False\<rparr>) s
             in bnd (release Licache s) (\<lambda>_ s. Ret i s)))"

fun ialloc_loop :: "u32 \<Rightarrow> u16 \<Rightarrow> nat list \<Rightarrow> 'a icache_scheme \<Rightarrow> (nat, 'a icache_scheme) kres" where
  "ialloc_loop dev ty [] s = Panic ''ialloc: no inodes''"
| "ialloc_loop dev ty (n # ns) s =
     bnd (bread dev (IBLOCK (of_nat n) (sb s)) s) (\<lambda>bp s.
     let k = dinode_off (of_nat n)
     in if di_type (dinode_at (data (bufs s ! bp)) k) = 0 then
          let s = upd_buf bp (\<lambda>b. b\<lparr>data := take k (data b) @ replicate DINODE_SIZE 0
                                              @ drop (k + DINODE_SIZE) (data b)\<rparr>) s;
              s = upd_buf bp (\<lambda>b. b\<lparr>data := set16 (data b) k ty\<rparr>) s
          in bnd (log_write bp s) (\<lambda>_ s.
             bnd (brelse bp s) (\<lambda>_ s.
             iget dev (of_nat n) s))
        else bnd (brelse bp s) (\<lambda>_ s. ialloc_loop dev ty ns s))"

definition ialloc :: "u32 \<Rightarrow> u16 \<Rightarrow> 'a icache_scheme \<Rightarrow> (nat, 'a icache_scheme) kres" where
  "ialloc dev ty s = ialloc_loop dev ty [1..<unat (sb_ninodes (sb s))] s"

text \<open>The fields of an in-memory inode that live on disk.\<close>

definition dinode_of :: "inode \<Rightarrow> dinode" where
  "dinode_of p =
     \<lparr>di_type = itype p, di_major = imajor p, di_minor = iminor p, di_nlink = inlink p,
      di_size = isize p, di_addrs = addrs p\<rparr>"

definition iupdate :: "nat \<Rightarrow> 'a icache_scheme \<Rightarrow> (unit, 'a icache_scheme) kres" where
  "iupdate ip s =
     bnd (bread (idev (inodes s ! ip)) (IBLOCK (inum (inodes s ! ip)) (sb s)) s) (\<lambda>bp s.
     let p = inodes s ! ip;
         s = upd_buf bp (\<lambda>b. b\<lparr>data := put_dinode (data b) (dinode_off (inum p)) (dinode_of p)\<rparr>) s
     in bnd (log_write bp s) (\<lambda>_ s.
        brelse bp s))"

definition idup :: "nat \<Rightarrow> 'a icache_scheme \<Rightarrow> (nat, 'a icache_scheme) kres" where
  "idup ip s =
     bnd (acquire Licache s) (\<lambda>_ s.
     let s = upd_inode ip (\<lambda>p. p\<lparr>iref := iref p + 1\<rparr>) s
     in bnd (release Licache s) (\<lambda>_ s. Ret ip s))"

definition ilock :: "nat option \<Rightarrow> 'a icache_scheme \<Rightarrow> (unit, 'a icache_scheme) kres" where
  "ilock po s =
     (case po of
        None \<Rightarrow> Panic ''ilock''
      | Some ip \<Rightarrow>
          if iref (inodes s ! ip) < 1 then Panic ''ilock''
          else
            bnd (acquiresleep (inode_lock ip) s) (\<lambda>_ s.
            if \<not> ivalid (inodes s ! ip) then
              bnd (bread (idev (inodes s ! ip)) (IBLOCK (inum (inodes s ! ip)) (sb s)) s) (\<lambda>bp s.
              let di = dinode_at (data (bufs s ! bp)) (dinode_off (inum (inodes s ! ip)));
                  s = upd_inode ip (\<lambda>p. p\<lparr>itype := di_type di, imajor := di_major di, iminor := di_minor di,
                                          inlink := di_nlink di, isize := di_size di, addrs := di_addrs di\<rparr>) s
              in bnd (brelse bp s) (\<lambda>_ s.
                 let s = upd_inode ip (\<lambda>p. p\<lparr>ivalid := True\<rparr>) s
                 in if itype (inodes s ! ip) = 0 then Panic ''ilock: no type'' else Ret () s))
            else Ret () s))"

definition iunlock :: "nat option \<Rightarrow> 'a icache_scheme \<Rightarrow> (unit, 'a icache_scheme) kres" where
  "iunlock po s =
     (case po of
        None \<Rightarrow> Panic ''iunlock''
      | Some ip \<Rightarrow>
          bnd (holdingsleep (inode_lock ip) s) (\<lambda>h s.
          if \<not> h \<or> iref (inodes s ! ip) < 1 then Panic ''iunlock''
          else releasesleep (inode_lock ip) s))"

section \<open>Contents\<close>

definition bmap :: "nat \<Rightarrow> u32 \<Rightarrow> 'a icache_scheme \<Rightarrow> (u32, 'a icache_scheme) kres" where
  "bmap ip bn s =
     (if bn < of_nat NDIRECT then
        let a = addrs (inodes s ! ip) ! unat bn
        in if a = 0 then
             bnd (balloc (idev (inodes s ! ip)) s) (\<lambda>a s.
             Ret a (upd_inode ip (\<lambda>p. p\<lparr>addrs := (addrs p)[unat bn := a]\<rparr>) s))
           else Ret a s
      else
        let bn = bn - of_nat NDIRECT
        in if bn < of_nat NINDIRECT then
             bnd (let a = addrs (inodes s ! ip) ! NDIRECT
                  in if a = 0 then
                       bnd (balloc (idev (inodes s ! ip)) s) (\<lambda>a s.
                       Ret a (upd_inode ip (\<lambda>p. p\<lparr>addrs := (addrs p)[NDIRECT := a]\<rparr>) s))
                     else Ret a s) (\<lambda>a s.
             bnd (bread (idev (inodes s ! ip)) a s) (\<lambda>bp s.
             let a = get32 (data (bufs s ! bp)) (4 * unat bn)
             in bnd (if a = 0 then
                       bnd (balloc (idev (inodes s ! ip)) s) (\<lambda>a s.
                       let s = upd_buf bp (\<lambda>b. b\<lparr>data := set32 (data b) (4 * unat bn) a\<rparr>) s
                       in bnd (log_write bp s) (\<lambda>_ s. Ret a s))
                     else Ret a s) (\<lambda>a s.
                bnd (brelse bp s) (\<lambda>_ s. Ret a s))))
           else Panic ''bmap: out of range'')"

definition itrunc_direct :: "nat \<Rightarrow> nat \<Rightarrow> 'a icache_scheme \<Rightarrow> (unit, 'a icache_scheme) kres" where
  "itrunc_direct ip i s =
     (if addrs (inodes s ! ip) ! i \<noteq> 0 then
        bnd (bfree (idev (inodes s ! ip)) (addrs (inodes s ! ip) ! i) s) (\<lambda>_ s.
        Ret () (upd_inode ip (\<lambda>p. p\<lparr>addrs := (addrs p)[i := 0]\<rparr>) s))
      else Ret () s)"

definition itrunc_entry :: "nat \<Rightarrow> nat \<Rightarrow> nat \<Rightarrow> 'a icache_scheme \<Rightarrow> (unit, 'a icache_scheme) kres" where
  "itrunc_entry ip bp j s =
     (let a = get32 (data (bufs s ! bp)) (4 * j)
      in if a \<noteq> 0 then bfree (idev (inodes s ! ip)) a s else Ret () s)"

definition itrunc :: "nat \<Rightarrow> 'a icache_scheme \<Rightarrow> (unit, 'a icache_scheme) kres" where
  "itrunc ip s =
     bnd (mfor (itrunc_direct ip) [0..<NDIRECT] s) (\<lambda>_ s.
     bnd (if addrs (inodes s ! ip) ! NDIRECT \<noteq> 0 then
            bnd (bread (idev (inodes s ! ip)) (addrs (inodes s ! ip) ! NDIRECT) s) (\<lambda>bp s.
            bnd (mfor (itrunc_entry ip bp) [0..<NINDIRECT] s) (\<lambda>_ s.
            bnd (brelse bp s) (\<lambda>_ s.
            bnd (bfree (idev (inodes s ! ip)) (addrs (inodes s ! ip) ! NDIRECT) s) (\<lambda>_ s.
            Ret () (upd_inode ip (\<lambda>p. p\<lparr>addrs := (addrs p)[NDIRECT := 0]\<rparr>) s)))))
          else Ret () s) (\<lambda>_ s.
     let s = upd_inode ip (\<lambda>p. p\<lparr>isize := 0\<rparr>) s
     in iupdate ip s))"

definition iput :: "nat \<Rightarrow> 'a icache_scheme \<Rightarrow> (unit, 'a icache_scheme) kres" where
  "iput ip s =
     bnd (acquiresleep (inode_lock ip) s) (\<lambda>_ s.
     bnd (if ivalid (inodes s ! ip) \<and> inlink (inodes s ! ip) = 0 then
            bnd (acquire Licache s) (\<lambda>_ s.
            let r = iref (inodes s ! ip)
            in bnd (release Licache s) (\<lambda>_ s.
               if r = 1 then
                 bnd (itrunc ip s) (\<lambda>_ s.
                 let s = upd_inode ip (\<lambda>p. p\<lparr>itype := 0\<rparr>) s
                 in bnd (iupdate ip s) (\<lambda>_ s.
                    Ret () (upd_inode ip (\<lambda>p. p\<lparr>ivalid := False\<rparr>) s)))
               else Ret () s))
          else Ret () s) (\<lambda>_ s.
     bnd (releasesleep (inode_lock ip) s) (\<lambda>_ s.
     bnd (acquire Licache s) (\<lambda>_ s.
     let s = upd_inode ip (\<lambda>p. p\<lparr>iref := iref p - 1\<rparr>) s
     in release Licache s))))"

definition iunlockput :: "nat \<Rightarrow> 'a icache_scheme \<Rightarrow> (unit, 'a icache_scheme) kres" where
  "iunlockput ip s = bnd (iunlock (Some ip) s) (\<lambda>_ s. iput ip s)"

record stat =
  st_dev :: u32
  st_ino :: u32
  st_type :: u16
  st_nlink :: u16
  st_size :: u32

definition stati :: "nat \<Rightarrow> 'a icache_scheme \<Rightarrow> stat" where
  "stati ip s =
     (let p = inodes s ! ip
      in \<lparr>st_dev = idev p, st_ino = inum p, st_type = itype p, st_nlink = inlink p, st_size = isize p\<rparr>)"

end
