(* ===== verification/Dir.thy ===== *)
theory Dir
  imports Fs
begin

text \<open>
  The rest of fs.c: reading and writing the contents of an inode, directories and path names; and
  the device operations of console.c that \<open>readi\<close> and \<open>writei\<close> reach through the device switch.

  Buffers of the caller are passed by value: the bytes read are part of the result, in the order
  in which the code stores them from \<open>dst\<close> on; the bytes to write are an argument, whose length
  is the argument \<open>n\<close> of the code. A name or a path is the list of its bytes without the final zero.
\<close>

section \<open>The console as a device\<close>

text \<open>
  The loop of \<open>consoleread\<close>, with \<open>cons.lock\<close> held; \<open>acc\<close> has the bytes stored so far, and \<open>n\<close> is the
  number still wanted. The result is \<open>None\<close> when the process was killed while waiting.
\<close>

fun consoleread_loop :: "nat \<Rightarrow> u32 \<Rightarrow> u8 list \<Rightarrow> 'a console_scheme \<Rightarrow>
    ((nat \<times> u8 list) option, 'a console_scheme) kres" where
  "consoleread_loop 0 target acc s = Ret (Some (0, acc)) s"
| "consoleread_loop (Suc n) target acc s =
     (if in_r s = in_w s then
        with_myproc s (\<lambda>i s.
        if killed (procs s ! i) then Ret None s else sleep_on Cinput Lcons s)
      else
        let c = inbuf s ! in_ix (in_r s);
            s = s\<lparr>in_r := in_r s + 1\<rparr>
        in if uint c = Ctl CHR ''D'' then
             Ret (Some (Suc n, acc)) (if of_nat (Suc n) < target then s\<lparr>in_r := in_r s - 1\<rparr> else s)
           else if c = 10 then Ret (Some (n, acc @ [c])) s
           else consoleread_loop n target (acc @ [c]) s)"

definition consoleread_end :: "nat \<Rightarrow> u32 \<Rightarrow> (nat \<times> u8 list) option \<Rightarrow> 'a icache_scheme \<Rightarrow>
    (int \<times> u8 list, 'a icache_scheme) kres" where
  "consoleread_end ip target r s =
     bnd (release Lcons s) (\<lambda>_ s.
     bnd (ilock (Some ip) s) (\<lambda>_ s.
     case r of
       None \<Rightarrow> Ret (-1, []) s
     | Some (n, acc) \<Rightarrow> Ret (sint (target - of_nat n), acc) s))"

text \<open>For a negative \<open>n\<close> the loop does not run and the difference \<open>target - n\<close> is 0.\<close>

definition consoleread :: "nat \<Rightarrow> int \<Rightarrow> 'a icache_scheme \<Rightarrow> (int \<times> u8 list, 'a icache_scheme) kres" where
  "consoleread ip n s =
     bnd (iunlock (Some ip) s) (\<lambda>_ s.
     let target = (if n < 0 then 0 else of_int n)
     in bnd (acquire Lcons s) (\<lambda>_ s.
        bnd (consoleread_loop (nat n) target [] s) (\<lambda>r s.
        consoleread_end ip target r s)))"

definition consoleread_resume :: "nat \<Rightarrow> bool \<Rightarrow> nat \<Rightarrow> nat \<Rightarrow> u32 \<Rightarrow> u8 list \<Rightarrow> 'a icache_scheme \<Rightarrow>
    (int \<times> u8 list, 'a icache_scheme) kres" where
  "consoleread_resume i saved ip n target acc s =
     bnd (sleep_exit i saved Lcons s) (\<lambda>_ s.
     bnd (consoleread_loop n target acc s) (\<lambda>r s.
     consoleread_end ip target r s))"

definition consolewrite :: "nat \<Rightarrow> u8 list \<Rightarrow> 'a icache_scheme \<Rightarrow> (int, 'a icache_scheme) kres" where
  "consolewrite ip bs s =
     bnd (iunlock (Some ip) s) (\<lambda>_ s.
     bnd (acquire Lcons s) (\<lambda>_ s.
     bnd (mfor (\<lambda>b. consputc (uint b)) bs s) (\<lambda>_ s.
     bnd (release Lcons s) (\<lambda>_ s.
     bnd (ilock (Some ip) s) (\<lambda>_ s.
     Ret (int (length bs)) s)))))"

text \<open>The call of \<open>ioapicenable\<close> at the end only programs the interrupt controller.\<close>

definition consoleinit :: "'a icache_scheme \<Rightarrow> 'a icache_scheme" where
  "consoleinit s =
     (let s = initlock Lcons ''console'' s;
          s = s\<lparr>devsw := (devsw s)[CONSOLE := (devsw s ! CONSOLE)\<lparr>dev_write := Some Console_driver\<rparr>]\<rparr>;
          s = s\<lparr>devsw := (devsw s)[CONSOLE := (devsw s ! CONSOLE)\<lparr>dev_read := Some Console_driver\<rparr>]\<rparr>
      in s\<lparr>cons_locking := True\<rparr>)"

section \<open>Contents of an inode\<close>

text \<open>\<open>left\<close> is \<open>n - tot\<close>, the number of bytes still to copy.\<close>

function readi_loop :: "nat \<Rightarrow> u32 \<Rightarrow> u32 \<Rightarrow> 'a icache_scheme \<Rightarrow> (u8 list, 'a icache_scheme) kres" where
  "readi_loop ip off left s =
     (if left = 0 then Ret [] s
      else
        bnd (bmap ip (off div 512) s) (\<lambda>a s.
        bnd (bread (idev (inodes s ! ip)) a s) (\<lambda>bp s.
        let m = min left (512 - off mod 512);
            d = take (unat m) (drop (unat (off mod 512)) (data (bufs s ! bp)))
        in bnd (brelse bp s) (\<lambda>_ s.
           bnd (readi_loop ip (off + m) (left - m) s) (\<lambda>r s. Ret (d @ r) s)))))"
  by pat_completeness auto
termination
proof (relation "measure (\<lambda>(ip, off, left, s). unat left)", goal_cases)
  case (2 ip off left s a s1 bp s2 m d u s3)
  have "off mod 512 < 512"
    by (simp add: word_mod_less_divisor)
  then have "0 < m" "m \<le> left"
    using 2 by (auto simp: min_def word_less_nat_alt unat_sub_if' word_neq_0_conv)
  then have "unat (left - m) < unat left"
    by (simp add: unat_sub word_less_nat_alt word_le_nat_alt)
  then show ?case by simp
qed simp

definition readi :: "nat \<Rightarrow> u32 \<Rightarrow> u32 \<Rightarrow> 'a icache_scheme \<Rightarrow> (int \<times> u8 list, 'a icache_scheme) kres" where
  "readi ip off n s =
     (let p = inodes s ! ip
      in if itype p = T_DEV then
           (if sint (imajor p) < 0 \<or> sint (imajor p) \<ge> int NDEV \<or>
               dev_read (devsw s ! unat (imajor p)) = None
            then Ret (-1, []) s
            else consoleread ip (sint n) s)
         else if off > isize p \<or> off + n < off then Ret (-1, []) s
         else
           let n = (if off + n > isize p then isize p - off else n)
           in bnd (readi_loop ip off n s) (\<lambda>d s. Ret (sint n, d) s))"

function writei_loop :: "nat \<Rightarrow> u32 \<Rightarrow> u8 list \<Rightarrow> 'a icache_scheme \<Rightarrow> (u32, 'a icache_scheme) kres" where
  "writei_loop ip off src s =
     (if src = [] then Ret off s
      else
        bnd (bmap ip (off div 512) s) (\<lambda>a s.
        bnd (bread (idev (inodes s ! ip)) a s) (\<lambda>bp s.
        let o1 = unat (off mod 512);
            m = min (length src) (512 - o1);
            s = upd_buf bp (\<lambda>b. b\<lparr>data := take o1 (data b) @ take m src @ drop (o1 + m) (data b)\<rparr>) s
        in bnd (log_write bp s) (\<lambda>_ s.
           bnd (brelse bp s) (\<lambda>_ s.
           writei_loop ip (off + of_nat m) (drop m src) s)))))"
  by pat_completeness auto
termination
proof (relation "measure (\<lambda>(ip, off, src, s). length src)", goal_cases)
  case (2 ip off src s a s1 bp s2 o1 m s3 u s4 v s5)
  have "off mod 512 < 512"
    by (simp add: word_mod_less_divisor)
  then have "o1 < 512"
    using 2 by (simp add: word_less_nat_alt)
  then show ?case
    using 2 by (cases src) auto
qed simp

definition writei :: "nat \<Rightarrow> u8 list \<Rightarrow> u32 \<Rightarrow> 'a icache_scheme \<Rightarrow> (int, 'a icache_scheme) kres" where
  "writei ip src off s =
     (let p = inodes s ! ip; n = of_nat (length src) :: u32
      in if itype p = T_DEV then
           (if sint (imajor p) < 0 \<or> sint (imajor p) \<ge> int NDEV \<or>
               dev_write (devsw s ! unat (imajor p)) = None
            then Ret (-1) s
            else consolewrite ip src s)
         else if off > isize p \<or> off + n < off then Ret (-1) s
         else if off + n > of_nat (MAXFILE * BSIZE) then Ret (-1) s
         else
           bnd (writei_loop ip off src s) (\<lambda>off s.
           bnd (if n > 0 \<and> off > isize (inodes s ! ip)
                then iupdate ip (upd_inode ip (\<lambda>p. p\<lparr>isize := off\<rparr>) s)
                else Ret () s) (\<lambda>_ s.
           Ret (sint n) s)))"

section \<open>Directories\<close>

text \<open>\<open>strncmp\<close> on two byte strings; a list that ends before \<open>n\<close> bytes is followed by a zero byte.\<close>

definition chd :: "u8 list \<Rightarrow> u8" where
  "chd p = (case p of [] \<Rightarrow> 0 | c # _ \<Rightarrow> c)"

fun strncmp_bytes :: "u8 list \<Rightarrow> u8 list \<Rightarrow> nat \<Rightarrow> int" where
  "strncmp_bytes p q 0 = 0"
| "strncmp_bytes p q (Suc n) =
     (if chd p \<noteq> 0 \<and> chd p = chd q then strncmp_bytes (tl p) (tl q) n
      else uint (chd p) - uint (chd q))"

definition namecmp :: "u8 list \<Rightarrow> u8 list \<Rightarrow> int" where
  "namecmp p q = strncmp_bytes p q DIRSIZ"

text \<open>\<open>strncpy\<close> to a field of \<open>n\<close> bytes.\<close>

definition strncpy_bytes :: "u8 list \<Rightarrow> nat \<Rightarrow> u8 list" where
  "strncpy_bytes p n = (let q = take n (takeWhile (\<lambda>c. c \<noteq> 0) p) in q @ replicate (n - length q) 0)"

text \<open>\<open>struct dirent\<close> as bytes.\<close>

definition DIRENT_SIZE :: nat where "DIRENT_SIZE = 2 + DIRSIZ"

definition de_inum :: "u8 list \<Rightarrow> u16" where "de_inum de = get16 de 0"
definition de_name :: "u8 list \<Rightarrow> u8 list" where "de_name de = drop 2 de"

definition mk_dirent :: "u16 \<Rightarrow> u8 list \<Rightarrow> u8 list" where
  "mk_dirent n nm = set16 (replicate 2 0) 0 n @ strncpy_bytes nm DIRSIZ"

text \<open>The offsets of the entries of a directory of a given size.\<close>

definition dirent_offs :: "u32 \<Rightarrow> u32 list" where
  "dirent_offs n = map (\<lambda>k. of_nat (k * DIRENT_SIZE)) [0..<(unat n + DIRENT_SIZE - 1) div DIRENT_SIZE]"

fun dirlookup_loop :: "nat \<Rightarrow> u8 list \<Rightarrow> u32 list \<Rightarrow> 'a icache_scheme \<Rightarrow>
    ((nat \<times> u32) option, 'a icache_scheme) kres" where
  "dirlookup_loop dp nm [] s = Ret None s"
| "dirlookup_loop dp nm (off # offs) s =
     bnd (readi dp off (of_nat DIRENT_SIZE) s) (\<lambda>r s.
     case r of (k, de) \<Rightarrow>
       if k \<noteq> int DIRENT_SIZE then Panic ''dirlookup read''
       else if de_inum de = 0 then dirlookup_loop dp nm offs s
       else if namecmp nm (de_name de) = 0 then
         bnd (iget (idev (inodes s ! dp)) (ucast (de_inum de)) s) (\<lambda>ip s. Ret (Some (ip, off)) s)
       else dirlookup_loop dp nm offs s)"

text \<open>The result is the inode found and the offset of its entry.\<close>

definition dirlookup :: "nat \<Rightarrow> u8 list \<Rightarrow> 'a icache_scheme \<Rightarrow>
    ((nat \<times> u32) option, 'a icache_scheme) kres" where
  "dirlookup dp nm s =
     (if itype (inodes s ! dp) \<noteq> T_DIR then Panic ''dirlookup not DIR''
      else dirlookup_loop dp nm (dirent_offs (isize (inodes s ! dp))) s)"

text \<open>The loop of \<open>dirlink\<close>: the offset of the first free entry, or the size.\<close>

fun dirlink_loop :: "nat \<Rightarrow> u32 list \<Rightarrow> 'a icache_scheme \<Rightarrow> (u32 option, 'a icache_scheme) kres" where
  "dirlink_loop dp [] s = Ret None s"
| "dirlink_loop dp (off # offs) s =
     bnd (readi dp off (of_nat DIRENT_SIZE) s) (\<lambda>r s.
     case r of (k, de) \<Rightarrow>
       if k \<noteq> int DIRENT_SIZE then Panic ''dirlink read''
       else if de_inum de = 0 then Ret (Some off) s
       else dirlink_loop dp offs s)"

definition dirlink :: "nat \<Rightarrow> u8 list \<Rightarrow> u32 \<Rightarrow> 'a icache_scheme \<Rightarrow> (int, 'a icache_scheme) kres" where
  "dirlink dp nm n s =
     bnd (dirlookup dp nm s) (\<lambda>r s.
     case r of
       Some (ip, _) \<Rightarrow> bnd (iput ip s) (\<lambda>_ s. Ret (-1) s)
     | None \<Rightarrow>
         let offs = dirent_offs (isize (inodes s ! dp))
         in bnd (dirlink_loop dp offs s) (\<lambda>r s.
            let off = (case r of Some off \<Rightarrow> off | None \<Rightarrow> of_nat (length offs * DIRENT_SIZE))
            in bnd (writei dp (mk_dirent (ucast n) nm) off s) (\<lambda>k s.
               if k \<noteq> int DIRENT_SIZE then Panic ''dirlink'' else Ret 0 s)))"

section \<open>Paths\<close>

definition slash :: u8 where "slash = 47"

definition skipelem :: "u8 list \<Rightarrow> (u8 list \<times> u8 list) option" where
  "skipelem path =
     (let path = dropWhile (\<lambda>c. c = slash) path
      in if path = [] then None
         else
           let elem = takeWhile (\<lambda>c. c \<noteq> slash) path;
               rest = dropWhile (\<lambda>c. c \<noteq> slash) path
           in Some (dropWhile (\<lambda>c. c = slash) rest, take DIRSIZ elem))"

text \<open>
  The loop of \<open>namex\<close>. The result has the inode, and the name of the last element when the parent
  is asked for.
\<close>

function namex_loop :: "nat \<Rightarrow> u8 list \<Rightarrow> bool \<Rightarrow> 'a icache_scheme \<Rightarrow>
    ((nat \<times> u8 list) option, 'a icache_scheme) kres" where
  "namex_loop ip path par s =
     (case skipelem path of
        None \<Rightarrow>
          if par then bnd (iput ip s) (\<lambda>_ s. Ret None s) else Ret (Some (ip, [])) s
      | Some (rest, nm) \<Rightarrow>
          bnd (ilock (Some ip) s) (\<lambda>_ s.
          if itype (inodes s ! ip) \<noteq> T_DIR then bnd (iunlockput ip s) (\<lambda>_ s. Ret None s)
          else if par \<and> rest = [] then bnd (iunlock (Some ip) s) (\<lambda>_ s. Ret (Some (ip, nm)) s)
          else
            bnd (dirlookup ip nm s) (\<lambda>r s.
            case r of
              None \<Rightarrow> bnd (iunlockput ip s) (\<lambda>_ s. Ret None s)
            | Some (nx, _) \<Rightarrow> bnd (iunlockput ip s) (\<lambda>_ s. namex_loop nx rest par s))))"
  by pat_completeness auto
termination
proof (relation "measure (\<lambda>(ip, path, par, s). length path)", goal_cases)
  case (2 ip path par s p rest nm u s1 r s2 q nx o1 v s3)
  let ?p = "dropWhile (\<lambda>c. c = slash) path"
  from 2 have ne: "?p \<noteq> []" and
    rest: "rest = dropWhile (\<lambda>c. c = slash) (dropWhile (\<lambda>c. c \<noteq> slash) ?p)"
    by (auto simp: skipelem_def Let_def split: if_splits)
  from ne obtain x xs where x: "?p = x # xs" "x \<noteq> slash"
    using hd_dropWhile [OF ne] by (cases ?p) auto
  have "length rest \<le> length xs"
    unfolding rest using x by (simp add: le_trans [OF length_dropWhile_le])
  also have "\<dots> < length ?p"
    by (simp add: x)
  also have "\<dots> \<le> length path"
    by (rule length_dropWhile_le)
  finally show ?case by simp
qed simp

definition namex :: "u8 list \<Rightarrow> bool \<Rightarrow> 'a icache_scheme \<Rightarrow>
    ((nat \<times> u8 list) option, 'a icache_scheme) kres" where
  "namex path par s =
     bnd (if chd path = slash then iget ROOTDEV ROOTINO s
          else with_myproc s (\<lambda>i s.
            case cwd (procs s ! i) of None \<Rightarrow> Undef ''null cwd'' | Some ip \<Rightarrow> idup ip s)) (\<lambda>ip s.
     namex_loop ip path par s)"

definition namei :: "u8 list \<Rightarrow> 'a icache_scheme \<Rightarrow> (nat option, 'a icache_scheme) kres" where
  "namei path s = bnd (namex path False s) (\<lambda>r s. Ret (map_option fst r) s)"

definition nameiparent :: "u8 list \<Rightarrow> 'a icache_scheme \<Rightarrow>
    ((nat \<times> u8 list) option, 'a icache_scheme) kres" where
  "nameiparent path s = namex path True s"

end
