(* ===== verification/File.thy ===== *)
theory File
  imports Dir
begin

text \<open>
  file.c and pipe.c: the table of open files, and pipes. A pointer to an open file is its index in
  the table. A pipe is in a page of its own; \<open>pipes\<close> gives the structure that the code keeps in
  the page at an address. Data buffers are passed by value, as in Dir.thy.
\<close>

section \<open>State\<close>

definition PIPESIZE :: u32 where "PIPESIZE = 512"

datatype fdtype = FD_NONE | FD_PIPE | FD_INODE

record openfile =
  ftype :: fdtype
  fref :: int
  readable :: bool
  writable :: bool
  fpipe :: u32
  fip :: "nat option"
  foff :: u32

record pipe =
  pdata :: "u8 list"
  nread :: u32
  nwrite :: u32
  readopen :: bool
  writeopen :: bool

record ftable = icache +
  files :: "openfile list"
  pipes :: "u32 \<Rightarrow> pipe"

definition upd_file :: "nat \<Rightarrow> (openfile \<Rightarrow> openfile) \<Rightarrow> 'a ftable_scheme \<Rightarrow> 'a ftable_scheme" where
  "upd_file f g s = s\<lparr>files := (files s)[f := g (files s ! f)]\<rparr>"

definition upd_pipe :: "u32 \<Rightarrow> (pipe \<Rightarrow> pipe) \<Rightarrow> 'a ftable_scheme \<Rightarrow> 'a ftable_scheme" where
  "upd_pipe p g s = s\<lparr>pipes := (pipes s)(p := g (pipes s p))\<rparr>"

section \<open>Allocation and references\<close>

definition fileinit :: "'a ftable_scheme \<Rightarrow> 'a ftable_scheme" where
  "fileinit s = initlock Lftable ''ftable'' s"

definition filealloc :: "'a ftable_scheme \<Rightarrow> (nat option, 'a ftable_scheme) kres" where
  "filealloc s =
     bnd (acquire Lftable s) (\<lambda>_ s.
     case scan (\<lambda>f. fref f = 0) (files s) of
       Some f \<Rightarrow>
         let s = upd_file f (\<lambda>k. k\<lparr>fref := 1\<rparr>) s
         in bnd (release Lftable s) (\<lambda>_ s. Ret (Some f) s)
     | None \<Rightarrow> bnd (release Lftable s) (\<lambda>_ s. Ret None s))"

definition filedup :: "nat \<Rightarrow> 'a ftable_scheme \<Rightarrow> (nat, 'a ftable_scheme) kres" where
  "filedup f s =
     bnd (acquire Lftable s) (\<lambda>_ s.
     if fref (files s ! f) < 1 then Panic ''filedup''
     else
       let s = upd_file f (\<lambda>k. k\<lparr>fref := fref k + 1\<rparr>) s
       in bnd (release Lftable s) (\<lambda>_ s. Ret f s))"

definition pipeclose :: "u32 \<Rightarrow> bool \<Rightarrow> 'a ftable_scheme \<Rightarrow> (unit, 'a ftable_scheme) kres" where
  "pipeclose p wr s =
     bnd (acquire (Lpipe p) s) (\<lambda>_ s.
     bnd (if wr
          then wakeup (Cnread p) (upd_pipe p (\<lambda>k. k\<lparr>writeopen := False\<rparr>) s)
          else wakeup (Cnwrite p) (upd_pipe p (\<lambda>k. k\<lparr>readopen := False\<rparr>) s)) (\<lambda>_ s.
     if \<not> readopen (pipes s p) \<and> \<not> writeopen (pipes s p)
     then bnd (release (Lpipe p) s) (\<lambda>_ s. kfree p s)
     else release (Lpipe p) s))"

definition fileclose :: "nat \<Rightarrow> 'a ftable_scheme \<Rightarrow> (unit, 'a ftable_scheme) kres" where
  "fileclose f s =
     bnd (acquire Lftable s) (\<lambda>_ s.
     if fref (files s ! f) < 1 then Panic ''fileclose''
     else
       let s = upd_file f (\<lambda>k. k\<lparr>fref := fref k - 1\<rparr>) s
       in if fref (files s ! f) > 0 then release Lftable s
          else
            let ff = files s ! f;
                s = upd_file f (\<lambda>k. k\<lparr>fref := 0\<rparr>) s;
                s = upd_file f (\<lambda>k. k\<lparr>ftype := FD_NONE\<rparr>) s
            in bnd (release Lftable s) (\<lambda>_ s.
               case ftype ff of
                 FD_PIPE \<Rightarrow> pipeclose (fpipe ff) (writable ff) s
               | FD_INODE \<Rightarrow>
                  (case fip ff of
                     None \<Rightarrow> Undef ''null inode''
                   | Some ip \<Rightarrow>
                       bnd (begin_op s) (\<lambda>_ s.
                       bnd (iput ip s) (\<lambda>_ s.
                       end_op s)))
               | FD_NONE \<Rightarrow> Ret () s))"

section \<open>Pipes\<close>

text \<open>The cleanup at \<open>bad\<close>, where no pipe was allocated.\<close>

definition pipealloc_bad :: "nat option \<Rightarrow> nat option \<Rightarrow> 'a ftable_scheme \<Rightarrow>
    ((nat \<times> nat) option, 'a ftable_scheme) kres" where
  "pipealloc_bad f0 f1 s =
     bnd (case f0 of Some f \<Rightarrow> fileclose f s | None \<Rightarrow> Ret () s) (\<lambda>_ s.
     bnd (case f1 of Some f \<Rightarrow> fileclose f s | None \<Rightarrow> Ret () s) (\<lambda>_ s.
     Ret None s))"

text \<open>\<open>pipealloc\<close> returns the read end and the write end, or \<open>None\<close> for -1.\<close>

definition pipealloc :: "'a ftable_scheme \<Rightarrow> ((nat \<times> nat) option, 'a ftable_scheme) kres" where
  "pipealloc s =
     bnd (filealloc s) (\<lambda>r0 s.
     case r0 of
       None \<Rightarrow> pipealloc_bad None None s
     | Some f0 \<Rightarrow>
         bnd (filealloc s) (\<lambda>r1 s.
         case r1 of
           None \<Rightarrow> pipealloc_bad (Some f0) None s
         | Some f1 \<Rightarrow>
             bnd (kalloc s) (\<lambda>p s.
             if p = 0 then pipealloc_bad (Some f0) (Some f1) s
             else
               let s = upd_pipe p (\<lambda>k. k\<lparr>readopen := True, writeopen := True, nwrite := 0, nread := 0\<rparr>) s;
                   s = initlock (Lpipe p) ''pipe'' s;
                   s = upd_file f0 (\<lambda>k. k\<lparr>ftype := FD_PIPE, readable := True, writable := False, fpipe := p\<rparr>) s;
                   s = upd_file f1 (\<lambda>k. k\<lparr>ftype := FD_PIPE, readable := False, writable := True, fpipe := p\<rparr>) s
               in Ret (Some (f0, f1)) s)))"

definition pipe_ix :: "u32 \<Rightarrow> nat" where "pipe_ix i = unat (i mod PIPESIZE)"

text \<open>
  The loop of \<open>pipewrite\<close> on the bytes still to write, with the lock held. A writer that finds the
  pipe full wakes the readers and sleeps.
\<close>

fun pipewrite_loop :: "u32 \<Rightarrow> int \<Rightarrow> u8 list \<Rightarrow> 'a ftable_scheme \<Rightarrow> (int, 'a ftable_scheme) kres" where
  "pipewrite_loop p n [] s =
     bnd (wakeup (Cnread p) s) (\<lambda>_ s.
     bnd (release (Lpipe p) s) (\<lambda>_ s. Ret n s))"
| "pipewrite_loop p n (b # bs) s =
     (if nwrite (pipes s p) = nread (pipes s p) + PIPESIZE then
        bnd (if \<not> readopen (pipes s p) then Ret True s
             else with_myproc s (\<lambda>i s. Ret (killed (procs s ! i)) s)) (\<lambda>stop s.
        if stop then bnd (release (Lpipe p) s) (\<lambda>_ s. Ret (-1) s)
        else
          bnd (wakeup (Cnread p) s) (\<lambda>_ s.
          sleep_on (Cnwrite p) (Lpipe p) s))
      else
        let s = upd_pipe p (\<lambda>k. k\<lparr>pdata := (pdata k)[pipe_ix (nwrite k) := b], nwrite := nwrite k + 1\<rparr>) s
        in pipewrite_loop p n bs s)"

definition pipewrite :: "u32 \<Rightarrow> u8 list \<Rightarrow> 'a ftable_scheme \<Rightarrow> (int, 'a ftable_scheme) kres" where
  "pipewrite p bs s =
     bnd (acquire (Lpipe p) s) (\<lambda>_ s. pipewrite_loop p (int (length bs)) bs s)"

definition pipewrite_resume :: "nat \<Rightarrow> bool \<Rightarrow> u32 \<Rightarrow> int \<Rightarrow> u8 list \<Rightarrow> 'a ftable_scheme \<Rightarrow>
    (int, 'a ftable_scheme) kres" where
  "pipewrite_resume i saved p n bs s =
     bnd (sleep_exit i saved (Lpipe p) s) (\<lambda>_ s. pipewrite_loop p n bs s)"

text \<open>The copy loop of \<open>piperead\<close>.\<close>

fun piperead_copy :: "u32 \<Rightarrow> nat \<Rightarrow> 'a ftable_scheme \<Rightarrow> u8 list \<times> 'a ftable_scheme" where
  "piperead_copy p 0 s = ([], s)"
| "piperead_copy p (Suc n) s =
     (if nread (pipes s p) = nwrite (pipes s p) then ([], s)
      else
        let b = pdata (pipes s p) ! pipe_ix (nread (pipes s p));
            s = upd_pipe p (\<lambda>k. k\<lparr>nread := nread k + 1\<rparr>) s;
            (bs, s) = piperead_copy p n s
        in (b # bs, s))"

definition piperead_loop :: "u32 \<Rightarrow> int \<Rightarrow> 'a ftable_scheme \<Rightarrow> (int \<times> u8 list, 'a ftable_scheme) kres" where
  "piperead_loop p n s =
     (if nread (pipes s p) = nwrite (pipes s p) \<and> writeopen (pipes s p) then
        with_myproc s (\<lambda>i s.
        if killed (procs s ! i) then bnd (release (Lpipe p) s) (\<lambda>_ s. Ret (-1, []) s)
        else sleep_on (Cnread p) (Lpipe p) s)
      else
        case piperead_copy p (nat n) s of (bs, s) \<Rightarrow>
        bnd (wakeup (Cnwrite p) s) (\<lambda>_ s.
        bnd (release (Lpipe p) s) (\<lambda>_ s. Ret (int (length bs), bs) s)))"

definition piperead :: "u32 \<Rightarrow> int \<Rightarrow> 'a ftable_scheme \<Rightarrow> (int \<times> u8 list, 'a ftable_scheme) kres" where
  "piperead p n s = bnd (acquire (Lpipe p) s) (\<lambda>_ s. piperead_loop p n s)"

definition piperead_resume :: "nat \<Rightarrow> bool \<Rightarrow> u32 \<Rightarrow> int \<Rightarrow> 'a ftable_scheme \<Rightarrow>
    (int \<times> u8 list, 'a ftable_scheme) kres" where
  "piperead_resume i saved p n s =
     bnd (sleep_exit i saved (Lpipe p) s) (\<lambda>_ s. piperead_loop p n s)"

section \<open>Reading and writing\<close>

definition filestat :: "nat \<Rightarrow> 'a ftable_scheme \<Rightarrow> (stat option, 'a ftable_scheme) kres" where
  "filestat f s =
     (if ftype (files s ! f) = FD_INODE then
        let ip = fip (files s ! f)
        in bnd (ilock ip s) (\<lambda>_ s.
           let st = stati (the ip) s
           in bnd (iunlock ip s) (\<lambda>_ s. Ret (Some st) s))
      else Ret None s)"

definition fileread :: "nat \<Rightarrow> int \<Rightarrow> 'a ftable_scheme \<Rightarrow> (int \<times> u8 list, 'a ftable_scheme) kres" where
  "fileread f n s =
     (let k = files s ! f
      in if \<not> readable k then Ret (-1, []) s
         else (case ftype k of
             FD_PIPE \<Rightarrow> piperead (fpipe k) n s
           | FD_INODE \<Rightarrow>
               bnd (ilock (fip k) s) (\<lambda>_ s.
               bnd (readi (the (fip k)) (foff (files s ! f)) (of_int n) s) (\<lambda>(r, d) s.
               let s = (if r > 0 then upd_file f (\<lambda>k. k\<lparr>foff := foff k + of_int r\<rparr>) s else s)
               in bnd (iunlock (fip k) s) (\<lambda>_ s. Ret (r, d) s)))
           | FD_NONE \<Rightarrow> Panic ''fileread''))"

definition filewrite_max :: nat where
  "filewrite_max = ((MAXOPBLOCKS - 1 - 1 - 2) div 2) * 512"

text \<open>The loop over the transactions of one write; the result is whether all was written.\<close>

function filewrite_loop :: "nat \<Rightarrow> u8 list \<Rightarrow> 'a ftable_scheme \<Rightarrow> (bool, 'a ftable_scheme) kres" where
  "filewrite_loop f src s =
     (if src = [] then Ret True s
      else
        let n1 = min (length src) filewrite_max;
            ip = fip (files s ! f)
        in bnd (begin_op s) (\<lambda>_ s.
           bnd (ilock ip s) (\<lambda>_ s.
           bnd (writei (the ip) (take n1 src) (foff (files s ! f)) s) (\<lambda>r s.
           let s = (if r > 0 then upd_file f (\<lambda>k. k\<lparr>foff := foff k + of_int r\<rparr>) s else s)
           in bnd (iunlock ip s) (\<lambda>_ s.
              bnd (end_op s) (\<lambda>_ s.
              if r < 0 then Ret False s
              else if r \<noteq> int n1 then Panic ''short filewrite''
              else filewrite_loop f (drop n1 src) s))))))"
  by pat_completeness auto
termination
  by (relation "measure (\<lambda>(f, src, s). length src)")
     (auto simp: filewrite_max_def MAXOPBLOCKS_def)

definition filewrite :: "nat \<Rightarrow> u8 list \<Rightarrow> 'a ftable_scheme \<Rightarrow> (int, 'a ftable_scheme) kres" where
  "filewrite f src s =
     (let k = files s ! f
      in if \<not> writable k then Ret (-1) s
         else (case ftype k of
             FD_PIPE \<Rightarrow> pipewrite (fpipe k) src s
           | FD_INODE \<Rightarrow>
               bnd (filewrite_loop f src s) (\<lambda>all s. Ret (if all then int (length src) else -1) s)
           | FD_NONE \<Rightarrow> Panic ''filewrite''))"

end
