(* ===== verification/Fork.thy ===== *)
theory Fork
  imports File
begin

text \<open>
  The operations of proc.c that use the file system: \<open>userinit\<close>, \<open>fork\<close>, \<open>exit\<close> and \<open>forkret\<close>, and the
  clock. The record \<open>kernel\<close> is the whole state of the kernel.
\<close>

record kernel = ftable +
  ticks :: u32
  forkret_first :: bool   \<comment> \<open>the static variable \<open>first\<close> of \<open>forkret\<close>\<close>

text \<open>\<open>safestrcpy\<close> into an array held by value (the second zero is stored past a copied terminator).\<close>

definition safestrcpy_bytes :: "u8 list \<Rightarrow> u8 list \<Rightarrow> nat \<Rightarrow> u8 list" where
  "safestrcpy_bytes d src n =
     (if n = 0 then d
      else
        let k = take (n - 1) (takeWhile (\<lambda>c. c \<noteq> 0) src)
        in if length k < n - 1 then k @ [0, 0] @ drop (length k + 2) d
           else k @ [0] @ drop (length k + 1) d)"

definition PNAME_SIZE :: nat where "PNAME_SIZE = 16"

definition bytes_of :: "string \<Rightarrow> u8 list" where
  "bytes_of x = map of_char x"

definition FL_IF :: u32 where "FL_IF = 0x200"

text \<open>A store of a 16-bit field of the trap frame.\<close>

definition store16 :: "mem \<Rightarrow> u32 \<Rightarrow> u16 \<Rightarrow> mem" where
  "store16 m a v = m(a := of_nat (unat v), a + 1 := of_nat (unat v div 256))"

definition user_sel :: "nat \<Rightarrow> u16" where
  "user_sel seg = push_bit 3 (of_nat seg) OR of_nat DPL_USER"

definition userinit :: "u32 \<Rightarrow> u32 \<Rightarrow> 'a kernel_scheme \<Rightarrow> (unit, 'a kernel_scheme) kres" where
  "userinit initcode_start initcode_size s =
     bnd (allocproc s) (\<lambda>po s.
     let s = s\<lparr>initproc := po\<rparr>
     in case po of
          None \<Rightarrow> Undef ''null process''
        | Some p \<Rightarrow>
            bnd (setupkvm s) (\<lambda>d s.
            let s = upd_proc p (\<lambda>k. k\<lparr>pgdir := d\<rparr>) s
            in if d = 0 then Panic ''userinit: out of memory?''
               else
                 bnd (inituvm d initcode_start initcode_size s) (\<lambda>_ s.
                 let s = upd_proc p (\<lambda>k. k\<lparr>sz := PGSIZE\<rparr>) s;
                     t = tf (procs s ! p);
                     s = s\<lparr>mem := memset (mem s) t 0 TF_size\<rparr>;
                     s = s\<lparr>mem := store16 (mem s) (t + TF_cs) (user_sel SEG_UCODE)\<rparr>;
                     s = s\<lparr>mem := store16 (mem s) (t + TF_ds) (user_sel SEG_UDATA)\<rparr>;
                     s = s\<lparr>mem := store16 (mem s) (t + TF_es) (user_sel SEG_UDATA)\<rparr>;
                     s = s\<lparr>mem := store16 (mem s) (t + TF_ss) (user_sel SEG_UDATA)\<rparr>;
                     s = s\<lparr>mem := store32 (mem s) (t + TF_eflags) FL_IF\<rparr>;
                     s = s\<lparr>mem := store32 (mem s) (t + TF_esp) PGSIZE\<rparr>;
                     s = s\<lparr>mem := store32 (mem s) (t + TF_eip) 0\<rparr>;
                     s = upd_proc p (\<lambda>k. k\<lparr>pname := safestrcpy_bytes (pname k) (bytes_of ''initcode'') PNAME_SIZE\<rparr>) s
                 in bnd (namei [slash] s) (\<lambda>ip s.
                    let s = upd_proc p (\<lambda>k. k\<lparr>cwd := ip\<rparr>) s
                    in bnd (acquire Lptable s) (\<lambda>_ s.
                       let s = upd_proc p (\<lambda>k. k\<lparr>state := RUNNABLE\<rparr>) s
                       in release Lptable s)))))"

text \<open>Loop body of \<open>fork\<close>: share open file \<open>fd\<close>.\<close>

definition fork_file :: "nat \<Rightarrow> nat \<Rightarrow> nat \<Rightarrow> 'a ftable_scheme \<Rightarrow> (unit, 'a ftable_scheme) kres" where
  "fork_file cur np fd s =
     (case ofile (procs s ! cur) ! fd of
        None \<Rightarrow> Ret () s
      | Some f \<Rightarrow>
          bnd (filedup f s) (\<lambda>f s.
          Ret () (upd_proc np (\<lambda>k. k\<lparr>ofile := (ofile k)[fd := Some f]\<rparr>) s)))"

definition fork :: "'a ftable_scheme \<Rightarrow> (int, 'a ftable_scheme) kres" where
  "fork s =
     with_myproc s (\<lambda>cur s.
     bnd (allocproc s) (\<lambda>po s.
     case po of
       None \<Rightarrow> Ret (-1) s
     | Some np \<Rightarrow>
         bnd (copyuvm (pgdir (procs s ! cur)) (sz (procs s ! cur)) s) (\<lambda>d s.
         let s = upd_proc np (\<lambda>k. k\<lparr>pgdir := d\<rparr>) s
         in if d = 0 then
              bnd (kfree (kstack (procs s ! np)) s) (\<lambda>_ s.
              let s = upd_proc np (\<lambda>k. k\<lparr>kstack := 0\<rparr>) s;
                  s = upd_proc np (\<lambda>k. k\<lparr>state := UNUSED\<rparr>) s
              in Ret (-1) s)
            else
              let s = upd_proc np (\<lambda>k. k\<lparr>sz := sz (procs s ! cur)\<rparr>) s;
                  s = upd_proc np (\<lambda>k. k\<lparr>parent := Some cur\<rparr>) s;
                  s = s\<lparr>mem := memmove (mem s) (tf (procs s ! np)) (tf (procs s ! cur)) TF_size\<rparr>;
                  s = s\<lparr>mem := store32 (mem s) (tf (procs s ! np) + TF_eax) 0\<rparr>
              in bnd (mfor (fork_file cur np) [0..<NOFILE] s) (\<lambda>_ s.
                 case cwd (procs s ! cur) of
                   None \<Rightarrow> Undef ''null cwd''
                 | Some ip \<Rightarrow>
                     bnd (idup ip s) (\<lambda>ip s.
                     let s = upd_proc np (\<lambda>k. k\<lparr>cwd := Some ip\<rparr>) s;
                         s = upd_proc np (\<lambda>k. k\<lparr>pname := safestrcpy_bytes (pname k) (pname (procs s ! cur)) PNAME_SIZE\<rparr>) s;
                         n = pid (procs s ! np)
                     in bnd (acquire Lptable s) (\<lambda>_ s.
                        let s = upd_proc np (\<lambda>k. k\<lparr>state := RUNNABLE\<rparr>) s
                        in bnd (release Lptable s) (\<lambda>_ s. Ret n s)))))))"

text \<open>Loop bodies of \<open>exit\<close>: close file \<open>fd\<close>; give child \<open>i\<close> to init.\<close>

definition exit_file :: "nat \<Rightarrow> nat \<Rightarrow> 'a ftable_scheme \<Rightarrow> (unit, 'a ftable_scheme) kres" where
  "exit_file cur fd s =
     (case ofile (procs s ! cur) ! fd of
        None \<Rightarrow> Ret () s
      | Some f \<Rightarrow>
          bnd (fileclose f s) (\<lambda>_ s.
          Ret () (upd_proc cur (\<lambda>k. k\<lparr>ofile := (ofile k)[fd := None]\<rparr>) s)))"

definition exit_child :: "nat \<Rightarrow> nat \<Rightarrow> 'a ptable_scheme \<Rightarrow> 'a ptable_scheme" where
  "exit_child cur i s =
     (if parent (procs s ! i) = Some cur then
        let s = upd_proc i (\<lambda>k. k\<lparr>parent := initproc s\<rparr>) s
        in if state (procs s ! i) = ZOMBIE then wakeup1 (map_option Cproc (initproc s)) s else s
      else s)"

text \<open>\<open>exit\<close> leaves the processor for good: its outcome is \<open>Slp\<close>.\<close>

definition exit :: "'a ftable_scheme \<Rightarrow> ('r, 'a ftable_scheme) kres" where
  "exit s =
     with_myproc s (\<lambda>cur s.
     if Some cur = initproc s then Panic ''init exiting''
     else
       bnd (mfor (exit_file cur) [0..<NOFILE] s) (\<lambda>_ s.
       bnd (begin_op s) (\<lambda>_ s.
       case cwd (procs s ! cur) of
         None \<Rightarrow> Undef ''null cwd''
       | Some ip \<Rightarrow>
           bnd (iput ip s) (\<lambda>_ s.
           bnd (end_op s) (\<lambda>_ s.
           let s = upd_proc cur (\<lambda>k. k\<lparr>cwd := None\<rparr>) s
           in bnd (acquire Lptable s) (\<lambda>_ s.
              let s = wakeup1 (map_option Cproc (parent (procs s ! cur))) s;
                  s = fold (exit_child cur) [0..<length (procs s)] s;
                  s = upd_proc cur (\<lambda>k. k\<lparr>state := ZOMBIE\<rparr>) s
              in bnd (sched_out s) (\<lambda>_ s. Slp s)))))))"

definition forkret :: "'a kernel_scheme \<Rightarrow> (unit, 'a kernel_scheme) kres" where
  "forkret s =
     bnd (release Lptable s) (\<lambda>_ s.
     if forkret_first s then
       let s = s\<lparr>forkret_first := False\<rparr>
       in bnd (iinit (uint ROOTDEV) s) (\<lambda>_ s.
          initlog (uint ROOTDEV) s)
     else Ret () s)"

end
