(* ===== verification/Uaccess.thy ===== *)
theory Uaccess
  imports Fork
begin

text \<open>
  The user memory that the kernel reads and writes through the page table of the current
  process, and the routines of syscall.c that fetch system call arguments. An access that the
  page table does not map is a page fault in kernel mode, on which \<open>trap\<close> panics.
\<close>

section \<open>Translation\<close>

definition xlate :: "mem \<Rightarrow> u32 \<Rightarrow> u32 \<Rightarrow> u32 option" where
  "xlate m d va =
     (let pde = load32 m (d + 4 * PDX va)
      in if pde AND PTE_P = 0 then None
         else
           let pte = load32 m (P2V (PTE_ADDR pde) + 4 * PTX va)
           in if pte AND PTE_P = 0 then None
              else Some (P2V (PTE_ADDR pte) + (va AND 0xFFF)))"

definition uload8 :: "'a kmem_scheme \<Rightarrow> u32 \<Rightarrow> u8 option" where
  "uload8 s va = map_option (mem s) (xlate (mem s) (P2V (cr3 s)) va)"

text \<open>The \<open>n\<close> bytes at a user address.\<close>

definition uread :: "nat \<Rightarrow> u32 \<Rightarrow> 'a kmem_scheme \<Rightarrow> (u8 list, 'a kmem_scheme) kres" where
  "uread n va s =
     (let bs = map (\<lambda>i. uload8 s (va + of_nat i)) [0..<n]
      in if None \<in> set bs then Panic ''trap'' else Ret (map the bs) s)"

definition uread32 :: "u32 \<Rightarrow> 'a kmem_scheme \<Rightarrow> (u32, 'a kmem_scheme) kres" where
  "uread32 va s = bnd (uread 4 va s) (\<lambda>b s. Ret (get32 b 0) s)"

definition ustore8 :: "u32 \<times> u8 \<Rightarrow> 'a kmem_scheme \<Rightarrow> (unit, 'a kmem_scheme) kres" where
  "ustore8 ab s =
     (case xlate (mem s) (P2V (cr3 s)) (fst ab) of
        None \<Rightarrow> Panic ''trap''
      | Some a \<Rightarrow> Ret () (s\<lparr>mem := (mem s)(a := snd ab)\<rparr>))"

definition uwrite :: "u32 \<Rightarrow> u8 list \<Rightarrow> 'a kmem_scheme \<Rightarrow> (unit, 'a kmem_scheme) kres" where
  "uwrite va bs s = mfor ustore8 (map (\<lambda>i. (va + of_nat i, bs ! i)) [0..<length bs]) s"

definition le32 :: "u32 \<Rightarrow> u8 list" where
  "le32 v = [byte_of v 0, byte_of v 1, byte_of v 2, byte_of v 3]"

definition le16 :: "u16 \<Rightarrow> u8 list" where
  "le16 v = [of_nat (unat v), of_nat (unat v div 256)]"

section \<open>Arguments\<close>

text \<open>The results are \<open>None\<close> where the code returns -1.\<close>

definition fetchint :: "u32 \<Rightarrow> 'a ptable_scheme \<Rightarrow> (u32 option, 'a ptable_scheme) kres" where
  "fetchint addr s =
     with_myproc s (\<lambda>i s.
     if addr \<ge> sz (procs s ! i) \<or> addr + 4 > sz (procs s ! i) then Ret None s
     else bnd (uread32 addr s) (\<lambda>v s. Ret (Some v) s))"

text \<open>
  The loop of \<open>fetchstr\<close> looks at \<open>n\<close> bytes from \<open>a\<close> on, which is up to the end of the process's
  memory. The result is the string.
\<close>

fun fetchstr_loop :: "nat \<Rightarrow> u32 \<Rightarrow> 'a kmem_scheme \<Rightarrow> (u8 list option, 'a kmem_scheme) kres" where
  "fetchstr_loop 0 a s = Ret None s"
| "fetchstr_loop (Suc n) a s =
     (case uload8 s a of
        None \<Rightarrow> Panic ''trap''
      | Some c \<Rightarrow>
          if c = 0 then Ret (Some []) s
          else bnd (fetchstr_loop n (a + 1) s) (\<lambda>r s. Ret (map_option (\<lambda>t. c # t) r) s))"

definition fetchstr :: "u32 \<Rightarrow> 'a ptable_scheme \<Rightarrow> (u8 list option, 'a ptable_scheme) kres" where
  "fetchstr addr s =
     with_myproc s (\<lambda>i s.
     if addr \<ge> sz (procs s ! i) then Ret None s
     else fetchstr_loop (unat (sz (procs s ! i) - addr)) addr s)"

definition argint :: "nat \<Rightarrow> 'a ptable_scheme \<Rightarrow> (u32 option, 'a ptable_scheme) kres" where
  "argint n s =
     with_myproc s (\<lambda>i s.
     fetchint (load32 (mem s) (tf (procs s ! i) + TF_esp) + 4 + 4 * of_nat n) s)"

definition argptr :: "nat \<Rightarrow> int \<Rightarrow> 'a ptable_scheme \<Rightarrow> (u32 option, 'a ptable_scheme) kres" where
  "argptr n siz s =
     with_myproc s (\<lambda>i s.
     bnd (argint n s) (\<lambda>r s.
     case r of
       None \<Rightarrow> Ret None s
     | Some a \<Rightarrow>
         if siz < 0 \<or> a \<ge> sz (procs s ! i) \<or> a + of_int siz > sz (procs s ! i) then Ret None s
         else Ret (Some a) s))"

definition argstr :: "nat \<Rightarrow> 'a ptable_scheme \<Rightarrow> (u8 list option, 'a ptable_scheme) kres" where
  "argstr n s =
     bnd (argint n s) (\<lambda>r s.
     case r of None \<Rightarrow> Ret None s | Some a \<Rightarrow> fetchstr a s)"

end
