(* ===== verification/Exec.thy ===== *)
theory Exec
  imports Uaccess
begin

text \<open>
  exec.c, and \<open>loaduvm\<close> of vm.c, which reads a program segment from an inode. The path and the
  argument strings, which are in the memory of the calling process, are passed by value.
\<close>

section \<open>Executable files\<close>

definition MAXARG :: nat where "MAXARG = 32"
definition ELF_MAGIC :: u32 where "ELF_MAGIC = 0x464C457F"
definition ELF_PROG_LOAD :: u32 where "ELF_PROG_LOAD = 1"

record elfhdr =
  elf_magic :: u32
  elf_entry :: u32
  elf_phoff :: u32
  elf_phnum :: u16

definition ELFHDR_SIZE :: nat where "ELFHDR_SIZE = 52"

definition elfhdr_of :: "u8 list \<Rightarrow> elfhdr" where
  "elfhdr_of d =
     \<lparr>elf_magic = get32 d 0, elf_entry = get32 d 24, elf_phoff = get32 d 28, elf_phnum = get16 d 44\<rparr>"

record proghdr =
  ph_type :: u32
  ph_off :: u32
  ph_vaddr :: u32
  ph_filesz :: u32
  ph_memsz :: u32

definition PROGHDR_SIZE :: nat where "PROGHDR_SIZE = 32"

definition proghdr_of :: "u8 list \<Rightarrow> proghdr" where
  "proghdr_of d =
     \<lparr>ph_type = get32 d 0, ph_off = get32 d 4, ph_vaddr = get32 d 8, ph_filesz = get32 d 16,
      ph_memsz = get32 d 20\<rparr>"

section \<open>Copies from a kernel buffer\<close>

text \<open>Bytes stored at consecutive addresses.\<close>

fun store_bytes :: "mem \<Rightarrow> u32 \<Rightarrow> u8 list \<Rightarrow> mem" where
  "store_bytes m a [] = m"
| "store_bytes m a (b # bs) = store_bytes (m(a := b)) (a + 1) bs"

text \<open>\<open>copyout\<close> with the source passed by value.\<close>

function copyout_bytes :: "u32 \<Rightarrow> u32 \<Rightarrow> u8 list \<Rightarrow> 'a kmem_scheme \<Rightarrow> (int, 'a kmem_scheme) kres" where
  "copyout_bytes d va bs s =
     (if bs \<noteq> [] then
        let va0 = PGROUNDDOWN va
        in bnd (uva2ka d va0 s) (\<lambda>pa0 s.
           if pa0 = 0 then Ret (-1) s
           else
             let n = min (unat (PGSIZE - (va - va0))) (length bs);
                 s = s\<lparr>mem := store_bytes (mem s) (pa0 + (va - va0)) (take n bs)\<rparr>
             in copyout_bytes d (va0 + PGSIZE) (drop n bs) s)
      else Ret 0 s)"
  by pat_completeness auto
termination
proof (relation "measure (\<lambda>(_, _, bs, _). length bs)", goal_cases)
  case (2 d va bs s va0 r s' n s'')
  have "unat (va - va0) < 4096"
    using 2 by (simp add: PGROUNDDOWN_off)
  then have "0 < unat (PGSIZE - (va - va0))"
    by (simp add: unat_sub32 PGSIZE_def)
  then show ?case
    using 2 by simp
qed simp

text \<open>
  The loop of \<open>loaduvm\<close>: page \<open>i\<close> of the segment, of which \<open>sz - i\<close> bytes are left. For the size
  of a segment that an allocation succeeded for, the offset \<open>i\<close> does not wrap; the fuel is the
  number of pages of the address space.
\<close>

fun loaduvm_loop :: "nat \<Rightarrow> u32 \<Rightarrow> u32 \<Rightarrow> nat \<Rightarrow> u32 \<Rightarrow> u32 \<Rightarrow> u32 \<Rightarrow> 'a icache_scheme \<Rightarrow>
    (int, 'a icache_scheme) kres" where
  "loaduvm_loop 0 d addr ip offset siz i s = (if i < siz then Spin else Ret 0 s)"
| "loaduvm_loop (Suc k) d addr ip offset siz i s =
     (if i < siz then
        bnd (walkpgdir d (addr + i) False s) (\<lambda>pte s.
        if pte = 0 then Panic ''loaduvm: address should exist''
        else
          let pa = PTE_ADDR (load32 (mem s) pte);
              n = (if siz - i < PGSIZE then siz - i else PGSIZE)
          in bnd (readi ip (offset + i) n s) (\<lambda>r s.
             case r of (m, bs) \<Rightarrow>
               let s = s\<lparr>mem := store_bytes (mem s) (P2V pa) bs\<rparr>
               in if (of_int m :: u32) \<noteq> n then Ret (-1) s
                  else loaduvm_loop k d addr ip offset siz (i + PGSIZE) s))
      else Ret 0 s)"

definition loaduvm :: "u32 \<Rightarrow> u32 \<Rightarrow> nat \<Rightarrow> u32 \<Rightarrow> u32 \<Rightarrow> 'a icache_scheme \<Rightarrow>
    (int, 'a icache_scheme) kres" where
  "loaduvm d addr ip offset siz s =
     (if addr mod PGSIZE \<noteq> 0 then Panic ''loaduvm: addr must be page aligned''
      else loaduvm_loop PAGES d addr ip offset siz 0 s)"

section \<open>exec\<close>

text \<open>The code at \<open>bad\<close>; \<open>d\<close> is the new page directory, or 0.\<close>

definition exec_bad :: "u32 \<Rightarrow> nat option \<Rightarrow> 'a ftable_scheme \<Rightarrow> (int, 'a ftable_scheme) kres" where
  "exec_bad d ipo s =
     bnd (if d \<noteq> 0 then freevm d s else Ret () s) (\<lambda>_ s.
     case ipo of
       None \<Rightarrow> Ret (-1) s
     | Some ip \<Rightarrow> bnd (iunlockput ip s) (\<lambda>_ s. bnd (end_op s) (\<lambda>_ s. Ret (-1) s)))"

text \<open>The loop over the program headers; \<open>None\<close> is a jump to \<open>bad\<close>.\<close>

fun exec_load :: "u32 \<Rightarrow> nat \<Rightarrow> u32 list \<Rightarrow> u32 \<Rightarrow> 'a icache_scheme \<Rightarrow> (u32 option, 'a icache_scheme) kres" where
  "exec_load d ip [] siz s = Ret (Some siz) s"
| "exec_load d ip (off # offs) siz s =
     bnd (readi ip off (of_nat PROGHDR_SIZE) s) (\<lambda>r s.
     let ph = proghdr_of (snd r)
     in if fst r \<noteq> int PROGHDR_SIZE then Ret None s
        else if ph_type ph \<noteq> ELF_PROG_LOAD then exec_load d ip offs siz s
        else if ph_memsz ph < ph_filesz ph then Ret None s
        else if ph_vaddr ph + ph_memsz ph < ph_vaddr ph then Ret None s
        else
          bnd (allocuvm d siz (ph_vaddr ph + ph_memsz ph) s) (\<lambda>siz s.
          if siz = 0 then Ret None s
          else if ph_vaddr ph mod PGSIZE \<noteq> 0 then Ret None s
          else
            bnd (loaduvm d (ph_vaddr ph) ip (ph_off ph) (ph_filesz ph) s) (\<lambda>k s.
            if k < 0 then Ret None s else exec_load d ip offs siz s)))"

definition ph_offs :: "elfhdr \<Rightarrow> u32 list" where
  "ph_offs e = map (\<lambda>i. elf_phoff e + of_nat (i * PROGHDR_SIZE)) [0..<unat (elf_phnum e)]"

text \<open>
  The loop that pushes the argument strings: the new stack pointer and the addresses of the
  strings; \<open>None\<close> is a jump to \<open>bad\<close>.
\<close>

fun exec_args :: "u32 \<Rightarrow> nat \<Rightarrow> u8 list list \<Rightarrow> u32 \<Rightarrow> 'a kmem_scheme \<Rightarrow>
    ((u32 \<times> u32 list) option, 'a kmem_scheme) kres" where
  "exec_args d argc [] sp s = Ret (Some (sp, [])) s"
| "exec_args d argc (a # as) sp s =
     (if argc \<ge> MAXARG then Ret None s
      else
        let sp = (sp - (of_nat (length a) + 1)) AND NOT 3
        in bnd (copyout_bytes d sp (a @ [0]) s) (\<lambda>k s.
           if k < 0 then Ret None s
           else
             bnd (exec_args d (Suc argc) as sp s) (\<lambda>r s.
             Ret (map_option (\<lambda>(sp', ps). (sp', sp # ps)) r) s)))"

text \<open>The words of \<open>ustack\<close> below the strings.\<close>

definition ustack_words :: "u32 \<Rightarrow> u32 list \<Rightarrow> u32 list" where
  "ustack_words sp ps =
     [0xffffffff, of_nat (length ps), sp - (of_nat (length ps) + 1) * 4] @ ps @ [0]"

text \<open>The part of a path after its last slash.\<close>

definition last_elem :: "u8 list \<Rightarrow> u8 list" where
  "last_elem path = rev (takeWhile (\<lambda>c. c \<noteq> slash) (rev path))"

text \<open>From the commit point on: the new image replaces the old one.\<close>

definition exec_commit :: "nat \<Rightarrow> u8 list \<Rightarrow> u32 \<Rightarrow> u32 \<Rightarrow> u32 \<Rightarrow> u32 \<Rightarrow> 'a ptable_scheme \<Rightarrow>
    (int, 'a ptable_scheme) kres" where
  "exec_commit cur path d siz sp entry s =
     (let s = upd_proc cur (\<lambda>k. k\<lparr>pname := safestrcpy_bytes (pname k) (last_elem path) PNAME_SIZE\<rparr>) s;
          oldpgdir = pgdir (procs s ! cur);
          s = upd_proc cur (\<lambda>k. k\<lparr>pgdir := d\<rparr>) s;
          s = upd_proc cur (\<lambda>k. k\<lparr>sz := siz\<rparr>) s;
          s = s\<lparr>mem := store32 (mem s) (tf (procs s ! cur) + TF_eip) entry\<rparr>;
          s = s\<lparr>mem := store32 (mem s) (tf (procs s ! cur) + TF_esp) sp\<rparr>
      in bnd (switchuvm (Some cur) s) (\<lambda>_ s.
         bnd (freevm oldpgdir s) (\<lambda>_ s.
         Ret 0 s)))"

text \<open>The user stack: two pages, the arguments, and the words below them.\<close>

definition exec_stack :: "nat \<Rightarrow> u8 list \<Rightarrow> u8 list list \<Rightarrow> u32 \<Rightarrow> u32 \<Rightarrow> u32 \<Rightarrow> 'a ftable_scheme \<Rightarrow>
    (int, 'a ftable_scheme) kres" where
  "exec_stack cur path argv d siz entry s =
     (let siz = PGROUNDUP siz
      in bnd (allocuvm d siz (siz + 2 * PGSIZE) s) (\<lambda>siz s.
         if siz = 0 then exec_bad d None s
         else
           bnd (clearpteu d (siz - 2 * PGSIZE) s) (\<lambda>_ s.
           bnd (exec_args d 0 argv siz s) (\<lambda>r s.
           case r of
             None \<Rightarrow> exec_bad d None s
           | Some (sp, ps) \<Rightarrow>
               let ws = ustack_words sp ps;
                   sp = sp - (3 + of_nat (length ps) + 1) * 4
               in bnd (copyout_bytes d sp (concat (map le32 ws)) s) (\<lambda>k s.
                  if k < 0 then exec_bad d None s
                  else exec_commit cur path d siz sp entry s)))))"

definition exec :: "u8 list \<Rightarrow> u8 list list \<Rightarrow> 'a ftable_scheme \<Rightarrow> (int, 'a ftable_scheme) kres" where
  "exec path argv s =
     with_myproc s (\<lambda>cur s.
     bnd (begin_op s) (\<lambda>_ s.
     bnd (namei path s) (\<lambda>ipo s.
     case ipo of
       None \<Rightarrow>
         bnd (end_op s) (\<lambda>_ s. Ret (-1) (cprintf (''exec: fail'' @ [CHR 0x0A]) s))
     | Some ip \<Rightarrow>
         bnd (ilock (Some ip) s) (\<lambda>_ s.
         bnd (readi ip 0 (of_nat ELFHDR_SIZE) s) (\<lambda>r s.
         let e = elfhdr_of (snd r)
         in if fst r \<noteq> int ELFHDR_SIZE then exec_bad 0 (Some ip) s
            else if elf_magic e \<noteq> ELF_MAGIC then exec_bad 0 (Some ip) s
            else
              bnd (setupkvm s) (\<lambda>d s.
              if d = 0 then exec_bad 0 (Some ip) s
              else
                bnd (exec_load d ip (ph_offs e) 0 s) (\<lambda>r s.
                case r of
                  None \<Rightarrow> exec_bad d (Some ip) s
                | Some siz \<Rightarrow>
                    bnd (iunlockput ip s) (\<lambda>_ s.
                    bnd (end_op s) (\<lambda>_ s.
                    exec_stack cur path argv d siz (elf_entry e) s)))))))))"

end
