(* ===== verification/Sysfile.thy ===== *)
theory Sysfile
  imports Exec
begin

text \<open>
  sysfile.c: the system calls on files. A result is the C \<open>int\<close> that the call returns. The data of
  \<open>read\<close> is stored in the user's buffer when the bytes are there, the data of \<open>write\<close> is fetched
  from it before the call.
\<close>

definition O_RDONLY :: u32 where "O_RDONLY = 0"
definition O_WRONLY :: u32 where "O_WRONLY = 1"
definition O_RDWR :: u32 where "O_RDWR = 2"
definition O_CREATE :: u32 where "O_CREATE = 0x200"

section \<open>Descriptors\<close>

definition argfd :: "nat \<Rightarrow> 'a ptable_scheme \<Rightarrow> ((nat \<times> nat) option, 'a ptable_scheme) kres" where
  "argfd n s =
     bnd (argint n s) (\<lambda>r s.
     case r of
       None \<Rightarrow> Ret None s
     | Some w \<Rightarrow>
         let fd = sint w
         in if fd < 0 \<or> fd \<ge> int NOFILE then Ret None s
            else with_myproc s (\<lambda>i s.
              case ofile (procs s ! i) ! nat fd of
                None \<Rightarrow> Ret None s
              | Some f \<Rightarrow> Ret (Some (nat fd, f)) s))"

definition fdalloc :: "nat \<Rightarrow> 'a ptable_scheme \<Rightarrow> (int, 'a ptable_scheme) kres" where
  "fdalloc f s =
     with_myproc s (\<lambda>i s.
     case scan (\<lambda>o1. o1 = None) (ofile (procs s ! i)) of
       Some fd \<Rightarrow> Ret (int fd) (upd_proc i (\<lambda>p. p\<lparr>ofile := (ofile p)[fd := Some f]\<rparr>) s)
     | None \<Rightarrow> Ret (-1) s)"

definition sys_dup :: "'a ftable_scheme \<Rightarrow> (int, 'a ftable_scheme) kres" where
  "sys_dup s =
     bnd (argfd 0 s) (\<lambda>r s.
     case r of
       None \<Rightarrow> Ret (-1) s
     | Some (_, f) \<Rightarrow>
         bnd (fdalloc f s) (\<lambda>fd s.
         if fd < 0 then Ret (-1) s
         else bnd (filedup f s) (\<lambda>_ s. Ret fd s)))"

text \<open>The checks that \<open>read\<close> and \<open>write\<close> share: the open file, the buffer and its length.\<close>

definition argrw :: "'a ptable_scheme \<Rightarrow> ((nat \<times> u32 \<times> int) option, 'a ptable_scheme) kres" where
  "argrw s =
     bnd (argfd 0 s) (\<lambda>r s.
     case r of
       None \<Rightarrow> Ret None s
     | Some (_, f) \<Rightarrow>
         bnd (argint 2 s) (\<lambda>r s.
         case r of
           None \<Rightarrow> Ret None s
         | Some w \<Rightarrow>
             bnd (argptr 1 (sint w) s) (\<lambda>r s.
             case r of
               None \<Rightarrow> Ret None s
             | Some p \<Rightarrow> Ret (Some (f, p, sint w)) s)))"

definition sys_read :: "'a ftable_scheme \<Rightarrow> (int, 'a ftable_scheme) kres" where
  "sys_read s =
     bnd (argrw s) (\<lambda>r s.
     case r of
       None \<Rightarrow> Ret (-1) s
     | Some (f, p, n) \<Rightarrow>
         bnd (fileread f n s) (\<lambda>(k, bs) s.
         bnd (uwrite p bs s) (\<lambda>_ s. Ret k s)))"

definition sys_write :: "'a ftable_scheme \<Rightarrow> (int, 'a ftable_scheme) kres" where
  "sys_write s =
     bnd (argrw s) (\<lambda>r s.
     case r of
       None \<Rightarrow> Ret (-1) s
     | Some (f, p, n) \<Rightarrow>
         bnd (uread (nat n) p s) (\<lambda>bs s. filewrite f bs s))"

definition sys_close :: "'a ftable_scheme \<Rightarrow> (int, 'a ftable_scheme) kres" where
  "sys_close s =
     bnd (argfd 0 s) (\<lambda>r s.
     case r of
       None \<Rightarrow> Ret (-1) s
     | Some (fd, f) \<Rightarrow>
         with_myproc s (\<lambda>i s.
         let s = upd_proc i (\<lambda>p. p\<lparr>ofile := (ofile p)[fd := None]\<rparr>) s
         in bnd (fileclose f s) (\<lambda>_ s. Ret 0 s)))"

text \<open>\<open>struct stat\<close> has 20 bytes; the two bytes of padding after each \<open>short\<close> are not written.\<close>

definition STAT_SIZE :: int where "STAT_SIZE = 20"

definition uwrite_stat :: "u32 \<Rightarrow> stat \<Rightarrow> 'a kmem_scheme \<Rightarrow> (unit, 'a kmem_scheme) kres" where
  "uwrite_stat p st s =
     bnd (uwrite (p + 4) (le32 (st_dev st)) s) (\<lambda>_ s.
     bnd (uwrite (p + 8) (le32 (st_ino st)) s) (\<lambda>_ s.
     bnd (uwrite p (le16 (st_type st)) s) (\<lambda>_ s.
     bnd (uwrite (p + 12) (le16 (st_nlink st)) s) (\<lambda>_ s.
     uwrite (p + 16) (le32 (st_size st)) s))))"

definition sys_fstat :: "'a ftable_scheme \<Rightarrow> (int, 'a ftable_scheme) kres" where
  "sys_fstat s =
     bnd (argfd 0 s) (\<lambda>r s.
     case r of
       None \<Rightarrow> Ret (-1) s
     | Some (_, f) \<Rightarrow>
         bnd (argptr 1 STAT_SIZE s) (\<lambda>r s.
         case r of
           None \<Rightarrow> Ret (-1) s
         | Some p \<Rightarrow>
             bnd (filestat f s) (\<lambda>r s.
             case r of
               None \<Rightarrow> Ret (-1) s
             | Some st \<Rightarrow> bnd (uwrite_stat p st s) (\<lambda>_ s. Ret 0 s))))"

section \<open>Links\<close>

text \<open>An operation that ends the transaction and returns \<open>r\<close>.\<close>

definition end_with :: "int \<Rightarrow> 'a log_scheme \<Rightarrow> (int, 'a log_scheme) kres" where
  "end_with r s = bnd (end_op s) (\<lambda>_ s. Ret r s)"

text \<open>The code at \<open>bad\<close> in \<open>sys_link\<close>.\<close>

definition link_bad :: "nat \<Rightarrow> 'a icache_scheme \<Rightarrow> (int, 'a icache_scheme) kres" where
  "link_bad ip s =
     bnd (ilock (Some ip) s) (\<lambda>_ s.
     let s = upd_inode ip (\<lambda>p. p\<lparr>inlink := inlink p - 1\<rparr>) s
     in bnd (iupdate ip s) (\<lambda>_ s.
        bnd (iunlockput ip s) (\<lambda>_ s.
        end_with (-1) s)))"

definition link_inodes :: "u8 list \<Rightarrow> u8 list \<Rightarrow> 'a icache_scheme \<Rightarrow> (int, 'a icache_scheme) kres" where
  "link_inodes old new s =
     bnd (begin_op s) (\<lambda>_ s.
     bnd (namei old s) (\<lambda>ipo s.
     case ipo of
       None \<Rightarrow> end_with (-1) s
     | Some ip \<Rightarrow>
         bnd (ilock (Some ip) s) (\<lambda>_ s.
         if itype (inodes s ! ip) = T_DIR then
           bnd (iunlockput ip s) (\<lambda>_ s. end_with (-1) s)
         else
           let s = upd_inode ip (\<lambda>p. p\<lparr>inlink := inlink p + 1\<rparr>) s
           in bnd (iupdate ip s) (\<lambda>_ s.
              bnd (iunlock (Some ip) s) (\<lambda>_ s.
              bnd (nameiparent new s) (\<lambda>r s.
              case r of
                None \<Rightarrow> link_bad ip s
              | Some (dp, nm) \<Rightarrow>
                  bnd (ilock (Some dp) s) (\<lambda>_ s.
                  bnd (if idev (inodes s ! dp) \<noteq> idev (inodes s ! ip) then Ret (-1) s
                       else dirlink dp nm (inum (inodes s ! ip)) s) (\<lambda>k s.
                  if k < 0 then bnd (iunlockput dp s) (\<lambda>_ s. link_bad ip s)
                  else
                    bnd (iunlockput dp s) (\<lambda>_ s.
                    bnd (iput ip s) (\<lambda>_ s.
                    end_with 0 s))))))))))"

definition sys_link :: "'a ftable_scheme \<Rightarrow> (int, 'a ftable_scheme) kres" where
  "sys_link s =
     bnd (argstr 0 s) (\<lambda>r s.
     case r of
       None \<Rightarrow> Ret (-1) s
     | Some old \<Rightarrow>
         bnd (argstr 1 s) (\<lambda>r s.
         case r of
           None \<Rightarrow> Ret (-1) s
         | Some new \<Rightarrow> link_inodes old new s))"

fun isdirempty_loop :: "nat \<Rightarrow> u32 list \<Rightarrow> 'a icache_scheme \<Rightarrow> (bool, 'a icache_scheme) kres" where
  "isdirempty_loop dp [] s = Ret True s"
| "isdirempty_loop dp (off # offs) s =
     bnd (readi dp off (of_nat DIRENT_SIZE) s) (\<lambda>r s.
     case r of (k, de) \<Rightarrow>
       if k \<noteq> int DIRENT_SIZE then Panic ''isdirempty: readi''
       else if de_inum de \<noteq> 0 then Ret False s
       else isdirempty_loop dp offs s)"

definition isdirempty :: "nat \<Rightarrow> 'a icache_scheme \<Rightarrow> (bool, 'a icache_scheme) kres" where
  "isdirempty dp s = isdirempty_loop dp (drop 2 (dirent_offs (isize (inodes s ! dp)))) s"

definition unlink_bad :: "nat \<Rightarrow> 'a icache_scheme \<Rightarrow> (int, 'a icache_scheme) kres" where
  "unlink_bad dp s = bnd (iunlockput dp s) (\<lambda>_ s. end_with (-1) s)"

text \<open>From the erasing of the directory entry on.\<close>

definition unlink_entry :: "nat \<Rightarrow> nat \<Rightarrow> u32 \<Rightarrow> 'a icache_scheme \<Rightarrow> (int, 'a icache_scheme) kres" where
  "unlink_entry dp ip off s =
     bnd (writei dp (replicate DIRENT_SIZE 0) off s) (\<lambda>k s.
     if k \<noteq> int DIRENT_SIZE then Panic ''unlink: writei''
     else
       bnd (if itype (inodes s ! ip) = T_DIR
            then iupdate dp (upd_inode dp (\<lambda>p. p\<lparr>inlink := inlink p - 1\<rparr>) s)
            else Ret () s) (\<lambda>_ s.
       bnd (iunlockput dp s) (\<lambda>_ s.
       let s = upd_inode ip (\<lambda>p. p\<lparr>inlink := inlink p - 1\<rparr>) s
       in bnd (iupdate ip s) (\<lambda>_ s.
          bnd (iunlockput ip s) (\<lambda>_ s.
          end_with 0 s)))))"

definition unlink_path :: "u8 list \<Rightarrow> 'a icache_scheme \<Rightarrow> (int, 'a icache_scheme) kres" where
  "unlink_path path s =
     bnd (begin_op s) (\<lambda>_ s.
     bnd (nameiparent path s) (\<lambda>r s.
     case r of
       None \<Rightarrow> end_with (-1) s
     | Some (dp, nm) \<Rightarrow>
         bnd (ilock (Some dp) s) (\<lambda>_ s.
         if namecmp nm (bytes_of ''.'') = 0 \<or> namecmp nm (bytes_of ''..'') = 0 then unlink_bad dp s
         else
           bnd (dirlookup dp nm s) (\<lambda>r s.
           case r of
             None \<Rightarrow> unlink_bad dp s
           | Some (ip, off) \<Rightarrow>
               bnd (ilock (Some ip) s) (\<lambda>_ s.
               if sint (inlink (inodes s ! ip)) < 1 then Panic ''unlink: nlink < 1''
               else
                 bnd (if itype (inodes s ! ip) = T_DIR
                      then bnd (isdirempty ip s) (\<lambda>e s. Ret (\<not> e) s)
                      else Ret False s) (\<lambda>nonempty s.
                 if nonempty then bnd (iunlockput ip s) (\<lambda>_ s. unlink_bad dp s)
                 else unlink_entry dp ip off s))))))"

definition sys_unlink :: "'a ftable_scheme \<Rightarrow> (int, 'a ftable_scheme) kres" where
  "sys_unlink s =
     bnd (argstr 0 s) (\<lambda>r s.
     case r of None \<Rightarrow> Ret (-1) s | Some path \<Rightarrow> unlink_path path s)"

section \<open>Creation and opening\<close>

text \<open>The second half of \<open>create\<close>: a new inode and its entry in the directory \<open>dp\<close>.\<close>

definition create_new :: "nat \<Rightarrow> u8 list \<Rightarrow> u16 \<Rightarrow> u16 \<Rightarrow> u16 \<Rightarrow> 'a icache_scheme \<Rightarrow>
    (nat option, 'a icache_scheme) kres" where
  "create_new dp nm ty major minor s =
     bnd (ialloc (idev (inodes s ! dp)) ty s) (\<lambda>ip s.
     bnd (ilock (Some ip) s) (\<lambda>_ s.
     let s = upd_inode ip (\<lambda>p. p\<lparr>imajor := major\<rparr>) s;
         s = upd_inode ip (\<lambda>p. p\<lparr>iminor := minor\<rparr>) s;
         s = upd_inode ip (\<lambda>p. p\<lparr>inlink := 1\<rparr>) s
     in bnd (iupdate ip s) (\<lambda>_ s.
        bnd (if ty = T_DIR then
               let s = upd_inode dp (\<lambda>p. p\<lparr>inlink := inlink p + 1\<rparr>) s
               in bnd (iupdate dp s) (\<lambda>_ s.
                  bnd (dirlink ip (bytes_of ''.'') (inum (inodes s ! ip)) s) (\<lambda>k s.
                  if k < 0 then Panic ''create dots''
                  else
                    bnd (dirlink ip (bytes_of ''..'') (inum (inodes s ! dp)) s) (\<lambda>k s.
                    if k < 0 then Panic ''create dots'' else Ret () s)))
             else Ret () s) (\<lambda>_ s.
        bnd (dirlink dp nm (inum (inodes s ! ip)) s) (\<lambda>k s.
        if k < 0 then Panic ''create: dirlink''
        else bnd (iunlockput dp s) (\<lambda>_ s. Ret (Some ip) s))))))"

definition create :: "u8 list \<Rightarrow> u16 \<Rightarrow> u16 \<Rightarrow> u16 \<Rightarrow> 'a icache_scheme \<Rightarrow>
    (nat option, 'a icache_scheme) kres" where
  "create path ty major minor s =
     bnd (nameiparent path s) (\<lambda>r s.
     case r of
       None \<Rightarrow> Ret None s
     | Some (dp, nm) \<Rightarrow>
         bnd (ilock (Some dp) s) (\<lambda>_ s.
         bnd (dirlookup dp nm s) (\<lambda>r s.
         case r of
           Some (ip, _) \<Rightarrow>
             bnd (iunlockput dp s) (\<lambda>_ s.
             bnd (ilock (Some ip) s) (\<lambda>_ s.
             if ty = T_FILE \<and> itype (inodes s ! ip) = T_FILE then Ret (Some ip) s
             else bnd (iunlockput ip s) (\<lambda>_ s. Ret None s)))
         | None \<Rightarrow> create_new dp nm ty major minor s)))"

text \<open>The inode of \<open>sys_open\<close>, locked; \<open>None\<close> where the call ends the transaction and fails.\<close>

definition open_inode :: "u8 list \<Rightarrow> u32 \<Rightarrow> 'a icache_scheme \<Rightarrow> (nat option, 'a icache_scheme) kres" where
  "open_inode path omode s =
     (if omode AND O_CREATE \<noteq> 0 then create path T_FILE 0 0 s
      else
        bnd (namei path s) (\<lambda>ipo s.
        case ipo of
          None \<Rightarrow> Ret None s
        | Some ip \<Rightarrow>
            bnd (ilock (Some ip) s) (\<lambda>_ s.
            if itype (inodes s ! ip) = T_DIR \<and> omode \<noteq> O_RDONLY
            then bnd (iunlockput ip s) (\<lambda>_ s. Ret None s)
            else Ret (Some ip) s)))"

definition open_file :: "u8 list \<Rightarrow> u32 \<Rightarrow> 'a ftable_scheme \<Rightarrow> (int, 'a ftable_scheme) kres" where
  "open_file path omode s =
     bnd (begin_op s) (\<lambda>_ s.
     bnd (open_inode path omode s) (\<lambda>r s.
     case r of
       None \<Rightarrow> end_with (-1) s
     | Some ip \<Rightarrow>
         bnd (filealloc s) (\<lambda>fo s.
         case fo of
           None \<Rightarrow> bnd (iunlockput ip s) (\<lambda>_ s. end_with (-1) s)
         | Some f \<Rightarrow>
             bnd (fdalloc f s) (\<lambda>fd s.
             if fd < 0 then
               bnd (fileclose f s) (\<lambda>_ s.
               bnd (iunlockput ip s) (\<lambda>_ s.
               end_with (-1) s))
             else
               bnd (iunlock (Some ip) s) (\<lambda>_ s.
               bnd (end_op s) (\<lambda>_ s.
               let s = upd_file f (\<lambda>k. k\<lparr>ftype := FD_INODE, fip := Some ip, foff := 0,
                         readable := (omode AND O_WRONLY = 0),
                         writable := (omode AND O_WRONLY \<noteq> 0 \<or> omode AND O_RDWR \<noteq> 0)\<rparr>) s
               in Ret fd s))))))"

definition sys_open :: "'a ftable_scheme \<Rightarrow> (int, 'a ftable_scheme) kres" where
  "sys_open s =
     bnd (argstr 0 s) (\<lambda>r s.
     case r of
       None \<Rightarrow> Ret (-1) s
     | Some path \<Rightarrow>
         bnd (argint 1 s) (\<lambda>r s.
         case r of
           None \<Rightarrow> Ret (-1) s
         | Some omode \<Rightarrow> open_file path omode s))"

text \<open>The end of \<open>sys_mkdir\<close> and \<open>sys_mknod\<close>.\<close>

definition create_done :: "nat option \<Rightarrow> 'a icache_scheme \<Rightarrow> (int, 'a icache_scheme) kres" where
  "create_done r s =
     (case r of
        None \<Rightarrow> end_with (-1) s
      | Some ip \<Rightarrow> bnd (iunlockput ip s) (\<lambda>_ s. end_with 0 s))"

definition sys_mkdir :: "'a ftable_scheme \<Rightarrow> (int, 'a ftable_scheme) kres" where
  "sys_mkdir s =
     bnd (begin_op s) (\<lambda>_ s.
     bnd (argstr 0 s) (\<lambda>r s.
     case r of
       None \<Rightarrow> end_with (-1) s
     | Some path \<Rightarrow> bnd (create path T_DIR 0 0 s) (\<lambda>r s. create_done r s)))"

definition sys_mknod :: "'a ftable_scheme \<Rightarrow> (int, 'a ftable_scheme) kres" where
  "sys_mknod s =
     bnd (begin_op s) (\<lambda>_ s.
     bnd (argstr 0 s) (\<lambda>r s.
     case r of
       None \<Rightarrow> end_with (-1) s
     | Some path \<Rightarrow>
         bnd (argint 1 s) (\<lambda>r s.
         case r of
           None \<Rightarrow> end_with (-1) s
         | Some major \<Rightarrow>
             bnd (argint 2 s) (\<lambda>r s.
             case r of
               None \<Rightarrow> end_with (-1) s
             | Some minor \<Rightarrow>
                 bnd (create path T_DEV (ucast major) (ucast minor) s) (\<lambda>r s. create_done r s)))))"

definition sys_chdir :: "'a ftable_scheme \<Rightarrow> (int, 'a ftable_scheme) kres" where
  "sys_chdir s =
     with_myproc s (\<lambda>cur s.
     bnd (begin_op s) (\<lambda>_ s.
     bnd (argstr 0 s) (\<lambda>r s.
     case r of
       None \<Rightarrow> end_with (-1) s
     | Some path \<Rightarrow>
         bnd (namei path s) (\<lambda>ipo s.
         case ipo of
           None \<Rightarrow> end_with (-1) s
         | Some ip \<Rightarrow>
             bnd (ilock (Some ip) s) (\<lambda>_ s.
             if itype (inodes s ! ip) \<noteq> T_DIR then
               bnd (iunlockput ip s) (\<lambda>_ s. end_with (-1) s)
             else
               bnd (iunlock (Some ip) s) (\<lambda>_ s.
               case cwd (procs s ! cur) of
                 None \<Rightarrow> Undef ''null cwd''
               | Some old \<Rightarrow>
                   bnd (iput old s) (\<lambda>_ s.
                   bnd (end_op s) (\<lambda>_ s.
                   Ret 0 (upd_proc cur (\<lambda>p. p\<lparr>cwd := Some ip\<rparr>) s)))))))))"

section \<open>exec and pipe\<close>

text \<open>
  The loop of \<open>sys_exec\<close> over the user's argument vector, from entry \<open>i\<close> on; with \<open>k = 0\<close> the
  array is full and the call fails.
\<close>

fun exec_argv :: "nat \<Rightarrow> u32 \<Rightarrow> nat \<Rightarrow> 'a ptable_scheme \<Rightarrow> (u8 list list option, 'a ptable_scheme) kres" where
  "exec_argv 0 uargv i s = Ret None s"
| "exec_argv (Suc k) uargv i s =
     bnd (fetchint (uargv + 4 * of_nat i) s) (\<lambda>r s.
     case r of
       None \<Rightarrow> Ret None s
     | Some uarg \<Rightarrow>
         if uarg = 0 then Ret (Some []) s
         else
           bnd (fetchstr uarg s) (\<lambda>r s.
           case r of
             None \<Rightarrow> Ret None s
           | Some a \<Rightarrow> bnd (exec_argv k uargv (Suc i) s) (\<lambda>r s. Ret (map_option (\<lambda>as. a # as) r) s)))"

definition sys_exec :: "'a ftable_scheme \<Rightarrow> (int, 'a ftable_scheme) kres" where
  "sys_exec s =
     bnd (argstr 0 s) (\<lambda>r s.
     case r of
       None \<Rightarrow> Ret (-1) s
     | Some path \<Rightarrow>
         bnd (argint 1 s) (\<lambda>r s.
         case r of
           None \<Rightarrow> Ret (-1) s
         | Some uargv \<Rightarrow>
             bnd (exec_argv MAXARG uargv 0 s) (\<lambda>r s.
             case r of
               None \<Rightarrow> Ret (-1) s
             | Some argv \<Rightarrow> exec path argv s)))"

definition pipe_bad :: "nat \<Rightarrow> nat \<Rightarrow> 'a ftable_scheme \<Rightarrow> (int, 'a ftable_scheme) kres" where
  "pipe_bad rfl wfl s =
     bnd (fileclose rfl s) (\<lambda>_ s.
     bnd (fileclose wfl s) (\<lambda>_ s. Ret (-1) s))"

definition sys_pipe :: "'a ftable_scheme \<Rightarrow> (int, 'a ftable_scheme) kres" where
  "sys_pipe s =
     bnd (argptr 0 8 s) (\<lambda>r s.
     case r of
       None \<Rightarrow> Ret (-1) s
     | Some fdp \<Rightarrow>
         bnd (pipealloc s) (\<lambda>r s.
         case r of
           None \<Rightarrow> Ret (-1) s
         | Some (rfl, wfl) \<Rightarrow>
             bnd (fdalloc rfl s) (\<lambda>fd0 s.
             if fd0 < 0 then pipe_bad rfl wfl s
             else
               bnd (fdalloc wfl s) (\<lambda>fd1 s.
               if fd1 < 0 then
                 with_myproc s (\<lambda>i s.
                 let s = upd_proc i (\<lambda>p. p\<lparr>ofile := (ofile p)[nat fd0 := None]\<rparr>) s
                 in pipe_bad rfl wfl s)
               else
                 bnd (uwrite fdp (le32 (of_int fd0)) s) (\<lambda>_ s.
                 bnd (uwrite (fdp + 4) (le32 (of_int fd1)) s) (\<lambda>_ s.
                 Ret 0 s))))))"

end
