(* ===== verification/Trap.thy ===== *)
theory Trap
  imports Sysfile
begin

text \<open>
  sysproc.c, the dispatch of system calls in syscall.c, and trap.c.
\<close>

section \<open>sysproc.c\<close>

definition sys_fork :: "'a ftable_scheme \<Rightarrow> (int, 'a ftable_scheme) kres" where
  "sys_fork s = fork s"

definition sys_exit :: "'a ftable_scheme \<Rightarrow> (int, 'a ftable_scheme) kres" where
  "sys_exit s = exit s"

definition sys_wait :: "'a ptable_scheme \<Rightarrow> (int, 'a ptable_scheme) kres" where
  "sys_wait s = wait s"

definition sys_kill :: "'a ptable_scheme \<Rightarrow> (int, 'a ptable_scheme) kres" where
  "sys_kill s =
     bnd (argint 0 s) (\<lambda>r s.
     case r of None \<Rightarrow> Ret (-1) s | Some n \<Rightarrow> kill (sint n) s)"

definition sys_getpid :: "'a ptable_scheme \<Rightarrow> (int, 'a ptable_scheme) kres" where
  "sys_getpid s = with_myproc s (\<lambda>i s. Ret (pid (procs s ! i)) s)"

definition sys_sbrk :: "'a ptable_scheme \<Rightarrow> (int, 'a ptable_scheme) kres" where
  "sys_sbrk s =
     bnd (argint 0 s) (\<lambda>r s.
     case r of
       None \<Rightarrow> Ret (-1) s
     | Some n \<Rightarrow>
         with_myproc s (\<lambda>i s.
         let addr = sint (sz (procs s ! i))
         in bnd (growproc (sint n) s) (\<lambda>k s. Ret (if k < 0 then -1 else addr) s)))"

text \<open>
  The loop of \<open>sys_sleep\<close>, with the lock held. The comparison of \<open>ticks - ticks0\<close> with \<open>n\<close> is
  unsigned.
\<close>

definition sys_sleep_loop :: "u32 \<Rightarrow> u32 \<Rightarrow> 'a kernel_scheme \<Rightarrow> (int, 'a kernel_scheme) kres" where
  "sys_sleep_loop ticks0 n s =
     (if ticks s - ticks0 < n then
        with_myproc s (\<lambda>i s.
        if killed (procs s ! i) then bnd (release Ltickslock s) (\<lambda>_ s. Ret (-1) s)
        else sleep_on Cticks Ltickslock s)
      else bnd (release Ltickslock s) (\<lambda>_ s. Ret 0 s))"

definition sys_sleep :: "'a kernel_scheme \<Rightarrow> (int, 'a kernel_scheme) kres" where
  "sys_sleep s =
     bnd (argint 0 s) (\<lambda>r s.
     case r of
       None \<Rightarrow> Ret (-1) s
     | Some n \<Rightarrow> bnd (acquire Ltickslock s) (\<lambda>_ s. sys_sleep_loop (ticks s) n s))"

definition sys_sleep_resume :: "nat \<Rightarrow> bool \<Rightarrow> u32 \<Rightarrow> u32 \<Rightarrow> 'a kernel_scheme \<Rightarrow> (int, 'a kernel_scheme) kres" where
  "sys_sleep_resume i saved ticks0 n s =
     bnd (sleep_exit i saved Ltickslock s) (\<lambda>_ s. sys_sleep_loop ticks0 n s)"

definition sys_uptime :: "'a kernel_scheme \<Rightarrow> (int, 'a kernel_scheme) kres" where
  "sys_uptime s =
     bnd (acquire Ltickslock s) (\<lambda>_ s.
     let xticks = ticks s
     in bnd (release Ltickslock s) (\<lambda>_ s. Ret (sint xticks) s))"

definition sys_getyear :: "'a ptable_scheme \<Rightarrow> (int, 'a ptable_scheme) kres" where
  "sys_getyear s = Ret 1975 s"

text \<open>A search that does not end spins.\<close>

definition sys_getnextprime :: "'a ptable_scheme \<Rightarrow> (int, 'a ptable_scheme) kres" where
  "sys_getnextprime s =
     with_myproc s (\<lambda>i s.
     let num = sint (load32 (mem s) (tf (procs s ! i) + TF_ebx));
         s = cprintf (''sys_find_next_prime_number()called for %d'' @ [CHR 0x0A]) s
     in case find_next_prime_number num of None \<Rightarrow> Spin | Some p \<Rightarrow> Ret p s)"

definition sys_getcallcount :: "'a ptable_scheme \<Rightarrow> (int, 'a ptable_scheme) kres" where
  "sys_getcallcount s =
     bnd (argint 0 s) (\<lambda>r s.
     case r of
       None \<Rightarrow> Ret (-1) s
     | Some w \<Rightarrow>
         with_myproc s (\<lambda>i s.
         let k = sint w
         in if k < 0 \<or> k \<ge> 100 then Undef ''counter index''
            else Ret (counter (procs s ! i) ! nat k) s))"

definition sys_getmostcaller :: "'a ptable_scheme \<Rightarrow> (int, 'a ptable_scheme) kres" where
  "sys_getmostcaller s =
     bnd (argint 0 s) (\<lambda>r s.
     case r of None \<Rightarrow> Ret (-1) s | Some w \<Rightarrow> getMostCaller (sint w) s)"

definition sys_waitforprocess :: "'a ptable_scheme \<Rightarrow> (int, 'a ptable_scheme) kres" where
  "sys_waitforprocess s =
     bnd (argint 0 s) (\<lambda>r s.
     case r of None \<Rightarrow> Ret (-1) s | Some w \<Rightarrow> waitForProcess (sint w) s)"

section \<open>syscall.c\<close>

text \<open>The table of system calls, by number; \<open>None\<close> is a number with no call.\<close>

definition syscalls :: "nat \<Rightarrow> ('a kernel_scheme \<Rightarrow> (int, 'a kernel_scheme) kres) option" where
  "syscalls n =
     (if n = 1 then Some sys_fork
      else if n = 2 then Some sys_exit
      else if n = 3 then Some sys_wait
      else if n = 4 then Some sys_pipe
      else if n = 5 then Some sys_read
      else if n = 6 then Some sys_kill
      else if n = 7 then Some sys_exec
      else if n = 8 then Some sys_fstat
      else if n = 9 then Some sys_chdir
      else if n = 10 then Some sys_dup
      else if n = 11 then Some sys_getpid
      else if n = 12 then Some sys_sbrk
      else if n = 13 then Some sys_sleep
      else if n = 14 then Some sys_uptime
      else if n = 15 then Some sys_open
      else if n = 16 then Some sys_write
      else if n = 17 then Some sys_mknod
      else if n = 18 then Some sys_unlink
      else if n = 19 then Some sys_link
      else if n = 20 then Some sys_mkdir
      else if n = 21 then Some sys_close
      else if n = 22 then Some sys_getyear
      else if n = 23 then Some sys_getnextprime
      else if n = 24 then Some sys_getcallcount
      else if n = 25 then Some sys_getmostcaller
      else if n = 26 then Some sys_waitforprocess
      else None)"

definition set_eax :: "nat \<Rightarrow> int \<Rightarrow> 'a ptable_scheme \<Rightarrow> 'a ptable_scheme" where
  "set_eax i v s = s\<lparr>mem := store32 (mem s) (tf (procs s ! i) + TF_eax) (of_int v)\<rparr>"

text \<open>The counter is incremented before the number is checked.\<close>

definition syscall :: "'a kernel_scheme \<Rightarrow> (unit, 'a kernel_scheme) kres" where
  "syscall s =
     with_myproc s (\<lambda>i s.
     let num = sint (load32 (mem s) (tf (procs s ! i) + TF_eax))
     in if num < 0 \<or> num \<ge> 100 then Undef ''counter index''
        else
          let s = upd_proc i (\<lambda>p. p\<lparr>counter := (counter p)[nat num := c_int (counter p ! nat num + 1)]\<rparr>) s
          in case syscalls (nat num) of
               Some f \<Rightarrow> bnd (f s) (\<lambda>r s. Ret () (set_eax i r s))
             | None \<Rightarrow>
                 let s = cprintf (''%d %s: unknown sys call %d'' @ [CHR 0x0A]) s
                 in Ret () (set_eax i (-1) s))"

section \<open>trap.c\<close>

definition T_SYSCALL :: nat where "T_SYSCALL = 64"
definition T_IRQ0 :: u32 where "T_IRQ0 = 32"
definition IRQ_TIMER :: u32 where "IRQ_TIMER = 0"
definition IRQ_KBD :: u32 where "IRQ_KBD = 1"
definition IRQ_COM1 :: u32 where "IRQ_COM1 = 4"
definition IRQ_IDE :: u32 where "IRQ_IDE = 14"
definition IRQ_SPURIOUS :: u32 where "IRQ_SPURIOUS = 31"
abbreviation STS_IG32 :: nat where "STS_IG32 \<equiv> 14"
abbreviation STS_TG32 :: nat where "STS_TG32 \<equiv> 15"
definition TF_trapno :: u32 where "TF_trapno = 48"

text \<open>\<open>struct gatedesc\<close>, and the macro \<open>SETGATE\<close>.\<close>

record gatedesc =
  off_15_0 :: nat
  gd_cs :: nat
  gd_args :: nat
  gd_rsv1 :: nat
  gd_type :: nat
  gd_s :: nat
  gd_dpl :: nat
  gd_p :: nat
  off_31_16 :: nat

definition SETGATE :: "bool \<Rightarrow> nat \<Rightarrow> u32 \<Rightarrow> nat \<Rightarrow> gatedesc" where
  "SETGATE istrap sel off d =
     \<lparr>off_15_0 = unat (off AND 0xffff), gd_cs = sel, gd_args = 0, gd_rsv1 = 0,
      gd_type = (if istrap then STS_TG32 else STS_IG32), gd_s = 0, gd_dpl = d, gd_p = 1,
      off_31_16 = unat (drop_bit 16 off)\<rparr>"

text \<open>The interrupt descriptor table that \<open>tvinit\<close> builds from the entry points \<open>vectors\<close>.\<close>

definition tvinit_idt :: "u32 list \<Rightarrow> gatedesc list" where
  "tvinit_idt vectors =
     (map (\<lambda>i. SETGATE False (SEG_KCODE * 8) (vectors ! i) 0) [0..<256])
       [T_SYSCALL := SETGATE True (SEG_KCODE * 8) (vectors ! T_SYSCALL) DPL_USER]"

definition tvinit :: "u32 list \<Rightarrow> 'a machine_scheme \<Rightarrow> gatedesc list \<times> 'a machine_scheme" where
  "tvinit vectors s = (tvinit_idt vectors, initlock Ltickslock ''time'' s)"

text \<open>Whether the trap came from user mode: \<open>tf->cs & 3\<close>.\<close>

definition tf_cpl :: "u32 \<Rightarrow> 'a kmem_scheme \<Rightarrow> u8" where
  "tf_cpl t s = mem s (t + TF_cs) AND 3"

text \<open>The timer interrupt: processor 0 keeps the clock.\<close>

definition timer_tick :: "'a kernel_scheme \<Rightarrow> (unit, 'a kernel_scheme) kres" where
  "timer_tick s =
     bnd (cpuid s) (\<lambda>c s.
     if c = 0 then
       bnd (acquire Ltickslock s) (\<lambda>_ s.
       let s = s\<lparr>ticks := ticks s + 1\<rparr>
       in bnd (wakeup Cticks s) (\<lambda>_ s.
          release Ltickslock s))
     else Ret () s)"

text \<open>An exception: in the kernel a panic, in user mode the end of the process.\<close>

definition trap_default :: "u32 \<Rightarrow> 'a ptable_scheme \<Rightarrow> (unit, 'a ptable_scheme) kres" where
  "trap_default t s =
     bnd (myproc s) (\<lambda>po s.
     case po of
       None \<Rightarrow> Panic ''trap''
     | Some i \<Rightarrow>
         if tf_cpl t s = 0 then Panic ''trap''
         else
           let s = cprintf (''pid %d %s: trap %d err %d on cpu %d eip 0x%x addr 0x%x--kill proc'' @ [CHR 0x0A]) s
           in Ret () (upd_proc i (\<lambda>p. p\<lparr>killed := True\<rparr>) s))"

text \<open>
  The switch over interrupts. The acknowledgement \<open>lapiceoi\<close> only writes to the interrupt
  controller, and the interrupt handler of memide.c does nothing. \<open>ins\<close> are the bytes that the
  keyboard or the serial port delivers.
\<close>

definition trap_irq :: "u32 \<Rightarrow> (u8 \<times> u8) list \<Rightarrow> 'a kernel_scheme \<Rightarrow> (unit, 'a kernel_scheme) kres" where
  "trap_irq t ins s =
     (let no = load32 (mem s) (t + TF_trapno)
      in if no = T_IRQ0 + IRQ_TIMER then timer_tick s
         else if no = T_IRQ0 + IRQ_IDE then Ret () s
         else if no = T_IRQ0 + IRQ_IDE + 1 then Ret () s
         else if no = T_IRQ0 + IRQ_KBD then kbdintr ins s
         else if no = T_IRQ0 + IRQ_COM1 then uartintr ins s
         else if no = T_IRQ0 + 7 \<or> no = T_IRQ0 + IRQ_SPURIOUS then
           bnd (cpuid s) (\<lambda>_ s.
           Ret () (cprintf (''cpu%d: spurious interrupt at %x:%x'' @ [CHR 0x0A]) s))
         else trap_default t s)"

text \<open>A killed process that is on its way back to user mode exits.\<close>

definition exit_if_killed :: "u32 \<Rightarrow> 'a ftable_scheme \<Rightarrow> (unit, 'a ftable_scheme) kres" where
  "exit_if_killed t s =
     bnd (myproc s) (\<lambda>po s.
     case po of
       Some i \<Rightarrow> if killed (procs s ! i) \<and> tf_cpl t s = of_nat DPL_USER then exit s else Ret () s
     | None \<Rightarrow> Ret () s)"

text \<open>A timer interrupt gives up the processor; the process goes on in \<open>trap_resume\<close>.\<close>

definition trap_yield :: "u32 \<Rightarrow> 'a kernel_scheme \<Rightarrow> (unit, 'a kernel_scheme) kres" where
  "trap_yield t s =
     bnd (myproc s) (\<lambda>po s.
     case po of
       Some i \<Rightarrow>
         if state (procs s ! i) = RUNNING \<and> load32 (mem s) (t + TF_trapno) = T_IRQ0 + IRQ_TIMER
         then bnd (yield_enter s) (\<lambda>_ s. Slp s)
         else Ret () s
     | None \<Rightarrow> Ret () s)"

definition trap_resume :: "u32 \<Rightarrow> bool \<Rightarrow> 'a kernel_scheme \<Rightarrow> (unit, 'a kernel_scheme) kres" where
  "trap_resume t saved s = bnd (yield_exit saved s) (\<lambda>_ s. exit_if_killed t s)"

definition trap_syscall :: "u32 \<Rightarrow> 'a kernel_scheme \<Rightarrow> (unit, 'a kernel_scheme) kres" where
  "trap_syscall t s =
     with_myproc s (\<lambda>i s.
     if killed (procs s ! i) then exit s
     else
       let s = upd_proc i (\<lambda>p. p\<lparr>tf := t\<rparr>) s
       in bnd (syscall s) (\<lambda>_ s.
          with_myproc s (\<lambda>i s.
          if killed (procs s ! i) then exit s else Ret () s)))"

definition trap :: "u32 \<Rightarrow> (u8 \<times> u8) list \<Rightarrow> 'a kernel_scheme \<Rightarrow> (unit, 'a kernel_scheme) kres" where
  "trap t ins s =
     (if load32 (mem s) (t + TF_trapno) = of_nat T_SYSCALL then trap_syscall t s
      else
        bnd (trap_irq t ins s) (\<lambda>_ s.
        bnd (exit_if_killed t s) (\<lambda>_ s.
        bnd (trap_yield t s) (\<lambda>_ s.
        exit_if_killed t s))))"

end
