(* ===== verification/Ide.thy ===== *)
theory Ide
  imports Bio
begin

text \<open>
  ide.c, the driver of the IDE disk: the queue of requests, linked through the buffers, the
  commands sent to the disk and the interrupt handler. The disk is given by what its ports
  deliver: the bytes that reads of the status port return one after the other, and the blocks
  that it transfers; a wait for a status that never comes spins. Bytes written to ports are
  recorded.
\<close>

definition IDE_BSY :: u8 where "IDE_BSY = 0x80"
definition IDE_DRDY :: u8 where "IDE_DRDY = 0x40"
definition IDE_DF :: u8 where "IDE_DF = 0x20"
definition IDE_ERR :: u8 where "IDE_ERR = 0x01"
definition IDE_CMD_READ :: u8 where "IDE_CMD_READ = 0x20"
definition IDE_CMD_WRITE :: u8 where "IDE_CMD_WRITE = 0x30"
definition FSSIZE :: u32 where "FSSIZE = 1000"

record ide = bcache +
  idequeue :: "nat option"
  havedisk1 :: bool
  status_in :: "u8 list"
  data_in :: "u8 list list"
  ports_out :: "(nat \<times> u8) list"
  data_out :: "u8 list list"

definition outb :: "nat \<Rightarrow> u8 \<Rightarrow> 'a ide_scheme \<Rightarrow> 'a ide_scheme" where
  "outb p v s = s\<lparr>ports_out := ports_out s @ [(p, v)]\<rparr>"

text \<open>The wait for the disk to be ready, on the status bytes to come: the byte that ended it.\<close>

fun idewait_loop :: "u8 list \<Rightarrow> (u8 \<times> u8 list) option" where
  "idewait_loop [] = None"
| "idewait_loop (r # rs) =
     (if r AND (IDE_BSY OR IDE_DRDY) = IDE_DRDY then Some (r, rs) else idewait_loop rs)"

definition idewait :: "bool \<Rightarrow> 'a ide_scheme \<Rightarrow> (int, 'a ide_scheme) kres" where
  "idewait checkerr s =
     (case idewait_loop (status_in s) of
        None \<Rightarrow> Spin
      | Some (r, rs) \<Rightarrow>
          Ret (if checkerr \<and> r AND (IDE_DF OR IDE_ERR) \<noteq> 0 then -1 else 0) (s\<lparr>status_in := rs\<rparr>))"

text \<open>The loop of \<open>ideinit\<close> polls at most 1000 times for disk 1.\<close>

fun idepoll :: "nat \<Rightarrow> u8 list \<Rightarrow> bool \<times> u8 list" where
  "idepoll 0 rs = (False, rs)"
| "idepoll (Suc n) [] = (False, [])"
| "idepoll (Suc n) (r # rs) = (if r \<noteq> 0 then (True, rs) else idepoll n rs)"

definition ide_init :: "'a ide_scheme \<Rightarrow> (unit, 'a ide_scheme) kres" where
  "ide_init s =
     (let s = initlock Lidelock ''ide'' s
      in bnd (idewait False s) (\<lambda>_ s.
         let s = outb 0x1f6 (0xe0 OR 16) s
         in case idepoll 1000 (status_in s) of (h, rs) \<Rightarrow>
            let s = s\<lparr>status_in := rs, havedisk1 := (havedisk1 s \<or> h)\<rparr>
            in Ret () (outb 0x1f6 0xe0 s)))"

text \<open>A block is one sector.\<close>

definition idestart :: "nat option \<Rightarrow> 'a ide_scheme \<Rightarrow> (unit, 'a ide_scheme) kres" where
  "idestart bo s =
     (case bo of
        None \<Rightarrow> Panic ''idestart''
      | Some b \<Rightarrow>
          if blockno (bufs s ! b) \<ge> FSSIZE then Panic ''incorrect blockno''
          else
            let sector = blockno (bufs s ! b)
            in bnd (idewait False s) (\<lambda>_ s.
               let s = outb 0x3f6 0 s;
                   s = outb 0x1f2 1 s;
                   s = outb 0x1f3 (ucast (sector AND 0xff)) s;
                   s = outb 0x1f4 (ucast (drop_bit 8 sector AND 0xff)) s;
                   s = outb 0x1f5 (ucast (drop_bit 16 sector AND 0xff)) s;
                   s = outb 0x1f6 (0xe0 OR push_bit 4 (ucast (bdev (bufs s ! b) AND 1))
                                        OR ucast (drop_bit 24 sector AND 0x0f)) s
               in if flags (bufs s ! b) AND B_DIRTY \<noteq> 0 then
                    let s = outb 0x1f7 IDE_CMD_WRITE s
                    in Ret () (s\<lparr>data_out := data_out s @ [data (bufs s ! b)]\<rparr>)
                  else Ret () (outb 0x1f7 IDE_CMD_READ s)))"

text \<open>\<open>insl\<close> of one block into buffer \<open>b\<close>.\<close>

definition insl_block :: "nat \<Rightarrow> 'a ide_scheme \<Rightarrow> 'a ide_scheme" where
  "insl_block b s =
     (case data_in s of
        [] \<Rightarrow> s
      | d # ds \<Rightarrow> upd_buf b (\<lambda>k. k\<lparr>data := d\<rparr>) (s\<lparr>data_in := ds\<rparr>))"

definition ide_intr :: "'a ide_scheme \<Rightarrow> (unit, 'a ide_scheme) kres" where
  "ide_intr s =
     bnd (acquire Lidelock s) (\<lambda>_ s.
     case idequeue s of
       None \<Rightarrow> release Lidelock s
     | Some b \<Rightarrow>
         let s = s\<lparr>idequeue := qnext (bufs s ! b)\<rparr>
         in bnd (if flags (bufs s ! b) AND B_DIRTY = 0 then
                   bnd (idewait True s) (\<lambda>r s. Ret () (if r \<ge> 0 then insl_block b s else s))
                 else Ret () s) (\<lambda>_ s.
            let s = upd_buf b (\<lambda>k. k\<lparr>flags := flags k OR B_VALID\<rparr>) s;
                s = upd_buf b (\<lambda>k. k\<lparr>flags := flags k AND NOT B_DIRTY\<rparr>) s
            in bnd (wakeup (Cbuf b) s) (\<lambda>_ s.
               bnd (if idequeue s \<noteq> None then idestart (idequeue s) s else Ret () s) (\<lambda>_ s.
               release Lidelock s))))"

text \<open>
  The walk to the end of the queue, from buffer \<open>p\<close> on: the last buffer of the queue. A queue of
  \<open>n\<close> buffers takes \<open>n\<close> rounds; a cyclic one spins.
\<close>

fun queue_end :: "nat \<Rightarrow> nat \<Rightarrow> 'a ide_scheme \<Rightarrow> (nat, 'a ide_scheme) kres" where
  "queue_end 0 p s = Spin"
| "queue_end (Suc n) p s =
     (case qnext (bufs s ! p) of None \<Rightarrow> Ret p s | Some q \<Rightarrow> queue_end n q s)"

definition ide_enqueue :: "nat \<Rightarrow> 'a ide_scheme \<Rightarrow> (unit, 'a ide_scheme) kres" where
  "ide_enqueue b s =
     (let s = upd_buf b (\<lambda>k. k\<lparr>qnext := None\<rparr>) s
      in case idequeue s of
           None \<Rightarrow> Ret () (s\<lparr>idequeue := Some b\<rparr>)
         | Some p \<Rightarrow>
             bnd (queue_end (length (bufs s)) p s) (\<lambda>q s.
             Ret () (upd_buf q (\<lambda>k. k\<lparr>qnext := Some b\<rparr>) s)))"

text \<open>The wait for the request to finish, with the lock held.\<close>

definition ide_rw_loop :: "nat \<Rightarrow> 'a ide_scheme \<Rightarrow> (unit, 'a ide_scheme) kres" where
  "ide_rw_loop b s =
     (if flags (bufs s ! b) AND (B_VALID OR B_DIRTY) \<noteq> B_VALID then sleep_on (Cbuf b) Lidelock s
      else release Lidelock s)"

definition ide_rw :: "nat \<Rightarrow> 'a ide_scheme \<Rightarrow> (unit, 'a ide_scheme) kres" where
  "ide_rw b s =
     bnd (holdingsleep (buf_lock b) s) (\<lambda>h s.
     if \<not> h then Panic ''iderw: buf not locked''
     else if flags (bufs s ! b) AND (B_VALID OR B_DIRTY) = B_VALID then Panic ''iderw: nothing to do''
     else if bdev (bufs s ! b) \<noteq> 0 \<and> \<not> havedisk1 s then Panic ''iderw: ide disk 1 not present''
     else
       bnd (acquire Lidelock s) (\<lambda>_ s.
       bnd (ide_enqueue b s) (\<lambda>_ s.
       bnd (if idequeue s = Some b then idestart (Some b) s else Ret () s) (\<lambda>_ s.
       ide_rw_loop b s))))"

definition ide_rw_resume :: "nat \<Rightarrow> bool \<Rightarrow> nat \<Rightarrow> 'a ide_scheme \<Rightarrow> (unit, 'a ide_scheme) kres" where
  "ide_rw_resume i saved b s = bnd (sleep_exit i saved Lidelock s) (\<lambda>_ s. ide_rw_loop b s)"

end
