(* ===== verification/Fifo.thy ===== *)
theory Fifo
  imports Prelude
begin

text \<open>
  Bounded queues: the contract that pipes and the console's input line share (locale
  \<open>bounded_fifo\<close>), and the circular buffer with free-running 32-bit indices that both use.
\<close>

section \<open>The contract\<close>

fun drain :: "('q \<Rightarrow> bool) \<Rightarrow> ('q \<Rightarrow> 'e) \<Rightarrow> ('q \<Rightarrow> 'q) \<Rightarrow> nat \<Rightarrow> 'q \<Rightarrow> 'e list \<times> 'q" where
  "drain e f r 0 q = ([], q)"
| "drain e f r (Suc n) q = (if e q then ([], q) else let (xs, q') = drain e f r n (r q) in (f q # xs, q'))"

locale bounded_fifo =
  fixes ok :: "'q \<Rightarrow> bool" and items :: "'q \<Rightarrow> 'e list" and cap :: nat
    and put :: "'e \<Rightarrow> 'q \<Rightarrow> 'q" and front :: "'q \<Rightarrow> 'e" and rest :: "'q \<Rightarrow> 'q"
    and full :: "'q \<Rightarrow> bool" and empty :: "'q \<Rightarrow> bool"
  assumes bound: "ok q \<Longrightarrow> length (items q) \<le> cap"
    and full_iff: "ok q \<Longrightarrow> full q \<longleftrightarrow> length (items q) = cap"
    and empty_iff: "ok q \<Longrightarrow> empty q \<longleftrightarrow> items q = []"
    and put_ok: "ok q \<Longrightarrow> \<not> full q \<Longrightarrow> ok (put e q)"
    and put_items: "ok q \<Longrightarrow> \<not> full q \<Longrightarrow> items (put e q) = items q @ [e]"
    and rest_ok: "ok q \<Longrightarrow> \<not> empty q \<Longrightarrow> ok (rest q)"
    and get_items: "ok q \<Longrightarrow> \<not> empty q \<Longrightarrow> items q = front q # items (rest q)"
begin

lemma puts:
  "ok q \<Longrightarrow> length (items q) + length es \<le> cap \<Longrightarrow> ok (fold put es q) \<and> items (fold put es q) = items q @ es"
  by (induction es arbitrary: q) (simp_all add: full_iff put_ok put_items)

lemma gets:
  "ok q \<Longrightarrow> fst (drain empty front rest n q) = take n (items q) \<and>
    ok (snd (drain empty front rest n q)) \<and> items (snd (drain empty front rest n q)) = drop n (items q)"
proof (induction n arbitrary: q)
  case (Suc n)
  show ?case
  proof (cases "empty q")
    case True
    then show ?thesis using Suc.prems empty_iff by simp
  next
    case False
    then show ?thesis
      using Suc.IH [OF rest_ok [OF Suc.prems False]] get_items [OF Suc.prems False] by (simp add: case_prod_unfold)
  qed
qed simp

text \<open>What goes in comes out, in order.\<close>

lemma puts_gets:
  assumes "ok q" "empty q" "length es \<le> cap"
  shows "fst (drain empty front rest (length es) (fold put es q)) = es"
  using puts [of q es] gets [of "fold put es q" "length es"] assms empty_iff by simp

end

section \<open>Circular buffers\<close>

text \<open>The elements from index \<open>r\<close> up to index \<open>w\<close>; the indices wrap at \<open>2 ^ 32\<close>, a multiple of the size.\<close>

definition ring :: "nat \<Rightarrow> 'e list \<Rightarrow> u32 \<Rightarrow> u32 \<Rightarrow> 'e list" where
  "ring n xs r w = map (\<lambda>j. xs ! ((unat r + j) mod n)) [0..<unat (w - r)]"

lemma length_ring [simp]: "length (ring n xs r w) = unat (w - r)"
  by (simp add: ring_def)

lemma unat_mod_dvd:
  assumes "n dvd 4294967296"
  shows "unat (r + of_nat j :: u32) mod n = (unat r + j) mod n"
proof -
  have "unat (r + of_nat j :: u32) = (unat r + j) mod 4294967296"
    by (simp add: unat_word_ariths(1) unat_of_nat mod_add_right_eq)
  then show ?thesis
    using assms by (simp add: mod_mod_cancel)
qed

lemma ring_put:
  assumes n: "n dvd 4294967296" "0 < n" "n < 4294967296" and l: "length xs = n" and r: "unat (w - r) < n"
  shows "ring n (xs[unat w mod n := e]) r (w + 1) = ring n xs r w @ [e]"
    and "unat (w + 1 - r) = unat (w - r) + 1"
proof -
  have w: "w = r + of_nat (unat (w - r))"
    by simp
  have u: "unat (w + 1 - r) = unat (w - r) + 1"
  proof -
    have e: "w + 1 - r = (w - r) + 1" by simp
    have "unat ((w - r) + 1) = unat (w - r) + unat (1 :: u32)"
      using r n(3) by (intro unat_add32_small) simp
    then show ?thesis unfolding e by simp
  qed
  then show "unat (w + 1 - r) = unat (w - r) + 1" .
  have i: "unat w mod n = (unat r + unat (w - r)) mod n"
    using unat_mod_dvd [OF n(1), of r "unat (w - r)"] w by simp
  have ne: "(unat r + j) mod n \<noteq> unat w mod n" if "j < unat (w - r)" for j
  proof
    assume "(unat r + j) mod n = unat w mod n"
    then have "(unat r + j) mod n = (unat r + unat (w - r)) mod n" using i by simp
    then have "n dvd unat (w - r) - j"
      using that mod_eq_dvd_iff_nat [of "unat r + j" "unat r + unat (w - r)" n] by simp
    then show False using that r by (auto dest: dvd_imp_le)
  qed
  have "(xs[unat w mod n := e]) ! ((unat r + unat (w - r)) mod n) = e"
    using i n(2) l by (simp add: nth_list_update)
  then show "ring n (xs[unat w mod n := e]) r (w + 1) = ring n xs r w @ [e]"
    using ne [THEN not_sym] by (simp add: ring_def u)
qed

lemma ring_get:
  assumes n: "n dvd 4294967296" "0 < n" and r: "r \<noteq> w"
  shows "ring n xs r w = xs ! (unat r mod n) # ring n xs (r + 1) w" "unat (w - (r + 1)) = unat (w - r) - 1"
proof -
  have "w - r \<noteq> 0" using r by simp
  then have u: "unat (w - r) = Suc (unat (w - (r + 1)))"
    by (simp add: unat_minus_one diff_diff_eq [symmetric] unat_gt_0)
  then show "unat (w - (r + 1)) = unat (w - r) - 1" by simp
  have "(unat r + Suc j) mod n = (unat (r + 1) + j) mod n" for j
  proof -
    have "unat (r + 1) mod n = (unat r + 1) mod n"
      using unat_mod_dvd [OF n(1), of r 1] by simp
    then have "(unat (r + 1) + j) mod n = (unat r + 1 + j) mod n"
      by (rule mod_add_cong) simp
    then show ?thesis by simp
  qed
  then show "ring n xs r w = xs ! (unat r mod n) # ring n xs (r + 1) w"
    by (simp add: ring_def u upt_conv_Cons map_Suc_upt [symmetric] del: upt_Suc)
qed

end
