(* ===== verification/Lru.thy ===== *)
theory Lru
  imports Bio
begin

text \<open>
  Facts on the buffer cache of bio.c: the doubly linked list as the list of buffers in order of
  use, and the effect of each operation.
\<close>

section \<open>The list of buffers\<close>

definition nx :: "'a bcache_scheme \<Rightarrow> bptr \<Rightarrow> bptr" where
  "nx s p = bnext (getb s p)"

definition pv :: "'a bcache_scheme \<Rightarrow> bptr \<Rightarrow> bptr" where
  "pv s p = bprev (getb s p)"

fun path :: "('a \<Rightarrow> 'a) \<Rightarrow> 'a \<Rightarrow> 'a list \<Rightarrow> bool" where
  "path f p [] = True"
| "path f p (q # qs) = (f p = q \<and> path f q qs)"

text \<open>The list through the heads of the links, most recently used first.\<close>

definition dll :: "'a bcache_scheme \<Rightarrow> nat list \<Rightarrow> bool" where
  "dll s xs \<longleftrightarrow>
     distinct xs \<and> set xs \<subseteq> {..<length (bufs s)} \<and>
     path (nx s) Head (map Buf xs @ [Head]) \<and> path (pv s) Head (map Buf (rev xs) @ [Head])"

lemma path_append: "path f p (as @ q # bs) \<longleftrightarrow> path f p (as @ [q]) \<and> path f q bs"
  by (induction as arbitrary: p) auto

lemma path_cong: "(\<And>x. x \<in> set (butlast (p # qs)) \<Longrightarrow> f x = g x) \<Longrightarrow> path f p qs = path g p qs"
  by (induction qs arbitrary: p) auto

lemma path_upd: "x \<notin> set (butlast (p # qs)) \<Longrightarrow> path (f(x := y)) p qs = path f p qs"
  by (rule path_cong) auto

text \<open>A loop of \<open>bget\<close> looks at the buffers in the order of the list.\<close>

definition first_buf :: "(buf \<Rightarrow> bool) \<Rightarrow> buf list \<Rightarrow> nat list \<Rightarrow> nat option" where
  "first_buf P bs xs = map_option (\<lambda>k. xs ! k) (scan (\<lambda>i. P (bs ! i)) xs)"

lemma first_buf_simps [simp]:
  "first_buf P bs [] = None"
  "first_buf P bs (i # xs) = (if P (bs ! i) then Some i else first_buf P bs xs)"
  by (auto simp: first_buf_def option.map_comp comp_def)

lemma first_buf_Some:
  assumes "first_buf P bs xs = Some i"
  shows "i \<in> set xs" "P (bs ! i)"
  using assms by (induction xs) (auto split: if_splits)

lemma first_buf_None: "first_buf P bs xs = None \<longleftrightarrow> (\<forall>i \<in> set xs. \<not> P (bs ! i))"
  by (induction xs) auto

lemma bscan_path:
  assumes "path f p (map Buf xs @ [Head])" "\<And>i. i \<in> set xs \<Longrightarrow> f (Buf i) = link (bufs s ! i)"
    and "length xs < n"
  shows "bscan n P link (f p) s = Ret (first_buf P (bufs s) xs) s"
  using assms
proof (induction xs arbitrary: n p)
  case Nil
  then obtain m where "n = Suc m"
    by (cases n) auto
  with Nil show ?case by simp
next
  case (Cons i xs)
  then obtain m where n: "n = Suc m"
    by (cases n) auto
  have "bscan m P link (f (Buf i)) s = Ret (first_buf P (bufs s) xs) s"
    using Cons.prems n by (intro Cons.IH) auto
  then show ?case
    using Cons.prems n by simp
qed

lemma dll_scan:
  assumes "dll s xs"
  shows "bscan (Suc (length (bufs s))) P bnext (bnext (bhead s)) s = Ret (first_buf P (bufs s) xs) s"
    and "bscan (Suc (length (bufs s))) P bprev (bprev (bhead s)) s = Ret (first_buf P (bufs s) (rev xs)) s"
proof -
  have "length xs = card (set xs)"
    using assms by (simp add: dll_def distinct_card)
  also have "\<dots> \<le> card {..<length (bufs s)}"
    using assms by (intro card_mono) (auto simp: dll_def)
  finally have len: "length xs < Suc (length (bufs s))"
    by simp
  show "bscan (Suc (length (bufs s))) P bnext (bnext (bhead s)) s = Ret (first_buf P (bufs s) xs) s"
    using bscan_path [of "nx s" Head xs bnext s] assms len by (simp add: dll_def nx_def getb_def)
  show "bscan (Suc (length (bufs s))) P bprev (bprev (bhead s)) s = Ret (first_buf P (bufs s) (rev xs)) s"
    using bscan_path [of "pv s" Head "rev xs" bprev s] assms len by (simp add: dll_def pv_def getb_def)
qed

text \<open>Updates of the links.\<close>

definition inb :: "'a bcache_scheme \<Rightarrow> bptr \<Rightarrow> bool" where
  "inb s p \<longleftrightarrow> (case p of Head \<Rightarrow> True | Buf i \<Rightarrow> i < length (bufs s))"

lemma updb_links:
  assumes "inb s p"
  shows "nx (updb p (\<lambda>b. b\<lparr>bnext := q\<rparr>) s) = (nx s)(p := q)" "pv (updb p (\<lambda>b. b\<lparr>bnext := q\<rparr>) s) = pv s"
    and "pv (updb p (\<lambda>b. b\<lparr>bprev := q\<rparr>) s) = (pv s)(p := q)" "nx (updb p (\<lambda>b. b\<lparr>bprev := q\<rparr>) s) = nx s"
    and "length (bufs (updb p f s)) = length (bufs s)"
  using assms
  by (auto simp: fun_eq_iff nx_def pv_def getb_def updb_def upd_buf_def inb_def nth_list_update split: bptr.splits)

lemma path_remove:
  assumes "path f p (as @ i # cs)" "cs \<noteq> []" "distinct (p # as)" "last (p # as) \<notin> set (butlast cs)"
  shows "path (f(last (p # as) := hd cs)) p (as @ cs)"
  using assms
proof (induction as arbitrary: p)
  case Nil
  then obtain d ds where cs: "cs = d # ds"
    by (cases cs) auto
  have "path (f(p := d)) d ds = path f d ds"
    using Nil cs by (intro path_upd) simp
  then show ?case
    using Nil cs by (simp del: fun_upd_apply) simp
next
  case (Cons a as)
  have "p \<noteq> last (a # as)"
    using Cons.prems(3) by (metis distinct.simps(2) last_in_set list.distinct(1))
  moreover have "path (f(last (a # as) := hd cs)) a (as @ cs)"
    using Cons.prems by (intro Cons.IH) auto
  moreover have "(f(last (a # as) := hd cs)) p = a"
    using Cons.prems calculation(1) by (auto simp del: last.simps)
  ultimately show ?case
    by (simp del: fun_upd_apply)
qed

lemma path_insert_last:
  assumes "path g p (ds @ [h])" "distinct (p # ds)" "i \<notin> set (p # ds)"
  shows "path (g(i := h, last (p # ds) := i)) p (ds @ [i, h])"
  using assms
proof (induction ds arbitrary: p)
  case (Cons a ds)
  have "p \<noteq> last (a # ds)"
    using Cons.prems(2) by (metis distinct.simps(2) last_in_set list.distinct(1))
  moreover have "path (g(i := h, last (a # ds) := i)) a (ds @ [i, h])"
    using Cons.prems by (intro Cons.IH) auto
  moreover have "(g(i := h, last (a # ds) := i)) p = a"
    using Cons.prems calculation(1) by (auto simp del: last.simps)
  ultimately show ?case
    by (simp del: fun_upd_apply)
qed simp

text \<open>Moving node \<open>i\<close> to the front, on the forward and on the backward links.\<close>

lemma path_front:
  assumes "path f h (as @ i # bs @ [h])" "distinct (h # as @ i # bs)"
  defines "g \<equiv> f(last (h # as) := hd (bs @ [h]))"
  shows "path (g(i := g h, h := i)) h (i # as @ bs @ [h])"
proof -
  have "last (h # as) \<notin> set bs"
    using assms(2) last_in_set [of "h # as"] by auto
  then have rem: "path g h (as @ bs @ [h])"
    unfolding g_def using assms(1,2) by (intro path_remove) auto
  then obtain q qs where q: "as @ bs @ [h] = q # qs" "g h = q" "path g q qs"
    by (cases "as @ bs @ [h]") auto
  have "butlast (q # qs) = as @ bs"
    unfolding q(1) [symmetric] by (simp add: butlast_append)
  then have "path (g(i := g h, h := i)) q qs = path g q qs"
    using assms(2) by (intro path_cong) (auto simp del: butlast.simps)
  then show ?thesis
    using q assms(2) by auto
qed

lemma path_front_back:
  assumes "path f h (rev bs @ i # rev as @ [h])" "distinct (h # as @ i # bs)"
  shows "path (f(hd (bs @ [h]) := last (h # as), i := h, hd (as @ bs @ [h]) := i)) h (rev bs @ rev as @ [i, h])"
proof -
  let ?g = "f(hd (bs @ [h]) := last (h # as))"
  have l: "last (h # rev bs) = hd (bs @ [h])" "hd (rev as @ [h]) = last (h # as)"
    by (cases bs; simp; fail) (cases as; simp add: hd_append hd_rev)
  have "last (h # rev bs) \<notin> set (rev as)"
    using assms(2) last_in_set [of "h # rev bs"] by auto
  then have "path ?g h (rev bs @ rev as @ [h])"
    using path_remove [OF assms(1)] assms(2) unfolding l by auto
  moreover have "last (h # rev bs @ rev as) = hd (as @ bs @ [h])"
    by (cases as; cases bs) simp_all
  ultimately show ?thesis
    using path_insert_last [of ?g h "rev bs @ rev as" h i] assms(2)
    by (simp add: Int_commute del: fun_upd_apply last.simps) blast
qed

lemma bhead_updb: "s\<lparr>bhead := f (bhead s)\<rparr> = updb Head f s"
  by (simp add: updb_def)

lemma upd_buf_updb: "upd_buf i f s = updb (Buf i) f s"
  by (simp add: updb_def)

text \<open>The links after \<open>to_front\<close>, for neighbours that are in range.\<close>

lemma to_front_links:
  assumes i: "i < length (bufs s)" and P: "inb s (pv s (Buf i))" and S: "inb s (nx s (Buf i))" "nx s (Buf i) \<noteq> Buf i"
    and F: "inb s (nx s Head)"
  defines "g \<equiv> (nx s)(pv s (Buf i) := nx s (Buf i))"
  shows "nx (to_front i s) = g(Buf i := g Head, Head := Buf i)"
    and "pv (to_front i s) = (pv s)(nx s (Buf i) := pv s (Buf i), Buf i := Head, g Head := Buf i)"
    and "length (bufs (to_front i s)) = length (bufs s)"
proof -
  let ?P = "pv s (Buf i)" and ?S = "nx s (Buf i)"
  have inb_upd: "inb (updb p f r) q = inb r q" for p f q and r :: "'a bcache_scheme"
    by (simp add: inb_def updb_def upd_buf_def split: bptr.splits)
  have b: "bprev (bufs r ! i) = pv r (Buf i)" "bnext (bufs r ! i) = nx r (Buf i)" "bnext (bhead r) = nx r Head"
    for r :: "'a bcache_scheme"
    by (simp_all add: pv_def nx_def getb_def)
  define s1 where "s1 = updb ?S (\<lambda>b. b\<lparr>bprev := ?P\<rparr>) s"
  have 1: "nx s1 = nx s" "pv s1 = (pv s)(?S := ?P)"
    using updb_links [OF S(1)] by (simp_all add: s1_def)
  define s2 where "s2 = updb ?P (\<lambda>b. b\<lparr>bnext := ?S\<rparr>) s1"
  have "inb s1 ?P"
    using P by (simp add: s1_def inb_upd)
  then have 2: "nx s2 = g" "pv s2 = pv s1"
    using updb_links [of s1 ?P] by (simp_all add: s2_def 1 g_def)
  define s3 where "s3 = updb (Buf i) (\<lambda>b. b\<lparr>bnext := g Head\<rparr>) s2"
  define s4 where "s4 = updb (Buf i) (\<lambda>b. b\<lparr>bprev := Head\<rparr>) s3"
  have ib: "inb s2 (Buf i)" "inb s3 (Buf i)"
    using i by (simp_all add: s3_def s2_def s1_def inb_upd) (simp_all add: inb_def)
  have 3: "nx s3 = g(Buf i := g Head)" "pv s3 = pv s1"
    using updb_links [OF ib(1)] by (simp_all add: s3_def 2)
  have 4: "nx s4 = nx s3" "pv s4 = (pv s1)(Buf i := Head)"
    using updb_links [OF ib(2)] by (simp_all add: s4_def 3)
  define s5 where "s5 = updb (g Head) (\<lambda>b. b\<lparr>bprev := Buf i\<rparr>) s4"
  have "inb s4 (g Head)"
    using S F by (simp add: s4_def s3_def s2_def s1_def inb_upd g_def)
  then have 5: "nx s5 = nx s3" "pv s5 = (pv s1)(Buf i := Head, g Head := Buf i)"
    using updb_links [of s4 "g Head"] by (simp_all add: s5_def 4)
  define s6 where "s6 = updb Head (\<lambda>b. b\<lparr>bnext := Buf i\<rparr>) s5"
  have 6: "nx s6 = (nx s3)(Head := Buf i)" "pv s6 = pv s5"
    using updb_links [of s5 Head] by (simp_all add: s6_def 5 inb_def)
  have tf: "to_front i s = s6"
  proof -
    have e1: "pv s1 (Buf i) = ?P" "nx s1 (Buf i) = ?S"
      using S(2) by (simp_all add: 1)
    have e2: "nx s2 Head = g Head"
      by (simp add: 2)
    have e4: "nx s4 Head = g Head"
      by (simp add: 4 3)
    show ?thesis
      unfolding to_front_def Let_def upd_buf_updb bhead_updb [where f = "\<lambda>b. b\<lparr>bnext := Buf i\<rparr>"] b
      using e1 e2 e4 by (simp add: s6_def s5_def s4_def s3_def s2_def s1_def)
  qed
  show "nx (to_front i s) = g(Buf i := g Head, Head := Buf i)"
    by (simp add: tf 6 3)
  show "pv (to_front i s) = (pv s)(?S := ?P, Buf i := Head, g Head := Buf i)"
    by (simp add: tf 6 5 1)
  show "length (bufs (to_front i s)) = length (bufs s)"
    by (simp add: tf s6_def s5_def s4_def s3_def s2_def s1_def updb_def upd_buf_def split: bptr.splits)
qed

lemma path_hd: "path f p (q # qs) \<Longrightarrow> f p = hd (q # qs)"
  by simp

lemma dll_neighbours:
  assumes "dll s (as @ i # bs)"
  shows "nx s (Buf i) = hd (map Buf bs @ [Head])" "pv s (Buf i) = last (Head # map Buf as)"
    and "nx s Head = hd (map Buf as @ [Buf i])" "i < length (bufs s)" "nx s (Buf i) \<noteq> Buf i"
    and "inb s (nx s (Buf i))" "inb s (pv s (Buf i))" "inb s (nx s Head)"
proof -
  have f: "path (nx s) Head (map Buf as @ Buf i # (map Buf bs @ [Head]))"
    and b: "path (pv s) Head (map Buf (rev bs) @ Buf i # (map Buf (rev as) @ [Head]))"
    and d: "distinct (as @ i # bs)" and r: "set (as @ i # bs) \<subseteq> {..<length (bufs s)}"
    using assms by (simp_all add: dll_def)
  show n: "nx s (Buf i) = hd (map Buf bs @ [Head])"
    using path_append [THEN iffD1, OF f] by (cases bs) simp_all
  show p: "pv s (Buf i) = last (Head # map Buf as)"
    using path_append [THEN iffD1, OF b] by (cases as rule: rev_cases) simp_all
  show h: "nx s Head = hd (map Buf as @ [Buf i])"
    using f by (cases as) auto
  show "i < length (bufs s)"
    using r by simp
  show "nx s (Buf i) \<noteq> Buf i"
    using n d by (cases bs) auto
  show "inb s (nx s (Buf i))"
    unfolding n using r by (cases bs) (simp_all add: inb_def)
  show "inb s (nx s Head)"
    unfolding h using r by (cases as) (simp_all add: inb_def)
  show "inb s (pv s (Buf i))"
    unfolding p using r by (cases as rule: rev_cases) (simp_all add: inb_def)
qed

text \<open>The unlinking and relinking moves the buffer to the front of the list.\<close>

lemma dll_to_front:
  assumes "dll s (as @ i # bs)"
  shows "dll (to_front i s) (i # as @ bs)"
proof -
  note n = dll_neighbours [OF assms]
  let ?h = Head and ?as = "map Buf as" and ?bs = "map Buf bs"
  have f: "path (nx s) Head (?as @ Buf i # ?bs @ [Head])"
    and b: "path (pv s) Head (rev ?bs @ Buf i # rev ?as @ [Head])"
    and d: "distinct (as @ i # bs)" and r: "set (as @ i # bs) \<subseteq> {..<length (bufs s)}"
    using assms by (simp_all add: dll_def rev_map)
  have "distinct (map Buf (as @ i # bs))"
    using d by (simp add: distinct_map del: map_append) (auto simp: inj_on_def)
  then have d': "distinct (?h # ?as @ Buf i # ?bs)"
    by auto
  define g where "g = (nx s)(last (?h # ?as) := hd (?bs @ [?h]))"
  have gh: "g ?h = hd (?as @ ?bs @ [?h])"
  proof (cases as)
    case (Cons a l)
    then have "last (?h # ?as) \<in> Buf ` set as"
      using last_in_set [of ?as] by simp
    then have "last (?h # ?as) \<noteq> ?h"
      by auto
    then show ?thesis
      using n(3) Cons by (simp add: g_def)
  qed (simp add: g_def)
  have nx': "nx (to_front i s) = g(Buf i := g ?h, ?h := Buf i)"
    using to_front_links(1) [OF n(4,7,6,5,8)] by (simp only: n(1,2) g_def)
  have pv': "pv (to_front i s) = (pv s)(hd (?bs @ [?h]) := last (?h # ?as), Buf i := ?h, hd (?as @ ?bs @ [?h]) := Buf i)"
    using to_front_links(2) [OF n(4,7,6,5,8)] unfolding n(1,2) gh [unfolded g_def] .
  show ?thesis
    unfolding dll_def nx' pv'
  proof (intro conjI)
    show "path (g(Buf i := g ?h, ?h := Buf i)) Head (map Buf (i # as @ bs) @ [Head])"
      using path_front [OF f d'] by (simp only: g_def) simp
    show "path ((pv s)(hd (?bs @ [?h]) := last (?h # ?as), Buf i := ?h, hd (?as @ ?bs @ [?h]) := Buf i)) Head
        (map Buf (rev (i # as @ bs)) @ [Head])"
      using path_front_back [OF b d'] by (simp add: rev_map)
    show "distinct (i # as @ bs)"
      using d by auto
    show "set (i # as @ bs) \<subseteq> {..<length (bufs (to_front i s))}"
      using r to_front_links(3) [OF n(4,7,6,5,8)] by auto
  qed
qed

section \<open>Updates\<close>

lemma payload_upd_buf [simp]: "payload (upd_buf i f)"
  by (simp add: payload_def upd_buf_def)

lemma payload_disk [simp]:
  "payload (\<lambda>s. s\<lparr>memdisk := x\<rparr>)" "payload (\<lambda>s. s\<lparr>dwrites := y\<rparr>)" "payload (\<lambda>s. s\<lparr>bhead := z\<rparr>)"
  "payload (\<lambda>s. s\<lparr>bufs := w\<rparr>)"
  by (simp_all add: payload_def)

text \<open>An update of a buffer that is found through the buffers.\<close>

lemma payload_updb:
  assumes "\<And>s i a b p. g (s\<lparr>IF := i, cpus := a, locks := b, procs := p\<rparr>) = g s"
    and "\<And>s i a b p. h (s\<lparr>IF := i, cpus := a, locks := b, procs := p\<rparr>) = h s"
  shows "payload (\<lambda>s. updb (g s) (h s) s)"
  unfolding payload_def updb_def upd_buf_def assms by (simp split: bptr.splits)

lemma payload_to_front [simp]: "payload (to_front i)"
proof -
  define f1 :: "'a bcache_scheme \<Rightarrow> 'a bcache_scheme" where
    "f1 = (\<lambda>s. updb (bnext (bufs s ! i)) (\<lambda>b. b\<lparr>bprev := bprev (bufs s ! i)\<rparr>) s)"
  define f2 :: "'a bcache_scheme \<Rightarrow> 'a bcache_scheme" where
    "f2 = (\<lambda>s. updb (bprev (bufs s ! i)) (\<lambda>b. b\<lparr>bnext := bnext (bufs s ! i)\<rparr>) s)"
  define f3 :: "'a bcache_scheme \<Rightarrow> 'a bcache_scheme" where
    "f3 = (\<lambda>s. updb (Buf i) (\<lambda>b. b\<lparr>bnext := bnext (bhead s)\<rparr>) s)"
  define f4 :: "'a bcache_scheme \<Rightarrow> 'a bcache_scheme" where
    "f4 = (\<lambda>s. updb (Buf i) (\<lambda>b. b\<lparr>bprev := Head\<rparr>) s)"
  define f5 :: "'a bcache_scheme \<Rightarrow> 'a bcache_scheme" where
    "f5 = (\<lambda>s. updb (bnext (bhead s)) (\<lambda>b. b\<lparr>bprev := Buf i\<rparr>) s)"
  define f6 :: "'a bcache_scheme \<Rightarrow> 'a bcache_scheme" where
    "f6 = (\<lambda>s. updb Head (\<lambda>b. b\<lparr>bnext := Buf i\<rparr>) s)"
  have p: "payload f1" "payload f2" "payload f3" "payload f4" "payload f5" "payload f6"
    unfolding f1_def f2_def f3_def f4_def f5_def f6_def by (rule payload_updb; simp)+
  have "payload (\<lambda>s. f6 (f5 (f4 (f3 (f2 (f1 s))))))"
    by (rule payload_comp [OF p(6) payload_comp [OF p(5) payload_comp [OF p(4) payload_comp [OF p(3)
          payload_comp [OF p(2,1)]]]]])
  moreover have "to_front i = (\<lambda>s. f6 (f5 (f4 (f3 (f2 (f1 s))))))"
  proof
    fix s
    show "to_front i s = f6 (f5 (f4 (f3 (f2 (f1 s)))))"
      by (simp only: to_front_def Let_def upd_buf_updb f1_def f2_def f3_def f4_def f5_def f6_def
          updb_def [of Head] bptr.case)
  qed
  ultimately show ?thesis
    by simp
qed

interpretation bl: sleep_lock "buf_lock i" "\<lambda>s. i < length (bufs s)" for i
proof unfold_locales
  fix c L and s t :: "'a bcache_scheme"
  assume "qt c L s t"
  then show "sl_get (buf_lock i) t = sl_get (buf_lock i) s" "(i < length (bufs t)) = (i < length (bufs s))"
    by (auto elim!: qtE simp: buf_lock_def)
qed (auto simp: buf_lock_def upd_buf_def payload_def)

end
