(* ===== verification/Bcache.thy ===== *)
theory Bcache
  imports Lru
begin

text \<open>
  The buffer cache seen from outside. The invariant \<open>BI\<close> ties the buffers to the disk, and \<open>view\<close>
  is what a caller of bio.c reasons about: the contents of every block, the disk below, the writes
  made to it, the blocks that are newer in memory and the buffers that are held. Each routine is
  shown to succeed and to change the view in one step: \<open>bread_ok\<close>, \<open>bwrite_ok\<close>, \<open>brelse_ok\<close>, with
  \<open>set_data_ok\<close> and \<open>mark_dirty_ok\<close> for the assignments callers make to a buffer they hold.
\<close>

section \<open>The state of the cache\<close>

definition is_valid :: "buf \<Rightarrow> bool" where "is_valid b \<longleftrightarrow> flags b AND B_VALID \<noteq> 0"
definition is_dirty :: "buf \<Rightarrow> bool" where "is_dirty b \<longleftrightarrow> flags b AND B_DIRTY \<noteq> 0"

lemma flag_bits: "is_valid b = bit (flags b) 1" "is_dirty b = bit (flags b) 2"
proof -
  have v: "B_VALID = 2 ^ 1" "B_DIRTY = 2 ^ 2"
    by (simp_all add: B_VALID_def B_DIRTY_def)
  show "is_valid b = bit (flags b) 1" "is_dirty b = bit (flags b) 2"
    unfolding is_valid_def is_dirty_def v and_exp_eq_0_iff_not_bit by simp_all
qed

lemma flag_simps [simp]:
  "is_valid (b\<lparr>flags := f OR B_VALID\<rparr>)" "is_dirty (b\<lparr>flags := f OR B_DIRTY\<rparr>)"
  "is_dirty (b\<lparr>flags := f OR B_VALID\<rparr>) = bit f 2" "is_valid (b\<lparr>flags := f OR B_DIRTY\<rparr>) = bit f 1"
  "\<not> is_dirty (b\<lparr>flags := f AND NOT B_DIRTY\<rparr>)" "is_valid (b\<lparr>flags := f AND NOT B_DIRTY\<rparr>) = bit f 1"
  "\<not> is_valid (b\<lparr>flags := 0\<rparr>)" "\<not> is_dirty (b\<lparr>flags := 0\<rparr>)"
  by (simp_all add: flag_bits B_VALID_def B_DIRTY_def bit_simps)

lemma flag_frame [simp]:
  "is_valid (b\<lparr>data := d\<rparr>) = is_valid b" "is_dirty (b\<lparr>data := d\<rparr>) = is_dirty b"
  "is_valid (b\<lparr>refcnt := r\<rparr>) = is_valid b" "is_dirty (b\<lparr>refcnt := r\<rparr>) = is_dirty b"
  "is_valid (b\<lparr>block := k\<rparr>) = is_valid b" "is_dirty (b\<lparr>block := k\<rparr>) = is_dirty b"
  "is_valid (b\<lparr>bnext := q\<rparr>) = is_valid b" "is_dirty (b\<lparr>bnext := q\<rparr>) = is_dirty b"
  "is_valid (b\<lparr>bprev := q\<rparr>) = is_valid b" "is_dirty (b\<lparr>bprev := q\<rparr>) = is_dirty b"
  "is_valid (b\<lparr>bdev := e\<rparr>) = is_valid b" "is_dirty (b\<lparr>bdev := e\<rparr>) = is_dirty b"
  "is_valid (b\<lparr>blockno := e\<rparr>) = is_valid b" "is_dirty (b\<lparr>blockno := e\<rparr>) = is_dirty b"
  by (simp_all add: is_valid_def is_dirty_def)

lemma nothing_to_do: "flags b AND (B_VALID OR B_DIRTY) = B_VALID \<longleftrightarrow> is_valid b \<and> \<not> is_dirty b"
proof
  assume e: "flags b AND (B_VALID OR B_DIRTY) = B_VALID"
  have "bit (flags b AND (B_VALID OR B_DIRTY)) 1" "\<not> bit (flags b AND (B_VALID OR B_DIRTY)) 2"
    unfolding e by (simp_all add: B_VALID_def bit_simps)
  then show "is_valid b \<and> \<not> is_dirty b"
    by (simp add: flag_bits B_VALID_def B_DIRTY_def bit_simps)
next
  assume v: "is_valid b \<and> \<not> is_dirty b"
  show "flags b AND (B_VALID OR B_DIRTY) = B_VALID"
  proof (rule bit_word_eqI)
    fix n assume "n < LENGTH(32)"
    have "bit (2 ^ 1 :: 32 word) n = (n = 1)" "bit (2 ^ 2 :: 32 word) n = (n = 2)"
      unfolding bit_exp_iff by auto
    then have "bit B_VALID n = (n = 1)" "bit B_DIRTY n = (n = 2)"
      by (simp_all add: B_VALID_def B_DIRTY_def)
    then show "bit (flags b AND (B_VALID OR B_DIRTY)) n = bit B_VALID n"
      using v by (auto simp: flag_bits bit_and_iff bit_or_iff)
  qed
qed

text \<open>
  The invariant of the cache between two calls, \<open>pd\<close> being the id of the running process, which holds
  every buffer that is held: the lock of a buffer is held as long as the buffer is referenced, a
  held buffer is valid, a valid one caches a block of the disk, and it agrees with the disk unless
  it is held or dirty. A block is cached once.
\<close>

definition buf_ok :: "int \<Rightarrow> u8 list list \<Rightarrow> buf \<Rightarrow> bool" where
  "buf_ok pd md b \<longleftrightarrow>
     (slocked (block b) \<noteq> 0 \<longleftrightarrow> refcnt b \<noteq> 0) \<and>
     (refcnt b \<noteq> 0 \<longrightarrow> refcnt b = 1 \<and> spid (block b) = pd \<and> is_valid b) \<and>
     (is_dirty b \<longrightarrow> is_valid b) \<and>
     (is_valid b \<longrightarrow> bdev b = 1 \<and> unat (blockno b) < length md) \<and>
     (is_valid b \<and> \<not> is_dirty b \<and> refcnt b = 0 \<longrightarrow> data b = md ! unat (blockno b))"

definition cached_once :: "buf list \<Rightarrow> bool" where
  "cached_once bs \<longleftrightarrow>
     (\<forall>i < length bs. \<forall>j < length bs.
        bdev (bs ! i) = 1 \<and> bdev (bs ! j) = 1 \<and> blockno (bs ! i) = blockno (bs ! j) \<longrightarrow> i = j)"

definition binv :: "int \<Rightarrow> 'a bcache_scheme \<Rightarrow> bool" where
  "binv pd s \<longleftrightarrow>
     (\<exists>xs. dll s xs \<and> set xs = {..<length (bufs s)}) \<and>
     disksize s = int (length (memdisk s)) \<and> length (memdisk s) < 2 ^ 31 \<and>
     list_all (buf_ok pd (memdisk s)) (bufs s) \<and> cached_once (bufs s)"

definition BI :: "nat \<Rightarrow> nat \<Rightarrow> 'a bcache_scheme \<Rightarrow> bool" where
  "BI c p s \<longleftrightarrow> kidle c p s \<and> binv (pid (procs s ! p)) s"

text \<open>What the cache stands for: the contents of each block as the kernel sees it, the disk, the
  writes made to it, the blocks that are newer in the cache, and the buffers that are held.\<close>

record bview =
  vblk :: "u32 \<Rightarrow> u8 list"
  vdisk :: "u8 list list"
  vwrites :: "(nat \<times> u8 list) list"
  vdirty :: "u32 set"
  vheld :: "(nat \<times> u32) set"

definition blk :: "'a bcache_scheme \<Rightarrow> u32 \<Rightarrow> u8 list" where
  "blk s b = (case scan (\<lambda>k. is_valid k \<and> blockno k = b) (bufs s) of
                Some i \<Rightarrow> data (bufs s ! i) | None \<Rightarrow> memdisk s ! unat b)"

definition view :: "'a bcache_scheme \<Rightarrow> bview" where
  "view s =
     \<lparr>vblk = blk s, vdisk = memdisk s, vwrites = dwrites s,
      vdirty = {b. \<exists>i < length (bufs s). is_dirty (bufs s ! i) \<and> blockno (bufs s ! i) = b},
      vheld = {(i, b). i < length (bufs s) \<and> refcnt (bufs s ! i) \<noteq> 0 \<and> blockno (bufs s ! i) = b}\<rparr>"

definition bframe :: "'a bcache_scheme \<Rightarrow> 'a bcache_scheme \<Rightarrow> bool" where
  "bframe s s' \<longleftrightarrow>
     (\<exists>w x y z. s' = s\<lparr>bufs := w, bhead := x, memdisk := y, dwrites := z\<rparr> \<and> length w = length (bufs s))"

lemma bframe_refl [simp]: "bframe s s"
proof -
  have "s = s\<lparr>bufs := bufs s, bhead := bhead s, memdisk := memdisk s, dwrites := dwrites s\<rparr>"
    by simp
  then show ?thesis
    unfolding bframe_def by blast
qed

lemma bframe_trans: "bframe s s' \<Longrightarrow> bframe s' s'' \<Longrightarrow> bframe s s''"
  unfolding bframe_def by force

lemma bframe_len: "bframe s s' \<Longrightarrow> length (bufs s') = length (bufs s)"
  unfolding bframe_def by force

lemma buf_okD:
  assumes "buf_ok pd md b"
  shows "slocked (block b) \<noteq> 0 \<longleftrightarrow> refcnt b \<noteq> 0" "refcnt b \<noteq> 0 \<Longrightarrow> refcnt b = 1"
    and "refcnt b \<noteq> 0 \<Longrightarrow> spid (block b) = pd" "refcnt b \<noteq> 0 \<Longrightarrow> is_valid b"
    and "is_dirty b \<Longrightarrow> is_valid b" "is_valid b \<Longrightarrow> bdev b = 1" "is_valid b \<Longrightarrow> unat (blockno b) < length md"
    and "is_valid b \<Longrightarrow> \<not> is_dirty b \<Longrightarrow> refcnt b = 0 \<Longrightarrow> data b = md ! unat (blockno b)"
  using assms by (simp_all add: buf_ok_def)

lemma binvD:
  assumes "binv pd s"
  shows "disksize s = int (length (memdisk s))" "length (memdisk s) < 2 ^ 31"
    and "i < length (bufs s) \<Longrightarrow> buf_ok pd (memdisk s) (bufs s ! i)"
    and "cached_once (bufs s)"
  using assms by (simp_all add: binv_def list_all_length)

lemma cached_onceD:
  assumes "cached_once bs" "i < length bs" "j < length bs" "bdev (bs ! i) = 1" "bdev (bs ! j) = 1"
    and "blockno (bs ! i) = blockno (bs ! j)"
  shows "i = j"
  using assms unfolding cached_once_def by blast

lemma binv_once:
  assumes "binv pd s" "i < length (bufs s)" "j < length (bufs s)"
    and "is_valid (bufs s ! i)" "is_valid (bufs s ! j)" "blockno (bufs s ! i) = blockno (bufs s ! j)"
  shows "i = j"
  using cached_onceD [OF binvD(4) [OF assms(1)] assms(2,3) _ _ assms(6)]
    buf_okD(6) [OF binvD(3) [OF assms(1,2)] assms(4)] buf_okD(6) [OF binvD(3) [OF assms(1,3)] assms(5)]
  by simp

lemma blk_cached:
  assumes "binv pd s" "i < length (bufs s)" "is_valid (bufs s ! i)" "blockno (bufs s ! i) = b"
  shows "blk s b = data (bufs s ! i)"
proof (cases "scan (\<lambda>k. is_valid k \<and> blockno k = b) (bufs s)")
  case None
  then show ?thesis
    using assms(2-) nth_mem [OF assms(2)] by (auto simp: scan_None)
next
  case (Some j)
  then have "j < length (bufs s)" "is_valid (bufs s ! j)" "blockno (bufs s ! j) = b"
    by (auto dest: scan_Some)
  then have "j = i"
    using binv_once [OF assms(1)] assms(2-) by simp
  then show ?thesis
    using Some by (simp add: blk_def)
qed

lemma blk_uncached:
  assumes "\<And>i. i < length (bufs s) \<Longrightarrow> is_valid (bufs s ! i) \<Longrightarrow> blockno (bufs s ! i) \<noteq> b"
  shows "blk s b = memdisk s ! unat b"
proof -
  have "scan (\<lambda>k. is_valid k \<and> blockno k = b) (bufs s) = None"
    using assms unfolding scan_None all_set_conv_all_nth by blast
  then show ?thesis
    by (simp add: blk_def)
qed

section \<open>Steps of the cache\<close>

text \<open>A change of one buffer that keeps its place in the list.\<close>

lemma dll_upd:
  assumes "dll s xs" "i < length (bufs s)" "bnext B = bnext (bufs s ! i)" "bprev B = bprev (bufs s ! i)"
    and "bufs s' = (bufs s)[i := B]" "bhead s' = bhead s"
  shows "dll s' xs"
proof -
  have "nx s' = nx s" "pv s' = pv s"
    using assms(2-) by (auto simp: nx_def pv_def getb_def nth_list_update fun_eq_iff split: bptr.splits)
  then show ?thesis
    using assms(1,5) by (simp add: dll_def)
qed

lemma cached_once_upd:
  assumes "cached_once bs" "i < length bs"
    and "\<And>j. j < length bs \<Longrightarrow> j \<noteq> i \<Longrightarrow> bdev (bs ! j) = 1 \<Longrightarrow> bdev B = 1 \<Longrightarrow> blockno (bs ! j) \<noteq> blockno B"
  shows "cached_once (bs[i := B])"
  unfolding cached_once_def
proof (intro allI impI)
  fix j k
  assume "j < length (bs[i := B])" "k < length (bs[i := B])"
    and "bdev (bs[i := B] ! j) = 1 \<and> bdev (bs[i := B] ! k) = 1 \<and> blockno (bs[i := B] ! j) = blockno (bs[i := B] ! k)"
  then show "j = k"
    using assms(2) assms(3) [of j] assms(3) [of k] cached_onceD [OF assms(1), of j k]
    by (cases "j = i"; cases "k = i") auto
qed

lemma binv_upd:
  assumes "binv pd s" "i < length (bufs s)" "bnext B = bnext (bufs s ! i)" "bprev B = bprev (bufs s ! i)"
    and "buf_ok pd (memdisk s) B"
    and "\<And>j. j < length (bufs s) \<Longrightarrow> j \<noteq> i \<Longrightarrow> bdev (bufs s ! j) = 1 \<Longrightarrow> bdev B = 1 \<Longrightarrow>
           blockno (bufs s ! j) \<noteq> blockno B"
  shows "binv pd (s\<lparr>bufs := (bufs s)[i := B]\<rparr>)"
proof -
  obtain xs where xs: "dll s xs" "set xs = {..<length (bufs s)}"
    using assms(1) by (auto simp: binv_def)
  have "dll (s\<lparr>bufs := (bufs s)[i := B]\<rparr>) xs"
    using xs(1) assms(2-4) by (rule dll_upd) simp_all
  moreover have "list_all (buf_ok pd (memdisk s)) ((bufs s)[i := B])"
    using assms(1,2,5) by (auto simp: binv_def list_all_length nth_list_update)
  moreover have "cached_once ((bufs s)[i := B])"
    using binvD(4) [OF assms(1)] assms(2,6) by (rule cached_once_upd)
  ultimately show ?thesis
    using assms(1) xs(2) by (auto simp: binv_def)
qed

text \<open>The invariant when the block of a held buffer is written to the disk.\<close>

lemma buf_ok_disk:
  assumes "buf_ok pd md b" "is_valid b \<Longrightarrow> unat (blockno b) \<noteq> k"
  shows "buf_ok pd (md[k := d]) b"
  using assms by (cases "is_valid b") (auto simp: buf_ok_def)

text \<open>A buffer that nobody holds is taken for block \<open>b\<close>: its own block, or that of a clean buffer.\<close>

lemma blk_take:
  assumes inv: "binv pd s" "binv pd s'" and s': "s' = s\<lparr>bufs := (bufs s)[i := B]\<rparr>" and i: "i < length (bufs s)"
    and old: "refcnt (bufs s ! i) = 0" "blockno (bufs s ! i) = b \<or> \<not> is_dirty (bufs s ! i)"
    and new: "is_valid B" "blockno B = b" "data B = blk s b"
  shows "blk s' x = blk s x"
proof -
  have nth: "j < length (bufs s) \<Longrightarrow> bufs s' ! j = (if j = i then B else bufs s ! j)" for j
    using i by (simp add: s' nth_list_update)
  have len: "length (bufs s') = length (bufs s)" and md: "memdisk s' = memdisk s"
    by (simp_all add: s')
  consider (own) "x = b"
    | (other) j where "x \<noteq> b" "j < length (bufs s)" "is_valid (bufs s ! j)" "blockno (bufs s ! j) = x" "j \<noteq> i"
    | (victim) "x \<noteq> b" "is_valid (bufs s ! i)" "blockno (bufs s ! i) = x"
    | (none) "x \<noteq> b" "\<And>j. j < length (bufs s) \<Longrightarrow> is_valid (bufs s ! j) \<Longrightarrow> blockno (bufs s ! j) \<noteq> x"
    by blast
  then show ?thesis
  proof cases
    case own
    then show ?thesis
      using blk_cached [OF inv(2), of i b] nth i new len by simp
  next
    case other
    then show ?thesis
      using blk_cached [OF inv(1) other(2-4)] blk_cached [OF inv(2), of j x] nth len by simp
  next
    case victim
    have "blk s x = memdisk s ! unat x"
      using blk_cached [OF inv(1) i victim(2,3)] buf_okD(8) [OF binvD(3) [OF inv(1) i]] old victim by auto
    moreover have "blk s' x = memdisk s' ! unat x"
    proof (rule blk_uncached)
      fix k
      assume k: "k < length (bufs s')" "is_valid (bufs s' ! k)"
      show "blockno (bufs s' ! k) \<noteq> x"
      proof (cases "k = i")
        case True
        then show ?thesis
          using victim(1) new(2) nth [OF i] by simp
      next
        case False
        then show ?thesis
          using binv_once [OF inv(1) _ i _ victim(2), of k] k nth [of k] victim(3) len by auto
      qed
    qed
    ultimately show ?thesis
      by (simp add: md)
  next
    case none
    have "blk s' x = memdisk s' ! unat x"
      by (rule blk_uncached) (use nth new none len in \<open>auto split: if_splits\<close>)
    then show ?thesis
      using blk_uncached [of s x] none(2) by (simp add: md)
  qed
qed

lemma view_take:
  assumes inv: "binv pd s" "binv pd s'" and s': "s' = s\<lparr>bufs := (bufs s)[i := B]\<rparr>" and i: "i < length (bufs s)"
    and old: "refcnt (bufs s ! i) = 0" "blockno (bufs s ! i) = b \<or> \<not> is_dirty (bufs s ! i)"
    and new: "is_valid B" "blockno B = b" "data B = blk s b"
    and new': "refcnt B \<noteq> 0" "is_dirty B = is_dirty (bufs s ! i)"
  shows "view s' = (view s)\<lparr>vheld := insert (i, b) (vheld (view s))\<rparr>"
proof -
  have "blk s' = blk s"
    by (rule ext) (rule blk_take [OF assms(1-9)])
  have nth: "j < length (bufs s) \<Longrightarrow> bufs s' ! j = (if j = i then B else bufs s ! j)" for j
    using i by (simp add: s' nth_list_update)
  have len: "length (bufs s') = length (bufs s)" and md: "memdisk s' = memdisk s" "dwrites s' = dwrites s"
    by (simp_all add: s')
  have "is_dirty (bufs s' ! k) \<and> blockno (bufs s' ! k) = x \<longleftrightarrow> is_dirty (bufs s ! k) \<and> blockno (bufs s ! k) = x"
    if "k < length (bufs s)" for k x
    using nth [OF that] new(2) new'(2) old(2) by auto
  then have "{x. \<exists>k < length (bufs s'). is_dirty (bufs s' ! k) \<and> blockno (bufs s' ! k) = x}
      = {x. \<exists>k < length (bufs s). is_dirty (bufs s ! k) \<and> blockno (bufs s ! k) = x}"
    unfolding len by blast
  moreover have "{(k, x). k < length (bufs s') \<and> refcnt (bufs s' ! k) \<noteq> 0 \<and> blockno (bufs s' ! k) = x}
      = insert (i, b) {(k, x). k < length (bufs s) \<and> refcnt (bufs s ! k) \<noteq> 0 \<and> blockno (bufs s ! k) = x}"
    using new(2) new'(1) old(1) i by (auto simp: len nth split: if_splits)
  ultimately show ?thesis
    using \<open>blk s' = blk s\<close> by (simp add: view_def md)
qed

text \<open>A step on a held buffer: new contents, written to the disk or not, dirty or not.\<close>

lemma view_held:
  assumes inv: "binv pd s" "binv pd s'" and i: "i < length (bufs s)" "refcnt (bufs s ! i) \<noteq> 0" "blockno (bufs s ! i) = b"
    and s': "bufs s' = (bufs s)[i := B]" and new: "refcnt B = refcnt (bufs s ! i)" "blockno B = b" "is_valid B"
    and md: "memdisk s' = memdisk s \<or> memdisk s' = (memdisk s)[unat b := d]"
  shows "view s' = \<lparr>vblk = (vblk (view s))(b := data B), vdisk = memdisk s', vwrites = dwrites s',
    vdirty = (if is_dirty B then insert b (vdirty (view s)) else vdirty (view s) - {b}), vheld = vheld (view s)\<rparr>"
proof -
  have v: "is_valid (bufs s ! i)"
    using buf_okD(4) [OF binvD(3) [OF inv(1) i(1)] i(2)] .
  have nth: "j < length (bufs s) \<Longrightarrow> bufs s' ! j = (if j = i then B else bufs s ! j)" for j
    using i by (simp add: s' nth_list_update)
  have len: "length (bufs s') = length (bufs s)"
    by (simp add: s')
  have "blk s' x = ((blk s)(b := data B)) x" for x
  proof (cases "\<exists>j < length (bufs s). is_valid (bufs s ! j) \<and> blockno (bufs s ! j) = x")
    case True
    then obtain j where j: "j < length (bufs s)" "is_valid (bufs s ! j)" "blockno (bufs s ! j) = x"
      by blast
    have "x = b \<longleftrightarrow> j = i"
      using binv_once [OF inv(1) j(1) i(1) j(2) v] i(3) j(3) by auto
    then show ?thesis
      using blk_cached [OF inv(1) j] blk_cached [OF inv(2), of j x] nth [OF j(1)] j new len
      by (cases "j = i") simp_all
  next
    case False
    then have "x \<noteq> b"
      using i v by auto
    then have "memdisk s' ! unat x = memdisk s ! unat x"
      using md by (auto simp: word_unat_eq_iff)
    moreover have "blk s' x = memdisk s' ! unat x"
      by (rule blk_uncached) (use nth new False \<open>x \<noteq> b\<close> len in \<open>auto split: if_splits\<close>)
    ultimately have "blk s' x = memdisk s ! unat x"
      by simp
    then show ?thesis
      using blk_uncached [of s x] False \<open>x \<noteq> b\<close> by simp
  qed
  then have b: "blk s' = (blk s)(b := data B)" ..
  have d: "is_dirty (bufs s ! k) \<Longrightarrow> k < length (bufs s) \<Longrightarrow> blockno (bufs s ! k) = b \<Longrightarrow> k = i" for k
    using binv_once [OF inv(1) _ i(1) _ v, of k] i(3) buf_okD(5) [OF binvD(3) [OF inv(1)], of k] by simp
  have dd: "{x. \<exists>k < length (bufs s'). is_dirty (bufs s' ! k) \<and> blockno (bufs s' ! k) = x}
      = (if is_dirty B then insert b (vdirty (view s)) else vdirty (view s) - {b})"
    using d i new(2) by (auto simp: len nth view_def split: if_splits)
  have "{(k, x). k < length (bufs s') \<and> refcnt (bufs s' ! k) \<noteq> 0 \<and> blockno (bufs s' ! k) = x} = vheld (view s)"
    using new i by (auto simp: len nth view_def split: if_splits)
  with b dd show ?thesis
    unfolding view_def [of s'] by (simp add: view_def)
qed

section \<open>The routines\<close>

lemma BI_D:
  assumes "BI c p s"
  shows "kidle c p s" "binv (pid (procs s ! p)) s" "cpu_ok c s" "lock_free l s"
    "cproc (cpus s ! c) = Some p" "p < length (procs s)"
  using assms by (simp_all add: BI_def kidle_def)

lemma qt_bufs:
  assumes "qt c L s t"
  shows "bufs t = bufs s" "bhead t = bhead s" "memdisk t = memdisk s" "disksize t = disksize s" "dwrites t = dwrites s"
  using assms by (auto elim!: qtE)

lemma dll_qt:
  assumes "qt c L s t"
  shows "dll t xs = dll s xs"
proof -
  have "nx t = nx s" "pv t = pv s"
    by (simp_all add: nx_def pv_def getb_def qt_bufs [OF assms] fun_eq_iff split: bptr.splits)
  then show ?thesis
    by (simp add: dll_def qt_bufs [OF assms])
qed

text \<open>The loops of \<open>bget\<close> under the relation: the buffer found first on the list.\<close>

lemma qt_bscan:
  assumes "qt c L s t" "dll s xs"
  shows "bscan (Suc (length (bufs t))) P bnext (bnext (bhead t)) t = Ret (first_buf P (bufs s) xs) t"
    and "bscan (Suc (length (bufs t))) P bprev (bprev (bhead t)) t = Ret (first_buf P (bufs s) (rev xs)) t"
  using dll_scan [of t xs] assms(2) by (simp_all add: dll_qt [OF assms(1)] qt_bufs [OF assms(1)])

text \<open>The end of \<open>bget\<close>, common to its two branches.\<close>

lemma bget_lock:
  assumes q: "qt c {Lbcache} s' t" and k: "kidle c p s'" and i: "i < length (bufs s')" "slocked (block (bufs s' ! i)) = 0"
  obtains t' where "bnd (release Lbcache t) (\<lambda>_ s. bnd (acquiresleep (buf_lock i) s) (\<lambda>_ s. Ret i s)) = Ret i t'"
    "qt c {} (upd_buf i (\<lambda>b. b\<lparr>block := (block b)\<lparr>slocked := 1, spid := pid (procs s' ! p)\<rparr>\<rparr>) s') t'"
proof -
  obtain t1 where 1: "release Lbcache t = Ret () t1" "qt c {} s' t1"
    using q by (rule qt_release0)
  have free: "lock_free (sl_lk (buf_lock i)) s'" "sl_lk (buf_lock i) \<notin> {}" "slocked (sl_get (buf_lock i) s') = 0"
    using kidleD(2) [OF k] i by (simp_all add: buf_lock_def)
  obtain t2 where 2: "acquiresleep (buf_lock i) t1 = Ret () t2"
      "qt c {} (sl_upd (buf_lock i) (\<lambda>k. k\<lparr>slocked := 1, spid := pid (procs s' ! p)\<rparr>) s') t2"
    using 1(2) free(1,2) kidleD(3,4) [OF k] i(1) free(3) by (rule bl.acquiresleep_free)
  show ?thesis
    using that [of t2] 1(1) 2 by (simp add: buf_lock_def)
qed

lemma kidle_upd_buf [simp]: "kidle c p (upd_buf i f s) = kidle c p s"
  by (rule kidle_payload) simp

lemma procs_upd_buf [simp]: "procs (upd_buf i f s) = procs s"
  by (simp add: upd_buf_def)

lemma upd_buf_upd_buf: "i < length (bufs s) \<Longrightarrow> upd_buf i f (upd_buf i g s) = upd_buf i (\<lambda>b. f (g b)) s"
  by (simp add: upd_buf_def)

lemma nth_upd_buf [simp]:
  "i < length (bufs s) \<Longrightarrow> bufs (upd_buf i f s) ! i = f (bufs s ! i)" "length (bufs (upd_buf i f s)) = length (bufs s)"
  by (simp_all add: upd_buf_def)

text \<open>
  \<open>bget\<close> takes the buffer that caches the block, or else the least recently used one that is neither
  held nor dirty.
\<close>

definition bget_hit :: "int \<Rightarrow> buf \<Rightarrow> buf" where
  "bget_hit pd b = b\<lparr>refcnt := refcnt b + 1, block := (block b)\<lparr>slocked := 1, spid := pd\<rparr>\<rparr>"

definition bget_miss :: "int \<Rightarrow> u32 \<Rightarrow> u32 \<Rightarrow> buf \<Rightarrow> buf" where
  "bget_miss pd dev bno b =
     b\<lparr>bdev := dev, blockno := bno, flags := 0, refcnt := 1, block := (block b)\<lparr>slocked := 1, spid := pd\<rparr>\<rparr>"

lemma bget_cached:
  assumes q: "qt c {} s t" and inv: "BI c p s" and xs: "dll s xs" "set xs = {..<length (bufs s)}"
    and f: "first_buf (\<lambda>b. bdev b = dev \<and> blockno b = bno) (bufs s) xs = Some i" and u: "refcnt (bufs s ! i) = 0"
  obtains t' where "bget dev bno t = Ret i t'" "qt c {} (upd_buf i (bget_hit (pid (procs s ! p))) s) t'"
proof -
  let ?f = "\<lambda>b. b\<lparr>refcnt := refcnt b + 1\<rparr>"
  have i: "i < length (bufs s)"
    using first_buf_Some(1) [OF f] xs(2) by simp
  obtain t1 where 1: "acquire Lbcache t = Ret () t1" "qt c {Lbcache} s t1"
    using q BI_D(4) [OF inv] by (rule qt_acquire0)
  have "slocked (block (bufs s ! i)) = 0"
    using buf_okD(1) [OF binvD(3) [OF BI_D(2) [OF inv] i]] u by simp
  then have l: "i < length (bufs (upd_buf i ?f s))" "slocked (block (bufs (upd_buf i ?f s) ! i)) = 0"
    and k: "kidle c p (upd_buf i ?f s)"
    using i BI_D(1) [OF inv] by simp_all
  have "qt c {Lbcache} (upd_buf i ?f s) (upd_buf i ?f t1)"
    by (rule qt_payload [OF payload_upd_buf 1(2)])
  then obtain t' where t': "bnd (release Lbcache (upd_buf i ?f t1)) (\<lambda>_ s. bnd (acquiresleep (buf_lock i) s) (\<lambda>_ s. Ret i s)) = Ret i t'"
    "qt c {} (upd_buf i (\<lambda>b. b\<lparr>block := (block b)\<lparr>slocked := 1, spid := pid (procs (upd_buf i ?f s) ! p)\<rparr>\<rparr>) (upd_buf i ?f s)) t'"
    using k l by (rule bget_lock)
  have "upd_buf i (\<lambda>b. b\<lparr>block := (block b)\<lparr>slocked := 1, spid := pid (procs (upd_buf i ?f s) ! p)\<rparr>\<rparr>) (upd_buf i ?f s)
      = upd_buf i (bget_hit (pid (procs s ! p))) s"
    using i by (simp add: upd_buf_def bget_hit_def)
  then show ?thesis
    using that [of t'] 1(1) t' f by (simp add: bget_def qt_bscan [OF 1(2) xs(1)])
qed

lemma bget_uncached:
  assumes q: "qt c {} s t" and inv: "BI c p s" and xs: "dll s xs" "set xs = {..<length (bufs s)}"
    and n: "first_buf (\<lambda>b. bdev b = dev \<and> blockno b = bno) (bufs s) xs = None"
    and f: "first_buf (\<lambda>b. refcnt b = 0 \<and> flags b AND B_DIRTY = 0) (bufs s) (rev xs) = Some i"
  obtains t' where "bget dev bno t = Ret i t'" "qt c {} (upd_buf i (bget_miss (pid (procs s ! p)) dev bno) s) t'"
proof -
  let ?f = "\<lambda>b. b\<lparr>bdev := dev, blockno := bno, flags := 0, refcnt := 1\<rparr>"
  have i: "i < length (bufs s)"
    using first_buf_Some(1) [OF f] xs(2) by simp
  obtain t1 where 1: "acquire Lbcache t = Ret () t1" "qt c {Lbcache} s t1"
    using q BI_D(4) [OF inv] by (rule qt_acquire0)
  have "slocked (block (bufs s ! i)) = 0"
    using buf_okD(1) [OF binvD(3) [OF BI_D(2) [OF inv] i]] first_buf_Some(2) [OF f] by simp
  then have l: "i < length (bufs (upd_buf i ?f s))" "slocked (block (bufs (upd_buf i ?f s) ! i)) = 0"
    and k: "kidle c p (upd_buf i ?f s)"
    using i BI_D(1) [OF inv] by simp_all
  have "qt c {Lbcache} (upd_buf i ?f s) (upd_buf i ?f t1)"
    by (rule qt_payload [OF payload_upd_buf 1(2)])
  then obtain t' where t': "bnd (release Lbcache (upd_buf i ?f t1)) (\<lambda>_ s. bnd (acquiresleep (buf_lock i) s) (\<lambda>_ s. Ret i s)) = Ret i t'"
    "qt c {} (upd_buf i (\<lambda>b. b\<lparr>block := (block b)\<lparr>slocked := 1, spid := pid (procs (upd_buf i ?f s) ! p)\<rparr>\<rparr>) (upd_buf i ?f s)) t'"
    using k l by (rule bget_lock)
  have "upd_buf i (\<lambda>b. b\<lparr>block := (block b)\<lparr>slocked := 1, spid := pid (procs (upd_buf i ?f s) ! p)\<rparr>\<rparr>) (upd_buf i ?f s)
      = upd_buf i (bget_miss (pid (procs s ! p)) dev bno) s"
    using i by (simp add: upd_buf_def bget_miss_def)
  moreover have "i < length (bufs t1)"
    using i qt_bufs(1) [OF 1(2)] by simp
  ultimately show ?thesis
    using that [of t'] 1(1) t' n f by (simp add: bget_def qt_bscan [OF 1(2) xs(1)] upd_buf_upd_buf Let_def)
qed

text \<open>The lock of a buffer held by the running process.\<close>

definition mine :: "nat \<Rightarrow> nat \<Rightarrow> 'a bcache_scheme \<Rightarrow> bool" where
  "mine p i s \<longleftrightarrow>
     i < length (bufs s) \<and> slocked (block (bufs s ! i)) \<noteq> 0 \<and> spid (block (bufs s ! i)) = pid (procs s ! p)"

lemma holding_mine:
  assumes "qt c {} s t" "kidle c p s" "mine p i s"
  obtains t' where "holdingsleep (buf_lock i) t = Ret True t'" "qt c {} s t'"
proof -
  have l: "lock_free (sl_lk (buf_lock i)) s" "sl_lk (buf_lock i) \<notin> {}"
    using kidleD(2) [OF assms(2)] by simp_all
  obtain t' where "holdingsleep (buf_lock i) t
      = Ret (slocked (sl_get (buf_lock i) s) \<noteq> 0 \<and> spid (sl_get (buf_lock i) s) = pid (procs s ! p)) t'" "qt c {} s t'"
    using assms(1) l kidleD(3,4) [OF assms(2)] by (rule bl.holdingsleep_answer)
  then show ?thesis
    using that [of t'] assms(3) by (simp add: mine_def buf_lock_def)
qed

lemma in_range:
  assumes "disksize s = int (length (memdisk s))" "length (memdisk s) < 2 ^ 31" "unat (b :: u32) < length (memdisk s)"
  shows "\<not> of_int (disksize s) \<le> b"
proof -
  have "unat (of_nat (length (memdisk s)) :: u32) = length (memdisk s)"
    using assms(2) by (simp add: unat_of_nat)
  then show ?thesis
    using assms by (simp add: word_le_nat_alt)
qed

definition read_in :: "nat \<Rightarrow> 'a bcache_scheme \<Rightarrow> 'a bcache_scheme" where
  "read_in i s = upd_buf i (\<lambda>b. b\<lparr>data := memdisk s ! unat (blockno b), flags := flags b OR B_VALID\<rparr>) s"

definition write_back :: "nat \<Rightarrow> 'a bcache_scheme \<Rightarrow> 'a bcache_scheme" where
  "write_back i s =
     (upd_buf i (\<lambda>b. b\<lparr>flags := (flags b AND NOT B_DIRTY) OR B_VALID\<rparr>) s)
       \<lparr>memdisk := (memdisk s)[unat (blockno (bufs s ! i)) := data (bufs s ! i)],
        dwrites := dwrites s @ [(unat (blockno (bufs s ! i)), data (bufs s ! i))]\<rparr>"

lemma payload_iderw [simp]: "payload (read_in i)" "payload (write_back i)"
  by (simp_all add: payload_def read_in_def write_back_def upd_buf_def)

lemma iderw_ok:
  assumes q: "qt c {} s t" and k: "kidle c p s" "mine p i s"
    and d: "disksize s = int (length (memdisk s))" "length (memdisk s) < 2 ^ 31"
    and b: "bdev (bufs s ! i) = 1" "unat (blockno (bufs s ! i)) < length (memdisk s)"
    and f: "\<not> is_valid (bufs s ! i) \<or> is_dirty (bufs s ! i)"
  obtains t' where "iderw i t = Ret () t'"
    "qt c {} (if is_dirty (bufs s ! i) then write_back i s else read_in i s) t'"
proof -
  obtain t1 where 1: "holdingsleep (buf_lock i) t = Ret True t1" "qt c {} s t1"
    using q k by (rule holding_mine)
  note e = qt_bufs [OF 1(2)]
  have i: "i < length (bufs t1)"
    using k(2) e by (simp add: mine_def)
  have "iderw i t = Ret () (if is_dirty (bufs s ! i) then write_back i t1 else read_in i t1)"
  proof (cases "is_dirty (bufs s ! i)")
    case True
    then show ?thesis
      using 1(1) f b i in_range [OF d b(2)] nothing_to_do [of "bufs s ! i"]
      by (simp add: iderw_def is_dirty_def Let_def write_back_def upd_buf_def e)
  next
    case False
    then show ?thesis
      using 1(1) f b i in_range [OF d b(2)] nothing_to_do [of "bufs s ! i"]
      by (simp add: iderw_def is_dirty_def Let_def read_in_def upd_buf_def e)
  qed
  moreover have "qt c {} (if is_dirty (bufs s ! i) then write_back i s else read_in i s)
      (if is_dirty (bufs s ! i) then write_back i t1 else read_in i t1)"
    using qt_payload [OF payload_iderw(1) 1(2)] qt_payload [OF payload_iderw(2) 1(2)] by simp
  ultimately show ?thesis
    by (rule that)
qed

section \<open>Specifications\<close>

text \<open>A block that nobody holds can be read as long as it is cached or some buffer is free.\<close>

definition can_take :: "'a bcache_scheme \<Rightarrow> u32 \<Rightarrow> bool" where
  "can_take s b \<longleftrightarrow>
     unat b < length (memdisk s) \<and> b \<notin> snd ` vheld (view s) \<and>
     (b \<in> vdirty (view s) \<or> card (vdirty (view s) \<union> snd ` vheld (view s)) < length (bufs s))"

text \<open>The buffers that can not be recycled hold different blocks.\<close>

lemma free_buffer:
  assumes inv: "binv pd s" and c: "card (vdirty (view s) \<union> snd ` vheld (view s)) < length (bufs s)"
  obtains i where "i < length (bufs s)" "refcnt (bufs s ! i) = 0" "\<not> is_dirty (bufs s ! i)"
proof -
  let ?U = "vdirty (view s) \<union> snd ` vheld (view s)"
  have "\<exists>i < length (bufs s). refcnt (bufs s ! i) = 0 \<and> \<not> is_dirty (bufs s ! i)"
  proof (rule ccontr)
    assume "\<not> ?thesis"
    then have used: "i < length (bufs s) \<Longrightarrow> refcnt (bufs s ! i) \<noteq> 0 \<or> is_dirty (bufs s ! i)" for i
      by blast
    then have v: "i < length (bufs s) \<Longrightarrow> is_valid (bufs s ! i)" for i
      using buf_okD(4,5) [OF binvD(3) [OF inv]] by blast
    have "inj_on (\<lambda>i. blockno (bufs s ! i)) {..<length (bufs s)}"
      by (rule inj_onI) (use binv_once [OF inv] v in auto)
    moreover have "(\<lambda>i. blockno (bufs s ! i)) ` {..<length (bufs s)} \<subseteq> ?U"
      using used by (force simp: view_def)
    moreover have "finite ?U"
      by (rule finite)
    ultimately have "card {..<length (bufs s)} \<le> card ?U"
      by (rule card_inj_on_le)
    with c show False
      by simp
  qed
  then show ?thesis
    using that by blast
qed

lemma kidle_disk [simp]:
  "kidle c p (s\<lparr>bufs := w\<rparr>) = kidle c p s" "kidle c p (s\<lparr>bhead := x\<rparr>) = kidle c p s"
  "kidle c p (s\<lparr>memdisk := y\<rparr>) = kidle c p s" "kidle c p (s\<lparr>dwrites := z\<rparr>) = kidle c p s"
  by (simp_all add: kidle_def cpu_ok_def this_cpu_def lock_free_def)

lemma bframeI:
  "s' = s\<lparr>bufs := w, bhead := x, memdisk := y, dwrites := z\<rparr> \<Longrightarrow> length w = length (bufs s) \<Longrightarrow> bframe s s'"
  unfolding bframe_def by blast

lemma bframe_upd_buf [simp]: "bframe s (s\<lparr>bufs := (bufs s)[i := B]\<rparr>)"
  by (rule bframeI [where w = "(bufs s)[i := B]" and x = "bhead s" and y = "memdisk s" and z = "dwrites s"]) simp_all

text \<open>What \<open>bget\<close> leaves in the buffer, and what \<open>bread\<close> makes of it.\<close>

definition taken :: "int \<Rightarrow> u32 \<Rightarrow> buf \<Rightarrow> buf \<Rightarrow> bool" where
  "taken pd b old B \<longleftrightarrow>
     refcnt old = 0 \<and> (blockno old = b \<or> \<not> is_dirty old) \<and>
     refcnt B = 1 \<and> slocked (block B) = 1 \<and> spid (block B) = pd \<and> bdev B = 1 \<and> blockno B = b \<and>
     bnext B = bnext old \<and> bprev B = bprev old \<and> is_dirty B = is_dirty old"

lemma takenD:
  assumes "taken pd b old B"
  shows "refcnt old = 0" "blockno old = b \<or> \<not> is_dirty old" "refcnt B = 1" "slocked (block B) = 1"
    "spid (block B) = pd" "bdev B = 1" "blockno B = b" "bnext B = bnext old" "bprev B = bprev old"
    "is_dirty B = is_dirty old"
  using assms by (simp_all add: taken_def)

text \<open>Only buffer \<open>i\<close> can cache block \<open>b\<close>.\<close>

definition sole :: "'a bcache_scheme \<Rightarrow> u32 \<Rightarrow> nat \<Rightarrow> bool" where
  "sole s b i \<longleftrightarrow> (\<forall>j < length (bufs s). bdev (bufs s ! j) = 1 \<and> blockno (bufs s ! j) = b \<longrightarrow> j = i)"

lemma soleD:
  "sole s b i \<Longrightarrow> j < length (bufs s) \<Longrightarrow> bdev (bufs s ! j) = 1 \<Longrightarrow> blockno (bufs s ! j) = b \<Longrightarrow> j = i"
  by (simp add: sole_def)

lemma taken_read:
  assumes inv: "BI c p s" and i: "i < length (bufs s)" and T: "taken (pid (procs s ! p)) b (bufs s ! i) B"
    and b: "unat b < length (memdisk s)" and q: "qt c {} (s\<lparr>bufs := (bufs s)[i := B]\<rparr>) t"
    and once: "sole s b i"
    and v: "is_valid B = (is_valid (bufs s ! i) \<and> blockno (bufs s ! i) = b)" "is_valid B \<longrightarrow> data B = data (bufs s ! i)"
  obtains B' t' where "(if flags (bufs t ! i) AND B_VALID = 0 then bnd (iderw i t) (\<lambda>_ s. Ret i s) else Ret i t) = Ret i t'"
    "qt c {} (s\<lparr>bufs := (bufs s)[i := B']\<rparr>) t'" "taken (pid (procs s ! p)) b (bufs s ! i) B'" "is_valid B'"
    "data B' = blk s b"
proof (cases "is_valid B")
  case True
  have "flags (bufs t ! i) AND B_VALID \<noteq> 0"
    using True i qt_bufs(1) [OF q] by (simp add: is_valid_def)
  moreover have "data B = blk s b"
    using v True blk_cached [OF BI_D(2) [OF inv] i, of b] by simp
  ultimately show ?thesis
    using T q True by (intro that [of t B]) simp_all
next
  case False
  let ?s = "s\<lparr>bufs := (bufs s)[i := B]\<rparr>"
  have ok: "buf_ok (pid (procs s ! p)) (memdisk s) (bufs s ! i)"
    using binvD(3) [OF BI_D(2) [OF inv] i] .
  have nd: "\<not> is_dirty B"
    using takenD(2,10) [OF T] False v(1) buf_okD(5) [OF ok] by auto
  have k: "kidle c p ?s" "mine p i ?s"
    using BI_D(1) [OF inv] i takenD [OF T] by (simp_all add: mine_def)
  have d: "disksize ?s = int (length (memdisk ?s))" "length (memdisk ?s) < 2 ^ 31" "bdev (bufs ?s ! i) = 1"
    "unat (blockno (bufs ?s ! i)) < length (memdisk ?s)" "\<not> is_valid (bufs ?s ! i) \<or> is_dirty (bufs ?s ! i)"
    using binvD(1,2) [OF BI_D(2) [OF inv]] b takenD [OF T] i False by simp_all
  obtain t' where t': "iderw i t = Ret () t'" "qt c {} (if is_dirty (bufs ?s ! i) then write_back i ?s else read_in i ?s) t'"
    using q k d by (rule iderw_ok)
  let ?B = "B\<lparr>data := memdisk s ! unat b, flags := flags B OR B_VALID\<rparr>"
  have "read_in i ?s = s\<lparr>bufs := (bufs s)[i := ?B]\<rparr>"
    using i takenD(7) [OF T] by (simp add: read_in_def upd_buf_def)
  then have q': "qt c {} (s\<lparr>bufs := (bufs s)[i := ?B]\<rparr>) t'"
    using t'(2) nd i by simp
  have fl: "flags (bufs t ! i) AND B_VALID = 0"
    using False i qt_bufs(1) [OF q] by (simp add: is_valid_def)
  have "blockno (bufs s ! j) \<noteq> b" if "j < length (bufs s)" "is_valid (bufs s ! j)" for j
    using soleD [OF once that(1)] buf_okD(6) [OF binvD(3) [OF BI_D(2) [OF inv] that(1)] that(2)] that v(1) False by auto
  then have "blk s b = memdisk s ! unat b"
    by (rule blk_uncached)
  moreover have "taken (pid (procs s ! p)) b (bufs s ! i) ?B" "is_valid ?B"
    using T nd by (simp_all add: taken_def flag_bits B_VALID_def bit_simps)
  ultimately show ?thesis
    using q' fl t'(1) by (intro that [of t' ?B]) simp_all
qed

lemma taken_inv:
  assumes inv: "BI c p s" and i: "i < length (bufs s)" and T: "taken (pid (procs s ! p)) b (bufs s ! i) B"
    and b: "unat b < length (memdisk s)" and v: "is_valid B" "data B = blk s b"
    and once: "sole s b i"
  shows "BI c p (s\<lparr>bufs := (bufs s)[i := B]\<rparr>)"
    and "view (s\<lparr>bufs := (bufs s)[i := B]\<rparr>) = (view s)\<lparr>vheld := insert (i, b) (vheld (view s))\<rparr>"
proof -
  note d = takenD [OF T]
  have "buf_ok (pid (procs s ! p)) (memdisk s) B"
    using d b v by (simp add: buf_ok_def)
  then have k: "binv (pid (procs s ! p)) (s\<lparr>bufs := (bufs s)[i := B]\<rparr>)"
    using d soleD [OF once] by (intro binv_upd [OF BI_D(2) [OF inv] i]) auto
  then show "BI c p (s\<lparr>bufs := (bufs s)[i := B]\<rparr>)"
    using BI_D(1) [OF inv] by (simp add: BI_def)
  show "view (s\<lparr>bufs := (bufs s)[i := B]\<rparr>) = (view s)\<lparr>vheld := insert (i, b) (vheld (view s))\<rparr>"
    using d v by (intro view_take [OF BI_D(2) [OF inv] k refl i]) simp_all
qed

text \<open>The choice of the buffer by \<open>bget\<close>.\<close>

lemma bget_taken:
  assumes q: "qt c {} s t" and inv: "BI c p s" and b: "can_take s b"
  obtains i B t' where "bget 1 b t = Ret i t'" "qt c {} (s\<lparr>bufs := (bufs s)[i := B]\<rparr>) t'" "i < length (bufs s)"
    "taken (pid (procs s ! p)) b (bufs s ! i) B"
    "sole s b i"
    "is_valid B = (is_valid (bufs s ! i) \<and> blockno (bufs s ! i) = b)" "is_valid B \<longrightarrow> data B = data (bufs s ! i)"
proof -
  note iv = BI_D(2) [OF inv]
  obtain xs where xs: "dll s xs" "set xs = {..<length (bufs s)}"
    using iv by (auto simp: binv_def)
  show ?thesis
  proof (cases "first_buf (\<lambda>k. bdev k = 1 \<and> blockno k = b) (bufs s) xs")
    case (Some i)
    have i: "i < length (bufs s)" "bdev (bufs s ! i) = 1" "blockno (bufs s ! i) = b"
      using first_buf_Some [OF Some] xs(2) by simp_all
    have u: "refcnt (bufs s ! i) = 0"
      using b i(1,3) by (force simp: can_take_def view_def)
    obtain t' where t': "bget 1 b t = Ret i t'" "qt c {} (upd_buf i (bget_hit (pid (procs s ! p))) s) t'"
      using q inv xs Some u by (rule bget_cached)
    show ?thesis
    proof (rule that [OF t'(1)])
      show "qt c {} (s\<lparr>bufs := (bufs s)[i := bget_hit (pid (procs s ! p)) (bufs s ! i)]\<rparr>) t'"
        using t'(2) by (simp add: upd_buf_def)
      show "sole s b i"
        using cached_onceD [OF binvD(4) [OF iv] _ i(1) _ i(2)] i(3) by (auto simp: sole_def)
    qed (use i u in \<open>simp_all add: bget_hit_def taken_def\<close>)
  next
    case None
    have no: "\<not> (bdev (bufs s ! j) = 1 \<and> blockno (bufs s ! j) = b)" if "j < length (bufs s)" for j
      using None that unfolding first_buf_None xs(2) by blast
    have "b \<notin> vdirty (view s)"
      using no buf_okD(5,6) [OF binvD(3) [OF iv]] by (auto simp: view_def)
    then have "card (vdirty (view s) \<union> snd ` vheld (view s)) < length (bufs s)"
      using b by (simp add: can_take_def)
    then obtain j where "j < length (bufs s)" "refcnt (bufs s ! j) = 0" "\<not> is_dirty (bufs s ! j)"
      by (rule free_buffer [OF iv])
    then obtain i where Some: "first_buf (\<lambda>b. refcnt b = 0 \<and> flags b AND B_DIRTY = 0) (bufs s) (rev xs) = Some i"
      using first_buf_None [of "\<lambda>b. refcnt b = 0 \<and> flags b AND B_DIRTY = 0" "bufs s" "rev xs"] xs(2)
      by (cases "first_buf (\<lambda>b. refcnt b = 0 \<and> flags b AND B_DIRTY = 0) (bufs s) (rev xs)") (auto simp: is_dirty_def)
    have i: "i < length (bufs s)" "refcnt (bufs s ! i) = 0" "\<not> is_dirty (bufs s ! i)"
      using first_buf_Some [OF Some] xs(2) by (simp_all add: is_dirty_def)
    obtain t' where t': "bget 1 b t = Ret i t'" "qt c {} (upd_buf i (bget_miss (pid (procs s ! p)) 1 b) s) t'"
      using q inv xs None Some by (rule bget_uncached)
    show ?thesis
    proof (rule that [OF t'(1)])
      show "qt c {} (s\<lparr>bufs := (bufs s)[i := bget_miss (pid (procs s ! p)) 1 b (bufs s ! i)]\<rparr>) t'"
        using t'(2) by (simp add: upd_buf_def)
      show "is_valid (bget_miss (pid (procs s ! p)) 1 b (bufs s ! i)) = (is_valid (bufs s ! i) \<and> blockno (bufs s ! i) = b)"
        using no [OF i(1)] buf_okD(6) [OF binvD(3) [OF iv i(1)]] by (auto simp: bget_miss_def)
      show "sole s b i"
        unfolding sole_def using no by blast
    qed (use i in \<open>simp_all add: bget_miss_def taken_def\<close>)
  qed
qed

lemma bread_ok:
  assumes q: "qt c {} s t" and inv: "BI c p s" and b: "can_take s b"
  obtains i s' t' where "bread 1 b t = Ret i t'" "qt c {} s' t'" "BI c p s'" "bframe s s'"
    "view s' = (view s)\<lparr>vheld := insert (i, b) (vheld (view s))\<rparr>" "i < length (bufs s')" "data (bufs s' ! i) = vblk (view s) b"
proof -
  obtain i B t1 where 1: "bget 1 b t = Ret i t1" and g: "qt c {} (s\<lparr>bufs := (bufs s)[i := B]\<rparr>) t1" "i < length (bufs s)"
    "taken (pid (procs s ! p)) b (bufs s ! i) B"
    "sole s b i"
    "is_valid B = (is_valid (bufs s ! i) \<and> blockno (bufs s ! i) = b)" "is_valid B \<longrightarrow> data B = data (bufs s ! i)"
    using assms by (rule bget_taken)
  have b': "unat b < length (memdisk s)"
    using b by (simp add: can_take_def)
  obtain B' t' where 2: "(if flags (bufs t1 ! i) AND B_VALID = 0 then bnd (iderw i t1) (\<lambda>_ s. Ret i s) else Ret i t1) = Ret i t'"
    "qt c {} (s\<lparr>bufs := (bufs s)[i := B']\<rparr>) t'" "taken (pid (procs s ! p)) b (bufs s ! i) B'" "is_valid B'"
    "data B' = blk s b"
    using inv g(2,3) b' g(1,4,5,6) by (rule taken_read)
  have 3: "BI c p (s\<lparr>bufs := (bufs s)[i := B']\<rparr>)"
    "view (s\<lparr>bufs := (bufs s)[i := B']\<rparr>) = (view s)\<lparr>vheld := insert (i, b) (vheld (view s))\<rparr>"
    by (rule taken_inv [OF inv g(2) 2(3) b' 2(4,5) g(4)])+
  show ?thesis
    by (rule that [OF _ 2(2) 3(1) bframe_upd_buf 3(2)]) (use 1 2(1,5) g(2) in \<open>simp_all add: bread_def view_def\<close>)
qed

text \<open>Steps on a held buffer.\<close>

lemma heldD:
  assumes "BI c p s" "(i, b) \<in> vheld (view s)"
  shows "i < length (bufs s)" "refcnt (bufs s ! i) = 1" "blockno (bufs s ! i) = b" "is_valid (bufs s ! i)"
    and "mine p i s" "bdev (bufs s ! i) = 1" "unat b < length (memdisk s)" "data (bufs s ! i) = vblk (view s) b"
proof -
  show i: "i < length (bufs s)" and b: "blockno (bufs s ! i) = b"
    using assms(2) by (simp_all add: view_def)
  have r: "refcnt (bufs s ! i) \<noteq> 0"
    using assms(2) by (simp add: view_def)
  note ok = buf_okD [OF binvD(3) [OF BI_D(2) [OF assms(1)] i]]
  show "refcnt (bufs s ! i) = 1" and v: "is_valid (bufs s ! i)" and "mine p i s"
    using ok(1,2,3,4) r i by (simp_all add: mine_def)
  show "bdev (bufs s ! i) = 1" "unat b < length (memdisk s)"
    using ok(6,7) v b by simp_all
  show "data (bufs s ! i) = vblk (view s) b"
    using blk_cached [OF BI_D(2) [OF assms(1)] i v b] by (simp add: view_def)
qed

lemma held_dirty:
  assumes inv: "BI c p s" and h: "(i, b) \<in> vheld (view s)"
  shows "is_dirty (bufs s ! i) \<longleftrightarrow> b \<in> vdirty (view s)"
proof
  note d = heldD [OF inv h]
  show "is_dirty (bufs s ! i) \<Longrightarrow> b \<in> vdirty (view s)"
    using d(1,3) by (auto simp: view_def)
  assume "b \<in> vdirty (view s)"
  then obtain k where k: "k < length (bufs s)" "is_dirty (bufs s ! k)" "blockno (bufs s ! k) = b"
    by (auto simp: view_def)
  have "k = i"
    using binv_once [OF BI_D(2) [OF inv] k(1) d(1) buf_okD(5) [OF binvD(3) [OF BI_D(2) [OF inv] k(1)] k(2)] d(4)]
      k(3) d(3) by simp
  then show "is_dirty (bufs s ! i)"
    using k(2) by simp
qed

lemma held_inv:
  assumes inv: "BI c p s" and h: "(i, b) \<in> vheld (view s)"
    and new: "refcnt B = 1" "block B = block (bufs s ! i)" "blockno B = b" "is_valid B" "bdev B = 1"
      "bnext B = bnext (bufs s ! i)" "bprev B = bprev (bufs s ! i)"
  shows "BI c p (s\<lparr>bufs := (bufs s)[i := B]\<rparr>)"
proof -
  note d = heldD [OF inv h]
  have "buf_ok (pid (procs s ! p)) (memdisk s) B"
    using new d by (simp add: buf_ok_def mine_def)
  moreover have "blockno (bufs s ! j) \<noteq> blockno B" if "j < length (bufs s)" "j \<noteq> i" "bdev (bufs s ! j) = 1" for j
    using cached_onceD [OF binvD(4) [OF BI_D(2) [OF inv]] that(1) d(1) that(3) d(6)] new d(3) that(2) by auto
  ultimately have "binv (pid (procs s ! p)) (s\<lparr>bufs := (bufs s)[i := B]\<rparr>)"
    using new by (intro binv_upd [OF BI_D(2) [OF inv] d(1)]) simp_all
  then show ?thesis
    using BI_D(1) [OF inv] by (simp add: BI_def)
qed

lemma set_data_ok:
  assumes inv: "BI c p s" and h: "(i, b) \<in> vheld (view s)"
  shows "BI c p (upd_buf i (\<lambda>k. k\<lparr>data := f k\<rparr>) s)" "bframe s (upd_buf i (\<lambda>k. k\<lparr>data := f k\<rparr>) s)"
    and "view (upd_buf i (\<lambda>k. k\<lparr>data := f k\<rparr>) s) = (view s)\<lparr>vblk := (vblk (view s))(b := f (bufs s ! i))\<rparr>"
proof -
  note d = heldD [OF inv h]
  let ?B = "(bufs s ! i)\<lparr>data := f (bufs s ! i)\<rparr>"
  let ?s = "s\<lparr>bufs := (bufs s)[i := ?B]\<rparr>"
  have e: "upd_buf i (\<lambda>k. k\<lparr>data := f k\<rparr>) s = ?s"
    by (simp add: upd_buf_def)
  have k: "BI c p ?s"
    using d by (intro held_inv [OF inv h]) simp_all
  have "view ?s = \<lparr>vblk = (vblk (view s))(b := data ?B), vdisk = memdisk ?s, vwrites = dwrites ?s,
    vdirty = (if is_dirty ?B then insert b (vdirty (view s)) else vdirty (view s) - {b}), vheld = vheld (view s)\<rparr>"
    using d BI_D(2) [OF inv] BI_D(2) [OF k] by (intro view_held [where pd = "pid (procs s ! p)"]) simp_all
  moreover have "is_dirty (bufs s ! i) \<longleftrightarrow> b \<in> vdirty (view s)"
    by (rule held_dirty [OF inv h])
  ultimately show "view (upd_buf i (\<lambda>k. k\<lparr>data := f k\<rparr>) s) = (view s)\<lparr>vblk := (vblk (view s))(b := f (bufs s ! i))\<rparr>"
    unfolding e by (auto simp: view_def insert_absorb)
  show "BI c p (upd_buf i (\<lambda>k. k\<lparr>data := f k\<rparr>) s)" "bframe s (upd_buf i (\<lambda>k. k\<lparr>data := f k\<rparr>) s)"
    unfolding e using k by simp_all
qed

text \<open>\<open>bwrite\<close> writes the block; \<open>log_write\<close> only marks it.\<close>

lemma mark_dirty_ok:
  assumes inv: "BI c p s" and h: "(i, b) \<in> vheld (view s)"
  shows "BI c p (upd_buf i (\<lambda>k. k\<lparr>flags := flags k OR B_DIRTY\<rparr>) s)"
    and "bframe s (upd_buf i (\<lambda>k. k\<lparr>flags := flags k OR B_DIRTY\<rparr>) s)"
    and "view (upd_buf i (\<lambda>k. k\<lparr>flags := flags k OR B_DIRTY\<rparr>) s) = (view s)\<lparr>vdirty := insert b (vdirty (view s))\<rparr>"
proof -
  note d = heldD [OF inv h]
  let ?B = "(bufs s ! i)\<lparr>flags := flags (bufs s ! i) OR B_DIRTY\<rparr>"
  let ?s = "s\<lparr>bufs := (bufs s)[i := ?B]\<rparr>"
  have e: "upd_buf i (\<lambda>k. k\<lparr>flags := flags k OR B_DIRTY\<rparr>) s = ?s"
    by (simp add: upd_buf_def)
  have v: "is_valid ?B" "is_dirty ?B"
    using d(4) by (simp_all add: flag_bits B_DIRTY_def bit_simps)
  have k: "BI c p ?s"
    using d v by (intro held_inv [OF inv h]) simp_all
  have "view ?s = \<lparr>vblk = (vblk (view s))(b := data ?B), vdisk = memdisk ?s, vwrites = dwrites ?s,
    vdirty = (if is_dirty ?B then insert b (vdirty (view s)) else vdirty (view s) - {b}), vheld = vheld (view s)\<rparr>"
    using d v BI_D(2) [OF inv] BI_D(2) [OF k]
    by (intro view_held [where pd = "pid (procs s ! p)"]) simp_all
  then show "view (upd_buf i (\<lambda>k. k\<lparr>flags := flags k OR B_DIRTY\<rparr>) s) = (view s)\<lparr>vdirty := insert b (vdirty (view s))\<rparr>"
    unfolding e using d(8) v by (simp add: view_def)
  show "BI c p (upd_buf i (\<lambda>k. k\<lparr>flags := flags k OR B_DIRTY\<rparr>) s)"
    "bframe s (upd_buf i (\<lambda>k. k\<lparr>flags := flags k OR B_DIRTY\<rparr>) s)"
    unfolding e using k by simp_all
qed

lemma dll_disk [simp]:
  "dll (s\<lparr>memdisk := y\<rparr>) xs = dll s xs" "dll (s\<lparr>dwrites := z\<rparr>) xs = dll s xs"
proof -
  have "nx (s\<lparr>memdisk := y\<rparr>) = nx s" "pv (s\<lparr>memdisk := y\<rparr>) = pv s" "nx (s\<lparr>dwrites := z\<rparr>) = nx s" "pv (s\<lparr>dwrites := z\<rparr>) = pv s"
    by (simp_all add: nx_def pv_def getb_def fun_eq_iff split: bptr.splits)
  then show "dll (s\<lparr>memdisk := y\<rparr>) xs = dll s xs" "dll (s\<lparr>dwrites := z\<rparr>) xs = dll s xs"
    by (simp_all add: dll_def)
qed

lemma write_back_ok:
  assumes inv: "BI c p s" and h: "(i, b) \<in> vheld (view s)"
  shows "BI c p (write_back i s)" "bframe s (write_back i s)"
    and "view (write_back i s) = (view s)\<lparr>vdisk := (vdisk (view s))[unat b := vblk (view s) b],
      vwrites := vwrites (view s) @ [(unat b, vblk (view s) b)], vdirty := vdirty (view s) - {b}\<rparr>"
proof -
  note d = heldD [OF inv h]
  let ?B = "(bufs s ! i)\<lparr>flags := flags (bufs s ! i) AND NOT B_DIRTY OR B_VALID\<rparr>"
  let ?s = "s\<lparr>bufs := (bufs s)[i := ?B]\<rparr>"
  have e: "write_back i s = ?s\<lparr>memdisk := (memdisk s)[unat b := vblk (view s) b],
      dwrites := dwrites s @ [(unat b, vblk (view s) b)]\<rparr>"
    using d(3,8) by (simp add: upd_buf_def write_back_def)
  have nd: "\<not> is_dirty ?B" "is_valid ?B"
    by (simp_all add: flag_bits B_VALID_def B_DIRTY_def bit_simps)
  have k: "BI c p ?s"
    using d nd by (intro held_inv [OF inv h]) simp_all
  have "buf_ok (pid (procs s ! p)) ((memdisk s)[unat b := vblk (view s) b]) (bufs ?s ! j)" if "j < length (bufs s)" for j
  proof (cases "j = i")
    case True
    then show ?thesis
      using d nd by (simp add: buf_ok_def mine_def)
  next
    case False
    have "is_valid (bufs s ! j) \<Longrightarrow> blockno (bufs s ! j) \<noteq> b"
      using binv_once [OF BI_D(2) [OF inv] that d(1) _ d(4)] d(3) False by auto
    then have "buf_ok (pid (procs s ! p)) ((memdisk s)[unat b := vblk (view s) b]) (bufs s ! j)"
      using binvD(3) [OF BI_D(2) [OF inv] that] by (intro buf_ok_disk) (auto simp: word_unat_eq_iff)
    then show ?thesis
      using False by simp
  qed
  then have "binv (pid (procs s ! p)) (write_back i s)"
    using BI_D(2) [OF k] unfolding e binv_def by (simp add: list_all_length)
  then show i: "BI c p (write_back i s)"
    using BI_D(1) [OF inv] by (simp add: BI_def e)
  have "view (write_back i s) = \<lparr>vblk = (vblk (view s))(b := data ?B), vdisk = memdisk (write_back i s), vwrites = dwrites (write_back i s),
    vdirty = (if is_dirty ?B then insert b (vdirty (view s)) else vdirty (view s) - {b}), vheld = vheld (view s)\<rparr>"
    using d BI_D(2) [OF inv] BI_D(2) [OF i] nd
    by (intro view_held [where pd = "pid (procs s ! p)" and i = i and d = "vblk (view s) b"]) (simp_all add: e)
  then show "view (write_back i s) = (view s)\<lparr>vdisk := (vdisk (view s))[unat b := vblk (view s) b],
      vwrites := vwrites (view s) @ [(unat b, vblk (view s) b)], vdirty := vdirty (view s) - {b}\<rparr>"
    using d(8) nd by (simp add: view_def e)
  show "bframe s (write_back i s)"
    unfolding e by (rule bframeI [where w = "(bufs s)[i := ?B]" and x = "bhead s"]) simp_all
qed

lemma bwrite_ok:
  assumes q: "qt c {} s t" and inv: "BI c p s" and h: "(i, b) \<in> vheld (view s)"
  obtains s' t' where "bwrite i t = Ret () t'" "qt c {} s' t'" "BI c p s'" "bframe s s'"
    "view s' = (view s)\<lparr>vdisk := (vdisk (view s))[unat b := vblk (view s) b],
      vwrites := vwrites (view s) @ [(unat b, vblk (view s) b)], vdirty := vdirty (view s) - {b}\<rparr>"
proof -
  note d = heldD [OF inv h]
  let ?f = "upd_buf i (\<lambda>k. k\<lparr>flags := flags k OR B_DIRTY\<rparr>)"
  obtain t1 where 1: "holdingsleep (buf_lock i) t = Ret True t1" "qt c {} s t1"
    using q BI_D(1) [OF inv] d(5) by (rule holding_mine)
  have q1: "qt c {} (?f s) (?f t1)"
    by (rule qt_payload [OF payload_upd_buf 1(2)])
  note m = mark_dirty_ok [OF inv h]
  have h1: "(i, b) \<in> vheld (view (?f s))"
    using h m(3) by simp
  note d1 = heldD [OF m(1) h1]
  have D: "is_dirty (bufs (?f s) ! i)"
    unfolding held_dirty [OF m(1) h1] m(3) by simp
  have "disksize (?f s) = int (length (memdisk (?f s)))" "length (memdisk (?f s)) < 2 ^ 31"
    "bdev (bufs (?f s) ! i) = 1" "unat (blockno (bufs (?f s) ! i)) < length (memdisk (?f s))"
    "\<not> is_valid (bufs (?f s) ! i) \<or> is_dirty (bufs (?f s) ! i)"
    using binvD(1,2) [OF BI_D(2) [OF m(1)]] d1(3,6,7) D by simp_all
  then obtain t' where 2: "iderw i (?f t1) = Ret () t'"
      "qt c {} (if is_dirty (bufs (?f s) ! i) then write_back i (?f s) else read_in i (?f s)) t'"
    by (rule iderw_ok [OF q1 BI_D(1) [OF m(1)] d1(5)])
  note w = write_back_ok [OF m(1) h1]
  show ?thesis
  proof (rule that)
    show "bwrite i t = Ret () t'"
      using 1(1) 2(1) by (simp add: bwrite_def)
    show "qt c {} (write_back i (?f s)) t'"
      using 2(2) D by simp
    show "BI c p (write_back i (?f s))"
      by (rule w(1))
    show "bframe s (write_back i (?f s))"
      by (rule bframe_trans [OF m(2) w(2)])
    show "view (write_back i (?f s)) = (view s)\<lparr>vdisk := (vdisk (view s))[unat b := vblk (view s) b],
        vwrites := vwrites (view s) @ [(unat b, vblk (view s) b)], vdirty := vdirty (view s) - {b}\<rparr>"
      unfolding w(3) m(3) by simp
  qed
qed

text \<open>\<open>brelse\<close>: moving a buffer in the list changes nothing else.\<close>

definition relinked :: "buf \<Rightarrow> buf \<Rightarrow> bool" where
  "relinked k k' \<longleftrightarrow> (\<exists>a b. k' = k\<lparr>bprev := a, bnext := b\<rparr>)"

definition links_only :: "'a bcache_scheme \<Rightarrow> 'a bcache_scheme \<Rightarrow> bool" where
  "links_only s s' \<longleftrightarrow> (\<exists>w x. s' = s\<lparr>bufs := w, bhead := x\<rparr> \<and> list_all2 relinked (bufs s) w)"

lemma relinked_refl: "relinked k k"
proof -
  have "k = k\<lparr>bprev := bprev k, bnext := bnext k\<rparr>"
    by simp
  then show ?thesis
    unfolding relinked_def by blast
qed

lemma relinked_trans: "relinked k k' \<Longrightarrow> relinked k' k'' \<Longrightarrow> relinked k k''"
  unfolding relinked_def by force

lemma relinkedD:
  assumes "relinked k k'"
  shows "flags k' = flags k" "bdev k' = bdev k" "blockno k' = blockno k" "block k' = block k" "refcnt k' = refcnt k"
    "data k' = data k" "is_valid k' = is_valid k" "is_dirty k' = is_dirty k"
  using assms by (auto simp: relinked_def)

lemma links_only_trans:
  assumes "links_only s s'" "links_only s' s''"
  shows "links_only s s''"
proof -
  obtain w x w' x' where e: "s' = s\<lparr>bufs := w, bhead := x\<rparr>" "s'' = s'\<lparr>bufs := w', bhead := x'\<rparr>"
    and r: "list_all2 relinked (bufs s) w" "list_all2 relinked (bufs s') w'"
    using assms by (auto simp: links_only_def)
  have "list_all2 relinked (bufs s) w'"
    using r(1) r(2) [unfolded e(1)] by (auto intro: list_all2_trans [OF relinked_trans])
  then show ?thesis
    unfolding links_only_def using e by auto
qed

lemma relinked_list:
  assumes "\<And>k. relinked k (f k)"
  shows "list_all2 relinked xs (xs[i := f (xs ! i)])"
  unfolding list_all2_conv_all_nth
proof (intro conjI allI impI)
  fix j
  assume "j < length xs"
  then show "relinked (xs ! j) (xs[i := f (xs ! i)] ! j)"
    using assms relinked_refl by (cases "j = i") simp_all
qed simp

lemma links_only_updb:
  assumes "\<And>k. relinked k (f k)"
  shows "links_only s (updb p f s)"
proof -
  have "updb p f s = s\<lparr>bufs := bufs (updb p f s), bhead := bhead (updb p f s)\<rparr>"
    by (simp add: updb_def upd_buf_def split: bptr.splits)
  moreover have "list_all2 relinked (bufs s) (bufs (updb p f s))"
    using relinked_list [OF assms] list_all2_refl [of relinked, OF relinked_refl]
    by (simp add: updb_def upd_buf_def split: bptr.splits)
  ultimately show ?thesis
    unfolding links_only_def by blast
qed

lemma relinked_upd: "relinked k (k\<lparr>bprev := a\<rparr>)" "relinked k (k\<lparr>bnext := a\<rparr>)"
proof -
  have "k\<lparr>bprev := a\<rparr> = k\<lparr>bprev := a, bnext := bnext k\<rparr>" "k\<lparr>bnext := a\<rparr> = k\<lparr>bprev := bprev k, bnext := a\<rparr>"
    by simp_all
  then show "relinked k (k\<lparr>bprev := a\<rparr>)" "relinked k (k\<lparr>bnext := a\<rparr>)"
    unfolding relinked_def by blast+
qed

lemma links_only_to_front: "links_only s (to_front i s)"
proof -
  have u: "links_only s (updb p (\<lambda>b. b\<lparr>bprev := q\<rparr>) s)" "links_only s (updb p (\<lambda>b. b\<lparr>bnext := q\<rparr>) s)" for p q s
    by (rule links_only_updb, rule relinked_upd)+
  show ?thesis
    unfolding to_front_def Let_def upd_buf_updb bhead_updb
    by (rule links_only_trans [OF _ u(2)] links_only_trans [OF _ u(1)] u)+
qed

lemma scan_all2: "list_all2 (\<lambda>x y. P x = Q y) xs ys \<Longrightarrow> scan P xs = scan Q ys"
  by (induction rule: list_all2_induct) simp_all

lemma links_onlyD:
  assumes "links_only s s'"
  shows "length (bufs s') = length (bufs s)" "\<And>j. j < length (bufs s) \<Longrightarrow> relinked (bufs s ! j) (bufs s' ! j)"
    and "memdisk s' = memdisk s" "disksize s' = disksize s" "dwrites s' = dwrites s" "procs s' = procs s"
    and "kidle c p s' = kidle c p s" "blk s' = blk s" "view s' = view s" "bframe s s'"
proof -
  obtain w x where e: "s' = s\<lparr>bufs := w, bhead := x\<rparr>" and r: "list_all2 relinked (bufs s) w"
    using assms by (auto simp: links_only_def)
  show l: "length (bufs s') = length (bufs s)" and n: "\<And>j. j < length (bufs s) \<Longrightarrow> relinked (bufs s ! j) (bufs s' ! j)"
    using r by (simp_all add: e list_all2_conv_all_nth)
  show "memdisk s' = memdisk s" "disksize s' = disksize s" "dwrites s' = dwrites s" "procs s' = procs s"
    "kidle c p s' = kidle c p s"
    by (simp_all add: e)
  have "scan (\<lambda>k. is_valid k \<and> blockno k = b) (bufs s) = scan (\<lambda>k. is_valid k \<and> blockno k = b) w" for b
    by (rule scan_all2, rule list_all2_mono [OF r]) (simp add: relinkedD)
  then have "blk s' b = blk s b" for b
    using relinkedD(6) [OF n] list_all2_lengthD [OF r] by (cases "scan (\<lambda>k. is_valid k \<and> blockno k = b) w")
      (auto simp: blk_def e dest: scan_Some)
  then show b: "blk s' = blk s" ..
  show "view s' = view s"
    by (simp add: view_def b l relinkedD(3,5,8) [OF n] cong: conj_cong) (simp add: e)
  show "bframe s s'"
    by (rule bframeI [where w = w and x = x and y = "memdisk s" and z = "dwrites s"]) (use r in \<open>simp_all add: e list_all2_lengthD\<close>)
qed

lemma binv_to_front:
  assumes inv: "binv pd s" and i: "i < length (bufs s)"
  shows "binv pd (to_front i s)"
proof -
  note l = links_onlyD [OF links_only_to_front [of s i]]
  obtain xs where xs: "dll s xs" "set xs = {..<length (bufs s)}"
    using inv by (auto simp: binv_def)
  then obtain as bs where ab: "xs = as @ i # bs"
    using i by (metis lessThan_iff split_list)
  have "dll (to_front i s) (i # as @ bs)"
    using xs(1) unfolding ab by (rule dll_to_front)
  moreover have "set (i # as @ bs) = {..<length (bufs (to_front i s))}"
    using xs(2) ab by (simp add: l(1))
  moreover have "buf_ok pd (memdisk s) (bufs (to_front i s) ! j)" if "j < length (bufs s)" for j
    using binvD(3) [OF inv that] relinkedD [OF l(2) [OF that]] by (simp add: buf_ok_def)
  moreover have "cached_once (bufs (to_front i s))"
    using binvD(4) [OF inv] relinkedD(2,3) [OF l(2)] by (simp add: cached_once_def l(1))
  ultimately show ?thesis
    using binvD(1,2) [OF inv] by (auto simp: binv_def list_all_length l(1,3,4))
qed

text \<open>Giving up a buffer whose contents are on the disk, or will be written there later.\<close>

lemma let_go:
  assumes inv: "BI c p s" and h: "(i, b) \<in> vheld (view s)"
    and clean: "b \<in> vdirty (view s) \<or> vblk (view s) b = vdisk (view s) ! unat b"
    and B: "B = (bufs s ! i)\<lparr>block := (block (bufs s ! i))\<lparr>slocked := 0, spid := 0\<rparr>, refcnt := 0\<rparr>"
  shows "BI c p (s\<lparr>bufs := (bufs s)[i := B]\<rparr>)"
    and "view (s\<lparr>bufs := (bufs s)[i := B]\<rparr>) = (view s)\<lparr>vheld := vheld (view s) - {(i, b)}\<rparr>"
proof -
  note d = heldD [OF inv h]
  let ?s = "s\<lparr>bufs := (bufs s)[i := B]\<rparr>"
  have "is_valid B" "is_dirty B = is_dirty (bufs s ! i)" "data B = data (bufs s ! i)" "blockno B = b" "bdev B = 1"
    using d by (simp_all add: B)
  note B' = this
  have "buf_ok (pid (procs s ! p)) (memdisk s) B"
    using clean held_dirty [OF inv h] d B' by (auto simp: buf_ok_def B view_def)
  moreover have "blockno (bufs s ! j) \<noteq> blockno B" if "j < length (bufs s)" "j \<noteq> i" "bdev (bufs s ! j) = 1" for j
    using cached_onceD [OF binvD(4) [OF BI_D(2) [OF inv]] that(1) d(1) that(3) d(6)] B'(4) d(3) that(2) by auto
  ultimately have k: "binv (pid (procs s ! p)) ?s"
    by (intro binv_upd [OF BI_D(2) [OF inv] d(1)]) (simp_all add: B)
  then show "BI c p ?s"
    using BI_D(1) [OF inv] by (simp add: BI_def)
  have nth: "bufs ?s ! j = (if j = i then B else bufs s ! j)" for j
    using d(1) by (simp add: nth_list_update)
  have "list_all2 (\<lambda>k k'. (is_valid k \<and> blockno k = x) = (is_valid k' \<and> blockno k' = x)) (bufs s) (bufs ?s)" for x
    unfolding list_all2_conv_all_nth nth using B' d(3,4) by simp
  then have "scan (\<lambda>k. is_valid k \<and> blockno k = x) (bufs s) = scan (\<lambda>k. is_valid k \<and> blockno k = x) (bufs ?s)" for x
    by (rule scan_all2)
  moreover have "data (bufs ?s ! j) = data (bufs s ! j)" for j
    unfolding nth using B' by simp
  ultimately have "blk ?s = blk s"
    by (auto simp: blk_def fun_eq_iff split: option.splits)
  moreover have "is_dirty (bufs ?s ! j) = is_dirty (bufs s ! j)" "blockno (bufs ?s ! j) = blockno (bufs s ! j)" for j
    unfolding nth using B' d(3) by simp_all
  moreover have "refcnt (bufs ?s ! j) \<noteq> 0 \<longleftrightarrow> j \<noteq> i \<and> refcnt (bufs s ! j) \<noteq> 0" for j
    unfolding nth by (simp add: B)
  ultimately show "view ?s = (view s)\<lparr>vheld := vheld (view s) - {(i, b)}\<rparr>"
    using d(3) unfolding view_def by auto
qed

text \<open>The state that \<open>brelse\<close> leaves.\<close>

definition released :: "buf \<Rightarrow> buf" where
  "released b = b\<lparr>block := (block b)\<lparr>slocked := 0, spid := 0\<rparr>, refcnt := 0\<rparr>"

lemma brelse_run:
  assumes q: "qt c {} s t" and inv: "BI c p s" and h: "(i, b) \<in> vheld (view s)"
  obtains t' where "brelse i t = Ret () t'" "qt c {} (to_front i (upd_buf i released s)) t'"
proof -
  note d = heldD [OF inv h]
  obtain t1 where 1: "holdingsleep (buf_lock i) t = Ret True t1" "qt c {} s t1"
    using q BI_D(1) [OF inv] d(5) by (rule holding_mine)
  let ?s1 = "sl_upd (buf_lock i) (\<lambda>k. k\<lparr>slocked := 0, spid := 0\<rparr>) s"
  have l: "lock_free (sl_lk (buf_lock i)) s" "sl_lk (buf_lock i) \<notin> {}" "lock_free Lptable s" "Lptable \<notin> ({} :: lock set)"
    using BI_D(4) [OF inv] by simp_all
  obtain t2 where 2: "releasesleep (buf_lock i) t1 = Ret () t2" "qt c {} ?s1 t2"
    using 1(2) l d(1) by (rule bl.releasesleep_held)
  have "lock_free Lbcache ?s1"
    unfolding bl.upd_sync(1) by (rule BI_D(4) [OF inv])
  with 2(2) obtain t3 where 3: "acquire Lbcache t2 = Ret () t3" "qt c {Lbcache} ?s1 t3"
    by (rule qt_acquire0)
  let ?f = "upd_buf i (\<lambda>b. b\<lparr>refcnt := refcnt b - 1\<rparr>)" and ?s2 = "upd_buf i released s"
  have s2: "?f ?s1 = ?s2"
    using d(1,2) by (simp add: buf_lock_def upd_buf_def released_def)
  have q2: "qt c {Lbcache} ?s2 (?f t3)"
    using qt_payload [OF payload_upd_buf 3(2), of i] unfolding s2 [symmetric] .
  have r: "refcnt (bufs (?f t3) ! i) = 0"
    using qt_bufs(1) [OF q2] d(1) by (simp add: released_def)
  obtain t4 where 4: "release Lbcache (to_front i (?f t3)) = Ret () t4" "qt c {} (to_front i ?s2) t4"
    using qt_payload [OF payload_to_front q2] by (rule qt_release0)
  show ?thesis
    by (rule that [OF _ 4(2)]) (use 1(1) 2(1) 3(1) 4(1) r in \<open>simp add: brelse_def Let_def\<close>)
qed

lemma brelse_ok:
  assumes q: "qt c {} s t" and inv: "BI c p s" and h: "(i, b) \<in> vheld (view s)"
    and clean: "b \<in> vdirty (view s) \<or> vblk (view s) b = vdisk (view s) ! unat b"
  obtains s' t' where "brelse i t = Ret () t'" "qt c {} s' t'" "BI c p s'" "bframe s s'"
    "view s' = (view s)\<lparr>vheld := vheld (view s) - {(i, b)}\<rparr>"
proof -
  note d = heldD [OF inv h]
  obtain t' where t': "brelse i t = Ret () t'" "qt c {} (to_front i (upd_buf i released s)) t'"
    using q inv h by (rule brelse_run)
  note g = let_go [OF inv h clean released_def]
  have s2: "upd_buf i released s = s\<lparr>bufs := (bufs s)[i := released (bufs s ! i)]\<rparr>" (is "_ = ?s2")
    by (simp add: upd_buf_def)
  have v: "view (to_front i ?s2) = view ?s2" and f: "bframe ?s2 (to_front i ?s2)"
    and k: "kidle c p (to_front i ?s2) = kidle c p ?s2" "procs (to_front i ?s2) = procs s"
    using links_onlyD [OF links_only_to_front [of ?s2 i]] by simp_all
  show ?thesis
  proof (rule that [OF t'(1) t'(2) [unfolded s2]])
    show "BI c p (to_front i ?s2)"
      using g(1) binv_to_front [of "pid (procs s ! p)" ?s2 i] d(1) k by (simp add: BI_def)
    show "bframe s (to_front i ?s2)"
      by (rule bframe_trans [OF bframe_upd_buf f])
    show "view (to_front i ?s2) = (view s)\<lparr>vheld := vheld (view s) - {(i, b)}\<rparr>"
      using v g(2) by simp
  qed
qed

lemma dll_released:
  assumes "dll s xs" "i < length (bufs s)"
  shows "dll (upd_buf i released s) xs"
  using assms by (rule dll_upd [where B = "released (bufs s ! i)"]) (simp_all add: upd_buf_def released_def)

section \<open>An example\<close>

text \<open>A cache of two buffers, the second of which was never used.\<close>

definition nolock :: sleeplock where
  "nolock = \<lparr>slocked = 0, slname = [], spid = 0\<rparr>"

definition dirty1 :: buf where
  "dirty1 = \<lparr>flags = 6, bdev = 1, blockno = 1, block = nolock, refcnt = 0, bprev = Head, bnext = Buf 1, qnext = None,
     data = replicate BSIZE 7\<rparr>"

definition unused1 :: buf where
  "unused1 = \<lparr>flags = 0, bdev = 0, blockno = 0, block = nolock, refcnt = 0, bprev = Buf 0, bnext = Head, qnext = None,
     data = replicate BSIZE 0\<rparr>"

definition unused0 :: buf where
  "unused0 = unused1\<lparr>bprev := Head, bnext := Buf 1\<rparr>"

definition cache0 :: "buf \<Rightarrow> u8 list list \<Rightarrow> 'a \<Rightarrow> 'a bcache_scheme" where
  "cache0 b md x =
     con0 \<lparr>bufs = [b, unused1],
           bhead = \<lparr>flags = 0, bdev = 0, blockno = 0, block = nolock, refcnt = 0, bprev = Buf 1, bnext = Buf 0,
                    qnext = None, data = []\<rparr>,
           memdisk = md, disksize = int (length md), dwrites = [], \<dots> = x\<rparr>"

lemma cache0_sel [simp]:
  "bufs (cache0 b md x) = [b, unused1]" "memdisk (cache0 b md x) = md" "dwrites (cache0 b md x) = []"
  "disksize (cache0 b md x) = int (length md)" "kidle 0 0 (cache0 b md x)" "pid (procs (cache0 b md x) ! 0) = 1"
  by (simp_all add: cache0_def con0_kidle) (simp_all add: con0_def)

lemma buf0_sel [simp]:
  "is_valid dirty1" "is_dirty dirty1" "refcnt dirty1 = 0" "blockno dirty1 = 1" "bdev dirty1 = 1" "slocked (block dirty1) = 0"
  "bprev dirty1 = Head" "bnext dirty1 = Buf 1" "data dirty1 = replicate BSIZE 7"
  "\<not> is_valid unused1" "\<not> is_dirty unused1" "refcnt unused1 = 0" "blockno unused1 = 0" "bdev unused1 = 0" "slocked (block unused1) = 0"
  by (simp_all add: dirty1_def unused1_def is_valid_def is_dirty_def B_VALID_def B_DIRTY_def nolock_def)

lemma unused0_sel [simp]:
  "\<not> is_valid unused0" "\<not> is_dirty unused0" "refcnt unused0 = 0" "bdev unused0 = 0" "slocked (block unused0) = 0"
  "bprev unused0 = Head" "bnext unused0 = Buf 1"
  by (simp_all add: unused0_def)

lemma cache0_dll:
  assumes "bprev b = Head" "bnext b = Buf 1"
  shows "dll (cache0 b md x) [0, 1]"
  using assms by (simp add: dll_def cache0_def con0_def nx_def pv_def getb_def unused1_def)

lemma cache0_BI:
  assumes "bprev b = Head" "bnext b = Buf 1" "bdev b = 1 \<or> bdev b = 0" "buf_ok 1 md b" "length md < 2 ^ 31"
  shows "BI 0 0 (cache0 b md x)"
proof -
  have "dll (cache0 b md x) [0, 1]"
    using assms(1,2) by (rule cache0_dll)
  then have "\<exists>xs. dll (cache0 b md x) xs \<and> set xs = {..<Suc (Suc 0)}"
    by (intro exI [of _ "[0, 1]"]) auto
  moreover have "buf_ok 1 md unused1"
    by (simp add: buf_ok_def)
  moreover have "cached_once [b, unused1]"
    by (auto simp: cached_once_def less_Suc_eq)
  ultimately have "binv 1 (cache0 b md x)"
    using assms(4,5) by (simp add: binv_def)
  then show ?thesis
    by (simp add: BI_def)
qed

section \<open>Theorems\<close>

text \<open>
  C20. The buffer cache gives its callers the latest contents of a block. If no buffer holds block
  \<open>b\<close> and some buffer is free or caches it, \<open>bread\<close> returns a buffer with the contents of \<open>b\<close> as the
  kernel last left it, in memory or on the disk; it writes nothing to the disk, loses no newer
  contents of any block, and keeps the invariant.
\<close>
theorem bread_gives_block:
  assumes inv: "BI c p s" and b: "can_take s b"
  shows "\<exists>i s' t'. bread 1 b s = Ret i t' \<and> data (bufs t' ! i) = blk s b \<and> memdisk t' = memdisk s \<and>
    dwrites t' = dwrites s \<and> blk t' = blk s \<and> qt c {} s' t' \<and> BI c p s' \<and> bframe s s' \<and>
    view s' = (view s)\<lparr>vheld := insert (i, b) (vheld (view s))\<rparr>"
proof -
  have q: "qt c {} s s"
    by (rule qt_start) (rule BI_D(3) [OF inv])
  obtain i s' t' where 1: "bread 1 b s = Ret i t'" "qt c {} s' t'" "BI c p s'" "bframe s s'"
    "view s' = (view s)\<lparr>vheld := insert (i, b) (vheld (view s))\<rparr>" "i < length (bufs s')" "data (bufs s' ! i) = vblk (view s) b"
    using q inv b by (rule bread_ok)
  have "memdisk t' = memdisk s" "dwrites t' = dwrites s" "blk s' = blk s"
    using arg_cong [OF 1(5), of vdisk] arg_cong [OF 1(5), of vwrites] arg_cong [OF 1(5), of vblk]
    by (simp_all add: qt_bufs [OF 1(2)] view_def)
  moreover have "blk t' = blk s'"
    by (simp add: blk_def qt_bufs [OF 1(2)] fun_eq_iff split: option.splits)
  moreover have "data (bufs t' ! i) = blk s b"
    using 1(7) by (simp add: qt_bufs [OF 1(2)] view_def)
  ultimately show ?thesis
    using 1(1-5) by metis
qed

theorem bread_gives_block_witness:
  "\<exists>i t'. bread 1 1 (cache0 dirty1 [replicate BSIZE 0, replicate BSIZE 0] () :: bcache) = Ret i t' \<and>
     data (bufs t' ! i) = replicate BSIZE 7 \<and> memdisk t' = [replicate BSIZE 0, replicate BSIZE 0]"
proof -
  let ?s = "cache0 dirty1 [replicate BSIZE 0, replicate BSIZE 0] () :: bcache"
  have "BI 0 0 ?s"
    by (rule cache0_BI) (simp_all add: buf_ok_def)
  moreover have "vheld (view ?s) = {}" "1 \<in> vdirty (view ?s)"
    by (auto simp: view_def less_Suc_eq nth_Cons')
  then have "can_take ?s 1"
    by (simp add: can_take_def)
  moreover have "blk ?s 1 = replicate BSIZE 7"
    by (simp add: blk_def)
  ultimately show ?thesis
    using bread_gives_block [of 0 0 ?s 1] by auto
qed

text \<open>
  C30. The replacement policy. Of the buffers in the order \<open>as @ i # bs\<close> of their last use, \<open>bget\<close>
  recycles for a block that is not cached the least recently used one, \<open>i\<close>, that nobody references and
  that is not dirty. No other buffer changes.
\<close>
theorem bget_lru:
  assumes inv: "BI c p s" and xs: "dll s (as @ i # bs)" "set (as @ i # bs) = {..<length (bufs s)}"
    and no: "\<forall>k \<in> set (as @ i # bs). \<not> (bdev (bufs s ! k) = dev \<and> blockno (bufs s ! k) = b)"
    and i: "refcnt (bufs s ! i) = 0" "\<not> is_dirty (bufs s ! i)"
    and bs: "\<forall>k \<in> set bs. refcnt (bufs s ! k) \<noteq> 0 \<or> is_dirty (bufs s ! k)"
  shows "\<exists>t'. bget dev b s = Ret i t' \<and> bufs t' = (bufs s)[i := bget_miss (pid (procs s ! p)) dev b (bufs s ! i)]"
proof -
  have q: "qt c {} s s"
    by (rule qt_start) (rule BI_D(3) [OF inv])
  have n: "first_buf (\<lambda>k. bdev k = dev \<and> blockno k = b) (bufs s) (as @ i # bs) = None"
    using no unfolding first_buf_None by blast
  have "first_buf (\<lambda>b. refcnt b = 0 \<and> flags b AND B_DIRTY = 0) (bufs s) (zs @ i # ys) = Some i"
    if "\<forall>k \<in> set zs. refcnt (bufs s ! k) \<noteq> 0 \<or> is_dirty (bufs s ! k)" for zs ys
    using that i by (induction zs) (auto simp: is_dirty_def)
  from this [of "rev bs" "rev as"] have f: "first_buf (\<lambda>b. refcnt b = 0 \<and> flags b AND B_DIRTY = 0) (bufs s) (rev (as @ i # bs)) = Some i"
    using bs by simp
  obtain t' where "bget dev b s = Ret i t'" "qt c {} (upd_buf i (bget_miss (pid (procs s ! p)) dev b) s) t'"
    using q inv xs n f by (rule bget_uncached)
  then show ?thesis
    using qt_bufs(1) by (fastforce simp: upd_buf_def)
qed

theorem bget_lru_witness:
  "\<exists>t'. bget 1 0 (cache0 dirty1 [replicate BSIZE 0, replicate BSIZE 0] () :: bcache) = Ret 1 t' \<and>
     bufs t' = [dirty1, bget_miss 1 1 0 unused1]"
proof -
  let ?s = "cache0 dirty1 [replicate BSIZE 0, replicate BSIZE 0] () :: bcache"
  have "BI 0 0 ?s"
    by (rule cache0_BI) (simp_all add: buf_ok_def)
  moreover have "dll ?s ([0] @ 1 # [])" "set ([0] @ 1 # []) = {..<length (bufs ?s)}"
    using cache0_dll [of dirty1] by auto
  ultimately have "\<exists>t'. bget 1 0 ?s = Ret 1 t' \<and>
      bufs t' = (bufs ?s)[1 := bget_miss (pid (procs ?s ! 0)) 1 0 (bufs ?s ! 1)]"
    by (rule bget_lru) simp_all
  then show ?thesis
    by simp
qed

text \<open>
  C31. \<open>brelse\<close> makes the buffer it releases the most recently used one, and leaves the order of the
  others as it was.
\<close>
theorem brelse_to_front:
  assumes inv: "BI c p s" and xs: "dll s (as @ i # bs)" and h: "(i, b) \<in> vheld (view s)"
  shows "\<exists>t'. brelse i s = Ret () t' \<and> dll t' (i # as @ bs) \<and> refcnt (bufs t' ! i) = 0"
proof -
  have q: "qt c {} s s"
    by (rule qt_start) (rule BI_D(3) [OF inv])
  obtain t' where t': "brelse i s = Ret () t'" "qt c {} (to_front i (upd_buf i released s)) t'"
    using q inv h by (rule brelse_run)
  have i: "i < length (bufs s)"
    by (rule heldD(1) [OF inv h])
  have "dll (to_front i (upd_buf i released s)) (i # as @ bs)"
    by (rule dll_to_front, rule dll_released [OF xs i])
  moreover have "refcnt (bufs (to_front i (upd_buf i released s)) ! i) = 0"
    using relinkedD(5) [OF links_onlyD(2) [OF links_only_to_front], of i "upd_buf i released s" i] i
    by (simp add: released_def)
  ultimately show ?thesis
    using t' dll_qt [OF t'(2)] qt_bufs(1) [OF t'(2)] by auto
qed

theorem brelse_to_front_witness:
  "\<exists>t'. brelse 0 (cache0 (bget_hit 1 dirty1) [replicate BSIZE 0, replicate BSIZE 0] () :: bcache) = Ret () t' \<and> dll t' [0, 1]"
proof -
  let ?s = "cache0 (bget_hit 1 dirty1) [replicate BSIZE 0, replicate BSIZE 0] () :: bcache"
  have inv: "BI 0 0 ?s"
    by (rule cache0_BI) (simp_all add: buf_ok_def bget_hit_def)
  have xs: "dll ?s ([] @ 0 # [1])"
    using cache0_dll [of "bget_hit 1 dirty1"] by (simp add: bget_hit_def)
  have h: "(0, 1) \<in> vheld (view ?s)"
    by (simp add: view_def bget_hit_def)
  show ?thesis
    using brelse_to_front [OF inv xs h] by auto
qed

end
