(* ===== verification/Pipes.thy ===== *)
theory Pipes
  imports Fifo Sched File Bcache
begin

text \<open>Facts on pipe.c: a pipe is a queue of at most \<open>PIPESIZE\<close> bytes.\<close>

section \<open>The queue\<close>

definition pipe_ok :: "pipe \<Rightarrow> bool" where
  "pipe_ok k \<longleftrightarrow> length (pdata k) = 512 \<and> unat (nwrite k - nread k) \<le> 512"

definition pipe_items :: "pipe \<Rightarrow> u8 list" where
  "pipe_items k = ring 512 (pdata k) (nread k) (nwrite k)"

definition pipe_put :: "u8 \<Rightarrow> pipe \<Rightarrow> pipe" where
  "pipe_put b k = k\<lparr>pdata := (pdata k)[pipe_ix (nwrite k) := b], nwrite := nwrite k + 1\<rparr>"

definition pipe_front :: "pipe \<Rightarrow> u8" where "pipe_front k = pdata k ! pipe_ix (nread k)"
definition pipe_rest :: "pipe \<Rightarrow> pipe" where "pipe_rest k = k\<lparr>nread := nread k + 1\<rparr>"
definition pipe_full :: "pipe \<Rightarrow> bool" where "pipe_full k \<longleftrightarrow> nwrite k = nread k + PIPESIZE"
definition pipe_empty :: "pipe \<Rightarrow> bool" where "pipe_empty k \<longleftrightarrow> nread k = nwrite k"

lemma pipe_ix_eq: "pipe_ix i = unat i mod 512"
  by (simp add: pipe_ix_def PIPESIZE_def unat_mod)

lemma pipe_full_unat: "pipe_full k \<longleftrightarrow> unat (nwrite k - nread k) = 512"
proof -
  have "pipe_full k \<longleftrightarrow> nwrite k - nread k = 512"
    by (auto simp: pipe_full_def PIPESIZE_def algebra_simps)
  also have "\<dots> \<longleftrightarrow> unat (nwrite k - nread k) = 512"
    by (simp add: word_eq_unat)
  finally show ?thesis .
qed

interpretation pq: bounded_fifo pipe_ok pipe_items 512 pipe_put pipe_front pipe_rest pipe_full pipe_empty
proof
  fix q e
  assume ok: "pipe_ok q"
  show "length (pipe_items q) \<le> 512" "pipe_full q \<longleftrightarrow> length (pipe_items q) = 512"
    using ok by (simp_all add: pipe_items_def pipe_ok_def pipe_full_unat)
  show "pipe_empty q \<longleftrightarrow> pipe_items q = []"
    by (auto simp: pipe_empty_def pipe_items_def ring_def unat_eq_zero)
  show "pipe_ok (pipe_put e q)" "pipe_items (pipe_put e q) = pipe_items q @ [e]" if "\<not> pipe_full q"
    using ring_put(1) [where n = 512 and xs = "pdata q" and w = "nwrite q" and r = "nread q" and e = e]
      ring_put(2) [where n = 512 and xs = "pdata q" and w = "nwrite q" and r = "nread q"] ok that
    by (simp_all add: pipe_ok_def pipe_put_def pipe_items_def pipe_ix_eq pipe_full_unat)
  show "pipe_ok (pipe_rest q)" "pipe_items q = pipe_front q # pipe_items (pipe_rest q)" if "\<not> pipe_empty q"
    using ring_get(1) [where n = 512 and xs = "pdata q" and w = "nwrite q" and r = "nread q"]
      ring_get(2) [where n = 512 and w = "nwrite q" and r = "nread q"] ok that
    by (simp_all add: pipe_ok_def pipe_rest_def pipe_front_def pipe_items_def pipe_ix_eq pipe_empty_def le_diff_conv)
qed

section \<open>The loops, on the queue\<close>

lemma upd_pipe_at [simp]: "pipes (upd_pipe p g s) p = g (pipes s p)"
  by (simp add: upd_pipe_def)

lemma upd_pipe_upd [simp]: "upd_pipe p g (upd_pipe p h s) = upd_pipe p (\<lambda>k. g (h k)) s"
  by (simp add: upd_pipe_def)

lemma upd_pipe_id [simp]: "upd_pipe p (\<lambda>k. k) s = s"
  by (simp add: upd_pipe_def)

lemma upd_pipe_id' [simp]: "upd_pipe p id s = s"
  by (simp add: upd_pipe_def)

lemma payload_upd_pipe: "payload (upd_pipe p g)"
  by (simp add: payload_def upd_pipe_def)

lemma piperead_copy_drain:
  "piperead_copy p n s =
     (fst (drain pipe_empty pipe_front pipe_rest n (pipes s p)),
      upd_pipe p (\<lambda>k. snd (drain pipe_empty pipe_front pipe_rest n k)) s)"
proof (induction n arbitrary: s)
  case (Suc n)
  show ?case
    using Suc.IH [of "upd_pipe p pipe_rest s"]
    by (simp add: Let_def case_prod_unfold pipe_empty_def pipe_front_def pipe_rest_def upd_pipe_def)
qed simp

lemma pipewrite_loop_puts:
  assumes "length (pipe_items (pipes s p)) + length bs \<le> 512" "pipe_ok (pipes s p)"
  shows "pipewrite_loop p n (bs @ cs) s = pipewrite_loop p n cs (upd_pipe p (fold pipe_put bs) s)"
  using assms
proof (induction bs arbitrary: s)
  case (Cons b bs)
  let ?s = "upd_pipe p (pipe_put b) s"
  have f: "\<not> pipe_full (pipes s p)"
    using Cons.prems by (simp add: pq.full_iff)
  have "pipewrite_loop p n (bs @ cs) ?s = pipewrite_loop p n cs (upd_pipe p (fold pipe_put bs) ?s)"
    using Cons.prems f by (intro Cons.IH) (simp_all add: pq.put_ok pq.put_items)
  then show ?case
    using f by (simp add: pipe_full_def Let_def comp_def pipe_put_def [abs_def])
qed simp

section \<open>Sleeping after a wakeup\<close>

lemma qt_sleep_on:
  assumes q: "qt c {l} s t" and k: "kidle c p s" "ncli (cpus s ! c) = 0" "state (procs s ! p) \<noteq> SLEEPING" and l: "l \<noteq> Lptable"
  obtains t' where "sleep_on ch l t = Slp t'" "lock_free l t'"
    "procs t' ! p = (procs s ! p)\<lparr>pchan := Some ch, state := SLEEPING\<rparr>"
    "\<exists>i a b q. t' = s\<lparr>IF := i, cpus := a, locks := b, procs := q\<rparr>"
proof -
  let ?s = "s\<lparr>procs := procs t\<rparr>"
  have w: "procs_wk (procs s) (procs t)" by (rule qt_wk [OF q])
  obtain i a b pr where t: "t = s\<lparr>IF := i, cpus := a, locks := b, procs := pr\<rparr>"
    using q by (rule qtE)
  have "t = ?s\<lparr>IF := i, cpus := a, locks := b\<rparr>" by (simp add: t)
  then have x: "qx c {l} ?s t"
    unfolding qx_def using qt_sync_rel [OF q] by auto
  have p: "p < length (procs t)" and e: "procs t ! p = procs s ! p"
    using procs_wkD(1) [OF w] kidleD(4) [OF k(1)] procs_wk_running [OF w _ k(3)] by simp_all
  have k': "kidle c p ?s" "ncli (cpus ?s ! c) = 0"
    using k p by (simp_all add: kidle_def cpu_ok_def this_cpu_def lock_free_def)
  let ?u = "upd_proc p (\<lambda>r. r\<lparr>pchan := Some ch, state := SLEEPING\<rparr>) ?s"
  obtain b t' where 2: "sleep_enter ch (Some l) t = Ret b t'" "qx c {Lptable} ?u t'"
    using x k' l by (rule sleep_enter_ok)
  have "lock_free l t'"
    using locks_relD(3) [OF sync_relD(10) [OF qx_sync [OF 2(2)]], of l] l kidleD(2) [OF k(1), of l]
    by (simp add: lock_free_def upd_proc_def)
  moreover have "procs t' ! p = (procs s ! p)\<lparr>pchan := Some ch, state := SLEEPING\<rparr>"
    using qx_procs(1) [OF 2(2)] p e by (simp add: upd_proc_def)
  moreover have "\<exists>i a b q. t' = s\<lparr>IF := i, cpus := a, locks := b, procs := q\<rparr>"
  proof -
    obtain i a b where "t' = ?u\<lparr>IF := i, cpus := a, locks := b\<rparr>" using 2(2) by (rule qxE)
    then have "t' = s\<lparr>IF := i, cpus := a, locks := b, procs := procs ?u\<rparr>" by (simp add: upd_proc_def)
    then show ?thesis by blast
  qed
  ultimately show ?thesis
    using that 2(1) by (simp add: sleep_on_def)
qed

lemma qt_pipes: "qt c L s t \<Longrightarrow> pipes t = pipes s"
  by (auto elim!: qtE)

section \<open>Writing\<close>

text \<open>The end of the loop, when everything is in the queue.\<close>

lemma pipewrite_done:
  assumes q: "qt c {Lpipe p} s t" and k: "kidle c i s"
  obtains t' where "pipewrite_loop p n [] t = Ret n t'" "qt c {} s t'"
proof -
  have l: "lock_free Lptable s" "Lptable \<notin> {Lpipe p}"
    using kidleD(2) [OF k] by simp_all
  obtain t1 where 1: "wakeup (Cnread p) t = Ret () t1" "qt c {Lpipe p} s t1"
    using q l by (rule qt_wakeup)
  obtain t2 where 2: "release (Lpipe p) t1 = Ret () t2" "qt c {} s t2"
    using 1(2) by (rule qt_release0)
  show ?thesis
    by (rule that [OF _ 2(2)]) (simp add: 1(1) 2(1))
qed

text \<open>The loop on a full queue.\<close>

lemma pipewrite_blocked:
  assumes q: "qt c {Lpipe p} s t" and k: "kidle c i s" and f: "pipe_full (pipes s p)"
    and st: "\<not> readopen (pipes s p) \<or> killed (procs s ! i)"
  obtains t' where "pipewrite_loop p n (b # bs) t = Ret (-1) t'" "qt c {} s t'"
proof -
  have cp: "cproc (cpus s ! c) = Some i" by (rule kidleD(3) [OF k])
  obtain t1 where 1: "with_myproc t (\<lambda>i s. Ret (killed (procs s ! i)) s) = Ret (killed (procs t1 ! i)) t1" "qt c {Lpipe p} s t1"
    using q cp by (rule qt_with_myproc)
  have kl: "killed (procs t1 ! i) = killed (procs s ! i)"
    by (rule procs_wk_killed [OF qt_wk [OF 1(2)] kidleD(4) [OF k]])
  obtain t2 where 2: "release (Lpipe p) t1 = Ret () t2" "qt c {} s t2"
    using 1(2) by (rule qt_release0)
  obtain t3 where 3: "release (Lpipe p) t = Ret () t3" "qt c {} s t3"
    using q by (rule qt_release0)
  have e: "pipes t p = pipes s p" using qt_pipes [OF q] by simp
  show ?thesis
  proof (cases "readopen (pipes s p)")
    case True
    then show ?thesis
      using 1(1) 2 e f st kl by (intro that [of t2]) (simp_all add: pipe_full_def)
  next
    case False
    then show ?thesis
      using 3 e f by (intro that [of t3]) (simp_all add: pipe_full_def)
  qed
qed

lemma pipewrite_sleeps:
  assumes q: "qt c {Lpipe p} s t" and k: "kidle c i s" "ncli (cpus s ! c) = 0" "state (procs s ! i) \<noteq> SLEEPING"
    and f: "pipe_full (pipes s p)" and st: "readopen (pipes s p)" "\<not> killed (procs s ! i)"
  obtains t' where "pipewrite_loop p n (b # bs) t = Slp t'" "pipes t' = pipes s" "lock_free (Lpipe p) t'"
    "procs t' ! i = (procs s ! i)\<lparr>pchan := Some (Cnwrite p), state := SLEEPING\<rparr>"
proof -
  have cp: "cproc (cpus s ! c) = Some i" by (rule kidleD(3) [OF k(1)])
  obtain t1 where 1: "with_myproc t (\<lambda>i s. Ret (killed (procs s ! i)) s) = Ret (killed (procs t1 ! i)) t1" "qt c {Lpipe p} s t1"
    using q cp by (rule qt_with_myproc)
  have kl: "\<not> killed (procs t1 ! i)"
    using procs_wk_killed [OF qt_wk [OF 1(2)] kidleD(4) [OF k(1)]] st by simp
  have l: "lock_free Lptable s" "Lptable \<notin> {Lpipe p}" "Lpipe p \<noteq> Lptable"
    using kidleD(2) [OF k(1)] by simp_all
  obtain t2 where 2: "wakeup (Cnread p) t1 = Ret () t2" "qt c {Lpipe p} s t2"
    using 1(2) l(1,2) by (rule qt_wakeup)
  obtain t3 where 3: "sleep_on (Cnwrite p) (Lpipe p) t2 = (Slp t3 :: (int, 'a ftable_scheme) kres)" "lock_free (Lpipe p) t3"
    "procs t3 ! i = (procs s ! i)\<lparr>pchan := Some (Cnwrite p), state := SLEEPING\<rparr>"
    "\<exists>i a b q. t3 = s\<lparr>IF := i, cpus := a, locks := b, procs := q\<rparr>"
    using 2(2) k l(3) by (rule qt_sleep_on)
  have "pipes t3 = pipes s" using 3(4) by auto
  moreover have "pipes t p = pipes s p" using qt_pipes [OF q] by simp
  ultimately show ?thesis
    using 1(1) 2(1) 3 f st kl by (intro that [of t3]) (simp_all add: pipe_full_def)
qed

section \<open>Properties\<close>

text \<open>
  C12. \<open>pipewrite\<close> implements the append of a bounded queue: if the bytes fit, they are all appended
  and their number is returned; otherwise as many as fit are appended, and then the writer gets -1
  if nobody reads or it is killed, and else sleeps on \<open>nwrite\<close> with the lock of the pipe free.
\<close>

theorem pipewrite_appends:
  assumes k: "kidle c i s" "ncli (cpus s ! c) = 0" "state (procs s ! i) = RUNNING" and ok: "pipe_ok (pipes s p)"
    and room: "room = 512 - length (pipe_items (pipes s p))"
  shows "\<exists>t. pipe_ok (pipes t p) \<and> pipe_items (pipes t p) = pipe_items (pipes s p) @ take room bs \<and>
    (if length bs \<le> room then pipewrite p bs s = Ret (int (length bs)) t
     else if \<not> readopen (pipes s p) \<or> killed (procs s ! i) then pipewrite p bs s = Ret (-1) t
     else pipewrite p bs s = Slp t \<and> lock_free (Lpipe p) t \<and>
       procs t ! i = (procs s ! i)\<lparr>pchan := Some (Cnwrite p), state := SLEEPING\<rparr>)"
proof -
  let ?g = "fold pipe_put (take room bs)" and ?n = "int (length bs)"
  obtain t1 where 1: "acquire (Lpipe p) s = Ret () t1" "qt c {Lpipe p} s t1"
    using qt_start [OF kidleD(1) [OF k(1)]] kidleD(2) [OF k(1)] by (rule qt_acquire0)
  have le: "length (pipe_items (pipes s p)) + length (take room bs) \<le> 512"
    using room pq.bound [OF ok] by simp
  note pt = pq.puts [OF ok le]
  have q2: "qt c {Lpipe p} (upd_pipe p ?g s) (upd_pipe p ?g t1)"
    by (rule qt_payload [OF payload_upd_pipe 1(2)])
  have W: "pipewrite p bs s = pipewrite_loop p ?n (drop room bs) (upd_pipe p ?g t1)"
    using 1(1) pipewrite_loop_puts [of t1 p "take room bs" ?n "drop room bs"] le ok
    by (simp add: pipewrite_def qt_pipes [OF 1(2)])
  have k2: "kidle c i (upd_pipe p ?g s)" "ncli (cpus (upd_pipe p ?g s) ! c) = 0" "state (procs (upd_pipe p ?g s) ! i) \<noteq> SLEEPING"
    using k by (simp_all add: kidle_payload [OF payload_upd_pipe] payloadD [OF payload_upd_pipe])
  have pr: "procs (upd_pipe p ?g s) = procs s" by (simp add: upd_pipe_def)
  have ro: "readopen (fold pipe_put xs r) = readopen r" for xs r
    by (induction xs arbitrary: r) (simp_all add: pipe_put_def)
  show ?thesis
  proof (cases "length bs \<le> room")
    case True
    obtain t2 where 2: "pipewrite_loop p ?n [] (upd_pipe p ?g t1) = Ret ?n t2" "qt c {} (upd_pipe p ?g s) t2"
      using q2 k2(1) by (rule pipewrite_done)
    then show ?thesis
      using W True pt qt_pipes [OF 2(2)] by (intro exI [of _ t2]) simp
  next
    case False
    then obtain b cs where d: "drop room bs = b # cs"
      by (cases "drop room bs") auto
    have f: "pipe_full (pipes (upd_pipe p ?g s) p)"
      using pt False room pq.bound [OF ok] by (simp add: pq.full_iff)
    show ?thesis
    proof (cases "\<not> readopen (pipes s p) \<or> killed (procs s ! i)")
      case True
      then have st: "\<not> readopen (pipes (upd_pipe p ?g s) p) \<or> killed (procs (upd_pipe p ?g s) ! i)"
        by (simp add: pr ro)
      obtain t2 where 2: "pipewrite_loop p ?n (b # cs) (upd_pipe p ?g t1) = Ret (-1) t2" "qt c {} (upd_pipe p ?g s) t2"
        using q2 k2(1) f st by (rule pipewrite_blocked)
      then show ?thesis
        using W d True False pt qt_pipes [OF 2(2)] by (intro exI [of _ t2]) (simp del: pipewrite_loop.simps)
    next
      case nb: False
      then have st: "readopen (pipes (upd_pipe p ?g s) p)" "\<not> killed (procs (upd_pipe p ?g s) ! i)"
        by (simp_all add: pr ro)
      obtain t2 where 2: "pipewrite_loop p ?n (b # cs) (upd_pipe p ?g t1) = Slp t2" "pipes t2 = pipes (upd_pipe p ?g s)"
        "lock_free (Lpipe p) t2"
        "procs t2 ! i = (procs (upd_pipe p ?g s) ! i)\<lparr>pchan := Some (Cnwrite p), state := SLEEPING\<rparr>"
        using q2 k2 f st by (rule pipewrite_sleeps)
      then show ?thesis
        using W d nb False pt by (intro exI [of _ t2]) (simp add: pr del: pipewrite_loop.simps)
    qed
  qed
qed

text \<open>
  C13. \<open>piperead\<close> implements the removal from the front of the queue: with bytes in it, or with no writer
  left, it returns the first \<open>n\<close> of them, or all if there are fewer (so 0 at the end of the data),
  and removes exactly those; with the queue empty and a writer left it returns -1 if the process is
  killed and sleeps on \<open>nread\<close> otherwise, leaving the queue as it is.
\<close>

theorem piperead_removes:
  assumes k: "kidle c i s" "ncli (cpus s ! c) = 0" "state (procs s ! i) = RUNNING" and ok: "pipe_ok (pipes s p)"
  shows "\<exists>t. pipe_ok (pipes t p) \<and>
    (if pipe_items (pipes s p) = [] \<and> writeopen (pipes s p)
     then pipes t = pipes s \<and>
       (if killed (procs s ! i) then piperead p n s = Ret (-1, []) t
        else piperead p n s = Slp t \<and> lock_free (Lpipe p) t \<and>
          procs t ! i = (procs s ! i)\<lparr>pchan := Some (Cnread p), state := SLEEPING\<rparr>)
     else pipe_items (pipes t p) = drop (nat n) (pipe_items (pipes s p)) \<and>
       piperead p n s = Ret (int (length (take (nat n) (pipe_items (pipes s p)))), take (nat n) (pipe_items (pipes s p))) t)"
proof -
  obtain t1 where 1: "acquire (Lpipe p) s = Ret () t1" "qt c {Lpipe p} s t1"
    using qt_start [OF kidleD(1) [OF k(1)]] kidleD(2) [OF k(1)] by (rule qt_acquire0)
  have e: "pipes t1 = pipes s" by (rule qt_pipes [OF 1(2)])
  have l: "Lpipe p \<noteq> Lptable" "lock_free Lptable s" "Lptable \<notin> {Lpipe p}" using kidleD(2) [OF k(1)] by simp_all
  have em: "nread (pipes s p) = nwrite (pipes s p) \<longleftrightarrow> pipe_items (pipes s p) = []"
    using pq.empty_iff [OF ok] by (simp add: pipe_empty_def)
  show ?thesis
  proof (cases "pipe_items (pipes s p) = [] \<and> writeopen (pipes s p)")
    case True
    have cp: "cproc (cpus s ! c) = Some i" by (rule kidleD(3) [OF k(1)])
    let ?f = "\<lambda>i s. if killed (procs s ! i) then bnd (release (Lpipe p) s) (\<lambda>_ s. Ret (-1 :: int, [] :: u8 list) s)
        else sleep_on (Cnread p) (Lpipe p) s"
    obtain t2 where 2: "with_myproc t1 ?f = ?f i t2" "qt c {Lpipe p} s t2"
      using 1(2) cp by (rule qt_with_myproc)
    have kl: "killed (procs t2 ! i) = killed (procs s ! i)"
      by (rule procs_wk_killed [OF qt_wk [OF 2(2)] kidleD(4) [OF k(1)]])
    obtain t3 where 3: "release (Lpipe p) t2 = Ret () t3" "qt c {} s t3"
      using 2(2) by (rule qt_release0)
    have ns: "state (procs s ! i) \<noteq> SLEEPING" using k(3) by simp
    obtain t4 where 4: "sleep_on (Cnread p) (Lpipe p) t2 = (Slp t4 :: (int \<times> u8 list, 'a ftable_scheme) kres)" "lock_free (Lpipe p) t4"
      "procs t4 ! i = (procs s ! i)\<lparr>pchan := Some (Cnread p), state := SLEEPING\<rparr>"
      "\<exists>i a b q. t4 = s\<lparr>IF := i, cpus := a, locks := b, procs := q\<rparr>"
      using 2(2) k(1,2) ns l(1) by (rule qt_sleep_on)
    have "piperead p n s = ?f i t2"
      using 1(1) True em 2(1) by (simp add: piperead_def piperead_loop_def e)
    then show ?thesis
      using True ok kl 3 4 qt_pipes [OF 3(2)]
      by (cases "killed (procs s ! i)") (fastforce intro: exI [of _ t3] exI [of _ t4])+
  next
    case False
    let ?d = "drain pipe_empty pipe_front pipe_rest (nat n)"
    let ?g = "\<lambda>k. snd (?d k)"
    note gt = pq.gets [OF ok, of "nat n"]
    have q2: "qt c {Lpipe p} (upd_pipe p ?g s) (upd_pipe p ?g t1)"
      by (rule qt_payload [OF payload_upd_pipe 1(2)])
    have l2: "lock_free Lptable (upd_pipe p ?g s)"
      using l(2) by (simp add: payload_sync [OF payload_upd_pipe])
    obtain t2 where 2: "wakeup (Cnwrite p) (upd_pipe p ?g t1) = Ret () t2" "qt c {Lpipe p} (upd_pipe p ?g s) t2"
      using q2 l2 l(3) by (rule qt_wakeup)
    obtain t3 where 3: "release (Lpipe p) t2 = Ret () t3" "qt c {} (upd_pipe p ?g s) t3"
      using 2(2) by (rule qt_release0)
    have "piperead p n s = Ret (int (length (fst (?d (pipes s p)))), fst (?d (pipes s p))) t3"
      using 1(1) False em 2(1) 3(1) by (auto simp: piperead_def piperead_loop_def e piperead_copy_drain)
    then show ?thesis
      using False gt qt_pipes [OF 3(2)] by (intro exI [of _ t3]) simp
  qed
qed

text \<open>A pipe with one byte in it, and the indices about to wrap.\<close>

definition pipe0 :: pipe where
  "pipe0 = \<lparr>pdata = replicate 512 7, nread = 0xffffffff, nwrite = 0, readopen = True, writeopen = True\<rparr>"

definition pstate0 :: ftable where
  "pstate0 = cache0 unused0 [] \<lparr>log_start = 2, log_size = 2, outstanding = 0, committing = False, log_dev = 1, lh_n = 0, lh_block = [],
     sb = superblock_of [], inodes = [], devsw = [], files = [], pipes = (\<lambda>_. pipe0)\<rparr>"

lemma pstate0_ok:
  "kidle 0 0 pstate0" "ncli (cpus pstate0 ! 0) = 0" "state (procs pstate0 ! 0) = RUNNING" "pipe_ok (pipes pstate0 q)"
  "pipe_items (pipes pstate0 q) = [7]" "\<not> killed (procs pstate0 ! 0)" "pipes pstate0 q = pipe0"
proof -
  have p: "pipes pstate0 q = pipe0" for q by (simp add: pstate0_def cache0_def con0_def)
  then show "pipes pstate0 q = pipe0" .
  show "pipe_ok (pipes pstate0 q)" by (simp add: p pipe_ok_def pipe0_def)
  show "pipe_items (pipes pstate0 q) = [7]" by (simp add: p pipe0_def pipe_items_def ring_def)
  show "kidle 0 0 pstate0" by (simp add: pstate0_def)
qed (simp_all add: pstate0_def cache0_def con0_def)

theorem pipewrite_appends_witness:
  "\<exists>t. pipewrite 4096 [1, 2, 3] pstate0 = Ret 3 t \<and> pipe_items (pipes t 4096) = [7, 1, 2, 3]"
  using pipewrite_appends [OF pstate0_ok(1-4) refl, of 4096 "[1, 2, 3]"] by (auto simp: pstate0_ok(5))

theorem piperead_removes_witness:
  "\<exists>t. piperead 4096 10 pstate0 = Ret (1, [7]) t \<and> pipe_items (pipes t 4096) = []"
  using piperead_removes [OF pstate0_ok(1-4), of 4096 10] by (auto simp: pstate0_ok(5))

text \<open>What is written into an empty pipe is read back in order.\<close>

lemma pipe_roundtrip:
  assumes "pipe_ok k" "pipe_empty k" "length bs \<le> 512"
  shows "fst (drain pipe_empty pipe_front pipe_rest (length bs) (fold pipe_put bs k)) = bs"
  using assms by (rule pq.puts_gets)

end
