(* ===== verification/Line.thy ===== *)
theory Line
  imports Fifo Sched
begin

text \<open>
  Facts on console.c: the editing of the input line in the circular buffer, and the conversion of
  integers to text.
\<close>

section \<open>The input line\<close>

text \<open>
  The characters that readers may take, and the line that is being typed. A line being typed has no
  newline, since a newline ends it.
\<close>

definition input_all :: "'a console_scheme \<Rightarrow> u8 list" where
  "input_all s = ring 128 (inbuf s) (in_r s) (in_e s)"

definition input_ready :: "'a console_scheme \<Rightarrow> u8 list" where
  "input_ready s = take (unat (in_w s - in_r s)) (input_all s)"

definition input_line :: "'a console_scheme \<Rightarrow> u8 list" where
  "input_line s = drop (unat (in_w s - in_r s)) (input_all s)"

definition input_ok :: "'a console_scheme \<Rightarrow> bool" where
  "input_ok s \<longleftrightarrow> length (inbuf s) = 128 \<and> unat (in_e s - in_r s) \<le> 128 \<and>
     unat (in_w s - in_r s) \<le> unat (in_e s - in_r s) \<and> 10 \<notin> set (input_line s)"

text \<open>What a key does to the two.\<close>

definition key_line :: "int \<Rightarrow> u8 list \<times> u8 list \<Rightarrow> u8 list \<times> u8 list" where
  "key_line c l =
     (case l of (ready, line) \<Rightarrow>
      if c = KEY_LF \<or> c = KEY_RT \<or> c = Ctl CHR ''P'' then (ready, line)
      else if c = Ctl CHR ''U'' then (ready, [])
      else if c = Ctl CHR ''H'' \<or> c = 0x7f then (ready, butlast line)
      else if c = 0 \<or> length ready + length line \<ge> 128 then (ready, line)
      else
        let b = (if c = 13 then 10 else of_int c)
        in if b = 10 \<or> c = Ctl CHR ''D'' \<or> length ready + length line = 127 then (ready @ line @ [b], [])
           else (ready, line @ [b]))"

text \<open>Output leaves the input alone.\<close>

definition insame :: "'a console_scheme \<Rightarrow> 'a console_scheme \<Rightarrow> bool" where
  "insame s s' \<longleftrightarrow> inbuf s' = inbuf s \<and> in_r s' = in_r s \<and> in_w s' = in_w s \<and> in_e s' = in_e s"

lemma crt_set_insame: "crt_set i v s = Ret r s' \<Longrightarrow> insame s s'"
  by (auto simp: crt_set_def insame_def split: if_splits)

lemma crt_moves_insame:
  "(\<And>x s r s'. f x s = Ret r s' \<Longrightarrow> insame s s') \<Longrightarrow> mfor f xs s = Ret r s' \<Longrightarrow> insame s s'"
  by (induction xs arbitrary: s) (fastforce simp: insame_def elim!: bnd_RetE)+

lemma crt_move_insame: "crt_move i j s = Ret r s' \<Longrightarrow> insame s s'"
  by (auto simp: crt_move_def dest: crt_set_insame split: if_splits)

lemma cga_put_insame: "cga_put c pos s = Ret r s' \<Longrightarrow> insame s s'"
  by (auto simp: cga_put_def insame_def elim!: bnd_RetE dest!: crt_set_insame
      crt_moves_insame [rotated, OF _ crt_move_insame] split: if_splits)

lemma consputc_insame: "consputc c s = Ret r s' \<Longrightarrow> insame s s'"
  by (auto simp: consputc_def cgaputc_def cga_scroll_def Let_def uartputc_def insame_def elim!: bnd_RetE
      dest!: cga_put_insame crt_set_insame split: if_splits)

lemma insame_lines:
  assumes "insame s s'"
  shows "input_all s' = input_all s" "input_ready s' = input_ready s" "input_line s' = input_line s" "input_ok s' = input_ok s"
  using assms by (simp_all add: insame_def input_all_def input_ready_def input_line_def input_ok_def)

lemma in_ix_eq: "in_ix i = unat i mod 128"
  by (simp add: in_ix_def INPUT_BUF_def unat_mod)

lemma lines_all: "input_ready s @ input_line s = input_all s"
  by (simp add: input_ready_def input_line_def)

lemma length_lines:
  assumes "input_ok s"
  shows "length (input_ready s) = unat (in_w s - in_r s)" "length (input_line s) = unat (in_e s - in_r s) - unat (in_w s - in_r s)"
  using assms by (simp_all add: input_ready_def input_line_def input_ok_def input_all_def)

text \<open>A character is removed.\<close>

lemma ring_unput: "e \<noteq> r \<Longrightarrow> ring n xs r (e - 1) = butlast (ring n xs r e)" "e \<noteq> r \<Longrightarrow> unat (e - 1 - r) = unat (e - r) - 1"
proof -
  assume "e \<noteq> r"
  then have "e - r \<noteq> 0" by simp
  then have u: "unat (e - r) = Suc (unat (e - 1 - r))"
    by (simp add: diff_right_commute [of e 1 r] unat_minus_one unat_gt_0)
  then show "unat (e - 1 - r) = unat (e - r) - 1" by simp
  show "ring n xs r (e - 1) = butlast (ring n xs r e)"
    by (simp add: ring_def u)
qed

lemma in_erase:
  assumes ok: "input_ok s" and ne: "in_e s \<noteq> in_w s"
  shows "input_ok (s\<lparr>in_e := in_e s - 1\<rparr>)" "input_ready (s\<lparr>in_e := in_e s - 1\<rparr>) = input_ready s"
    "input_line (s\<lparr>in_e := in_e s - 1\<rparr>) = butlast (input_line s)" "input_line s \<noteq> []"
proof -
  have "in_e s - in_r s \<noteq> in_w s - in_r s" using ne by simp
  then have lt: "unat (in_w s - in_r s) < unat (in_e s - in_r s)"
    using ok by (simp add: input_ok_def word_eq_unat)
  then have er: "in_e s \<noteq> in_r s" by auto
  note u = ring_unput(1) [OF er, of 128 "inbuf s"] ring_unput(2) [OF er]
  show r: "input_ready (s\<lparr>in_e := in_e s - 1\<rparr>) = input_ready s"
    using lt u by (simp add: input_ready_def input_all_def take_butlast)
  show l: "input_line (s\<lparr>in_e := in_e s - 1\<rparr>) = butlast (input_line s)"
    using u by (simp add: input_line_def input_all_def drop_butlast)
  show "input_line s \<noteq> []"
    using length_lines(2) [OF ok] lt by auto
  show "input_ok (s\<lparr>in_e := in_e s - 1\<rparr>)"
    using ok lt u l by (auto simp: input_ok_def dest: in_set_butlastD)
qed

lemma in_store:
  fixes b :: u8
  assumes ok: "input_ok s" and lt: "unat (in_e s - in_r s) < 128"
  defines "s' \<equiv> s\<lparr>inbuf := (inbuf s)[in_ix (in_e s) := b], in_e := in_e s + 1\<rparr>"
  shows "input_ready s' = input_ready s" "input_line s' = input_line s @ [b]" "input_all s' = input_all s @ [b]"
    "unat (in_e s' - in_r s') = unat (in_e s - in_r s) + 1" "b \<noteq> 10 \<Longrightarrow> input_ok s'"
proof -
  have l: "length (inbuf s) = 128" "unat (in_w s - in_r s) \<le> unat (in_e s - in_r s)" "10 \<notin> set (input_line s)"
    using ok by (simp_all add: input_ok_def)
  note r = ring_put(1) [where n = 128 and xs = "inbuf s" and w = "in_e s" and r = "in_r s" and e = b]
    ring_put(2) [where n = 128 and xs = "inbuf s" and w = "in_e s" and r = "in_r s"]
  show a: "input_all s' = input_all s @ [b]"
    using r(1) l lt by (simp add: s'_def input_all_def in_ix_eq)
  show u: "unat (in_e s' - in_r s') = unat (in_e s - in_r s) + 1"
    using r(2) l lt by (simp add: s'_def)
  show "input_ready s' = input_ready s"
    using l by (simp add: input_ready_def a) (simp add: s'_def input_all_def)
  show n: "input_line s' = input_line s @ [b]"
    using l by (simp add: input_line_def a) (simp add: s'_def input_all_def)
  show "input_ok s'" if "b \<noteq> 10"
    using l lt u n that by (simp add: input_ok_def) (simp add: s'_def)
qed

text \<open>A line is handed to the readers.\<close>

lemma in_commit:
  assumes "length (inbuf s) = 128" "unat (in_e s - in_r s) \<le> 128"
  shows "input_ready (s\<lparr>in_w := in_e s\<rparr>) = input_all s" "input_line (s\<lparr>in_w := in_e s\<rparr>) = []" "input_ok (s\<lparr>in_w := in_e s\<rparr>)"
  using assms by (simp_all add: input_ready_def input_line_def input_all_def input_ok_def)

interpretation ci: sync_frame "\<lambda>s :: 'a console_scheme. (inbuf s, in_r s, in_w s, in_e s)"
  by unfold_locales simp_all

lemma wakeup_insame: "wakeup ch s = Ret r s' \<Longrightarrow> insame s (s' :: 'a console_scheme)"
  by (auto simp: wakeup_unfold wakeup1_def Let_def insame_def elim!: bnd_RetE dest!: ci.acquire_keeps ci.release_keeps)

section \<open>Keys\<close>

lemma console_char_line:
  assumes ok: "input_ok s" and c: "0 \<le> c" "c < 256" and r: "console_char c s = Ret u s'"
  shows "input_ok s' \<and> (input_ready s', input_line s') =
    (if c = 0 \<or> length (input_ready s) + length (input_line s) \<ge> 128 then (input_ready s, input_line s)
     else let b = (if c = 13 then 10 else of_int c)
       in if b = 10 \<or> c = Ctl CHR ''D'' \<or> length (input_ready s) + length (input_line s) = 127
          then (input_ready s @ input_line s @ [b], []) else (input_ready s, input_line s @ [b]))"
proof -
  have len: "length (input_ready s) + length (input_line s) = unat (in_e s - in_r s)"
    using length_lines [OF ok] ok by (simp add: input_ok_def)
  have full: "in_e s - in_r s < INPUT_BUF \<longleftrightarrow> unat (in_e s - in_r s) < 128"
    by (simp add: INPUT_BUF_def word_less_nat_alt)
  show ?thesis
  proof (cases "c = 0 \<or> length (input_ready s) + length (input_line s) \<ge> 128")
    case True
    then have "s' = s" using r len full by (auto simp: console_char_def split: if_splits)
    then show ?thesis using True ok by auto
  next
    case False
    define k :: int where "k = (if c = 13 then 10 else c)"
    define b :: u8 where "b = (if c = 13 then 10 else of_int c)"
    have b: "b = of_int k" by (simp add: b_def k_def)
    have b10: "b = 10 \<longleftrightarrow> k = 10" 
    proof -
      have "uint (of_int c :: u8) = c" using c by (simp add: uint_word_of_int)
      then show ?thesis using uint_word_of_int [where 'a = 8 and k = 10] by (auto simp: b_def k_def)
    qed
    let ?s = "s\<lparr>inbuf := (inbuf s)[in_ix (in_e s) := b], in_e := in_e s + 1\<rparr>"
    have lt: "unat (in_e s - in_r s) < 128" using False len by simp
    note st = in_store [OF ok lt, of b]
    obtain t where t: "consputc k ?s = Ret () t"
      and r': "(if k = 10 \<or> k = Ctl CHR ''D'' \<or> in_e t = in_r t + INPUT_BUF then wakeup Cinput (t\<lparr>in_w := in_e t\<rparr>) else Ret () t) = Ret () s'"
      using r False full lt by (auto simp: console_char_def Let_def b k_def [symmetric] elim!: bnd_RetE)
    have is1: "insame ?s t" by (rule consputc_insame [OF t])
    note l1 = insame_lines [OF is1]
    have fl: "in_e t = in_r t + INPUT_BUF \<longleftrightarrow> length (input_ready s) + length (input_line s) = 127"
    proof -
      have "in_e t = in_r t + INPUT_BUF \<longleftrightarrow> in_e t - in_r t = INPUT_BUF" by (auto simp: algebra_simps)
      also have "\<dots> \<longleftrightarrow> unat (in_e t - in_r t) = 128" by (simp add: word_eq_unat INPUT_BUF_def)
      finally show ?thesis using st(4) is1 len by (simp add: insame_def)
    qed
    have cd: "k = Ctl CHR ''D'' \<longleftrightarrow> c = Ctl CHR ''D''" by (simp add: k_def Ctl_def)
    show ?thesis
    proof (cases "k = 10 \<or> k = Ctl CHR ''D'' \<or> in_e t = in_r t + INPUT_BUF")
      case True
      have lt1: "length (inbuf t) = 128" "unat (in_e t - in_r t) \<le> 128"
        using is1 ok st(4) lt by (simp_all add: insame_def input_ok_def)
      have "insame (t\<lparr>in_w := in_e t\<rparr>) s'" using r' True by (auto dest: wakeup_insame)
      note l2 = insame_lines [OF this]
      have "input_all t = input_ready s @ input_line s @ [b]"
        using l1(1) st(3) lines_all [of s] by simp
      then show ?thesis
        using False True l2 in_commit [OF lt1] fl b10 cd by (auto simp: b_def [symmetric] Let_def)
    next
      case nf: False
      then have "s' = t" using r' by simp
      then show ?thesis
        using False nf l1 st fl b10 cd by (auto simp: b_def [symmetric] Let_def)
    qed
  qed
qed

lemma last_line:
  assumes ok: "input_ok s" and ne: "in_e s \<noteq> in_w s"
  shows "inbuf s ! in_ix (in_e s - 1) = last (input_line s)"
proof -
  have "input_line s \<noteq> []" by (rule in_erase(4) [OF assms])
  then have l: "last (input_line s) = last (input_all s)" "unat (in_e s - in_r s) \<noteq> 0"
    using lines_all [of s] by (auto simp: input_line_def input_all_def ring_def last_drop)
  then obtain m where m: "unat (in_e s - in_r s) = Suc m" by (cases "unat (in_e s - in_r s)") auto
  have "in_e s - in_r s = of_nat (Suc m)" 
    using m by (metis of_nat_unat ucast_id)
  then have e: "in_e s - 1 = in_r s + of_nat m" by (simp add: algebra_simps)
  have "last (input_all s) = inbuf s ! ((unat (in_r s) + m) mod 128)"
    by (simp add: input_all_def ring_def m)
  then show ?thesis
    using l(1) unat_mod_dvd [of 128 "in_r s" m] by (simp add: in_ix_eq e)
qed

lemma kill_line_line:
  "input_ok s \<Longrightarrow> kill_line n s = Ret u s' \<Longrightarrow> length (input_line s) \<le> n \<Longrightarrow>
    input_ok s' \<and> input_ready s' = input_ready s \<and> input_line s' = []"
proof (induction n arbitrary: s u)
  case (Suc n)
  show ?case
  proof (cases "in_e s = in_w s")
    case True
    then have "input_line s = []" by (simp add: input_line_def input_all_def)
    then show ?thesis using Suc.prems True by simp
  next
    case False
    note er = in_erase [OF Suc.prems(1) False]
    have "last (input_line s) \<noteq> 10"
      using Suc.prems(1) er(4) last_in_set [of "input_line s"] by (metis input_ok_def)
    then obtain t where t: "consputc BACKSPACE (s\<lparr>in_e := in_e s - 1\<rparr>) = Ret () t" "kill_line n t = Ret u s'"
      using Suc.prems(2) False last_line [OF Suc.prems(1) False] by (auto elim!: bnd_RetE)
    note l = insame_lines [OF consputc_insame [OF t(1)]]
    have "input_ok s' \<and> input_ready s' = input_ready t \<and> input_line s' = []"
      using Suc.prems(3) er l t(2) by (intro Suc.IH [of t u]) simp_all
    then show ?thesis using l er by simp
  qed
qed simp

lemma console_key_line:
  assumes ok: "input_ok s" and c: "0 \<le> c" "c < 256" and r: "console_key c d s = Ret u s'"
  shows "input_ok s' \<and> (input_ready s', input_line s') = key_line c (input_ready s, input_line s)"
proof -
  have ne: "in_e s = in_w s \<longleftrightarrow> input_line s = []"
    using in_erase(4) [OF ok] by (auto simp: input_line_def input_all_def)
  have lu: "unat (in_e s - in_w s) = length (input_line s)"
  proof -
    have "unat (in_e s - in_w s) = unat ((in_e s - in_r s) - (in_w s - in_r s))" by simp
    also have "\<dots> = unat (in_e s - in_r s) - unat (in_w s - in_r s)"
      using ok by (intro unat_sub) (simp add: input_ok_def word_le_nat_alt)
    finally show ?thesis using length_lines [OF ok] by simp
  qed
  consider (cur) "c = KEY_LF \<or> c = KEY_RT \<or> c = Ctl CHR ''P''" | (kl) "c = Ctl CHR ''U''"
    | (bs) "c = Ctl CHR ''H'' \<or> c = 0x7f"
    | (ch) "\<not> (c = KEY_LF \<or> c = KEY_RT \<or> c = Ctl CHR ''P'' \<or> c = Ctl CHR ''U'' \<or> c = Ctl CHR ''H'' \<or> c = 0x7f)"
    by blast
  then show ?thesis
  proof cases
    case cur
    then have "insame s s'"
      using r by (auto simp: console_key_def move_left_cursor_def move_right_cursor_def insame_def Let_def KEY_LF_def KEY_RT_def
          Ctl_def elim!: bnd_RetE split: if_splits)
    then show ?thesis using insame_lines [of s s'] ok cur by (auto simp: key_line_def)
  next
    case kl
    then have "kill_line (unat (in_e s - in_w s)) s = Ret () s'"
      using r by (auto simp: console_key_def KEY_LF_def KEY_RT_def Ctl_def elim!: bnd_RetE)
    then show ?thesis
      using kill_line_line [OF ok] kl lu by (auto simp: key_line_def KEY_LF_def KEY_RT_def Ctl_def)
  next
    case bs
    show ?thesis
    proof (cases "in_e s = in_w s")
      case True
      then show ?thesis using r bs ok ne by (auto simp: console_key_def key_line_def KEY_LF_def KEY_RT_def Ctl_def)
    next
      case False
      then have "consputc BACKSPACE (s\<lparr>in_e := in_e s - 1\<rparr>) = Ret () s'"
        using r bs by (auto simp: console_key_def KEY_LF_def KEY_RT_def Ctl_def elim!: bnd_RetE)
      from insame_lines [OF consputc_insame [OF this]] show ?thesis
        using in_erase [OF ok False] bs by (auto simp: key_line_def KEY_LF_def KEY_RT_def Ctl_def)
    qed
  next
    case ch
    then have "console_char c s = Ret () s'"
      using r by (auto simp: console_key_def elim!: bnd_RetE)
    from console_char_line [OF ok c this] show ?thesis
      using ch by (simp add: key_line_def)
  qed
qed

lemma consoleintr_loop_line:
  assumes "input_ok s" and "\<forall>c \<in> set cs. c < 256" and "consoleintr_loop cs d s = Ret u s'"
  shows "input_ok s' \<and> (input_ready s', input_line s') = fold key_line (takeWhile (\<lambda>c. 0 \<le> c) cs) (input_ready s, input_line s)"
  using assms
proof (induction cs arbitrary: s d)
  case (Cons c cs)
  show ?case
  proof (cases "c < 0")
    case True
    then show ?thesis using Cons.prems by simp
  next
    case False
    then obtain d' t where t: "console_key c d s = Ret d' t" "consoleintr_loop cs d' t = Ret u s'"
      using Cons.prems(3) by (auto elim!: bnd_RetE)
    have "input_ok t \<and> (input_ready t, input_line t) = key_line c (input_ready s, input_line s)"
      using Cons.prems False t(1) by (intro console_key_line) simp_all
    then show ?thesis
      using Cons.IH [of t d'] Cons.prems t(2) False by auto
  qed
qed simp

text \<open>
  C24. The editing of input lines: \<open>consoleintr\<close> does to the characters that are ready for readers and
  to the line being typed what the keys it gets say: a character is appended (a carriage return
  as a newline), a backspace removes the last one, control-U the whole line, the cursor keys and
  control-P change nothing; a newline, control-D or a full buffer hands the line to the readers;
  and the circular buffer stays well formed.
\<close>

theorem consoleintr_edits_line:
  assumes "input_ok s" and "\<forall>c \<in> set cs. c < 256" and "consoleintr cs s = Ret u s'"
  shows "input_ok s' \<and>
    (input_ready s', input_line s') = fold key_line (takeWhile (\<lambda>c. 0 \<le> c) cs) (input_ready s, input_line s)"
proof -
  obtain t1 d t2 t3 where 1: "acquire Lcons s = Ret () t1" "consoleintr_loop cs False t1 = Ret d t2" "release Lcons t2 = Ret () t3"
    and s': "s' = (if d then procdump t3 else t3)"
    using assms(3) by (auto simp: consoleintr_def elim!: bnd_RetE)
  have a: "insame s t1" "insame t2 t3"
    using ci.acquire_keeps [OF 1(1)] ci.release_keeps [OF 1(3)] by (simp_all add: insame_def)
  moreover have "insame t3 s'"
    by (simp add: s' insame_def procdump_def)
  ultimately have "insame t2 s'" by (simp add: insame_def)
  with a(1) show ?thesis
    using consoleintr_loop_line [OF _ assms(2) 1(2)] assms(1) insame_lines [of s t1] insame_lines [of t2 s'] by simp
qed

definition typed0 :: "unit console_scheme" where
  "typed0 = (case consoleintr [0x61, 8, 0x62, 13, -1] (con0 ()) of Ret _ s \<Rightarrow> s | _ \<Rightarrow> con0 ())"

lemma typed0_run: "consoleintr [0x61, 8, 0x62, 13, -1] (con0 ()) = Ret () typed0"
  unfolding typed0_def
  by (simp add: consoleintr_def con0_def acquire_def acq_enter_def acq_record_def xchg_locked_def pushcli_def popcli_def
    holding_def mycpu_def this_cpu_def upd_cpu_def upd_lock_def cli_def sti_def release_def rel_clear_def rel_unlock_def Let_def
    console_key_def console_char_def consputc_def cgaputc_def cga_put_def cga_scroll_def crt_set_def crt_move_def crt_ok_def
    uartputc_def KEY_LF_def KEY_RT_def Ctl_def BACKSPACE_def INPUT_BUF_def in_ix_def wakeup_unfold wakeup1_def upto_rec1)

theorem consoleintr_edits_line_witness: "(input_ready typed0, input_line typed0) = ([0x62, 10], [])"
proof -
  have "input_ok (con0 ())" "input_ready (con0 ()) = []" "input_line (con0 ()) = []"
    by (simp_all add: input_ok_def input_ready_def input_line_def input_all_def ring_def con0_def)
  then show ?thesis
    using consoleintr_edits_line [OF _ _ typed0_run] by (simp add: key_line_def KEY_LF_def KEY_RT_def Ctl_def)
qed

end
