(* ===== verification/Ulib.thy ===== *)
theory Ulib
  imports Cmem
begin

text \<open>
  The user library: ulib.c and printf.c. A user program is a tree of system calls (type \<open>uprog\<close>):
  at each call it continues as the answer of the kernel says. What the kernel answers is a
  parameter of the semantics \<open>urun\<close>. A C string is the list of its characters without the final
  zero; user memory appears where addresses matter (\<open>memmove\<close>).
\<close>

section \<open>String functions\<close>

text \<open>The character a pointer at a string finds.\<close>

definition ch0 :: "string \<Rightarrow> char" where
  "ch0 s = (case s of [] \<Rightarrow> CHR 0x00 | c # _ \<Rightarrow> c)"

definition ord :: "char \<Rightarrow> int" where "ord c = of_char c"

text \<open>\<open>strcpy\<close> copies up to and with the zero: \<open>buf\<close> is what the destination held.\<close>

definition strcpy :: "string \<Rightarrow> string \<Rightarrow> string" where
  "strcpy buf t = t @ CHR 0x00 # drop (Suc (length t)) buf"

fun strcmp :: "string \<Rightarrow> string \<Rightarrow> int" where
  "strcmp [] q = ord (CHR 0x00) - ord (ch0 q)"
| "strcmp (a # p) [] = ord a - ord (CHR 0x00)"
| "strcmp (a # p) (b # q) = (if a = b then strcmp p q else ord a - ord b)"

fun ustrlen_loop :: "string \<Rightarrow> int \<Rightarrow> int" where
  "ustrlen_loop [] n = n"
| "ustrlen_loop (c # s) n = ustrlen_loop s (n + 1)"

definition ustrlen :: "string \<Rightarrow> int" where
  "ustrlen s = ustrlen_loop s 0"

definition umemset :: "mem \<Rightarrow> u32 \<Rightarrow> u32 \<Rightarrow> u32 \<Rightarrow> mem" where
  "umemset m dst c n = stosb m dst c n"

text \<open>The result is the offset of the character found, or \<open>None\<close> for the null pointer.\<close>

fun strchr :: "string \<Rightarrow> char \<Rightarrow> nat option" where
  "strchr [] c = None"
| "strchr (a # s) c = (if a = c then Some 0 else map_option Suc (strchr s c))"

text \<open>Arithmetic of an \<open>int\<close>.\<close>

definition int32 :: "int \<Rightarrow> int" where
  "int32 x = signed_take_bit 31 x"

fun atoi_loop :: "int \<Rightarrow> string \<Rightarrow> int" where
  "atoi_loop n [] = n"
| "atoi_loop n (c # s) =
     (if ord CHR ''0'' \<le> ord c \<and> ord c \<le> ord CHR ''9''
      then atoi_loop (int32 (n * 10 + ord c - ord CHR ''0'')) s else n)"

definition atoi :: "string \<Rightarrow> int" where
  "atoi s = atoi_loop 0 s"

text \<open>\<open>memmove\<close> of the user library copies upwards only.\<close>

fun umemmove_loop :: "mem \<Rightarrow> u32 \<Rightarrow> u32 \<Rightarrow> nat \<Rightarrow> mem" where
  "umemmove_loop m dst src 0 = m"
| "umemmove_loop m dst src (Suc n) = umemmove_loop (m(dst := m src)) (dst + 1) (src + 1) n"

definition umemmove :: "mem \<Rightarrow> u32 \<Rightarrow> u32 \<Rightarrow> int \<Rightarrow> mem" where
  "umemmove m dst src n = umemmove_loop m dst src (nat n)"

section \<open>System calls\<close>

datatype ucall =
    UFork | UWait | UPipe | URead int nat | UKill int | UExec string "string list" | UFstat int
  | UChdir string | UDup int | UGetpid | USbrk int | USleep int | UUptime | UOpen string nat
  | UWrite int string | UMknod string int int | UUnlink string | ULink string string | UMkdir string
  | UClose int | UGetyear | UGetnextprime int | UGetcallcount int | UGetmostcaller int
  | UWaitforprocess int

record ustat =
  us_type :: int
  us_dev :: int
  us_ino :: int
  us_nlink :: int
  us_size :: int

text \<open>The register \<open>eax\<close>, and what the kernel stores in the memory of the caller.\<close>

record answer =
  ares :: int
  abytes :: string        \<comment> \<open>of \<open>read\<close>\<close>
  afds :: "int \<times> int"     \<comment> \<open>of \<open>pipe\<close>\<close>
  astat :: ustat          \<comment> \<open>of \<open>fstat\<close>\<close>

text \<open>
  \<open>UOut\<close> is a loop that has used up the number of rounds it was given, \<open>UFault\<close> an access outside an
  array or of a missing argument, from where the C program has no meaning.
\<close>

datatype 'a uprog = UDone 'a | UExit | UOut | UFault | UCall ucall "answer \<Rightarrow> 'a uprog"

primrec ubind :: "'a uprog \<Rightarrow> ('a \<Rightarrow> 'b uprog) \<Rightarrow> 'b uprog" where
  "ubind (UDone x) f = f x"
| "ubind UExit f = UExit"
| "ubind UOut f = UOut"
| "ubind UFault f = UFault"
| "ubind (UCall c k) f = UCall c (\<lambda>a. ubind (k a) f)"

text \<open>
  A run against a kernel \<open>env\<close>, which answers a call and changes its state. The result is \<open>None\<close> when
  the program has exited (or has used up its rounds).
\<close>

primrec urun :: "'a uprog \<Rightarrow> (ucall \<Rightarrow> 'w \<Rightarrow> answer \<times> 'w) \<Rightarrow> 'w \<Rightarrow> 'a option \<times> 'w" where
  "urun (UDone x) env w = (Some x, w)"
| "urun UExit env w = (None, w)"
| "urun UOut env w = (None, w)"
| "urun UFault env w = (None, w)"
| "urun (UCall c k) env w = (case env c w of (a, w') \<Rightarrow> urun (k a) env w')"

lemma urun_ubind:
  "urun (ubind p f) env w = (case urun p env w of (Some x, w') \<Rightarrow> urun (f x) env w' | (None, w') \<Rightarrow> (None, w'))"
  by (induction p arbitrary: w) (auto split: prod.splits)

lemma ubind_assoc: "ubind (ubind p f) g = ubind p (\<lambda>x. ubind (f x) g)"
  by (induction p) auto

section \<open>gets and stat\<close>

text \<open>\<open>gets\<close> of \<open>Suc n\<close> more characters at most; the line is the result.\<close>

fun gets_loop :: "nat \<Rightarrow> string \<Rightarrow> string uprog" where
  "gets_loop 0 buf = UDone buf"
| "gets_loop (Suc n) buf =
     UCall (URead 0 1) (\<lambda>a.
       if ares a < 1 then UDone buf
       else
         let c = ch0 (abytes a); buf = buf @ [c]
         in if c = CHR 0x0A \<or> c = CHR 0x0D then UDone buf else gets_loop n buf)"

definition gets :: "int \<Rightarrow> string uprog" where
  "gets n = gets_loop (nat (n - 1)) []"

definition ustat_of :: "string \<Rightarrow> (int \<times> ustat option) uprog" where
  "ustat_of n =
     UCall (UOpen n 0) (\<lambda>a.
       if ares a < 0 then UDone (-1, None)
       else
         let fd = ares a
         in UCall (UFstat fd) (\<lambda>b. UCall (UClose fd) (\<lambda>_. UDone (ares b, Some (astat b)))))"

section \<open>printf\<close>

definition udigits :: string where "udigits = ''0123456789ABCDEF''"

function uprintint_digits :: "u32 \<Rightarrow> u32 \<Rightarrow> string" where
  "uprintint_digits x base =
     udigits ! unat (x mod base) #
       (if 1 < base \<and> x div base \<noteq> 0 then uprintint_digits (x div base) base else [])"
  by auto
termination
proof (relation "measure (\<lambda>(x, b). unat x)", goal_cases)
  case (2 x base)
  then have "1 < unat base" "0 < unat x"
    by (auto simp: word_less_nat_alt unat_gt_0)
  then show ?case
    by (simp add: unat_div)
qed simp

declare uprintint_digits.simps [simp del]

definition uprintint :: "int \<Rightarrow> u32 \<Rightarrow> bool \<Rightarrow> string" where
  "uprintint xx base sgnd =
     (let neg = (sgnd \<and> xx < 0);
          x = (if neg then of_int (- xx) else of_int xx)
      in (if neg then ''-'' else []) @ rev (uprintint_digits x base))"

text \<open>A word on the stack: a number, or a pointer to a string (\<open>None\<close> is null).\<close>

datatype uarg = UInt u32 | UStr "string option"

text \<open>
  The characters put out. \<open>pct\<close> says that the last character was a percent sign (\<open>state == '%'\<close>). A
  missing argument, or one of the wrong kind, has no meaning (\<open>None\<close>).
\<close>

fun printf_text :: "bool \<Rightarrow> string \<Rightarrow> uarg list \<Rightarrow> string option" where
  "printf_text pct [] as = Some []"
| "printf_text False (c # f) as =
     (if c = CHR ''%'' then printf_text True f as
      else map_option (\<lambda>t. c # t) (printf_text False f as))"
| "printf_text True (c # f) as =
     (if c = CHR ''d'' then
        (case as of UInt w # as' \<Rightarrow> map_option (\<lambda>t. uprintint (sint w) 10 True @ t) (printf_text False f as')
         | _ \<Rightarrow> None)
      else if c = CHR ''x'' \<or> c = CHR ''p'' then
        (case as of UInt w # as' \<Rightarrow> map_option (\<lambda>t. uprintint (sint w) 16 False @ t) (printf_text False f as')
         | _ \<Rightarrow> None)
      else if c = CHR ''s'' then
        (case as of UStr so # as' \<Rightarrow>
           map_option (\<lambda>t. (case so of None \<Rightarrow> ''(null)'' | Some x \<Rightarrow> x) @ t) (printf_text False f as')
         | _ \<Rightarrow> None)
      else if c = CHR ''c'' then
        (case as of UInt w # as' \<Rightarrow> map_option (\<lambda>t. char_of (unat w) # t) (printf_text False f as')
         | _ \<Rightarrow> None)
      else if c = CHR ''%'' then map_option (\<lambda>t. CHR ''%'' # t) (printf_text False f as)
      else map_option (\<lambda>t. CHR ''%'' # c # t) (printf_text False f as))"

text \<open>\<open>putc\<close> writes one character.\<close>

definition uputc :: "int \<Rightarrow> char \<Rightarrow> unit uprog" where
  "uputc fd c = UCall (UWrite fd [c]) (\<lambda>_. UDone ())"

fun uputs :: "int \<Rightarrow> string \<Rightarrow> unit uprog" where
  "uputs fd [] = UDone ()"
| "uputs fd (c # t) = ubind (uputc fd c) (\<lambda>_. uputs fd t)"

definition printf :: "int \<Rightarrow> string \<Rightarrow> uarg list \<Rightarrow> unit uprog" where
  "printf fd fmt as = (case printf_text False fmt as of Some t \<Rightarrow> uputs fd t | None \<Rightarrow> UFault)"

section \<open>Facts\<close>

text \<open>A string of the program has no zero character in it.\<close>

definition nonul :: "string \<Rightarrow> bool" where
  "nonul s \<longleftrightarrow> CHR 0x00 \<notin> set s"

lemma ord_nul [simp]: "ord CHR 0x00 = 0" "ord c = ord d \<longleftrightarrow> c = d"
  by (simp_all add: ord_def)

lemma ord_ge0 [simp]: "0 \<le> ord c"
  by (metis ord_def of_nat_0_le_iff of_nat_of_char)

lemma ord_eq0 [simp]: "ord c = 0 \<longleftrightarrow> c = CHR 0x00"
  by (metis ord_nul)

lemma ord_pos: "c \<noteq> CHR 0x00 \<Longrightarrow> 0 < ord c"
  using ord_ge0 [of c] ord_eq0 [of c] by linarith

lemma strcmp_zero: "nonul p \<Longrightarrow> nonul q \<Longrightarrow> strcmp p q = 0 \<longleftrightarrow> p = q"
proof (induction p q rule: strcmp.induct)
  case (1 q)
  then show ?case by (cases q) (auto simp: ch0_def nonul_def dest: ord_pos)
next
  case (2 a p)
  then show ?case using ord_pos [of a] by (auto simp: nonul_def)
qed (auto simp: nonul_def)

lemma ustrlen_length: "ustrlen s = int (length s)"
proof -
  have "ustrlen_loop s n = n + int (length s)" for n
    by (induction s arbitrary: n) auto
  then show ?thesis by (simp add: ustrlen_def)
qed

lemma strchr_Some: "strchr s c = Some i \<longleftrightarrow> i < length s \<and> s ! i = c \<and> (\<forall>j < i. s ! j \<noteq> c)"
proof (induction s arbitrary: i)
  case (Cons a s)
  then show ?case
    by (cases i) (auto simp: nth_Cons' All_less_Suc2)
qed simp

lemma strchr_None: "strchr s c = None \<longleftrightarrow> c \<notin> set s"
  by (induction s) auto

text \<open>The digits that \<open>printint\<close> produces, read back by \<open>atoi\<close>.\<close>

definition digit_val :: "char \<Rightarrow> int" where "digit_val c = ord c - ord CHR ''0''"

lemma udigits10: "n < 10 \<Longrightarrow> digit_val (udigits ! n) = int n \<and> ord CHR ''0'' \<le> ord (udigits ! n) \<and> ord (udigits ! n) \<le> ord CHR ''9''"
proof -
  assume "n < 10"
  then have "n \<in> {0,1,2,3,4,5,6,7,8,9}" by auto
  then show ?thesis by (auto simp: udigits_def digit_val_def ord_def)
qed

definition isdigit :: "char \<Rightarrow> bool" where
  "isdigit c \<longleftrightarrow> ord CHR ''0'' \<le> ord c \<and> ord c \<le> ord CHR ''9''"

lemma atoi_loop_append:
  "list_all isdigit s \<Longrightarrow> atoi_loop n (s @ t) = atoi_loop (atoi_loop n s) t"
  by (induction s arbitrary: n) (auto simp: isdigit_def)

lemma digits10_isdigit: "list_all isdigit (uprintint_digits x 10)"
proof (induction x "10 :: u32" rule: uprintint_digits.induct)
  case (1 x)
  have "unat (x mod 10) < 10" by (simp add: unat_mod)
  then have "isdigit (udigits ! unat (x mod 10))" using udigits10 by (simp add: isdigit_def)
  then show ?case using 1 by (subst uprintint_digits.simps) simp
qed

lemma digits10_atoi:
  "unat x < 2 ^ 31 \<Longrightarrow> atoi_loop 0 (rev (uprintint_digits x 10)) = int (unat x)"
proof (induction x "10 :: u32" rule: uprintint_digits.induct)
  case (1 x)
  let ?d = "udigits ! unat (x mod 10)" and ?r = "if x div 10 \<noteq> 0 then uprintint_digits (x div 10) 10 else []"
  have m: "unat (x mod 10) < 10" "unat (x mod 10) = unat x mod 10" by (simp_all add: unat_mod)
  have ih: "atoi_loop 0 (rev ?r) = int (unat x div 10)"
  proof (cases "x div 10 = 0")
    case True
    then have "unat (x div 10) = 0" by (simp only: unat_0)
    then have "unat x div 10 = 0" by (simp only: unat_div unat_numeral) simp
    then show ?thesis using True by simp
  next
    case False
    have "unat (x div 10) < 2 ^ 31" using 1(2) by (simp add: unat_div)
    then show ?thesis using 1(1) False by (simp add: unat_div)
  qed
  have "uprintint_digits x 10 = ?d # ?r"
    by (subst uprintint_digits.simps) simp
  then have "atoi_loop 0 (rev (uprintint_digits x 10)) = atoi_loop (atoi_loop 0 (rev ?r)) [?d]"
    using digits10_isdigit by (simp add: atoi_loop_append)
  also have "\<dots> = int32 (int (unat x div 10) * 10 + digit_val ?d)"
    using udigits10 [OF m(1), THEN conjunct2] ih by (simp add: digit_val_def add_diff_eq)
  also have "int (unat x div 10) * 10 + digit_val ?d = int (unat x)"
    using udigits10 [OF m(1)] m(2) by (simp add: zdiv_int zmod_int)
  also have "int32 (int (unat x)) = int (unat x)"
  proof -
    have "int (unat x) < int (2 ^ 31)" using 1(2) by (simp only: of_nat_less_iff)
    then show ?thesis
      unfolding int32_def by (intro signed_take_bit_int_eq_self order_trans [OF _ of_nat_0_le_iff]) simp_all
  qed
  finally show ?case .
qed

text \<open>
  C40. The number that \<open>printf\<close> prints with \<open>%d\<close> is the number that \<open>atoi\<close> reads: for every \<open>int\<close> that
  is not negative, \<open>atoi\<close> of the text gives the number back.
\<close>

theorem atoi_printint_roundtrip:
  assumes "0 \<le> x" and "x < 2 ^ 31"
  shows "atoi (uprintint x 10 True) = x"
proof -
  have u: "unat (of_int x :: u32) = nat x"
    using assms by (simp add: unat_eq_nat_uint uint_word_of_int)
  then show ?thesis
    using assms digits10_atoi [of "of_int x"] by (simp add: atoi_def uprintint_def Let_def)
qed

theorem atoi_printint_roundtrip_witness: "atoi (uprintint 1402 10 True) = 1402"
  by (rule atoi_printint_roundtrip) simp_all

text \<open>A copy to a higher address that overlaps the source is not the one that \<open>memmove\<close> promises.\<close>

lemma umemmove_overlap:
  "umemmove (\<lambda>a. if a = 100 then 1 else if a = 101 then 2 else 0) 101 100 2 102 = 1"
  by (simp add: umemmove_def numeral_2_eq_2)

lemma urun_uputs:
  assumes "\<And>c w. env (UWrite fd [c]) w = (a, f c w)"
  shows "urun (uputs fd t) env w = (Some (), fold f t w)"
  by (induction t arbitrary: w) (simp_all add: uputc_def assms)

end
