(* ===== verification/Grep.thy ===== *)
theory Grep
  imports Ulib
begin

text \<open>grep.c: the matcher for regular expressions, and the filter.\<close>

section \<open>The matcher\<close>

text \<open>
  \<open>matchhere re tx\<close> (with \<open>None\<close>) and \<open>matchstar c re tx\<close> (with \<open>Some c\<close>) call each other; they are
  one recursion here.
\<close>

function matchrec :: "char option \<Rightarrow> string \<Rightarrow> string \<Rightarrow> bool" where
  "matchrec None re tx =
     (case re of
        [] \<Rightarrow> True
      | c # re1 \<Rightarrow>
          if ch0 re1 = CHR ''*'' then matchrec (Some c) (tl re1) tx
          else if c = CHR ''$'' \<and> re1 = [] then tx = []
          else if tx \<noteq> [] \<and> (c = CHR ''.'' \<or> c = hd tx) then matchrec None re1 (tl tx)
          else False)"
| "matchrec (Some c) re tx =
     (if matchrec None re tx then True
      else if tx \<noteq> [] \<and> (hd tx = c \<or> c = CHR ''.'') then matchrec (Some c) re (tl tx)
      else False)"
  by pat_completeness auto
termination
proof (relation "measures [\<lambda>(x, re, tx). length re + (case x of None \<Rightarrow> 0 | Some _ \<Rightarrow> 1), \<lambda>(x, re, tx). length tx]", goal_cases)
  case (2 re tx c re1)
  then show ?case by (cases re1) (auto simp: ch0_def)
qed auto

declare matchrec.simps [simp del]

definition matchhere :: "string \<Rightarrow> string \<Rightarrow> bool" where
  "matchhere re tx = matchrec None re tx"

definition matchstar :: "char \<Rightarrow> string \<Rightarrow> string \<Rightarrow> bool" where
  "matchstar c re tx = matchrec (Some c) re tx"

text \<open>The loop of \<open>match\<close> looks at every suffix of the text, the empty one included.\<close>

fun match_loop :: "string \<Rightarrow> string \<Rightarrow> bool" where
  "match_loop re [] = matchhere re []"
| "match_loop re (c # tx) = (matchhere re (c # tx) \<or> match_loop re tx)"

definition match :: "string \<Rightarrow> string \<Rightarrow> bool" where
  "match re tx = (if ch0 re = CHR ''^'' then matchhere (tl re) tx else match_loop re tx)"

section \<open>The filter\<close>

text \<open>The bytes up to the first zero, where the string functions stop.\<close>

definition cpart :: "string \<Rightarrow> string" where
  "cpart s = takeWhile (\<lambda>c. c \<noteq> CHR 0x00) s"

text \<open>The inner loop on the bytes from \<open>p\<close> on: the lines to put out, and the bytes left.\<close>

function grep_lines :: "string \<Rightarrow> string \<Rightarrow> string list \<times> string" where
  "grep_lines pat s =
     (case strchr (cpart s) CHR 0x0A of
        None \<Rightarrow> ([], s)
      | Some q \<Rightarrow>
          (case grep_lines pat (drop (Suc q) s) of (out, rest) \<Rightarrow>
             (if match pat (take q s) then take (Suc q) s # out else out, rest)))"
  by auto
termination
proof (relation "measure (\<lambda>(pat, s). length s)", goal_cases)
  case (2 pat s q)
  then have "q < length (cpart s)" by (simp add: strchr_Some)
  then have "q < length s"
    using length_takeWhile_le [of "\<lambda>c. c \<noteq> CHR 0x00" s] by (simp add: cpart_def)
  then show ?case by simp
qed simp

declare grep_lines.simps [simp del]

fun write_all :: "int \<Rightarrow> string list \<Rightarrow> unit uprog" where
  "write_all fd [] = UDone ()"
| "write_all fd (l # ls) = UCall (UWrite fd l) (\<lambda>_. write_all fd ls)"

text \<open>
  The outer loop, of at most \<open>n\<close> reads; \<open>lo\<close> are the bytes kept in the buffer. If no line ends in
  the buffer its contents are dropped.
\<close>

fun grep :: "nat \<Rightarrow> string \<Rightarrow> int \<Rightarrow> string \<Rightarrow> unit uprog" where
  "grep 0 pat fd lo = UOut"
| "grep (Suc n) pat fd lo =
     UCall (URead fd (1024 - length lo - 1)) (\<lambda>a.
       if ares a \<le> 0 then UDone ()
       else
         let s = lo @ take (nat (ares a)) (abytes a)
         in case grep_lines pat s of (out, rest) \<Rightarrow>
            ubind (write_all 1 out) (\<lambda>_. grep n pat fd (if length rest = length s then [] else rest)))"

fun grep_files :: "nat \<Rightarrow> string \<Rightarrow> string list \<Rightarrow> unit uprog" where
  "grep_files n pat [] = UExit"
| "grep_files n pat (f # fs) =
     UCall (UOpen f 0) (\<lambda>a.
       let fd = ares a
       in if fd < 0 then ubind (printf 1 (''grep: cannot open %s'' @ [CHR 0x0A]) [UStr (Some f)]) (\<lambda>_. UExit)
          else ubind (grep n pat fd []) (\<lambda>_. UCall (UClose fd) (\<lambda>_. grep_files n pat fs)))"

text \<open>\<open>args\<close> are \<open>argv[1]\<close> and the following.\<close>

definition grep_main :: "nat \<Rightarrow> string list \<Rightarrow> unit uprog" where
  "grep_main n args =
     (case args of
        [] \<Rightarrow> ubind (printf 2 (''usage: grep pattern [file ...]'' @ [CHR 0x0A]) []) (\<lambda>_. UExit)
      | pat # fs \<Rightarrow>
          if fs = [] then ubind (grep n pat 0 []) (\<lambda>_. UExit) else grep_files n pat fs)"

section \<open>What a pattern means\<close>

datatype atom = Any | Chr char
datatype relem = One atom | Many atom

fun atom_of :: "char \<Rightarrow> atom" where
  "atom_of c = (if c = CHR ''.'' then Any else Chr c)"

fun atom_ok :: "atom \<Rightarrow> char \<Rightarrow> bool" where
  "atom_ok Any x = True"
| "atom_ok (Chr c) x = (x = c)"

text \<open>The elements of a pattern, and whether it is tied to the end of the text.\<close>

fun relems :: "string \<Rightarrow> relem list \<times> bool" where
  "relems [] = ([], False)"
| "relems [c] = (if c = CHR ''$'' then ([], True) else ([One (atom_of c)], False))"
| "relems (c # d # re) =
     (if d = CHR ''*'' then (case relems re of (es, e) \<Rightarrow> (Many (atom_of c) # es, e))
      else (case relems (d # re) of (es, e) \<Rightarrow> (One (atom_of c) # es, e)))"

fun rlang :: "relem list \<Rightarrow> string set" where
  "rlang [] = {[]}"
| "rlang (One a # es) = {x # s |x s. atom_ok a x \<and> s \<in> rlang es}"
| "rlang (Many a # es) = {u @ s |u s. list_all (atom_ok a) u \<and> s \<in> rlang es}"

text \<open>Some prefix of the text, or the whole text, is in the language.\<close>

definition prefix_in :: "relem list \<times> bool \<Rightarrow> string \<Rightarrow> bool" where
  "prefix_in p tx \<longleftrightarrow> (\<exists>u v. tx = u @ v \<and> u \<in> rlang (fst p) \<and> (snd p \<longrightarrow> v = []))"

lemma prefix_in_nil [simp]: "prefix_in ([], False) tx" "prefix_in ([], True) tx \<longleftrightarrow> tx = []"
  by (auto simp: prefix_in_def)

lemma prefix_in_One:
  "prefix_in (One a # es, e) tx \<longleftrightarrow> (\<exists>x t. tx = x # t \<and> atom_ok a x \<and> prefix_in (es, e) t)"
proof
  assume "prefix_in (One a # es, e) tx"
  then obtain x s v where "tx = (x # s) @ v" "atom_ok a x" "s \<in> rlang es" "e \<longrightarrow> v = []"
    unfolding prefix_in_def by (simp only: rlang.simps fst_conv snd_conv) blast
  then show "\<exists>x t. tx = x # t \<and> atom_ok a x \<and> prefix_in (es, e) t"
    by (auto simp: prefix_in_def)
next
  assume "\<exists>x t. tx = x # t \<and> atom_ok a x \<and> prefix_in (es, e) t"
  then obtain x u v where "tx = (x # u) @ v" "atom_ok a x" "u \<in> rlang es" "e \<longrightarrow> v = []"
    unfolding prefix_in_def by auto
  then show "prefix_in (One a # es, e) tx"
    unfolding prefix_in_def by (intro exI [of _ "x # u"] exI [of _ v]) auto
qed

lemma prefix_in_Many:
  "prefix_in (Many a # es, e) tx \<longleftrightarrow>
     prefix_in (es, e) tx \<or> (\<exists>x t. tx = x # t \<and> atom_ok a x \<and> prefix_in (Many a # es, e) t)"
proof
  assume "prefix_in (Many a # es, e) tx"
  then obtain u s v where t: "tx = (u @ s) @ v" "list_all (atom_ok a) u" "s \<in> rlang es" "e \<longrightarrow> v = []"
    unfolding prefix_in_def by (simp only: rlang.simps fst_conv snd_conv) blast
  show "prefix_in (es, e) tx \<or> (\<exists>x t. tx = x # t \<and> atom_ok a x \<and> prefix_in (Many a # es, e) t)"
  proof (cases u)
    case Nil
    then show ?thesis using t by (auto simp: prefix_in_def)
  next
    case (Cons x u')
    then have "u' @ s \<in> rlang (Many a # es)" using t(2,3) by auto
    then have "prefix_in (Many a # es, e) ((u' @ s) @ v)"
      unfolding prefix_in_def using t(4) by (intro exI [of _ "u' @ s"] exI [of _ v]) simp
    then show ?thesis using Cons t by auto
  qed
next
  assume "prefix_in (es, e) tx \<or> (\<exists>x t. tx = x # t \<and> atom_ok a x \<and> prefix_in (Many a # es, e) t)"
  then show "prefix_in (Many a # es, e) tx"
  proof
    assume "prefix_in (es, e) tx"
    then obtain s v where "tx = s @ v" "s \<in> rlang es" "e \<longrightarrow> v = []"
      unfolding prefix_in_def by auto
    moreover have "s \<in> rlang (Many a # es)" if "s \<in> rlang es" for s
      using that unfolding rlang.simps by (intro CollectI exI [of _ "[]"] exI [of _ s]) simp
    ultimately show ?thesis unfolding prefix_in_def by (intro exI [of _ s] exI [of _ v]) simp
  next
    assume "\<exists>x t. tx = x # t \<and> atom_ok a x \<and> prefix_in (Many a # es, e) t"
    then obtain x u s v where "tx = x # ((u @ s) @ v)" "atom_ok a x" "list_all (atom_ok a) u" "s \<in> rlang es" "e \<longrightarrow> v = []"
      unfolding prefix_in_def by (simp only: rlang.simps fst_conv snd_conv) blast
    moreover have "(x # u) @ s \<in> rlang (Many a # es)" if "atom_ok a x" "list_all (atom_ok a) u" "s \<in> rlang es" for x u s
      using that unfolding rlang.simps by (intro CollectI exI [of _ "x # u"] exI [of _ s]) simp
    ultimately show ?thesis unfolding prefix_in_def by (intro exI [of _ "(x # u) @ s"] exI [of _ v]) simp
  qed
qed

lemma atom_of_ok: "atom_ok (atom_of c) x \<longleftrightarrow> c = CHR ''.'' \<or> c = x"
  by auto

lemma relems_Cons:
  "relems (c # re) =
     (if re \<noteq> [] \<and> hd re = CHR ''*'' then (Many (atom_of c) # fst (relems (tl re)), snd (relems (tl re)))
      else if c = CHR ''$'' \<and> re = [] then ([], True)
      else (One (atom_of c) # fst (relems re), snd (relems re)))"
  by (cases re) (auto split: prod.splits)

lemma matchrec_prefix:
  "matchrec x re tx \<longleftrightarrow>
     prefix_in (case x of None \<Rightarrow> relems re | Some c \<Rightarrow> (Many (atom_of c) # fst (relems re), snd (relems re))) tx"
proof (induction x re tx rule: matchrec.induct)
  case (1 re tx)
  show ?case
  proof (cases re)
    case Nil
    then show ?thesis by (simp add: matchrec.simps)
  next
    case (Cons c re1)
    have star: "ch0 re1 = CHR ''*'' \<longleftrightarrow> re1 \<noteq> [] \<and> hd re1 = CHR ''*''"
      by (cases re1) (auto simp: ch0_def)
    have m: "matchrec None re tx =
        (if ch0 re1 = CHR ''*'' then matchrec (Some c) (tl re1) tx
         else if c = CHR ''$'' \<and> re1 = [] then tx = []
         else if tx \<noteq> [] \<and> (c = CHR ''.'' \<or> c = hd tx) then matchrec None re1 (tl tx) else False)"
      by (subst matchrec.simps) (simp add: Cons)
    note ih = 1(1) [OF Cons] 1(2) [OF Cons]
    show ?thesis
      unfolding m using ih star
      by (cases tx) (auto simp: Cons relems_Cons prefix_in_One atom_of_ok simp del: relems.simps atom_of.simps)
  qed
next
  case (2 c re tx)
  have m: "matchrec (Some c) re tx =
      (if matchrec None re tx then True
       else if tx \<noteq> [] \<and> (hd tx = c \<or> c = CHR ''.'') then matchrec (Some c) re (tl tx) else False)"
    by (subst matchrec.simps) simp
  show ?case
    unfolding m using 2 prefix_in_Many [of "atom_of c" "fst (relems re)" "snd (relems re)" tx]
    by (cases tx) (auto simp: atom_of_ok simp del: atom_of.simps)
qed

lemma match_loop_suffix: "match_loop re tx \<longleftrightarrow> (\<exists>u v. tx = u @ v \<and> matchhere re v)"
proof (induction tx)
  case (Cons c tx)
  have "(\<exists>u v. c # tx = u @ v \<and> matchhere re v) \<longleftrightarrow> matchhere re (c # tx) \<or> (\<exists>u v. tx = u @ v \<and> matchhere re v)"
    by (auto simp: Cons_eq_append_conv)
  then show ?case using Cons by simp
qed simp

text \<open>
  C25. The matcher of \<open>grep\<close> decides the meaning of the pattern: \<open>match\<close> answers yes exactly when some
  part of the text is in the language of the pattern (a character for itself, a dot for any
  character, a star for any number of the character before it), a part at the beginning of the
  text if the pattern starts with a caret, and at its end if it ends with a dollar sign.
\<close>

theorem match_iff:
  "match re tx \<longleftrightarrow>
     (\<exists>u v w. tx = u @ v @ w \<and>
        (if ch0 re = CHR ''^'' then u = [] \<and> v \<in> rlang (fst (relems (tl re))) \<and> (snd (relems (tl re)) \<longrightarrow> w = [])
         else v \<in> rlang (fst (relems re)) \<and> (snd (relems re) \<longrightarrow> w = [])))"
  by (auto simp: match_def match_loop_suffix matchhere_def matchrec_prefix prefix_in_def)

theorem match_iff_witness:
  "match ''b*c$'' ''abbc'' \<and> ''abbc'' = ''a'' @ ''bbc'' @ [] \<and> ''bbc'' \<in> rlang (fst (relems ''b*c$''))"
proof -
  have l: "''bbc'' \<in> rlang (fst (relems ''b*c$''))"
  proof -
    have e: "fst (relems ''b*c$'') = [Many (Chr CHR ''b''), One (Chr CHR ''c'')]" by code_simp
    have "''c'' \<in> rlang [One (Chr CHR ''c'')]" by simp
    then show ?thesis unfolding e rlang.simps(3) [of "Chr CHR ''b''"] by (force intro: exI [of _ "''bb''"])
  qed
  then have "match ''b*c$'' ''abbc''"
    unfolding match_iff by (intro exI [of _ "''a''"] exI [of _ "''bbc''"] exI [of _ "[]"]) (simp add: ch0_def)
  then show ?thesis using l by simp
qed

text \<open>
  A line is lost if a read ends inside it and no line ends before: a pattern that the input has is not
  found when the input arrives in two parts.
\<close>

definition chunk_env :: "ucall \<Rightarrow> string list \<times> string list \<Rightarrow> answer \<times> string list \<times> string list" where
  "chunk_env c w =
     (case (c, w) of
        (URead _ _, ch # chs, out) \<Rightarrow> (\<lparr>ares = int (length ch), abytes = ch, afds = (0, 0), astat = undefined\<rparr>, chs, out)
      | (UWrite _ s, chs, out) \<Rightarrow> (\<lparr>ares = int (length s), abytes = [], afds = (0, 0), astat = undefined\<rparr>, chs, out @ [s])
      | _ \<Rightarrow> (\<lparr>ares = 0, abytes = [], afds = (0, 0), astat = undefined\<rparr>, w))"

lemma grep_loses_line:
  "snd (snd (urun (grep 3 ''ab'' 0 []) chunk_env ([''ab'', [CHR 0x0A], []], []))) = []"
  by (simp add: grep_lines.simps numeral_3_eq_3 chunk_env_def cpart_def match_def ch0_def matchhere_def matchrec.simps Let_def)

end
