(* ===== verification/Utils.thy ===== *)
theory Utils
  imports Grep
begin

text \<open>
  The small user programs, as trees of system calls. \<open>args\<close> are \<open>argv[1]\<close> and the following. A loop
  that reads to the end of a file, or that never ends, has the number of its rounds as a parameter.
\<close>

definition nl :: string where "nl = [CHR 0x0A]"

text \<open>\<open>printf\<close> and then \<open>exit\<close>.\<close>

definition die :: "int \<Rightarrow> string \<Rightarrow> uarg list \<Rightarrow> 'a uprog" where
  "die fd fmt as = ubind (printf fd fmt as) (\<lambda>_. UExit)"

section \<open>cat.c\<close>

fun cat :: "nat \<Rightarrow> int \<Rightarrow> unit uprog" where
  "cat 0 fd = UOut"
| "cat (Suc n) fd =
     UCall (URead fd 512) (\<lambda>a.
       if ares a > 0 then
         UCall (UWrite 1 (take (nat (ares a)) (abytes a))) (\<lambda>b.
           if ares b \<noteq> ares a then die 1 (''cat: write error'' @ nl) [] else cat n fd)
       else if ares a < 0 then die 1 (''cat: read error'' @ nl) []
       else UDone ())"

fun cat_files :: "nat \<Rightarrow> string list \<Rightarrow> unit uprog" where
  "cat_files n [] = UExit"
| "cat_files n (f # fs) =
     UCall (UOpen f 0) (\<lambda>a.
       if ares a < 0 then die 1 (''cat: cannot open %s'' @ nl) [UStr (Some f)]
       else ubind (cat n (ares a)) (\<lambda>_. UCall (UClose (ares a)) (\<lambda>_. cat_files n fs)))"

definition cat_main :: "nat \<Rightarrow> string list \<Rightarrow> unit uprog" where
  "cat_main n args = (if args = [] then ubind (cat n 0) (\<lambda>_. UExit) else cat_files n args)"

section \<open>wc.c\<close>

record wc =
  wl :: int
  ww :: int
  wch :: int
  inword :: bool

definition wc_char :: "char \<Rightarrow> wc \<Rightarrow> wc" where
  "wc_char c k =
     (let k = k\<lparr>wch := int32 (wch k + 1)\<rparr>;
          k = (if c = CHR 0x0A then k\<lparr>wl := int32 (wl k + 1)\<rparr> else k)
      in if strchr ('' '' @ [CHR 0x0D, CHR 0x09, CHR 0x0A, CHR 0x0B]) c \<noteq> None then k\<lparr>inword := False\<rparr>
         else if \<not> inword k then k\<lparr>ww := int32 (ww k + 1), inword := True\<rparr>
         else k)"

fun wc_loop :: "nat \<Rightarrow> int \<Rightarrow> wc \<Rightarrow> wc uprog" where
  "wc_loop 0 fd k = UOut"
| "wc_loop (Suc n) fd k =
     UCall (URead fd 512) (\<lambda>a.
       if ares a > 0 then wc_loop n fd (fold wc_char (take (nat (ares a)) (abytes a)) k)
       else if ares a < 0 then die 1 (''wc: read error'' @ nl) []
       else UDone k)"

definition wc :: "nat \<Rightarrow> int \<Rightarrow> string \<Rightarrow> unit uprog" where
  "wc n fd name =
     ubind (wc_loop n fd \<lparr>wl = 0, ww = 0, wch = 0, inword = False\<rparr>) (\<lambda>k.
     printf 1 (''%d %d %d %s'' @ nl) [UInt (of_int (wl k)), UInt (of_int (ww k)), UInt (of_int (wch k)), UStr (Some name)])"

fun wc_files :: "nat \<Rightarrow> string list \<Rightarrow> unit uprog" where
  "wc_files n [] = UExit"
| "wc_files n (f # fs) =
     UCall (UOpen f 0) (\<lambda>a.
       if ares a < 0 then die 1 (''wc: cannot open %s'' @ nl) [UStr (Some f)]
       else ubind (wc n (ares a) f) (\<lambda>_. UCall (UClose (ares a)) (\<lambda>_. wc_files n fs)))"

definition wc_main :: "nat \<Rightarrow> string list \<Rightarrow> unit uprog" where
  "wc_main n args = (if args = [] then ubind (wc n 0 []) (\<lambda>_. UExit) else wc_files n args)"

section \<open>echo.c, ln.c, rm.c, mkdir.c, kill.c, zombie.c\<close>

fun echo_main :: "string list \<Rightarrow> unit uprog" where
  "echo_main [] = UExit"
| "echo_main (s # args) =
     ubind (printf 1 ''%s%s'' [UStr (Some s), UStr (Some (if args \<noteq> [] then '' '' else nl))]) (\<lambda>_. echo_main args)"

definition ln_main :: "string list \<Rightarrow> unit uprog" where
  "ln_main args =
     (case args of
        [x, y] \<Rightarrow>
          UCall (ULink x y) (\<lambda>a.
            if ares a < 0 then die 2 (''link %s %s: failed'' @ nl) [UStr (Some x), UStr (Some y)] else UExit)
      | _ \<Rightarrow> die 2 (''Usage: ln old new'' @ nl) [])"

fun rm_loop :: "string list \<Rightarrow> unit uprog" where
  "rm_loop [] = UExit"
| "rm_loop (f # fs) =
     UCall (UUnlink f) (\<lambda>a.
       if ares a < 0 then die 2 (''rm: %s failed to delete'' @ nl) [UStr (Some f)] else rm_loop fs)"

definition rm_main :: "string list \<Rightarrow> unit uprog" where
  "rm_main args = (if args = [] then die 2 (''Usage: rm files...'' @ nl) [] else rm_loop args)"

fun mkdir_loop :: "string list \<Rightarrow> unit uprog" where
  "mkdir_loop [] = UExit"
| "mkdir_loop (f # fs) =
     UCall (UMkdir f) (\<lambda>a.
       if ares a < 0 then die 2 (''mkdir: %s failed to create'' @ nl) [UStr (Some f)] else mkdir_loop fs)"

definition mkdir_main :: "string list \<Rightarrow> unit uprog" where
  "mkdir_main args = (if args = [] then die 2 (''Usage: mkdir files...'' @ nl) [] else mkdir_loop args)"

fun kill_loop :: "string list \<Rightarrow> unit uprog" where
  "kill_loop [] = UExit"
| "kill_loop (s # args) = UCall (UKill (atoi s)) (\<lambda>_. kill_loop args)"

definition kill_main :: "string list \<Rightarrow> unit uprog" where
  "kill_main args = (if args = [] then die 2 (''usage: kill pid...'' @ nl) [] else kill_loop args)"

definition zombie_main :: "unit uprog" where
  "zombie_main = UCall UFork (\<lambda>a. if ares a > 0 then UCall (USleep 5) (\<lambda>_. UExit) else UExit)"

section \<open>ls.c\<close>

definition UDIRSIZ :: nat where "UDIRSIZ = 14"

text \<open>The characters after the last slash, padded with blanks.\<close>

definition fmtname :: "string \<Rightarrow> string" where
  "fmtname path =
     (let p = rev (takeWhile (\<lambda>c. c \<noteq> CHR ''/'') (rev path))
      in if length p \<ge> UDIRSIZ then p else p @ replicate (UDIRSIZ - length p) CHR '' '')"

definition ls_line :: "string \<Rightarrow> ustat \<Rightarrow> unit uprog" where
  "ls_line path st =
     printf 1 (''%s %d %d %d'' @ nl)
       [UStr (Some (fmtname path)), UInt (of_int (us_type st)), UInt (of_int (us_ino st)), UInt (of_int (us_size st))]"

text \<open>
  The loop over the entries: an entry is two bytes of inode number and \<open>DIRSIZ\<close> bytes of name. \<open>st\<close>
  keeps its value when \<open>stat\<close> fails to open the file.
\<close>

fun ls_dir :: "nat \<Rightarrow> int \<Rightarrow> string \<Rightarrow> unit uprog" where
  "ls_dir 0 fd path = UOut"
| "ls_dir (Suc n) fd path =
     UCall (URead fd (2 + UDIRSIZ)) (\<lambda>a.
       if ares a \<noteq> int (2 + UDIRSIZ) then UDone ()
       else if abytes a ! 0 = CHR 0x00 \<and> abytes a ! 1 = CHR 0x00 then ls_dir n fd path
       else
         let buf = path @ ''/'' @ cpart (take UDIRSIZ (drop 2 (abytes a)))
         in ubind (ustat_of buf) (\<lambda>r.
              if fst r < 0 then
                ubind (printf 1 (''ls: cannot stat %s'' @ nl) [UStr (Some buf)]) (\<lambda>_. ls_dir n fd path)
              else
                (case snd r of None \<Rightarrow> UFault | Some st \<Rightarrow> ubind (ls_line buf st) (\<lambda>_. ls_dir n fd path))))"

definition ls :: "nat \<Rightarrow> string \<Rightarrow> unit uprog" where
  "ls n path =
     UCall (UOpen path 0) (\<lambda>a.
       let fd = ares a
       in if fd < 0 then printf 2 (''ls: cannot open %s'' @ nl) [UStr (Some path)]
          else
            UCall (UFstat fd) (\<lambda>b.
              if ares b < 0 then
                ubind (printf 2 (''ls: cannot stat %s'' @ nl) [UStr (Some path)]) (\<lambda>_. UCall (UClose fd) (\<lambda>_. UDone ()))
              else
                ubind
                  (if us_type (astat b) = 2 then ls_line path (astat b)
                   else if us_type (astat b) = 1 then
                     (if length path + 1 + UDIRSIZ + 1 > 512 then printf 1 (''ls: path too long'' @ nl) []
                      else ls_dir n fd path)
                   else UDone ())
                  (\<lambda>_. UCall (UClose fd) (\<lambda>_. UDone ()))))"

fun ls_all :: "nat \<Rightarrow> string list \<Rightarrow> unit uprog" where
  "ls_all n [] = UExit"
| "ls_all n (p # ps) = ubind (ls n p) (\<lambda>_. ls_all n ps)"

definition ls_main :: "nat \<Rightarrow> string list \<Rightarrow> unit uprog" where
  "ls_main n args = (if args = [] then ls_all n [''.''] else ls_all n args)"

section \<open>init.c\<close>

text \<open>The inner loop waits for the shell, and reports the orphans it reaps.\<close>

fun init_wait :: "nat \<Rightarrow> int \<Rightarrow> unit uprog" where
  "init_wait 0 pid = UOut"
| "init_wait (Suc n) pid =
     UCall UWait (\<lambda>a.
       if ares a \<ge> 0 \<and> ares a \<noteq> pid then ubind (printf 1 (''zombie!'' @ nl) []) (\<lambda>_. init_wait n pid)
       else UDone ())"

fun init_loop :: "nat \<Rightarrow> unit uprog" where
  "init_loop 0 = UOut"
| "init_loop (Suc n) =
     ubind (printf 1 (''init: starting sh'' @ nl) []) (\<lambda>_.
     ubind (printf 1 (''#Group12:'' @ nl @ ''Melika Heidari'' @ nl @ ''Fatemeh Zare'' @ nl @ ''Ava Kazeminejad'') []) (\<lambda>_.
     UCall UFork (\<lambda>a.
       let pid = ares a
       in if pid < 0 then die 1 (''init: fork failed'' @ nl) []
          else if pid = 0 then
            UCall (UExec ''sh'' [''sh'']) (\<lambda>_. die 1 (''init: exec sh failed'' @ nl) [])
          else ubind (init_wait n pid) (\<lambda>_. init_loop n))))"

definition init_main :: "nat \<Rightarrow> unit uprog" where
  "init_main n =
     (let rest = UCall (UDup 0) (\<lambda>_. UCall (UDup 0) (\<lambda>_. init_loop n))
      in UCall (UOpen ''console'' 2) (\<lambda>a.
           if ares a < 0 then
             UCall (UMknod ''console'' 1 1) (\<lambda>_. UCall (UOpen ''console'' 2) (\<lambda>_. rest))
           else rest))"

section \<open>The programs for the added system calls\<close>

text \<open>getcallcount.c\<close>

definition count_line :: "int \<Rightarrow> (unit \<Rightarrow> unit uprog) \<Rightarrow> unit uprog" where
  "count_line k rest =
     UCall (UGetcallcount k) (\<lambda>a.
       ubind (printf 1 (''%d systemcall was called during process: %d'' @ nl)
                [UInt (of_int k), UInt (of_int (ares a))]) rest)"

definition getcallcount_main :: "string list \<Rightarrow> unit uprog" where
  "getcallcount_main args =
     (case args of
        [s] \<Rightarrow>
          let k = atoi s
          in UCall UFork (\<lambda>c1. UCall UFork (\<lambda>c2.
               if ares c1 < 0 then UExit
               else if ares c2 < 0 then UExit
               else
                 UCall (UWrite 1 (''something to write1'' @ nl)) (\<lambda>_.
                 UCall (UWrite 1 (''something to write2'' @ nl)) (\<lambda>_.
                 count_line k (\<lambda>_.
                 UCall (UWrite 1 (''something to write3'' @ nl)) (\<lambda>_.
                 count_line k (\<lambda>_. UExit)))))))
      | _ \<Rightarrow> die 2 (''enter one number'' @ nl) [])"

text \<open>getmostcaller.c: the calls are number 1 (fork), 3 (wait) and 16 (write).\<close>

definition most_line :: "string \<Rightarrow> int \<Rightarrow> (unit \<Rightarrow> unit uprog) \<Rightarrow> unit uprog" where
  "most_line name k rest =
     UCall (UGetmostcaller k) (\<lambda>a.
       ubind (printf 1 (''process having most '' @ name @ '' call is: %d'' @ nl) [UInt (of_int (ares a))]) rest)"

definition getmostcaller_main :: "unit uprog" where
  "getmostcaller_main =
     most_line ''fork'' 1 (\<lambda>_. most_line ''wait'' 3 (\<lambda>_. most_line ''write'' 16 (\<lambda>_. UExit)))"

text \<open>
  getnextprime.c puts the number into the register \<open>ebx\<close>, where the kernel finds the argument of the
  call.
\<close>

definition getnextprime_main :: "string list \<Rightarrow> unit uprog" where
  "getnextprime_main args =
     (case args of
        [s] \<Rightarrow>
          UCall (UGetnextprime (atoi s)) (\<lambda>a.
            die 1 (''Note: first bigger prime number is %d'' @ nl) [UInt (of_int (ares a))])
      | _ \<Rightarrow> die 2 (''enter one number'' @ nl) [])"

text \<open>getyear.c\<close>

definition getyear_main :: "unit uprog" where
  "getyear_main =
     UCall UGetyear (\<lambda>a. die 1 (''Note: Unix V6 was released in year %d'' @ nl) [UInt (of_int (ares a))])"

text \<open>waitforprocess.c\<close>

definition waitforprocess_main :: "unit uprog" where
  "waitforprocess_main =
     UCall UFork (\<lambda>c1.
       if ares c1 < 0 then UExit
       else if ares c1 = 0 then
         ubind (printf 0 (''the child1 loop started'' @ nl) []) (\<lambda>_.
         UCall (USleep 100) (\<lambda>_.
         die 0 (''the child1 loop ended'' @ nl) []))
       else
         UCall UFork (\<lambda>c2.
           if ares c2 < 0 then UExit
           else if ares c2 = 0 then
             ubind (printf 0 (''child2 waiting'' @ nl) []) (\<lambda>_.
             UCall (UWaitforprocess (ares c2)) (\<lambda>_.
             ubind (printf 0 (''child2 returned'' @ nl) []) (\<lambda>_.
             UCall UWait (\<lambda>_. UExit))))
           else UCall UWait (\<lambda>_. UCall UWait (\<lambda>_. UExit))))"

section \<open>stressfs.c and forktest.c\<close>

text \<open>The loop of forks: the child goes on, the parent stops with its index.\<close>

fun stress_fork :: "nat \<Rightarrow> nat \<Rightarrow> nat uprog" where
  "stress_fork 0 i = UDone i"
| "stress_fork (Suc n) i = UCall UFork (\<lambda>a. if ares a > 0 then UDone i else stress_fork n (Suc i))"

fun ucalls :: "ucall list \<Rightarrow> unit uprog" where
  "ucalls [] = UDone ()"
| "ucalls (c # cs) = UCall c (\<lambda>_. ucalls cs)"

definition stressfs_main :: "unit uprog" where
  "stressfs_main =
     ubind (printf 1 (''stressfs starting'' @ nl) []) (\<lambda>_.
     ubind (stress_fork 4 0) (\<lambda>i.
     ubind (printf 1 (''write %d'' @ nl) [UInt (of_nat i)]) (\<lambda>_.
     let path = ''stressfs'' @ [char_of (of_char CHR ''0'' + i)]
     in UCall (UOpen path 0x202) (\<lambda>a.
        ubind (ucalls (replicate 20 (UWrite (ares a) (replicate 512 CHR ''a'')))) (\<lambda>_.
        UCall (UClose (ares a)) (\<lambda>_.
        ubind (printf 1 (''read'' @ nl) []) (\<lambda>_.
        UCall (UOpen path 0) (\<lambda>b.
        ubind (ucalls (replicate 20 (URead (ares b) 512))) (\<lambda>_.
        UCall (UClose (ares b)) (\<lambda>_.
        UCall UWait (\<lambda>_. UExit)))))))))))"

text \<open>\<open>forktest\<close> has a \<open>printf\<close> of its own, which writes the format as it is.\<close>

definition fprint :: "string \<Rightarrow> (unit \<Rightarrow> 'a uprog) \<Rightarrow> 'a uprog" where
  "fprint s rest = UCall (UWrite 1 s) (\<lambda>_. rest ())"

fun forktest_fork :: "nat \<Rightarrow> nat \<Rightarrow> nat uprog" where
  "forktest_fork 0 n = UDone n"
| "forktest_fork (Suc k) n =
     UCall UFork (\<lambda>a. if ares a < 0 then UDone n else if ares a = 0 then UExit else forktest_fork k (Suc n))"

fun forktest_wait :: "nat \<Rightarrow> unit uprog" where
  "forktest_wait 0 = UDone ()"
| "forktest_wait (Suc n) =
     UCall UWait (\<lambda>a. if ares a < 0 then fprint (''wait stopped early'' @ nl) (\<lambda>_. UExit) else forktest_wait n)"

definition forktest :: "unit uprog" where
  "forktest =
     fprint (''fork test'' @ nl) (\<lambda>_.
     ubind (forktest_fork 1000 0) (\<lambda>n.
     if n = 1000 then fprint (''fork claimed to work N times!'' @ nl) (\<lambda>_. UExit)
     else
       ubind (forktest_wait n) (\<lambda>_.
       UCall UWait (\<lambda>a.
         if ares a \<noteq> -1 then fprint (''wait got too many'' @ nl) (\<lambda>_. UExit)
         else fprint (''fork test OK'' @ nl) (\<lambda>_. UDone ())))))"

section \<open>Facts\<close>

text \<open>
  An input that comes in the given parts, and an output. \<open>cat\<close> copies the input, however it is cut
  up, with one round more than there are parts.
\<close>

lemma cat_copies:
  assumes "[] \<notin> set chs"
  shows "urun (cat (Suc (length chs)) fd) chunk_env (chs @ [[]], out) = (Some (), [], out @ chs)"
  using assms
proof (induction chs arbitrary: out)
  case (Cons c chs)
  then have "0 < length c" by auto
  then show ?case using Cons by (simp add: chunk_env_def)
qed (simp add: chunk_env_def)

text \<open>\<open>wc\<close> counts the same however the input is cut up.\<close>

lemma wc_loop_chunks:
  assumes "[] \<notin> set chs"
  shows "urun (wc_loop (Suc (length chs)) fd k) chunk_env (chs @ [[]], out) = (Some (fold wc_char (concat chs) k), [], out)"
  using assms
proof (induction chs arbitrary: k)
  case (Cons c chs)
  then have "0 < length c" by auto
  then show ?case using Cons by (simp add: chunk_env_def fold_append)
qed (simp add: chunk_env_def)

text \<open>The child of waitforprocess.c waits for process 0, the result of its own \<open>fork\<close>.\<close>

definition fork_env :: "ucall \<Rightarrow> int list \<times> ucall list \<Rightarrow> answer \<times> int list \<times> ucall list" where
  "fork_env c w =
     (case w of (rs, cs) \<Rightarrow>
      (\<lparr>ares = (case c of UFork \<Rightarrow> (case rs of [] \<Rightarrow> 0 | r # _ \<Rightarrow> r) | _ \<Rightarrow> 0), abytes = [], afds = (0, 0), astat = undefined\<rparr>,
       (case c of UFork \<Rightarrow> tl rs | _ \<Rightarrow> rs), (case c of UWaitforprocess _ \<Rightarrow> cs @ [c] | _ \<Rightarrow> cs)))"

lemma waitforprocess_waits_for_0:
  "snd (snd (urun waitforprocess_main fork_env ([5, 0], []))) = [UWaitforprocess 0]"
  by (simp add: waitforprocess_main_def fork_env_def printf_def uputc_def nl_def)

end
