(* ===== verification/Shell.thy ===== *)
theory Shell
  imports Utils
begin

text \<open>
  sh.c: the parser and the interpreter of commands. The line is a buffer \<open>b\<close> without its final zero;
  a pointer into it is an index, and \<open>es\<close> is the length. The counted strings of a parsed command are
  pairs of indices (\<open>q\<close>, \<open>eq\<close>), which \<open>nulterminate\<close> turns into C strings in the buffer. The
  allocation of a command node is taken to succeed.
\<close>

section \<open>Tokens\<close>

definition whitespace :: string where
  "whitespace = '' '' @ [CHR 0x09, CHR 0x0D, CHR 0x0A, CHR 0x0B]"

definition symbols :: string where "symbols = ''<|>&;()''"

definition in_set :: "string \<Rightarrow> char \<Rightarrow> bool" where
  "in_set s c \<longleftrightarrow> strchr s c \<noteq> None"

text \<open>The character at index \<open>i\<close>; after the last one there is the zero.\<close>

definition at :: "string \<Rightarrow> nat \<Rightarrow> char" where
  "at b i = (if i < length b then b ! i else CHR 0x00)"

text \<open>The loop \<open>while(s < es && P *s) s++\<close>.\<close>

definition skip :: "(char \<Rightarrow> bool) \<Rightarrow> string \<Rightarrow> nat \<Rightarrow> nat" where
  "skip P b s = s + length (takeWhile P (drop s b))"

definition wordch :: "char \<Rightarrow> bool" where
  "wordch c \<longleftrightarrow> \<not> in_set whitespace c \<and> \<not> in_set symbols c"

text \<open>The switch of \<open>gettoken\<close>: the value of \<open>ret\<close>, and \<open>s\<close> after the token.\<close>

definition lex :: "string \<Rightarrow> nat \<Rightarrow> char \<times> nat" where
  "lex b s =
     (let c = at b s
      in if c = CHR 0x00 then (c, s)
         else if c \<in> {CHR ''|'', CHR ''('', CHR '')'', CHR '';'', CHR ''&'', CHR ''<''} then (c, s + 1)
         else if c = CHR ''>'' then (if at b (s + 1) = CHR ''>'' then (CHR ''+'', s + 2) else (c, s + 1))
         else (CHR ''a'', skip wordch b s))"

record token =
  tret :: char
  tq :: nat
  teq :: nat
  tps :: nat

definition gettoken :: "string \<Rightarrow> nat \<Rightarrow> token" where
  "gettoken b s =
     (let s = skip (in_set whitespace) b s
      in case lex b s of (ret, e) \<Rightarrow>
         \<lparr>tret = ret, tq = s, teq = e, tps = skip (in_set whitespace) b e\<rparr>)"

definition peek :: "string \<Rightarrow> nat \<Rightarrow> string \<Rightarrow> nat \<times> bool" where
  "peek b s toks =
     (let s = skip (in_set whitespace) b s
      in (s, at b s \<noteq> CHR 0x00 \<and> in_set toks (at b s)))"

section \<open>Commands\<close>

datatype 'w command =
    EXEC "'w list"
  | REDIR "'w command" 'w nat nat    \<comment> \<open>the command, the file, the mode, the descriptor\<close>
  | PIPE "'w command" "'w command"
  | LIST "'w command" "'w command"
  | BACK "'w command"

text \<open>A word of a command is a counted string while it is parsed, and a C string when it runs.\<close>

type_synonym cmd = "(nat \<times> nat) command"

text \<open>The constructors, on memory that \<open>malloc\<close> returns.\<close>

definition execcmd :: "'w command" where [simp]: "execcmd = EXEC []"

definition redircmd :: "'w command \<Rightarrow> 'w \<Rightarrow> nat \<Rightarrow> nat \<Rightarrow> 'w command" where
  [simp]: "redircmd c f md d = REDIR c f md d"

definition pipecmd :: "'w command \<Rightarrow> 'w command \<Rightarrow> 'w command" where [simp]: "pipecmd l r = PIPE l r"

definition listcmd :: "'w command \<Rightarrow> 'w command \<Rightarrow> 'w command" where [simp]: "listcmd l r = LIST l r"

definition backcmd :: "'w command \<Rightarrow> 'w command" where [simp]: "backcmd c = BACK c"

definition MAXARGS :: nat where "MAXARGS = 10"

text \<open>
  The store to \<open>cmd->argv[argc]\<close> in \<open>parseexec\<close>, where \<open>cmd\<close> is the node at the bottom of the
  redirections around it.
\<close>

fun add_arg :: "'w command \<Rightarrow> 'w \<Rightarrow> 'w command" where
  "add_arg (EXEC as) w = EXEC (as @ [w])"
| "add_arg (REDIR c f m d) w = REDIR (add_arg c w) f m d"
| "add_arg c w = c"

text \<open>
  A call of \<open>panic\<close>, the end of \<open>parsecmd\<close> on a line with more after the command, or a recursion that
  used up its fuel.
\<close>

datatype perr = PPanic string | PLeftovers string | PFuel

section \<open>Facts on tokens\<close>

lemma in_set_iff: "in_set s c \<longleftrightarrow> c \<in> set s"
  by (simp add: in_set_def strchr_None)

lemma skip_ge: "s \<le> skip P b s"
  by (simp add: skip_def)

lemma skip_le: "s \<le> length b \<Longrightarrow> skip P b s \<le> length b"
  using length_takeWhile_le [of P "drop s b"] by (simp add: skip_def)

lemma skip_all: "s \<le> i \<Longrightarrow> i < skip P b s \<Longrightarrow> P (b ! i)"
proof -
  assume "s \<le> i" "i < skip P b s"
  then have k: "i - s < length (takeWhile P (drop s b))" by (simp add: skip_def)
  then have "takeWhile P (drop s b) ! (i - s) = drop s b ! (i - s)" by (rule takeWhile_nth)
  moreover have "P (takeWhile P (drop s b) ! (i - s))"
    using nth_mem [OF k] by (auto dest: set_takeWhileD)
  moreover have "s + (i - s) < length b"
    using k length_takeWhile_le [of P "drop s b"] by simp
  ultimately show ?thesis using \<open>s \<le> i\<close> by simp
qed

lemma skip_stop: "skip P b s < length b \<Longrightarrow> \<not> P (b ! skip P b s)"
proof -
  assume "skip P b s < length b"
  then have "length (takeWhile P (drop s b)) < length (drop s b)" by (simp add: skip_def)
  then have "\<not> P (drop s b ! length (takeWhile P (drop s b)))" by (rule nth_length_takeWhile)
  then show ?thesis using \<open>skip P b s < length b\<close> by (simp add: skip_def)
qed

lemma at_nonul: "at b s \<noteq> CHR 0x00 \<Longrightarrow> s < length b"
  by (simp add: at_def split: if_splits)

text \<open>A line has no zero in it.\<close>

lemma at_nul: "nonul b \<Longrightarrow> at b s = CHR 0x00 \<longleftrightarrow> length b \<le> s"
  by (auto simp: at_def nonul_def) (metis nth_mem)

text \<open>What a token is: a word is a maximal sequence of word characters.\<close>

lemma lex_word:
  assumes "lex b s = (CHR ''a'', e)"
  shows "e = skip wordch b s" "s < length b" "wordch (b ! s) \<or> in_set whitespace (b ! s)"
proof -
  have c: "at b s \<noteq> CHR 0x00" "at b s \<notin> {CHR ''|'', CHR ''('', CHR '')'', CHR '';'', CHR ''&'', CHR ''<''}" "at b s \<noteq> CHR ''>''"
    "e = skip wordch b s"
    using assms by (auto simp: lex_def Let_def split: if_splits)
  show "e = skip wordch b s" by (rule c(4))
  show s: "s < length b" by (rule at_nonul [OF c(1)])
  then have "at b s = b ! s" by (simp add: at_def)
  then show "wordch (b ! s) \<or> in_set whitespace (b ! s)"
    using c(2,3) by (auto simp: wordch_def in_set_iff symbols_def)
qed

lemma gettoken_bounds:
  assumes "s \<le> length b"
  shows "s \<le> tq (gettoken b s)" "tq (gettoken b s) \<le> teq (gettoken b s)" "teq (gettoken b s) \<le> tps (gettoken b s)"
    "tps (gettoken b s) \<le> length b"
proof -
  let ?s = "skip (in_set whitespace) b s"
  obtain r e where l: "lex b ?s = (r, e)" by fastforce
  have s: "s \<le> ?s" "?s \<le> length b" using skip_ge skip_le [OF assms] by simp_all
  have e: "?s \<le> e \<and> e \<le> length b"
    using l s skip_ge [of ?s wordch b] skip_le [OF s(2), of wordch] at_nonul [of b ?s] at_nonul [of b "?s + 1"]
    by (auto simp: lex_def Let_def split: if_splits)
  then show "s \<le> tq (gettoken b s)" "tq (gettoken b s) \<le> teq (gettoken b s)" "teq (gettoken b s) \<le> tps (gettoken b s)"
    "tps (gettoken b s) \<le> length b"
    using l s skip_ge [of e "in_set whitespace" b] skip_le [of e b "in_set whitespace"] by (simp_all add: gettoken_def Let_def)
qed

lemma gettoken_advances:
  assumes "tret (gettoken b s) \<noteq> CHR 0x00"
  shows "tq (gettoken b s) < teq (gettoken b s)" "s < tps (gettoken b s)"
proof -
  let ?s = "skip (in_set whitespace) b s"
  obtain r e where l: "lex b ?s = (r, e)" by fastforce
  then have r: "r \<noteq> CHR 0x00" using assms by (simp add: gettoken_def Let_def)
  have "?s < e"
  proof (cases "r = CHR ''a'' \<and> e = skip wordch b ?s")
    case True
    then have w: "lex b ?s = (CHR ''a'', e)" using l by simp
    have "\<not> in_set whitespace (b ! ?s)" by (rule skip_stop [OF lex_word(2) [OF w]])
    then have "wordch (b ! ?s)" using lex_word(3) [OF w] by simp
    then have "takeWhile wordch (drop ?s b) \<noteq> []"
      using lex_word(2) [OF w] by (simp add: Cons_nth_drop_Suc [symmetric])
    then show ?thesis using True by (simp add: skip_def)
  next
    case False
    then show ?thesis using l r by (auto simp: lex_def Let_def split: if_splits)
  qed
  then show "tq (gettoken b s) < teq (gettoken b s)" "s < tps (gettoken b s)"
    using l skip_ge [of s "in_set whitespace" b] skip_ge [of e "in_set whitespace" b] by (simp_all add: gettoken_def Let_def)
qed

lemma peek_bounds:
  "s \<le> fst (peek b s toks)" "s \<le> length b \<Longrightarrow> fst (peek b s toks) \<le> length b" "snd (peek b s toks) \<Longrightarrow> fst (peek b s toks) < length b"
  using skip_ge skip_le at_nonul by (auto simp: peek_def Let_def)

text \<open>After a successful \<open>peek\<close> there is a token.\<close>

lemma skip_again: "skip P b (skip P b s) = skip P b s"
proof (cases "skip P b s < length b")
  case True
  then show ?thesis using skip_stop [OF True] by (simp add: skip_def [of P b "skip P b s"] Cons_nth_drop_Suc [symmetric])
qed (simp add: skip_def [of P b "skip P b s"])

lemma peek_token:
  assumes "snd (peek b s toks)"
  shows "tret (gettoken b (fst (peek b s toks))) \<noteq> CHR 0x00" "tq (gettoken b (fst (peek b s toks))) = fst (peek b s toks)"
proof -
  let ?s = "skip (in_set whitespace) b s"
  have "at b ?s \<noteq> CHR 0x00" using assms by (simp add: peek_def Let_def)
  then have "fst (lex b ?s) \<noteq> CHR 0x00" by (simp add: lex_def Let_def)
  then show "tret (gettoken b (fst (peek b s toks))) \<noteq> CHR 0x00" "tq (gettoken b (fst (peek b s toks))) = fst (peek b s toks)"
    by (auto simp: gettoken_def Let_def peek_def skip_again split: prod.split)
qed

lemma peek_advances: "snd (peek b s toks) \<Longrightarrow> s < tps (gettoken b (fst (peek b s toks)))"
  using gettoken_advances(2) [OF peek_token(1)] peek_bounds(1) [of s b toks] by fastforce

section \<open>The parser\<close>

definition redir_of :: "'w command \<Rightarrow> char \<Rightarrow> 'w \<Rightarrow> 'w command" where
  "redir_of c tok f =
     (if tok = CHR ''<'' then redircmd c f 0 0
      else if tok = CHR ''>'' then redircmd c f 0x201 1
      else if tok = CHR ''+'' then redircmd c f 0x201 1
      else c)"

function parseredirs :: "string \<Rightarrow> cmd \<Rightarrow> nat \<Rightarrow> perr + cmd \<times> nat" where
  "parseredirs b c s =
     (if snd (peek b s ''<>'') then
        let t = gettoken b (fst (peek b s ''<>'')); f = gettoken b (tps t)
        in if tret f \<noteq> CHR ''a'' then Inl (PPanic ''missing file for redirection'')
           else parseredirs b (redir_of c (tret t) (tq f, teq f)) (tps f)
      else Inr (c, fst (peek b s ''<>'')))"
  by pat_completeness auto
termination
proof (relation "measure (\<lambda>(b, c, s). length b - s)", goal_cases)
  case (2 b c s t f)
  have "s < tps t" using peek_advances 2(1,2) by simp
  moreover have "tps t < tps f" using gettoken_advances(2) [of b "tps t"] 2(3,4) by simp
  moreover have "s < length b" using peek_bounds(3) [OF 2(1)] peek_bounds(1) [of s b "''<>''"] by linarith
  ultimately show ?case by simp
qed simp

declare parseredirs.simps [simp del]

lemma parseredirs_bounds:
  "parseredirs b c s = Inr (c', s') \<Longrightarrow> s \<le> s' \<and> (s \<le> length b \<longrightarrow> s' \<le> length b)"
proof (induction b c s rule: parseredirs.induct)
  case (1 b c s)
  show ?case
  proof (cases "snd (peek b s ''<>'')")
    case True
    define t where "t = gettoken b (fst (peek b s ''<>''))"
    define f where "f = gettoken b (tps t)"
    have a: "tret f = CHR ''a''" "parseredirs b (redir_of c (tret t) (tq f, teq f)) (tps f) = Inr (c', s')"
      using "1.prems" True unfolding parseredirs.simps [of b c s] by (simp_all add: Let_def t_def f_def split: if_splits)
    have i: "tps f \<le> s' \<and> (tps f \<le> length b \<longrightarrow> s' \<le> length b)"
      using "1.IH" [OF True t_def f_def] a by simp
    have st: "s < tps t" using peek_advances True by (simp add: t_def)
    have tf: "tps t < tps f" using gettoken_advances(2) [of b "tps t"] a(1) by (simp add: f_def)
    have "s \<le> length b \<longrightarrow> tps f \<le> length b"
      using gettoken_bounds(4) [of "tps t" b] gettoken_bounds(4) [OF peek_bounds(2)] by (auto simp: f_def t_def)
    then show ?thesis using i st tf by linarith
  next
    case False
    then show ?thesis using "1.prems" peek_bounds(1,2) [of s b "''<>''"] by (simp add: parseredirs.simps)
  qed
qed

text \<open>The loop of \<open>parseexec\<close> over the words of a command.\<close>

function parse_args :: "string \<Rightarrow> nat \<Rightarrow> cmd \<Rightarrow> nat \<Rightarrow> perr + cmd \<times> nat" where
  "parse_args b argc c s =
     (if \<not> snd (peek b s ''|)&;'') then
        let t = gettoken b (fst (peek b s ''|)&;''))
        in if tret t = CHR 0x00 then Inr (c, tps t)
           else if tret t \<noteq> CHR ''a'' then Inl (PPanic ''syntax'')
           else if MAXARGS \<le> argc + 1 then Inl (PPanic ''too many args'')
           else case parseredirs b (add_arg c (tq t, teq t)) (tps t) of
                  Inl e \<Rightarrow> Inl e
                | Inr (c, s) \<Rightarrow> parse_args b (argc + 1) c s
      else Inr (c, fst (peek b s ''|)&;'')))"
  by pat_completeness auto
termination
  by (relation "measure (\<lambda>(b, argc, c, s). MAXARGS - argc)") auto

declare parse_args.simps [simp del]

function parse_backs :: "string \<Rightarrow> cmd \<Rightarrow> nat \<Rightarrow> cmd \<times> nat" where
  "parse_backs b c s =
     (if snd (peek b s ''&'') then parse_backs b (backcmd c) (tps (gettoken b (fst (peek b s ''&''))))
      else (c, fst (peek b s ''&'')))"
  by pat_completeness auto
termination
proof (relation "measure (\<lambda>(b, c, s). length b - s)", goal_cases)
  case (2 b c s)
  have "s < length b" using peek_bounds(3) [OF 2] peek_bounds(1) [of s b "''&''"] by linarith
  then show ?case using peek_advances [OF 2] by simp
qed simp

declare parse_backs.simps [simp del]

fun parseline :: "nat \<Rightarrow> string \<Rightarrow> nat \<Rightarrow> perr + cmd \<times> nat"
  and parsepipe :: "nat \<Rightarrow> string \<Rightarrow> nat \<Rightarrow> perr + cmd \<times> nat"
  and parseexec :: "nat \<Rightarrow> string \<Rightarrow> nat \<Rightarrow> perr + cmd \<times> nat"
  and parseblock :: "nat \<Rightarrow> string \<Rightarrow> nat \<Rightarrow> perr + cmd \<times> nat" where
  "parseline 0 b s = Inl PFuel"
| "parseline (Suc n) b s =
     (case parsepipe n b s of
        Inl e \<Rightarrow> Inl e
      | Inr (c, s) \<Rightarrow>
          (case parse_backs b c s of (c, s) \<Rightarrow>
             if snd (peek b s '';'') then
               (case parseline n b (tps (gettoken b (fst (peek b s '';'')))) of
                  Inl e \<Rightarrow> Inl e
                | Inr (r, s) \<Rightarrow> Inr (listcmd c r, s))
             else Inr (c, fst (peek b s '';''))))"
| "parsepipe 0 b s = Inl PFuel"
| "parsepipe (Suc n) b s =
     (case parseexec n b s of
        Inl e \<Rightarrow> Inl e
      | Inr (c, s) \<Rightarrow>
          if snd (peek b s ''|'') then
            (case parsepipe n b (tps (gettoken b (fst (peek b s ''|'')))) of
               Inl e \<Rightarrow> Inl e
             | Inr (r, s) \<Rightarrow> Inr (pipecmd c r, s))
          else Inr (c, fst (peek b s ''|'')))"
| "parseexec 0 b s = Inl PFuel"
| "parseexec (Suc n) b s =
     (if snd (peek b s ''('') then parseblock n b (fst (peek b s ''(''))
      else
        case parseredirs b execcmd (fst (peek b s ''('')) of
          Inl e \<Rightarrow> Inl e
        | Inr (c, s) \<Rightarrow> parse_args b 0 c s)"
| "parseblock 0 b s = Inl PFuel"
| "parseblock (Suc n) b s =
     (if \<not> snd (peek b s ''('') then Inl (PPanic ''parseblock'')
      else
        case parseline n b (tps (gettoken b (fst (peek b s ''('')))) of
          Inl e \<Rightarrow> Inl e
        | Inr (c, s) \<Rightarrow>
            if \<not> snd (peek b s '')'') then Inl (PPanic ''syntax - missing )'')
            else parseredirs b c (tps (gettoken b (fst (peek b s '')'')))))"

fun nulterminate :: "cmd \<Rightarrow> string \<Rightarrow> string" where
  "nulterminate (EXEC as) m = fold (\<lambda>(q, eq) m. m[eq := CHR 0x00]) as m"
| "nulterminate (REDIR c (q, eq) md d) m = (nulterminate c m)[eq := CHR 0x00]"
| "nulterminate (PIPE l r) m = nulterminate r (nulterminate l m)"
| "nulterminate (LIST l r) m = nulterminate r (nulterminate l m)"
| "nulterminate (BACK c) m = nulterminate c m"

text \<open>
  The command and the bytes of the line after \<open>nulterminate\<close>, the zero at \<open>es\<close> included. A round of
  the four mutually recursive functions takes a parenthesis, so four steps for each character and
  four for the last round are enough.
\<close>

definition parsecmd :: "string \<Rightarrow> perr + cmd \<times> string" where
  "parsecmd b =
     (case parseline (4 * length b + 4) b 0 of
        Inl e \<Rightarrow> Inl e
      | Inr (c, s) \<Rightarrow>
          let s = fst (peek b s [])
          in if s \<noteq> length b then Inl (PLeftovers (drop s b)) else Inr (c, nulterminate c (b @ [CHR 0x00])))"

section \<open>The parser returns\<close>

lemma peek_gettoken_bounds:
  "s \<le> length b \<Longrightarrow> tps (gettoken b (fst (peek b s toks))) \<le> length b"
  by (rule gettoken_bounds(4) [OF peek_bounds(2)])

lemma parse_args_bounds:
  "parse_args b argc c s = Inr (c', s') \<Longrightarrow> s \<le> length b \<Longrightarrow> s \<le> s' \<and> s' \<le> length b"
proof (induction b argc c s rule: parse_args.induct)
  case (1 b argc c s)
  define t where "t = gettoken b (fst (peek b s ''|)&;''))"
  have t: "s \<le> tps t" "tps t \<le> length b"
    using gettoken_bounds [OF peek_bounds(2) [OF "1.prems"(2), of "''|)&;''"]] peek_bounds(1) [of s b "''|)&;''"] by (simp_all add: t_def)
  consider "snd (peek b s ''|)&;'')" | "\<not> snd (peek b s ''|)&;'')" "tret t = CHR 0x00"
    | "\<not> snd (peek b s ''|)&;'')" "tret t = CHR ''a''" "\<not> MAXARGS \<le> argc + 1"
    using "1.prems"(1) unfolding parse_args.simps [of b argc c s] by (fastforce simp: Let_def t_def split: if_splits)
  then show ?case
  proof cases
    case 1
    then show ?thesis
      using "1.prems" peek_bounds(1,2) [of s b "''|)&;''"] by (simp add: parse_args.simps)
  next
    case 2
    then show ?thesis using "1.prems" t unfolding parse_args.simps [of b argc c s] by (simp add: Let_def t_def)
  next
    case 3
    obtain d r where r: "parseredirs b (add_arg c (tq t, teq t)) (tps t) = Inr (d, r)" "parse_args b (argc + 1) d r = Inr (c', s')"
      using "1.prems"(1) 3 unfolding parse_args.simps [of b argc c s] t_def by (auto simp: Let_def split: sum.splits)
    have "tps t \<le> r" "r \<le> length b" using parseredirs_bounds [OF r(1)] t by simp_all
    then show ?thesis using "1.IH" [OF 3(1) t_def] 3(2,3) r t by fastforce
  qed
qed

lemma parse_backs_bounds: "s \<le> length b \<Longrightarrow> s \<le> snd (parse_backs b c s) \<and> snd (parse_backs b c s) \<le> length b"
proof (induction b c s rule: parse_backs.induct)
  case (1 b c s)
  show ?case
  proof (cases "snd (peek b s ''&'')")
    case True
    then show ?thesis
      using "1.IH" [OF True peek_gettoken_bounds [OF "1.prems"]] peek_advances [OF True] by (simp add: parse_backs.simps [of b c s])
  next
    case False
    then show ?thesis using peek_bounds(1,2) [of s b "''&''"] "1.prems" by (simp add: parse_backs.simps [of b c s])
  qed
qed

text \<open>The four functions move forward in the line.\<close>

lemma parse_bounds:
  "s \<le> length b \<Longrightarrow> parseline n b s = Inr (c, s') \<Longrightarrow> s \<le> s' \<and> s' \<le> length b"
  "s \<le> length b \<Longrightarrow> parsepipe n b s = Inr (c, s') \<Longrightarrow> s \<le> s' \<and> s' \<le> length b"
  "s \<le> length b \<Longrightarrow> parseexec n b s = Inr (c, s') \<Longrightarrow> s \<le> s' \<and> s' \<le> length b"
  "s \<le> length b \<Longrightarrow> parseblock n b s = Inr (c, s') \<Longrightarrow> s \<le> s' \<and> s' \<le> length b"
proof (induction n b s and n b s and n b s and n b s arbitrary: c s' and c s' and c s' and c s'
    rule: parseline_parsepipe_parseexec_parseblock.induct)
  case (2 n b s)
  obtain d r where p: "parsepipe n b s = Inr (d, r)" using "2.prems"(2) by (auto split: sum.splits)
  obtain e u where q: "parse_backs b d r = (e, u)" by fastforce
  have r: "s \<le> r" "r \<le> length b" using "2.IH"(1) [OF "2.prems"(1) p] by simp_all
  have u: "r \<le> u" "u \<le> length b" using parse_backs_bounds [OF r(2), of d] q by simp_all
  show ?case
  proof (cases "snd (peek b u '';'')")
    case True
    then obtain x where "parseline n b (tps (gettoken b (fst (peek b u '';'')))) = Inr (x, s')"
      using "2.prems"(2) p q by (auto split: sum.splits)
    from "2.IH"(2) [OF p refl q [symmetric] True peek_gettoken_bounds [OF u(2)] this]
    show ?thesis using peek_advances [OF True] r u by linarith
  next
    case False
    then show ?thesis using "2.prems"(2) p q peek_bounds(1,2) [of u b "'';''"] r u by simp
  qed
next
  case (4 n b s)
  obtain d u where p: "parseexec n b s = Inr (d, u)" using "4.prems"(2) by (auto split: sum.splits)
  have u: "s \<le> u" "u \<le> length b" using "4.IH"(1) [OF "4.prems"(1) p] by simp_all
  show ?case
  proof (cases "snd (peek b u ''|'')")
    case True
    then obtain x where "parsepipe n b (tps (gettoken b (fst (peek b u ''|'')))) = Inr (x, s')"
      using "4.prems"(2) p by (auto split: sum.splits)
    from "4.IH"(2) [OF p refl True peek_gettoken_bounds [OF u(2)] this]
    show ?thesis using peek_advances [OF True] u by linarith
  next
    case False
    then show ?thesis using "4.prems"(2) p peek_bounds(1,2) [of u b "''|''"] u by simp
  qed
next
  case (6 n b s)
  have l: "s \<le> fst (peek b s ''('')" "fst (peek b s ''('') \<le> length b"
    using peek_bounds(1,2) [of s b "''(''"] "6.prems"(1) by simp_all
  show ?case
  proof (cases "snd (peek b s ''('')")
    case True
    then show ?thesis using "6.IH" [OF True l(2)] "6.prems"(2) l by fastforce
  next
    case False
    then obtain d u where "parseredirs b (EXEC []) (fst (peek b s ''('')) = Inr (d, u)" "parse_args b 0 d u = Inr (c, s')"
      using "6.prems"(2) by (auto split: sum.splits)
    then show ?thesis using parseredirs_bounds parse_args_bounds l by (meson le_trans)
  qed
next
  case (8 n b s)
  have p: "snd (peek b s ''('')" using "8.prems"(2) by (simp split: if_splits)
  obtain d u where q: "parseline n b (tps (gettoken b (fst (peek b s ''('')))) = Inr (d, u)" "snd (peek b u '')'')"
    "parseredirs b d (tps (gettoken b (fst (peek b u '')'')))) = Inr (c, s')"
    using "8.prems"(2) p by (auto split: sum.splits if_splits)
  have "tps (gettoken b (fst (peek b s ''(''))) \<le> u \<and> u \<le> length b"
    using "8.IH" [of d u] p q(1) peek_gettoken_bounds [OF "8.prems"(1)] by simp
  then show ?case
    using parseredirs_bounds [OF q(3)] peek_gettoken_bounds [of u b "'')''"] peek_advances [OF p] peek_advances [OF q(2)] by linarith
qed simp_all

lemma parseredirs_fuel: "parseredirs b c s \<noteq> Inl PFuel"
proof (induction b c s rule: parseredirs.induct)
  case (1 b c s)
  then show ?case by (subst parseredirs.simps) (simp add: Let_def)
qed

lemma parse_args_fuel: "parse_args b argc c s \<noteq> Inl PFuel"
proof (induction b argc c s rule: parse_args.induct)
  case (1 b argc c s)
  then show ?case by (subst parse_args.simps) (auto simp: Let_def parseredirs_fuel split: sum.splits)
qed

text \<open>A round of the recursion takes a character: with four steps for each the parser does not run out.\<close>

lemma parse_fuel:
  "s \<le> length b \<Longrightarrow> 4 * (length b - s) + 4 \<le> n \<Longrightarrow> parseline n b s \<noteq> Inl PFuel"
  "s \<le> length b \<Longrightarrow> 4 * (length b - s) + 3 \<le> n \<Longrightarrow> parsepipe n b s \<noteq> Inl PFuel"
  "s \<le> length b \<Longrightarrow> 4 * (length b - s) + 2 \<le> n \<Longrightarrow> parseexec n b s \<noteq> Inl PFuel"
  "s \<le> length b \<Longrightarrow> 4 * (length b - s) + 1 \<le> n \<Longrightarrow> parseblock n b s \<noteq> Inl PFuel"
proof (induction n b s and n b s and n b s and n b s rule: parseline_parsepipe_parseexec_parseblock.induct)
  case (2 n b s)
  show ?case
  proof (cases "parsepipe n b s")
    case (Inl e)
    then show ?thesis using "2.IH"(1) "2.prems" by simp
  next
    case (Inr a)
    then obtain d r where p: "parsepipe n b s = Inr (d, r)" by (cases a) simp
    obtain e u where q: "parse_backs b d r = (e, u)" by fastforce
    have r: "s \<le> r" "r \<le> length b" using parse_bounds(2) [OF "2.prems"(1) p] by simp_all
    have u: "r \<le> u" "u \<le> length b" using parse_backs_bounds [OF r(2), of d] q by simp_all
    show ?thesis
    proof (cases "snd (peek b u '';'')")
      case True
      have "4 * (length b - tps (gettoken b (fst (peek b u '';'')))) + 4 \<le> n"
        using peek_advances [OF True] peek_gettoken_bounds [OF u(2), of "'';''"] "2.prems" r u by linarith
      from "2.IH"(2) [OF p refl q [symmetric] True peek_gettoken_bounds [OF u(2)] this]
      show ?thesis using p q True by (auto split: sum.splits)
    qed (simp add: p q)
  qed
next
  case (4 n b s)
  show ?case
  proof (cases "parseexec n b s")
    case (Inl e)
    then show ?thesis using "4.IH"(1) "4.prems" by simp
  next
    case (Inr a)
    then obtain d u where p: "parseexec n b s = Inr (d, u)" by (cases a) simp
    have u: "s \<le> u" "u \<le> length b" using parse_bounds(3) [OF "4.prems"(1) p] by simp_all
    show ?thesis
    proof (cases "snd (peek b u ''|'')")
      case True
      have "4 * (length b - tps (gettoken b (fst (peek b u ''|'')))) + 3 \<le> n"
        using peek_advances [OF True] peek_gettoken_bounds [OF u(2), of "''|''"] "4.prems" u by linarith
      from "4.IH"(2) [OF p refl True peek_gettoken_bounds [OF u(2)] this]
      show ?thesis using p True by (auto split: sum.splits)
    qed (simp add: p)
  qed
next
  case (6 n b s)
  have l: "s \<le> fst (peek b s ''('')" "fst (peek b s ''('') \<le> length b"
    using peek_bounds(1,2) [of s b "''(''"] "6.prems"(1) by simp_all
  show ?case
    using "6.IH" [OF _ l(2)] "6.prems"(2) l parseredirs_fuel parse_args_fuel by (auto split: sum.splits)
next
  case (8 n b s)
  show ?case
  proof (cases "snd (peek b s ''('')")
    case True
    have "4 * (length b - tps (gettoken b (fst (peek b s ''('')))) + 4 \<le> n"
      using peek_advances [OF True] peek_gettoken_bounds [OF "8.prems"(1), of "''(''"] "8.prems" by linarith
    with "8.IH" True peek_gettoken_bounds [OF "8.prems"(1), of "''(''"]
    show ?thesis by (auto simp: parseredirs_fuel split: sum.splits)
  qed simp
qed simp_all

section \<open>The parsed command is well formed\<close>

text \<open>A counted string is a maximal, non-empty sequence of word characters of the line.\<close>

definition token_ok :: "string \<Rightarrow> nat \<times> nat \<Rightarrow> bool" where
  "token_ok b w \<longleftrightarrow>
     fst w < snd w \<and> snd w \<le> length b \<and> list_all wordch (take (snd w - fst w) (drop (fst w) b)) \<and>
     (snd w < length b \<longrightarrow> \<not> wordch (b ! snd w))"

fun wf_cmd :: "string \<Rightarrow> cmd \<Rightarrow> bool" where
  "wf_cmd b (EXEC as) \<longleftrightarrow> list_all (token_ok b) as \<and> length as < MAXARGS"
| "wf_cmd b (REDIR c f m d) \<longleftrightarrow> wf_cmd b c \<and> token_ok b f \<and> (m = 0 \<and> d = 0 \<or> m = 0x201 \<and> d = 1)"
| "wf_cmd b (PIPE l r) \<longleftrightarrow> wf_cmd b l \<and> wf_cmd b r"
| "wf_cmd b (LIST l r) \<longleftrightarrow> wf_cmd b l \<and> wf_cmd b r"
| "wf_cmd b (BACK c) \<longleftrightarrow> wf_cmd b c"

text \<open>The arguments of the node at the bottom of the redirections.\<close>

fun bottom :: "cmd \<Rightarrow> (nat \<times> nat) list" where
  "bottom (EXEC as) = as"
| "bottom (REDIR c f m d) = bottom c"
| "bottom c = []"

lemma gettoken_word:
  assumes "tret (gettoken b s) = CHR ''a''"
  shows "token_ok b (tq (gettoken b s), teq (gettoken b s))"
proof -
  let ?s = "skip (in_set whitespace) b s"
  obtain e where l: "lex b ?s = (CHR ''a'', e)" "tq (gettoken b s) = ?s" "teq (gettoken b s) = e"
    using assms by (auto simp: gettoken_def Let_def split: prod.splits)
  have e: "e = skip wordch b ?s" "?s < length b" using lex_word [OF l(1)] by simp_all
  have "?s < e" using gettoken_advances(1) [of b s] assms l by simp
  moreover have "e \<le> length b" using e skip_le [of ?s b wordch] by simp
  moreover have "take (e - ?s) (drop ?s b) = takeWhile wordch (drop ?s b)"
    by (simp add: e(1) skip_def [of wordch] takeWhile_eq_take [symmetric])
  moreover have "list_all wordch (takeWhile wordch (drop ?s b))"
    by (auto simp: list_all_iff dest: set_takeWhileD)
  moreover have "e < length b \<Longrightarrow> \<not> wordch (b ! e)" using skip_stop [of wordch b ?s] e(1) by simp
  ultimately show ?thesis by (simp add: token_ok_def l)
qed

lemma wf_add_arg:
  "wf_cmd b c \<Longrightarrow> token_ok b w \<Longrightarrow> length (bottom c) + 1 < MAXARGS \<Longrightarrow> wf_cmd b (add_arg c w)"
  by (induction c w rule: add_arg.induct) simp_all

lemma bottom_add_arg: "length (bottom (add_arg c w)) \<le> length (bottom c) + 1"
  by (induction c w rule: add_arg.induct) simp_all

lemma wf_redir_of: "wf_cmd b c \<Longrightarrow> token_ok b f \<Longrightarrow> wf_cmd b (redir_of c t f)"
  by (simp add: redir_of_def)

lemma bottom_redir_of: "bottom (redir_of c t f) = bottom c"
  by (simp add: redir_of_def)

lemma parseredirs_wf:
  "parseredirs b c s = Inr (c', s') \<Longrightarrow> wf_cmd b c \<Longrightarrow> wf_cmd b c' \<and> bottom c' = bottom c"
proof (induction b c s rule: parseredirs.induct)
  case (1 b c s)
  show ?case
  proof (cases "snd (peek b s ''<>'')")
    case True
    define t where "t = gettoken b (fst (peek b s ''<>''))"
    define f where "f = gettoken b (tps t)"
    have a: "tret f = CHR ''a''" "parseredirs b (redir_of c (tret t) (tq f, teq f)) (tps f) = Inr (c', s')"
      using "1.prems"(1) True unfolding parseredirs.simps [of b c s] by (simp_all add: Let_def t_def f_def split: if_splits)
    have "token_ok b (tq f, teq f)" using gettoken_word a(1) by (simp add: f_def)
    then show ?thesis
      using "1.IH" [OF True t_def f_def] a "1.prems"(2) by (simp add: wf_redir_of bottom_redir_of)
  next
    case False
    then show ?thesis using "1.prems" by (simp add: parseredirs.simps)
  qed
qed

lemma parse_args_wf:
  "parse_args b argc c s = Inr (c', s') \<Longrightarrow> wf_cmd b c \<Longrightarrow> length (bottom c) \<le> argc \<Longrightarrow> wf_cmd b c'"
proof (induction b argc c s rule: parse_args.induct)
  case (1 b argc c s)
  define t where "t = gettoken b (fst (peek b s ''|)&;''))"
  consider "c' = c" | "\<not> snd (peek b s ''|)&;'')" "tret t = CHR ''a''" "\<not> MAXARGS \<le> argc + 1"
    using "1.prems"(1) unfolding parse_args.simps [of b argc c s] by (fastforce simp: Let_def t_def split: if_splits)
  then show ?case
  proof cases
    case 2
    obtain d r where r: "parseredirs b (add_arg c (tq t, teq t)) (tps t) = Inr (d, r)" "parse_args b (argc + 1) d r = Inr (c', s')"
      using "1.prems"(1) 2 unfolding parse_args.simps [of b argc c s] t_def by (auto simp: Let_def split: sum.splits)
    have "wf_cmd b (add_arg c (tq t, teq t))"
      using wf_add_arg [OF "1.prems"(2) gettoken_word] 2 "1.prems"(3) by (simp add: t_def)
    then have "wf_cmd b d" "bottom d = bottom (add_arg c (tq t, teq t))" using parseredirs_wf [OF r(1)] by simp_all
    then show ?thesis
      using "1.IH" [OF 2(1) t_def] 2(2,3) r bottom_add_arg [of c "(tq t, teq t)"] "1.prems"(3) by fastforce
  qed (simp add: "1.prems")
qed

lemma parse_backs_wf: "wf_cmd b (fst (parse_backs b c s)) \<longleftrightarrow> wf_cmd b c"
proof (induction b c s rule: parse_backs.induct)
  case (1 b c s)
  then show ?case by (subst parse_backs.simps) simp
qed

lemma parse_wf:
  "parseline n b s = Inr (c, s') \<Longrightarrow> wf_cmd b c"
  "parsepipe n b s = Inr (c, s') \<Longrightarrow> wf_cmd b c"
  "parseexec n b s = Inr (c, s') \<Longrightarrow> wf_cmd b c"
  "parseblock n b s = Inr (c, s') \<Longrightarrow> wf_cmd b c"
proof (induction n b s and n b s and n b s and n b s arbitrary: c s' and c s' and c s' and c s'
    rule: parseline_parsepipe_parseexec_parseblock.induct)
  case (2 n b s)
  obtain d r where p: "parsepipe n b s = Inr (d, r)" using "2.prems" by (auto split: sum.splits)
  obtain e u where q: "parse_backs b d r = (e, u)" by fastforce
  have "wf_cmd b e" using "2.IH"(1) [OF p] parse_backs_wf [of b d r] q by simp
  then show ?case
    using "2.prems" p q "2.IH"(2) [OF p refl q [symmetric]] by (auto split: sum.splits if_splits)
next
  case (4 n b s)
  obtain d u where p: "parseexec n b s = Inr (d, u)" using "4.prems" by (auto split: sum.splits)
  then show ?case
    using "4.prems" "4.IH"(1) [OF p] "4.IH"(2) [OF p refl] by (auto split: sum.splits if_splits)
next
  case (6 n b s)
  show ?case
  proof (cases "snd (peek b s ''('')")
    case False
    then obtain d u where r: "parseredirs b (EXEC []) (fst (peek b s ''('')) = Inr (d, u)" "parse_args b 0 d u = Inr (c, s')"
      using "6.prems" by (auto split: sum.splits)
    have "wf_cmd b (EXEC [])" by (simp add: MAXARGS_def)
    then show ?thesis using parseredirs_wf [OF r(1)] parse_args_wf [OF r(2)] by simp
  qed (use "6.IH" "6.prems" in simp)
next
  case (8 n b s)
  have p: "snd (peek b s ''('')" using "8.prems" by (simp split: if_splits)
  obtain d u where q: "parseline n b (tps (gettoken b (fst (peek b s ''('')))) = Inr (d, u)"
    "parseredirs b d (tps (gettoken b (fst (peek b u '')'')))) = Inr (c, s')"
    using "8.prems" p by (auto split: sum.splits if_splits)
  then show ?case using "8.IH" [of d u] p parseredirs_wf [OF q(2)] by simp
qed simp_all

section \<open>The strings of the command\<close>

definition cstr :: "string \<Rightarrow> nat \<Rightarrow> string" where
  "cstr m q = takeWhile (\<lambda>c. c \<noteq> CHR 0x00) (drop q m)"

definition word_text :: "string \<Rightarrow> nat \<times> nat \<Rightarrow> string" where
  "word_text b w = take (snd w - fst w) (drop (fst w) b)"

fun words_of :: "'w command \<Rightarrow> 'w list" where
  "words_of (EXEC as) = as"
| "words_of (REDIR c f m d) = words_of c @ [f]"
| "words_of (PIPE l r) = words_of l @ words_of r"
| "words_of (LIST l r) = words_of l @ words_of r"
| "words_of (BACK c) = words_of c"

definition stamp :: "(nat \<times> nat) list \<Rightarrow> string \<Rightarrow> string" where
  "stamp ws m = fold (\<lambda>(q, eq) m. m[eq := CHR 0x00]) ws m"

lemma nulterminate_stamp: "nulterminate c m = stamp (words_of c) m"
  by (induction c m rule: nulterminate.induct) (simp_all add: stamp_def)

lemma length_stamp: "length (stamp ws m) = length m"
  by (induction ws arbitrary: m) (auto simp: stamp_def)

lemma nth_stamp:
  "i < length m \<Longrightarrow> stamp ws m ! i = (if i \<in> snd ` set ws then CHR 0x00 else m ! i)"
proof (induction ws arbitrary: m)
  case (Cons w ws)
  obtain q e where w: "w = (q, e)" by fastforce
  have "stamp (w # ws) m = stamp ws (m[e := CHR 0x00])" by (simp add: stamp_def w)
  then show ?case using Cons.IH [of "m[e := CHR 0x00]"] Cons.prems by (auto simp: w nth_list_update)
qed (simp add: stamp_def)

lemma words_of_wf: "wf_cmd b c \<Longrightarrow> w \<in> set (words_of c) \<Longrightarrow> token_ok b w"
  by (induction b c rule: wf_cmd.induct) (auto simp: list_all_iff)

lemma token_ok_char: "token_ok b (q, e) \<Longrightarrow> q \<le> i \<Longrightarrow> i < e \<Longrightarrow> i < length b \<and> wordch (b ! i)"
proof -
  assume a: "token_ok b (q, e)" "q \<le> i" "i < e"
  then have "i - q < length (take (e - q) (drop q b))" by (auto simp: token_ok_def)
  from nth_mem [OF this] have "wordch (take (e - q) (drop q b) ! (i - q))" using a(1) by (auto simp: token_ok_def list_all_iff)
  then show ?thesis using a by (simp add: token_ok_def)
qed

lemma takeWhile_cut:
  assumes "n < length xs" "\<forall>i<n. P (xs ! i)" "\<not> P (xs ! n)"
  shows "takeWhile P xs = take n xs"
proof (rule takeWhile_eq_take_P_nth)
  show "\<And>i. i < n \<Longrightarrow> i < length xs \<Longrightarrow> P (xs ! i)" using assms(2) by simp
  show "n < length xs \<Longrightarrow> \<not> P (xs ! n)" using assms(3) by simp
qed

text \<open>No zero that \<open>nulterminate\<close> writes falls into a word, so each word is the C string at its start.\<close>

lemma cstr_nulterminate:
  assumes b: "nonul b" and wf: "wf_cmd b c" and w: "w \<in> set (words_of c)"
  shows "cstr (nulterminate c (b @ [CHR 0x00])) (fst w) = word_text b w"
proof -
  obtain q e where qe: "w = (q, e)" by fastforce
  let ?m = "nulterminate c (b @ [CHR 0x00])"
  have t: "token_ok b (q, e)" using words_of_wf [OF wf w] qe by simp
  then have qb: "q < e" "e \<le> length b" by (simp_all add: token_ok_def)
  have len: "length ?m = length b + 1" by (simp add: nulterminate_stamp length_stamp)
  have in_b: "?m ! i = b ! i" if i: "q \<le> i" "i < e" for i
  proof -
    have ib: "i < length b" "wordch (b ! i)" using token_ok_char [OF t i] by simp_all
    have "i \<notin> snd ` set (words_of c)"
    proof
      assume "i \<in> snd ` set (words_of c)"
      then obtain p where "(p, i) \<in> set (words_of c)" by force
      then have "token_ok b (p, i)" by (rule words_of_wf [OF wf])
      then show False using ib by (simp add: token_ok_def)
    qed
    then show ?thesis using ib by (simp add: nulterminate_stamp nth_stamp nth_append)
  qed
  have "?m ! e = CHR 0x00" using w qe qb by (force simp: nulterminate_stamp nth_stamp)
  moreover have "b ! i \<noteq> CHR 0x00" if "i < length b" for i using b nth_mem [OF that] by (auto simp: nonul_def)
  ultimately have "cstr ?m q = take (e - q) (drop q ?m)"
    unfolding cstr_def using in_b qb len by (intro takeWhile_cut) auto
  also have "\<dots> = take (e - q) (drop q b)"
    using in_b qb len by (intro nth_equalityI) auto
  finally show ?thesis by (simp add: qe word_text_def)
qed

text \<open>
  C14. A line without zeros that is parsed gives a command whose words are maximal sequences of word
  characters inside the line, with at most \<open>MAXARGS - 1\<close> arguments in each simple command, so that the
  arrays have room for the closing null pointer; \<open>nulterminate\<close> keeps to the buffer, and the C string it
  leaves at each word is that word of the line.
\<close>

theorem parsecmd_words:
  assumes "nonul b" "parsecmd b = Inr (c, m)"
  shows "wf_cmd b c \<and> length m = length b + 1 \<and> (\<forall>w\<in>set (words_of c). cstr m (fst w) = word_text b w)"
proof -
  obtain s where p: "parseline (4 * length b + 4) b 0 = Inr (c, s)" "m = nulterminate c (b @ [CHR 0x00])"
    using assms(2) by (auto simp: parsecmd_def Let_def split: sum.splits if_splits)
  have wf: "wf_cmd b c" by (rule parse_wf(1) [OF p(1)])
  then show ?thesis using cstr_nulterminate [OF assms(1) wf] p(2) by (simp add: nulterminate_stamp length_stamp)
qed

theorem parsecmd_words_witness:
  "nonul ''ls >f|wc'' \<and>
   parsecmd ''ls >f|wc'' = Inr (PIPE (REDIR (EXEC [(0, 2)]) (4, 5) 0x201 1) (EXEC [(6, 8)]),
     ''ls'' @ [CHR 0x00] @ ''>f'' @ [CHR 0x00] @ ''wc'' @ [CHR 0x00]) \<and>
   cstr (''ls'' @ [CHR 0x00] @ ''>f'' @ [CHR 0x00] @ ''wc'' @ [CHR 0x00]) 4 = word_text ''ls >f|wc'' (4, 5)"
proof -
  have n: "nonul ''ls >f|wc''" by code_simp
  have p: "parsecmd ''ls >f|wc'' = Inr (PIPE (REDIR (EXEC [(0, 2)]) (4, 5) 0x201 1) (EXEC [(6, 8)]),
     ''ls'' @ [CHR 0x00] @ ''>f'' @ [CHR 0x00] @ ''wc'' @ [CHR 0x00])" by code_simp
  show ?thesis using parsecmd_words [OF n p] n p by simp
qed

lemma parsecmd_no_fuel: "parsecmd b \<noteq> Inl PFuel"
  using parse_fuel(1) [of 0 b "4 * length b + 4"] by (auto simp: parsecmd_def Let_def split: sum.splits)

text \<open>
  C33. The parser returns on every line: with a command or with one of the messages of \<open>panic\<close>, and
  the number of steps given to its recursion is enough.
\<close>

theorem parsecmd_returns: "parsecmd b \<noteq> Inl PFuel"
  by (rule parsecmd_no_fuel)

section \<open>Printing a command line\<close>

text \<open>
  The grammar the parser is written for: a redirection, a simple command with redirections before and
  after each word or a block, a pipeline, and a line with a number of \<open>&\<close>. Every token is printed with
  one space after it.
\<close>

datatype redirection = RIn string | ROut string | RApp string

datatype sexec =
    SCmd "redirection list" "(string \<times> redirection list) list"
  | SBlock sline "redirection list"
  and spipe = SOne sexec | SBar sexec spipe
  and sline = SLine spipe nat | SSemi spipe nat sline

fun pr_redir :: "redirection \<Rightarrow> string" where
  "pr_redir (RIn w) = ''< '' @ w @ '' ''"
| "pr_redir (ROut w) = ''> '' @ w @ '' ''"
| "pr_redir (RApp w) = ''>> '' @ w @ '' ''"

definition pr_redirs :: "redirection list \<Rightarrow> string" where
  "pr_redirs rs = concat (map pr_redir rs)"

definition pr_args :: "(string \<times> redirection list) list \<Rightarrow> string" where
  "pr_args ws = concat (map (\<lambda>(w, rs). w @ '' '' @ pr_redirs rs) ws)"

fun pr_exec :: "sexec \<Rightarrow> string" and pr_pipe :: "spipe \<Rightarrow> string" and pr_line :: "sline \<Rightarrow> string" where
  "pr_exec (SCmd rs ws) = pr_redirs rs @ pr_args ws"
| "pr_exec (SBlock l rs) = ''( '' @ pr_line l @ '') '' @ pr_redirs rs"
| "pr_pipe (SOne e) = pr_exec e"
| "pr_pipe (SBar e p) = pr_exec e @ ''| '' @ pr_pipe p"
| "pr_line (SLine p k) = pr_pipe p @ concat (replicate k ''& '')"
| "pr_line (SSemi p k l) = pr_pipe p @ concat (replicate k ''& '') @ ''; '' @ pr_line l"

text \<open>What the line means.\<close>

fun redirect :: "redirection \<Rightarrow> string command \<Rightarrow> string command" where
  "redirect (RIn w) c = REDIR c w 0 0"
| "redirect (ROut w) c = REDIR c w 0x201 1"
| "redirect (RApp w) c = REDIR c w 0x201 1"

fun mean_exec :: "sexec \<Rightarrow> string command" and mean_pipe :: "spipe \<Rightarrow> string command"
  and mean_line :: "sline \<Rightarrow> string command" where
  "mean_exec (SCmd rs ws) = fold redirect (rs @ concat (map snd ws)) (EXEC (map fst ws))"
| "mean_exec (SBlock l rs) = fold redirect rs (mean_line l)"
| "mean_pipe (SOne e) = mean_exec e"
| "mean_pipe (SBar e p) = PIPE (mean_exec e) (mean_pipe p)"
| "mean_line (SLine p k) = (BACK ^^ k) (mean_pipe p)"
| "mean_line (SSemi p k l) = LIST ((BACK ^^ k) (mean_pipe p)) (mean_line l)"

definition is_word :: "string \<Rightarrow> bool" where
  "is_word w \<longleftrightarrow> w \<noteq> [] \<and> list_all wordch w \<and> nonul w"

fun redir_word :: "redirection \<Rightarrow> string" where
  "redir_word (RIn w) = w" | "redir_word (ROut w) = w" | "redir_word (RApp w) = w"

abbreviation "redirs_ok rs \<equiv> list_all (\<lambda>r. is_word (redir_word r)) rs"

fun exec_ok :: "sexec \<Rightarrow> bool" and pipe_ok :: "spipe \<Rightarrow> bool" and line_ok :: "sline \<Rightarrow> bool" where
  "exec_ok (SCmd rs ws) \<longleftrightarrow>
     redirs_ok rs \<and> list_all (\<lambda>(w, rs). is_word w \<and> redirs_ok rs) ws \<and> length ws < MAXARGS"
| "exec_ok (SBlock l rs) \<longleftrightarrow> line_ok l \<and> redirs_ok rs"
| "pipe_ok (SOne e) \<longleftrightarrow> exec_ok e"
| "pipe_ok (SBar e p) \<longleftrightarrow> exec_ok e \<and> pipe_ok p"
| "line_ok (SLine p k) \<longleftrightarrow> pipe_ok p"
| "line_ok (SSemi p k l) \<longleftrightarrow> pipe_ok p \<and> line_ok l"

subsection \<open>Tokens at the start of the rest of the line\<close>

definition starts :: "(char \<Rightarrow> bool) \<Rightarrow> string \<Rightarrow> bool" where
  "starts P r \<longleftrightarrow> r = [] \<or> P (r ! 0)"

abbreviation "nows \<equiv> starts (\<lambda>c. \<not> in_set whitespace c)"

lemma ws_char [simp]:
  "in_set whitespace c \<longleftrightarrow> c \<in> {CHR '' '', CHR 0x09, CHR 0x0D, CHR 0x0A, CHR 0x0B}"
  by (simp add: in_set_iff whitespace_def)

lemma skip_rest: "drop s b = r \<Longrightarrow> skip P b s = s + length (takeWhile P r)"
  by (simp add: skip_def)

lemma at_rest: "drop s b = c # r \<Longrightarrow> at b s = c"
  by (metis at_def drop_eq_Nil2 hd_drop_conv_nth list.distinct(1) list.sel(1) not_le_imp_less)

lemma drop_rest: "drop s b = u @ r \<Longrightarrow> n = length u \<Longrightarrow> drop (s + n) b = r"
  by (metis add.commute append_eq_conv_conj drop_drop)

lemma skip_nows: "drop s b = r \<Longrightarrow> nows r \<Longrightarrow> skip (in_set whitespace) b s = s"
  by (cases r) (auto simp: skip_rest starts_def)

lemma peek_rest:
  "drop s b = c # r \<Longrightarrow> nows (c # r) \<Longrightarrow> peek b s toks = (s, c \<noteq> CHR 0x00 \<and> in_set toks c)"
  by (simp only: peek_def Let_def skip_nows at_rest)

lemma peek_end: "drop s b = [] \<Longrightarrow> peek b s toks = (s, False)"
  by (simp add: peek_def skip_rest at_def)

text \<open>\<open>peek\<close> does not move at the start of a token.\<close>

lemma peek_nows:
  assumes "drop s b = r" "nows r"
  shows "peek b s toks = (s, r \<noteq> [] \<and> r ! 0 \<noteq> CHR 0x00 \<and> in_set toks (r ! 0))"
proof (cases r)
  case Nil
  then show ?thesis using peek_end assms(1) by simp
next
  case (Cons c r')
  then show ?thesis using peek_rest [of s b c r' toks] assms by simp
qed

lemma gettoken_rest:
  assumes "drop s b = u @ CHR '' '' # r" "nows (u @ CHR '' '' # r)" "nows r" "lex b s = (x, s + length u)"
  shows "gettoken b s = \<lparr>tret = x, tq = s, teq = s + length u, tps = s + length u + 1\<rparr>"
proof -
  have d: "drop (s + length u) b = CHR '' '' # r" by (rule drop_rest [OF assms(1) refl])
  have "skip (in_set whitespace) b (s + length u) = s + length u + 1"
    using assms(3) by (cases r) (auto simp: skip_rest [OF d] starts_def)
  then show ?thesis by (simp only: gettoken_def Let_def skip_nows [OF assms(1,2)] assms(4) prod.case)
qed

lemma gettoken_symbol:
  assumes "drop s b = c # CHR '' '' # r" "nows r" "c \<in> {CHR ''|'', CHR ''('', CHR '')'', CHR '';'', CHR ''&'', CHR ''<'', CHR ''>''}"
  shows "gettoken b s = \<lparr>tret = c, tq = s, teq = s + 1, tps = s + 2\<rparr>"
proof -
  have "at b (s + 1) = CHR '' ''" using drop_rest [of s b "[c]"] assms(1) by (intro at_rest) simp
  then have "lex b s = (c, s + length [c])" using at_rest [OF assms(1)] assms(3) by (auto simp: lex_def Let_def)
  then show ?thesis using gettoken_rest [of s b "[c]" r c] assms by (auto simp: starts_def)
qed

lemma gettoken_append:
  assumes "drop s b = CHR ''>'' # CHR ''>'' # CHR '' '' # r" "nows r"
  shows "gettoken b s = \<lparr>tret = CHR ''+'', tq = s, teq = s + 2, tps = s + 3\<rparr>"
proof -
  have "at b (s + 1) = CHR ''>''" using drop_rest [of s b "''>''"] assms(1) by (intro at_rest) simp
  then have "lex b s = (CHR ''+'', s + length ''>>'')" using at_rest [OF assms(1)] by (simp add: lex_def Let_def)
  then show ?thesis using gettoken_rest [of s b "''>>''" r] assms by (simp add: starts_def)
qed

lemma gettoken_is_word:
  assumes "drop s b = w @ CHR '' '' # r" "nows r" "is_word w"
  shows "gettoken b s = \<lparr>tret = CHR ''a'', tq = s, teq = s + length w, tps = s + length w + 1\<rparr>"
    "word_text b (s, s + length w) = w"
proof -
  obtain c w' where w: "w = c # w'" using assms(3) by (cases w) (auto simp: is_word_def)
  have c: "wordch c" "c \<noteq> CHR 0x00" using assms(3) by (auto simp: is_word_def nonul_def w)
  have "takeWhile wordch (w @ CHR '' '' # r) = w"
    using assms(3) by (subst takeWhile_append2) (auto simp: is_word_def list_all_iff wordch_def)
  then have "lex b s = (CHR ''a'', s + length w)"
    using at_rest [of s b c] assms(1) c by (auto simp: w lex_def Let_def skip_rest wordch_def in_set_iff symbols_def)
  then show "gettoken b s = \<lparr>tret = CHR ''a'', tq = s, teq = s + length w, tps = s + length w + 1\<rparr>"
    using assms c(1) by (intro gettoken_rest) (auto simp: starts_def w wordch_def)
  show "word_text b (s, s + length w) = w" using assms(1) by (simp add: word_text_def)
qed

subsection \<open>Parsing a printed line\<close>

abbreviation texts :: "string \<Rightarrow> cmd \<Rightarrow> string command" where
  "texts b \<equiv> map_command (word_text b)"

lemma starts_word: "is_word w \<Longrightarrow> nows (w @ r)"
  by (cases w) (auto simp: starts_def is_word_def wordch_def)

lemma starts_redirs: "nows r \<Longrightarrow> nows (pr_redirs rs @ r)"
proof (cases rs)
  case (Cons x rs')
  then show ?thesis by (cases x) (simp_all add: pr_redirs_def starts_def)
qed (simp add: pr_redirs_def)

lemma parse_redir_file:
  assumes p: "snd (peek b s ''<>'')" "fst (peek b s ''<>'') = s" and t: "gettoken b s = \<lparr>tret = x, tq = s, teq = e, tps = u\<rparr>"
    and f: "drop u b = w @ CHR '' '' # r" "is_word w" "nows r"
  shows "parseredirs b c s = parseredirs b (redir_of c x (u, u + length w)) (u + length w + 1) \<and> word_text b (u, u + length w) = w"
  using gettoken_is_word [OF f(1,3,2)] p t by (subst parseredirs.simps) (simp add: Let_def)

lemma parse_redir:
  assumes x: "is_word (redir_word x)" and d: "drop s b = pr_redir x @ r" and r: "nows r"
  shows "\<exists>c'. parseredirs b c s = parseredirs b c' (s + length (pr_redir x)) \<and> texts b c' = redirect x (texts b c)"
proof (cases x)
  case (RIn w)
  have d: "drop s b = CHR ''<'' # CHR '' '' # w @ CHR '' '' # r" and w: "is_word w" using d x RIn by simp_all
  have "nows (CHR ''<'' # CHR '' '' # w @ CHR '' '' # r)" by (simp add: starts_def)
  then have p: "snd (peek b s ''<>'')" "fst (peek b s ''<>'') = s" using peek_rest [OF d, of "''<>''"] by (simp_all add: in_set_iff)
  have f: "drop (s + 2) b = w @ CHR '' '' # r" using drop_rest [of s b "''< ''"] d by simp
  from parse_redir_file [OF p gettoken_symbol [OF d starts_word [OF w]] f w r, of c]
  show ?thesis by (intro exI [of _ "redir_of c CHR ''<'' (s + 2, s + 2 + length w)"]) (simp add: redir_of_def RIn)
next
  case (ROut w)
  have d: "drop s b = CHR ''>'' # CHR '' '' # w @ CHR '' '' # r" and w: "is_word w" using d x ROut by simp_all
  have "nows (CHR ''>'' # CHR '' '' # w @ CHR '' '' # r)" by (simp add: starts_def)
  then have p: "snd (peek b s ''<>'')" "fst (peek b s ''<>'') = s" using peek_rest [OF d, of "''<>''"] by (simp_all add: in_set_iff)
  have f: "drop (s + 2) b = w @ CHR '' '' # r" using drop_rest [of s b "''> ''"] d by simp
  from parse_redir_file [OF p gettoken_symbol [OF d starts_word [OF w]] f w r, of c]
  show ?thesis by (intro exI [of _ "redir_of c CHR ''>'' (s + 2, s + 2 + length w)"]) (simp add: redir_of_def ROut)
next
  case (RApp w)
  have d: "drop s b = CHR ''>'' # CHR ''>'' # CHR '' '' # w @ CHR '' '' # r" and w: "is_word w" using d x RApp by simp_all
  have "nows (CHR ''>'' # CHR ''>'' # CHR '' '' # w @ CHR '' '' # r)" by (simp add: starts_def)
  then have p: "snd (peek b s ''<>'')" "fst (peek b s ''<>'') = s" using peek_rest [OF d, of "''<>''"] by (simp_all add: in_set_iff)
  have f: "drop (s + 3) b = w @ CHR '' '' # r" using drop_rest [of s b "''>> ''" _ 3] d by simp
  from parse_redir_file [OF p gettoken_append [OF d starts_word [OF w]] f w r, of c]
  moreover have "s + length (pr_redir x) = s + 3 + length w + 1" by (simp add: RApp)
  ultimately show ?thesis by (intro exI [of _ "redir_of c CHR ''+'' (s + 3, s + 3 + length w)"]) (simp only: redir_of_def RApp, simp)
qed

lemma parse_redirs:
  assumes "redirs_ok rs" "drop s b = pr_redirs rs @ r" "nows r" "starts (\<lambda>c. c \<notin> {CHR ''<'', CHR ''>''}) r"
  shows "\<exists>c'. parseredirs b c s = Inr (c', s + length (pr_redirs rs)) \<and> texts b c' = fold redirect rs (texts b c)"
  using assms(1,2)
proof (induction rs arbitrary: s c)
  case Nil
  then have "drop s b = r" by (simp add: pr_redirs_def)
  then have "peek b s ''<>'' = (s, False)" using peek_nows [OF _ assms(3), of s b] assms(4) by (auto simp: starts_def in_set_iff)
  then show ?case by (subst parseredirs.simps) (simp add: pr_redirs_def)
next
  case (Cons x rs)
  have d: "drop s b = pr_redir x @ pr_redirs rs @ r" using Cons.prems(2) by (simp add: pr_redirs_def)
  obtain c' where c': "parseredirs b c s = parseredirs b c' (s + length (pr_redir x))" "texts b c' = redirect x (texts b c)"
    using parse_redir [OF _ d starts_redirs [OF assms(3)]] Cons.prems(1) by auto
  have "drop (s + length (pr_redir x)) b = pr_redirs rs @ r" by (rule drop_rest [OF d refl])
  from Cons.IH [OF _ this, of c'] show ?case using c' Cons.prems(1) by (auto simp: pr_redirs_def add.assoc)
qed

text \<open>The redirections around a command commute with its arguments.\<close>

lemma texts_add_arg: "map_command f (add_arg c w) = add_arg (map_command f c) (f w)"
  by (induction c w rule: add_arg.induct) simp_all

lemma add_arg_redirect: "add_arg (redirect x c) w = redirect x (add_arg c w)"
  by (cases x) simp_all

lemma add_arg_redirs: "add_arg (fold redirect rs c) w = fold redirect rs (add_arg c w)"
  by (induction rs arbitrary: c) (simp_all add: add_arg_redirect)

lemma fold_add_arg_redirs: "foldl add_arg (fold redirect rs c) ws = fold redirect rs (foldl add_arg c ws)"
  by (induction ws arbitrary: c) (simp_all add: add_arg_redirs)

lemma foldl_add_arg: "foldl add_arg (EXEC as) ws = EXEC (as @ ws)"
  by (induction ws arbitrary: as) simp_all

text \<open>A simple command ends at one of these.\<close>

abbreviation "stops \<equiv> starts (\<lambda>c. c \<in> {CHR ''|'', CHR '')'', CHR ''&'', CHR '';''})"

lemma stops_nows: "stops r \<Longrightarrow> nows r \<and> starts (\<lambda>c. c \<notin> {CHR ''<'', CHR ''>''}) r"
  by (auto simp: starts_def)

lemma wordch_plain: "wordch c \<Longrightarrow> c \<notin> {CHR ''<'', CHR ''>'', CHR ''|'', CHR ''('', CHR '')'', CHR ''&'', CHR '';'', CHR '' ''}"
  by (simp add: wordch_def in_set_iff symbols_def whitespace_def)

lemma args_start:
  assumes "list_all (\<lambda>(w, rs). is_word w \<and> redirs_ok rs) ws" "stops r"
  shows "nows (pr_args ws @ r) \<and> starts (\<lambda>c. c \<notin> {CHR ''<'', CHR ''>''}) (pr_args ws @ r) \<and>
         starts (\<lambda>c. c \<noteq> CHR ''('') (pr_args ws @ r)"
proof (cases ws)
  case Nil
  then show ?thesis using assms(2) by (auto simp: pr_args_def starts_def)
next
  case (Cons a ws')
  obtain w rs where a: "a = (w, rs)" by fastforce
  obtain c w' where w: "w = c # w'" "wordch c" using assms(1) by (cases w) (auto simp: Cons a is_word_def)
  then show ?thesis using wordch_plain [OF w(2)] by (auto simp: Cons a pr_args_def starts_def wordch_def)
qed

lemma parse_args_end:
  assumes "drop s b = r" "s \<le> length b" "stops r"
  shows "parse_args b argc c s = Inr (c, s)"
proof (cases r)
  case Nil
  then have "peek b s ''|)&;'' = (s, False)" "skip (in_set whitespace) b s = s" "lex b s = (CHR 0x00, s)"
    using assms(1) peek_end by (auto simp: skip_rest lex_def at_def)
  then show ?thesis by (subst parse_args.simps) (simp add: gettoken_def)
next
  case (Cons x r')
  then have "peek b s ''|)&;'' = (s, True)"
    using peek_nows [OF assms(1), of "''|)&;''"] assms(3) stops_nows [OF assms(3)] by (auto simp: starts_def in_set_iff)
  then show ?thesis by (subst parse_args.simps) simp
qed

lemma parse_args_word:
  assumes d: "drop s b = w @ CHR '' '' # r" and w: "is_word w" and r: "nows r" and n: "argc + 1 < MAXARGS"
  shows "parse_args b argc c s =
    (case parseredirs b (add_arg c (s, s + length w)) (s + length w + 1) of
       Inl e \<Rightarrow> Inl e | Inr (c, s) \<Rightarrow> parse_args b (argc + 1) c s)"
proof -
  obtain x w' where x: "w = x # w'" "wordch x" using w by (cases w) (auto simp: is_word_def)
  have "peek b s ''|)&;'' = (s, False)"
    using peek_nows [OF d starts_word [OF w], of "''|)&;''"] wordch_plain [OF x(2)] by (auto simp: in_set_iff x(1))
  then show ?thesis
    using gettoken_is_word(1) [OF d r w] n by (subst parse_args.simps) (simp add: Let_def)
qed

lemma parse_args_pr:
  assumes "list_all (\<lambda>(w, rs). is_word w \<and> redirs_ok rs) ws" "drop s b = pr_args ws @ r" "s \<le> length b" "stops r"
    "argc + length ws < MAXARGS"
  shows "\<exists>c'. parse_args b argc c s = Inr (c', s + length (pr_args ws)) \<and>
    texts b c' = fold redirect (concat (map snd ws)) (foldl add_arg (texts b c) (map fst ws))"
  using assms(1,2,3,5)
proof (induction ws arbitrary: s c argc)
  case Nil
  then show ?case using parse_args_end [of s b r argc c] assms(4) by (simp add: pr_args_def)
next
  case (Cons a ws)
  obtain w rs where a: "a = (w, rs)" by fastforce
  have ok: "is_word w" "redirs_ok rs" "list_all (\<lambda>(w, rs). is_word w \<and> redirs_ok rs) ws" using Cons.prems(1) by (simp_all add: a)
  note st = args_start [OF ok(3) assms(4)]
  have d: "drop s b = w @ CHR '' '' # pr_redirs rs @ pr_args ws @ r" using Cons.prems(2) by (simp add: a pr_args_def)
  have d1: "drop (s + length w + 1) b = pr_redirs rs @ pr_args ws @ r"
    using drop_rest [of s b "w @ '' ''" _ "length w + 1"] d by simp
  obtain c1 where c1: "parseredirs b (add_arg c (s, s + length w)) (s + length w + 1) = Inr (c1, s + length w + 1 + length (pr_redirs rs))"
    "texts b c1 = fold redirect rs (texts b (add_arg c (s, s + length w)))"
    using parse_redirs [OF ok(2) d1] st by blast
  have d2: "drop (s + length w + 1 + length (pr_redirs rs)) b = pr_args ws @ r" by (rule drop_rest [OF d1 refl])
  have "s + length w + 1 + length (pr_redirs rs) \<le> length b"
    using arg_cong [OF d, of length] Cons.prems(3) by simp
  then obtain c' where c': "parse_args b (argc + 1) c1 (s + length w + 1 + length (pr_redirs rs)) =
      Inr (c', s + length w + 1 + length (pr_redirs rs) + length (pr_args ws))"
    "texts b c' = fold redirect (concat (map snd ws)) (foldl add_arg (texts b c1) (map fst ws))"
    using Cons.IH [OF ok(3) d2, of "argc + 1" c1] Cons.prems(4) by auto
  have "word_text b (s, s + length w) = w" using d by (simp add: word_text_def)
  then show ?case
    using parse_args_word [OF d ok(1) starts_redirs, of argc c] st Cons.prems(4) c1 c'
    by (simp add: a pr_args_def texts_add_arg fold_add_arg_redirs add.assoc)
qed

lemma concat_replicate_Suc: "concat (replicate (Suc k) u) @ r = u @ concat (replicate k u) @ r"
  by simp

lemma parse_backs_pr:
  assumes "drop s b = concat (replicate k ''& '') @ r" "starts (\<lambda>c. c \<in> {CHR '')'', CHR '';''}) r"
  shows "parse_backs b c s = ((BACK ^^ k) c, s + 2 * k)"
  using assms(1)
proof (induction k arbitrary: s c)
  case 0
  then have "drop s b = r" by simp
  then have "peek b s ''&'' = (s, False)" using peek_nows [of s b r "''&''"] assms(2) by (auto simp: starts_def in_set_iff [of "''&''"])
  then show ?case by (subst parse_backs.simps) simp
next
  case (Suc k)
  let ?r = "concat (replicate k ''& '') @ r"
  have d: "drop s b = CHR ''&'' # CHR '' '' # ?r" using Suc.prems by simp
  have n: "nows ?r" using assms(2) by (cases k) (auto simp: starts_def)
  have "peek b s ''&'' = (s, True)" using peek_rest [OF d, of "''&''"] by (simp add: starts_def in_set_iff [of "''&''"])
  then have "parse_backs b c s = parse_backs b (BACK c) (s + 2)"
    using gettoken_symbol [OF d n] by (subst parse_backs.simps) simp
  moreover have "drop (s + 2) b = ?r" using drop_rest [of s b "''& ''" _ 2] d by simp
  ultimately show ?case using Suc.IH [of "s + 2" "BACK c"] by (simp add: funpow_swap1)
qed

text \<open>A symbol that is printed is the next token.\<close>

lemma parse_symbol:
  assumes "drop s b = c # CHR '' '' # r" "nows r" "c \<in> {CHR ''|'', CHR ''('', CHR '')'', CHR '';'', CHR ''&'', CHR ''<'', CHR ''>''}"
    "in_set toks c"
  shows "peek b s toks = (s, True)" "tps (gettoken b s) = s + 2" "drop (s + 2) b = r" "s + 2 \<le> length b"
proof -
  show "peek b s toks = (s, True)" using peek_rest [OF assms(1), of toks] assms(3,4) by (auto simp: starts_def)
  show "tps (gettoken b s) = s + 2" using gettoken_symbol [OF assms(1-3)] by simp
  show "drop (s + 2) b = r" using drop_rest [of s b "[c, CHR '' '']" r 2] assms(1) by simp
  show "s + 2 \<le> length b" using arg_cong [OF assms(1), of length] by simp
qed

lemma peek_other:
  assumes "drop s b = r" "nows r" "starts (\<lambda>c. c \<notin> set toks) r"
  shows "peek b s toks = (s, False)"
  using peek_nows [OF assms(1,2), of toks] assms(3) by (auto simp: starts_def in_set_iff [of toks])

lemma starts_pr:
  "stops r \<Longrightarrow> exec_ok e \<Longrightarrow> nows (pr_exec e @ r)"
  "stops r \<Longrightarrow> pipe_ok p \<Longrightarrow> nows (pr_pipe p @ r)"
  "stops r \<Longrightarrow> line_ok l \<Longrightarrow> nows (pr_line l @ r)"
proof (induction e and p and l arbitrary: r and r and r rule: pr_exec_pr_pipe_pr_line.induct)
  case (1 rs ws)
  then show ?case using args_start [of ws r] starts_redirs [of "pr_args ws @ r" rs] by simp
next
  case (4 e p)
  have "stops (''| '' @ pr_pipe p @ r)" by (simp add: starts_def)
  from "4.IH"(1) [OF this] show ?case using "4.prems" by simp
next
  case (5 p k)
  have "stops (concat (replicate k ''& '') @ r)" using "5.prems"(1) by (cases k) (auto simp: starts_def)
  from "5.IH" [OF this] show ?case using "5.prems" by simp
next
  case (6 p k l)
  have "stops (concat (replicate k ''& '') @ ''; '' @ pr_line l @ r)" by (cases k) (auto simp: starts_def)
  from "6.IH"(1) [OF this] show ?case using "6.prems" by simp
qed (auto simp: starts_def)

lemma parse_simple:
  assumes "exec_ok (SCmd rs ws)" "drop s b = pr_exec (SCmd rs ws) @ r" "s \<le> length b" "stops r"
  shows "\<exists>c. parseexec (Suc n) b s = Inr (c, s + length (pr_exec (SCmd rs ws))) \<and> texts b c = mean_exec (SCmd rs ws)"
proof -
  have ok: "redirs_ok rs" "list_all (\<lambda>(w, rs). is_word w \<and> redirs_ok rs) ws" "0 + length ws < MAXARGS" using assms(1) by simp_all
  note st = args_start [OF ok(2) assms(4)]
  have d: "drop s b = pr_redirs rs @ pr_args ws @ r" using assms(2) by simp
  have "starts (\<lambda>c. c \<notin> set ''('') (pr_redirs rs @ pr_args ws @ r)"
  proof (cases rs)
    case (Cons x rs')
    then show ?thesis by (cases x) (simp_all add: pr_redirs_def starts_def)
  qed (use st in \<open>simp add: pr_redirs_def\<close>)
  then have p: "peek b s ''('' = (s, False)" using peek_other [OF d starts_redirs] st by blast
  obtain c1 where c1: "parseredirs b (EXEC []) s = Inr (c1, s + length (pr_redirs rs))" "texts b c1 = fold redirect rs (EXEC [])"
    using parse_redirs [OF ok(1) d, of "EXEC []"] st by auto
  have d1: "drop (s + length (pr_redirs rs)) b = pr_args ws @ r" by (rule drop_rest [OF d refl])
  have "s + length (pr_redirs rs) \<le> length b" using arg_cong [OF d, of length] assms(3) by simp
  from parse_args_pr [OF ok(2) d1 this assms(4) ok(3), of c1]
  show ?thesis using p c1 by (auto simp: fold_add_arg_redirs foldl_add_arg add.assoc)
qed

lemma length_backs: "length (concat (replicate k ''& '')) = 2 * k"
  by (induction k) simp_all

lemma line_rest:
  assumes "drop u b = concat (replicate k ''& '') @ r" "starts (\<lambda>c. c \<in> {CHR '')'', CHR '';''}) r" "u \<le> length b"
  shows "parse_backs b c u = ((BACK ^^ k) c, u + 2 * k) \<and> drop (u + 2 * k) b = r \<and> u + 2 * k \<le> length b"
  using parse_backs_pr [OF assms(1,2)] drop_rest [OF assms(1) length_backs [symmetric]] arg_cong [OF assms(1), of length] assms(3)
  by (simp add: length_backs)

lemma texts_backs: "map_command f ((BACK ^^ k) c) = (BACK ^^ k) (map_command f c)"
  by (induction k) simp_all

lemma parse_block:
  assumes "drop s b = pr_exec (SBlock l rs) @ r" "redirs_ok rs" "line_ok l" "stops r" "s \<le> length b" "4 * (length b - s) + 2 \<le> n"
    and l: "\<And>s n. drop s b = pr_line l @ '') '' @ pr_redirs rs @ r \<Longrightarrow> s \<le> length b \<Longrightarrow> 4 * (length b - s) + 4 \<le> n \<Longrightarrow>
      \<exists>c. parseline n b s = Inr (c, s + length (pr_line l)) \<and> texts b c = mean_line l"
  shows "\<exists>c. parseexec n b s = Inr (c, s + length (pr_exec (SBlock l rs))) \<and> texts b c = mean_exec (SBlock l rs)"
proof -
  let ?r = "pr_line l @ '') '' @ pr_redirs rs @ r"
  have d: "drop s b = CHR ''('' # CHR '' '' # ?r" using assms(1) by simp
  have "nows ?r" using assms(3) by (intro starts_pr(3)) (simp_all add: starts_def)
  note o = parse_symbol [OF d this, of "''(''", simplified in_set_iff, simplified]
  obtain k where n: "n = Suc (Suc k)" "4 * (length b - (s + 2)) + 4 \<le> k"
    using assms(6) o(4) by (cases n; cases "n - 1") auto
  obtain c where c: "parseline k b (s + 2) = Inr (c, s + 2 + length (pr_line l))" "texts b c = mean_line l"
    using l [of "s + 2" k] o(3,4) n(2) by auto
  let ?u = "s + 2 + length (pr_line l)"
  have du: "drop ?u b = CHR '')'' # CHR '' '' # pr_redirs rs @ r" using drop_rest [of "s + 2" b "pr_line l"] o(3) by simp
  have "nows (pr_redirs rs @ r)" using starts_redirs stops_nows [OF assms(4)] by blast
  note q = parse_symbol [OF du this, of "'')''", simplified in_set_iff, simplified]
  obtain c' where "parseredirs b c (?u + 2) = Inr (c', ?u + 2 + length (pr_redirs rs))" "texts b c' = fold redirect rs (texts b c)"
    using parse_redirs [OF assms(2), of "?u + 2" b r c] q(3) stops_nows [OF assms(4)] by (auto simp: add.assoc)
  then show ?thesis using o q c by (auto simp: n(1) add.assoc)
qed

lemma parse_pr:
  "exec_ok e \<Longrightarrow> stops r \<Longrightarrow> drop s b = pr_exec e @ r \<Longrightarrow> s \<le> length b \<Longrightarrow> 4 * (length b - s) + 2 \<le> n \<Longrightarrow>
     \<exists>c. parseexec n b s = Inr (c, s + length (pr_exec e)) \<and> texts b c = mean_exec e"
  "pipe_ok p \<Longrightarrow> starts (\<lambda>c. c \<in> {CHR '')'', CHR ''&'', CHR '';''}) r \<Longrightarrow> drop s b = pr_pipe p @ r \<Longrightarrow> s \<le> length b \<Longrightarrow>
     4 * (length b - s) + 3 \<le> n \<Longrightarrow> \<exists>c. parsepipe n b s = Inr (c, s + length (pr_pipe p)) \<and> texts b c = mean_pipe p"
  "line_ok l \<Longrightarrow> starts (\<lambda>c. c = CHR '')'') r \<Longrightarrow> drop s b = pr_line l @ r \<Longrightarrow> s \<le> length b \<Longrightarrow>
     4 * (length b - s) + 4 \<le> n \<Longrightarrow> \<exists>c. parseline n b s = Inr (c, s + length (pr_line l)) \<and> texts b c = mean_line l"
proof (induction e and p and l arbitrary: r s n and r s n and r s n rule: pr_exec_pr_pipe_pr_line.induct)
  case (1 rs ws)
  obtain k where "n = Suc k" using "1.prems"(5) by (cases n) auto
  then show ?case using parse_simple [OF "1.prems"(1,3,4,2), of k] by simp
next
  case (2 l rs)
  have "starts (\<lambda>c. c = CHR '')'') ('') '' @ pr_redirs rs @ r)" by (simp add: starts_def)
  then show ?case using "2.IH" "2.prems" by (intro parse_block) simp_all
next
  case (3 e)
  obtain k where n: "n = Suc k" "4 * (length b - s) + 2 \<le> k" using "3.prems"(5) by (cases n) auto
  have st: "stops r" "nows r" "starts (\<lambda>c. c \<notin> set ''|'') r" using "3.prems"(2) by (auto simp: starts_def)
  obtain c where c: "parseexec k b s = Inr (c, s + length (pr_exec e))" "texts b c = mean_exec e"
    using "3.IH" [OF _ st(1) _ "3.prems"(4) n(2)] "3.prems" by auto
  have "drop (s + length (pr_exec e)) b = r" using drop_rest [of s b "pr_exec e" r] "3.prems"(3) by simp
  from peek_other [OF this st(2,3)] show ?case using c by (simp add: n(1))
next
  case (4 e p)
  obtain k where n: "n = Suc k" "4 * (length b - s) + 2 \<le> k" using "4.prems"(5) by (cases n) auto
  let ?r = "pr_pipe p @ r" and ?u = "s + length (pr_exec e)"
  have d: "drop s b = pr_exec e @ CHR ''|'' # CHR '' '' # ?r" using "4.prems"(3) by simp
  obtain c where c: "parseexec k b s = Inr (c, ?u)" "texts b c = mean_exec e"
    using "4.IH"(1) [OF _ _ d "4.prems"(4) n(2)] "4.prems"(1) by (auto simp: starts_def)
  have "nows ?r" using "4.prems"(1,2) by (intro starts_pr(2)) (auto simp: starts_def)
  note o = parse_symbol [OF drop_rest [OF d refl] this, of "''|''", simplified in_set_iff, simplified]
  have "4 * (length b - (?u + 2)) + 3 \<le> k" using o(4) n(2) by linarith
  then obtain c' where "parsepipe k b (?u + 2) = Inr (c', ?u + 2 + length (pr_pipe p))" "texts b c' = mean_pipe p"
    using "4.IH"(2) [of r "?u + 2" k] "4.prems"(1,2) o(3,4) by auto
  then show ?case using c o by (simp add: n(1) add.assoc)
next
  case (5 p k)
  obtain m where n: "n = Suc m" "4 * (length b - s) + 3 \<le> m" using "5.prems"(5) by (cases n) auto
  let ?u = "s + length (pr_pipe p)"
  have d: "drop s b = pr_pipe p @ concat (replicate k ''& '') @ r" using "5.prems"(3) by simp
  have "starts (\<lambda>c. c \<in> {CHR '')'', CHR ''&'', CHR '';''}) (concat (replicate k ''& '') @ r)"
    using "5.prems"(2) by (cases k) (auto simp: starts_def)
  then obtain c where c: "parsepipe m b s = Inr (c, ?u)" "texts b c = mean_pipe p"
    using "5.IH" [OF _ _ d "5.prems"(4) n(2)] "5.prems"(1) by auto
  have u: "?u \<le> length b" using arg_cong [OF d, of length] "5.prems"(4) by simp
  have "starts (\<lambda>c. c \<in> {CHR '')'', CHR '';''}) r" using "5.prems"(2) by (auto simp: starts_def)
  note q = line_rest [OF drop_rest [OF d refl] this u, of c]
  then have "peek b (?u + 2 * k) '';'' = (?u + 2 * k, False)"
    using "5.prems"(2) by (intro peek_other [of _ _ r]) (auto simp: starts_def)
  then show ?case using c q by (simp add: n(1) texts_backs length_backs add.assoc)
next
  case (6 p k l)
  obtain m where n: "n = Suc m" "4 * (length b - s) + 3 \<le> m" using "6.prems"(5) by (cases n) auto
  let ?u = "s + length (pr_pipe p)" and ?r = "pr_line l @ r"
  let ?v = "?u + 2 * k"
  have d: "drop s b = pr_pipe p @ concat (replicate k ''& '') @ CHR '';'' # CHR '' '' # ?r" using "6.prems"(3) by simp
  have "starts (\<lambda>c. c \<in> {CHR '')'', CHR ''&'', CHR '';''}) (concat (replicate k ''& '') @ CHR '';'' # CHR '' '' # ?r)"
    by (cases k) (auto simp: starts_def)
  then obtain c where c: "parsepipe m b s = Inr (c, ?u)" "texts b c = mean_pipe p"
    using "6.IH"(1) [OF _ _ d "6.prems"(4) n(2)] "6.prems"(1) by auto
  have u: "?u \<le> length b" using arg_cong [OF d, of length] "6.prems"(4) by simp
  have q: "parse_backs b c ?u = ((BACK ^^ k) c, ?v)" "drop ?v b = CHR '';'' # CHR '' '' # ?r"
    using line_rest [OF drop_rest [OF d refl] _ u, of c] by (auto simp: starts_def)
  have "nows ?r" using "6.prems"(1,2) by (intro starts_pr(3)) (auto simp: starts_def)
  note o = parse_symbol [OF q(2) this, of "'';''", simplified in_set_iff, simplified]
  have "4 * (length b - (?v + 2)) + 4 \<le> m" using o(4) n(2) by linarith
  then obtain c' where "parseline m b (?v + 2) = Inr (c', ?v + 2 + length (pr_line l))" "texts b c' = mean_line l"
    using "6.IH"(2) [of r "?v + 2" m] "6.prems"(1,2) o(3,4) by auto
  then show ?case using c q o by (simp add: n(1) texts_backs length_backs add.assoc)
qed

lemma nonul_append [simp]: "nonul (u @ v) \<longleftrightarrow> nonul u \<and> nonul v"
  by (auto simp: nonul_def)

lemma nonul_Cons [simp]: "nonul (c # v) \<longleftrightarrow> c \<noteq> CHR 0x00 \<and> nonul v"
  by (auto simp: nonul_def)

lemma nonul_Nil [simp]: "nonul []"
  by (simp add: nonul_def)

lemma nonul_redirs: "redirs_ok rs \<Longrightarrow> nonul (pr_redirs rs)"
proof (induction rs)
  case (Cons x rs)
  then show ?case by (cases x) (auto simp: pr_redirs_def is_word_def)
qed (simp add: pr_redirs_def)

lemma nonul_args: "list_all (\<lambda>(w, rs). is_word w \<and> redirs_ok rs) ws \<Longrightarrow> nonul (pr_args ws)"
  by (induction ws) (auto simp: pr_args_def is_word_def nonul_redirs)

lemma nonul_backs: "nonul (concat (replicate k ''& ''))"
  by (induction k) simp_all

lemma nonul_pr:
  "exec_ok e \<Longrightarrow> nonul (pr_exec e)" "pipe_ok p \<Longrightarrow> nonul (pr_pipe p)" "line_ok l \<Longrightarrow> nonul (pr_line l)"
  by (induction e and p and l rule: pr_exec_pr_pipe_pr_line.induct) (simp_all add: nonul_redirs nonul_args nonul_backs)

lemma map_command_cong: "(\<And>w. w \<in> set (words_of c) \<Longrightarrow> f w = g w) \<Longrightarrow> map_command f c = map_command g c"
  by (induction c) auto

text \<open>
  C11. The parser inverts the printer of its grammar: a printed line is parsed, and the strings that
  \<open>nulterminate\<close> leaves in the buffer make it the command that the line means.
\<close>

theorem parsecmd_print:
  assumes "line_ok l"
  shows "\<exists>c m. parsecmd (pr_line l) = Inr (c, m) \<and> map_command (\<lambda>w. cstr m (fst w)) c = mean_line l"
proof -
  let ?b = "pr_line l"
  obtain c where c: "parseline (4 * length ?b + 4) ?b 0 = Inr (c, length ?b)" "texts ?b c = mean_line l"
    using parse_pr(3) [OF assms, of "[]" 0 ?b "4 * length ?b + 4"] by (auto simp: starts_def)
  have p: "parsecmd ?b = Inr (c, nulterminate c (?b @ [CHR 0x00]))" by (simp add: parsecmd_def c(1) peek_end)
  have "map_command (\<lambda>w. cstr (nulterminate c (?b @ [CHR 0x00])) (fst w)) c = texts ?b c"
    using cstr_nulterminate [OF nonul_pr(3) [OF assms] parse_wf(1) [OF c(1)]] by (intro map_command_cong) simp
  then show ?thesis using p c(2) by simp
qed

text \<open>A block in the background, and a pipeline with redirections.\<close>

definition sample_line :: sline where
  "sample_line =
     SSemi (SOne (SBlock (SLine (SOne (SCmd [] [(''ls'', [ROut ''f''])])) 0) [])) 1
       (SLine (SBar (SCmd [RIn ''f''] [(''cat'', []), (''-'', [])]) (SOne (SCmd [] [(''wc'', [])]))) 0)"

theorem parsecmd_print_witness:
  "line_ok sample_line \<and> pr_line sample_line = ''( ls > f ) & ; < f cat - | wc '' \<and>
   (\<exists>c m. parsecmd ''( ls > f ) & ; < f cat - | wc '' = Inr (c, m) \<and>
      map_command (\<lambda>w. cstr m (fst w)) c =
        LIST (BACK (REDIR (EXEC [''ls'']) ''f'' 0x201 1))
          (PIPE (REDIR (EXEC [''cat'', ''-'']) ''f'' 0 0) (EXEC [''wc''])))"
proof -
  have l: "line_ok sample_line" by code_simp
  have p: "pr_line sample_line = ''( ls > f ) & ; < f cat - | wc ''" by code_simp
  have m: "mean_line sample_line = LIST (BACK (REDIR (EXEC [''ls'']) ''f'' 0x201 1))
          (PIPE (REDIR (EXEC [''cat'', ''-'']) ''f'' 0 0) (EXEC [''wc'']))"
    by (simp add: sample_line_def)
  show ?thesis using parsecmd_print [OF l] l unfolding p m by blast
qed

section \<open>The interpreter\<close>

definition panic_u :: "string \<Rightarrow> unit uprog" where
  "panic_u s = ubind (printf 2 (''%s'' @ nl) [UStr (Some s)]) (\<lambda>_. UExit)"

text \<open>\<open>fork1\<close>, and the statement \<open>if(fork1() == 0) child;\<close>.\<close>

definition fork1 :: "int uprog" where
  "fork1 =
     UCall UFork (\<lambda>a. ubind (if ares a = -1 then panic_u ''fork'' else UDone ()) (\<lambda>_. UDone (ares a)))"

definition in_child :: "unit uprog \<Rightarrow> unit uprog" where
  "in_child child = ubind fork1 (\<lambda>pid. if pid = 0 then child else UDone ())"

fun runcmd :: "string command \<Rightarrow> unit uprog" where
  "runcmd (EXEC argv) =
     (case argv of
        [] \<Rightarrow> UExit
      | a # _ \<Rightarrow> UCall (UExec a argv) (\<lambda>_. ubind (printf 2 (''exec %s failed'' @ nl) [UStr (Some a)]) (\<lambda>_. UExit)))"
| "runcmd (REDIR c f md d) =
     UCall (UClose (int d)) (\<lambda>_.
     UCall (UOpen f md) (\<lambda>a.
       if ares a < 0 then ubind (printf 2 (''open %s failed'' @ nl) [UStr (Some f)]) (\<lambda>_. UExit)
       else ubind (runcmd c) (\<lambda>_. UExit)))"
| "runcmd (LIST l r) =
     ubind (in_child (runcmd l)) (\<lambda>_. UCall UWait (\<lambda>_. ubind (runcmd r) (\<lambda>_. UExit)))"
| "runcmd (PIPE l r) =
     UCall UPipe (\<lambda>a.
       ubind (if ares a < 0 then panic_u ''pipe'' else UDone ()) (\<lambda>_.
       let (p0, p1) = afds a
       in ubind (in_child (ubind (ucalls [UClose 1, UDup p1, UClose p0, UClose p1]) (\<lambda>_. runcmd l))) (\<lambda>_.
          ubind (in_child (ubind (ucalls [UClose 0, UDup p0, UClose p0, UClose p1]) (\<lambda>_. runcmd r))) (\<lambda>_.
          ubind (ucalls [UClose p0, UClose p1, UWait, UWait]) (\<lambda>_. UExit)))))"
| "runcmd (BACK c) = ubind (in_child (runcmd c)) (\<lambda>_. UExit)"

text \<open>The line as a C string, or nothing at the end of the file.\<close>

definition getcmd :: "string option uprog" where
  "getcmd =
     ubind (printf 2 ''$ '' []) (\<lambda>_.
     ubind (gets 100) (\<lambda>buf. UDone (if cstr buf 0 = [] then None else Some (cstr buf 0))))"

fun sh_open :: "nat \<Rightarrow> unit uprog" where
  "sh_open 0 = UOut"
| "sh_open (Suc n) =
     UCall (UOpen ''console'' 2) (\<lambda>a.
       if ares a < 0 then UDone ()
       else if ares a \<ge> 3 then UCall (UClose (ares a)) (\<lambda>_. UDone ())
       else sh_open n)"

text \<open>\<open>runcmd(parsecmd(buf))\<close>\<close>

definition run_line :: "string \<Rightarrow> unit uprog" where
  "run_line b =
     (case parsecmd b of
        Inl (PPanic s) \<Rightarrow> panic_u s
      | Inl (PLeftovers s) \<Rightarrow> ubind (printf 2 (''leftovers: %s'' @ nl) [UStr (Some s)]) (\<lambda>_. panic_u ''syntax'')
      | Inl PFuel \<Rightarrow> UOut
      | Inr (c, m) \<Rightarrow> runcmd (map_command (\<lambda>w. cstr m (fst w)) c))"

fun sh_loop :: "nat \<Rightarrow> unit uprog" where
  "sh_loop 0 = UOut"
| "sh_loop (Suc n) =
     ubind getcmd (\<lambda>line. case line of
        None \<Rightarrow> UExit
      | Some buf \<Rightarrow>
          if take 3 buf = ''cd '' then
            let dir = drop 3 (butlast buf)
            in UCall (UChdir dir) (\<lambda>a.
                 ubind (if ares a < 0 then printf 2 (''cannot cd %s'' @ nl) [UStr (Some dir)] else UDone ()) (\<lambda>_. sh_loop n))
          else
            ubind (in_child (run_line buf)) (\<lambda>_. UCall UWait (\<lambda>_. sh_loop n)))"

definition sh_main :: "nat \<Rightarrow> unit uprog" where
  "sh_main n = ubind (sh_open n) (\<lambda>_. sh_loop n)"

text \<open>
  The programs that end with \<open>exit\<close> on every answer of the kernel; those that end so or come back, and
  never use up their rounds or have no meaning.
\<close>

primrec exits :: "'a uprog \<Rightarrow> bool" where
  "exits (UDone x) = False"
| "exits UExit = True"
| "exits UOut = False"
| "exits UFault = False"
| "exits (UCall c k) = (\<forall>a. exits (k a))"

primrec calm :: "'a uprog \<Rightarrow> bool" where
  "calm (UDone x) = True"
| "calm UExit = True"
| "calm UOut = False"
| "calm UFault = False"
| "calm (UCall c k) = (\<forall>a. calm (k a))"

lemma exits_ubind: "calm p \<Longrightarrow> (\<And>x. exits (f x)) \<Longrightarrow> exits (ubind p f)"
  by (induction p) simp_all

lemma exits_ubind_left: "exits p \<Longrightarrow> exits (ubind p f)"
  by (induction p) simp_all

lemma calm_ubind: "calm p \<Longrightarrow> (\<And>x. calm (f x)) \<Longrightarrow> calm (ubind p f)"
  by (induction p) simp_all

lemma exits_calm: "exits p \<Longrightarrow> calm p"
  by (induction p) simp_all

lemma calm_uputs [simp]: "calm (uputs fd t)"
  by (induction t) (simp_all add: uputc_def)

lemma calm_printf [simp]: "printf_text False f as \<noteq> None \<Longrightarrow> calm (printf fd f as)"
  by (auto simp: printf_def)

lemma calm_ucalls [simp]: "calm (ucalls cs)"
  by (induction cs) simp_all

lemma exits_panic: "exits (panic_u s)"
  by (simp add: panic_u_def nl_def exits_ubind)

lemma calm_in_child: "exits p \<Longrightarrow> calm (in_child p)"
  by (auto simp: in_child_def fork1_def exits_panic intro!: calm_ubind intro: exits_calm exits_ubind_left)

lemma runcmd_exits: "exits (runcmd c)"
proof (induction c)
  case (EXEC as)
  show ?case by (cases as) (auto simp: nl_def intro!: exits_ubind)
next
  case (REDIR c f md d)
  then show ?case by (auto simp: nl_def exits_calm intro!: exits_ubind)
next
  case (PIPE l r)
  then show ?case
    by (auto simp: Let_def exits_panic exits_calm split: prod.splits intro!: exits_ubind calm_in_child)
next
  case (LIST l r)
  then show ?case by (auto simp: exits_calm intro!: exits_ubind calm_in_child)
next
  case (BACK c)
  then show ?case by (auto intro!: exits_ubind calm_in_child)
qed

text \<open>
  C32. The child of the shell that runs a line never comes back into the loop of \<open>main\<close>: on every
  answer of the kernel, also after a failed \<open>exec\<close>, \<open>open\<close>, \<open>pipe\<close> or \<open>fork\<close> and for a line that is not
  parsed, it ends with \<open>exit\<close>.
\<close>

theorem run_line_exits: "exits (run_line b)"
  using parsecmd_no_fuel [of b]
  by (auto simp: run_line_def runcmd_exits exits_panic nl_def intro!: exits_ubind split: sum.split perr.split)

end
