(* ===== verification/Umalloc.thy ===== *)
theory Umalloc
  imports Cmem "HOL-Library.Monad_Syntax"
begin

text \<open>
  umalloc.c: the storage allocator of the user programs, over the bytes of the process. The free
  blocks form a ring through their headers, in the order of their addresses, with the static
  \<open>base\<close> below all of them. The loops are written as they are; that they end is part of the theorems.

  The invariant says which blocks the ring has and that no two of them overlap or touch; the
  theorems say that \<open>malloc\<close> gives out bytes that no one else has, and \<open>free\<close> takes them back.
\<close>

section \<open>State and operations\<close>

text \<open>The bytes of the process, the variable \<open>freep\<close>, and the size of the process.\<close>

record arena =
  bytes :: mem
  freep :: u32
  brk :: u32

text \<open>The fields of a header: the pointer, and the size in units of eight bytes.\<close>

definition hptr :: "mem \<Rightarrow> u32 \<Rightarrow> u32" where "hptr m a = load32 m a"
definition hsize :: "mem \<Rightarrow> u32 \<Rightarrow> u32" where "hsize m a = load32 m (a + 4)"
definition set_ptr :: "u32 \<Rightarrow> u32 \<Rightarrow> mem \<Rightarrow> mem" where "set_ptr a v m = store32 m a v"
definition set_size :: "u32 \<Rightarrow> u32 \<Rightarrow> mem \<Rightarrow> mem" where "set_size a v m = store32 m (a + 4) v"

text \<open>The search of \<open>free\<close> for the block after which \<open>bp\<close> belongs.\<close>

partial_function (option) free_find :: "mem \<Rightarrow> u32 \<Rightarrow> u32 \<Rightarrow> u32 option" where
  "free_find m bp p =
     (if p < bp \<and> bp < hptr m p then Some p
      else if hptr m p \<le> p \<and> (p < bp \<or> bp < hptr m p) then Some p
      else free_find m bp (hptr m p))"

definition join_right :: "u32 \<Rightarrow> u32 \<Rightarrow> mem \<Rightarrow> mem" where
  "join_right bp p m =
     (if bp + 8 * hsize m bp = hptr m p then
        let m = set_size bp (hsize m bp + hsize m (hptr m p)) m
        in set_ptr bp (hptr m (hptr m p)) m
      else set_ptr bp (hptr m p) m)"

definition join_left :: "u32 \<Rightarrow> u32 \<Rightarrow> mem \<Rightarrow> mem" where
  "join_left bp p m =
     (if p + 8 * hsize m p = bp then
        let m = set_size p (hsize m p + hsize m bp) m
        in set_ptr p (hptr m bp) m
      else set_ptr p bp m)"

definition ufree :: "u32 \<Rightarrow> arena \<Rightarrow> arena option" where
  "ufree ap st =
     do { let bp = ap - 8;
          p \<leftarrow> free_find (bytes st) bp (freep st);
          Some (st\<lparr>bytes := join_left bp p (join_right bp p (bytes st)), freep := p\<rparr>) }"

text \<open>
  The system call, by what the kernel does to the size of the process: the new size, or nothing if it
  refuses. The answer is the old size.
\<close>

definition sbrk :: "(u32 \<Rightarrow> u32 \<Rightarrow> u32 option) \<Rightarrow> u32 \<Rightarrow> arena \<Rightarrow> u32 \<times> arena" where
  "sbrk grow n st = (case grow (brk st) n of None \<Rightarrow> (- 1, st) | Some z \<Rightarrow> (brk st, st\<lparr>brk := z\<rparr>))"

definition morecore :: "(u32 \<Rightarrow> u32 \<Rightarrow> u32 option) \<Rightarrow> u32 \<Rightarrow> arena \<Rightarrow> (u32 \<times> arena) option" where
  "morecore grow nu st =
     (let nu = (if nu < 4096 then 4096 else nu)
      in case sbrk grow (nu * 8) st of (p, st) \<Rightarrow>
         if p = - 1 then Some (0, st)
         else do { st \<leftarrow> ufree (p + 8) (st\<lparr>bytes := set_size p nu (bytes st)\<rparr>);
                   Some (freep st, st) })"

text \<open>A block at \<open>p\<close>, after \<open>prevp\<close>, that is large enough.\<close>

definition take_block :: "u32 \<Rightarrow> u32 \<Rightarrow> u32 \<Rightarrow> arena \<Rightarrow> u32 \<times> arena" where
  "take_block nunits prevp p st =
     (let m = bytes st
      in if hsize m p = nunits then (p + 8, st\<lparr>bytes := set_ptr prevp (hptr m p) m, freep := prevp\<rparr>)
         else
           let m = set_size p (hsize m p - nunits) m;
               p = p + 8 * hsize m p;
               m = set_size p nunits m
           in (p + 8, st\<lparr>bytes := m, freep := prevp\<rparr>))"

partial_function (option) malloc_loop ::
  "(u32 \<Rightarrow> u32 \<Rightarrow> u32 option) \<Rightarrow> u32 \<Rightarrow> u32 \<Rightarrow> u32 \<Rightarrow> arena \<Rightarrow> (u32 \<times> arena) option" where
  "malloc_loop grow nunits prevp p st =
     (if nunits \<le> hsize (bytes st) p then Some (take_block nunits prevp p st)
      else if p = freep st then
        do { (q, st) \<leftarrow> morecore grow nunits st;
             if q = 0 then Some (0, st) else malloc_loop grow nunits q (hptr (bytes st) q) st }
      else malloc_loop grow nunits p (hptr (bytes st) p) st)"

definition nunits_of :: "u32 \<Rightarrow> u32" where
  "nunits_of nbytes = (nbytes + 8 - 1) div 8 + 1"

definition malloc :: "(u32 \<Rightarrow> u32 \<Rightarrow> u32 option) \<Rightarrow> u32 \<Rightarrow> u32 \<Rightarrow> arena \<Rightarrow> (u32 \<times> arena) option" where
  "malloc grow base nbytes st =
     (let st = (if freep st = 0 then st\<lparr>bytes := set_size base 0 (set_ptr base base (bytes st)), freep := base\<rparr> else st)
      in malloc_loop grow (nunits_of nbytes) (freep st) (hptr (bytes st) (freep st)) st)"

section \<open>Headers\<close>

definition room :: "u32 \<Rightarrow> bool" where "room a \<longleftrightarrow> unat a + 8 \<le> 2 ^ 32"

definition apart :: "u32 \<Rightarrow> u32 \<Rightarrow> bool" where
  "apart a b \<longleftrightarrow> room a \<and> room b \<and> (unat a + 8 \<le> unat b \<or> unat b + 8 \<le> unat a)"

lemma unat_plus4: "room a \<Longrightarrow> unat (a + 4) = unat a + 4"
  by (simp add: room_def unat_word_ariths)

lemma load32_store32_apart:
  assumes "unat a + 4 \<le> 2 ^ 32" "unat b + 4 \<le> 2 ^ 32" "unat a + 4 \<le> unat b \<or> unat b + 4 \<le> unat a"
  shows "load32 (store32 m a v) b = load32 m b"
proof (rule load32_store32_other)
  have "unat (b - a) = (if unat a \<le> unat b then unat b - unat a else 2 ^ 32 + unat b - unat a)" for a b :: u32
    using unat_sub_if_size [of b a] by (auto simp: word_size)
  then show "4 \<le> unat (b - a)" "4 \<le> unat (a - b)" using assms by auto
qed

lemma header_same:
  "hptr (set_ptr a v m) a = v" "hsize (set_size a v m) a = v"
  "room a \<Longrightarrow> hptr (set_size a v m) a = hptr m a" "room a \<Longrightarrow> hsize (set_ptr a v m) a = hsize m a"
  using unat_plus4 [of a]
  by (auto simp: hptr_def hsize_def set_ptr_def set_size_def room_def intro!: load32_store32_apart)

lemma header_apart:
  assumes "apart a b"
  shows "hptr (set_ptr a v m) b = hptr m b" "hptr (set_size a v m) b = hptr m b"
    "hsize (set_ptr a v m) b = hsize m b" "hsize (set_size a v m) b = hsize m b"
  using assms unat_plus4 [of a] unat_plus4 [of b]
  by (auto simp: hptr_def hsize_def set_ptr_def set_size_def room_def apart_def intro!: load32_store32_apart)

lemma store32_outside:
  assumes "unat a + 4 \<le> 2 ^ 32" "unat x < unat a \<or> unat a + 4 \<le> unat x"
  shows "store32 m a v x = m x"
proof (rule store32_other)
  have "unat x < 2 ^ 32" using unsigned_less [of x] by simp
  then show "4 \<le> unat (x - a)" using unat_sub_if_size [of x a] assms by (auto simp: word_size)
qed

lemma header_outside:
  assumes "room a" "unat x < unat a \<or> unat a + 8 \<le> unat x"
  shows "set_ptr a v m x = m x" "set_size a v m x = m x"
  using assms unat_plus4 [of a] by (auto simp: set_ptr_def set_size_def room_def intro!: store32_outside)

section \<open>The ring of free blocks\<close>

text \<open>A block: its address and its size in units. The list of free blocks is the ring after \<open>base\<close>.\<close>

type_synonym block = "u32 \<times> u32"

definition first :: "block list \<Rightarrow> u32 \<Rightarrow> u32" where
  "first bs e = (case bs of [] \<Rightarrow> e | c # _ \<Rightarrow> fst c)"

fun links :: "mem \<Rightarrow> block list \<Rightarrow> u32 \<Rightarrow> bool" where
  "links m [] e = True"
| "links m ((a, n) # r) e = (hptr m a = first r e \<and> hsize m a = n \<and> links m r e)"

text \<open>Blocks in the order of their addresses between \<open>lo\<close> and \<open>hi\<close>, with a gap before each.\<close>

fun seq :: "nat \<Rightarrow> block list \<Rightarrow> nat \<Rightarrow> bool" where
  "seq lo [] hi = (lo \<le> hi)"
| "seq lo ((a, n) # r) hi = (lo < unat a \<and> 0 < unat n \<and> seq (unat a + 8 * unat n) r hi)"

definition extent :: "block \<Rightarrow> nat set" where
  "extent c = {unat (fst c) ..< unat (fst c) + 8 * unat (snd c)}"

definition cover :: "block list \<Rightarrow> nat set" where
  "cover bs = \<Union> (extent ` set bs)"

text \<open>
  The allocator with the static header at \<open>b\<close>, the free blocks \<open>B\<close> and the blocks \<open>A\<close> that are in use.
\<close>

definition used_ok :: "u32 \<Rightarrow> block set \<Rightarrow> block list \<Rightarrow> arena \<Rightarrow> bool" where
  "used_ok b A B st \<longleftrightarrow>
     (\<forall>c\<in>A. unat b + 8 \<le> unat (fst c) \<and> 0 < unat (snd c) \<and> unat (fst c) + 8 * unat (snd c) \<le> unat (brk st) \<and>
        hsize (bytes st) (fst c) = snd c \<and> extent c \<inter> cover B = {} \<and> (\<forall>d\<in>A. d \<noteq> c \<longrightarrow> extent c \<inter> extent d = {}))"

definition ring_ok :: "u32 \<Rightarrow> block list \<Rightarrow> arena \<Rightarrow> bool" where
  "ring_ok b B st \<longleftrightarrow>
     0 < b \<and> unat b + 8 \<le> unat (brk st) \<and> unat (brk st) \<le> 2 ^ 31 \<and>
     links (bytes st) ((b, 0) # B) b \<and> seq (unat b + 7) B (unat (brk st)) \<and> freep st \<in> fst ` set ((b, 0) # B)"

definition arena_ok :: "u32 \<Rightarrow> block set \<Rightarrow> block list \<Rightarrow> arena \<Rightarrow> bool" where
  "arena_ok b A B st \<longleftrightarrow> ring_ok b B st \<and> used_ok b A B st"

lemma first_simps [simp]: "first [] e = e" "first (c # r) e = fst c" "first (us @ vs) e = first us (first vs e)"
  by (simp_all add: first_def split: list.split)

lemma links_append: "links m (us @ vs) e \<longleftrightarrow> links m us (first vs e) \<and> links m vs e"
  by (induction us) auto

lemma links_cong:
  assumes "\<forall>c\<in>set bs. hptr m' (fst c) = hptr m (fst c) \<and> hsize m' (fst c) = hsize m (fst c)"
  shows "links m' bs e = links m bs e"
  using assms by (induction bs) auto

lemma cover_simps [simp]: "cover [] = {}" "cover (c # r) = extent c \<union> cover r" "cover (us @ vs) = cover us \<union> cover vs"
  by (auto simp: cover_def)

lemma seq_le: "seq lo bs hi \<Longrightarrow> lo \<le> hi"
  by (induction bs arbitrary: lo) fastforce+

lemma seq_mem: "seq lo bs hi \<Longrightarrow> c \<in> set bs \<Longrightarrow> lo < unat (fst c) \<and> 0 < unat (snd c) \<and> unat (fst c) + 8 * unat (snd c) \<le> hi"
proof (induction bs arbitrary: lo)
  case (Cons d bs)
  obtain a n where d: "d = (a, n)" by fastforce
  show ?case
  proof (cases "c = d")
    case True
    then show ?thesis using Cons.prems seq_le [of "unat a + 8 * unat n" bs hi] d by simp
  next
    case False
    then show ?thesis using Cons d by force
  qed
qed simp

lemma seq_append:
  "seq lo (us @ vs) hi \<longleftrightarrow> (\<exists>k. seq lo us k \<and> (us = [] \<longrightarrow> k = lo) \<and> (us \<noteq> [] \<longrightarrow> k = unat (fst (last us)) + 8 * unat (snd (last us))) \<and> seq k vs hi)"
proof (induction us arbitrary: lo)
  case (Cons d us)
  obtain a n where d: "d = (a, n)" by fastforce
  then show ?case using Cons by (cases "us = []") auto
qed simp

text \<open>The blocks below and above an address.\<close>

lemma seq_split:
  assumes "seq lo bs hi" "bp \<notin> fst ` set bs"
  shows "\<exists>us vs. bs = us @ vs \<and> (\<forall>c\<in>set us. fst c < bp) \<and> (\<forall>c\<in>set vs. bp < fst c)"
  using assms
proof (induction bs arbitrary: lo)
  case (Cons d bs)
  obtain a n where d: "d = (a, n)" by fastforce
  have s: "seq (unat a + 8 * unat n) bs hi" using Cons.prems(1) d by simp
  show ?case
  proof (cases "a < bp")
    case True
    obtain us vs where "bs = us @ vs" "\<forall>c\<in>set us. fst c < bp" "\<forall>c\<in>set vs. bp < fst c"
      using Cons.IH [OF s] Cons.prems(2) by auto
    then show ?thesis using True d by (intro exI [of _ "d # us"] exI [of _ vs]) auto
  next
    case False
    then have "bp < a" using Cons.prems(2) d by auto
    moreover have "a < fst c" if "c \<in> set bs" for c using seq_mem [OF s that] by (simp add: word_less_nat_alt)
    ultimately show ?thesis using d by (intro exI [of _ "[]"] exI [of _ "d # bs"]) (auto intro: less_trans)
  qed
qed simp

section \<open>The search of free\<close>

lemma find_up:
  assumes "links m (zs @ (p, n) # vs) b" "\<forall>c\<in>set (zs @ [(p, n)]). fst c < bp" "sorted_wrt (\<lambda>c d. fst c < fst d) (zs @ [(p, n)])"
    "\<forall>c\<in>set vs. bp < fst c" "b \<le> p"
  shows "free_find m bp (first (zs @ [(p, n)]) b) = Some p"
  using assms
proof (induction zs)
  case Nil
  have "hptr m p = first vs b" "p < bp" using Nil.prems by simp_all
  then show ?case
    using Nil.prems(4,5) by (subst free_find.simps) (cases vs; auto)
next
  case (Cons d zs)
  obtain a k where d: "d = (a, k)" by fastforce
  define q where "q = first (zs @ [(p, n)]) b"
  have h: "hptr m a = q" using Cons.prems(1) by (cases zs) (simp_all add: d q_def)
  have "q \<in> fst ` set (zs @ [(p, n)])" unfolding q_def by (cases zs) simp_all
  then have "a < q" "q < bp" using Cons.prems(2,3) by (auto simp: d)
  moreover have "free_find m bp q = Some p" unfolding q_def using Cons by (simp add: d)
  ultimately show ?case using h by (subst free_find.simps) (auto simp: d)
qed

lemma find_down:
  assumes "links m vs b" "\<forall>c\<in>set vs. bp < fst c" "sorted_wrt (\<lambda>c d. fst c < fst d) vs" "b < bp"
  shows "free_find m bp (first vs b) = free_find m bp b"
  using assms
proof (induction vs)
  case (Cons d vs)
  obtain a k where d: "d = (a, k)" by fastforce
  have h: "hptr m a = first vs b" "bp < a" using Cons.prems(1,2) by (simp_all add: d)
  have "free_find m bp a = free_find m bp (first vs b)"
  proof (cases vs)
    case Nil
    then show ?thesis using h Cons.prems(4) by (subst free_find.simps) auto
  next
    case (Cons e vs')
    then have "a < fst e" using Cons.prems(3) by (simp add: d)
    then show ?thesis using h Cons by (subst free_find.simps) auto
  qed
  then show ?case using Cons by (simp add: d)
qed simp

lemma seq_sorted: "seq lo bs hi \<Longrightarrow> sorted_wrt (\<lambda>c d. fst c < fst d) bs"
proof (induction bs arbitrary: lo)
  case (Cons d bs)
  obtain a n where d: "d = (a, n)" by fastforce
  then show ?case using Cons seq_mem [of "unat a + 8 * unat n" bs hi] by (fastforce simp: word_less_nat_alt)
qed simp

text \<open>Wherever \<open>freep\<close> points, the search finds the last block of the ring below \<open>bp\<close>.\<close>

lemma find_free:
  assumes l: "links m (zs @ (p, n) # vs) b" and up: "\<forall>c\<in>set (zs @ [(p, n)]). fst c < bp" and dn: "\<forall>c\<in>set vs. bp < fst c"
    and s: "sorted_wrt (\<lambda>c d. fst c < fst d) (zs @ (p, n) # vs)" and b: "b = first (zs @ [(p, n)]) b"
    and f: "f \<in> fst ` set (zs @ (p, n) # vs)"
  shows "free_find m bp f = Some p"
proof -
  have bp: "b \<le> p" using s b by (cases zs) (auto simp: sorted_wrt_append)
  have up1: "free_find m bp (first (us @ [(p, n)]) b) = Some p" if "zs = ts @ us" for ts us
    using find_up [of m us p n vs b bp] l up dn s bp that by (auto simp: links_append sorted_wrt_append)
  consider (here) "f \<in> fst ` set (zs @ [(p, n)])" | (above) "f \<in> fst ` set vs" using f by auto
  then show ?thesis
  proof cases
    case here
    then obtain c where c: "f = fst c" "c \<in> set (zs @ [(p, n)])" by (rule imageE)
    define k where "k = snd c"
    have k: "(f, k) \<in> set (zs @ [(p, n)])" using c(2) by (simp only: c(1) k_def prod.collapse)
    show ?thesis
    proof (cases "(f, k) \<in> set zs")
      case True
      then obtain ts us where "zs = ts @ (f, k) # us" by (meson split_list)
      from up1 [OF this] show ?thesis by simp
    next
      case False
      then show ?thesis using k up1 [of zs "[]"] by simp
    qed
  next
    case above
    then obtain k where "(f, k) \<in> set vs" by (metis imageE prod.collapse)
    then obtain ts us where v: "vs = ts @ (f, k) # us" by (meson split_list)
    have "b < bp" using b up by (cases zs) auto
    then have "free_find m bp f = free_find m bp b"
      using find_down [of m "(f, k) # us" b bp] l dn s v by (auto simp: links_append sorted_wrt_append)
    then show ?thesis using up1 [of "[]" zs] b by simp
  qed
qed

section \<open>Putting a block back\<close>

text \<open>The new block with the one after it, and with the one before it.\<close>

definition put_right :: "block \<Rightarrow> block list \<Rightarrow> block list" where
  "put_right c vs =
     (case vs of
        [] \<Rightarrow> [c]
      | d # r \<Rightarrow> if fst c + 8 * snd c = fst d then (fst c, snd c + snd d) # r else c # vs)"

definition put_left :: "block \<Rightarrow> block list \<Rightarrow> block list" where
  "put_left d vs =
     (case vs of
        [] \<Rightarrow> [d]
      | c # r \<Rightarrow> if fst d + 8 * snd d = fst c then (fst d, snd d + snd c) # r else d # vs)"

lemma put_right_Cons: "\<exists>s r. put_right c vs = (fst c, s) # r \<and> set r \<subseteq> set vs"
  by (cases vs) (auto simp: put_right_def intro: prod.collapse [symmetric])

lemma links_join_right:
  assumes "links m vs b" "hptr m p = first vs b" "room bp" "apart bp p" "\<forall>c\<in>set vs. apart bp (fst c)" "vs = [] \<Longrightarrow> bp + 8 * hsize m bp \<noteq> b"
  shows "links (join_right bp p m) (put_right (bp, hsize m bp) vs) b"
proof (cases vs)
  case Nil
  then show ?thesis using assms by (simp add: join_right_def put_right_def header_same)
next
  case (Cons d r)
  obtain c k where d: "d = (c, k)" by fastforce
  have c: "apart bp c" "hptr m c = first r b" "hsize m c = k" using assms(1,5) by (simp_all add: Cons d)
  have fr: "links (set_ptr bp v (set_size bp w m)) r b" "links (set_ptr bp v m) (d # r) b" for v w
    using assms(1,5) links_cong [of r "set_ptr bp v (set_size bp w m)" m b] links_cong [of "d # r" "set_ptr bp v m" m b]
    by (auto simp: Cons d header_apart)
  show ?thesis
  proof (cases "bp + 8 * hsize m bp = c")
    case True
    then show ?thesis using assms(2-4) c fr(1) by (simp add: Cons d join_right_def put_right_def Let_def header_same header_apart)
  next
    case False
    then show ?thesis using assms(2,3) c fr(2) by (simp add: Cons d join_right_def put_right_def header_same)
  qed
qed

lemma join_right_apart:
  assumes "apart bp a"
  shows "hptr (join_right bp p m) a = hptr m a" "hsize (join_right bp p m) a = hsize m a"
  using assms by (simp_all add: join_right_def Let_def header_apart)

lemma links_join_left:
  assumes "links m ((bp, s) # r) b" "links m zs p" "hsize m p = n" "room p" "apart p bp"
    "\<forall>c\<in>set (zs @ r). apart p (fst c)" 
  shows "links (join_left bp p m) (zs @ put_left (p, n) ((bp, s) # r)) b"
proof -
  have h: "hptr m bp = first r b" "hsize m bp = s" "links m r b" using assms(1) by simp_all
  have f: "first (zs @ put_left (p, n) ((bp, s) # r)) b = first zs p" by (cases zs) (simp_all add: put_left_def)
  have fr: "links (set_ptr p v (set_size p w m)) r b" "links (set_ptr p v (set_size p w m)) zs p"
    "links (set_ptr p v m) ((bp, s) # r) b" "links (set_ptr p v m) zs p" for v w
    using assms(1,2,5,6) h(3) links_cong [of r "set_ptr p v (set_size p w m)" m b] links_cong [of zs "set_ptr p v (set_size p w m)" m p]
      links_cong [of "(bp, s) # r" "set_ptr p v m" m b] links_cong [of zs "set_ptr p v m" m p]
    by (auto simp: header_apart)
  show ?thesis
    using fr h assms(3-5) by (auto simp: join_left_def put_left_def Let_def header_same header_apart links_append)
qed

lemma unat_end:
  fixes a n :: u32
  assumes "unat a + 8 * unat n \<le> 2 ^ 31"
  shows "unat (a + 8 * n) = unat a + 8 * unat n"
  using assms by (simp add: unat_word_ariths)

lemma unat_add_units:
  fixes n k :: u32
  assumes "8 * unat n + 8 * unat k \<le> 2 ^ 31"
  shows "unat (n + k) = unat n + unat k"
  using assms by (simp add: unat_word_ariths)

lemma end_eq:
  fixes a n c :: u32
  assumes "unat a + 8 * unat n \<le> 2 ^ 31"
  shows "a + 8 * n = c \<longleftrightarrow> unat a + 8 * unat n = unat c"
  using unat_end [OF assms] by (metis word_unat_eq_iff)

lemma extent_join:
  assumes "unat a + 8 * unat n = unat c" "8 * unat n + 8 * unat k \<le> 2 ^ 31"
  shows "extent (a, n + k) = extent (a, n) \<union> extent (c, k)"
  using assms by (auto simp: extent_def unat_add_units)

lemma seq_put_right:
  assumes "seq k vs hi" "hi \<le> 2 ^ 31" "\<forall>d\<in>set vs. unat bp + 8 * unat s \<le> unat (fst d)" "0 < unat s" "unat bp + 8 * unat s \<le> hi"
  shows "\<exists>s' r. put_right (bp, s) vs = (bp, s') # r \<and> unat s \<le> unat s' \<and> seq (unat bp + 8 * unat s') r hi \<and>
    extent (bp, s') \<union> cover r = extent (bp, s) \<union> cover vs \<and> set r \<subseteq> set vs"
proof (cases vs)
  case Nil
  then show ?thesis using assms by (simp add: put_right_def)
next
  case (Cons d r)
  obtain c l where d: "d = (c, l)" by fastforce
  have c: "unat bp + 8 * unat s \<le> unat c" "seq (unat c + 8 * unat l) r hi" "0 < unat l" using assms(1,3) by (simp_all add: Cons d)
  have hi: "unat c + 8 * unat l \<le> hi" using seq_le [OF c(2)] .
  show ?thesis
  proof (cases "bp + 8 * s = c")
    case True
    then have e: "unat bp + 8 * unat s = unat c" using end_eq [of bp s c] assms(2,5) by simp
    have u: "8 * unat s + 8 * unat l \<le> 2 ^ 31" using e hi assms(2) by linarith
    have "seq (unat bp + (8 * unat s + 8 * unat l)) r hi" using c(2) by (simp add: e [symmetric] add.assoc)
    then show ?thesis
      using True assms(4) by (auto simp: Cons d put_right_def extent_join [OF e u] unat_add_units [OF u])
  next
    case False
    then have "unat bp + 8 * unat s < unat c" using c(1) end_eq [of bp s c] assms(2,5) by linarith
    then show ?thesis using False c by (auto simp: Cons d put_right_def)
  qed
qed

lemma seq_put_left:
  assumes "0 < unat n" "lo < unat p" "unat p + 8 * unat n \<le> unat bp" "seq (unat bp + 8 * unat s) r hi" "0 < unat s" "hi \<le> 2 ^ 31"
  shows "seq lo (put_left (p, n) ((bp, s) # r)) hi" "cover (put_left (p, n) ((bp, s) # r)) = extent (p, n) \<union> extent (bp, s) \<union> cover r"
    "\<exists>c\<in>set (put_left (p, n) ((bp, s) # r)). unat s \<le> unat (snd c)"
    "p \<in> fst ` set (put_left (p, n) ((bp, s) # r))"
proof -
  have hi: "unat bp + 8 * unat s \<le> hi" using seq_le [OF assms(4)] .
  have u: "unat p + 8 * unat n \<le> 2 ^ 31" "8 * unat n + 8 * unat s \<le> 2 ^ 31" using assms(3,6) hi by linarith+
  show "seq lo (put_left (p, n) ((bp, s) # r)) hi"
  proof (cases "p + 8 * n = bp")
    case True
    then have e: "unat p + 8 * unat n = unat bp" using end_eq [OF u(1)] by simp
    have "seq (unat p + (8 * unat n + 8 * unat s)) r hi" using assms(4) by (simp add: e [symmetric] add.assoc)
    then show ?thesis using True assms(1,2) by (simp add: put_left_def unat_add_units [OF u(2)])
  next
    case False
    then have "unat p + 8 * unat n < unat bp" using end_eq [OF u(1)] assms(3) by fastforce
    then show ?thesis using False assms by (simp add: put_left_def)
  qed
  show "cover (put_left (p, n) ((bp, s) # r)) = extent (p, n) \<union> extent (bp, s) \<union> cover r"
    using extent_join [OF _ u(2), of p bp] by (auto simp: put_left_def end_eq [OF u(1)])
  show "\<exists>c\<in>set (put_left (p, n) ((bp, s) # r)). unat s \<le> unat (snd c)" "p \<in> fst ` set (put_left (p, n) ((bp, s) # r))"
    by (auto simp: put_left_def unat_add_units [OF u(2)])
qed

text \<open>Only the headers of the two blocks change.\<close>

lemma join_outside:
  assumes "room bp" "room p" "unat x < unat bp \<or> unat bp + 8 \<le> unat x" "unat x < unat p \<or> unat p + 8 \<le> unat x"
  shows "join_left bp p (join_right bp p m) x = m x"
  using assms by (simp add: join_left_def join_right_def Let_def header_outside)

lemma seq_gaps: "seq lo bs hi \<Longrightarrow> sorted_wrt (\<lambda>c d. unat (fst c) + 8 * unat (snd c) < unat (fst d)) bs"
proof (induction bs arbitrary: lo)
  case (Cons d bs)
  obtain a n where d: "d = (a, n)" by fastforce
  then show ?case using Cons seq_mem [of "unat a + 8 * unat n" bs hi] by fastforce
qed simp

lemma apart_sym: "apart a b \<Longrightarrow> apart b a"
  by (auto simp: apart_def)

text \<open>The nodes of a ring that is in order have different headers.\<close>

lemma ring_sorted:
  assumes "ring_ok b B st"
  shows "sorted_wrt (\<lambda>c d. fst c < fst d) ((b, 0) # B)" "sorted_wrt (\<lambda>c d. apart (fst c) (fst d)) ((b, 0) # B)"
proof -
  have s: "seq (unat b + 7) B (unat (brk st))" "unat (brk st) \<le> 2 ^ 31" using assms by (simp_all add: ring_ok_def)
  have mem: "unat b + 8 \<le> unat (fst c) \<and> unat (fst c) + 8 \<le> 2 ^ 31" if "c \<in> set B" for c using seq_mem [OF s(1) that] s(2) by auto
  have "b < fst c \<and> apart b (fst c)" if "c \<in> set B" for c using mem [OF that] by (simp add: word_less_nat_alt apart_def room_def)
  moreover have "sorted_wrt (\<lambda>c d. apart (fst c) (fst d)) B"
  proof (rule sorted_wrt_mono_rel [OF _ seq_gaps [OF s(1)]])
    fix c d assume c: "c \<in> set B" "d \<in> set B" "unat (fst c) + 8 * unat (snd c) < unat (fst d)"
    moreover have "0 < unat (snd c)" using seq_mem [OF s(1) c(1)] by simp
    ultimately show "apart (fst c) (fst d)" using mem [OF c(1)] mem [OF c(2)] by (simp add: apart_def room_def)
  qed
  ultimately show "sorted_wrt (\<lambda>c d. fst c < fst d) ((b, 0) # B)" "sorted_wrt (\<lambda>c d. apart (fst c) (fst d)) ((b, 0) # B)"
    using seq_sorted [OF s(1)] by simp_all
qed

lemma extent_mem: "0 < unat (snd c) \<Longrightarrow> unat (fst c) \<in> extent c"
  by (simp add: extent_def)

lemma extent_below:
  assumes "extent c \<inter> extent d = {}" "0 < unat (snd c)" "0 < unat (snd d)"
  shows "unat (fst c) < unat (fst d) \<Longrightarrow> unat (fst c) + 8 * unat (snd c) \<le> unat (fst d)"
  using assms extent_mem [of d] by (fastforce simp: extent_def)

text \<open>The place of a block that is put back.\<close>

lemma free_place:
  assumes r: "ring_ok b B st" and c: "unat b + 8 \<le> unat bp" "0 < unat s" "extent (bp, s) \<inter> cover B = {}"
  shows "\<exists>us vs. B = us @ vs \<and> (\<forall>d\<in>set us. unat (fst d) + 8 * unat (snd d) \<le> unat bp) \<and>
    (\<forall>d\<in>set vs. unat bp + 8 * unat s \<le> unat (fst d))"
proof -
  have sq: "seq (unat b + 7) B (unat (brk st))" using r by (simp add: ring_ok_def)
  have ex: "extent (bp, s) \<inter> extent d = {}" "0 < unat (snd d)" if "d \<in> set B" for d
    using c(3) that seq_mem [OF sq that] by (auto simp: cover_def)
  have "bp \<notin> fst ` set B" using ex extent_mem c(2) by (fastforce simp: extent_def)
  from seq_split [OF sq this] obtain us vs
    where B: "B = us @ vs" "\<forall>d\<in>set us. fst d < bp" "\<forall>d\<in>set vs. bp < fst d" by blast
  have "\<forall>d\<in>set us. unat (fst d) + 8 * unat (snd d) \<le> unat bp"
    using B ex extent_below [of _ "(bp, s)"] c(2) by (auto simp: word_less_nat_alt Int_commute)
  moreover have "\<forall>d\<in>set vs. unat bp + 8 * unat s \<le> unat (fst d)"
    using B ex extent_below [of "(bp, s)"] c(2) by (auto simp: word_less_nat_alt)
  ultimately show ?thesis using B(1) by blast
qed

lemma free_list:
  assumes sq: "seq (unat b + 7) (us @ vs) hi" "hi \<le> 2 ^ 31" and c: "unat b + 8 \<le> unat bp" "0 < unat s" "unat bp + 8 * unat s \<le> hi"
    and us: "\<forall>d\<in>set us. unat (fst d) + 8 * unat (snd d) \<le> unat bp" and vs: "\<forall>d\<in>set vs. unat bp + 8 * unat s \<le> unat (fst d)"
    and N: "(b, 0) # us = zs @ [(p, n)]"
  shows "\<exists>s' r B'. put_right (bp, s) vs = (bp, s') # r \<and> set r \<subseteq> set vs \<and> zs @ put_left (p, n) ((bp, s') # r) = (b, 0) # B' \<and>
    seq (unat b + 7) B' hi \<and> cover B' = cover (us @ vs) \<union> extent (bp, s) \<and> (\<exists>d\<in>set B'. unat s \<le> unat (snd d)) \<and>
    p \<in> fst ` set ((b, 0) # B')"
proof -
  obtain k where k: "seq (unat b + 7) us k" "us = [] \<longrightarrow> k = unat b + 7" "us \<noteq> [] \<longrightarrow> k = unat (fst (last us)) + 8 * unat (snd (last us))"
    "seq k vs hi" using sq(1) seq_append by blast
  obtain s' r where R: "put_right (bp, s) vs = (bp, s') # r" "unat s \<le> unat s'" "seq (unat bp + 8 * unat s') r hi"
    "extent (bp, s') \<union> cover r = extent (bp, s) \<union> cover vs" "set r \<subseteq> set vs"
    using seq_put_right [OF k(4) sq(2) vs c(2,3)] by blast
  show ?thesis
  proof (cases "us = []")
    case True
    then have "zs = []" "p = b" "n = 0" using N by (simp_all add: Cons_eq_append_conv)
    moreover have "b \<noteq> bp" using c(1) by auto
    ultimately show ?thesis using R c(1,2) True by (auto simp: put_left_def)
  next
    case False
    then have zs: "zs = (b, 0) # butlast us" "last us = (p, n)" using N by (cases zs; auto simp: snoc_eq_iff_butlast)+
    then have u: "us = butlast us @ [(p, n)]" using False by (metis append_butlast_last_id)
    obtain k' where k': "seq (unat b + 7) (butlast us) k'" "butlast us = [] \<longrightarrow> k' = unat b + 7"
      "butlast us \<noteq> [] \<longrightarrow> k' = unat (fst (last (butlast us))) + 8 * unat (snd (last (butlast us)))" "seq k' [(p, n)] k"
      using k(1) seq_append [of "unat b + 7" "butlast us" "[(p, n)]" k] u by metis
    have p: "k' < unat p" "0 < unat n" using k'(4) by simp_all
    have pb: "unat p + 8 * unat n \<le> unat bp" using us u by (metis in_set_conv_decomp fst_conv snd_conv)
    have s': "0 < unat s'" using R(2) c(2) by linarith
    note L = seq_put_left [OF p(2,1) pb R(3) s' sq(2)]
    have "seq (unat b + 7) (butlast us @ put_left (p, n) ((bp, s') # r)) hi" using k' L(1) seq_append by blast
    moreover have "cover (butlast us @ put_left (p, n) ((bp, s') # r)) = cover (us @ vs) \<union> extent (bp, s)"
      using L(2) R(4) by (subst (2) u) auto
    moreover have "zs @ put_left (p, n) ((bp, s') # r) = (b, 0) # butlast us @ put_left (p, n) ((bp, s') # r)" by (simp add: zs(1))
    moreover have "\<exists>d\<in>set (butlast us @ put_left (p, n) ((bp, s') # r)). unat s \<le> unat (snd d)" using L(3) R(2) by (auto intro: le_trans)
    moreover have "p \<in> fst ` set ((b, 0) # butlast us @ put_left (p, n) ((bp, s') # r))" using L(4) by (simp add: image_Un)
    ultimately show ?thesis using R(1,5) by blast
  qed
qed

lemma ufree_ring:
  assumes r: "ring_ok b B st" and c: "unat b + 8 \<le> unat bp" "0 < unat s" "unat bp + 8 * unat s \<le> unat (brk st)"
    "hsize (bytes st) bp = s" "extent (bp, s) \<inter> cover B = {}"
  shows "\<exists>st' B'. ufree (bp + 8) st = Some st' \<and> ring_ok b B' st' \<and> brk st' = brk st \<and> cover B' = cover B \<union> extent (bp, s) \<and>
    (\<exists>d\<in>set B'. unat s \<le> unat (snd d)) \<and>
    (\<forall>x. unat x \<notin> cover B \<union> extent (bp, s) \<union> {unat b ..< unat b + 8} \<longrightarrow> bytes st' x = bytes st x)"
proof -
  have hi: "unat (brk st) \<le> 2 ^ 31" and l: "links (bytes st) ((b, 0) # B) b" and sq: "seq (unat b + 7) B (unat (brk st))"
    and f: "freep st \<in> fst ` set ((b, 0) # B)" and b: "0 < b" "unat b + 8 \<le> unat (brk st)"
    using r by (simp_all add: ring_ok_def)
  obtain us vs where B: "B = us @ vs" and us: "\<forall>d\<in>set us. unat (fst d) + 8 * unat (snd d) \<le> unat bp"
    and vs: "\<forall>d\<in>set vs. unat bp + 8 * unat s \<le> unat (fst d)" using free_place [OF r c(1,2,5)] by blast
  obtain zs p n where N: "(b, 0) # us = zs @ [(p, n)]" by (metis list.distinct(1) rev_exhaust prod.collapse)
  have NB: "(b, 0) # B = zs @ (p, n) # vs" using N by (simp add: B)
  have m: "unat b + 8 \<le> unat (fst d)" "0 < unat (snd d)" "unat (fst d) + 8 * unat (snd d) \<le> 2 ^ 31" if "d \<in> set B" for d
    using seq_mem [OF sq that] hi by auto
  have rb: "room bp" using c(2,3) hi by (simp add: room_def)
  have ab: "apart bp (fst d)" if "d \<in> set ((b, 0) # us @ vs)" for d
    using that c(1-3) us vs m [of d] hi by (auto simp: apart_def room_def B)
  have up: "\<forall>d\<in>set (zs @ [(p, n)]). fst d < bp"
  proof -
    have "fst d < bp" if "d \<in> set us" for d using bspec [OF us that] m(2) [of d] that by (simp add: word_less_nat_alt B)
    then show ?thesis unfolding N [symmetric] using c(1) by (simp add: word_less_nat_alt)
  qed
  have dn: "\<forall>d\<in>set vs. bp < fst d" using vs c(2) by (auto simp: word_less_nat_alt)
  have b1: "b = first (zs @ [(p, n)]) b" unfolding N [symmetric] by simp
  have l1: "links (bytes st) (zs @ (p, n) # vs) b" using l by (simp only: NB)
  have find: "free_find (bytes st) bp (freep st) = Some p"
    by (rule find_free [OF l1 up dn _ b1]) (use ring_sorted(1) [OF r] f in \<open>simp_all only: NB\<close>)
  have lz: "links (bytes st) zs p" and lv: "hptr (bytes st) p = first vs b" "hsize (bytes st) p = n" "links (bytes st) vs b"
    using l1 by (auto simp: links_append)
  have pz: "d \<in> set ((b, 0) # us @ vs)" if "d \<in> set (zs @ [(p, n)]) \<union> set vs" for d
    using that by (auto simp: N [symmetric])
  have ap: "sorted_wrt (\<lambda>c d. apart (fst c) (fst d)) (zs @ (p, n) # vs)" using ring_sorted(2) [OF r] by (simp only: NB)
  have bz: "apart bp (fst d)" if "d \<in> set zs \<union> {(p, n)} \<union> set vs" for d using ab [OF pz] that by auto
  obtain s' w B' where R: "put_right (bp, s) vs = (bp, s') # w" "set w \<subseteq> set vs" "zs @ put_left (p, n) ((bp, s') # w) = (b, 0) # B'"
    "seq (unat b + 7) B' (unat (brk st))" "cover B' = cover B \<union> extent (bp, s)" "\<exists>d\<in>set B'. unat s \<le> unat (snd d)"
    "p \<in> fst ` set ((b, 0) # B')"
    using free_list [OF sq [unfolded B] hi c(1-3) us vs N] B by blast
  let ?m1 = "join_right bp p (bytes st)"
  have "links ?m1 (put_right (bp, hsize (bytes st) bp) vs) b"
  proof (rule links_join_right [OF lv(3,1) rb])
    show "apart bp p" "\<forall>c\<in>set vs. apart bp (fst c)" using bz by force+
    show "bp + 8 * hsize (bytes st) bp \<noteq> b" using c hi end_eq [of bp s b] by auto
  qed
  then have l2: "links ?m1 ((bp, s') # w) b" using R(1) c(4) by simp
  have l3: "links ?m1 zs p" using lz links_cong [of zs ?m1 "bytes st" p] bz join_right_apart by auto
  have "links (join_left bp p ?m1) (zs @ put_left (p, n) ((bp, s') # w)) b"
  proof (rule links_join_left [OF l2 l3])
    show "hsize ?m1 p = n" using bz [of "(p, n)"] join_right_apart(2) lv(2) by simp
    show "apart p bp" "room p" using bz [of "(p, n)"] by (auto simp: apart_def)
    show "\<forall>c\<in>set (zs @ w). apart p (fst c)" using ap R(2) by (auto simp: sorted_wrt_append intro: apart_sym)
  qed
  then have "ring_ok b B' (st\<lparr>bytes := join_left bp p ?m1, freep := p\<rparr>)"
    using R b hi by (simp add: ring_ok_def)
  moreover have "join_left bp p ?m1 x = bytes st x" if x: "unat x \<notin> cover B \<union> extent (bp, s) \<union> {unat b ..< unat b + 8}" for x
  proof (rule join_outside [OF rb])
    show "room p" using bz [of "(p, n)"] by (auto simp: apart_def)
    show "unat x < unat bp \<or> unat bp + 8 \<le> unat x" using x c(2) by (auto simp: extent_def)
    have "(p, n) \<in> set ((b, 0) # B)" by (simp only: NB) simp
    then show "unat x < unat p \<or> unat p + 8 \<le> unat x" using x m(2) [of "(p, n)"] by (fastforce simp: cover_def extent_def)
  qed
  ultimately show ?thesis using find R(5,6) by (auto simp: ufree_def)
qed

section \<open>The search of malloc\<close>

lemma scan_fit:
  assumes "links (bytes st) (us @ (p, n) # vs) e" "\<forall>c\<in>set us. snd c < k \<and> fst c \<noteq> freep st" "k \<le> n"
  shows "malloc_loop grow k q (first (us @ (p, n) # vs) e) st = Some (take_block k (if us = [] then q else fst (last us)) p st)"
  using assms
proof (induction us arbitrary: q)
  case Nil
  then show ?case by (subst malloc_loop.simps) simp
next
  case (Cons d us)
  obtain a l where d: "d = (a, l)" by fastforce
  have h: "hptr (bytes st) a = first (us @ (p, n) # vs) e" "hsize (bytes st) a = l" "l < k" "a \<noteq> freep st"
    using Cons.prems by (simp_all add: d)
  have i: "malloc_loop grow k a (first (us @ (p, n) # vs) e) st = Some (take_block k (if us = [] then a else fst (last us)) p st)"
    using Cons.IH [of a] Cons.prems by (simp add: d)
  have "malloc_loop grow k q a st = malloc_loop grow k a (hptr (bytes st) a) st"
    using h(2-4) by (subst malloc_loop.simps) auto
  then show ?case using i by (auto simp: d h(1))
qed

lemma scan_none:
  assumes "links (bytes st) (us @ [(f, n)]) e" "\<forall>c\<in>set us. snd c < k \<and> fst c \<noteq> f" "n < k" "f = freep st"
  shows "malloc_loop grow k q (first (us @ [(f, n)]) e) st =
    Option.bind (morecore grow k st) (\<lambda>(q, st). if q = 0 then Some (0, st) else malloc_loop grow k q (hptr (bytes st) q) st)"
  using assms
proof (induction us arbitrary: q)
  case Nil
  then show ?case by (subst malloc_loop.simps) (auto simp: not_le)
next
  case (Cons d us)
  obtain a l where d: "d = (a, l)" by fastforce
  have h: "hptr (bytes st) a = first (us @ [(f, n)]) e" "hsize (bytes st) a = l" "l < k" "a \<noteq> freep st"
    using Cons.prems by (simp_all add: d)
  have "malloc_loop grow k q a st = malloc_loop grow k a (hptr (bytes st) a) st"
    using h(2-4) by (subst malloc_loop.simps) auto
  then show ?case using Cons.IH [of a] Cons.prems by (simp add: d h(1))
qed

text \<open>The ring from the block after \<open>freep\<close> round to \<open>freep\<close> itself.\<close>

lemma ring_from_freep:
  assumes "ring_ok b B st"
  obtains xs l ys where "(b, 0) # B = xs @ (freep st, l) # ys" "links (bytes st) (ys @ xs @ [(freep st, l)]) (first ys b)"
    "hptr (bytes st) (freep st) = first (ys @ xs @ [(freep st, l)]) (first ys b)" "\<forall>c\<in>set (ys @ xs). fst c \<noteq> freep st"
proof -
  have r: "links (bytes st) ((b, 0) # B) b" "freep st \<in> fst ` set ((b, 0) # B)" using assms by (simp_all add: ring_ok_def)
  obtain c where c: "freep st = fst c" "c \<in> set ((b, 0) # B)" using r(2) by (rule imageE)
  obtain xs ys where N: "(b, 0) # B = xs @ (freep st, snd c) # ys" using split_list [OF c(2)] c(1) by auto
  have b: "b = first (xs @ [(freep st, snd c)]) e" for e using N by (cases xs) auto
  have l: "links (bytes st) xs (freep st)" "hptr (bytes st) (freep st) = first ys b" "hsize (bytes st) (freep st) = snd c" "links (bytes st) ys b"
    using r(1) by (auto simp: N links_append)
  have "first ys b = first (ys @ xs @ [(freep st, snd c)]) (first ys b)" using b by (cases ys) auto
  moreover have "links (bytes st) (ys @ xs @ [(freep st, snd c)]) (first ys b)"
    using l b by (auto simp: links_append simp flip: b)
  moreover have "\<forall>d\<in>set (ys @ xs). fst d \<noteq> freep st"
    using ring_sorted(1) [OF assms] by (auto simp: N sorted_wrt_append)
  ultimately show ?thesis using that [of xs "snd c" ys] N l(2) by simp
qed

lemma append_mid:
  assumes "ys @ X = us @ c # vs"
  shows "(\<exists>w. ys = us @ c # w) \<or> (\<exists>w z. us = ys @ w \<and> X = w @ c # z)"
proof (cases "length ys \<le> length us")
  case True
  then show ?thesis using assms by (auto simp: append_eq_append_conv2)
next
  case False
  then obtain w where "ys = us @ w" "w \<noteq> []" using assms by (auto simp: append_eq_append_conv2)
  then show ?thesis using assms by (cases w) auto
qed

lemma malloc_fits:
  assumes r: "ring_ok b B st" and k: "0 < k" and c: "\<exists>c\<in>set B. k \<le> snd c"
  shows "\<exists>us p n vs. B = us @ (p, n) # vs \<and> k \<le> n \<and>
    malloc_loop grow k (freep st) (hptr (bytes st) (freep st)) st = Some (take_block k (fst (last ((b, 0) # us))) p st)"
proof -
  obtain xs l ys where N: "(b, 0) # B = xs @ (freep st, l) # ys" and lk: "links (bytes st) (ys @ xs @ [(freep st, l)]) (first ys b)"
    and h: "hptr (bytes st) (freep st) = first (ys @ xs @ [(freep st, l)]) (first ys b)" and ne: "\<forall>c\<in>set (ys @ xs). fst c \<noteq> freep st"
    using ring_from_freep [OF r] by blast
  let ?R = "ys @ xs @ [(freep st, l)]"
  have "set B \<subseteq> set ?R" using arg_cong [OF N, of set] by auto
  then have "\<exists>c\<in>set ?R. k \<le> snd c" using c by blast
  then obtain us p n vs where R: "?R = us @ (p, n) # vs" "k \<le> n" "\<forall>c\<in>set us. snd c < k"
    using split_list_first_prop [of ?R "\<lambda>c. k \<le> snd c"] by (auto simp: not_le)
  have u: "\<forall>c\<in>set us. fst c \<noteq> freep st"
  proof -
    have "us @ [(p, n)] @ vs = (ys @ xs) @ [(freep st, l)]" using R(1) by simp
    then obtain w where "ys @ xs = us @ w" by (cases vs rule: rev_cases) (auto simp: append_eq_append_conv2)
    then have "set us \<subseteq> set (ys @ xs)" by simp
    then show ?thesis using ne by blast
  qed
  have m: "malloc_loop grow k (freep st) (hptr (bytes st) (freep st)) st =
      Some (take_block k (if us = [] then freep st else fst (last us)) p st)"
    using scan_fit [of st us p n vs "first ys b" k grow "freep st"] lk h R u by auto
  have "n \<noteq> 0" using R(2) k by auto
  consider (after) w where "ys = us @ (p, n) # w" | (before) w z where "us = ys @ w" "xs @ [(freep st, l)] = w @ (p, n) # z"
    using append_mid [OF R(1)] by blast
  then show ?thesis
  proof cases
    case after
    have "(b, 0) # B = (xs @ (freep st, l) # us) @ (p, n) # w" using N after by simp
    moreover have "fst (last (xs @ (freep st, l) # us)) = (if us = [] then freep st else fst (last us))" by simp
    moreover obtain t where "xs @ (freep st, l) # us = (b, 0) # t" using N by (cases xs) auto
    ultimately show ?thesis using m R(2) by (intro exI [of _ t] exI [of _ p] exI [of _ n] exI [of _ w]) auto
  next
    case before
    have e: "(b, 0) # B = w @ (p, n) # z @ ys" using N before(2) by (metis append.assoc append_Cons append_Nil)
    have "w \<noteq> []" using e \<open>n \<noteq> 0\<close> by (cases w) auto
    then obtain t where t: "w = (b, 0) # t" using e by (cases w) auto
    then show ?thesis using m R(2) e before(1) by (intro exI [of _ t] exI [of _ p] exI [of _ n] exI [of _ "z @ ys"]) auto
  qed
qed

lemma malloc_none:
  assumes r: "ring_ok b B st" and k: "0 < k" and c: "\<forall>c\<in>set B. snd c < k"
  shows "malloc_loop grow k (freep st) (hptr (bytes st) (freep st)) st =
    Option.bind (morecore grow k st) (\<lambda>(q, st). if q = 0 then Some (0, st) else malloc_loop grow k q (hptr (bytes st) q) st)"
proof -
  obtain xs l ys where N: "(b, 0) # B = xs @ (freep st, l) # ys" and lk: "links (bytes st) (ys @ xs @ [(freep st, l)]) (first ys b)"
    and h: "hptr (bytes st) (freep st) = first (ys @ xs @ [(freep st, l)]) (first ys b)" and ne: "\<forall>c\<in>set (ys @ xs). fst c \<noteq> freep st"
    using ring_from_freep [OF r] by blast
  have "\<forall>c\<in>set ((b, 0) # B). snd c < k" using c k by simp
  then show ?thesis unfolding N using scan_none [of st "ys @ xs" "freep st" l "first ys b" k grow "freep st"] lk h ne by auto
qed

section \<open>Taking a block\<close>

lemma seq_lower: "seq lo bs hi \<Longrightarrow> lo' \<le> lo \<Longrightarrow> seq lo' bs hi"
  by (cases bs) auto

lemma seq_raise: "seq lo bs hi \<Longrightarrow> hi \<le> hi' \<Longrightarrow> seq lo bs hi'"
  by (induction lo bs hi rule: seq.induct) auto

text \<open>A block is removed, or loses its end.\<close>

lemma seq_cut:
  assumes "seq lo (us @ (p, n) # vs) hi" "unat k \<le> unat n"
  shows "seq lo (us @ (if k = n then vs else (p, n - k) # vs)) hi"
proof -
  obtain j where j: "seq lo us j" "us = [] \<longrightarrow> j = lo" "us \<noteq> [] \<longrightarrow> j = unat (fst (last us)) + 8 * unat (snd (last us))" "seq j ((p, n) # vs) hi"
    using assms(1) seq_append by blast
  have "seq j (if k = n then vs else (p, n - k) # vs) hi"
  proof (cases "k = n")
    case True
    then show ?thesis using j(4) seq_lower [of "unat p + 8 * unat n" vs hi j] by auto
  next
    case False
    have "unat (n - k) = unat n - unat k" using assms(2) by (simp add: unat_sub word_le_nat_alt)
    moreover have "unat k \<noteq> unat n" using False by (simp add: word_unat_eq_iff)
    ultimately show ?thesis using False j(4) assms(2) seq_lower [of "unat p + 8 * unat n" vs hi "unat p + 8 * unat (n - k)"] by simp
  qed
  then show ?thesis using j seq_append by blast
qed

lemma seq_disjoint:
  assumes "seq lo (us @ c # vs) hi"
  shows "extent c \<inter> (cover us \<union> cover vs) = {}"
  using seq_gaps [OF assms] by (force simp: sorted_wrt_append cover_def extent_def)

lemma extent_cut:
  assumes "unat p + 8 * unat n \<le> 2 ^ 31" "unat k \<le> unat n"
  shows "extent (p, n) = extent (p, n - k) \<union> extent (p + 8 * (n - k), k)" "extent (p, n - k) \<inter> extent (p + 8 * (n - k), k) = {}"
    "unat (p + 8 * (n - k)) = unat p + 8 * (unat n - unat k)"
proof -
  have d: "unat (n - k) = unat n - unat k" using assms(2) by (simp add: unat_sub word_le_nat_alt)
  show e: "unat (p + 8 * (n - k)) = unat p + 8 * (unat n - unat k)" using unat_end [of p "n - k"] d assms by simp
  show "extent (p, n) = extent (p, n - k) \<union> extent (p + 8 * (n - k), k)" "extent (p, n - k) \<inter> extent (p + 8 * (n - k), k) = {}"
    unfolding extent_def fst_conv snd_conv d e using assms(2) by auto
qed

text \<open>The bytes that the process has got between two states.\<close>

definition new_bytes :: "arena \<Rightarrow> arena \<Rightarrow> nat set" where
  "new_bytes st st' = {unat (brk st) ..< unat (brk st')}"

text \<open>The block given out, the blocks that remain, and the state.\<close>

definition taken :: "u32 \<Rightarrow> block list \<Rightarrow> arena \<Rightarrow> u32 \<Rightarrow> block list \<Rightarrow> u32 \<Rightarrow> u32 \<Rightarrow> arena \<Rightarrow> bool" where
  "taken b B st k B' a r st' \<longleftrightarrow>
     r = a + 8 \<and> ring_ok b B' st' \<and> unat (brk st) \<le> unat (brk st') \<and> extent (a, k) \<subseteq> cover B \<union> new_bytes st st' \<and>
     cover B' = cover B \<union> new_bytes st st' - extent (a, k) \<and>
     unat b + 8 \<le> unat a \<and> unat a + 8 * unat k \<le> unat (brk st') \<and> hsize (bytes st') a = k \<and>
     (\<forall>x. unat x \<notin> cover B \<union> new_bytes st st' \<union> {unat b ..< unat b + 8} \<longrightarrow> bytes st' x = bytes st x)"

lemma take_whole:
  assumes r: "ring_ok b B st" and B: "B = us @ (p, n) # vs" and z: "(b, 0) # us = zs @ [(q, l)]" and k: "0 < k" "k = n"
  shows "\<exists>B' a x st'. take_block k q p st = (x, st') \<and> taken b B st k B' a x st'"
proof -
  have sq: "seq (unat b + 7) B (unat (brk st))" and l: "links (bytes st) ((b, 0) # B) b" and hi: "unat (brk st) \<le> 2 ^ 31"
    using r by (simp_all add: ring_ok_def)
  have N: "(b, 0) # B = zs @ (q, l) # (p, n) # vs" using z by (simp add: B)
  have ap: "sorted_wrt (\<lambda>c d. apart (fst c) (fst d)) (zs @ (q, l) # (p, n) # vs)" using ring_sorted(2) [OF r] by (simp only: N)
  have lk: "links (bytes st) zs q" "hptr (bytes st) q = p" "hsize (bytes st) q = l" "hptr (bytes st) p = first vs b" "hsize (bytes st) p = n" "links (bytes st) vs b"
    using l unfolding N by (simp_all add: links_append)
  let ?m = "set_ptr q (hptr (bytes st) p) (bytes st)"
  have "links ?m zs q" "links ?m vs b" using lk(1,6) links_cong [of zs ?m "bytes st" q] links_cong [of vs ?m "bytes st" b] ap
    by (auto simp: sorted_wrt_append header_apart apart_sym)
  moreover have "room q" "apart q p" using ap by (auto simp: sorted_wrt_append apart_def)
  ultimately have "links ?m ((b, 0) # us @ vs) b"
    using lk(3,4) z by (auto simp: links_append header_same append_Cons [symmetric] simp del: append_Cons)
  moreover have "(q, l) \<in> set ((b, 0) # us)" by (simp only: z) simp
  then have "q \<in> fst ` set ((b, 0) # us @ vs)" by (force simp: image_iff)
  moreover have "seq (unat b + 7) (us @ vs) (unat (brk st))" using seq_cut [of _ us p n vs _ k] sq B k by simp
  ultimately have "ring_ok b (us @ vs) (st\<lparr>bytes := ?m, freep := q\<rparr>)" using r by (simp add: ring_ok_def)
  moreover have "cover (us @ vs) = cover B - extent (p, k)" using seq_disjoint [of _ us "(p, n)" vs] sq B k by auto
  moreover have "hsize ?m p = k" using \<open>apart q p\<close> lk(5) k by (simp add: header_apart)
  moreover have "?m x = bytes st x" if "unat x \<notin> cover B \<union> {unat b ..< unat b + 8}" for x
  proof (rule header_outside(1) [OF \<open>room q\<close>])
    have "(q, l) \<in> set ((b, 0) # B)" by (simp only: N) simp
    then show "unat x < unat q \<or> unat q + 8 \<le> unat x" using that seq_mem [OF sq, of "(q, l)"] by (fastforce simp: cover_def extent_def)
  qed
  moreover have "unat b + 8 \<le> unat p" "unat p + 8 * unat k \<le> unat (brk st)" using seq_mem [OF sq, of "(p, n)"] B k by auto
  ultimately show ?thesis
    using lk(5) k B by (intro exI [of _ "us @ vs"] exI [of _ p] exI [of _ "p + 8"] exI [of _ "st\<lparr>bytes := ?m, freep := q\<rparr>"])
      (auto simp: take_block_def taken_def new_bytes_def Let_def)
qed

lemma take_tail:
  assumes r: "ring_ok b B st" and B: "B = us @ (p, n) # vs" and q: "q \<in> fst ` set ((b, 0) # us)" and k: "0 < k" "k < n"
  shows "\<exists>B' a x st'. take_block k q p st = (x, st') \<and> taken b B st k B' a x st'"
proof -
  have sq: "seq (unat b + 7) B (unat (brk st))" and l: "links (bytes st) ((b, 0) # B) b" and hi: "unat (brk st) \<le> 2 ^ 31"
    using r by (simp_all add: ring_ok_def)
  have uk: "unat k < unat n" "0 < unat k" using k by (simp_all add: word_less_nat_alt)
  have p: "unat b + 8 \<le> unat p" "unat p + 8 * unat n \<le> unat (brk st)" using seq_mem [OF sq, of "(p, n)"] B by auto
  define a where "a = p + 8 * (n - k)"
  note c = extent_cut [of p n k, folded a_def]
  have c1: "extent (p, n) = extent (p, n - k) \<union> extent (a, k)" "extent (p, n - k) \<inter> extent (a, k) = {}"
    and ua: "unat a = unat p + 8 * (unat n - unat k)"
    using c p(2) hi uk(1) by (meson le_trans less_imp_le)+
  have g: "sorted_wrt (\<lambda>c d. unat (fst c) + 8 * unat (snd c) < unat (fst d)) (us @ (p, n) # vs)" using seq_gaps [OF sq] by (simp add: B)
  have apa: "apart a (fst d) \<and> apart p (fst d)" if "d \<in> set ((b, 0) # us @ vs)" for d
    using that g ua p hi uk seq_mem [OF sq, of d] by (auto simp: B sorted_wrt_append apart_def room_def)
  have pa: "room p" "apart p a" "apart a p" using ua p hi uk by (auto simp: apart_def room_def)
  have lk: "links (bytes st) ((b, 0) # us) p" "hptr (bytes st) p = first vs b" "hsize (bytes st) p = n" "links (bytes st) vs b"
    using l links_append [of "bytes st" "(b, 0) # us" "(p, n) # vs" b] by (simp_all add: B)
  let ?m = "set_size a k (set_size p (n - k) (bytes st))"
  have "\<forall>d\<in>set ((b, 0) # us) \<union> set vs. hptr ?m (fst d) = hptr (bytes st) (fst d) \<and> hsize ?m (fst d) = hsize (bytes st) (fst d)"
    using apa by (simp add: header_apart)
  then have "links ?m ((b, 0) # us) p" "links ?m vs b"
    using lk(1,4) links_cong [of "(b, 0) # us" ?m "bytes st" p] links_cong [of vs ?m "bytes st" b] by blast+
  moreover have "hptr ?m p = first vs b" "hsize ?m p = n - k" using lk(2) pa by (simp_all add: header_apart header_same)
  ultimately have "links ?m ((b, 0) # us @ (p, n - k) # vs) b"
    using links_append [of ?m "(b, 0) # us" "(p, n - k) # vs" b] by simp
  moreover have "seq (unat b + 7) (us @ (p, n - k) # vs) (unat (brk st))"
    using seq_cut [of "unat b + 7" us p n vs "unat (brk st)" k] sq B k(2) uk(1) by (simp split: if_splits)
  moreover have "q \<in> fst ` set ((b, 0) # us @ (p, n - k) # vs)" using q by (auto simp: image_Un)
  ultimately have "ring_ok b (us @ (p, n - k) # vs) (st\<lparr>bytes := ?m, freep := q\<rparr>)" using r by (simp add: ring_ok_def)
  moreover have "cover (us @ (p, n - k) # vs) = cover B - extent (a, k)" "extent (a, k) \<subseteq> cover B"
    using seq_disjoint [of _ us "(p, n)" vs] sq c1 by (auto simp: B)
  moreover have "hsize ?m a = k" by (simp add: header_same)
  moreover have "?m x = bytes st x" if x: "unat x \<notin> cover B \<union> {unat b ..< unat b + 8}" for x
  proof -
    have "unat x \<notin> extent (p, n)" using x by (auto simp: B)
    then have o: "unat x < unat p \<or> unat p + 8 * unat n \<le> unat x" by (auto simp: extent_def)
    have "?m x = set_size p (n - k) (bytes st) x" using o ua uk pa by (intro header_outside) (auto simp: apart_def)
    also have "\<dots> = bytes st x" using o uk pa by (intro header_outside) auto
    finally show ?thesis .
  qed
  moreover have "unat b + 8 \<le> unat a" "unat a + 8 * unat k \<le> unat (brk st)" using ua p uk by auto
  moreover have "take_block k q p st = (a + 8, st\<lparr>bytes := ?m, freep := q\<rparr>)"
    using lk(3) k(2) by (auto simp: take_block_def Let_def header_same a_def)
  ultimately show ?thesis by (auto simp: taken_def new_bytes_def)
qed

lemma take_ring:
  assumes r: "ring_ok b B st" and B: "B = us @ (p, n) # vs" and k: "0 < k" "k \<le> n"
  shows "\<exists>B' a x st'. take_block k (fst (last ((b, 0) # us))) p st = (x, st') \<and> taken b B st k B' a x st'"
proof (cases "k = n")
  case True
  obtain zs q l where z: "(b, 0) # us = zs @ [(q, l)]" by (metis list.distinct(1) rev_exhaust prod.collapse)
  then show ?thesis using take_whole [OF r B z k(1) True] by simp
next
  case False
  then have "k < n" using k(2) by simp
  moreover have "fst (last ((b, 0) # us)) \<in> fst ` set ((b, 0) # us)" by (rule imageI) (rule last_in_set, simp)
  ultimately show ?thesis using take_tail [OF r B _ k(1)] by blast
qed

lemma malloc_take:
  assumes "ring_ok b B st" "0 < k" "\<exists>c\<in>set B. k \<le> snd c"
  shows "\<exists>B' a x st'. malloc_loop grow k (freep st) (hptr (bytes st) (freep st)) st = Some (x, st') \<and> taken b B st k B' a x st'"
proof -
  obtain us p n vs where c: "B = us @ (p, n) # vs" "k \<le> n"
    "malloc_loop grow k (freep st) (hptr (bytes st) (freep st)) st = Some (take_block k (fst (last ((b, 0) # us))) p st)"
    using malloc_fits [OF assms] by blast
  from take_ring [OF assms(1) c(1) assms(2) c(2)] show ?thesis unfolding c(3) by auto
qed

section \<open>More memory from the kernel\<close>

text \<open>
  What \<open>sbrk\<close> promises: the kernel gives a process that asks for a number of bytes that is not negative
  as an \<open>int\<close> exactly these, below \<open>KERNBASE\<close>, or refuses.
\<close>

definition grows :: "(u32 \<Rightarrow> u32 \<Rightarrow> u32 option) \<Rightarrow> bool" where
  "grows grow \<longleftrightarrow>
     (\<forall>sz n z. unat n < 2 ^ 31 \<longrightarrow> grow sz n = Some z \<longrightarrow> unat z = unat sz + unat n \<and> unat z \<le> 2 ^ 31)"

abbreviation core_units :: "u32 \<Rightarrow> u32" where
  "core_units k \<equiv> (if k < 4096 then 4096 else k)"

lemma ring_grow:
  assumes "ring_ok b B st" "unat (brk st) \<le> unat z" "unat z \<le> 2 ^ 31" "unat (brk st) + 8 \<le> unat z"
  shows "ring_ok b B (st\<lparr>brk := z, bytes := set_size (brk st) v (bytes st)\<rparr>)"
proof -
  have sq: "seq (unat b + 7) B (unat (brk st))" and l: "links (bytes st) ((b, 0) # B) b" and b: "unat b + 8 \<le> unat (brk st)"
    using assms(1) by (simp_all add: ring_ok_def)
  have "apart (brk st) (fst d)" if "d \<in> set ((b, 0) # B)" for d
    using that b seq_mem [OF sq, of d] assms(3,4) by (auto simp: apart_def room_def)
  then have "\<forall>d\<in>set ((b, 0) # B). hptr (set_size (brk st) v (bytes st)) (fst d) = hptr (bytes st) (fst d) \<and>
      hsize (set_size (brk st) v (bytes st)) (fst d) = hsize (bytes st) (fst d)"
    by (simp add: header_apart)
  from links_cong [OF this, of b] have "links (set_size (brk st) v (bytes st)) ((b, 0) # B) b" using l by (simp only:)
  then show ?thesis using assms seq_raise [OF sq assms(2)] by (simp add: ring_ok_def)
qed

lemma cover_below: "seq lo bs hi \<Longrightarrow> x \<in> cover bs \<Longrightarrow> lo < x \<and> x < hi"
  using seq_mem [of lo bs hi] by (force simp: cover_def extent_def)

lemma morecore_ring:
  assumes r: "ring_ok b B st" and g: "grows grow" and k: "unat k < 2 ^ 28" and z: "grow (brk st) (core_units k * 8) = Some z"
  shows "\<exists>st' B'. morecore grow k st = Some (freep st', st') \<and> freep st' \<noteq> 0 \<and> ring_ok b B' st' \<and> unat (brk st) \<le> unat (brk st') \<and>
    cover B' = cover B \<union> new_bytes st st' \<and> (\<exists>c\<in>set B'. k \<le> snd c) \<and>
    (\<forall>x. unat x \<notin> cover B \<union> new_bytes st st' \<union> {unat b ..< unat b + 8} \<longrightarrow> bytes st' x = bytes st x)"
proof -
  define nu where "nu = core_units k"
  have nu: "k \<le> nu" "0 < unat nu" "unat nu < 2 ^ 28" using k by (auto simp: nu_def word_less_nat_alt word_le_nat_alt not_less)
  have n8: "unat (nu * 8) = 8 * unat nu" using nu(3) by (simp add: unat_word_ariths)
  have "unat (nu * 8) < 2 ^ 31" using n8 nu(3) by simp
  from g [unfolded grows_def, rule_format, OF this z [folded nu_def]]
  have zb: "unat z = unat (brk st) + 8 * unat nu" "unat z \<le> 2 ^ 31" using n8 by simp_all
  let ?s = "st\<lparr>brk := z, bytes := set_size (brk st) nu (bytes st)\<rparr>"
  have b: "unat b + 8 \<le> unat (brk st)" "seq (unat b + 7) B (unat (brk st))" "0 < b" using r by (simp_all add: ring_ok_def)
  have r1: "ring_ok b B ?s" using ring_grow [OF r _ zb(2)] zb nu(2) by simp
  have nb: "extent (brk st, nu) = new_bytes st ?s" using zb(1) by (simp add: extent_def new_bytes_def)
  have "extent (brk st, nu) \<inter> cover B = {}" using cover_below [OF b(2)] by (fastforce simp: extent_def)
  then obtain st' B' where u: "ufree (brk st + 8) ?s = Some st'" "ring_ok b B' st'" "brk st' = z" "cover B' = cover B \<union> extent (brk st, nu)"
    "\<exists>d\<in>set B'. unat nu \<le> unat (snd d)"
    "\<forall>x. unat x \<notin> cover B \<union> extent (brk st, nu) \<union> {unat b ..< unat b + 8} \<longrightarrow> bytes st' x = bytes ?s x"
    using ufree_ring [OF r1, of "brk st" nu] b(1) nu(2) zb by (auto simp: header_same)
  have "unat (- 1 :: u32) = 2 ^ 32 - 1" by (simp add: unsigned_minus_1_eq_mask mask_eq_exp_minus_1)
  then have "brk st \<noteq> - 1" using zb by auto
  then have m: "morecore grow k st = Some (freep st', st')" using z u(1) by (simp add: morecore_def sbrk_def nu_def Let_def)
  have f: "freep st' \<noteq> 0"
    using u(2) seq_mem [of "unat b + 7" B' "unat (brk st')"] by (force simp: ring_ok_def)
  have e: "bytes ?s x = bytes st x" if "unat x \<notin> extent (brk st, nu)" for x
    using that nu(2) zb header_outside(2) [of "brk st" x nu "bytes st"] by (auto simp: extent_def room_def)
  have "new_bytes st st' = extent (brk st, nu)" using nb u(3) by (simp add: new_bytes_def)
  moreover have "\<exists>c\<in>set B'. k \<le> snd c" using u(5) nu(1) by (meson order_trans word_le_nat_alt)
  ultimately show ?thesis using m f u e zb(1) by (intro exI [of _ st'] exI [of _ B']) auto
qed

section \<open>The allocator\<close>

lemma taken_later:
  assumes t: "taken b B1 st1 k B' a x st'" and c: "cover B1 = cover B \<union> new_bytes st st1" "unat (brk st) \<le> unat (brk st1)"
    and f: "\<forall>x. unat x \<notin> cover B \<union> new_bytes st st1 \<union> {unat b ..< unat b + 8} \<longrightarrow> bytes st1 x = bytes st x"
  shows "taken b B st k B' a x st'"
proof -
  have "new_bytes st st' = new_bytes st st1 \<union> new_bytes st1 st'" using t c(2) by (auto simp: taken_def new_bytes_def)
  then show ?thesis using t c f by (auto simp: taken_def Un_assoc)
qed

lemma malloc_ring:
  assumes r: "ring_ok b B st" and g: "grows grow" and k: "0 < k" "unat k < 2 ^ 28"
  shows "malloc_loop grow k (freep st) (hptr (bytes st) (freep st)) st = Some (0, st) \<and> grow (brk st) (core_units k * 8) = None \<or>
    (\<exists>B' a x st'. malloc_loop grow k (freep st) (hptr (bytes st) (freep st)) st = Some (x, st') \<and> taken b B st k B' a x st')"
proof (cases "\<exists>c\<in>set B. k \<le> snd c")
  case True
  then show ?thesis using malloc_take [OF r k(1)] by blast
next
  case False
  then have n: "\<forall>c\<in>set B. snd c < k" by (simp add: not_le)
  note m = malloc_none [OF r k(1) n, of grow]
  show ?thesis
  proof (cases "grow (brk st) (core_units k * 8)")
    case None
    then show ?thesis unfolding m by (simp add: morecore_def sbrk_def Let_def)
  next
    case (Some z)
    obtain st1 B1 where c: "morecore grow k st = Some (freep st1, st1)" "freep st1 \<noteq> 0" "ring_ok b B1 st1" "unat (brk st) \<le> unat (brk st1)"
      "cover B1 = cover B \<union> new_bytes st st1" "\<exists>c\<in>set B1. k \<le> snd c"
      "\<forall>x. unat x \<notin> cover B \<union> new_bytes st st1 \<union> {unat b ..< unat b + 8} \<longrightarrow> bytes st1 x = bytes st x"
      using morecore_ring [OF r g k(2) Some] by blast
    obtain B' a x st' where t: "malloc_loop grow k (freep st1) (hptr (bytes st1) (freep st1)) st1 = Some (x, st')" "taken b B1 st1 k B' a x st'"
      using malloc_take [OF c(3) k(1) c(6)] by blast
    have "malloc_loop grow k (freep st) (hptr (bytes st) (freep st)) st = Some (x, st')" unfolding m using c(1,2) t(1) by simp
    then show ?thesis using taken_later [OF t(2) c(5,4,7)] by blast
  qed
qed

lemma hsize_frame:
  assumes "room a" "\<And>x. unat a \<le> unat x \<Longrightarrow> unat x < unat a + 8 \<Longrightarrow> m' x = m x"
  shows "hsize m' a = hsize m a"
proof -
  have "unat (a + 4 + of_nat i) = unat a + 4 + i" if "i < 4" for i
    using assms(1) that by (auto simp: room_def unat_word_ariths unat_of_nat)
  from this [of 0] this [of 1] this [of 2] this [of 3] show ?thesis
    unfolding hsize_def using assms(2) by (intro load32_cong) (simp_all add: add.assoc)
qed

text \<open>What the allocator does to its own bytes leaves the blocks in use alone.\<close>

lemma used_frame:
  assumes u: "used_ok b A B st" and hi: "unat (brk st) \<le> 2 ^ 31" "unat (brk st) \<le> unat (brk st')" and sub: "A' \<subseteq> A"
    and c: "\<And>d. d \<in> A' \<Longrightarrow> extent d \<inter> (cover B' \<union> E) = {}"
    and f: "\<And>x. unat x \<notin> E \<union> {unat b ..< unat b + 8} \<Longrightarrow> bytes st' x = bytes st x"
  shows "used_ok b A' B' st'" "\<forall>d\<in>A'. \<forall>x. unat x \<in> extent d \<longrightarrow> bytes st' x = bytes st x"
proof -
  have same: "bytes st' x = bytes st x" if "d \<in> A'" "unat x \<in> extent d" for d x
  proof (rule f)
    have "unat b + 8 \<le> unat (fst d)" using u that(1) sub unfolding used_ok_def by blast
    then show "unat x \<notin> E \<union> {unat b ..< unat b + 8}" using c [OF that(1)] that(2) by (auto simp: extent_def)
  qed
  then show "\<forall>d\<in>A'. \<forall>x. unat x \<in> extent d \<longrightarrow> bytes st' x = bytes st x" by blast
  have d: "unat b + 8 \<le> unat (fst d) \<and> 0 < unat (snd d) \<and> unat (fst d) + 8 * unat (snd d) \<le> unat (brk st) \<and>
      hsize (bytes st) (fst d) = snd d \<and> (\<forall>e\<in>A. e \<noteq> d \<longrightarrow> extent d \<inter> extent e = {})" if "d \<in> A'" for d
    using u that sub unfolding used_ok_def by blast
  moreover have "hsize (bytes st') (fst d) = hsize (bytes st) (fst d)" if "d \<in> A'" for d
    using d [OF that] hi same [OF that] by (intro hsize_frame) (auto simp: room_def extent_def)
  ultimately show "used_ok b A' B' st'" unfolding used_ok_def using c hi(2) sub by fastforce
qed

text \<open>
  C7. \<open>free\<close> returns for every block in use, from wherever \<open>freep\<close> points, and takes exactly its bytes back
  into the free blocks: afterwards the ring is again in order, no two of its blocks overlap or touch,
  and the other blocks in use keep their place and their contents.
\<close>

theorem ufree_returns_block:
  assumes "arena_ok b A B st" "(a, n) \<in> A"
  shows "\<exists>st' B'. ufree (a + 8) st = Some st' \<and> arena_ok b (A - {(a, n)}) B' st' \<and> cover B' = cover B \<union> extent (a, n) \<and>
    brk st' = brk st \<and> (\<forall>d\<in>A - {(a, n)}. \<forall>x. unat x \<in> extent d \<longrightarrow> bytes st' x = bytes st x)"
proof -
  have r: "ring_ok b B st" and u: "used_ok b A B st" using assms(1) by (simp_all add: arena_ok_def)
  have a: "unat b + 8 \<le> unat a" "0 < unat n" "unat a + 8 * unat n \<le> unat (brk st)" "hsize (bytes st) a = n" "extent (a, n) \<inter> cover B = {}"
    using u assms(2) by (auto simp: used_ok_def)
  obtain st' B' where f: "ufree (a + 8) st = Some st'" "ring_ok b B' st'" "brk st' = brk st" "cover B' = cover B \<union> extent (a, n)"
    "\<forall>x. unat x \<notin> cover B \<union> extent (a, n) \<union> {unat b ..< unat b + 8} \<longrightarrow> bytes st' x = bytes st x"
    using ufree_ring [OF r a] by blast
  have d: "extent d \<inter> (cover B' \<union> (cover B \<union> extent (a, n))) = {}" if "d \<in> A - {(a, n)}" for d
    using u assms(2) that unfolding f(4) used_ok_def by blast
  have hi: "unat (brk st) \<le> 2 ^ 31" using r by (simp add: ring_ok_def)
  note used_frame [OF u hi _ _ d, of st' "A - {(a, n)}"]
  then show ?thesis using f by (intro exI [of _ st'] exI [of _ B']) (auto simp: arena_ok_def)
qed

text \<open>The allocator at the start of the program, before the first call.\<close>

definition arena_start :: "u32 \<Rightarrow> arena \<Rightarrow> bool" where
  "arena_start b st \<longleftrightarrow> freep st = 0 \<and> 0 < b \<and> unat b + 8 \<le> unat (brk st) \<and> unat (brk st) \<le> 2 ^ 31"

text \<open>\<open>malloc\<close> sets up the ring of \<open>base\<close> alone.\<close>

lemma arena_init:
  assumes "arena_start b st"
  shows "arena_ok b {} [] (st\<lparr>bytes := set_size b 0 (set_ptr b b (bytes st)), freep := b\<rparr>)"
proof -
  have "room b" using assms by (simp add: arena_start_def room_def)
  then show ?thesis using assms by (simp add: arena_start_def arena_ok_def ring_ok_def used_ok_def header_same)
qed

lemma freep_nonzero: "ring_ok b B st \<Longrightarrow> freep st \<noteq> 0"
  using seq_mem [of "unat b + 7" B "unat (brk st)"] by (force simp: ring_ok_def)

lemma unat_nunits:
  assumes "unat n < 2 ^ 31 - 16"
  shows "unat (nunits_of n) = (unat n + 7) div 8 + 1"
proof -
  have "unat (n + 8 - 1) = unat n + 7" using assms by (simp add: unat_word_ariths)
  moreover have "(unat n + 7) div 8 < 2 ^ 29" using assms by simp
  ultimately show ?thesis by (simp add: nunits_of_def unat_word_ariths unat_div)
qed

lemma used_taken:
  assumes a: "arena_ok b A B st" and t: "taken b B st k B' a x st'" and k: "0 < k"
  shows "arena_ok b (insert (a, k) A) B' st'" "(a, k) \<notin> A" "\<forall>d\<in>A. \<forall>x. unat x \<in> extent d \<longrightarrow> bytes st' x = bytes st x"
proof -
  have u: "used_ok b A B st" and r: "ring_ok b B st" using a by (simp_all add: arena_ok_def)
  have k': "0 < unat k" using k by (simp add: word_less_nat_alt)
  have hi: "unat (brk st) \<le> 2 ^ 31" using r by (simp add: ring_ok_def)
  have d: "extent d \<inter> (cover B \<union> new_bytes st st') = {}" "extent d \<noteq> {}" if "d \<in> A" for d
    using u that by (force simp: used_ok_def new_bytes_def extent_def)+
  have e: "extent (a, k) \<subseteq> cover B \<union> new_bytes st st'" "extent (a, k) \<inter> cover B' = {}" "cover B' \<subseteq> cover B \<union> new_bytes st st'"
    using t by (auto simp: taken_def)
  have "extent d \<inter> extent (a, k) = {}" if "d \<in> A" for d using d(1) [OF that] e(1) by blast
  then have x: "\<forall>d\<in>A. extent d \<inter> extent (a, k) = {}" "(a, k) \<notin> A" using d(2) [of "(a, k)"] by blast+
  then show "(a, k) \<notin> A" by simp
  have c: "extent d \<inter> (cover B' \<union> (cover B \<union> new_bytes st st')) = {}" if "d \<in> A" for d using d(1) [OF that] e(3) by blast
  note f = used_frame [OF u hi _ subset_refl c, of st']
  have fr: "\<And>x. unat x \<notin> (cover B \<union> new_bytes st st') \<union> {unat b ..< unat b + 8} \<Longrightarrow> bytes st' x = bytes st x" "unat (brk st) \<le> unat (brk st')"
    using t by (simp_all add: taken_def)
  show "\<forall>d\<in>A. \<forall>x. unat x \<in> extent d \<longrightarrow> bytes st' x = bytes st x" using f(2) fr by blast
  have "used_ok b A B' st'" using f(1) fr by blast
  then have "used_ok b (insert (a, k) A) B' st'"
    using t e(2) x k' unfolding used_ok_def by (auto simp: taken_def Int_commute)
  then show "arena_ok b (insert (a, k) A) B' st'" using t by (simp add: arena_ok_def taken_def)
qed

text \<open>The first call sets the ring up; afterwards the state is as between two calls.\<close>

definition ready :: "u32 \<Rightarrow> arena \<Rightarrow> arena" where
  "ready b st = (if freep st = 0 then st\<lparr>bytes := set_size b 0 (set_ptr b b (bytes st)), freep := b\<rparr> else st)"

lemma ready_ok:
  assumes "arena_ok b A B st \<or> arena_start b st \<and> A = {} \<and> B = []"
  shows "arena_ok b A B (ready b st)" "brk (ready b st) = brk st" "\<forall>d\<in>A. \<forall>x. unat x \<in> extent d \<longrightarrow> bytes (ready b st) x = bytes st x"
proof -
  have "arena_ok b A B st \<Longrightarrow> ready b st = st" using freep_nonzero [of b B st] by (simp add: ready_def arena_ok_def)
  moreover have "arena_start b st \<Longrightarrow> arena_ok b {} [] (ready b st)" using arena_init by (simp add: ready_def arena_start_def)
  ultimately show "arena_ok b A B (ready b st)" "\<forall>d\<in>A. \<forall>x. unat x \<in> extent d \<longrightarrow> bytes (ready b st) x = bytes st x"
    using assms by auto
  show "brk (ready b st) = brk st" by (simp add: ready_def)
qed

text \<open>
  C6. \<open>malloc\<close> returns, at the first call and later, on a request below two gigabytes. It answers null
  only if the kernel refuses more memory, and then nothing has changed; otherwise the block it gives
  has the room asked for, lies in the memory of the process apart from the free blocks and from every
  block in use, and the contents of the blocks in use are as before.
\<close>

theorem malloc_gives_block:
  assumes st: "arena_ok b A B st \<or> arena_start b st \<and> A = {} \<and> B = []" and g: "grows grow" and n: "unat nbytes < 2 ^ 31 - 16"
  shows "\<exists>r st'. malloc grow b nbytes st = Some (r, st') \<and>
    (r = 0 \<and> arena_ok b A B st' \<and> grow (brk st) (core_units (nunits_of nbytes) * 8) = None \<or>
     r \<noteq> 0 \<and> (\<exists>a k B'. r = a + 8 \<and> unat nbytes + 8 \<le> 8 * unat k \<and> (a, k) \<notin> A \<and> arena_ok b (insert (a, k) A) B' st')) \<and>
    (\<forall>d\<in>A. \<forall>x. unat x \<in> extent d \<longrightarrow> bytes st' x = bytes st x)"
proof -
  let ?k = "nunits_of nbytes"
  let ?s = "ready b st"
  have k: "unat ?k = (unat nbytes + 7) div 8 + 1" by (rule unat_nunits [OF n])
  then have k1: "0 < ?k" "unat ?k < 2 ^ 28" "unat nbytes + 8 \<le> 8 * unat ?k" using n by (simp_all add: word_less_nat_alt)
  have m: "malloc grow b nbytes st = malloc_loop grow ?k (freep ?s) (hptr (bytes ?s) (freep ?s)) ?s"
    by (simp add: malloc_def ready_def Let_def)
  note rd = ready_ok [OF st]
  have r: "ring_ok b B ?s" using rd(1) by (simp add: arena_ok_def)
  from malloc_ring [OF r g k1(1,2)] show ?thesis
  proof (elim disjE exE conjE)
    assume "malloc_loop grow ?k (freep ?s) (hptr (bytes ?s) (freep ?s)) ?s = Some (0, ?s)" "grow (brk ?s) (core_units ?k * 8) = None"
    then show ?thesis unfolding m rd(2) using rd(1,3) by blast
  next
    fix B' a x st'
    assume t: "malloc_loop grow ?k (freep ?s) (hptr (bytes ?s) (freep ?s)) ?s = Some (x, st')" "taken b B ?s ?k B' a x st'"
    note u = used_taken [OF rd(1) t(2) k1(1)]
    have "unat a + 8 * unat ?k \<le> 2 ^ 31" "x = a + 8" using t(2) by (auto simp: taken_def ring_ok_def)
    then have "unat x = unat a + 8" using k1(3) by (simp add: unat_word_ariths)
    then have "x \<noteq> 0" by auto
    moreover have "\<forall>d\<in>A. \<forall>x. unat x \<in> extent d \<longrightarrow> bytes st' x = bytes st x" using u(3) rd(3) by metis
    ultimately show ?thesis unfolding m t(1) using u(1,2) k1(3) \<open>x = a + 8\<close> by blast
  qed
qed

text \<open>A process of three pages whose kernel lets it grow to a megabyte.\<close>

definition grow1 :: "u32 \<Rightarrow> u32 \<Rightarrow> u32 option" where
  "grow1 sz n = (if unat sz + unat n \<le> 2 ^ 20 then Some (sz + n) else None)"

definition arena1 :: arena where
  "arena1 = \<lparr>bytes = (\<lambda>_. 0), freep = 0, brk = 0x3000\<rparr>"

lemma grows_grow1: "grows grow1"
  by (auto simp: grows_def grow1_def unat_word_ariths split: if_splits)

theorem malloc_gives_block_witness:
  "arena_start 0x1000 arena1 \<and> grows grow1 \<and>
   (\<exists>r st' a k B'. malloc grow1 0x1000 100 arena1 = Some (r, st') \<and> r = a + 8 \<and> 108 \<le> 8 * unat k \<and> arena_ok 0x1000 {(a, k)} B' st')"
proof -
  have s: "arena_start 0x1000 arena1" by (simp add: arena_start_def arena1_def)
  have "grow1 (brk arena1) (core_units (nunits_of 100) * 8) \<noteq> None" by (simp add: grow1_def arena1_def nunits_of_def)
  then show ?thesis using malloc_gives_block [of "0x1000" "{}" "[]" arena1 grow1 100] s grows_grow1
    by simp (metis option.distinct(1))
qed

theorem ufree_returns_block_witness:
  "\<exists>st a k B' st'. arena_ok 0x1000 {(a, k)} [] st \<and> ufree (a + 8) st = Some st' \<and> arena_ok 0x1000 {} B' st' \<and> cover B' = extent (a, k)"
proof -
  define m where "m = set_size 0x2000 16 (set_size 0x1000 0 (set_ptr 0x1000 0x1000 (\<lambda>_. 0)))"
  define st where "st = \<lparr>bytes = m, freep = 0x1000, brk = 0x3000\<rparr>"
  have "apart 0x2000 0x1000" "room 0x1000" by (simp_all add: apart_def room_def)
  then have a: "arena_ok 0x1000 {(0x2000, 16)} [] st"
    by (simp add: arena_ok_def ring_ok_def used_ok_def st_def m_def header_same header_apart)
  from ufree_returns_block [OF a, of "0x2000" 16] show ?thesis using a by fastforce
qed

text \<open>
  A request near the end of the range of \<open>uint\<close> wraps around in the computation of the units: the
  allocator would give a block of one unit, which is its header alone.
\<close>

lemma nunits_wraps: "nunits_of 0xFFFFFFFF = 1"
  by (simp add: nunits_of_def)

end
