(* ===== verification/Mp.thy ===== *)
theory Mp
  imports Kalloc "HOL-Library.Monad_Syntax"
begin

text \<open>
  mp.c: the search of memory for the tables in which the firmware lists the processors, and the loop
  over their entries that fills \<open>cpus\<close>. The tables are bytes of memory; the port accesses are a list of
  writes, with the byte that is read as an input. The loop over the entries may not end, so it is
  written as it is: a run that never ends is \<open>None\<close>.
\<close>

section \<open>State and search\<close>

record mp_machine = kmem +
  lapic :: u32
  ioapicid :: u8
  imcr_in :: u8                    \<comment> \<open>what \<open>inb(0x23)\<close> reads\<close>
  mp_outs :: "(nat \<times> u8) list"   \<comment> \<open>the writes to ports, in order\<close>

text \<open>The sum of \<open>len\<close> bytes, as the \<open>uchar\<close> that is returned.\<close>

fun mpsum :: "mem \<Rightarrow> u32 \<Rightarrow> nat \<Rightarrow> u8" where
  "mpsum m a 0 = 0"
| "mpsum m a (Suc n) = m a + mpsum m (a + 1) n"

text \<open>\<open>memcmp(p, sig, 4) == 0\<close> for a signature of four characters.\<close>

definition has_sig :: "mem \<Rightarrow> u32 \<Rightarrow> string \<Rightarrow> bool" where
  "has_sig m p sig \<longleftrightarrow> map (\<lambda>i. m (p + of_nat i)) [0..<4] = map of_char sig"

definition is_mp :: "mem \<Rightarrow> u32 \<Rightarrow> bool" where
  "is_mp m p \<longleftrightarrow> has_sig m p ''_MP_'' \<and> mpsum m p 16 = 0"

text \<open>The loop of \<open>mpsearch1\<close>; the areas that are searched do not wrap around and have \<open>16 * n\<close> bytes.\<close>

fun mpsearch_loop :: "nat \<Rightarrow> mem \<Rightarrow> u32 \<Rightarrow> u32 option" where
  "mpsearch_loop 0 m p = None"
| "mpsearch_loop (Suc n) m p = (if is_mp m p then Some p else mpsearch_loop n m (p + 16))"

definition mpsearch1 :: "mem \<Rightarrow> u32 \<Rightarrow> nat \<Rightarrow> u32 option" where
  "mpsearch1 m a len = mpsearch_loop (len div 16) m (P2V a)"

definition mpsearch :: "mem \<Rightarrow> u32 option" where
  "mpsearch m =
     (let bda = P2V 0x400;
          p = push_bit 4 (push_bit 8 (ucast (m (bda + 0x0F))) OR ucast (m (bda + 0x0E)))
      in case (if p \<noteq> 0 then mpsearch1 m p 1024
               else mpsearch1 m ((push_bit 8 (ucast (m (bda + 0x14))) OR ucast (m (bda + 0x13))) * 1024 - 1024) 1024) of
           Some mp \<Rightarrow> Some mp
         | None \<Rightarrow> mpsearch1 m 0xF0000 0x10000)"

text \<open>The fields of \<open>struct mp\<close> and \<open>struct mpconf\<close> that are read.\<close>

definition mp_physaddr :: "mem \<Rightarrow> u32 \<Rightarrow> u32" where "mp_physaddr m mp = load32 m (mp + 4)"
definition mp_imcrp :: "mem \<Rightarrow> u32 \<Rightarrow> u8" where "mp_imcrp m mp = m (mp + 12)"
definition conf_length :: "mem \<Rightarrow> u32 \<Rightarrow> nat" where
  "conf_length m c = unat (m (c + 4)) + 256 * unat (m (c + 5))"
definition conf_version :: "mem \<Rightarrow> u32 \<Rightarrow> u8" where "conf_version m c = m (c + 6)"
definition conf_lapicaddr :: "mem \<Rightarrow> u32 \<Rightarrow> u32" where "conf_lapicaddr m c = load32 m (c + 36)"

text \<open>The configuration table and the structure that points to it.\<close>

definition mpconfig :: "mem \<Rightarrow> (u32 \<times> u32) option" where
  "mpconfig m =
     (case mpsearch m of
        None \<Rightarrow> None
      | Some mp \<Rightarrow>
          if mp_physaddr m mp = 0 then None
          else
            let conf = P2V (mp_physaddr m mp)
            in if \<not> has_sig m conf ''PCMP'' then None
               else if conf_version m conf \<noteq> 1 \<and> conf_version m conf \<noteq> 4 then None
               else if mpsum m conf (conf_length m conf) \<noteq> 0 then None
               else Some (conf, mp))"

section \<open>The entries\<close>

definition add_cpu :: "u8 \<Rightarrow> 'a mp_machine_scheme \<Rightarrow> 'a mp_machine_scheme" where
  "add_cpu aid s =
     (if ncpu s < NCPU then (upd_cpu (ncpu s) (\<lambda>c. c\<lparr>apicid := aid\<rparr>) s)\<lparr>ncpu := ncpu s + 1\<rparr> else s)"

partial_function (option) mp_entries ::
  "u32 \<Rightarrow> u32 \<Rightarrow> bool \<Rightarrow> 'a mp_machine_scheme \<Rightarrow> (bool \<times> 'a mp_machine_scheme) option" where
  "mp_entries p e ismp s =
     (if \<not> p < e then Some (ismp, s)
      else if mem s p = 0 then mp_entries (p + 20) e ismp (add_cpu (mem s (p + 1)) s)
      else if mem s p = 2 then mp_entries (p + 8) e ismp (s\<lparr>ioapicid := mem s (p + 1)\<rparr>)
      else if mem s p = 1 \<or> mem s p = 3 \<or> mem s p = 4 then mp_entries (p + 8) e ismp s
      else mp_entries p e False s)"

definition mpinit :: "'a mp_machine_scheme \<Rightarrow> (unit, 'a mp_machine_scheme) kres option" where
  "mpinit s =
     (case mpconfig (mem s) of
        None \<Rightarrow> Some (Panic ''Expect to run on an SMP'')
      | Some (conf, mp) \<Rightarrow>
          do { (ismp, s) \<leftarrow> mp_entries (conf + 44) (conf + of_nat (conf_length (mem s) conf)) True (s\<lparr>lapic := conf_lapicaddr (mem s) conf\<rparr>);
               Some (if \<not> ismp then Panic ''Didn't find a suitable machine''
                     else if mp_imcrp (mem s) mp \<noteq> 0
                       then Ret () (s\<lparr>mp_outs := mp_outs s @ [(0x22, 0x70), (0x23, imcr_in s OR 1)]\<rparr>)
                     else Ret () s) })"

section \<open>The table of the firmware\<close>

text \<open>The entries of a table, with the bytes that the loop reads.\<close>

datatype mpentry = MProc u8 | MIoapic u8 | MOther u8

fun entry_size :: "mpentry \<Rightarrow> nat" where
  "entry_size (MProc a) = 20" | "entry_size (MIoapic a) = 8" | "entry_size (MOther t) = 8"

fun entry_at :: "mem \<Rightarrow> u32 \<Rightarrow> mpentry \<Rightarrow> bool" where
  "entry_at m p (MProc a) \<longleftrightarrow> m p = 0 \<and> m (p + 1) = a"
| "entry_at m p (MIoapic a) \<longleftrightarrow> m p = 2 \<and> m (p + 1) = a"
| "entry_at m p (MOther t) \<longleftrightarrow> m p = t \<and> (t = 1 \<or> t = 3 \<or> t = 4)"

fun table_at :: "mem \<Rightarrow> u32 \<Rightarrow> mpentry list \<Rightarrow> bool" where
  "table_at m p [] = True"
| "table_at m p (x # xs) = (entry_at m p x \<and> table_at m (p + of_nat (entry_size x)) xs)"

definition table_size :: "mpentry list \<Rightarrow> nat" where
  "table_size xs = sum_list (map entry_size xs)"

fun register :: "mpentry \<Rightarrow> 'a mp_machine_scheme \<Rightarrow> 'a mp_machine_scheme" where
  "register (MProc a) s = add_cpu a s"
| "register (MIoapic a) s = s\<lparr>ioapicid := a\<rparr>"
| "register (MOther t) s = s"

definition procs_of :: "mpentry list \<Rightarrow> u8 list" where
  "procs_of xs = concat (map (\<lambda>x. case x of MProc a \<Rightarrow> [a] | _ \<Rightarrow> []) xs)"

lemma add_cpu_keeps [simp]: "mem (add_cpu a s) = mem s" "lapic (add_cpu a s) = lapic s"
  by (simp_all add: add_cpu_def upd_cpu_def)

lemma register_mem [simp]: "mem (register x s) = mem s"
  by (cases x) simp_all

lemma mp_entries_table:
  assumes "table_at (mem s) p xs" "unat p + table_size xs \<le> unat e"
  shows "mp_entries p e ismp s = mp_entries (p + of_nat (table_size xs)) e ismp (fold register xs s)"
  using assms
proof (induction xs arbitrary: p s)
  case Nil
  then show ?case by (simp add: table_size_def)
next
  case (Cons x xs)
  let ?q = "p + of_nat (entry_size x)"
  have sz: "table_size (x # xs) = entry_size x + table_size xs" "0 < entry_size x" by (cases x; simp add: table_size_def)+
  have e: "p + of_nat (table_size (x # xs)) = ?q + of_nat (table_size xs)" by (simp add: sz add.assoc)
  have lt: "p < e" using Cons.prems(2) sz by (simp add: word_less_nat_alt)
  have "unat e < 2 ^ 32" using unsigned_less [of e] by simp
  then have "unat p + entry_size x < 2 ^ 32" using Cons.prems(2) sz(1) by linarith
  then have "unat ?q = unat p + entry_size x" by (simp add: unat_word_ariths unat_of_nat)
  then have "mp_entries ?q e ismp (register x s) = mp_entries (?q + of_nat (table_size xs)) e ismp (fold register xs (register x s))"
    using Cons.IH [of "register x s" ?q] Cons.prems sz by simp
  moreover have "mp_entries p e ismp s = mp_entries ?q e ismp (register x s)"
    using lt Cons.prems(1) by (subst mp_entries.simps) (cases x; auto)
  ultimately show ?case unfolding e by (simp only: fold_simps)
qed

lemma mp_entries_end: "\<not> p < e \<Longrightarrow> mp_entries p e ismp s = Some (ismp, s)"
  by (subst mp_entries.simps) simp

text \<open>The \<open>break\<close> of the default case leaves the switch, not the loop, and \<open>p\<close> stays where it is.\<close>

lemma mp_entries_stuck:
  "mp_entries p e ismp s = Some y \<Longrightarrow> \<not> (p < e \<and> mem s p \<notin> {0, 1, 2, 3, 4})"
proof (rule mp_entries.raw_induct [where P = "\<lambda>p e ismp s y. \<not> (p < e \<and> mem s p \<notin> {0, 1, 2, 3, 4})"])
  fix loop and p e :: u32 and ismp :: bool and s :: "'a mp_machine_scheme" and y
  assume ih: "\<And>p e ismp s y. loop p e ismp s = Some y \<Longrightarrow> \<not> (p < e \<and> mem s p \<notin> {0, 1, 2, 3, 4})"
    and run: "(if \<not> p < e then Some (ismp, s)
      else if mem s p = 0 then loop (p + 20) e ismp (add_cpu (mem s (p + 1)) s)
      else if mem s p = 2 then loop (p + 8) e ismp (s\<lparr>ioapicid := mem s (p + 1)\<rparr>)
      else if mem s p = 1 \<or> mem s p = 3 \<or> mem s p = 4 then loop (p + 8) e ismp s
      else loop p e False s) = Some y"
  show "\<not> (p < e \<and> mem s p \<notin> {0, 1, 2, 3, 4})"
    using ih [of p e False s y] run by (auto split: if_splits)
qed

section \<open>What mpinit registers\<close>

lemma procs_of_Cons [simp]:
  "procs_of [] = []" "procs_of (MProc a # xs) = a # procs_of xs" "procs_of (MIoapic a # xs) = procs_of xs"
  "procs_of (MOther t # xs) = procs_of xs"
  by (simp_all add: procs_of_def)

definition known_cpus :: "'a mp_machine_scheme \<Rightarrow> u8 list" where
  "known_cpus s = map apicid (take (ncpu s) (cpus s))"

lemma add_cpu_known:
  assumes "length (cpus s) = NCPU" "ncpu s \<le> NCPU"
  shows "known_cpus (add_cpu a s) = take NCPU (known_cpus s @ [a])" "length (cpus (add_cpu a s)) = NCPU" "ncpu (add_cpu a s) \<le> NCPU"
  using assms by (auto simp: add_cpu_def upd_cpu_def known_cpus_def take_Suc_conv_app_nth take_map)

lemma register_known1:
  assumes "length (cpus s) = NCPU" "ncpu s \<le> NCPU"
  shows "take NCPU (known_cpus (register x s) @ ys) = take NCPU (known_cpus s @ procs_of [x] @ ys)"
    "length (cpus (register x s)) = NCPU \<and> ncpu (register x s) \<le> NCPU"
proof -
  have n: "length (known_cpus s) \<le> NCPU" using assms(2) by (simp add: known_cpus_def)
  show "length (cpus (register x s)) = NCPU \<and> ncpu (register x s) \<le> NCPU"
    using assms add_cpu_known(2,3) [OF assms] by (cases x) simp_all
  show "take NCPU (known_cpus (register x s) @ ys) = take NCPU (known_cpus s @ procs_of [x] @ ys)"
  proof (cases x)
    case (MProc a)
    then show ?thesis using add_cpu_known(1) [OF assms, of a] n by (cases "length (known_cpus s) = NCPU") simp_all
  qed (simp_all add: known_cpus_def)
qed

lemma procs_of_append: "procs_of (x # xs) = procs_of [x] @ procs_of xs"
  by (cases x) simp_all

lemma register_known:
  assumes "length (cpus s) = NCPU" "ncpu s \<le> NCPU"
  shows "known_cpus (fold register xs s) = take NCPU (known_cpus s @ procs_of xs) \<and> mem (fold register xs s) = mem s"
  using assms
proof (induction xs arbitrary: s)
  case Nil
  then show ?case by (simp add: known_cpus_def)
next
  case (Cons x xs)
  then show ?case using register_known1(1) [OF Cons.prems, of x "procs_of xs"] register_known1(2) [OF Cons.prems, of x] by (simp add: procs_of_append [of x xs])
qed

lemma register_lapic: "lapic (fold register xs s) = lapic s"
proof (induction xs arbitrary: s)
  case (Cons x xs)
  then show ?case by (cases x) simp_all
qed simp

text \<open>
  \<open>mpinit\<close> returns on a table whose entries are all of the five kinds, and registers the processors
  of the table in the order in which they are listed, the first \<open>NCPU\<close> of them, with the address of the
  local interrupt controller from its header.
\<close>

theorem mpinit_registers:
  assumes conf: "mpconfig (mem s) = Some (conf, mp)" and tab: "table_at (mem s) (conf + 44) xs"
    and len: "conf_length (mem s) conf = 44 + table_size xs" "unat conf + conf_length (mem s) conf < 2 ^ 32"
    and cpus: "length (cpus s) = NCPU" "ncpu s = 0"
  shows "\<exists>s'. mpinit s = Some (Ret () s') \<and> map apicid (take (ncpu s') (cpus s')) = take NCPU (procs_of xs) \<and>
    lapic s' = conf_lapicaddr (mem s) conf"
proof -
  let ?s = "s\<lparr>lapic := conf_lapicaddr (mem s) conf\<rparr>"
  let ?e = "conf + of_nat (conf_length (mem s) conf)"
  have u: "unat (conf + 44) = unat conf + 44" "unat ?e = unat conf + conf_length (mem s) conf"
    using len by (simp_all add: unat_word_ariths unat_of_nat)
  have e: "conf + 44 + of_nat (table_size xs) = ?e" by (simp add: len(1) add.assoc)
  have "mp_entries (conf + 44) ?e True ?s = mp_entries (conf + 44 + of_nat (table_size xs)) ?e True (fold register xs ?s)"
    using mp_entries_table [of ?s "conf + 44" xs ?e True] tab u len(1) by simp
  also have "\<dots> = Some (True, fold register xs ?s)" unfolding e by (rule mp_entries_end) simp
  finally have m: "mp_entries (conf + 44) ?e True ?s = Some (True, fold register xs ?s)" .
  have "known_cpus (fold register xs ?s) = take NCPU (procs_of xs)"
    using register_known [of ?s xs] cpus by (simp add: known_cpus_def)
  then show ?thesis using conf m register_lapic [of xs ?s] by (simp add: mpinit_def known_cpus_def)
qed

text \<open>An entry of any other kind, and the loop never ends, before the check that would panic.\<close>

lemma mpinit_unknown_entry:
  assumes conf: "mpconfig (mem s) = Some (conf, mp)" and tab: "table_at (mem s) (conf + 44) xs"
    and p: "unat conf + 44 + table_size xs < unat (conf + of_nat (conf_length (mem s) conf))"
    and cpus: "length (cpus s) = NCPU" "ncpu s \<le> NCPU"
    and bad: "mem s (conf + 44 + of_nat (table_size xs)) \<notin> {0, 1, 2, 3, 4}"
  shows "mpinit s = None"
proof -
  let ?s = "s\<lparr>lapic := conf_lapicaddr (mem s) conf\<rparr>"
  let ?e = "conf + of_nat (conf_length (mem s) conf)"
  let ?p = "conf + 44 + of_nat (table_size xs)"
  have "unat ?e < 4294967296" using unsigned_less [of ?e] by simp
  then have n: "unat conf + 44 + table_size xs < 4294967296" using p by linarith
  then have u: "unat (conf + 44) = unat conf + 44" by (simp add: unat_word_ariths)
  then have "unat ?p = unat conf + 44 + table_size xs" using n by (simp add: unat_word_ariths(1) [of "conf + 44"] unat_of_nat)
  then have lt: "?p < ?e" using p by (simp add: word_less_nat_alt)
  have "mem (fold register xs ?s) = mem s" using register_known [of ?s xs] cpus by simp
  then have "mp_entries ?p ?e True (fold register xs ?s) = None"
    using mp_entries_stuck [of ?p ?e True "fold register xs ?s"] lt bad by (cases "mp_entries ?p ?e True (fold register xs ?s)") auto
  then have "mp_entries (conf + 44) ?e True ?s = None"
    using mp_entries_table [of ?s "conf + 44" xs ?e True] tab u p by simp
  then show ?thesis using conf by (simp add: mpinit_def)
qed

end
