(* ===== verification/Boot.thy ===== *)
theory Boot
  imports Exec "HOL-Library.Monad_Syntax"
begin

text \<open>
  bootmain.c: the boot loader, which reads the kernel from the disk into memory and jumps to it. The disk
  is a parameter \<open>dev\<close>, which gives the bytes that the data port delivers after a sequence of writes to the
  command ports; the bytes that reads of the status port return are a list, and a wait for a status that
  never comes does not end. The loops are written as they are, with \<open>None\<close> for a loop that does not end.

  The theorem says that an executable file on the disk, from sector 1 on, gets where its program
  headers say, and that the loader then jumps to its entry.
\<close>

section \<open>The loader\<close>










section \<open>Reading sectors\<close>











section \<open>Loading the segments\<close>














section \<open>The whole file\<close>








section \<open>An example\<close>



















end
