(* ===== verification/Journal.thy ===== *)
theory Journal
  imports Log Bcache
begin

text \<open>
  The commit protocol of log.c. The loops of \<open>write_log\<close>, \<open>write_head\<close> and \<open>install_trans\<close> are
  sequences of block writes; \<open>commit\<close> and \<open>recover_from_log\<close> are reduced to them, and the disk is
  followed through every prefix of the writes.
\<close>

section \<open>One block copied\<close>

text \<open>No buffer is held.\<close>

definition QI :: "nat \<Rightarrow> nat \<Rightarrow> 'a bcache_scheme \<Rightarrow> bool" where
  "QI c p s \<longleftrightarrow> BI c p s \<and> vheld (view s) = {}"

text \<open>Block \<open>b\<close> gets contents \<open>d\<close>, in memory and on the disk.\<close>

definition vwrite :: "u32 \<Rightarrow> u8 list \<Rightarrow> bview \<Rightarrow> bview" where
  "vwrite b d v = v\<lparr>vblk := (vblk v)(b := d), vdisk := (vdisk v)[unat b := d],
     vwrites := vwrites v @ [(unat b, d)], vdirty := vdirty v - {b}\<rparr>"

lemma vwrite_simps [simp]:
  "vblk (vwrite b d v) = (vblk v)(b := d)" "vdisk (vwrite b d v) = (vdisk v)[unat b := d]"
  "vwrites (vwrite b d v) = vwrites v @ [(unat b, d)]" "vdirty (vwrite b d v) = vdirty v - {b}"
  "vheld (vwrite b d v) = vheld v"
  by (simp_all add: vwrite_def)

lemma view_disk: "vdisk (view s) = memdisk s" "vwrites (view s) = dwrites s"
  by (simp_all add: view_def)

lemma QI_clean:
  assumes "QI c p s" "b \<notin> vdirty (view s)"
  shows "vblk (view s) b = vdisk (view s) ! unat b"
proof -
  have inv: "binv (pid (procs s ! p)) s" and h: "vheld (view s) = {}"
    using assms(1) BI_D(2) by (auto simp: QI_def)
  have "blk s b = memdisk s ! unat b"
  proof (cases "\<exists>i < length (bufs s). is_valid (bufs s ! i) \<and> blockno (bufs s ! i) = b")
    case True
    then obtain i where i: "i < length (bufs s)" "is_valid (bufs s ! i)" "blockno (bufs s ! i) = b"
      by blast
    have "refcnt (bufs s ! i) = 0" "\<not> is_dirty (bufs s ! i)"
      using h assms(2) i by (auto simp: view_def)
    then show ?thesis
      using blk_cached [OF inv i] buf_okD(8) [OF binvD(3) [OF inv i(1)] i(2)] i(3) by simp
  next
    case False
    then show ?thesis
      by (intro blk_uncached) blast
  qed
  then show ?thesis
    by (simp add: view_def)
qed

text \<open>Two buffers are held; the contents of one go to the other and to the disk, both are released.\<close>

lemma copy_ok:
  assumes q: "qt c {} s t" and inv: "BI c p s" and h: "vheld (view s) = {(i, b), (j, a)}" and ne: "a \<noteq> b"
    and clean: "a \<in> vdirty (view s) \<or> vblk (view s) a = vdisk (view s) ! unat a"
  obtains s' t' where
    "bnd (bwrite i (upd_buf i (\<lambda>k. k\<lparr>data := data (bufs t ! j)\<rparr>) t)) (\<lambda>_ s. bnd (brelse j s) (\<lambda>_ s. brelse i s)) = Ret () t'"
    "qt c {} s' t'" "QI c p s'" "bframe s s'" "view s' = (vwrite b (vblk (view s) a) (view s))\<lparr>vheld := {}\<rparr>"
proof -
  have hi: "(i, b) \<in> vheld (view s)" "(j, a) \<in> vheld (view s)"
    by (simp_all add: h)
  let ?f = "upd_buf i (\<lambda>k. k\<lparr>data := vblk (view s) a\<rparr>)"
  note u = set_data_ok [OF inv hi(1), of "\<lambda>_. vblk (view s) a"]
  have dj: "data (bufs t ! j) = vblk (view s) a"
    using heldD(8) [OF inv hi(2)] qt_bufs(1) [OF q] by simp
  have q1: "qt c {} (?f s) (?f t)"
    by (rule qt_payload [OF payload_upd_buf q])
  have h1: "(i, b) \<in> vheld (view (?f s))"
    unfolding u(3) by (simp add: h)
  obtain s2 t2 where 2: "bwrite i (?f t) = Ret () t2" "qt c {} s2 t2" "BI c p s2" "bframe (?f s) s2"
    "view s2 = (view (?f s))\<lparr>vdisk := (vdisk (view (?f s)))[unat b := vblk (view (?f s)) b],
      vwrites := vwrites (view (?f s)) @ [(unat b, vblk (view (?f s)) b)], vdirty := vdirty (view (?f s)) - {b}\<rparr>"
    using q1 u(1) h1 by (rule bwrite_ok)
  have v2: "view s2 = vwrite b (vblk (view s) a) (view s)"
    unfolding 2(5) u(3) by (simp add: vwrite_def)
  have b: "unat b < length (vdisk (view s))"
    using heldD(7) [OF inv hi(1)] by (simp add: view_def)
  have "(j, a) \<in> vheld (view s2)" "a \<in> vdirty (view s2) \<or> vblk (view s2) a = vdisk (view s2) ! unat a"
    unfolding v2 using clean ne by (auto simp: h word_unat_eq_iff)
  then obtain s3 t3 where 3: "brelse j t2 = Ret () t3" "qt c {} s3 t3" "BI c p s3" "bframe s2 s3"
    "view s3 = (view s2)\<lparr>vheld := vheld (view s2) - {(j, a)}\<rparr>"
    by (rule brelse_ok [OF 2(2,3)])
  have "(i, b) \<in> vheld (view s3)" "b \<in> vdirty (view s3) \<or> vblk (view s3) b = vdisk (view s3) ! unat b"
    unfolding 3(5) v2 using ne b by (auto simp: h)
  then obtain s4 t4 where 4: "brelse i t3 = Ret () t4" "qt c {} s4 t4" "BI c p s4" "bframe s3 s4"
    "view s4 = (view s3)\<lparr>vheld := vheld (view s3) - {(i, b)}\<rparr>"
    by (rule brelse_ok [OF 3(2,3)])
  have v4: "view s4 = (vwrite b (vblk (view s) a) (view s))\<lparr>vheld := {}\<rparr>"
  proof -
    have "{(i, b), (j, a)} - {(j, a)} - {(i, b)} = {}"
      by auto
    then show ?thesis
      unfolding 4(5) 3(5) v2 by (simp add: h)
  qed
  show ?thesis
  proof (rule that)
    show "bnd (bwrite i (upd_buf i (\<lambda>k. k\<lparr>data := data (bufs t ! j)\<rparr>) t)) (\<lambda>_ s. bnd (brelse j s) (\<lambda>_ s. brelse i s)) = Ret () t4"
      using 2(1) 3(1) 4(1) by (simp add: dj)
    show "qt c {} s4 t4"
      by (rule 4(2))
    show "QI c p s4"
      using 4(3) v4 by (simp add: QI_def)
    show "bframe s s4"
      by (rule bframe_trans [OF u(2) bframe_trans [OF 2(4) bframe_trans [OF 3(4) 4(4)]]])
    show "view s4 = (vwrite b (vblk (view s) a) (view s))\<lparr>vheld := {}\<rparr>"
      by (rule v4)
  qed
qed

text \<open>The two reads before it.\<close>

lemma bread2_ok:
  assumes q: "qt c {} s t" and inv: "QI c p s" and ab: "a \<noteq> b" "unat a < length (vdisk (view s))" "unat b < length (vdisk (view s))"
    and room: "card (vdirty (view s)) < length (bufs s)" "b \<in> vdirty (view s) \<or> card (insert a (vdirty (view s))) < length (bufs s)"
  obtains i j s1 t1 s2 t2 where "bread 1 a t = Ret i t1" "qt c {} s1 t1" "bframe s s1"
    "bread 1 b t1 = Ret j t2" "qt c {} s2 t2" "BI c p s2" "bframe s s2" "view s2 = (view s)\<lparr>vheld := {(i, a), (j, b)}\<rparr>"
proof -
  have inv': "BI c p s" and h: "vheld (view s) = {}"
    using inv by (simp_all add: QI_def)
  have md: "length (memdisk s) = length (vdisk (view s))"
    by (simp add: view_def)
  have "can_take s a"
    using ab room by (simp add: can_take_def h md)
  then obtain i s1 t1 where 1: "bread 1 a t = Ret i t1" "qt c {} s1 t1" "BI c p s1" "bframe s s1"
    "view s1 = (view s)\<lparr>vheld := insert (i, a) (vheld (view s))\<rparr>"
    by (rule bread_ok [OF q inv'])
  have "length (memdisk s1) = length (vdisk (view s))"
    using arg_cong [OF 1(5), of vdisk] by (simp add: view_def)
  then have "can_take s1 b"
    using ab room by (simp add: can_take_def 1(5) h bframe_len [OF 1(4)])
  then obtain j s2 t2 where 2: "bread 1 b t1 = Ret j t2" "qt c {} s2 t2" "BI c p s2" "bframe s1 s2"
    "view s2 = (view s1)\<lparr>vheld := insert (j, b) (vheld (view s1))\<rparr>"
    by (rule bread_ok [OF 1(2,3)])
  show ?thesis
    by (rule that [OF 1(1,2,4) 2(1,2,3) bframe_trans [OF 1(4) 2(4)]]) (simp add: 2(5) 1(5) h insert_commute)
qed

section \<open>The log\<close>

text \<open>
  The blocks of a transaction, as the header in memory lists them; block \<open>k\<close> of the log is
  \<open>lblk s k\<close>, its header \<open>hblk s\<close>.
\<close>

definition tblk :: "'a log_scheme \<Rightarrow> nat \<Rightarrow> u32" where
  "tblk s k = of_int (lh_block s ! k)"

definition lblk :: "'a log_scheme \<Rightarrow> nat \<Rightarrow> u32" where
  "lblk s k = of_int (log_start s + int k + 1)"

definition hblk :: "'a log_scheme \<Rightarrow> u32" where
  "hblk s = of_int (log_start s)"

text \<open>The log is on the disk, and apart from the blocks of the transaction.\<close>

definition log_ok :: "nat \<Rightarrow> 'a log_scheme \<Rightarrow> bool" where
  "log_ok n s \<longleftrightarrow>
     log_dev s = 1 \<and> n \<le> LOGSIZE \<and> n < length (bufs s) \<and> 0 \<le> log_start s \<and>
     nat (log_start s) + n < length (memdisk s) \<and> length (memdisk s) < 2 ^ 31 \<and>
     (\<forall>k < n. unat (tblk s k) < nat (log_start s) \<or> nat (log_start s) + n < unat (tblk s k)) \<and>
     (\<forall>k < n. unat (tblk s k) < length (memdisk s)) \<and> inj_on (tblk s) {..<n}"

lemma log_okD:
  assumes "log_ok n s"
  shows "log_dev s = 1" "n \<le> LOGSIZE" "n < length (bufs s)"
    and "unat (hblk s) = nat (log_start s)" "k < n \<Longrightarrow> unat (lblk s k) = nat (log_start s) + k + 1"
    and "nat (log_start s) + n < length (memdisk s)" "k < n \<Longrightarrow> unat (tblk s k) < length (memdisk s)"
    and "k < n \<Longrightarrow> unat (tblk s k) \<noteq> nat (log_start s) + m \<or> n < m" "inj_on (tblk s) {..<n}"
proof -
  show "log_dev s = 1" "n \<le> LOGSIZE" "n < length (bufs s)" "nat (log_start s) + n < length (memdisk s)"
    "k < n \<Longrightarrow> unat (tblk s k) < length (memdisk s)" "inj_on (tblk s) {..<n}"
    using assms by (simp_all add: log_ok_def)
  have b: "0 \<le> log_start s" "nat (log_start s) + n < 2 ^ 31"
    using assms by (auto simp: log_ok_def)
  have w: "unat (of_int (log_start s + int m) :: u32) = nat (log_start s) + m" if "m \<le> n" for m
  proof -
    have e: "log_start s + int m = int (nat (log_start s) + m)"
      using b by simp
    show ?thesis
      unfolding e of_int_of_nat_eq unat_of_nat using b that by simp
  qed
  show "unat (hblk s) = nat (log_start s)"
    using w [of 0] by (simp add: hblk_def)
  show "unat (lblk s k) = nat (log_start s) + k + 1" if "k < n"
    using w [of "k + 1"] that by (simp add: lblk_def ac_simps)
  show "unat (tblk s k) \<noteq> nat (log_start s) + m \<or> n < m" if "k < n"
    using assms that by (auto simp: log_ok_def)
qed

lemma bframe_log:
  assumes "bframe s s'"
  shows "log_start s' = log_start s" "log_dev s' = log_dev s" "lh_n s' = lh_n s" "lh_block s' = lh_block s"
    and "tblk s' = tblk s" "lblk s' = lblk s" "hblk s' = hblk s" "outstanding s' = outstanding s" "log_size s' = log_size s"
    "committing s' = committing s"
  using assms by (auto simp: bframe_def tblk_def lblk_def hblk_def fun_eq_iff)

lemma qt_log:
  assumes "qt c L s t"
  shows "log_start t = log_start s" "log_dev t = log_dev s" "lh_n t = lh_n s" "lh_block t = lh_block s"
    "outstanding t = outstanding s" "log_size t = log_size s" "committing t = committing s"
  using assms by (auto elim!: qtE)

lemma log_ok_frame:
  assumes "bframe s s'" "length (vdisk (view s')) = length (vdisk (view s))"
  shows "log_ok n s' = log_ok n s"
proof -
  have "length (memdisk s') = length (memdisk s)"
    using assms(2) by (simp add: view_def)
  then show ?thesis
    by (simp add: log_ok_def bframe_log [OF assms(1)] bframe_len [OF assms(1)])
qed

lemma not_held: "vheld v = {} \<Longrightarrow> v\<lparr>vheld := {}\<rparr> = v"
  by (cases v) simp

lemma log_ne:
  assumes "log_ok n s" "k < n" "j < n"
  shows "lblk s j \<noteq> tblk s k" "hblk s \<noteq> tblk s k" "lblk s j \<noteq> hblk s"
proof -
  have "nat (log_start s) + j + 1 \<noteq> unat (tblk s k)" "nat (log_start s) \<noteq> unat (tblk s k)"
    using log_okD(8) [OF assms(1,2), of "j + 1"] log_okD(8) [OF assms(1,2), of 0] assms(3) by auto
  then show "lblk s j \<noteq> tblk s k" "hblk s \<noteq> tblk s k" "lblk s j \<noteq> hblk s"
    using log_okD(4,5) [OF assms(1)] assms(3) by (auto simp: word_unat_eq_iff)
qed

text \<open>One round of \<open>write_log\<close> and of \<open>install_trans\<close>.\<close>

lemma write_log1_ok:
  assumes q: "qt c {} s t" and inv: "QI c p s" and l: "log_ok n s" and k: "k < n"
    and d: "vdirty (view s) = tblk s ` {..<n}"
  obtains s' t' where "write_log1 k t = Ret () t'" "qt c {} s' t'" "QI c p s'" "bframe s s'"
    "view s' = vwrite (lblk s k) (vblk (view s) (tblk s k)) (view s)"
proof -
  note lo = log_okD [OF l]
  have ab: "lblk s k \<noteq> tblk s k" "unat (lblk s k) < length (vdisk (view s))" "unat (tblk s k) < length (vdisk (view s))"
    using log_ne [OF l k k] lo(5,6,7) k by (simp_all add: view_def)
  have room: "card (vdirty (view s)) < length (bufs s)"
    "tblk s k \<in> vdirty (view s) \<or> card (insert (lblk s k) (vdirty (view s))) < length (bufs s)"
    using lo(3,9) k by (simp_all add: d card_image)
  obtain i j s1 t1 s2 t2 where 1: "bread 1 (lblk s k) t = Ret i t1" "qt c {} s1 t1" "bframe s s1"
    "bread 1 (tblk s k) t1 = Ret j t2" "qt c {} s2 t2" "BI c p s2" "bframe s s2"
    "view s2 = (view s)\<lparr>vheld := {(i, lblk s k), (j, tblk s k)}\<rparr>"
    using q inv ab room by (rule bread2_ok)
  have h: "vheld (view s2) = {(i, lblk s k), (j, tblk s k)}"
    "tblk s k \<in> vdirty (view s2) \<or> vblk (view s2) (tblk s k) = vdisk (view s2) ! unat (tblk s k)"
    using k by (simp_all add: 1(8) d)
  obtain s' t' where 2:
    "bnd (bwrite i (upd_buf i (\<lambda>k. k\<lparr>data := data (bufs t2 ! j)\<rparr>) t2)) (\<lambda>_ s. bnd (brelse j s) (\<lambda>_ s. brelse i s)) = Ret () t'"
    "qt c {} s' t'" "QI c p s'" "bframe s2 s'" "view s' = (vwrite (lblk s k) (vblk (view s2) (tblk s k)) (view s2))\<lparr>vheld := {}\<rparr>"
    using 1(5,6) h(1) ab(1) [symmetric] h(2) by (rule copy_ok)
  show ?thesis
  proof (rule that [OF _ 2(2,3) bframe_trans [OF 1(7) 2(4)]])
    show "write_log1 k t = Ret () t'"
      using 1(1,4) 2(1) k lo(1,2)
      by (simp add: write_log1_def Let_def qt_log [OF q] qt_log [OF 1(2)] bframe_log [OF 1(3)] lblk_def tblk_def)
    show "view s' = vwrite (lblk s k) (vblk (view s) (tblk s k)) (view s)"
      using inv unfolding 2(5) 1(8) by (simp add: vwrite_def QI_def)
  qed
qed

lemma install_trans1_ok:
  assumes q: "qt c {} s t" and inv: "QI c p s" and l: "log_ok n s" and k: "k < n"
    and d: "vdirty (view s) \<subseteq> tblk s ` {..<n}" "tblk s k \<in> vdirty (view s) \<or> vdirty (view s) = {}" and b: "1 < length (bufs s)"
  obtains s' t' where "install_trans1 k t = Ret () t'" "qt c {} s' t'" "QI c p s'" "bframe s s'"
    "view s' = vwrite (tblk s k) (vblk (view s) (lblk s k)) (view s)"
proof -
  note lo = log_okD [OF l]
  have ab: "lblk s k \<noteq> tblk s k" "unat (lblk s k) < length (vdisk (view s))" "unat (tblk s k) < length (vdisk (view s))"
    using log_ne [OF l k k] lo(5,6,7) k by (simp_all add: view_def)
  have "card (vdirty (view s)) \<le> n"
    using card_mono [OF _ d(1)] card_image_le [of "{..<n}" "tblk s"] by simp
  then have room: "card (vdirty (view s)) < length (bufs s)"
    "tblk s k \<in> vdirty (view s) \<or> card (insert (lblk s k) (vdirty (view s))) < length (bufs s)"
    using lo(3) d(2) b by auto
  obtain i j s1 t1 s2 t2 where 1: "bread 1 (lblk s k) t = Ret i t1" "qt c {} s1 t1" "bframe s s1"
    "bread 1 (tblk s k) t1 = Ret j t2" "qt c {} s2 t2" "BI c p s2" "bframe s s2"
    "view s2 = (view s)\<lparr>vheld := {(i, lblk s k), (j, tblk s k)}\<rparr>"
    using q inv ab room by (rule bread2_ok)
  have "lblk s k \<notin> vdirty (view s)"
    using d(1) log_ne(1) [OF l _ k] by auto
  then have h: "vheld (view s2) = {(j, tblk s k), (i, lblk s k)}"
    "lblk s k \<in> vdirty (view s2) \<or> vblk (view s2) (lblk s k) = vdisk (view s2) ! unat (lblk s k)"
    using QI_clean [OF inv] by (simp_all add: 1(8) insert_commute)
  obtain s' t' where 2:
    "bnd (bwrite j (upd_buf j (\<lambda>k. k\<lparr>data := data (bufs t2 ! i)\<rparr>) t2)) (\<lambda>_ s. bnd (brelse i s) (\<lambda>_ s. brelse j s)) = Ret () t'"
    "qt c {} s' t'" "QI c p s'" "bframe s2 s'" "view s' = (vwrite (tblk s k) (vblk (view s2) (lblk s k)) (view s2))\<lparr>vheld := {}\<rparr>"
    using 1(5,6) h(1) ab(1) h(2) by (rule copy_ok)
  show ?thesis
  proof (rule that [OF _ 2(2,3) bframe_trans [OF 1(7) 2(4)]])
    show "install_trans1 k t = Ret () t'"
      using 1(1,4) 2(1) k lo(1,2)
      by (simp add: install_trans1_def Let_def qt_log [OF q] qt_log [OF 1(2)] bframe_log [OF 1(3)] lblk_def tblk_def)
    show "view s' = vwrite (tblk s k) (vblk (view s) (lblk s k)) (view s)"
      using inv unfolding 2(5) 1(8) by (simp add: vwrite_def QI_def)
  qed
qed

text \<open>The fields of the log are apart from the cache.\<close>

lemma view_log [simp]:
  "view (s\<lparr>lh_n := x\<rparr>) = view s" "view (s\<lparr>lh_block := y\<rparr>) = view s"
  "view (s\<lparr>outstanding := z\<rparr>) = view s" "view (s\<lparr>committing := w\<rparr>) = view s"
  by (simp_all add: view_def blk_def fun_eq_iff split: option.splits)

lemma kidle_log [simp]:
  "kidle c p (s\<lparr>lh_n := x\<rparr>) = kidle c p s" "kidle c p (s\<lparr>lh_block := y\<rparr>) = kidle c p s"
  "kidle c p (s\<lparr>outstanding := z\<rparr>) = kidle c p s" "kidle c p (s\<lparr>committing := w\<rparr>) = kidle c p s"
  by (simp_all add: kidle_def cpu_ok_def this_cpu_def lock_free_def)

lemma dll_log [simp]:
  "dll (s\<lparr>lh_n := x\<rparr>) xs = dll s xs" "dll (s\<lparr>lh_block := y\<rparr>) xs = dll s xs"
  "dll (s\<lparr>outstanding := z\<rparr>) xs = dll s xs" "dll (s\<lparr>committing := w\<rparr>) xs = dll s xs"
proof -
  have "nx (s\<lparr>lh_n := x\<rparr>) = nx s" "nx (s\<lparr>lh_block := y\<rparr>) = nx s" "nx (s\<lparr>outstanding := z\<rparr>) = nx s" "nx (s\<lparr>committing := w\<rparr>) = nx s"
    "pv (s\<lparr>lh_n := x\<rparr>) = pv s" "pv (s\<lparr>lh_block := y\<rparr>) = pv s" "pv (s\<lparr>outstanding := z\<rparr>) = pv s" "pv (s\<lparr>committing := w\<rparr>) = pv s"
    by (simp_all add: nx_def pv_def getb_def fun_eq_iff split: bptr.splits)
  then show "dll (s\<lparr>lh_n := x\<rparr>) xs = dll s xs" "dll (s\<lparr>lh_block := y\<rparr>) xs = dll s xs"
    "dll (s\<lparr>outstanding := z\<rparr>) xs = dll s xs" "dll (s\<lparr>committing := w\<rparr>) xs = dll s xs"
    by (simp_all add: dll_def)
qed

lemma BI_log [simp]:
  "BI c p (s\<lparr>lh_n := x\<rparr>) = BI c p s" "BI c p (s\<lparr>lh_block := y\<rparr>) = BI c p s"
  "BI c p (s\<lparr>outstanding := z\<rparr>) = BI c p s" "BI c p (s\<lparr>committing := w\<rparr>) = BI c p s"
  by (simp_all add: BI_def binv_def)

lemma QI_log [simp]:
  "QI c p (s\<lparr>lh_n := x\<rparr>) = QI c p s" "QI c p (s\<lparr>lh_block := y\<rparr>) = QI c p s"
  "QI c p (s\<lparr>outstanding := z\<rparr>) = QI c p s" "QI c p (s\<lparr>committing := w\<rparr>) = QI c p s"
  by (simp_all add: QI_def)

lemma payload_log [simp]:
  "payload (\<lambda>s. s\<lparr>lh_n := x\<rparr>)" "payload (\<lambda>s. s\<lparr>lh_block := y\<rparr>)"
  "payload (\<lambda>s. s\<lparr>outstanding := z\<rparr>)" "payload (\<lambda>s. s\<lparr>committing := w\<rparr>)"
  by (simp_all add: payload_def)

section \<open>The header block\<close>

definition head_of :: "nat \<Rightarrow> (nat \<Rightarrow> u32) \<Rightarrow> u8 list \<Rightarrow> u8 list" where
  "head_of n B d = fold (\<lambda>i d. set32 d (4 + 4 * i) (B i)) [0..<n] (set32 d 0 (of_nat n))"

lemma length_set32 [simp]: "length (set32 d k v) = length d"
  by (simp add: set32_def)

lemma get32_set32:
  assumes "k + 3 < length d"
  shows "get32 (set32 d k v) k = v"
  using assms by (simp add: get32_def set32_def nth_list_update word_of_bytes_byte_of)

lemma get32_set32_other:
  assumes "j + 4 \<le> k \<or> k + 4 \<le> j"
  shows "get32 (set32 d k v) j = get32 d j"
  using assms by (auto simp: get32_def set32_def nth_list_update)

lemma length_head_of [simp]: "length (head_of n B d) = length d"
proof -
  have "length (fold (\<lambda>i d. set32 d (4 + 4 * i) (B i)) xs e) = length e" for xs e
    by (induction xs arbitrary: e) simp_all
  then show ?thesis
    by (simp add: head_of_def)
qed

lemma head_of_Suc: "fold (\<lambda>i d. set32 d (4 + 4 * i) (B i)) [0..<Suc n] d
    = set32 (fold (\<lambda>i d. set32 d (4 + 4 * i) (B i)) [0..<n] d) (4 + 4 * n) (B n)"
  by simp

lemma get32_entries:
  assumes "4 * n + 4 \<le> length d"
  shows "get32 (fold (\<lambda>i d. set32 d (4 + 4 * i) (B i)) [0..<n] d) 0 = get32 d 0"
    and "k < n \<Longrightarrow> get32 (fold (\<lambda>i d. set32 d (4 + 4 * i) (B i)) [0..<n] d) (4 + 4 * k) = B k"
    and "length (fold (\<lambda>i d. set32 d (4 + 4 * i) (B i)) [0..<n] d) = length d"
  using assms
proof (induction n)
  case 0
  { case 1 then show ?case by simp }
  { case 2 then show ?case by simp }
  { case 3 then show ?case by simp }
next
  case (Suc n)
  have len: "length (fold (\<lambda>i d. set32 d (4 + 4 * i) (B i)) [0..<n] d) = length d" if "4 * Suc n + 4 \<le> length d"
    using Suc.IH(3) that by simp
  { case 1 then show ?case
      using Suc.IH(1) by (simp add: get32_set32_other) }
  { case 2 then show ?case
      using Suc.IH(2) len by (cases "k = n") (simp_all add: get32_set32 get32_set32_other) }
  { case 3 then show ?case
      using len by simp }
qed

lemma head_of_get:
  assumes "4 * n + 4 \<le> length d"
  shows "get32 (head_of n B d) 0 = of_nat n" "k < n \<Longrightarrow> get32 (head_of n B d) (4 + 4 * k) = B k"
  using get32_entries [where d = "set32 d 0 (of_nat n)" and n = n and B = B] assms by (simp_all add: head_of_def get32_set32)

lemma log_upd_buf [simp]:
  "tblk (upd_buf i f s) = tblk s" "lh_n (upd_buf i f s) = lh_n s" "lh_block (upd_buf i f s) = lh_block s"
  by (simp_all add: tblk_def upd_buf_def fun_eq_iff)

lemma write_head_loop:
  assumes "b < length (bufs t)" "\<forall>i \<in> set xs. i < LOGSIZE"
  shows "mfor (write_head1 b) xs t
    = Ret () (upd_buf b (\<lambda>k. k\<lparr>data := fold (\<lambda>i d. set32 d (4 + 4 * i) (tblk t i)) xs (data k)\<rparr>) t)"
  using assms
proof (induction xs arbitrary: t)
  case Nil
  then show ?case
    by (simp add: upd_buf_def)
next
  case (Cons i xs)
  then show ?case
    by (simp add: write_head1_def Cons.IH upd_buf_upd_buf) (simp add: tblk_def)
qed

lemma write_head_ok:
  assumes q: "qt c {} s t" and inv: "QI c p s" and l: "log_ok (nat (lh_n s)) s" "0 \<le> lh_n s"
    and d: "card (vdirty (view s)) < length (bufs s)"
  obtains s' t' where "write_head t = Ret () t'" "qt c {} s' t'" "QI c p s'" "bframe s s'"
    "view s' = vwrite (hblk s) (head_of (nat (lh_n s)) (tblk s) (vblk (view s) (hblk s))) (view s)"
proof -
  note lo = log_okD [OF l(1)]
  have bi: "BI c p s" and h0: "vheld (view s) = {}"
    using inv by (simp_all add: QI_def)
  have "can_take s (hblk s)"
    using lo(4,6) d by (simp add: can_take_def h0)
  with q bi obtain b s1 t1 where 1: "bread 1 (hblk s) t = Ret b t1" "qt c {} s1 t1" "BI c p s1" "bframe s s1"
    "view s1 = (view s)\<lparr>vheld := insert (b, hblk s) (vheld (view s))\<rparr>" "b < length (bufs s1)"
    "data (bufs s1 ! b) = vblk (view s) (hblk s)"
    by (rule bread_ok)
  let ?f = "upd_buf b (\<lambda>k. k\<lparr>data := head_of (nat (lh_n s)) (tblk s) (data k)\<rparr>)"
  have h1: "(b, hblk s) \<in> vheld (view s1)"
    by (simp add: 1(5))
  have t1: "b < length (bufs t1)" "lh_n t1 = lh_n s" "tblk t1 = tblk s"
    using 1(6) by (simp_all add: qt_bufs [OF 1(2)] qt_log [OF 1(2)] bframe_log [OF 1(4)] tblk_def fun_eq_iff)
  let ?t2 = "upd_buf b (\<lambda>k. k\<lparr>data := set32 (data k) 0 (of_int (lh_n t1))\<rparr>) t1"
  have n: "(of_int (lh_n s) :: u32) = of_nat (nat (lh_n s))"
    using l(2) by simp
  have loop: "mfor (write_head1 b) (upto_n (lh_n s)) ?t2 = Ret () (?f t1)"
    using t1 lo(2) by (simp add: write_head_loop upto_n_def upd_buf_upd_buf head_of_def n)
  note u = set_data_ok [OF 1(3) h1, of "\<lambda>k. head_of (nat (lh_n s)) (tblk s) (data k)"]
  have q2: "qt c {} (?f s1) (?f t1)"
    by (rule qt_payload [OF payload_upd_buf 1(2)])
  have h2: "(b, hblk s) \<in> vheld (view (?f s1))"
    using h1 u(3) by simp
  obtain s3 t3 where 3: "bwrite b (?f t1) = Ret () t3" "qt c {} s3 t3" "BI c p s3" "bframe (?f s1) s3"
    "view s3 = (view (?f s1))\<lparr>vdisk := (vdisk (view (?f s1)))[unat (hblk s) := vblk (view (?f s1)) (hblk s)],
      vwrites := vwrites (view (?f s1)) @ [(unat (hblk s), vblk (view (?f s1)) (hblk s))],
      vdirty := vdirty (view (?f s1)) - {hblk s}\<rparr>"
    using q2 u(1) h2 by (rule bwrite_ok)
  have "unat (hblk s) < length (vdisk (view s))"
    using lo(4,6) by (simp add: view_def)
  then have "(b, hblk s) \<in> vheld (view s3)" "hblk s \<in> vdirty (view s3) \<or> vblk (view s3) (hblk s) = vdisk (view s3) ! unat (hblk s)"
    by (simp_all add: 3(5) u(3) 1(5))
  then obtain s4 t4 where 4: "brelse b t3 = Ret () t4" "qt c {} s4 t4" "BI c p s4" "bframe s3 s4"
    "view s4 = (view s3)\<lparr>vheld := vheld (view s3) - {(b, hblk s)}\<rparr>"
    by (rule brelse_ok [OF 3(2,3)])
  have v: "view s4 = vwrite (hblk s) (head_of (nat (lh_n s)) (tblk s) (vblk (view s) (hblk s))) (view s)"
    by (simp add: 4(5) 3(5) u(3) 1(5,7) h0 vwrite_def)
  show ?thesis
  proof (rule that [OF _ 4(2)])
    show "write_head t = Ret () t4"
      using 1(1) 3(1) 4(1) loop t1 lo(1)
      by (simp add: write_head_def Let_def qt_log [OF q] hblk_def)
    show "QI c p s4"
      using 4(3) v h0 by (simp add: QI_def)
    show "bframe s s4"
      by (rule bframe_trans [OF 1(4) bframe_trans [OF u(2) bframe_trans [OF 3(4) 4(4)]]])
  qed (rule v)
qed

lemma read_head_loop:
  assumes "\<forall>i \<in> set xs. i < LOGSIZE"
  shows "mfor (read_head1 b) xs t
    = Ret () (t\<lparr>lh_block := fold (\<lambda>i l. l[i := sint (get32 (data (bufs t ! b)) (4 + 4 * i))]) xs (lh_block t)\<rparr>)"
  using assms
proof (induction xs arbitrary: t)
  case (Cons i xs)
  then show ?case
    by (simp add: read_head1_def Cons.IH)
qed simp

lemma fold_entries:
  assumes "n \<le> length l"
  shows "length (fold (\<lambda>i l. l[i := f i]) [0..<n] l) = length l"
    and "k < n \<Longrightarrow> fold (\<lambda>i l. l[i := f i]) [0..<n] l ! k = f k"
proof -
  have len: "length (fold (\<lambda>i l. l[i := f i]) xs l) = length l" for xs :: "nat list" and l
    by (induction xs arbitrary: l) simp_all
  show "length (fold (\<lambda>i l. l[i := f i]) [0..<n] l) = length l"
    by (rule len)
  show "fold (\<lambda>i l. l[i := f i]) [0..<n] l ! k = f k" if "k < n"
    using assms that len by (induction n) (auto simp: nth_list_update less_Suc_eq)
qed

text \<open>\<open>read_head\<close> takes the header over from its block.\<close>

definition head_read :: "u8 list \<Rightarrow> 'a log_scheme \<Rightarrow> 'a log_scheme" where
  "head_read d s =
     s\<lparr>lh_n := sint (get32 d 0),
       lh_block := fold (\<lambda>i l. l[i := sint (get32 d (4 + 4 * i))]) [0..<nat (sint (get32 d 0))] (lh_block s)\<rparr>"

lemma payload_head_read: "payload (head_read d)"
  by (simp add: payload_def head_read_def)

lemma head_read_ok:
  assumes "sint (get32 d 0) \<le> int LOGSIZE" "length (lh_block s) = LOGSIZE"
  shows "lh_n (head_read d s) = sint (get32 d 0)" "length (lh_block (head_read d s)) = LOGSIZE"
    and "k < nat (sint (get32 d 0)) \<Longrightarrow> tblk (head_read d s) k = get32 d (4 + 4 * k)"
    and "view (head_read d s) = view s" "QI c p (head_read d s) = QI c p s" "BI c p (head_read d s) = BI c p s"
    and "log_start (head_read d s) = log_start s" "log_dev (head_read d s) = log_dev s"
  using assms by (simp_all add: head_read_def fold_entries tblk_def)

lemma head_read_bframe:
  assumes "bframe s s'"
  shows "bframe (head_read d s) (head_read d s')"
proof -
  obtain w x y z where "s' = s\<lparr>bufs := w, bhead := x, memdisk := y, dwrites := z\<rparr>" "length w = length (bufs s)"
    using assms by (auto simp: bframe_def)
  then show ?thesis
    by (intro bframeI [where w = w and x = x and y = y and z = z]) (simp_all add: head_read_def)
qed

lemma read_head_ok:
  assumes q: "qt c {} s t" and inv: "QI c p s" and h: "log_dev s = 1" "unat (hblk s) < length (vdisk (view s))"
    and d: "card (vdirty (view s)) < length (bufs s)" "hblk s \<notin> vdirty (view s)"
    and n: "sint (get32 (vblk (view s) (hblk s)) 0) \<le> int LOGSIZE"
  obtains s' t' where "read_head t = Ret () t'" "qt c {} s' t'" "QI c p s'"
    "bframe (head_read (vblk (view s) (hblk s)) s) s'" "view s' = view s"
proof -
  let ?d = "vblk (view s) (hblk s)"
  have bi: "BI c p s" and h0: "vheld (view s) = {}"
    using inv by (simp_all add: QI_def)
  have "can_take s (hblk s)"
    using h(2) d by (simp add: can_take_def h0 view_disk)
  with q bi obtain b s1 t1 where 1: "bread 1 (hblk s) t = Ret b t1" "qt c {} s1 t1" "BI c p s1" "bframe s s1"
    "view s1 = (view s)\<lparr>vheld := insert (b, hblk s) (vheld (view s))\<rparr>" "b < length (bufs s1)"
    "data (bufs s1 ! b) = ?d"
    by (rule bread_ok)
  have q2: "qt c {} (head_read ?d s1) (head_read ?d t1)"
    by (rule qt_payload [OF payload_head_read 1(2)])
  have bi2: "BI c p (head_read ?d s1)" and v2: "view (head_read ?d s1) = view s1"
    using 1(3) by (simp_all add: head_read_def)
  have "(b, hblk s) \<in> vheld (view (head_read ?d s1))"
    "hblk s \<in> vdirty (view (head_read ?d s1)) \<or> vblk (view (head_read ?d s1)) (hblk s) = vdisk (view (head_read ?d s1)) ! unat (hblk s)"
    unfolding v2 1(5) using QI_clean [OF inv d(2)] by simp_all
  then obtain s3 t3 where 3: "brelse b (head_read ?d t1) = Ret () t3" "qt c {} s3 t3" "BI c p s3" "bframe (head_read ?d s1) s3"
    "view s3 = (view (head_read ?d s1))\<lparr>vheld := vheld (view (head_read ?d s1)) - {(b, hblk s)}\<rparr>"
    by (rule brelse_ok [OF q2 bi2])
  have v: "view s3 = view s"
    by (simp add: 3(5) v2 1(5) h0)
  have dt: "data (bufs t1 ! b) = ?d"
    using 1(7) by (simp add: qt_bufs [OF 1(2)])
  have n': "\<forall>i \<in> set [0..<nat (sint (get32 ?d 0))]. i < LOGSIZE"
    using n by auto
  have "mfor (read_head1 b) (upto_n (sint (get32 ?d 0))) (t1\<lparr>lh_n := sint (get32 ?d 0)\<rparr>) = Ret () (head_read ?d t1)"
    using n' by (simp add: read_head_loop upto_n_def head_read_def dt)
  then have "read_head t = Ret () t3"
    using 1(1) 3(1) h(1) by (simp add: read_head_def Let_def qt_log [OF q] hblk_def dt)
  moreover have "bframe (head_read ?d s) (head_read ?d s1)"
    by (rule head_read_bframe [OF 1(4)])
  ultimately show ?thesis
    using 3(2,3,4) v h0 by (intro that [of t3 s3]) (auto simp: QI_def intro: bframe_trans)
qed

section \<open>The loops\<close>

lemma mfor_upto:
  assumes "P 0 s t" and "\<And>k s t. k < n \<Longrightarrow> P k s t \<Longrightarrow> \<exists>s' t'. f k t = Ret () t' \<and> P (Suc k) s' t'"
  shows "\<exists>s' t'. mfor f [0..<n] t = Ret () t' \<and> P n s' t'"
proof -
  have app: "mfor f (xs @ ys) = (\<lambda>t. bnd (mfor f xs t) (\<lambda>_ s. mfor f ys s))" for xs ys
    by (induction xs) (auto simp: bnd_assoc intro!: ext)
  show ?thesis
    using assms(2)
  proof (induction n)
    case 0
    then show ?case
      using assms(1) by auto
  next
    case (Suc n)
    then obtain s1 t1 where 1: "mfor f [0..<n] t = Ret () t1" "P n s1 t1"
      by fastforce
    then obtain s2 t2 where "f n t1 = Ret () t2" "P (Suc n) s2 t2"
      using Suc.prems [of n s1 t1] by auto
    with 1 show ?case
      by (auto simp: app)
  qed
qed

text \<open>What the loops do to the view, \<open>B k\<close> being the blocks of the transaction and \<open>L k\<close> those of the log.\<close>

definition copy_all :: "(nat \<Rightarrow> u32) \<Rightarrow> (nat \<Rightarrow> u32) \<Rightarrow> nat \<Rightarrow> bview \<Rightarrow> bview" where
  "copy_all src dst n v = fold (\<lambda>k v. vwrite (dst k) (vblk v (src k)) v) [0..<n] v"

lemma copy_all_Suc: "copy_all src dst (Suc n) v = vwrite (dst n) (vblk (copy_all src dst n v) (src n)) (copy_all src dst n v)"
  by (simp add: copy_all_def)

lemma copy_all_len [simp]: "length (vdisk (copy_all src dst n v)) = length (vdisk v)" "vheld (copy_all src dst n v) = vheld v"
  by (induction n) (simp_all add: copy_all_Suc, simp_all add: copy_all_def)

lemma copy_all_dirty: "vdirty (copy_all src dst n v) = vdirty v - dst ` {..<n}"
  by (induction n) (auto simp: copy_all_Suc lessThan_Suc, auto simp: copy_all_def)

lemma write_log_ok:
  assumes q: "qt c {} s t" and inv: "QI c p s" and l: "log_ok (nat (lh_n s)) s" "vdirty (view s) = tblk s ` {..<nat (lh_n s)}"
  obtains s' t' where "write_log t = Ret () t'" "qt c {} s' t'" "QI c p s'" "bframe s s'"
    "view s' = copy_all (tblk s) (lblk s) (nat (lh_n s)) (view s)"
proof -
  let ?n = "nat (lh_n s)"
  let ?P = "\<lambda>k s' t'. qt c {} s' t' \<and> QI c p s' \<and> bframe s s' \<and> view s' = copy_all (tblk s) (lblk s) k (view s)"
  have "\<exists>s' t'. mfor write_log1 [0..<?n] t = Ret () t' \<and> ?P ?n s' t'"
  proof (rule mfor_upto)
    show "?P 0 s t"
      using q inv by (simp add: copy_all_def)
    fix k s1 t1
    assume k: "k < ?n" and P: "?P k s1 t1"
    have l1: "log_ok ?n s1"
      using P log_ok_frame [of s s1] l(1) by simp
    have fr: "tblk s1 = tblk s" "lblk s1 = lblk s"
      using P bframe_log by blast+
    have "lblk s ` {..<k} \<inter> tblk s ` {..<?n} = {}"
      using log_ne(1) [OF l(1)] k by fastforce
    then have "vdirty (view s1) = tblk s1 ` {..<?n}"
      using P l(2) fr by (auto simp: copy_all_dirty)
    then obtain s2 t2 where "write_log1 k t1 = Ret () t2" "qt c {} s2 t2" "QI c p s2" "bframe s1 s2"
      "view s2 = vwrite (lblk s1 k) (vblk (view s1) (tblk s1 k)) (view s1)"
      using P by (blast intro: write_log1_ok [OF _ _ l1 k])
    then show "\<exists>s' t'. write_log1 k t1 = Ret () t' \<and> ?P (Suc k) s' t'"
      using P fr by (auto simp: copy_all_Suc intro: bframe_trans)
  qed
  then show ?thesis
    using that by (auto simp: write_log_def upto_n_def qt_log [OF q])
qed

lemma install_trans_ok:
  assumes q: "qt c {} s t" and inv: "QI c p s" and l: "log_ok (nat (lh_n s)) s" and b: "1 < length (bufs s)"
    and d: "vdirty (view s) = tblk s ` {..<nat (lh_n s)} \<or> vdirty (view s) = {}"
  obtains s' t' where "install_trans t = Ret () t'" "qt c {} s' t'" "QI c p s'" "bframe s s'"
    "view s' = copy_all (lblk s) (tblk s) (nat (lh_n s)) (view s)"
proof -
  let ?n = "nat (lh_n s)"
  let ?P = "\<lambda>k s' t'. qt c {} s' t' \<and> QI c p s' \<and> bframe s s' \<and> view s' = copy_all (lblk s) (tblk s) k (view s)"
  have "\<exists>s' t'. mfor install_trans1 [0..<?n] t = Ret () t' \<and> ?P ?n s' t'"
  proof (rule mfor_upto)
    show "?P 0 s t"
      using q inv by (simp add: copy_all_def)
    fix k s1 t1
    assume k: "k < ?n" and P: "?P k s1 t1"
    have l1: "log_ok ?n s1" and b1: "1 < length (bufs s1)"
      using P log_ok_frame [of s s1] bframe_len [of s s1] l b by simp_all
    have fr: "tblk s1 = tblk s" "lblk s1 = lblk s"
      using P bframe_log by blast+
    have "tblk s k \<notin> tblk s ` {..<k}"
      using inj_on_image_mem_iff [OF log_okD(9) [OF l], of k "{..<k}"] k by auto
    then have "vdirty (view s1) \<subseteq> tblk s1 ` {..<?n}" "tblk s1 k \<in> vdirty (view s1) \<or> vdirty (view s1) = {}"
      using P d fr k by (auto simp: copy_all_dirty)
    then obtain s2 t2 where "install_trans1 k t1 = Ret () t2" "qt c {} s2 t2" "QI c p s2" "bframe s1 s2"
      "view s2 = vwrite (tblk s1 k) (vblk (view s1) (lblk s1 k)) (view s1)"
      using P b1 by (blast intro: install_trans1_ok [OF _ _ l1 k])
    then show "\<exists>s' t'. install_trans1 k t1 = Ret () t' \<and> ?P (Suc k) s' t'"
      using P fr by (auto simp: copy_all_Suc intro: bframe_trans)
  qed
  then show ?thesis
    using that by (auto simp: install_trans_def upto_n_def qt_log [OF q])
qed

section \<open>Commit and recovery\<close>

text \<open>The two as operations on the view: \<open>h\<close> is the block of the header.\<close>

definition vinstall :: "u32 \<Rightarrow> (nat \<Rightarrow> u32) \<Rightarrow> (nat \<Rightarrow> u32) \<Rightarrow> nat \<Rightarrow> bview \<Rightarrow> bview" where
  "vinstall h lb tb n v =
     (let v = copy_all lb tb n v
      in vwrite h (set32 (vblk v h) 0 0) v)"

definition vcommit :: "u32 \<Rightarrow> (nat \<Rightarrow> u32) \<Rightarrow> (nat \<Rightarrow> u32) \<Rightarrow> nat \<Rightarrow> bview \<Rightarrow> bview" where
  "vcommit h lb tb n v =
     (let v = copy_all tb lb n v;
          v = vwrite h (head_of n tb (vblk v h)) v
      in vinstall h lb tb n v)"

lemma bframe_lh_n:
  assumes "bframe s s'"
  shows "bframe (s\<lparr>lh_n := x\<rparr>) (s'\<lparr>lh_n := x\<rparr>)"
proof -
  obtain w x y z where "s' = s\<lparr>bufs := w, bhead := x, memdisk := y, dwrites := z\<rparr>" "length w = length (bufs s)"
    using assms by (auto simp: bframe_def)
  then show ?thesis
    by (intro bframeI [where w = w and x = x and y = y and z = z]) simp_all
qed

lemma tail_ok:
  assumes q: "qt c {} s t" and inv: "QI c p s" and l: "log_ok (nat (lh_n s)) s" and b: "1 < length (bufs s)"
    and d: "vdirty (view s) = tblk s ` {..<nat (lh_n s)} \<or> vdirty (view s) = {}"
  obtains s' t' where "bnd (install_trans t) (\<lambda>_ s. write_head (s\<lparr>lh_n := 0\<rparr>)) = Ret () t'" "qt c {} s' t'" "QI c p s'"
    "bframe (s\<lparr>lh_n := 0\<rparr>) s'" "view s' = vinstall (hblk s) (lblk s) (tblk s) (nat (lh_n s)) (view s)"
proof -
  obtain s1 t1 where 1: "install_trans t = Ret () t1" "qt c {} s1 t1" "QI c p s1" "bframe s s1"
    "view s1 = copy_all (lblk s) (tblk s) (nat (lh_n s)) (view s)"
    using assms by (rule install_trans_ok)
  have q2: "qt c {} (s1\<lparr>lh_n := 0\<rparr>) (t1\<lparr>lh_n := 0\<rparr>)"
    by (rule qt_payload [OF payload_log(1) 1(2)])
  have "log_ok (nat (lh_n s)) s1"
    using log_ok_frame [OF 1(4)] l 1(5) by simp
  then have l2: "log_ok (nat (lh_n (s1\<lparr>lh_n := 0\<rparr>))) (s1\<lparr>lh_n := 0\<rparr>)"
    by (auto simp: log_ok_def tblk_def)
  have "vdirty (view s1) = {}"
    using d by (auto simp: 1(5) copy_all_dirty)
  then have d2: "card (vdirty (view (s1\<lparr>lh_n := 0\<rparr>))) < length (bufs (s1\<lparr>lh_n := 0\<rparr>))"
    using b bframe_len [OF 1(4)] by auto
  have i2: "QI c p (s1\<lparr>lh_n := 0\<rparr>)" "0 \<le> lh_n (s1\<lparr>lh_n := 0\<rparr>)"
    using 1(3) by simp_all
  obtain s2 t2 where 2: "write_head (t1\<lparr>lh_n := 0\<rparr>) = Ret () t2" "qt c {} s2 t2" "QI c p s2" "bframe (s1\<lparr>lh_n := 0\<rparr>) s2"
    "view s2 = vwrite (hblk (s1\<lparr>lh_n := 0\<rparr>))
       (head_of (nat (lh_n (s1\<lparr>lh_n := 0\<rparr>))) (tblk (s1\<lparr>lh_n := 0\<rparr>)) (vblk (view (s1\<lparr>lh_n := 0\<rparr>)) (hblk (s1\<lparr>lh_n := 0\<rparr>))))
       (view (s1\<lparr>lh_n := 0\<rparr>))"
    using q2 i2(1) l2 i2(2) d2 by (rule write_head_ok)
  have "bframe (s\<lparr>lh_n := 0\<rparr>) (s1\<lparr>lh_n := 0\<rparr>)"
    by (rule bframe_lh_n [OF 1(4)])
  moreover have "hblk (s1\<lparr>lh_n := 0\<rparr>) = hblk s"
    using bframe_log(7) [OF 1(4)] by (simp add: hblk_def)
  ultimately show ?thesis
    using 1(1) 2 by (intro that [of t2 s2]) (auto simp: vinstall_def head_of_def 1(5) Let_def intro: bframe_trans)
qed

lemma commit_ok:
  assumes q: "qt c {} s t" and inv: "QI c p s" and n: "0 < lh_n s" and l: "log_ok (nat (lh_n s)) s"
    and d: "vdirty (view s) = tblk s ` {..<nat (lh_n s)}"
  obtains s' t' where "commit t = Ret () t'" "qt c {} s' t'" "QI c p s'" "bframe (s\<lparr>lh_n := 0\<rparr>) s'"
    "view s' = vcommit (hblk s) (lblk s) (tblk s) (nat (lh_n s)) (view s)"
proof -
  let ?n = "nat (lh_n s)"
  obtain s1 t1 where 1: "write_log t = Ret () t1" "qt c {} s1 t1" "QI c p s1" "bframe s s1"
    "view s1 = copy_all (tblk s) (lblk s) ?n (view s)"
    using q inv l d by (rule write_log_ok)
  have "lblk s ` {..<?n} \<inter> tblk s ` {..<?n} = {}"
    using log_ne(1) [OF l] by fastforce
  then have d1: "vdirty (view s1) = tblk s ` {..<?n}"
    using d by (auto simp: 1(5) copy_all_dirty)
  have l1: "log_ok (nat (lh_n s1)) s1" "0 \<le> lh_n s1"
    using log_ok_frame [OF 1(4)] l 1(5) n by (simp_all add: bframe_log [OF 1(4)])
  have c1: "card (vdirty (view s1)) < length (bufs s1)"
    unfolding d1 using log_okD(3,9) [OF l] by (simp add: bframe_len [OF 1(4)] card_image)
  obtain s2 t2 where 2: "write_head t1 = Ret () t2" "qt c {} s2 t2" "QI c p s2" "bframe s1 s2"
    "view s2 = vwrite (hblk s1) (head_of (nat (lh_n s1)) (tblk s1) (vblk (view s1) (hblk s1))) (view s1)"
    using 1(2,3) l1 c1 by (rule write_head_ok)
  have f: "bframe s s2"
    by (rule bframe_trans [OF 1(4) 2(4)])
  have "hblk s \<notin> tblk s ` {..<?n}"
    using log_ne(2) [OF l] n by fastforce
  then have d2: "vdirty (view s2) = tblk s2 ` {..<nat (lh_n s2)} \<or> vdirty (view s2) = {}"
    by (auto simp: 2(5) d1 bframe_log [OF f] bframe_log [OF 1(4)])
  have l2: "log_ok (nat (lh_n s2)) s2" "1 < length (bufs s2)"
    using log_ok_frame [OF f] l 1(5) 2(5) n log_okD(3) [OF l] by (simp_all add: bframe_log [OF f] bframe_len [OF f])
  obtain s3 t3 where 3: "bnd (install_trans t2) (\<lambda>_ s. write_head (s\<lparr>lh_n := 0\<rparr>)) = Ret () t3" "qt c {} s3 t3" "QI c p s3"
    "bframe (s2\<lparr>lh_n := 0\<rparr>) s3" "view s3 = vinstall (hblk s2) (lblk s2) (tblk s2) (nat (lh_n s2)) (view s2)"
    using 2(2,3) l2 d2 by (rule tail_ok)
  have "bframe (s\<lparr>lh_n := 0\<rparr>) (s2\<lparr>lh_n := 0\<rparr>)"
    by (rule bframe_lh_n [OF f])
  moreover have "commit t = Ret () t3"
    using 1(1) 2(1) 3(1) n by (simp add: commit_def qt_log [OF q] Let_def)
  moreover have "view s3 = vcommit (hblk s) (lblk s) (tblk s) ?n (view s)"
    by (simp add: 3(5) 2(5) 1(5) bframe_log [OF f] bframe_log [OF 1(4)] vcommit_def Let_def)
  ultimately show ?thesis
    using 3(2,3,4) by (intro that [of t3 s3]) (auto intro: bframe_trans)
qed

end
