(* ===== verification/Crash.thy ===== *)
theory Crash
  imports Journal
begin

text \<open>
  Crashes. The disk after a crash is the disk before the commit with a prefix of the commit's
  writes done; the next boot runs \<open>recover_from_log\<close> on it with an empty cache.
\<close>

section \<open>Writes\<close>

definition applyw :: "(nat \<times> u8 list) list \<Rightarrow> u8 list list \<Rightarrow> u8 list list" where
  "applyw ws d = fold (\<lambda>(b, x) d. d[b := x]) ws d"

lemma applyw_simps [simp]:
  "applyw [] d = d" "applyw ((b, x) # ws) d = applyw ws (d[b := x])" "applyw (ws @ ws') d = applyw ws' (applyw ws d)"
  by (simp_all add: applyw_def)

lemma applyw_length [simp]: "length (applyw ws d) = length d"
  by (induction ws arbitrary: d) auto

text \<open>The writes of a loop: block \<open>f k\<close> gets \<open>x k\<close>.\<close>

definition writes :: "(nat \<Rightarrow> nat) \<Rightarrow> (nat \<Rightarrow> u8 list) \<Rightarrow> nat \<Rightarrow> (nat \<times> u8 list) list" where
  "writes f x n = map (\<lambda>k. (f k, x k)) [0..<n]"

lemma writes_simps [simp]: "writes f x 0 = []" "writes f x (Suc n) = writes f x n @ [(f n, x n)]" "length (writes f x n) = n"
  by (simp_all add: writes_def)

lemma take_writes: "m \<le> n \<Longrightarrow> take m (writes f x n) = writes f x m"
  by (simp add: writes_def take_map)

lemma writes_other: "(\<And>k. k < n \<Longrightarrow> f k \<noteq> b) \<Longrightarrow> applyw (writes f x n) d ! b = d ! b"
  by (induction n) auto

lemma writes_at:
  assumes "inj_on f {..<n}" "k < n" "f k < length d"
  shows "applyw (writes f x n) d ! f k = x k"
  using assms
proof (induction n)
  case (Suc n)
  then show ?case
  proof (cases "k = n")
    case False
    then have "f k \<noteq> f n"
      using Suc.prems(1,2) by (auto simp: inj_on_def)
    then show ?thesis
      using Suc False by (auto simp: inj_on_def)
  qed simp
qed simp

lemma copy_all_writes:
  assumes "\<And>j k. j < n \<Longrightarrow> k < n \<Longrightarrow> src j \<noteq> dst k"
  shows "vwrites (copy_all src dst n v) = vwrites v @ writes (\<lambda>k. unat (dst k)) (\<lambda>k. vblk v (src k)) n"
    and "vdisk (copy_all src dst n v) = applyw (writes (\<lambda>k. unat (dst k)) (\<lambda>k. vblk v (src k)) n) (vdisk v)"
    and "(\<And>k. k < n \<Longrightarrow> b \<noteq> dst k) \<Longrightarrow> vblk (copy_all src dst n v) b = vblk v b"
  using assms
proof (induction n arbitrary: b)
  case 0
  { case 1 then show ?case by (simp add: copy_all_def) }
  { case 2 then show ?case by (simp add: copy_all_def) }
  { case 3 then show ?case by (simp add: copy_all_def) }
next
  case (Suc n)
  have s: "vblk (copy_all src dst n v) (src n) = vblk v (src n)" if "\<And>j k. j < Suc n \<Longrightarrow> k < Suc n \<Longrightarrow> src j \<noteq> dst k"
    using Suc.IH(3) [of "src n"] that by simp
  { case 1 then show ?case
      using Suc.IH(1) s by (simp add: copy_all_Suc) }
  { case 2 then show ?case
      using Suc.IH(2) s by (simp add: copy_all_Suc) }
  { case 3 then show ?case
      using Suc.IH(3) [of b] by (simp add: copy_all_Suc) }
qed

lemma copy_all_blk:
  assumes "\<And>j k. j < n \<Longrightarrow> k < n \<Longrightarrow> src j \<noteq> dst k" "inj_on dst {..<n}" "k < n"
  shows "vblk (copy_all src dst n v) (dst k) = vblk v (src k)"
  using assms
proof (induction n)
  case (Suc n)
  show ?case
  proof (cases "k = n")
    case True
    then show ?thesis
      using copy_all_writes(3) [of n src dst "src n" v] Suc.prems(1) by (simp add: copy_all_Suc)
  next
    case False
    then have "dst k \<noteq> dst n"
      using Suc.prems(2,3) by (auto simp: inj_on_def)
    then show ?thesis
      using Suc False by (auto simp: copy_all_Suc inj_on_def)
  qed
qed simp

section \<open>The writes of a commit and of a recovery\<close>

definition commit_writes :: "u32 \<Rightarrow> (nat \<Rightarrow> u32) \<Rightarrow> (nat \<Rightarrow> u32) \<Rightarrow> nat \<Rightarrow> bview \<Rightarrow> (nat \<times> u8 list) list" where
  "commit_writes h lb tb n v =
     (let hd = head_of n tb (vblk v h)
      in writes (\<lambda>k. unat (lb k)) (\<lambda>k. vblk v (tb k)) n @ [(unat h, hd)] @
         writes (\<lambda>k. unat (tb k)) (\<lambda>k. vblk v (tb k)) n @ [(unat h, set32 hd 0 0)])"

definition recover_writes :: "nat \<Rightarrow> u8 list list \<Rightarrow> (nat \<times> u8 list) list" where
  "recover_writes h d =
     writes (\<lambda>k. unat (get32 (d ! h) (4 + 4 * k))) (\<lambda>k. d ! (h + k + 1)) (nat (sint (get32 (d ! h) 0))) @
     [(h, set32 (d ! h) 0 0)]"

definition recovered :: "nat \<Rightarrow> u8 list list \<Rightarrow> u8 list list" where
  "recovered h d = applyw (recover_writes h d) d"

lemma vinstall_writes:
  assumes "\<And>j k. j < n \<Longrightarrow> k < n \<Longrightarrow> lb j \<noteq> tb k" "\<And>k. k < n \<Longrightarrow> h \<noteq> tb k"
  shows "vwrites (vinstall h lb tb n v) = vwrites v @ writes (\<lambda>k. unat (tb k)) (\<lambda>k. vblk v (lb k)) n @ [(unat h, set32 (vblk v h) 0 0)]"
    and "vdisk (vinstall h lb tb n v) = applyw (writes (\<lambda>k. unat (tb k)) (\<lambda>k. vblk v (lb k)) n @ [(unat h, set32 (vblk v h) 0 0)]) (vdisk v)"
  using copy_all_writes [where n = n and src = lb and dst = tb and v = v] assms by (simp_all add: vinstall_def Let_def)

lemma vcommit_writes:
  assumes ne: "\<And>j k. j < n \<Longrightarrow> k < n \<Longrightarrow> lb j \<noteq> tb k" "\<And>k. k < n \<Longrightarrow> h \<noteq> tb k" "\<And>k. k < n \<Longrightarrow> h \<noteq> lb k"
    and i: "inj_on lb {..<n}"
  shows "vwrites (vcommit h lb tb n v) = vwrites v @ commit_writes h lb tb n v"
    and "vdisk (vcommit h lb tb n v) = applyw (commit_writes h lb tb n v) (vdisk v)"
proof -
  define v1 where "v1 = copy_all tb lb n v"
  define v2 where "v2 = vwrite h (head_of n tb (vblk v1 h)) v1"
  have ne': "\<And>j k. j < n \<Longrightarrow> k < n \<Longrightarrow> tb j \<noteq> lb k"
    using ne(1) by metis
  note w = copy_all_writes [of n tb lb, OF ne']
  have h: "vblk v1 h = vblk v h"
    unfolding v1_def using w(3) [of h] ne(3) by simp
  have "vblk v2 (lb k) = vblk v (tb k)" if "k < n" for k
    using copy_all_blk [of n tb lb k v, OF ne' i that] ne(3) [OF that] by (simp add: v2_def v1_def)
  then have e: "writes (\<lambda>k. unat (tb k)) (\<lambda>k. vblk v2 (lb k)) n = writes (\<lambda>k. unat (tb k)) (\<lambda>k. vblk v (tb k)) n"
    by (simp add: writes_def)
  have c: "vcommit h lb tb n v = vinstall h lb tb n v2"
    by (simp add: vcommit_def v2_def v1_def Let_def)
  have v2: "vwrites v2 = vwrites v @ writes (\<lambda>k. unat (lb k)) (\<lambda>k. vblk v (tb k)) n @ [(unat h, head_of n tb (vblk v h))]"
    "vdisk v2 = applyw (writes (\<lambda>k. unat (lb k)) (\<lambda>k. vblk v (tb k)) n @ [(unat h, head_of n tb (vblk v h))]) (vdisk v)"
    "vblk v2 h = head_of n tb (vblk v h)"
    using w(1,2) by (simp_all add: v2_def h) (simp_all add: v1_def)
  have i2: "vwrites (vinstall h lb tb n v2) = vwrites v2 @ writes (\<lambda>k. unat (tb k)) (\<lambda>k. vblk v2 (lb k)) n @ [(unat h, set32 (vblk v2 h) 0 0)]"
    "vdisk (vinstall h lb tb n v2) = applyw (writes (\<lambda>k. unat (tb k)) (\<lambda>k. vblk v2 (lb k)) n @ [(unat h, set32 (vblk v2 h) 0 0)]) (vdisk v2)"
    by (rule vinstall_writes; use ne in blast)+
  show "vwrites (vcommit h lb tb n v) = vwrites v @ commit_writes h lb tb n v"
    unfolding c i2(1) e v2 by (simp add: commit_writes_def Let_def)
  show "vdisk (vcommit h lb tb n v) = applyw (commit_writes h lb tb n v) (vdisk v)"
    unfolding c i2(2) e v2 by (simp add: commit_writes_def Let_def)
qed

text \<open>The log: header at \<open>h\<close>, and the blocks after it.\<close>

definition log_layout :: "nat \<Rightarrow> nat \<Rightarrow> (nat \<Rightarrow> nat) \<Rightarrow> u8 list list \<Rightarrow> bool" where
  "log_layout h n tb d \<longleftrightarrow>
     h + n < length d \<and> inj_on tb {..<n} \<and> (\<forall>k < n. tb k < length d \<and> (tb k < h \<or> h + n < tb k))"

text \<open>Recovery with an empty header changes nothing but the header.\<close>

lemma recovered_empty:
  assumes "get32 (d ! h) 0 = 0" "b \<noteq> h"
  shows "recovered h d ! b = d ! b"
  using assms by (simp add: recovered_def recover_writes_def)

text \<open>Recovery with the header of a transaction installs the logged blocks.\<close>

lemma recovered_full:
  assumes l: "log_layout h n tb d" and n: "n < 2 ^ 31" "get32 (d ! h) 0 = of_nat n"
    and t: "\<And>k. k < n \<Longrightarrow> unat (get32 (d ! h) (4 + 4 * k)) = tb k" and b: "b \<noteq> h"
  shows "k < n \<Longrightarrow> b = tb k \<Longrightarrow> recovered h d ! b = d ! (h + k + 1)"
    and "(\<And>k. k < n \<Longrightarrow> b \<noteq> tb k) \<Longrightarrow> recovered h d ! b = d ! b"
proof -
  have "sint (of_nat n :: u32) = int n"
    using n(1) by (simp add: signed_of_nat signed_take_bit_int_eq_self)
  then have w: "recover_writes h d = writes tb (\<lambda>k. d ! (h + k + 1)) n @ [(h, set32 (d ! h) 0 0)]"
    using t by (simp add: recover_writes_def n(2) writes_def)
  show "recovered h d ! b = d ! (h + k + 1)" if "k < n" "b = tb k"
    using writes_at [of tb n k d] l that b by (simp add: recovered_def w log_layout_def)
  show "recovered h d ! b = d ! b" if "\<And>k. k < n \<Longrightarrow> b \<noteq> tb k"
    using writes_other [of n tb b] that [symmetric] b by (simp add: recovered_def w)
qed

section \<open>Atomicity\<close>

text \<open>Apart from the log, the disk \<open>d'\<close> is \<open>d\<close>, or \<open>d\<close> with the blocks of the transaction written.\<close>

definition same_files :: "nat \<Rightarrow> nat \<Rightarrow> u8 list list \<Rightarrow> u8 list list \<Rightarrow> bool" where
  "same_files h n d d' \<longleftrightarrow> length d' = length d \<and> (\<forall>b < length d. b < h \<or> h + n < b \<longrightarrow> d' ! b = d ! b)"

lemma prefix_cases:
  assumes "m \<le> length (W1 @ [a] @ W2 @ [b])"
  obtains i where "m \<le> length W1" "i \<le> length W1" "take m (W1 @ [a] @ W2 @ [b]) = take i W1"
    | i where "length W1 < m" "i \<le> length W2" "take m (W1 @ [a] @ W2 @ [b]) = W1 @ [a] @ take i W2"
    | "length W1 < m" "take m (W1 @ [a] @ W2 @ [b]) = W1 @ [a] @ W2 @ [b]"
proof -
  consider "m \<le> length W1" | "length W1 < m" "m \<le> length W1 + 1 + length W2" | "m = length W1 + length W2 + 2"
    using assms by fastforce
  then show ?thesis
  proof cases
    case 1
    then show ?thesis
      by (intro that(1) [of m]) simp_all
  next
    case 2
    then have "m - length W1 = Suc (m - length W1 - 1)"
      by simp
    then have "take m (W1 @ [a] @ W2 @ [b]) = W1 @ [a] @ take (m - length W1 - 1) W2"
      using 2 by (simp add: take_Cons')
    then show ?thesis
      using 2 by (intro that(2) [of "m - length W1 - 1"]) simp_all
  next
    case 3
    then show ?thesis
      by (intro that(3)) simp_all
  qed
qed

text \<open>The disk while the blocks are installed: the log is complete.\<close>

definition logged :: "nat \<Rightarrow> nat \<Rightarrow> (nat \<Rightarrow> nat) \<Rightarrow> (nat \<Rightarrow> u8 list) \<Rightarrow> u8 list \<Rightarrow> nat \<Rightarrow> u8 list list \<Rightarrow> u8 list list" where
  "logged h n tb x hx i d = applyw (writes (\<lambda>k. h + k + 1) x n @ [(h, hx)] @ writes tb x i) d"

lemma logged_nth:
  assumes l: "log_layout h n tb d" and i: "i \<le> n"
  shows "logged h n tb x hx i d ! h = hx" and "k < n \<Longrightarrow> logged h n tb x hx i d ! (h + k + 1) = x k"
    and "b < h \<or> h + n < b \<Longrightarrow> (\<And>k. k < n \<Longrightarrow> b \<noteq> tb k) \<Longrightarrow> logged h n tb x hx i d ! b = d ! b"
    and "k < n \<Longrightarrow> logged h n tb x hx n d ! tb k = x k"
proof -
  have tb: "k < n \<Longrightarrow> tb k \<noteq> h + j" if "j \<le> n" for k j
    using l that by (auto simp: log_layout_def)
  have o: "applyw (writes tb x i) e ! (h + j) = e ! (h + j)" if "j \<le> n" for j e
    using tb [OF that] i by (intro writes_other) simp
  have L: "h + n < length d"
    using l by (simp add: log_layout_def)
  show "logged h n tb x hx i d ! h = hx"
    using o [of 0] L by (simp add: logged_def)
  show "logged h n tb x hx i d ! (h + k + 1) = x k" if "k < n"
    using o [of "k + 1"] writes_at [of "\<lambda>k. h + k + 1" n k d x] that L by (simp add: logged_def inj_on_def)
  show "logged h n tb x hx i d ! b = d ! b" if "b < h \<or> h + n < b" "\<And>k. k < n \<Longrightarrow> b \<noteq> tb k"
  proof -
    have "applyw (writes tb x i) e ! b = e ! b" for e
      using that(2) i by (intro writes_other) (metis order.strict_trans2)
    moreover have "applyw (writes (\<lambda>k. h + k + 1) x n) e ! b = e ! b" for e
      using that(1) by (intro writes_other) auto
    ultimately show ?thesis
      using that(1) by (auto simp: logged_def)
  qed
  show "logged h n tb x hx n d ! tb k = x k" if "k < n"
    using writes_at [of tb n k "(applyw (writes (\<lambda>k. h + k + 1) x n) d)[h := hx]" x] l that
    by (simp add: logged_def log_layout_def)
qed

lemma logged_length [simp]: "length (logged h n tb x hx i d) = length d"
  by (simp add: logged_def)

text \<open>
  A complete log with header \<open>hx\<close> is on the disk \<open>e\<close>, which otherwise agrees with \<open>d\<close> except for
  blocks of the transaction; and a disk where the transaction is installed.
\<close>

definition pending :: "nat \<Rightarrow> nat \<Rightarrow> (nat \<Rightarrow> nat) \<Rightarrow> (nat \<Rightarrow> u8 list) \<Rightarrow> u8 list \<Rightarrow> u8 list list \<Rightarrow> u8 list list \<Rightarrow> bool" where
  "pending h n tb x hx d e \<longleftrightarrow>
     length e = length d \<and> e ! h = hx \<and> (\<forall>k < n. e ! (h + k + 1) = x k) \<and>
     (\<forall>b. (b < h \<or> h + n < b) \<and> (\<forall>k < n. b \<noteq> tb k) \<longrightarrow> e ! b = d ! b)"

definition installed :: "nat \<Rightarrow> nat \<Rightarrow> (nat \<Rightarrow> nat) \<Rightarrow> (nat \<Rightarrow> u8 list) \<Rightarrow> u8 list list \<Rightarrow> u8 list list \<Rightarrow> bool" where
  "installed h n tb x d e \<longleftrightarrow>
     length e = length d \<and> (\<forall>k < n. e ! tb k = x k) \<and>
     (\<forall>b. (b < h \<or> h + n < b) \<and> (\<forall>k < n. b \<noteq> tb k) \<longrightarrow> e ! b = d ! b)"

lemma installed_same:
  assumes "installed h n tb x d e" "installed h n tb x d e'"
  shows "same_files h n e e'"
  unfolding same_files_def
proof (intro conjI allI impI)
  show "length e' = length e"
    using assms by (simp add: installed_def)
  fix b
  assume "b < length e" "b < h \<or> h + n < b"
  then show "e' ! b = e ! b"
    using assms unfolding installed_def by (cases "\<exists>k < n. b = tb k") auto
qed

lemma logged_pending:
  assumes "log_layout h n tb d" "i \<le> n"
  shows "pending h n tb x hx d (logged h n tb x hx i d)"
  unfolding pending_def
  using logged_nth(1-3) [OF assms] by (auto simp: logged_length)

lemma logged_installed:
  assumes "log_layout h n tb d"
  shows "installed h n tb x d (logged h n tb x hx n d)"
  unfolding installed_def
  using logged_nth(3,4) [OF assms order.refl] by (auto simp: logged_length)

lemma recovered_pending:
  assumes l: "log_layout h n tb d" and n: "n < 2 ^ 31" "get32 hx 0 = of_nat n"
    and t: "\<And>k. k < n \<Longrightarrow> unat (get32 hx (4 + 4 * k)) = tb k" and p: "pending h n tb x hx d e"
  shows "installed h n tb x d (recovered h e)"
proof -
  have l': "log_layout h n tb e" and hx: "e ! h = hx"
    using l p by (simp_all add: log_layout_def pending_def)
  note r = recovered_full [of h n tb e, unfolded hx, OF l' n t]
  show ?thesis
    unfolding installed_def
  proof (intro conjI allI impI)
    show "length (recovered h e) = length d"
      using p by (simp add: recovered_def pending_def)
    show "recovered h e ! tb k = x k" if "k < n" for k
      using r(1) [of "tb k" k] that l p by (auto simp: log_layout_def pending_def)
    show "recovered h e ! b = d ! b" if "(b < h \<or> h + n < b) \<and> (\<forall>k < n. b \<noteq> tb k)" for b
      using r(2) [of b] that p by (auto simp: pending_def)
  qed
qed

text \<open>Installing more blocks keeps the log pending.\<close>

lemma pending_writes:
  assumes l: "log_layout h n tb d" and p: "pending h n tb x hx d e" and i: "i \<le> n"
  shows "pending h n tb x hx d (applyw (writes tb x i) e)"
proof -
  have tb: "k < n \<Longrightarrow> tb k \<noteq> h + j" if "j \<le> n" for k j
    using l that by (auto simp: log_layout_def)
  have o: "applyw (writes tb x i) e ! (h + j) = e ! (h + j)" if "j \<le> n" for j
    using tb [OF that] i by (intro writes_other) simp
  have "applyw (writes tb x i) e ! b = e ! b" if "\<forall>k < n. b \<noteq> tb k" for b
    using that i by (intro writes_other) (metis order.strict_trans2)
  then show ?thesis
    using p o [of 0] o [of "k + 1" for k] by (auto simp: pending_def)
qed

lemma installed_header:
  assumes "installed h n tb x d e" "\<forall>k < n. tb k \<noteq> h" "get32 (e ! h) 0 = 0"
  shows "installed h n tb x d (recovered h e)"
  using assms recovered_empty [of e h] by (auto simp: installed_def recovered_def)

text \<open>Every crash during a commit: the recovered disk has none or all of the transaction.\<close>

lemma crash_commit:
  assumes l: "log_layout h n (\<lambda>k. unat (tb k)) d" and h: "unat hb = h"
    and lb: "\<And>k. k < n \<Longrightarrow> unat (lb k) = h + k + 1" and n: "n \<le> LOGSIZE"
    and hx: "vblk v hb = d ! h" "get32 (d ! h) 0 = 0" "length (d ! h) = BSIZE"
    and m: "m \<le> length (commit_writes hb lb tb n v)"
  shows "same_files h n d (recovered h (applyw (take m (commit_writes hb lb tb n v)) d)) \<and> m \<le> n \<or>
    same_files h n (applyw (commit_writes hb lb tb n v) d) (recovered h (applyw (take m (commit_writes hb lb tb n v)) d)) \<and> n < m"
proof -
  define x where "x = (\<lambda>k. vblk v (tb k))"
  define hx' where "hx' = head_of n tb (d ! h)"
  let ?tb = "\<lambda>k. unat (tb k)" and ?W1 = "writes (\<lambda>k. h + k + 1) x n" and ?W2 = "writes (\<lambda>k. unat (tb k)) x n"
  have "writes (\<lambda>k. unat (lb k)) (\<lambda>k. vblk v (tb k)) n = ?W1"
    using lb by (simp add: writes_def x_def)
  then have W: "commit_writes hb lb tb n v = ?W1 @ [(h, hx')] @ ?W2 @ [(h, set32 hx' 0 0)]"
    by (simp add: commit_writes_def Let_def h hx(1) hx'_def x_def)
  have n': "n < 2 ^ 31" "4 * n + 4 \<le> length (d ! h)"
    using n hx(3) by (simp_all add: LOGSIZE_def MAXOPBLOCKS_def BSIZE_def)
  have g: "get32 hx' 0 = of_nat n" "k < n \<Longrightarrow> unat (get32 hx' (4 + 4 * k)) = ?tb k" for k
    using head_of_get [OF n'(2)] by (simp_all add: hx'_def)
  have th: "\<forall>k < n. ?tb k \<noteq> h"
    using l by (auto simp: log_layout_def)
  let ?N = "logged h n ?tb x hx' n d"
  have N: "applyw (commit_writes hb lb tb n v) d = ?N[h := set32 hx' 0 0]"
    by (simp add: W logged_def)
  have iN: "installed h n ?tb x d (?N[h := set32 hx' 0 0])"
    using logged_installed [OF l, of x hx'] th by (auto simp: installed_def)
  have "m \<le> length (?W1 @ [(h, hx')] @ ?W2 @ [(h, set32 hx' 0 0)])"
    using m by (simp only: W)
  then show ?thesis
  proof (cases rule: prefix_cases)
    case (1 i)
    have m': "m \<le> n"
      using 1(1) by simp
    have o: "applyw (writes (\<lambda>k. h + k + 1) x i) d ! b = d ! b" if "b \<le> h \<or> h + n < b" for b
      using that 1(2) by (intro writes_other) auto
    have "same_files h n d (recovered h (applyw (writes (\<lambda>k. h + k + 1) x i) d))"
      unfolding same_files_def
      using o recovered_empty [of "applyw (writes (\<lambda>k. h + k + 1) x i) d" h] hx(2)
      by (auto simp: recovered_def)
    then show ?thesis
      using 1 m' by (simp add: take_writes W)
  next
    case (2 i)
    have m': "n < m"
      using 2(1) by simp
    have "take m (?W1 @ [(h, hx')] @ ?W2 @ [(h, set32 hx' 0 0)]) = ?W1 @ [(h, hx')] @ writes ?tb x i"
      using 2 by (simp add: take_writes)
    then have "applyw (take m (?W1 @ [(h, hx')] @ ?W2 @ [(h, set32 hx' 0 0)])) d = logged h n ?tb x hx' i d"
      by (simp add: logged_def)
    moreover have "installed h n ?tb x d (recovered h (logged h n ?tb x hx' i d))"
      using recovered_pending [OF l n'(1) g(1) g(2) logged_pending [OF l]] 2(2) by simp
    ultimately show ?thesis
      using installed_same [OF iN] m' N W by simp
  next
    case 3
    have m': "n < m"
      using 3(1) by simp
    have "?N[h := set32 hx' 0 0] ! h = set32 hx' 0 0"
      using l by (simp add: log_layout_def)
    then have "installed h n ?tb x d (recovered h (?N[h := set32 hx' 0 0]))"
      using installed_header [OF iN th] hx(3) by (simp add: get32_set32 hx'_def BSIZE_def)
    then show ?thesis
      using installed_same [OF iN] m' 3(2) N W by simp
  qed
qed

lemma commit_writes_at:
  assumes l: "log_layout h n (\<lambda>k. unat (tb k)) d" and h: "unat hb = h" and k: "k < n"
  shows "applyw (commit_writes hb lb tb n v) d ! unat (tb k) = vblk v (tb k)"
proof -
  have "unat (tb k) \<noteq> h" "unat (tb k) < length d" "inj_on (\<lambda>k. unat (tb k)) {..<n}"
    using l k by (auto simp: log_layout_def)
  then show ?thesis
    using writes_at [of "\<lambda>k. unat (tb k)" n k "(applyw (writes (\<lambda>k. unat (lb k)) (\<lambda>k. vblk v (tb k)) n) d)
        [h := head_of n tb (vblk v hb)]" "\<lambda>k. vblk v (tb k)"] k
    by (simp add: commit_writes_def Let_def h)
qed

text \<open>Every crash during a recovery.\<close>

lemma crash_recover:
  assumes l: "log_layout h n tb d" and n: "n \<le> LOGSIZE" "get32 (d ! h) 0 = of_nat n" "length (d ! h) = BSIZE"
    and t: "\<And>k. k < n \<Longrightarrow> unat (get32 (d ! h) (4 + 4 * k)) = tb k"
  shows "same_files h n (recovered h d) (recovered h (applyw (take m (recover_writes h d)) d))"
proof -
  define x where "x = (\<lambda>k. d ! (h + k + 1))"
  have n': "n < 2 ^ 31"
    using n by (simp_all add: LOGSIZE_def MAXOPBLOCKS_def)
  then have "sint (of_nat n :: u32) = int n"
    by (simp add: signed_of_nat signed_take_bit_int_eq_self)
  then have w: "recover_writes h d = writes tb x n @ [(h, set32 (d ! h) 0 0)]"
    using t by (simp add: recover_writes_def n(2) writes_def x_def)
  have th: "\<forall>k < n. tb k \<noteq> h"
    using l by (auto simp: log_layout_def)
  have p: "pending h n tb x (d ! h) d d"
    by (simp add: pending_def x_def)
  have R: "installed h n tb x d (recovered h d)"
    by (rule recovered_pending [OF l n' n(2) t p])
  show ?thesis
  proof (cases "m \<le> n")
    case True
    then have "take m (recover_writes h d) = writes tb x m"
      by (simp add: w take_writes)
    then show ?thesis
      using installed_same [OF R recovered_pending [OF l n' n(2) t pending_writes [OF l p True]]] by simp
  next
    case False
    then have "take m (recover_writes h d) = recover_writes h d"
      by (simp add: w)
    moreover have "recovered h d ! h = set32 (d ! h) 0 0"
      using l by (simp add: recovered_def w log_layout_def)
    then have "installed h n tb x d (recovered h (recovered h d))"
      using installed_header [OF R th] n(3) by (simp add: get32_set32 BSIZE_def)
    ultimately show ?thesis
      using installed_same [OF R] by (simp add: recovered_def)
  qed
qed

section \<open>The code\<close>

lemma log_start_word:
  assumes "0 \<le> log_start s" "nat (log_start s) + m < 2 ^ 31"
  shows "unat (of_int (log_start s + int m) :: u32) = nat (log_start s) + m"
proof -
  have e: "log_start s + int m = int (nat (log_start s) + m)"
    using assms(1) by simp
  show ?thesis
    unfolding e of_int_of_nat_eq unat_of_nat using assms(2) by simp
qed

lemma recover_ok:
  assumes q: "qt c {} s t" and inv: "QI c p s" and d: "vdirty (view s) = {}" "1 < length (bufs s)"
    and h: "log_dev s = 1" "0 \<le> log_start s" "length (lh_block s) = LOGSIZE"
    and n: "get32 (memdisk s ! nat (log_start s)) 0 = of_nat n" "n \<le> LOGSIZE" "n < length (bufs s)"
    and l: "log_layout (nat (log_start s)) n (\<lambda>k. unat (get32 (memdisk s ! nat (log_start s)) (4 + 4 * k))) (memdisk s)"
      "length (memdisk s) < 2 ^ 31"
  obtains s' t' where "recover_from_log t = Ret () t'" "qt c {} s' t'" "QI c p s'"
    "memdisk s' = recovered (nat (log_start s)) (memdisk s)"
    "dwrites s' = dwrites s @ recover_writes (nat (log_start s)) (memdisk s)" "lh_n s' = 0" "vdirty (view s') = {}"
proof -
  let ?h = "nat (log_start s)" and ?D = "memdisk s ! nat (log_start s)"
  have n': "n < 2 ^ 31" and hn: "?h + n < length (memdisk s)"
    using n l by (simp_all add: LOGSIZE_def MAXOPBLOCKS_def log_layout_def)
  then have sn: "sint (get32 ?D 0) = int n"
    by (simp add: n(1) signed_of_nat signed_take_bit_int_eq_self)
  have hb: "unat (hblk s) = ?h"
    using log_start_word [of s 0] h(2) hn l(2) by (simp add: hblk_def)
  have clean: "vblk (view s) b = memdisk s ! unat b" for b
    using QI_clean [OF inv, of b] d(1) by (simp add: view_disk)
  have r: "unat (hblk s) < length (vdisk (view s))" "card (vdirty (view s)) < length (bufs s)" "hblk s \<notin> vdirty (view s)"
    "sint (get32 (vblk (view s) (hblk s)) 0) \<le> int LOGSIZE"
    using hn n(2) sn d by (auto simp: hb clean view_disk)
  obtain s1 t1 where 1: "read_head t = Ret () t1" "qt c {} s1 t1" "QI c p s1"
    "bframe (head_read (vblk (view s) (hblk s)) s) s1" "view s1 = view s"
    using q inv h(1) r by (rule read_head_ok)
  have e: "head_read (vblk (view s) (hblk s)) s = head_read ?D s"
    by (simp add: clean hb)
  have le: "sint (get32 ?D 0) \<le> int LOGSIZE"
    using sn n(2) by simp
  note hr = head_read_ok [OF le h(3)]
  note f = bframe_log [OF 1(4) [unfolded e]]
  have s1: "lh_n s1 = int n" "log_start s1 = log_start s" "log_dev s1 = 1" "hblk s1 = hblk s" "lblk s1 = lblk s"
    using f hr sn h(1) by (simp_all add: hblk_def lblk_def fun_eq_iff)
  have tb: "tblk s1 k = get32 ?D (4 + 4 * k)" if "k < n" for k
    using f(5) hr(3) [of k] sn that by simp
  have ms: "memdisk s1 = memdisk s" "length (bufs s1) = length (bufs s)"
    using arg_cong [OF 1(5), of vdisk] bframe_len [OF 1(4)] by (simp_all add: view_disk head_read_def)
  have l1: "log_ok n s1"
    unfolding log_ok_def s1 ms
    using l n h(2) hn tb by (auto simp: log_layout_def inj_on_def word_unat_eq_iff)
  have t1: "log_ok (nat (lh_n s1)) s1" "1 < length (bufs s1)" "vdirty (view s1) = tblk s1 ` {..<nat (lh_n s1)} \<or> vdirty (view s1) = {}"
    using l1 d s1 ms 1(5) by simp_all
  obtain s2 t2 where 2: "bnd (install_trans t1) (\<lambda>_ s. write_head (s\<lparr>lh_n := 0\<rparr>)) = Ret () t2" "qt c {} s2 t2" "QI c p s2"
    "bframe (s1\<lparr>lh_n := 0\<rparr>) s2" "view s2 = vinstall (hblk s1) (lblk s1) (tblk s1) (nat (lh_n s1)) (view s1)"
    using 1(2,3) t1 by (rule tail_ok)
  have W: "writes (\<lambda>k. unat (tblk s1 k)) (\<lambda>k. vblk (view s) (lblk s k)) n @ [(unat (hblk s), set32 (vblk (view s) (hblk s)) 0 0)]
      = recover_writes ?h (memdisk s)"
    using tb log_okD(5) [OF l1] sn by (simp add: recover_writes_def writes_def clean hb s1)
  have ne: "\<And>j k. j < n \<Longrightarrow> k < n \<Longrightarrow> lblk s j \<noteq> tblk s1 k" "\<And>k. k < n \<Longrightarrow> hblk s \<noteq> tblk s1 k"
    using log_ne(1,2) [OF l1] s1 by auto
  have v: "view s2 = vinstall (hblk s) (lblk s) (tblk s1) n (view s)"
    by (simp add: 2(5) s1 1(5))
  have vw: "vwrites (view s2) = dwrites s @ recover_writes ?h (memdisk s)" "vdisk (view s2) = recovered ?h (memdisk s)"
    using vinstall_writes [where n = n and lb = "lblk s" and tb = "tblk s1" and h = "hblk s" and v = "view s"] ne
    by (simp_all add: v recovered_def W view_disk)
  show ?thesis
  proof (rule that [OF _ 2(2,3)])
    show "recover_from_log t = Ret () t2"
      using 1(1) 2(1) by (simp add: recover_from_log_def Let_def)
    show "memdisk s2 = recovered ?h (memdisk s)" "dwrites s2 = dwrites s @ recover_writes ?h (memdisk s)"
      using vw by (simp_all add: view_disk)
    show "lh_n s2 = 0"
      using bframe_log(3) [OF 2(4)] by simp
    show "vdirty (view s2) = {}"
      using d(1) by (simp add: v vinstall_def Let_def copy_all_dirty)
  qed
qed

lemma log_ok_layout:
  assumes "log_ok n s"
  shows "log_layout (nat (log_start s)) n (\<lambda>k. unat (tblk s k)) (memdisk s)"
  using assms by (auto simp: log_ok_def log_layout_def inj_on_def word_unat_eq_iff)

text \<open>The log is blocks 2 and 3, and block 1 is in the transaction.\<close>

definition journal0 :: "buf \<Rightarrow> u8 list \<Rightarrow> log" where
  "journal0 b h =
     cache0 b [replicate BSIZE 0, replicate BSIZE 0, h, replicate BSIZE 9]
       \<lparr>log_start = 2, log_size = 2, outstanding = 0, committing = True, log_dev = 1,
        lh_n = 1, lh_block = (replicate LOGSIZE 0)[0 := 1]\<rparr>"

lemma journal0_sel [simp]:
  "bufs (journal0 b h) = [b, unused1]" "memdisk (journal0 b h) = [replicate BSIZE 0, replicate BSIZE 0, h, replicate BSIZE 9]"
  "log_start (journal0 b h) = 2" "log_dev (journal0 b h) = 1" "lh_n (journal0 b h) = 1"
  "lh_block (journal0 b h) = (replicate LOGSIZE 0)[0 := 1]"
  by (simp_all add: journal0_def) (simp_all add: cache0_def con0_def)

lemma journal0_QI:
  assumes "bprev b = Head" "bnext b = Buf 1" "refcnt b = 0" "bdev b = 1 \<or> bdev b = 0"
    and "buf_ok 1 [replicate BSIZE 0, replicate BSIZE 0, h, replicate BSIZE 9] b"
  shows "QI 0 0 (journal0 b h)"
  unfolding QI_def
proof
  show "BI 0 0 (journal0 b h)"
    unfolding journal0_def using assms by (intro cache0_BI) simp_all
  show "vheld (view (journal0 b h)) = {}"
    using assms(3) by (auto simp: view_def less_Suc_eq nth_Cons')
qed

section \<open>Theorems\<close>

text \<open>
  C1. \<open>commit\<close> is atomic under crashes. It is called with \<open>n\<close> blocks in the transaction, all of
  them dirty in the cache, and an empty header on the disk. It returns, every block of the
  transaction is then on the disk, and whatever prefix of its writes reached the disk, recovery from
  there gives, outside the log, the disk before the commit or the disk after it. The switch happens
  at the write of the header, the write number \<open>n + 1\<close>.
\<close>
theorem commit_crash_atomic:
  assumes inv: "QI c p s" and n: "0 < lh_n s" "n = nat (lh_n s)" and l: "log_ok n s"
    and d: "vdirty (view s) = tblk s ` {..<n}"
    and h: "h = nat (log_start s)" "get32 (memdisk s ! h) 0 = 0" "length (memdisk s ! h) = BSIZE"
  shows "\<exists>t' ws. commit s = Ret () t' \<and> dwrites t' = dwrites s @ ws \<and> memdisk t' = applyw ws (memdisk s) \<and>
    (\<forall>k < n. memdisk t' ! unat (tblk s k) = blk s (tblk s k)) \<and>
    (\<forall>m \<le> length ws.
       if m \<le> n then same_files h n (memdisk s) (recovered h (applyw (take m ws) (memdisk s)))
       else same_files h n (memdisk t') (recovered h (applyw (take m ws) (memdisk s))))"
proof -
  have q: "qt c {} s s"
    using inv by (intro qt_start) (simp add: QI_def BI_def kidle_def)
  have l': "log_ok (nat (lh_n s)) s" and d': "vdirty (view s) = tblk s ` {..<nat (lh_n s)}"
    using l d n(2) by simp_all
  obtain s' t' where 1: "commit s = Ret () t'" "qt c {} s' t'" "QI c p s'" "bframe (s\<lparr>lh_n := 0\<rparr>) s'"
    "view s' = vcommit (hblk s) (lblk s) (tblk s) (nat (lh_n s)) (view s)"
    using q inv n(1) l' d' by (rule commit_ok)
  note lo = log_okD [OF l]
  have hb: "unat (hblk s) = h"
    using lo(4) h(1) by simp
  have lb: "\<And>k. k < n \<Longrightarrow> unat (lblk s k) = h + k + 1"
    using lo(5) h(1) by simp
  then have ij: "inj_on (lblk s) {..<n}"
    by (metis add_right_cancel inj_onI lessThan_iff add_left_cancel)
  let ?W = "commit_writes (hblk s) (lblk s) (tblk s) n (view s)"
  have nz: "0 < n"
    using n by simp
  have ne: "\<And>j k. j < n \<Longrightarrow> k < n \<Longrightarrow> lblk s j \<noteq> tblk s k" "\<And>k. k < n \<Longrightarrow> hblk s \<noteq> tblk s k" "\<And>k. k < n \<Longrightarrow> hblk s \<noteq> lblk s k"
    using log_ne(1) [OF l] log_ne(2) [OF l _ nz] log_ne(3) [OF l nz] by fastforce+
  have w: "vwrites (view s') = vwrites (view s) @ ?W" "vdisk (view s') = applyw ?W (vdisk (view s))"
    unfolding 1(5) n(2) [symmetric] by (rule vcommit_writes; use ne ij in blast)+
  have hc: "vblk (view s) (hblk s) = memdisk s ! h"
    using QI_clean [OF inv, of "hblk s"] log_ne(2) [OF l _ nz] by (auto simp: d view_disk hb)
  note cr = crash_commit [OF log_ok_layout [OF l, folded h(1)] hb lb lo(2) hc h(2,3)]
  have N: "memdisk t' = applyw ?W (memdisk s)"
    using w(2) qt_bufs(3) [OF 1(2)] by (simp add: view_disk)
  have fin: "memdisk t' ! unat (tblk s k) = blk s (tblk s k)" if "k < n" for k
    using commit_writes_at [OF log_ok_layout [OF l, folded h(1)] hb that] by (simp add: N view_def)
  have "dwrites t' = dwrites s @ ?W"
    using w(1) qt_bufs(5) [OF 1(2)] by (simp add: view_disk)
  moreover have "if m \<le> n then same_files h n (memdisk s) (recovered h (applyw (take m ?W) (memdisk s)))
       else same_files h n (memdisk t') (recovered h (applyw (take m ?W) (memdisk s)))" if "m \<le> length ?W" for m
    using cr [OF _ that] unfolding N by auto
  ultimately show ?thesis
    using 1(1) N fin by blast
qed

theorem commit_crash_atomic_witness:
  "\<exists>t' ws. commit (journal0 dirty1 (replicate BSIZE 0)) = Ret () t' \<and> memdisk t' ! 1 = replicate BSIZE 7 \<and>
     (\<forall>m \<le> length ws. 1 < m \<longrightarrow> same_files 2 1 (memdisk t')
        (recovered 2 (applyw (take m ws) (memdisk (journal0 dirty1 (replicate BSIZE 0))))))"
proof -
  let ?s = "journal0 dirty1 (replicate BSIZE 0)"
  have q: "QI 0 0 ?s"
    by (rule journal0_QI) (simp_all add: buf_ok_def)
  have t: "tblk ?s 0 = 1"
    by (simp add: tblk_def LOGSIZE_def MAXOPBLOCKS_def)
  have l: "log_ok 1 ?s"
    using t by (simp add: log_ok_def LOGSIZE_def MAXOPBLOCKS_def inj_on_def)
  have d: "vdirty (view ?s) = tblk ?s ` {..<1}"
    using t by (auto simp: view_def less_Suc_eq nth_Cons')
  have b: "blk ?s 1 = replicate BSIZE 7"
    by (simp add: blk_def)
  have n: "1 = nat (lh_n ?s)" "0 < lh_n ?s" "2 = nat (log_start ?s)"
    by simp_all
  have z: "get32 (memdisk ?s ! 2) 0 = 0" "length (memdisk ?s ! 2) = BSIZE"
    by (simp_all add: get32_def word_of_bytes_def BSIZE_def)
  from commit_crash_atomic [OF q n(2,1) l d n(3) z] obtain t' ws where
    "commit ?s = Ret () t'" "\<forall>k < 1. memdisk t' ! unat (tblk ?s k) = blk ?s (tblk ?s k)"
    "\<forall>m \<le> length ws. if m \<le> 1 then same_files 2 1 (memdisk ?s) (recovered 2 (applyw (take m ws) (memdisk ?s)))
       else same_files 2 1 (memdisk t') (recovered 2 (applyw (take m ws) (memdisk ?s)))"
    by blast
  then show ?thesis
    using t b by (intro exI [of _ t'] exI [of _ ws]) auto
qed

text \<open>
  C19. \<open>recover_from_log\<close> at boot, with an empty cache and a header on the disk that lists \<open>n\<close> blocks
  outside the log: it returns, the disk is then the recovered disk, with an empty header, and if the
  machine stops after any number of its writes, recovering again gives the same disk outside the log.
\<close>
theorem recover_from_log_recovers:
  assumes inv: "QI c p s" and d: "vdirty (view s) = {}" "1 < length (bufs s)" "n < length (bufs s)"
    and h: "log_dev s = 1" "0 \<le> log_start s" "h = nat (log_start s)" "length (lh_block s) = LOGSIZE"
    and n: "get32 (memdisk s ! h) 0 = of_nat n" "n \<le> LOGSIZE" "length (memdisk s ! h) = BSIZE"
    and l: "log_layout h n (\<lambda>k. unat (get32 (memdisk s ! h) (4 + 4 * k))) (memdisk s)" "length (memdisk s) < 2 ^ 31"
  shows "\<exists>t' ws. recover_from_log s = Ret () t' \<and> memdisk t' = recovered h (memdisk s) \<and>
    get32 (memdisk t' ! h) 0 = 0 \<and> lh_n t' = 0 \<and>
    (\<forall>k < n. memdisk t' ! unat (get32 (memdisk s ! h) (4 + 4 * k)) = memdisk s ! (h + k + 1)) \<and>
    dwrites t' = dwrites s @ ws \<and>
    (\<forall>m. same_files h n (memdisk t') (recovered h (applyw (take m ws) (memdisk s))))"
proof -
  have q: "qt c {} s s"
    using inv by (intro qt_start) (simp add: QI_def BI_def kidle_def)
  obtain s' t' where 1: "recover_from_log s = Ret () t'" "qt c {} s' t'" "QI c p s'"
    "memdisk s' = recovered (nat (log_start s)) (memdisk s)"
    "dwrites s' = dwrites s @ recover_writes (nat (log_start s)) (memdisk s)" "lh_n s' = 0" "vdirty (view s') = {}"
    using q inv d(1,2) h(1,2,4) n(1,2) [unfolded h(3)] d(3) l [unfolded h(3)] by (rule recover_ok)
  have m: "memdisk t' = recovered h (memdisk s)" "dwrites t' = dwrites s @ recover_writes h (memdisk s)" "lh_n t' = 0"
    using 1(4-6) h(3) by (simp_all add: qt_bufs [OF 1(2)] qt_log [OF 1(2)])
  have n': "n < 2 ^ 31"
    using n(2) by (simp add: LOGSIZE_def MAXOPBLOCKS_def)
  have "recovered h (memdisk s) ! h = set32 (memdisk s ! h) 0 0"
    using l by (simp add: recovered_def recover_writes_def log_layout_def)
  then have "get32 (recovered h (memdisk s) ! h) 0 = 0"
    using n(3) by (simp add: get32_set32 BSIZE_def)
  moreover have "recovered h (memdisk s) ! unat (get32 (memdisk s ! h) (4 + 4 * k)) = memdisk s ! (h + k + 1)" if "k < n" for k
    using recovered_full(1) [OF l(1) n' n(1) refl _ that refl] l(1) that by (auto simp: log_layout_def)
  ultimately show ?thesis
    using 1(1) m crash_recover [OF l(1) n(2,1,3) refl] by metis
qed

theorem recover_from_log_recovers_witness:
  "\<exists>t'. recover_from_log (journal0 unused0 (head_of 1 (\<lambda>_. 1) (replicate BSIZE 0))) = Ret () t' \<and>
     memdisk t' ! 1 = replicate BSIZE 9"
proof -
  let ?h = "head_of 1 (\<lambda>_. 1) (replicate BSIZE 0)"
  let ?s = "journal0 unused0 ?h"
  have q: "QI 0 0 ?s"
    by (rule journal0_QI) (simp_all add: buf_ok_def)
  have d: "vdirty (view ?s) = {}" "1 < length (bufs ?s)" "1 < length (bufs ?s)"
    by (auto simp: view_def less_Suc_eq nth_Cons')
  have g: "get32 ?h 0 = of_nat 1" "get32 ?h (4 + 4 * 0) = 1"
    by (rule head_of_get; simp add: BSIZE_def)+
  have h: "log_dev ?s = 1" "0 \<le> log_start ?s" "2 = nat (log_start ?s)" "length (lh_block ?s) = LOGSIZE"
    by simp_all
  have n: "get32 (memdisk ?s ! 2) 0 = of_nat 1" "1 \<le> LOGSIZE" "length (memdisk ?s ! 2) = BSIZE"
    using g(1) by (simp_all add: LOGSIZE_def MAXOPBLOCKS_def)
  have l: "log_layout 2 1 (\<lambda>k. unat (get32 (memdisk ?s ! 2) (4 + 4 * k))) (memdisk ?s)" "length (memdisk ?s) < 2 ^ 31"
    using g(2) by (simp_all add: log_layout_def inj_on_def)
  from recover_from_log_recovers [OF q d h n l] obtain t' where "recover_from_log ?s = Ret () t'"
    "\<forall>k < 1. memdisk t' ! unat (get32 (memdisk ?s ! 2) (4 + 4 * k)) = memdisk ?s ! (2 + k + 1)"
    by blast
  then show ?thesis
    using g(2) by (intro exI [of _ t']) simp
qed

end
