(* ===== verification/Txn.thy ===== *)
theory Txn
  imports Crash Sched
begin

text \<open>
  Transactions of log.c: the list of blocks that \<open>log_write\<close> collects, the reservation of
  \<open>begin_op\<close>, and \<open>end_op\<close>, which commits when the last operation ends.
\<close>

section \<open>The open transaction\<close>

lemma blocks_log [simp]:
  "tblk (s\<lparr>outstanding := z\<rparr>) = tblk s" "tblk (s\<lparr>committing := w\<rparr>) = tblk s" "tblk (s\<lparr>lh_n := x\<rparr>) = tblk s"
  "lblk (s\<lparr>outstanding := z\<rparr>) = lblk s" "lblk (s\<lparr>committing := w\<rparr>) = lblk s" "lblk (s\<lparr>lh_n := x\<rparr>) = lblk s"
  "hblk (s\<lparr>outstanding := z\<rparr>) = hblk s" "hblk (s\<lparr>committing := w\<rparr>) = hblk s" "hblk (s\<lparr>lh_n := x\<rparr>) = hblk s"
  by (simp_all add: tblk_def lblk_def hblk_def fun_eq_iff)

text \<open>The dirty blocks are the ones the header in memory lists, each once.\<close>

definition log_inv :: "'a log_scheme \<Rightarrow> bool" where
  "log_inv s \<longleftrightarrow>
     0 \<le> lh_n s \<and> lh_n s \<le> int LOGSIZE \<and> (0 < lh_n s \<longrightarrow> lh_n s < log_size s) \<and> length (lh_block s) = LOGSIZE \<and>
     inj_on (tblk s) {..<nat (lh_n s)} \<and> vdirty (view s) = tblk s ` {..<nat (lh_n s)}"

text \<open>The fields of the log and the dirty mark that \<open>log_write\<close> leaves for block \<open>b\<close> in buffer \<open>i\<close>.\<close>

definition log_slot :: "u32 \<Rightarrow> 'a log_scheme \<Rightarrow> nat" where
  "log_slot b s =
     (case scan (\<lambda>k. of_int k = b) (take (nat (lh_n s)) (lh_block s)) of Some i \<Rightarrow> i | None \<Rightarrow> nat (lh_n s))"

definition log_added :: "u32 \<Rightarrow> 'a log_scheme \<Rightarrow> 'a log_scheme" where
  "log_added b s =
     (let s' = s\<lparr>lh_block := (lh_block s)[log_slot b s := sint b]\<rparr>
      in if int (log_slot b s) = lh_n s then s'\<lparr>lh_n := lh_n s + 1\<rparr> else s')"

lemma payload_log_added: "payload (log_added b)"
proof -
  have "log_slot b (s\<lparr>IF := i, cpus := a, locks := k, procs := p\<rparr>) = log_slot b s" for s :: "'a log_scheme" and i a k p
    by (simp add: log_slot_def split: option.splits)
  then show ?thesis
    by (simp add: payload_def log_added_def Let_def)
qed

lemma log_added_frame [simp]:
  "view (log_added b s) = view s" "BI c p (log_added b s) = BI c p s" "bufs (log_added b s) = bufs s"
  "log_size (log_added b s) = log_size s" "outstanding (log_added b s) = outstanding s"
  "log_start (log_added b s) = log_start s" "committing (log_added b s) = committing s"
  by (simp_all add: log_added_def Let_def)

text \<open>The listed blocks afterwards: \<open>b\<close> is added at the end unless it is there already.\<close>

lemma log_added_blocks:
  assumes inv: "log_inv s" and n: "lh_n s < int LOGSIZE"
  shows "if b \<in> tblk s ` {..<nat (lh_n s)}
    then lh_n (log_added b s) = lh_n s \<and> (\<forall>k < nat (lh_n s). tblk (log_added b s) k = tblk s k)
    else lh_n (log_added b s) = lh_n s + 1 \<and> tblk (log_added b s) (nat (lh_n s)) = b \<and>
      (\<forall>k < nat (lh_n s). tblk (log_added b s) k = tblk s k)"
proof -
  let ?n = "nat (lh_n s)"
  have l: "0 \<le> lh_n s" "?n < length (lh_block s)" "length (lh_block s) = LOGSIZE"
    using inv n by (auto simp: log_inv_def)
  have mem: "(\<exists>k < ?n. of_int (lh_block s ! k) = b) \<longleftrightarrow> b \<in> tblk s ` {..<?n}"
    by (auto simp: tblk_def)
  show ?thesis
  proof (cases "scan (\<lambda>k. of_int k = b) (take ?n (lh_block s))")
    case None
    then have "\<forall>k < ?n. of_int (lh_block s ! k) \<noteq> b"
      using l by (auto simp: scan_None all_set_conv_all_nth)
    then have "b \<notin> tblk s ` {..<?n}"
      using mem by blast
    moreover have "tblk (log_added b s) ?n = b" "lh_n (log_added b s) = lh_n s + 1"
      using None l by (simp_all add: log_added_def Let_def log_slot_def tblk_def)
    moreover have "tblk (log_added b s) k = tblk s k" if "k < ?n" for k
      using None l that by (simp add: log_added_def Let_def log_slot_def tblk_def)
    ultimately show ?thesis
      by simp
  next
    case (Some i)
    then have i: "i < ?n" "of_int (lh_block s ! i) = b"
      using l by (auto dest!: scan_Some)
    then have "b \<in> tblk s ` {..<?n}"
      using mem by blast
    moreover have "tblk (log_added b s) k = tblk s k" if "k < ?n" for k
      using Some l i that by (cases "k = i") (simp_all add: log_added_def Let_def log_slot_def tblk_def)
    moreover have "lh_n (log_added b s) = lh_n s"
      using Some i by (simp add: log_added_def Let_def log_slot_def)
    ultimately show ?thesis
      by simp
  qed
qed

lemma log_inv_added:
  assumes inv: "log_inv s" and n: "lh_n s < int LOGSIZE" "lh_n s < log_size s - 1"
    and v: "view s' = (view s)\<lparr>vdirty := insert b (vdirty (view s))\<rparr>" "bframe (log_added b s) s'"
  shows "log_inv s'" "tblk s' ` {..<nat (lh_n s')} = insert b (tblk s ` {..<nat (lh_n s)})"
    and "lh_n s' = (if b \<in> tblk s ` {..<nat (lh_n s)} then lh_n s else lh_n s + 1)"
proof -
  let ?n = "nat (lh_n s)"
  note f = bframe_log [OF v(2)]
  note a = log_added_blocks [OF inv n(1), of b]
  have i: "0 \<le> lh_n s" "inj_on (tblk s) {..<?n}" "vdirty (view s) = tblk s ` {..<?n}" "length (lh_block s) = LOGSIZE"
    using inv by (simp_all add: log_inv_def)
  have len: "length (lh_block s') = LOGSIZE"
    using i(4) f by (simp add: log_added_def Let_def)
  show c: "lh_n s' = (if b \<in> tblk s ` {..<?n} then lh_n s else lh_n s + 1)"
    using a f by (auto split: if_splits)
  have t: "tblk s' k = tblk s k" if "k < ?n" for k
    using a f that by (auto split: if_splits)
  show e: "tblk s' ` {..<nat (lh_n s')} = insert b (tblk s ` {..<?n})"
  proof (cases "b \<in> tblk s ` {..<?n}")
    case True
    then show ?thesis
      using c t by (auto simp: insert_absorb)
  next
    case False
    then have n': "nat (lh_n s') = Suc ?n" and b: "tblk s' ?n = b"
      using c a f i(1) by (auto simp: nat_add_distrib)
    show ?thesis
      unfolding n' lessThan_Suc using t b by auto
  qed
  have "inj_on (tblk s') {..<nat (lh_n s')}"
  proof (cases "b \<in> tblk s ` {..<?n}")
    case True
    then show ?thesis
      using i(2) c t by (simp add: inj_on_def)
  next
    case False
    then have n': "nat (lh_n s') = Suc ?n" and b: "tblk s' ?n = b"
      using c a f i(1) by (auto simp: nat_add_distrib)
    have "inj_on (tblk s') {..<?n}" "b \<notin> tblk s' ` {..<?n}"
      using i(2) t False by (auto simp: inj_on_def)
    then show ?thesis
      unfolding n' lessThan_Suc using b by auto
  qed
  then show "log_inv s'"
    unfolding log_inv_def using c e i n len f v(1) by auto
qed

text \<open>\<open>log_write\<close> on a buffer that is held.\<close>

lemma log_write_ok:
  assumes q: "qt c {} s t" and bi: "BI c p s" and h: "(i, b) \<in> vheld (view s)"
    and n: "lh_n s < int LOGSIZE" "lh_n s < log_size s - 1" "1 \<le> outstanding s"
  obtains s' t' where "log_write i t = Ret () t'" "qt c {} s' t'" "BI c p s'" "bframe (log_added b s) s'"
    "view s' = (view s)\<lparr>vdirty := insert b (vdirty (view s))\<rparr>"
proof -
  obtain t1 where 1: "acquire Llog t = Ret () t1" "qt c {Llog} s t1"
    using q BI_D(4) [OF bi] by (rule qt_acquire0)
  let ?f = "upd_buf i (\<lambda>k. k\<lparr>flags := flags k OR B_DIRTY\<rparr>)"
  have b: "blockno (bufs t1 ! i) = b"
    using heldD(3) [OF bi h] qt_bufs(1) [OF 1(2)] by simp
  have h': "(i, b) \<in> vheld (view (log_added b s))" "BI c p (log_added b s)"
    using h bi by simp_all
  note m = mark_dirty_ok [OF h'(2,1)]
  have q2: "qt c {Llog} (?f (log_added b s)) (?f (log_added b t1))"
    by (rule qt_payload [OF payload_upd_buf qt_payload [OF payload_log_added 1(2)]])
  obtain t2 where 2: "release Llog (?f (log_added b t1)) = Ret () t2" "qt c {} (?f (log_added b s)) t2"
    using q2 by (rule qt_release0)
  have "log_write i t = Ret () t2"
    using 1(1) 2(1) n b by (simp add: log_write_def Let_def qt_log [OF q] log_added_def log_slot_def split: if_splits)
  then show ?thesis
    using 2(2) m by (intro that [of t2 "?f (log_added b s)"]) simp_all
qed

section \<open>The beginning and the end of an operation\<close>

text \<open>\<open>begin_op\<close> returns at once when the reservation fits, and sleeps otherwise.\<close>

definition op_fits :: "'a log_scheme \<Rightarrow> bool" where
  "op_fits s \<longleftrightarrow> \<not> committing s \<and> lh_n s + (outstanding s + 1) * int MAXOPBLOCKS \<le> int LOGSIZE"

lemma begin_op_ok:
  assumes q: "qt c {} s t" and k: "kidle c p s" and f: "op_fits s"
  obtains t' where "begin_op t = Ret () t'" "qt c {} (s\<lparr>outstanding := outstanding s + 1\<rparr>) t'"
proof -
  obtain t1 where 1: "acquire Llog t = Ret () t1" "qt c {Llog} s t1"
    using q kidleD(2) [OF k] by (rule qt_acquire0)
  have "qt c {Llog} (s\<lparr>outstanding := outstanding s + 1\<rparr>) (t1\<lparr>outstanding := outstanding s + 1\<rparr>)"
    by (rule qt_payload [OF payload_log(3) 1(2)])
  then obtain t2 where 2: "release Llog (t1\<lparr>outstanding := outstanding s + 1\<rparr>) = Ret () t2"
      "qt c {} (s\<lparr>outstanding := outstanding s + 1\<rparr>) t2"
    by (rule qt_release0)
  show ?thesis
    by (rule that [OF _ 2(2)])
      (use 1(1) 2(1) f in \<open>simp add: begin_op_def begin_op_loop_def qt_log [OF 1(2)] op_fits_def not_less\<close>)
qed

text \<open>\<open>end_op\<close> while other operations are running.\<close>

lemma end_op_more:
  assumes q: "qt c {} s t" and k: "kidle c p s" and o: "outstanding s \<noteq> 1" "\<not> committing s"
  obtains t' where "end_op t = Ret () t'" "qt c {} (s\<lparr>outstanding := outstanding s - 1\<rparr>) t'"
proof -
  let ?s = "s\<lparr>outstanding := outstanding s - 1\<rparr>"
  obtain t1 where 1: "acquire Llog t = Ret () t1" "qt c {Llog} s t1"
    using q kidleD(2) [OF k] by (rule qt_acquire0)
  have "qt c {Llog} ?s (t1\<lparr>outstanding := outstanding s - 1\<rparr>)"
    by (rule qt_payload [OF payload_log(3) 1(2)])
  moreover have "lock_free Lptable ?s" "Lptable \<notin> {Llog}"
    using kidleD(2) [of c p ?s] k by simp_all
  ultimately obtain t2 where 2: "wakeup Clog (t1\<lparr>outstanding := outstanding s - 1\<rparr>) = Ret () t2" "qt c {Llog} ?s t2"
    by (rule qt_wakeup)
  obtain t3 where 3: "release Llog t2 = Ret () t3" "qt c {} ?s t3"
    using 2(2) by (rule qt_release0)
  show ?thesis
    by (rule that [OF _ 3(2)])
      (use 1(1) 2(1) 3(1) o in \<open>simp add: end_op_def Let_def qt_log [OF 1(2)]\<close>)
qed

lemma bframe_committing:
  assumes "bframe (s\<lparr>outstanding := x, committing := y, lh_n := z\<rparr>) s'"
  shows "bframe (s\<lparr>outstanding := x, committing := y', lh_n := z\<rparr>) (s'\<lparr>committing := y'\<rparr>)"
proof -
  obtain u v w q where "s' = s\<lparr>outstanding := x, committing := y, lh_n := z, bufs := u, bhead := v, memdisk := w, dwrites := q\<rparr>"
    "length u = length (bufs s)"
    using assms by (auto simp: bframe_def)
  then show ?thesis
    by (intro bframeI [where w = u and x = v and y = w and z = q]) simp_all
qed

text \<open>\<open>end_op\<close> of the last operation.\<close>

lemma end_op_last:
  assumes q: "qt c {} s t" and inv: "QI c p s" and o: "outstanding s = 1" "\<not> committing s"
    and n: "0 < lh_n s" and l: "log_ok (nat (lh_n s)) s" and d: "vdirty (view s) = tblk s ` {..<nat (lh_n s)}"
  obtains s' t' where "end_op t = Ret () t'" "qt c {} s' t'" "QI c p s'" "bframe (s\<lparr>outstanding := 0, committing := False, lh_n := 0\<rparr>) s'"
    "view s' = vcommit (hblk s) (lblk s) (tblk s) (nat (lh_n s)) (view s)"
proof -
  have k: "kidle c p s"
    using inv by (simp add: QI_def BI_def)
  let ?s = "s\<lparr>outstanding := 0, committing := True\<rparr>"
  obtain t1 where 1: "acquire Llog t = Ret () t1" "qt c {Llog} s t1"
    using q kidleD(2) [OF k] by (rule qt_acquire0)
  have "qt c {Llog} ?s (t1\<lparr>outstanding := 0, committing := True\<rparr>)"
    by (rule qt_payload [OF payload_log(4) qt_payload [OF payload_log(3) 1(2)]])
  then obtain t2 where 2: "release Llog (t1\<lparr>outstanding := 0, committing := True\<rparr>) = Ret () t2" "qt c {} ?s t2"
    by (rule qt_release0)
  have s1: "QI c p ?s" "0 < lh_n ?s" "log_ok (nat (lh_n ?s)) ?s" "vdirty (view ?s) = tblk ?s ` {..<nat (lh_n ?s)}"
    using inv n l d by (auto simp: log_ok_def tblk_def inj_on_def)
  obtain s3 t3 where 3: "commit t2 = Ret () t3" "qt c {} s3 t3" "QI c p s3" "bframe (?s\<lparr>lh_n := 0\<rparr>) s3"
    "view s3 = vcommit (hblk ?s) (lblk ?s) (tblk ?s) (nat (lh_n ?s)) (view ?s)"
    using 2(2) s1 by (rule commit_ok)
  have k3: "kidle c p s3"
    using 3(3) by (simp add: QI_def BI_def)
  let ?s4 = "s3\<lparr>committing := False\<rparr>"
  obtain t4 where 4: "acquire Llog t3 = Ret () t4" "qt c {Llog} s3 t4"
    using 3(2) kidleD(2) [OF k3] by (rule qt_acquire0)
  have "qt c {Llog} ?s4 (t4\<lparr>committing := False\<rparr>)"
    by (rule qt_payload [OF payload_log(4) 4(2)])
  moreover have "lock_free Lptable ?s4" "Lptable \<notin> {Llog}"
    using kidleD(2) [of c p ?s4] k3 by simp_all
  ultimately obtain t5 where 5: "wakeup Clog (t4\<lparr>committing := False\<rparr>) = Ret () t5" "qt c {Llog} ?s4 t5"
    by (rule qt_wakeup)
  obtain t6 where 6: "release Llog t5 = Ret () t6" "qt c {} ?s4 t6"
    using 5(2) by (rule qt_release0)
  show ?thesis
  proof (rule that [OF _ 6(2)])
    show "end_op t = Ret () t6"
      using 1(1) 2(1) 3(1) 4(1) 5(1) 6(1) o by (simp add: end_op_def Let_def qt_log [OF 1(2)])
    show "bframe (s\<lparr>outstanding := 0, committing := False, lh_n := 0\<rparr>) ?s4"
      using 3(4) by (rule bframe_committing)
    show "view ?s4 = vcommit (hblk s) (lblk s) (tblk s) (nat (lh_n s)) (view s)"
      using 3(5) by simp
  qed (use 3(3) in simp)
qed

section \<open>Properties\<close>

lemma qt_view: "qt c L s t \<Longrightarrow> view t = view s"
  by (simp add: view_def blk_def fun_eq_iff qt_bufs cong: option.case_cong)

lemma qt_log_inv: "qt c L s t \<Longrightarrow> log_inv t = log_inv s"
  by (simp add: log_inv_def qt_log qt_view tblk_def inj_on_def image_def)

lemma qt_tblk: "qt c L s t \<Longrightarrow> tblk t = tblk s"
  by (simp add: tblk_def qt_log fun_eq_iff)

text \<open>What a commit leaves on the disk and in the cache.\<close>

lemma vcommit_final:
  assumes l: "log_ok n s" and n: "0 < n" and d: "vdirty (view s) = tblk s ` {..<n}"
  shows "vdirty (vcommit (hblk s) (lblk s) (tblk s) n (view s)) = {}"
    and "k < n \<Longrightarrow> vdisk (vcommit (hblk s) (lblk s) (tblk s) n (view s)) ! unat (tblk s k) = blk s (tblk s k)"
proof -
  note lo = log_okD [OF l]
  have ij: "inj_on (lblk s) {..<n}"
    using lo(5) by (metis add_right_cancel inj_onI lessThan_iff add_left_cancel)
  have ne: "\<And>j k. j < n \<Longrightarrow> k < n \<Longrightarrow> lblk s j \<noteq> tblk s k" "\<And>k. k < n \<Longrightarrow> hblk s \<noteq> tblk s k" "\<And>k. k < n \<Longrightarrow> hblk s \<noteq> lblk s k"
    using log_ne(1) [OF l] log_ne(2) [OF l _ n] log_ne(3) [OF l n] by fastforce+
  have "vdisk (vcommit (hblk s) (lblk s) (tblk s) n (view s)) = applyw (commit_writes (hblk s) (lblk s) (tblk s) n (view s)) (vdisk (view s))"
    by (rule vcommit_writes; use ne ij in blast)
  then show "vdisk (vcommit (hblk s) (lblk s) (tblk s) n (view s)) ! unat (tblk s k) = blk s (tblk s k)" if "k < n"
    using commit_writes_at [OF log_ok_layout [OF l] lo(4) that] by (simp add: view_def)
  show "vdirty (vcommit (hblk s) (lblk s) (tblk s) n (view s)) = {}"
    using d by (simp add: vcommit_def vinstall_def Let_def copy_all_dirty vwrite_def) blast
qed

text \<open>
  C28. \<open>log_write\<close> keeps the invariant of the open transaction, that the dirty blocks of the cache are
  the blocks the header in memory lists, each once: it adds the block of the buffer to the list, or
  absorbs the write when the block is in the list, and writes nothing to the disk.
\<close>

theorem log_write_absorbs:
  assumes bi: "BI c p s" and inv: "log_inv s" and h: "(i, b) \<in> vheld (view s)"
    and n: "lh_n s < int LOGSIZE" "lh_n s < log_size s - 1" "1 \<le> outstanding s"
  shows "\<exists>t. log_write i s = Ret () t \<and> log_inv t \<and>
    tblk t ` {..<nat (lh_n t)} = insert b (tblk s ` {..<nat (lh_n s)}) \<and>
    lh_n t = (if b \<in> tblk s ` {..<nat (lh_n s)} then lh_n s else lh_n s + 1) \<and>
    b \<in> vdirty (view t) \<and> memdisk t = memdisk s \<and> dwrites t = dwrites s"
proof -
  have q: "qt c {} s s"
    using bi by (intro qt_start) (simp add: BI_def kidle_def)
  obtain s' t where 1: "log_write i s = Ret () t" "qt c {} s' t" "BI c p s'" "bframe (log_added b s) s'"
    "view s' = (view s)\<lparr>vdirty := insert b (vdirty (view s))\<rparr>"
    using q bi h n by (rule log_write_ok)
  have v: "view t = (view s)\<lparr>vdirty := insert b (vdirty (view s))\<rparr>"
    using qt_view [OF 1(2)] 1(5) by simp
  then have "b \<in> vdirty (view t)" by simp
  moreover have "memdisk t = memdisk s" "dwrites t = dwrites s"
    using arg_cong [OF v, of vdisk] arg_cong [OF v, of vwrites] by (simp_all add: view_def)
  ultimately show ?thesis
    using 1(1) log_inv_added [OF inv n(1,2) 1(5,4)]
    by (simp add: qt_log_inv [OF 1(2)] qt_tblk [OF 1(2)] qt_log(3) [OF 1(2)])
qed

text \<open>
  C29. The reservation of \<open>begin_op\<close>: it lets an operation start exactly when no commit is running and
  the log has room for \<open>MAXOPBLOCKS\<close> blocks of this and of each outstanding operation beyond those
  already listed, and then that bound holds; otherwise the process sleeps on the log, with
  \<open>log.lock\<close> free and nothing reserved.
\<close>

theorem begin_op_reserves:
  assumes k: "kidle c p s" and n: "ncli (cpus s ! c) = 0"
  shows "if \<not> committing s \<and> lh_n s + (outstanding s + 1) * int MAXOPBLOCKS \<le> int LOGSIZE
    then \<exists>t. begin_op s = Ret () t \<and> outstanding t = outstanding s + 1 \<and> lh_n t = lh_n s \<and> \<not> committing t \<and>
      lh_n t + outstanding t * int MAXOPBLOCKS \<le> int LOGSIZE
    else \<exists>t. begin_op s = Slp t \<and> outstanding t = outstanding s \<and> lh_n t = lh_n s \<and> lock_free Llog t \<and>
      state (procs t ! p) = SLEEPING \<and> pchan (procs t ! p) = Some Clog"
proof (cases "op_fits s")
  case True
  obtain t where t: "begin_op s = Ret () t" "qt c {} (s\<lparr>outstanding := outstanding s + 1\<rparr>) t"
    using qt_start [OF kidleD(1) [OF k]] k True by (rule begin_op_ok)
  then show ?thesis
    using True qt_log [OF t(2)] by (auto simp: op_fits_def)
next
  case False
  obtain t1 where 1: "acquire Llog s = Ret () t1" "qx c {Llog} s t1"
    using qx_start [OF kidleD(1) [OF k]] kidleD(2) [OF k] by (rule qx_acquire0)
  let ?s = "upd_proc p (\<lambda>r. r\<lparr>pchan := Some Clog, state := SLEEPING\<rparr>) s"
  have l: "Llog \<noteq> Lptable" by simp
  obtain b t2 where 2: "sleep_enter Clog (Some Llog) t1 = Ret b t2" "qx c {Lptable} ?s t2"
    using 1(2) k n l by (rule sleep_enter_ok)
  have e: "outstanding t1 = outstanding s" "lh_n t1 = lh_n s" "committing t1 = committing s"
    using 1(2) by (auto elim!: qxE)
  have e2: "outstanding t2 = outstanding s" "lh_n t2 = lh_n s" "procs t2 = procs ?s"
    using 2(2) by (auto elim!: qxE simp: upd_proc_def)
  have "begin_op s = Slp t2"
    using False 1(1) 2(1) e by (auto simp: begin_op_def begin_op_loop_def op_fits_def sleep_on_def)
  moreover have "lock_free Llog t2"
    using locks_relD(3) [OF sync_relD(10) [OF qx_sync [OF 2(2)]], of Llog] kidleD(2) [OF k, of Llog]
    by (simp add: lock_free_def upd_proc_def)
  ultimately show ?thesis
    using False e2 kidleD(4) [OF k] by (auto simp: op_fits_def upd_proc_def)
qed

text \<open>
  C18. \<open>end_op\<close> of the last operation commits: every block of the transaction is on the disk, the list
  is empty, no block of the cache is dirty, and the log is open again; while other operations are
  running it only gives the reservation back and writes nothing.
\<close>

theorem end_op_commits:
  assumes inv: "QI c p s" and li: "log_inv s" and o: "1 \<le> outstanding s" "\<not> committing s"
    and l: "0 < lh_n s" "log_ok (nat (lh_n s)) s"
  shows "\<exists>t. end_op s = Ret () t \<and> outstanding t = outstanding s - 1 \<and> \<not> committing t \<and>
    (if outstanding s = 1
     then lh_n t = 0 \<and> vdirty (view t) = {} \<and> (\<forall>k < nat (lh_n s). memdisk t ! unat (tblk s k) = blk s (tblk s k))
     else lh_n t = lh_n s \<and> memdisk t = memdisk s \<and> dwrites t = dwrites s)"
proof -
  have kd: "kidle c p s" using inv by (simp add: QI_def BI_def)
  note q = qt_start [OF kidleD(1) [OF kd]]
  show ?thesis
  proof (cases "outstanding s = 1")
    case False
    obtain t where t: "end_op s = Ret () t" "qt c {} (s\<lparr>outstanding := outstanding s - 1\<rparr>) t"
      using q kd False o(2) by (rule end_op_more)
    then show ?thesis
      using False o qt_log [OF t(2)] qt_bufs [OF t(2)] by simp
  next
    case True
    have d: "vdirty (view s) = tblk s ` {..<nat (lh_n s)}" using li by (simp add: log_inv_def)
    obtain s' t where 1: "end_op s = Ret () t" "qt c {} s' t" "QI c p s'" "bframe (s\<lparr>outstanding := 0, committing := False, lh_n := 0\<rparr>) s'"
      "view s' = vcommit (hblk s) (lblk s) (tblk s) (nat (lh_n s)) (view s)"
      using q inv True o(2) l d by (rule end_op_last)
    have n0: "0 < nat (lh_n s)" using l(1) by simp
    have v: "view t = vcommit (hblk s) (lblk s) (tblk s) (nat (lh_n s)) (view s)"
      using qt_view [OF 1(2)] 1(5) by simp
    have "vdirty (view t) = {}"
      using vcommit_final(1) [OF l(2) n0 d] v by simp
    moreover have "memdisk t ! unat (tblk s k) = blk s (tblk s k)" if "k < nat (lh_n s)" for k
      using vcommit_final(2) [OF l(2) n0 d that] arg_cong [OF v, of vdisk] by (simp add: view_disk)
    ultimately show ?thesis
      using 1(1) bframe_log [OF 1(4)] qt_log [OF 1(2)] True by simp
  qed
qed

section \<open>Examples\<close>

definition open0 :: "buf \<Rightarrow> log" where
  "open0 b = cache0 b [replicate BSIZE 0, replicate BSIZE 0, replicate BSIZE 0, replicate BSIZE 9]
     \<lparr>log_start = 2, log_size = 3, outstanding = 1, committing = False, log_dev = 1, lh_n = 1,
      lh_block = (replicate LOGSIZE 0)[0 := 1]\<rparr>"

lemma open0_sel [simp]:
  "bufs (open0 b) = [b, unused1]" "memdisk (open0 b) = [replicate BSIZE 0, replicate BSIZE 0, replicate BSIZE 0, replicate BSIZE 9]"
  "log_start (open0 b) = 2" "log_dev (open0 b) = 1" "lh_n (open0 b) = 1" "log_size (open0 b) = 3" "outstanding (open0 b) = 1"
  "\<not> committing (open0 b)" "lh_block (open0 b) = (replicate LOGSIZE 0)[0 := 1]"
  by (simp_all add: open0_def) (simp_all add: cache0_def con0_def)

lemma open0_tblk [simp]: "tblk (open0 b) 0 = 1"
  by (simp add: tblk_def LOGSIZE_def MAXOPBLOCKS_def)

lemma open0_inv:
  assumes "is_dirty b" "blockno b = 1"
  shows "log_inv (open0 b)"
  using assms by (auto simp: log_inv_def LOGSIZE_def MAXOPBLOCKS_def inj_on_def lessThan_Suc view_def less_Suc_eq nth_Cons')

theorem log_write_absorbs_witness:
  "\<exists>t. log_write 0 (open0 (bget_hit 1 dirty1)) = Ret () t \<and> log_inv t \<and> lh_n t = 1"
proof -
  let ?s = "open0 (bget_hit 1 dirty1)"
  have bi: "BI 0 0 ?s"
    unfolding open0_def by (rule cache0_BI) (simp_all add: buf_ok_def bget_hit_def)
  have i: "log_inv ?s"
    by (rule open0_inv) (simp_all add: bget_hit_def)
  have h: "(0, 1) \<in> vheld (view ?s)"
    by (simp add: view_def bget_hit_def)
  show ?thesis
    using log_write_absorbs [OF bi i h] by (auto simp: LOGSIZE_def MAXOPBLOCKS_def lessThan_Suc)
qed

theorem begin_op_reserves_witness:
  "\<exists>t. begin_op (open0 dirty1) = Ret () t \<and> outstanding t = 2 \<and> lh_n t + outstanding t * int MAXOPBLOCKS \<le> int LOGSIZE"
proof -
  have "kidle 0 0 (open0 dirty1)" "ncli (cpus (open0 dirty1) ! 0) = 0"
    by (simp_all add: open0_def) (simp add: cache0_def con0_def)
  then show ?thesis
    using begin_op_reserves [of 0 0 "open0 dirty1"] by (auto simp: LOGSIZE_def MAXOPBLOCKS_def)
qed

theorem end_op_commits_witness:
  "\<exists>t. end_op (open0 dirty1) = Ret () t \<and> outstanding t = 0 \<and> lh_n t = 0 \<and> memdisk t ! 1 = replicate BSIZE 7"
proof -
  let ?s = "open0 dirty1"
  have bi: "BI 0 0 ?s"
    unfolding open0_def by (rule cache0_BI) (simp_all add: buf_ok_def)
  then have q: "QI 0 0 ?s"
    by (auto simp: QI_def view_def less_Suc_eq nth_Cons')
  have i: "log_inv ?s" by (rule open0_inv) simp_all
  have l: "log_ok (nat (lh_n ?s)) ?s"
    by (simp add: log_ok_def LOGSIZE_def MAXOPBLOCKS_def inj_on_def)
  have b: "blk ?s 1 = replicate BSIZE 7" by (simp add: blk_def)
  show ?thesis
    using end_op_commits [OF q i _ _ _ l] b by auto
qed

text \<open>
  The reservation counts \<open>LOGSIZE\<close> blocks, but a log of \<open>LOGSIZE\<close> blocks, as \<open>mkfs\<close> makes it, has
  one of them for the header: an operation admitted with 20 blocks in the list can be stopped at
  its tenth block.
\<close>

lemma log_write_full:
  assumes "lh_n s = int LOGSIZE - 1" "log_size s = int LOGSIZE"
  shows "log_write i s = Panic ''too big a transaction''"
  using assms by (simp add: log_write_def)

lemma op_fits_20: "lh_n s = 20 \<Longrightarrow> outstanding s = 0 \<Longrightarrow> \<not> committing s \<Longrightarrow> op_fits s"
  by (simp add: op_fits_def LOGSIZE_def MAXOPBLOCKS_def)

end
