(* ===== verification/Content.thy ===== *)
theory Content
  imports Txn Dir
begin

text \<open>
  Facts on fs.c: the contents of a file as the blocks its inode maps, \<open>readi\<close> and \<open>writei\<close> on
  them, and the inode on the disk.
\<close>

section \<open>One block read, one block updated\<close>

lemma read_block:
  assumes q: "qt c {} s t" and inv: "QI c p s" and a: "unat a < length (vdisk (view s))" and r: "card (vdirty (view s)) < length (bufs s)"
  obtains i t1 s2 t2 where "bread 1 a t = Ret i t1" "data (bufs t1 ! i) = vblk (view s) a"
    "brelse i t1 = Ret () t2" "qt c {} s2 t2" "QI c p s2" "bframe s s2" "view s2 = view s"
    "\<exists>s1. qt c {} s1 t1 \<and> bframe s s1"
proof -
  have bi: "BI c p s" and h: "vheld (view s) = {}" using inv by (simp_all add: QI_def)
  have ct: "can_take s a" using a r by (simp add: can_take_def h view_disk)
  obtain i s1 t1 where 1: "bread 1 a t = Ret i t1" "qt c {} s1 t1" "BI c p s1" "bframe s s1"
    "view s1 = (view s)\<lparr>vheld := insert (i, a) (vheld (view s))\<rparr>" "i < length (bufs s1)" "data (bufs s1 ! i) = vblk (view s) a"
    using q bi ct by (rule bread_ok)
  have hd: "(i, a) \<in> vheld (view s1)" using 1(5) by simp
  have cl: "a \<in> vdirty (view s1) \<or> vblk (view s1) a = vdisk (view s1) ! unat a"
    using 1(5) QI_clean [OF inv, of a] by auto
  obtain s2 t2 where 2: "brelse i t1 = Ret () t2" "qt c {} s2 t2" "BI c p s2" "bframe s1 s2"
    "view s2 = (view s1)\<lparr>vheld := vheld (view s1) - {(i, a)}\<rparr>"
    using 1(2,3) hd cl by (rule brelse_ok)
  have v: "view s2 = view s" using 2(5) 1(5) h by simp
  show ?thesis
  proof (rule that [OF 1(1) _ 2(1,2)])
    show "data (bufs t1 ! i) = vblk (view s) a" using 1(7) qt_bufs(1) [OF 1(2)] by simp
    show "QI c p s2" using 2(3) v h by (simp add: QI_def)
    show "bframe s s2" by (rule bframe_trans [OF 1(4) 2(4)])
    show "\<exists>s1. qt c {} s1 t1 \<and> bframe s s1" using 1 by blast
  qed (simp_all add: v)
qed

text \<open>The part of the state that updates of blocks within a transaction change.\<close>

definition lframe :: "'a log_scheme \<Rightarrow> 'a log_scheme \<Rightarrow> bool" where
  "lframe s s' \<longleftrightarrow>
     (\<exists>n l w x y z. s' = s\<lparr>lh_n := n, lh_block := l, bufs := w, bhead := x, memdisk := y, dwrites := z\<rparr> \<and>
        length w = length (bufs s))"

lemma lframeI: "s' = s\<lparr>lh_n := n, lh_block := l, bufs := w, bhead := x, memdisk := y, dwrites := z\<rparr> \<Longrightarrow>
    length w = length (bufs s) \<Longrightarrow> lframe s s'"
  unfolding lframe_def by blast

lemma lframe_trans: "lframe s s' \<Longrightarrow> lframe s' s'' \<Longrightarrow> lframe s s''"
proof -
  assume "lframe s s'" "lframe s' s''"
  then obtain n l w x y z n' l' w' x' y' z' where
    "s' = s\<lparr>lh_n := n, lh_block := l, bufs := w, bhead := x, memdisk := y, dwrites := z\<rparr>"
    "s'' = s'\<lparr>lh_n := n', lh_block := l', bufs := w', bhead := x', memdisk := y', dwrites := z'\<rparr>"
    "length w' = length (bufs s)"
    by (auto simp: lframe_def)
  then show ?thesis
    by (intro lframeI [where n = n' and l = l' and w = w' and x = x' and y = y' and z = z']) simp_all
qed

lemma bframe_lframe: "bframe s s' \<Longrightarrow> lframe s s'"
proof -
  assume "bframe s s'"
  then obtain w x y z where "s' = s\<lparr>bufs := w, bhead := x, memdisk := y, dwrites := z\<rparr>" "length w = length (bufs s)"
    by (auto simp: bframe_def)
  then show ?thesis
    by (intro lframeI [where n = "lh_n s" and l = "lh_block s" and w = w and x = x and y = y and z = z]) simp_all
qed

lemma log_added_lframe: "lframe s (log_added b s)"
  by (intro lframeI [where n = "lh_n (log_added b s)" and l = "lh_block (log_added b s)" and w = "bufs s" and x = "bhead s" and
        y = "memdisk s" and z = "dwrites s"]) (simp_all add: log_added_def Let_def)

lemma lframe_fields:
  assumes "lframe s s'"
  shows "length (bufs s') = length (bufs s)" "log_size s' = log_size s" "outstanding s' = outstanding s"
  using assms by (auto simp: lframe_def)

lemma lframe_inodes:
  assumes "lframe s s'"
  shows "inodes s' = inodes s" "sb s' = sb s" "devsw s' = devsw s"
  using assms by (auto simp: lframe_def)

text \<open>Room in the log for \<open>k\<close> more blocks, in a running operation.\<close>

definition log_room :: "nat \<Rightarrow> 'a log_scheme \<Rightarrow> bool" where
  "log_room k s \<longleftrightarrow> log_inv s \<and> 1 \<le> outstanding s \<and> lh_n s + int k \<le> int LOGSIZE \<and> lh_n s + int k \<le> log_size s - 1 \<and>
     lh_n s + int k < int (length (bufs s))"

lemma log_room_card:
  assumes "log_room k s"
  shows "card (vdirty (view s)) < length (bufs s)"
proof -
  have "vdirty (view s) = tblk s ` {..<nat (lh_n s)}" using assms by (simp add: log_room_def log_inv_def)
  then have "card (vdirty (view s)) \<le> nat (lh_n s)" using card_image_le [of "{..<nat (lh_n s)}" "tblk s"] by simp
  then show ?thesis using assms by (auto simp: log_room_def log_inv_def)
qed

lemma update_block:
  assumes q: "qt c {} s t" and inv: "QI c p s" and a: "unat a < length (vdisk (view s))" and r: "log_room (Suc k) s"
  obtains i t1 t2 s3 t3 where "bread 1 a t = Ret i t1" "data (bufs t1 ! i) = vblk (view s) a" "\<exists>s1. qt c {} s1 t1 \<and> bframe s s1"
    "log_write i (upd_buf i (\<lambda>b. b\<lparr>data := f (data b)\<rparr>) t1) = Ret () t2" "brelse i t2 = Ret () t3"
    "qt c {} s3 t3" "QI c p s3" "lframe s s3" "log_room k s3"
    "view s3 = (view s)\<lparr>vblk := (vblk (view s))(a := f (vblk (view s) a)), vdirty := insert a (vdirty (view s))\<rparr>"
proof -
  have bi: "BI c p s" and h: "vheld (view s) = {}" using inv by (simp_all add: QI_def)
  have ct: "can_take s a" using a log_room_card [OF r] by (simp add: can_take_def h view_disk)
  obtain i s1 t1 where 1: "bread 1 a t = Ret i t1" "qt c {} s1 t1" "BI c p s1" "bframe s s1"
    "view s1 = (view s)\<lparr>vheld := insert (i, a) (vheld (view s))\<rparr>" "i < length (bufs s1)" "data (bufs s1 ! i) = vblk (view s) a"
    using q bi ct by (rule bread_ok)
  have hd: "(i, a) \<in> vheld (view s1)" using 1(5) by simp
  let ?u = "upd_buf i (\<lambda>b. b\<lparr>data := f (data b)\<rparr>)"
  note u = set_data_ok [OF 1(3) hd, of "\<lambda>b. f (data b)"]
  have q2: "qt c {} (?u s1) (?u t1)" by (rule qt_payload [OF payload_upd_buf 1(2)])
  have hd2: "(i, a) \<in> vheld (view (?u s1))" using hd u(3) by simp
  have fr: "bframe s (?u s1)" by (rule bframe_trans [OF 1(4) u(2)])
  have n: "lh_n (?u s1) < int LOGSIZE" "lh_n (?u s1) < log_size (?u s1) - 1" "1 \<le> outstanding (?u s1)"
    using r bframe_log [OF fr] by (simp_all add: log_room_def)
  obtain s2 t2 where 2: "log_write i (?u t1) = Ret () t2" "qt c {} s2 t2" "BI c p s2" "bframe (log_added a (?u s1)) s2"
    "view s2 = (view (?u s1))\<lparr>vdirty := insert a (vdirty (view (?u s1)))\<rparr>"
    using q2 u(1) hd2 n by (rule log_write_ok)
  have li: "log_inv (?u s1)"
    using r bframe_log [OF fr] by (simp add: log_room_def log_inv_def u(3) 1(5) )
  note ad = log_inv_added [OF li n(1,2) 2(5,4)]
  have hd3: "(i, a) \<in> vheld (view s2)" "a \<in> vdirty (view s2) \<or> vblk (view s2) a = vdisk (view s2) ! unat a"
    using 2(5) hd2 by simp_all
  obtain s3 t3 where 3: "brelse i t2 = Ret () t3" "qt c {} s3 t3" "BI c p s3" "bframe s2 s3"
    "view s3 = (view s2)\<lparr>vheld := vheld (view s2) - {(i, a)}\<rparr>"
    using 2(2,3) hd3 by (rule brelse_ok)
  have v: "view s3 = (view s)\<lparr>vblk := (vblk (view s))(a := f (vblk (view s) a)), vdirty := insert a (vdirty (view s))\<rparr>"
    using 3(5) 2(5) u(3) 1(5,7) h by simp
  have fr3: "lframe s s3"
    by (rule lframe_trans [OF bframe_lframe [OF fr] lframe_trans [OF log_added_lframe bframe_lframe [OF bframe_trans [OF 2(4) 3(4)]]]])
  have "lh_n s3 = lh_n s2" "log_inv s3 = log_inv s2"
    using bframe_log [OF 3(4)] by (simp_all add: log_inv_def 3(5))
  then have "log_room k s3"
    using r ad bframe_log [OF fr] lframe_fields [OF fr3] by (auto simp: log_room_def split: if_splits)
  moreover have "QI c p s3" using 3(3) v h by (simp add: QI_def)
  moreover have "data (bufs t1 ! i) = vblk (view s) a" using 1(7) qt_bufs(1) [OF 1(2)] by simp
  ultimately show ?thesis
    using that 1(1,2,4) 2(1) 3(1,2) fr3 v by blast
qed

section \<open>The blocks of a file\<close>

definition faddr :: "bview \<Rightarrow> inode \<Rightarrow> nat \<Rightarrow> u32" where
  "faddr v i bn = (if bn < NDIRECT then addrs i ! bn else get32 (vblk v (addrs i ! NDIRECT)) (4 * (bn - NDIRECT)))"

definition fbyte :: "bview \<Rightarrow> inode \<Rightarrow> nat \<Rightarrow> u8" where
  "fbyte v i k = vblk v (faddr v i (k div 512)) ! (k mod 512)"

text \<open>
  The first \<open>m\<close> blocks of the file are mapped, to different blocks of the disk that are not the
  indirect block.
\<close>

definition mapped :: "bview \<Rightarrow> inode \<Rightarrow> nat \<Rightarrow> bool" where
  "mapped v i m \<longleftrightarrow> idev i = 1 \<and> m \<le> MAXFILE \<and>
     (\<forall>k < m. faddr v i k \<noteq> 0 \<and> unat (faddr v i k) < length (vdisk v) \<and> length (vblk v (faddr v i k)) = 512) \<and>
     inj_on (faddr v i) {..<m} \<and>
     (NDIRECT < m \<longrightarrow> addrs i ! NDIRECT \<noteq> 0 \<and> unat (addrs i ! NDIRECT) < length (vdisk v) \<and>
        addrs i ! NDIRECT \<notin> faddr v i ` {..<m})"

lemma mappedD:
  assumes "mapped v i m" "k < m"
  shows "faddr v i k \<noteq> 0" "unat (faddr v i k) < length (vdisk v)" "length (vblk v (faddr v i k)) = 512" "k < MAXFILE" "idev i = 1"
  using assms by (simp_all add: mapped_def)

lemma bframe_inodes:
  assumes "bframe s s'"
  shows "inodes s' = inodes s" "sb s' = sb s" "devsw s' = devsw s"
  using assms by (auto simp: bframe_def)

lemma qt_inodes:
  assumes "qt c L s t"
  shows "inodes t = inodes s" "sb t = sb s" "devsw t = devsw s"
  using assms by (auto elim!: qtE)

lemma bmap_ok:
  assumes q: "qt c {} s t" and inv: "QI c p s" and r: "card (vdirty (view s)) < length (bufs s)"
    and m: "mapped (view s) (inodes s ! ip) m" "unat bn < m"
  obtains s' t' where "bmap ip bn t = Ret (faddr (view s) (inodes s ! ip) (unat bn)) t'" "qt c {} s' t'" "QI c p s'" "bframe s s'"
    "view s' = view s"
proof -
  let ?i = "inodes s ! ip"
  note d = mappedD [OF m] and it = qt_inodes [OF q]
  have lt: "bn < of_nat NDIRECT \<longleftrightarrow> unat bn < NDIRECT"
    by (simp add: word_less_nat_alt NDIRECT_def)
  show ?thesis
  proof (cases "unat bn < NDIRECT")
    case True
    then have "bmap ip bn t = Ret (faddr (view s) ?i (unat bn)) t"
      using d(1) it lt by (simp add: bmap_def faddr_def Let_def)
    then show ?thesis using q inv by (rule that) simp_all
  next
    case False
    have u: "unat (bn - of_nat NDIRECT) = unat bn - NDIRECT"
      using False by (subst unat_sub) (simp_all add: word_le_nat_alt NDIRECT_def)
    have lt2: "bn - of_nat NDIRECT < of_nat NINDIRECT"
      using d(4) False u by (simp add: word_less_nat_alt NINDIRECT_def MAXFILE_def BSIZE_def NDIRECT_def)
    have ind: "addrs ?i ! NDIRECT \<noteq> 0" "unat (addrs ?i ! NDIRECT) < length (vdisk (view s))"
      using m False by (simp_all add: mapped_def)
    obtain i t1 s2 t2 where 1: "bread 1 (addrs ?i ! NDIRECT) t = Ret i t1" "data (bufs t1 ! i) = vblk (view s) (addrs ?i ! NDIRECT)"
      "brelse i t1 = Ret () t2" "qt c {} s2 t2" "QI c p s2" "bframe s s2" "view s2 = view s" "\<exists>s1. qt c {} s1 t1 \<and> bframe s s1"
      using q inv ind(2) r by (rule read_block)
    have "get32 (vblk (view s) (addrs ?i ! NDIRECT)) (4 * unat (bn - of_nat NDIRECT)) = faddr (view s) ?i (unat bn)"
      using False u by (simp add: faddr_def)
    then have "bmap ip bn t = Ret (faddr (view s) ?i (unat bn)) t2"
      using False lt lt2 ind(1) 1(1-3) d(1,5) it by (simp add: bmap_def Let_def)
    then show ?thesis using 1(4-7) by (rule that)
  qed
qed

section \<open>Reading\<close>

text \<open>One round of the loops: the bytes of a range within one block.\<close>

lemma fbyte_block:
  assumes "length (vblk v (faddr v i (o1 div 512))) = 512" "o1 mod 512 + m \<le> 512"
  shows "take m (drop (o1 mod 512) (vblk v (faddr v i (o1 div 512)))) = map (fbyte v i) [o1..<o1 + m]"
proof (rule nth_equalityI)
  show "length (take m (drop (o1 mod 512) (vblk v (faddr v i (o1 div 512))))) = length (map (fbyte v i) [o1..<o1 + m])"
    using assms by simp
  fix k
  assume "k < length (take m (drop (o1 mod 512) (vblk v (faddr v i (o1 div 512)))))"
  then have k: "k < m" "o1 mod 512 + k < 512" using assms by simp_all
  have "o1 + k = 512 * (o1 div 512) + (o1 mod 512 + k)" by simp
  then have "(o1 + k) div 512 = o1 div 512" "(o1 + k) mod 512 = o1 mod 512 + k"
    using k(2) by (metis div_mult_self4 div_less add_0_right zero_neq_numeral, metis mod_mult_self4 mod_less)
  then show "take m (drop (o1 mod 512) (vblk v (faddr v i (o1 div 512)))) ! k = map (fbyte v i) [o1..<o1 + m] ! k"
    using k assms by (simp add: fbyte_def)
qed

lemma unat_div512 [simp]: "unat ((x :: u32) div 512) = unat x div 512" "unat (x mod 512) = unat x mod 512"
  by (simp_all add: unat_div unat_mod)

lemma unat_chunk: "unat (min n (512 - off mod 512 :: u32)) = min (unat n) (512 - unat off mod 512)"
proof -
  have "off mod 512 \<le> 512"
    by (simp add: word_le_nat_alt)
  then have "unat (512 - off mod 512 :: u32) = 512 - unat off mod 512"
    by (simp add: unat_sub)
  then show ?thesis
    by (simp add: min_def word_le_nat_alt)
qed

lemma readi_loop_ok:
  assumes "qt c {} s t" and "QI c p s" and "card (vdirty (view s)) < length (bufs s)"
    and "mapped (view s) (inodes s ! ip) m" "unat off + unat n \<le> 512 * m"
  shows "\<exists>s' t'. readi_loop ip off n t = Ret (map (fbyte (view s) (inodes s ! ip)) [unat off..<unat off + unat n]) t' \<and>
    qt c {} s' t' \<and> QI c p s' \<and> bframe s s' \<and> view s' = view s"
  using assms
proof (induction "unat n" arbitrary: off n s t rule: less_induct)
  case less
  note q = less.prems(1) and inv = less.prems(2) and r = less.prems(3) and mp = less.prems(4) and le = less.prems(5)
  let ?i = "inodes s ! ip" and ?v = "view s"
  show ?case
  proof (cases "n = 0")
    case True
    then show ?thesis using q inv by (intro exI [of _ s] exI [of _ t]) simp
  next
    case False
    then have n0: "0 < unat n" by (simp add: unat_gt_0)
    define k where "k = min n (512 - off mod 512)"
    have uk: "unat k = min (unat n) (512 - unat off mod 512)" unfolding k_def by (rule unat_chunk)
    have k: "0 < unat k" "unat k \<le> unat n" "unat off mod 512 + unat k \<le> 512"
      using n0 mod_less_divisor [of 512 "unat off"] by (auto simp: uk min_def simp del: mod_less_divisor)
    have big: "unat off + unat n < 4294967296"
      using le mp by (simp add: mapped_def MAXFILE_def NDIRECT_def NINDIRECT_def BSIZE_def)
    have ok: "unat (off + k) = unat off + unat k" "unat (n - k) = unat n - unat k"
      using big k by (simp_all add: unat_add32_small unat_sub word_le_nat_alt)
    have bm: "unat (off div 512) < m" using le n0 by (simp add: less_mult_imp_div_less)
    obtain s1 t1 where 1: "bmap ip (off div 512) t = Ret (faddr ?v ?i (unat (off div 512))) t1" "qt c {} s1 t1" "QI c p s1"
      "bframe s s1" "view s1 = ?v"
      using q inv r mp bm by (rule bmap_ok)
    let ?a = "faddr ?v ?i (unat (off div 512))"
    note d = mappedD [OF mp bm]
    have r1: "card (vdirty (view s1)) < length (bufs s1)" "unat ?a < length (vdisk (view s1))"
      using r d bframe_len [OF 1(4)] 1(5) by simp_all
    obtain i t2 s3 t3 where 2: "bread 1 ?a t1 = Ret i t2" "data (bufs t2 ! i) = vblk (view s1) ?a" "brelse i t2 = Ret () t3"
      "qt c {} s3 t3" "QI c p s3" "bframe s1 s3" "view s3 = view s1" "\<exists>s1'. qt c {} s1' t2 \<and> bframe s1 s1'"
      using 1(2,3) r1(2,1) by (rule read_block)
    have f3: "bframe s s3" by (rule bframe_trans [OF 1(4) 2(6)])
    have i3: "inodes s3 = inodes s" using bframe_inodes [OF f3] by simp
    have "\<exists>s' t'. readi_loop ip (off + k) (n - k) t3 =
        Ret (map (fbyte (view s3) (inodes s3 ! ip)) [unat (off + k)..<unat (off + k) + unat (n - k)]) t' \<and>
      qt c {} s' t' \<and> QI c p s' \<and> bframe s3 s' \<and> view s' = view s3"
      using k ok le r mp bframe_len [OF f3] 2(4,5,7) 1(5) i3 by (intro less.hyps) simp_all
    then obtain s4 t4 where 4: "readi_loop ip (off + k) (n - k) t3 =
        Ret (map (fbyte ?v ?i) [unat off + unat k..<unat off + unat n]) t4" "qt c {} s4 t4" "QI c p s4" "bframe s3 s4" "view s4 = ?v"
      using ok k 2(7) 1(5) i3 by auto
    have D: "take (unat k) (drop (unat (off mod 512)) (data (bufs t2 ! i))) = map (fbyte ?v ?i) [unat off..<unat off + unat k]"
      using fbyte_block [of ?v ?i "unat off" "unat k"] d(3) k(3) 2(2) 1(5) by simp
    have it: "idev (inodes t1 ! ip) = 1"
      using qt_inodes [OF 1(2)] bframe_inodes [OF 1(4)] d(5) by simp
    have "readi_loop ip off n t = Ret (map (fbyte ?v ?i) [unat off..<unat off + unat k] @
        map (fbyte ?v ?i) [unat off + unat k..<unat off + unat n]) t4"
      using False 1(1) 2(1,3) 4(1) D it by (subst readi_loop.simps) (simp add: Let_def k_def [symmetric])
    also have "map (fbyte ?v ?i) [unat off..<unat off + unat k] @ map (fbyte ?v ?i) [unat off + unat k..<unat off + unat n]
        = map (fbyte ?v ?i) [unat off..<unat off + unat n]"
      using k(2) upt_add_eq_append [of "unat off" "unat off + unat k" "unat n - unat k"] by simp
    finally show ?thesis
      using 4(2,3,5) bframe_trans [OF f3 4(4)] by blast
  qed
qed

section \<open>Writing\<close>

text \<open>The number of blocks that \<open>len\<close> bytes from \<open>off\<close> on touch.\<close>

definition chunks :: "nat \<Rightarrow> nat \<Rightarrow> nat" where
  "chunks off len = (if len = 0 then 0 else (off mod 512 + len + 511) div 512)"

lemma chunks_next:
  assumes "0 < len" "k = min len (512 - off mod 512)"
  shows "chunks off len = Suc (chunks (off + k) (len - k))"
proof (cases "len \<le> 512 - off mod 512")
  case True
  then have "(off mod 512 + len + 511) div 512 = Suc 0"
    using assms(1) by (intro div_nat_eqI) simp_all
  then show ?thesis using assms True by (simp add: chunks_def min_def)
next
  case False
  have lt: "off mod 512 < 512" by simp
  have k: "off mod 512 + k = 512" using False assms(2) lt by simp
  then have "(off + k) mod 512 = 0" by (metis mod_add_left_eq mod_self)
  then have "chunks (off + k) (len - k) = (len - k + 511) div 512" using False assms(2) by (simp add: chunks_def)
  moreover have "off mod 512 + len + 511 = 512 + (len - k + 511)" using k False assms(2) by simp
  moreover have "chunks off len = (off mod 512 + len + 511) div 512" using assms(1) by (simp add: chunks_def)
  moreover have "(512 + (len - k + 511)) div 512 = Suc ((len - k + 511) div 512)" by (rule div_add_self1 [THEN trans]) simp_all
  ultimately show ?thesis by (simp only:)
qed

text \<open>Contents \<open>xs\<close> put into block \<open>d\<close> at \<open>o1\<close>.\<close>

definition splice :: "nat \<Rightarrow> u8 list \<Rightarrow> u8 list \<Rightarrow> u8 list" where
  "splice o1 xs d = take o1 d @ xs @ drop (o1 + length xs) d"

lemma splice_nth:
  assumes "o1 + length xs \<le> length d" "j < length d"
  shows "splice o1 xs d ! j = (if o1 \<le> j \<and> j < o1 + length xs then xs ! (j - o1) else d ! j)"
  using assms by (auto simp: splice_def nth_append min_def)

lemma length_splice: "o1 + length xs \<le> length d \<Longrightarrow> length (splice o1 xs d) = length d"
  by (simp add: splice_def)

lemma mapped_update:
  assumes mp: "mapped v i m" and b: "b < m" and l: "length d = 512"
    and v': "v' = v\<lparr>vblk := (vblk v)(faddr v i b := d), vdirty := D\<rparr>"
  shows "\<And>k. k < m \<Longrightarrow> faddr v' i k = faddr v i k" "mapped v' i m"
    "\<And>k. k < 512 * m \<Longrightarrow> fbyte v' i k = (if k div 512 = b then d ! (k mod 512) else fbyte v i k)"
proof -
  show f: "\<And>k. k < m \<Longrightarrow> faddr v' i k = faddr v i k"
  proof -
    fix k assume k: "k < m"
    show "faddr v' i k = faddr v i k"
    proof (cases "k < NDIRECT")
      case False
      then have "addrs i ! NDIRECT \<noteq> faddr v i b" using mp k b by (auto simp: mapped_def)
      then show ?thesis using False by (simp add: faddr_def v')
    qed (simp add: faddr_def)
  qed
  then have im: "faddr v' i ` {..<m} = faddr v i ` {..<m}" by (intro image_cong) simp_all
  have "inj_on (faddr v' i) {..<m}" using mp f by (simp add: mapped_def inj_on_def)
  then show "mapped v' i m"
    using mp f l unfolding mapped_def im by (auto simp: v')
  have inj: "\<And>j. j < m \<Longrightarrow> j \<noteq> b \<Longrightarrow> faddr v i j \<noteq> faddr v i b" using mp b by (auto simp: mapped_def inj_on_def)
  show "fbyte v' i k = (if k div 512 = b then d ! (k mod 512) else fbyte v i k)" if "k < 512 * m" for k
  proof -
    have "k div 512 < m" using that by (simp add: less_mult_imp_div_less)
    then show ?thesis using inj [of "k div 512"] f by (auto simp: fbyte_def) (simp_all add: v')
  qed
qed

text \<open>The byte at \<open>k\<close> after the bytes \<open>xs\<close> were written from \<open>o1\<close> on.\<close>

definition patched :: "(nat \<Rightarrow> u8) \<Rightarrow> nat \<Rightarrow> u8 list \<Rightarrow> nat \<Rightarrow> u8" where
  "patched f o1 xs k = (if o1 \<le> k \<and> k < o1 + length xs then xs ! (k - o1) else f k)"

lemma patched_append: "patched (patched f o1 xs) (o1 + length xs) ys k = patched f o1 (xs @ ys) k"
  by (auto simp: patched_def nth_append)

lemma fbyte_splice:
  assumes mp: "mapped v i m" and b: "o1 div 512 < m" and x: "o1 mod 512 + length xs \<le> 512"
    and v': "v' = v\<lparr>vblk := (vblk v)(faddr v i (o1 div 512) := splice (o1 mod 512) xs (vblk v (faddr v i (o1 div 512)))), vdirty := D\<rparr>"
    and k: "k < 512 * m"
  shows "fbyte v' i k = patched (fbyte v i) o1 xs k"
proof -
  let ?d = "vblk v (faddr v i (o1 div 512))"
  have l: "length ?d = 512" using mappedD(3) [OF mp b] .
  then have e: "fbyte v' i k = (if k div 512 = o1 div 512 then splice (o1 mod 512) xs ?d ! (k mod 512) else fbyte v i k)"
    using x by (intro mapped_update(3) [OF mp b _ v' k]) (simp add: length_splice)
  have o1: "o1 = 512 * (o1 div 512) + o1 mod 512" and kk: "k = 512 * (k div 512) + k mod 512" by simp_all
  show ?thesis
  proof (cases "k div 512 = o1 div 512")
    case True
    have "(o1 mod 512 \<le> k mod 512) = (o1 \<le> k)" "(k mod 512 < o1 mod 512 + length xs) = (k < o1 + length xs)"
      "k mod 512 - o1 mod 512 = k - o1"
      using True o1 kk by linarith+
    then show ?thesis
      using True e splice_nth [of "o1 mod 512" xs ?d "k mod 512"] l x by (simp add: patched_def fbyte_def)
  next
    case False
    have "\<not> (o1 \<le> k \<and> k < o1 + length xs)"
    proof
      assume a: "o1 \<le> k \<and> k < o1 + length xs"
      then have "o1 div 512 \<le> k div 512" by (simp add: div_le_mono)
      moreover have "k < 512 * (o1 div 512) + 512" using conjunct2 [OF a] x o1 by linarith
      then have "k < 512 * Suc (o1 div 512)" by simp
      then have "k div 512 < Suc (o1 div 512)" by (simp add: less_mult_imp_div_less)
      ultimately show False using False by simp
    qed
    then show ?thesis using e False by (auto simp: patched_def)
  qed
qed

lemma writei_loop_ok:
  assumes "qt c {} s t" and "QI c p s" and "log_room (chunks (unat off) (length src) + j) s"
    and "mapped (view s) (inodes s ! ip) m" "unat off + length src \<le> 512 * m"
  shows "\<exists>s' t'. writei_loop ip off src t = Ret (off + of_nat (length src)) t' \<and> qt c {} s' t' \<and> QI c p s' \<and> lframe s s' \<and>
    log_room j s' \<and> mapped (view s') (inodes s ! ip) m \<and> vdisk (view s') = vdisk (view s) \<and>
    (\<forall>k < 512 * m. fbyte (view s') (inodes s ! ip) k = patched (fbyte (view s) (inodes s ! ip)) (unat off) src k)"
  using assms
proof (induction "length src" arbitrary: off src s t rule: less_induct)
  case less
  note q = less.prems(1) and inv = less.prems(2) and r = less.prems(3) and mp = less.prems(4) and le = less.prems(5)
  let ?i = "inodes s ! ip" and ?v = "view s"
  show ?case
  proof (cases "src = []")
    case True
    have "lframe s s" by (rule bframe_lframe) simp
    then show ?thesis
      using True q inv r mp by - (rule exI [of _ s], rule exI [of _ t], auto simp: chunks_def patched_def)
  next
    case False
    define k where "k = min (length src) (512 - unat off mod 512)"
    have k: "0 < k" "k \<le> length src" "unat off mod 512 + k \<le> 512"
      using False mod_less_divisor [of 512 "unat off"] by (auto simp: k_def min_def simp del: mod_less_divisor)
    have ch: "chunks (unat off) (length src) = Suc (chunks (unat off + k) (length src - k))"
      using False by (intro chunks_next) (simp_all add: k_def)
    have big: "unat off + length src < 4294967296"
      using le mp by (simp add: mapped_def MAXFILE_def NDIRECT_def NINDIRECT_def BSIZE_def)
    have ok: "unat (off + of_nat k) = unat off + k"
      using big k by (simp add: unat_add32_small unat_of_nat32)
    have "unat off < 512 * m" using le k by linarith
    then have bm: "unat (off div 512) < m" by (simp add: less_mult_imp_div_less)
    obtain s1 t1 where 1: "bmap ip (off div 512) t = Ret (faddr ?v ?i (unat (off div 512))) t1" "qt c {} s1 t1" "QI c p s1"
      "bframe s s1" "view s1 = ?v"
      using q inv log_room_card [OF r] mp bm by (rule bmap_ok)
    let ?a = "faddr ?v ?i (unat (off div 512))"
    note d = mappedD [OF mp bm]
    have a1: "unat ?a < length (vdisk (view s1))" using d(2) 1(5) by simp
    have r1: "log_room (Suc (chunks (unat off + k) (length src - k) + j)) s1"
      using r bframe_log [OF 1(4)] bframe_len [OF 1(4)] 1(5) by (simp add: log_room_def log_inv_def ch)
    let ?f = "splice (unat off mod 512) (take k src)"
    obtain i t2 t3 s4 t4 where 2: "bread 1 ?a t1 = Ret i t2" "data (bufs t2 ! i) = vblk (view s1) ?a" "\<exists>s1'. qt c {} s1' t2 \<and> bframe s1 s1'"
      "log_write i (upd_buf i (\<lambda>b. b\<lparr>data := ?f (data b)\<rparr>) t2) = Ret () t3" "brelse i t3 = Ret () t4"
      "qt c {} s4 t4" "QI c p s4" "lframe s1 s4" "log_room (chunks (unat off + k) (length src - k) + j) s4"
      "view s4 = (view s1)\<lparr>vblk := (vblk (view s1))(?a := ?f (vblk (view s1) ?a)), vdirty := insert ?a (vdirty (view s1))\<rparr>"
      using 1(2,3) a1 r1 by (rule update_block)
    have f4: "lframe s s4" by (rule lframe_trans [OF bframe_lframe [OF 1(4)] 2(8)])
    have i4: "inodes s4 = inodes s" using lframe_inodes [OF f4] by simp
    have v4: "view s4 = ?v\<lparr>vblk := (vblk ?v)(faddr ?v ?i (unat off div 512) := ?f (vblk ?v (faddr ?v ?i (unat off div 512)))),
        vdirty := insert ?a (vdirty ?v)\<rparr>"
      using 2(10) 1(5) by simp
    have m4: "mapped (view s4) ?i m"
      using d(3) k bm by (intro mapped_update(2) [OF mp _ _ v4]) (simp_all add: length_splice)
    have b4: "fbyte (view s4) ?i j' = patched (fbyte ?v ?i) (unat off) (take k src) j'" if "j' < 512 * m" for j'
      using bm k that by (intro fbyte_splice [OF mp _ _ v4]) simp_all
    have "\<exists>s' t'. writei_loop ip (off + of_nat k) (drop k src) t4 = Ret (off + of_nat k + of_nat (length (drop k src))) t' \<and> qt c {} s' t' \<and>
      QI c p s' \<and> lframe s4 s' \<and> log_room j s' \<and> mapped (view s') (inodes s4 ! ip) m \<and> vdisk (view s') = vdisk (view s4) \<and>
      (\<forall>k' < 512 * m. fbyte (view s') (inodes s4 ! ip) k' =
         patched (fbyte (view s4) (inodes s4 ! ip)) (unat (off + of_nat k)) (drop k src) k')"
      using k ok le 2(6,7,9) m4 i4 by (intro less.hyps) simp_all
    then obtain s5 t5 where 5: "writei_loop ip (off + of_nat k) (drop k src) t4 = Ret (off + of_nat (length src)) t5" "qt c {} s5 t5"
      "QI c p s5" "lframe s4 s5" "log_room j s5" "mapped (view s5) ?i m" "vdisk (view s5) = vdisk ?v"
      "\<forall>k' < 512 * m. fbyte (view s5) ?i k' = patched (fbyte (view s4) ?i) (unat off + k) (drop k src) k'"
      using k ok i4 v4 by (auto simp: of_nat_diff)
    have "patched (fbyte (view s4) ?i) (unat off + k) (drop k src) k' = patched (fbyte ?v ?i) (unat off) src k'" if "k' < 512 * m" for k'
    proof -
      have "patched (fbyte (view s4) ?i) (unat off + k) (drop k src) k' =
          patched (patched (fbyte ?v ?i) (unat off) (take k src)) (unat off + k) (drop k src) k'"
        using b4 [OF that] by (simp add: patched_def)
      also have "\<dots> = patched (fbyte ?v ?i) (unat off) src k'"
        using patched_append [of "fbyte ?v ?i" "unat off" "take k src" "drop k src"] k by simp
      finally show ?thesis .
    qed
    moreover have "idev (inodes t1 ! ip) = 1"
      using qt_inodes [OF 1(2)] bframe_inodes [OF 1(4)] d(5) by simp
    then have "writei_loop ip off src t = Ret (off + of_nat (length src)) t5"
      using False 1(1) 2(1,4,5) 5(1) k
      by (subst writei_loop.simps) (simp add: Let_def k_def [symmetric] splice_def)
    ultimately show ?thesis
      using 5 lframe_trans [OF f4 5(4)] by (intro exI [of _ s5] exI [of _ t5]) simp
  qed
qed

section \<open>Properties\<close>

lemma sint_unat: "unat x < 2 ^ 31 \<Longrightarrow> sint (x :: u32) = int (unat x)"
proof -
  assume "unat x < 2 ^ 31"
  then have "int (unat x) < int (2 ^ 31)" by (simp only: of_nat_less_iff)
  then have "uint x < 2 ^ 31" by simp
  then have "signed_take_bit 31 (uint x) = uint x"
    by (intro signed_take_bit_int_eq_self order_trans [OF _ uint_ge_0]) simp_all
  then show ?thesis
    by (simp add: sint_uint)
qed

lemma readi_ok:
  assumes q: "qt c {} s t" and inv: "QI c p s" and r: "card (vdirty (view s)) < length (bufs s)"
    and ty: "itype (inodes s ! ip) \<noteq> T_DEV" and mp: "mapped (view s) (inodes s ! ip) m" and sz: "unat (isize (inodes s ! ip)) \<le> 512 * m"
    and o: "unat off + unat n < 2 ^ 32" "unat off \<le> unat (isize (inodes s ! ip))"
    and k: "k = min (unat n) (unat (isize (inodes s ! ip)) - unat off)"
  shows "\<exists>s' t'. readi ip off n t = Ret (int k, map (fbyte (view s) (inodes s ! ip)) [unat off..<unat off + k]) t' \<and>
    qt c {} s' t' \<and> QI c p s' \<and> bframe s s' \<and> view s' = view s"
proof -
  let ?i = "inodes s ! ip"
  define n' where "n' = (if off + n > isize ?i then isize ?i - off else n)"
  have on: "unat (off + n) = unat off + unat n" using o(1) by (simp add: unat_add32_small)
  have n': "unat n' = k"
    using o(2) by (auto simp: n'_def k word_less_nat_alt on unat_sub word_le_nat_alt)
  have le: "unat off + unat n' \<le> 512 * m" using sz k o(2) n' by simp
  have "m \<le> MAXFILE" using mp by (simp add: mapped_def)
  then have "k < 2 ^ 31"
    using le n' by (simp add: MAXFILE_def NDIRECT_def NINDIRECT_def BSIZE_def)
  then have s: "sint n' = int k"
    using sint_unat [of n'] n' by simp
  obtain s' t' where 1: "readi_loop ip off n' t = Ret (map (fbyte (view s) ?i) [unat off..<unat off + unat n']) t'"
    "qt c {} s' t'" "QI c p s'" "bframe s s'" "view s' = view s"
    using readi_loop_ok [OF q inv r mp le] by blast
  have "\<not> off > isize ?i" "\<not> off + n < off"
    using o on by (simp_all add: word_less_nat_alt)
  then have "readi ip off n t = Ret (int k, map (fbyte (view s) ?i) [unat off..<unat off + k]) t'"
    using ty 1(1) s n' qt_inodes [OF q] by (simp add: readi_def Let_def n'_def [symmetric])
  then show ?thesis using 1 by blast
qed

text \<open>
  C21. \<open>readi\<close> returns the contents of a file: on an inode whose blocks are mapped it refuses an offset
  beyond the size and a range that wraps around, and otherwise returns the bytes of the file from
  the offset on, \<open>n\<close> of them or up to the size, taken through the direct and the indirect blocks;
  the blocks as the kernel sees them are unchanged.
\<close>

theorem readi_reads:
  assumes inv: "QI c p s" and r: "card (vdirty (view s)) < length (bufs s)"
    and ty: "itype (inodes s ! ip) \<noteq> T_DEV" and mp: "mapped (view s) (inodes s ! ip) m"
    and sz: "unat (isize (inodes s ! ip)) \<le> 512 * m"
  shows "if unat off > unat (isize (inodes s ! ip)) \<or> unat off + unat n \<ge> 2 ^ 32
    then readi ip off n s = Ret (-1, []) s
    else \<exists>t. view t = view s \<and>
      readi ip off n s =
        (let k = min (unat n) (unat (isize (inodes s ! ip)) - unat off)
         in Ret (int k, map (fbyte (view s) (inodes s ! ip)) [unat off..<unat off + k]) t)"
proof (cases "unat off > unat (isize (inodes s ! ip)) \<or> unat off + unat n \<ge> 2 ^ 32")
  case True
  have "off + n < off" if "unat off + unat n \<ge> 2 ^ 32"
  proof -
    have lt: "unat off + unat n - 4294967296 < 4294967296"
      using unat_lt2p32 [of off] unat_lt2p32 [of n] by linarith
    have "(unat off + unat n) mod 4294967296 = unat off + unat n - 4294967296"
      using that lt by (simp add: le_mod_geq)
    then have "unat (off + n) = unat off + unat n - 4294967296" by (simp only: unat_add32)
    then have "unat (off + n) < unat off" using unat_lt2p32 [of n] that [simplified] by linarith
    then show ?thesis by (simp add: word_less_nat_alt)
  qed
  then have "readi ip off n s = Ret (-1, []) s"
    using True ty by (auto simp: readi_def Let_def word_less_nat_alt)
  then show ?thesis using True by auto
next
  case False
  have q: "qt c {} s s" using inv by (intro qt_start) (simp add: QI_def BI_def kidle_def)
  obtain s' t' where 1: "readi ip off n s = Ret (int (min (unat n) (unat (isize (inodes s ! ip)) - unat off)),
      map (fbyte (view s) (inodes s ! ip)) [unat off..<unat off + min (unat n) (unat (isize (inodes s ! ip)) - unat off)]) t'"
    "qt c {} s' t'" "view s' = view s"
    using readi_ok [OF q inv r ty mp sz _ _ refl, of off n] False by auto
  then show ?thesis
    using False qt_view [OF 1(2)] by (auto simp: Let_def)
qed

text \<open>
  C8. What \<open>writei\<close> puts into a file \<open>readi\<close> returns: within the size of a file whose blocks are mapped,
  and with room in the log for the blocks that the range touches, \<open>writei\<close> returns the number of
  bytes; a \<open>readi\<close> of the range then returns those bytes, every other byte of the file is as
  before, and nothing has been written to the disk yet.
\<close>

theorem writei_readi_roundtrip:
  assumes inv: "QI c p s" and r: "log_room (chunks (unat off) (length src)) s"
    and ty: "itype (inodes s ! ip) \<noteq> T_DEV" and mp: "mapped (view s) (inodes s ! ip) m"
    and sz: "unat (isize (inodes s ! ip)) \<le> 512 * m" "unat off + length src \<le> unat (isize (inodes s ! ip))"
  shows "\<exists>t t'. writei ip src off s = Ret (int (length src)) t \<and>
    readi ip off (of_nat (length src)) t = Ret (int (length src), src) t' \<and>
    (\<forall>k < 512 * m. k < unat off \<or> unat off + length src \<le> k \<longrightarrow>
       fbyte (view t) (inodes t ! ip) k = fbyte (view s) (inodes s ! ip) k) \<and>
    memdisk t = memdisk s"
proof -
  let ?i = "inodes s ! ip"
  have q: "qt c {} s s" using inv by (intro qt_start) (simp add: QI_def BI_def kidle_def)
  have le: "unat off + length src \<le> 512 * m" using sz by simp
  have mM: "m \<le> MAXFILE" using mp by (simp add: mapped_def)
  then have big: "unat off + length src \<le> 71680" using le by (simp add: MAXFILE_def NDIRECT_def NINDIRECT_def BSIZE_def)
  obtain s' t where 1: "writei_loop ip off src s = Ret (off + of_nat (length src)) t" "qt c {} s' t" "QI c p s'" "lframe s s'"
    "log_room 0 s'" "mapped (view s') ?i m" "vdisk (view s') = vdisk (view s)"
    "\<forall>k < 512 * m. fbyte (view s') ?i k = patched (fbyte (view s) ?i) (unat off) src k"
    using writei_loop_ok [OF q inv _ mp le, of 0] r by auto
  have n: "unat (of_nat (length src) :: u32) = length src" "sint (of_nat (length src) :: u32) = int (length src)"
    using big sint_unat [of "of_nat (length src)"] by (simp_all add: unat_of_nat32)
  have on: "unat (off + of_nat (length src)) = unat off + length src"
    using big n by (simp add: unat_add32_small)
  have i: "inodes s' = inodes s" "inodes t = inodes s"
    using lframe_inodes [OF 1(4)] qt_inodes [OF 1(2)] by simp_all
  have "\<not> off > isize ?i" "\<not> off + of_nat (length src) < off" "\<not> off + of_nat (length src) > of_nat (MAXFILE * BSIZE)"
    "\<not> off + of_nat (length src) > isize ?i"
    using sz on big by (simp_all add: word_less_nat_alt MAXFILE_def NDIRECT_def NINDIRECT_def BSIZE_def)
  then have w: "writei ip src off s = Ret (int (length src)) t"
    using ty 1(1) n(2) i by (simp add: writei_def Let_def)
  have pr: "unat off + unat (of_nat (length src) :: u32) < 2 ^ 32" "unat off \<le> unat (isize (inodes s' ! ip))"
    "length src = min (unat (of_nat (length src) :: u32)) (unat (isize (inodes s' ! ip)) - unat off)"
    "itype (inodes s' ! ip) \<noteq> T_DEV" "mapped (view s') (inodes s' ! ip) m" "unat (isize (inodes s' ! ip)) \<le> 512 * m"
    using big n sz i ty 1(6) by simp_all
  obtain t' where 2: "readi ip off (of_nat (length src)) t =
      Ret (int (length src), map (fbyte (view s') ?i) [unat off..<unat off + length src]) t'"
    using readi_ok [OF 1(2,3) log_room_card [OF 1(5)] pr(4-6) pr(1-3)] i by auto
  have "map (fbyte (view s') ?i) [unat off..<unat off + length src] = src"
    using 1(8) le by (intro nth_equalityI) (simp_all add: patched_def)
  moreover have "fbyte (view t) (inodes t ! ip) k = fbyte (view s) ?i k"
    if "k < 512 * m" "k < unat off \<or> unat off + length src \<le> k" for k
    using 1(8) that qt_view [OF 1(2)] i by (auto simp: patched_def)
  moreover have "memdisk t = memdisk s"
    using 1(7) qt_bufs(3) [OF 1(2)] by (simp add: view_disk)
  ultimately show ?thesis using w 2 by auto
qed

section \<open>An example\<close>

text \<open>A file of one block, which is block 1 of the disk.\<close>

definition inode1 :: inode where
  "inode1 = \<lparr>idev = 1, inum = 2, iref = 1, ilk = nolock, ivalid = True, itype = 2, imajor = 0, iminor = 0, inlink = 1,
     isize = 512, addrs = 1 # replicate 12 0\<rparr>"

definition file0 :: icache where
  "file0 = cache0 unused0 [replicate BSIZE 0, replicate BSIZE 5, replicate BSIZE 0, replicate BSIZE 9]
     \<lparr>log_start = 2, log_size = 3, outstanding = 1, committing = False, log_dev = 1, lh_n = 0,
      lh_block = replicate LOGSIZE 0, sb = superblock_of [], inodes = [inode1], devsw = []\<rparr>"

lemma file0_sel [simp]:
  "bufs file0 = [unused0, unused1]" "memdisk file0 = [replicate BSIZE 0, replicate BSIZE 5, replicate BSIZE 0, replicate BSIZE 9]"
  "lh_n file0 = 0" "log_size file0 = 3" "outstanding file0 = 1" "lh_block file0 = replicate LOGSIZE 0" "inodes file0 = [inode1]"
  by (simp_all add: file0_def) (simp_all add: cache0_def con0_def)

lemma file0_BI: "BI 0 0 file0"
  unfolding file0_def by (rule cache0_BI) (simp_all add: buf_ok_def)

lemma file0_view: "vdirty (view file0) = {}" "vheld (view file0) = {}" "vdisk (view file0) = memdisk file0"
  "vblk (view file0) 1 = replicate BSIZE 5"
  by (auto simp: view_def less_Suc_eq nth_Cons' blk_def)

lemma file0_ok: "QI 0 0 file0" "log_room 1 file0" "mapped (view file0) (inodes file0 ! 0) 1" "card (vdirty (view file0)) < length (bufs file0)"
proof -
  show "QI 0 0 file0" using file0_BI file0_view by (simp add: QI_def)
  show "log_room 1 file0"
    by (simp add: log_room_def log_inv_def file0_view(1) LOGSIZE_def MAXOPBLOCKS_def)
  show "mapped (view file0) (inodes file0 ! 0) 1"
    by (simp add: mapped_def faddr_def inode1_def file0_view NDIRECT_def MAXFILE_def BSIZE_def inj_on_def)
  show "card (vdirty (view file0)) < length (bufs file0)" by (simp add: file0_view(1))
qed

theorem readi_reads_witness: "\<exists>t. readi 0 510 10 file0 = Ret (2, [5, 5]) t"
proof -
  have "map (fbyte (view file0) inode1) [510..<512] = [5, 5]"
    by (simp add: fbyte_def faddr_def inode1_def NDIRECT_def file0_view(4) upt_rec BSIZE_def)
  then show ?thesis
    using readi_reads [OF file0_ok(1,4) _ file0_ok(3), of 510 10] by (auto simp: inode1_def T_DEV_def Let_def)
qed

theorem writei_readi_roundtrip_witness:
  "\<exists>t t'. writei 0 [1, 2, 3] 100 file0 = Ret 3 t \<and> readi 0 100 3 t = Ret (3, [1, 2, 3]) t'"
  using writei_readi_roundtrip [OF file0_ok(1) _ _ file0_ok(3), of 100 "[1, 2, 3]"] file0_ok(2)
  by (auto simp: inode1_def T_DEV_def chunks_def)

end
