(* ===== verification/Alloc.thy ===== *)
theory Alloc
  imports Content
begin

text \<open>
  Facts on fs.c: the allocation of blocks in the bitmap, and inodes on the disk, with what \<open>iupdate\<close> writes of them
  and \<open>ilock\<close> reads.
\<close>

section \<open>The bitmap\<close>

lemma bit_clear_iff: "bit_clear d bi \<longleftrightarrow> \<not> bit (d ! (bi div 8)) (bi mod 8)"
  by (simp add: bit_clear_def bit_mask_def push_bit_of_1 and_exp_eq_0_iff_not_bit)

definition mark_bit :: "nat \<Rightarrow> u8 list \<Rightarrow> u8 list" where
  "mark_bit bi d = d[bi div 8 := d ! (bi div 8) OR bit_mask bi]"

definition unmark_bit :: "nat \<Rightarrow> u8 list \<Rightarrow> u8 list" where
  "unmark_bit bi d = d[bi div 8 := d ! (bi div 8) AND NOT (bit_mask bi)]"

lemma div8_eq: "(j :: nat) div 8 = i div 8 \<Longrightarrow> j mod 8 = i mod 8 \<longleftrightarrow> j = i"
  by (metis div_mod_decomp)

lemma bit_clear_mark:
  assumes "bi div 8 < length d"
  shows "bit_clear (mark_bit bi d) j \<longleftrightarrow> j \<noteq> bi \<and> bit_clear d j"
    and "bit_clear (unmark_bit bi d) j \<longleftrightarrow> j = bi \<or> bit_clear d j"
  using assms div8_eq [of j bi]
  by (cases "j div 8 = bi div 8"; auto simp: bit_clear_iff mark_bit_def unmark_bit_def bit_mask_def push_bit_of_1 bit_simps nth_list_update)+

lemma length_mark [simp]: "length (mark_bit bi d) = length d" "length (unmark_bit bi d) = length d"
  by (simp_all add: mark_bit_def unmark_bit_def)

lemma BBLOCK_nat:
  assumes "b < 2 ^ 32" "b' < 2 ^ 32" "b div 4096 = b' div 4096"
  shows "BBLOCK (of_nat b) S = BBLOCK (of_nat b') S"
proof -
  have "unat ((of_nat b :: u32) div of_nat BPB) = unat ((of_nat b' :: u32) div of_nat BPB)"
    using assms by (simp add: unat_div unat_of_nat32 BPB_def BSIZE_def)
  then have "(of_nat b :: u32) div of_nat BPB = of_nat b' div of_nat BPB" by (rule iffD2 [OF word_eq_unat])
  then show ?thesis by (simp add: BBLOCK_def)
qed

definition blk_free :: "bview \<Rightarrow> superblock \<Rightarrow> nat \<Rightarrow> bool" where
  "blk_free v S b \<longleftrightarrow> bit_clear (vblk v (BBLOCK (of_nat b) S)) (b mod 4096)"

text \<open>The bitmap is on the disk, and the blocks of the bitmap are not free.\<close>

definition bitmap_ok :: "bview \<Rightarrow> superblock \<Rightarrow> bool" where
  "bitmap_ok v S \<longleftrightarrow>
     (\<forall>b < unat (sb_size S). unat (BBLOCK (of_nat b) S) < length (vdisk v) \<and> length (vblk v (BBLOCK (of_nat b) S)) = 512 \<and>
        (blk_free v S b \<longrightarrow> b < length (vdisk v) \<and> (\<forall>b' < unat (sb_size S). of_nat b \<noteq> BBLOCK (of_nat b') S)))"

section \<open>Allocation\<close>

lemma bzero_ok:
  assumes q: "qt c {} s t" and inv: "QI c p s" and a: "unat a < length (vdisk (view s))" and r: "log_room (Suc k) s"
  obtains s' t' where "bzero 1 a t = Ret () t'" "qt c {} s' t'" "QI c p s'" "lframe s s'" "log_room k s'"
    "view s' = (view s)\<lparr>vblk := (vblk (view s))(a := replicate BSIZE 0), vdirty := insert a (vdirty (view s))\<rparr>"
proof -
  obtain i t1 t2 s3 t3 where 1: "bread 1 a t = Ret i t1" "data (bufs t1 ! i) = vblk (view s) a" "\<exists>s1. qt c {} s1 t1 \<and> bframe s s1"
    "log_write i (upd_buf i (\<lambda>b. b\<lparr>data := (\<lambda>_. replicate BSIZE 0) (data b)\<rparr>) t1) = Ret () t2" "brelse i t2 = Ret () t3"
    "qt c {} s3 t3" "QI c p s3" "lframe s s3" "log_room k s3"
    "view s3 = (view s)\<lparr>vblk := (vblk (view s))(a := (\<lambda>_. replicate BSIZE 0) (vblk (view s) a)), vdirty := insert a (vdirty (view s))\<rparr>"
    using assms by (rule update_block)
  show ?thesis
  proof (rule that [OF _ 1(6-9)])
    show "bzero 1 a t = Ret () t3" using 1(1,4,5) by (simp add: bzero_def Let_def)
  qed (use 1(10) in simp)
qed

lemma log_room_frame:
  assumes "log_room k s" "bframe s s'" "view s' = view s"
  shows "log_room k s'"
  using assms bframe_log [OF assms(2)] bframe_len [OF assms(2)] by (simp add: log_room_def log_inv_def)

text \<open>What \<open>balloc\<close> leaves: block \<open>b\<close> is marked and zero.\<close>

definition allocated :: "nat \<Rightarrow> superblock \<Rightarrow> bview \<Rightarrow> bview" where
  "allocated b S v =
     (let a = BBLOCK (of_nat b) S
      in v\<lparr>vblk := (vblk v)(a := mark_bit (b mod 4096) (vblk v a), of_nat b := replicate BSIZE 0),
           vdirty := insert (of_nat b) (insert a (vdirty v))\<rparr>)"

text \<open>The bitmap block that covers the blocks from \<open>b0\<close> on has a free one.\<close>

lemma balloc_hit:
  assumes q: "qt c {} s t" and inv: "QI c p s" and r: "log_room (Suc (Suc j)) s" and bo: "bitmap_ok (view s) (sb s)"
    and b0: "b0 mod 4096 = 0" "b0 < unat (sb_size (sb s))"
    and sc: "scan (bit_clear (vblk (view s) (BBLOCK (of_nat b0) (sb s)))) [0..<min 4096 (unat (sb_size (sb s)) - b0)] = Some bi"
    and b: "b = b0 + bi"
  obtains s' t' where "balloc_loop 1 (b0 # bs) t = Ret (of_nat b) t'" "qt c {} s' t'" "QI c p s'" "lframe s s'" "log_room j s'"
    "view s' = allocated b (sb s) (view s)"
proof -
  let ?a = "BBLOCK (of_nat b0) (sb s)"
  have bi: "bi < 4096" "b < unat (sb_size (sb s))" "bit_clear (vblk (view s) ?a) bi"
    using scan_Some [OF sc] b by auto
  have s32: "unat (sb_size (sb s)) < 2 ^ 32" by simp
  have dv: "b div 4096 = b0 div 4096" "b mod 4096 = bi"
    using b0(1) bi(1) b by (auto simp: mod_eq_0_iff_dvd elim!: dvdE)
  have e: "BBLOCK (of_nat b) (sb s) = ?a"
    using bi(2) b0(2) s32 dv(1) by (intro BBLOCK_nat) (simp_all del: unat_lt2p32)
  have fr: "blk_free (view s) (sb s) b"
    unfolding blk_free_def e dv(2) by (rule bi(3))
  have a: "unat ?a < length (vdisk (view s))" using bo b0(2) by (simp add: bitmap_ok_def)
  have ub: "unat (of_nat b :: u32) = b" using bi(2) s32 by (intro unat_of_nat32) (simp del: unat_lt2p32)
  have bd: "unat (of_nat b :: u32) < length (vdisk (view s))" using bo bi(2) fr ub by (simp add: bitmap_ok_def)
  obtain i t1 t2 s3 t3 where 1: "bread 1 ?a t = Ret i t1" "data (bufs t1 ! i) = vblk (view s) ?a" "\<exists>s1. qt c {} s1 t1 \<and> bframe s s1"
    "log_write i (upd_buf i (\<lambda>b. b\<lparr>data := mark_bit bi (data b)\<rparr>) t1) = Ret () t2" "brelse i t2 = Ret () t3"
    "qt c {} s3 t3" "QI c p s3" "lframe s s3" "log_room (Suc j) s3"
    "view s3 = (view s)\<lparr>vblk := (vblk (view s))(?a := mark_bit bi (vblk (view s) ?a)), vdirty := insert ?a (vdirty (view s))\<rparr>"
    using q inv a r by (rule update_block)
  have b3: "unat (of_nat b :: u32) < length (vdisk (view s3))" using bd 1(10) by simp
  obtain s4 t4 where 2: "bzero 1 (of_nat b) t3 = Ret () t4" "qt c {} s4 t4" "QI c p s4" "lframe s3 s4" "log_room j s4"
    "view s4 = (view s3)\<lparr>vblk := (vblk (view s3))(of_nat b := replicate BSIZE 0), vdirty := insert (of_nat b) (vdirty (view s3))\<rparr>"
    using 1(6,7) b3 1(9) by (rule bzero_ok)
  have sb1: "sb t = sb s" "sb t1 = sb s"
    using qt_inodes [OF q] 1(3) qt_inodes bframe_inodes by metis+
  show ?thesis
  proof (rule that [OF _ 2(2,3) lframe_trans [OF 1(8) 2(4)] 2(5)])
    have "bnd (bzero 1 (of_nat (b0 + bi)) t3) (\<lambda>_ s. Ret (of_nat (b0 + bi)) s) = Ret (of_nat b) t4"
      using 2(1) b by simp
    then show "balloc_loop 1 (b0 # bs) t = Ret (of_nat b) t4"
      using 1(1,2,4,5) sc sb1 by (simp add: Let_def mark_bit_def BPB_def BSIZE_def del: of_nat_add)
  qed (use 2(6) 1(10) dv e in \<open>simp add: allocated_def Let_def\<close>)
qed

text \<open>It has none.\<close>

lemma balloc_miss:
  assumes q: "qt c {} s t" and inv: "QI c p s" and r: "log_room j s" and bo: "bitmap_ok (view s) (sb s)"
    and b0: "b0 < unat (sb_size (sb s))"
    and sc: "scan (bit_clear (vblk (view s) (BBLOCK (of_nat b0) (sb s)))) [0..<min 4096 (unat (sb_size (sb s)) - b0)] = None"
  obtains s' t' where "balloc_loop 1 (b0 # bs) t = balloc_loop 1 bs t'" "qt c {} s' t'" "QI c p s'" "bframe s s'" "view s' = view s"
proof -
  let ?a = "BBLOCK (of_nat b0) (sb s)"
  have a: "unat ?a < length (vdisk (view s))" using bo b0 by (simp add: bitmap_ok_def)
  obtain i t1 s2 t2 where 1: "bread 1 ?a t = Ret i t1" "data (bufs t1 ! i) = vblk (view s) ?a"
    "brelse i t1 = Ret () t2" "qt c {} s2 t2" "QI c p s2" "bframe s s2" "view s2 = view s" "\<exists>s1. qt c {} s1 t1 \<and> bframe s s1"
    using q inv a log_room_card [OF r] by (rule read_block)
  have sb1: "sb t = sb s" "sb t1 = sb s"
    using qt_inodes [OF q] 1(8) qt_inodes bframe_inodes by metis+
  show ?thesis
    by (rule that [OF _ 1(4-7)]) (use 1(1-3) sc sb1 in \<open>simp add: BPB_def BSIZE_def\<close>)
qed

text \<open>Block \<open>b\<close> is the first free one from \<open>b0\<close> on.\<close>

definition first_free :: "bview \<Rightarrow> superblock \<Rightarrow> nat \<Rightarrow> nat \<Rightarrow> bool" where
  "first_free v S b0 b \<longleftrightarrow> b0 \<le> b \<and> b < unat (sb_size S) \<and> blk_free v S b \<and> (\<forall>b'. b0 \<le> b' \<longrightarrow> b' < b \<longrightarrow> \<not> blk_free v S b')"

lemma blk_free_scan:
  assumes "b0 mod 4096 = 0" "i < min 4096 (unat (sb_size S) - b0)"
  shows "blk_free v S (b0 + i) = bit_clear (vblk v (BBLOCK (of_nat b0) S)) i"
proof -
  have s32: "unat (sb_size S) < 2 ^ 32" by simp
  have dv: "(b0 + i) div 4096 = b0 div 4096" "(b0 + i) mod 4096 = i"
    using assms by (auto simp: mod_eq_0_iff_dvd elim!: dvdE)
  then have "BBLOCK (of_nat (b0 + i)) S = BBLOCK (of_nat b0) S"
    using assms(2) s32 by (intro BBLOCK_nat) (auto simp del: unat_lt2p32)
  then show ?thesis by (simp only: blk_free_def dv)
qed

lemma first_free_scan:
  assumes f: "first_free v S b0 b" and b0: "b0 mod 4096 = 0"
  defines "m \<equiv> min 4096 (unat (sb_size S) - b0)"
  shows "scan (bit_clear (vblk v (BBLOCK (of_nat b0) S))) [0..<m] = (if b < b0 + 4096 then Some (b - b0) else None)"
proof -
  let ?P = "bit_clear (vblk v (BBLOCK (of_nat b0) S))"
  note fr = blk_free_scan [OF b0, of _ S v, folded m_def]
  have d: "b0 \<le> b" "b < unat (sb_size S)" "blk_free v S b" "\<And>b'. b0 \<le> b' \<Longrightarrow> b' < b \<Longrightarrow> \<not> blk_free v S b'"
    using f by (auto simp: first_free_def)
  show ?thesis
  proof (cases "scan ?P [0..<m]")
    case None
    then have np: "\<And>i. i < m \<Longrightarrow> \<not> ?P i" by (simp add: scan_None)
    have "\<not> b < b0 + 4096"
    proof
      assume "b < b0 + 4096"
      then have "b - b0 < m" using d by (simp add: m_def) linarith
      then show False using np fr [of "b - b0"] d by simp
    qed
    then show ?thesis using None by simp
  next
    case (Some i)
    then have i: "i < m" "?P i" "\<forall>j < i. \<not> ?P j"
      using scan_Some [OF Some] by auto
    have bf: "blk_free v S (b0 + i)" using i fr by simp
    have "\<not> b0 + i < b" using d(4) [of "b0 + i"] bf by auto
    moreover have "\<not> b < b0 + i"
    proof
      assume lt: "b < b0 + i"
      then have "b - b0 < i" using d(1) by simp
      then show False using i(1,3) fr [of "b - b0"] d(1,3) by simp
    qed
    ultimately have "b = b0 + i" by simp
    then show ?thesis using Some i(1) by (simp add: m_def)
  qed
qed

lemma balloc_loop_ok:
  assumes "qt c {} s t" and "QI c p s" and "log_room (Suc (Suc j)) s" and "bitmap_ok (view s) (sb s)"
    and "first_free (view s) (sb s) (k * 4096) b" and "unat (sb_size (sb s)) \<le> K * 4096"
  shows "\<exists>s' t'. balloc_loop 1 (map (\<lambda>k. k * 4096) [k..<K]) t = Ret (of_nat b) t' \<and> qt c {} s' t' \<and> QI c p s' \<and> lframe s s' \<and>
    log_room j s' \<and> view s' = allocated b (sb s) (view s)"
  using assms
proof (induction "K - k" arbitrary: k s t)
  case 0
  then show ?case by (simp add: first_free_def)
next
  case (Suc d)
  note q = Suc.prems(1) and inv = Suc.prems(2) and r = Suc.prems(3) and bo = Suc.prems(4) and ff = Suc.prems(5)
  let ?b0 = "k * 4096"
  have l: "map (\<lambda>k. k * 4096) [k..<K] = ?b0 # map (\<lambda>k. k * 4096) [Suc k..<K]"
    using Suc.hyps(2) by (simp add: upt_conv_Cons)
  have b0: "?b0 mod 4096 = 0" "?b0 < unat (sb_size (sb s))"
    using ff by (auto simp: first_free_def)
  note sc = first_free_scan [OF ff b0(1)]
  show ?case
  proof (cases "b < ?b0 + 4096")
    case True
    have "b = ?b0 + (b - ?b0)" using ff by (simp add: first_free_def)
    moreover have "scan (bit_clear (vblk (view s) (BBLOCK (of_nat ?b0) (sb s)))) [0..<min 4096 (unat (sb_size (sb s)) - ?b0)] = Some (b - ?b0)"
      using sc True by simp
    ultimately show ?thesis
      unfolding l using balloc_hit [OF q inv r bo b0] by metis
  next
    case False
    then have n: "scan (bit_clear (vblk (view s) (BBLOCK (of_nat ?b0) (sb s)))) [0..<min 4096 (unat (sb_size (sb s)) - ?b0)] = None"
      using sc by simp
    obtain s1 t1 where 1: "balloc_loop 1 (?b0 # map (\<lambda>k. k * 4096) [Suc k..<K]) t = balloc_loop 1 (map (\<lambda>k. k * 4096) [Suc k..<K]) t1"
      "qt c {} s1 t1" "QI c p s1" "bframe s s1" "view s1 = view s"
      using q inv r bo b0(2) n by (rule balloc_miss)
    have sb1: "sb s1 = sb s" using bframe_inodes [OF 1(4)] by simp
    have ff1: "first_free (view s) (sb s) (Suc k * 4096) b" using ff False by (simp add: first_free_def)
    have "\<exists>s' t'. balloc_loop 1 (map (\<lambda>k. k * 4096) [Suc k..<K]) t1 = Ret (of_nat b) t' \<and> qt c {} s' t' \<and> QI c p s' \<and> lframe s1 s' \<and>
        log_room j s' \<and> view s' = allocated b (sb s1) (view s1)"
      using 1 sb1 ff1 bo Suc.hyps(2) Suc.prems(6) log_room_frame [OF r 1(4,5)] by (intro Suc.hyps(1)) simp_all
    then show ?thesis
      unfolding l 1(1) using lframe_trans [OF bframe_lframe [OF 1(4)]] 1(5) sb1 by auto
  qed
qed

lemma allocated_free:
  assumes bo: "bitmap_ok v S" and b: "b < unat (sb_size S)" "blk_free v S b" and b': "b' < unat (sb_size S)"
  shows "blk_free (allocated b S v) S b' \<longleftrightarrow> b' \<noteq> b \<and> blk_free v S b'"
proof -
  let ?a = "BBLOCK (of_nat b) S" and ?a' = "BBLOCK (of_nat b') S"
  have ne: "of_nat b \<noteq> ?a'" "length (vblk v ?a) = 512" using bo b b' by (auto simp: bitmap_ok_def)
  have "b mod 4096 div 8 < 512" by (simp add: div_less_iff_less_mult)
  then have m: "bit_clear (mark_bit (b mod 4096) (vblk v ?a)) j \<longleftrightarrow> j \<noteq> b mod 4096 \<and> bit_clear (vblk v ?a) j" for j
    using ne(2) by (intro bit_clear_mark(1)) simp
  show ?thesis
  proof (cases "?a' = ?a")
    case False
    then show ?thesis using ne(1) by (auto simp: blk_free_def allocated_def Let_def)
  next
    case True
    have s32: "unat (sb_size S) < 2 ^ 32" by simp
    have w: "unat (of_nat b :: u32) = b" "unat (of_nat b' :: u32) = b'"
      using b(1) b' s32 by (simp_all add: unat_of_nat32 del: unat_lt2p32)
    from True have "(of_nat b' :: u32) div of_nat BPB = of_nat b div of_nat BPB" by (simp add: BBLOCK_def)
    then have "unat ((of_nat b' :: u32) div of_nat BPB) = unat ((of_nat b :: u32) div of_nat BPB)" by (rule arg_cong)
    then have "b' div 4096 = b div 4096" using w by (simp add: unat_div BPB_def BSIZE_def)
    then have "b' mod 4096 = b mod 4096 \<longleftrightarrow> b' = b" by (metis div_mod_decomp)
    then show ?thesis using True ne(1) m by (auto simp: blk_free_def allocated_def Let_def)
  qed
qed

lemma no_free_scan:
  assumes "\<forall>b < unat (sb_size S). \<not> blk_free v S b" "b0 mod 4096 = 0"
  shows "scan (bit_clear (vblk v (BBLOCK (of_nat b0) S))) [0..<min 4096 (unat (sb_size S) - b0)] = None"
proof -
  have "\<not> bit_clear (vblk v (BBLOCK (of_nat b0) S)) i" if "i < min 4096 (unat (sb_size S) - b0)" for i
    using assms(1) blk_free_scan [OF assms(2) that, of v] that by auto
  then show ?thesis by (simp add: scan_None)
qed

lemma balloc_loop_none:
  assumes "qt c {} s t" and "QI c p s" and "log_room j s" and "bitmap_ok (view s) (sb s)"
    and "\<forall>b < unat (sb_size (sb s)). \<not> blk_free (view s) (sb s) b" and "\<forall>k \<in> set ks. k * 4096 < unat (sb_size (sb s))"
  shows "balloc_loop 1 (map (\<lambda>k. k * 4096) ks) t = Panic ''balloc: out of blocks''"
  using assms
proof (induction ks arbitrary: s t)
  case (Cons k ks)
  let ?b0 = "k * 4096"
  have b0: "?b0 < unat (sb_size (sb s))" using Cons.prems(6) by simp
  have n: "scan (bit_clear (vblk (view s) (BBLOCK (of_nat ?b0) (sb s)))) [0..<min 4096 (unat (sb_size (sb s)) - ?b0)] = None"
    using Cons.prems(5) by (rule no_free_scan) simp
  obtain s1 t1 where 1: "balloc_loop 1 (?b0 # map (\<lambda>k. k * 4096) ks) t = balloc_loop 1 (map (\<lambda>k. k * 4096) ks) t1"
    "qt c {} s1 t1" "QI c p s1" "bframe s s1" "view s1 = view s"
    using Cons.prems(1-4) b0 n by (rule balloc_miss)
  have "balloc_loop 1 (map (\<lambda>k. k * 4096) ks) t1 = Panic ''balloc: out of blocks''"
    using 1(2,3,5) Cons.prems(4-6) log_room_frame [OF Cons.prems(3) 1(4,5)] bframe_inodes [OF 1(4)] by (intro Cons.IH [of s1]) simp_all
  then show ?case unfolding list.map 1(1) .
qed simp

text \<open>
  C23. \<open>balloc\<close> takes the first free block of the disk: its bit in the bitmap was clear and is set, the
  block is zero, no other bit of the bitmap and no other block changes (as the kernel sees them),
  and nothing is written to the disk yet; with no block free it panics.
\<close>

theorem balloc_first_free:
  assumes inv: "QI c p s" and r: "log_room 2 s" and bo: "bitmap_ok (view s) (sb s)"
  shows "if \<exists>b < unat (sb_size (sb s)). blk_free (view s) (sb s) b
    then \<exists>b t. balloc 1 s = Ret (of_nat b) t \<and> first_free (view s) (sb s) 0 b \<and>
      (\<forall>b' < unat (sb_size (sb s)). blk_free (view t) (sb t) b' \<longleftrightarrow> b' \<noteq> b \<and> blk_free (view s) (sb s) b') \<and>
      vblk (view t) (of_nat b) = replicate BSIZE 0 \<and>
      (\<forall>a. a \<noteq> of_nat b \<longrightarrow> (\<forall>b' < unat (sb_size (sb s)). a \<noteq> BBLOCK (of_nat b') (sb s)) \<longrightarrow> vblk (view t) a = vblk (view s) a) \<and>
      memdisk t = memdisk s
    else balloc 1 s = Panic ''balloc: out of blocks''"
proof -
  let ?S = "sb s" and ?N = "unat (sb_size (sb s))" and ?K = "(unat (sb_size (sb s)) + 4095) div 4096"
  have q: "qt c {} s s" using inv by (intro qt_start) (simp add: QI_def BI_def kidle_def)
  have K: "?N \<le> ?K * 4096" by simp
  have bl: "balloc 1 s = balloc_loop 1 (map (\<lambda>k. k * 4096) [0..<?K]) s"
    by (simp add: balloc_def BPB_def BSIZE_def add.commute [of 4095])
  show ?thesis
  proof (cases "\<exists>b < ?N. blk_free (view s) ?S b")
    case False
    have "\<forall>k \<in> set [0..<?K]. k * 4096 < ?N" by auto
    then show ?thesis
      using balloc_loop_none [OF q inv r bo] False bl by auto
  next
    case True
    define b where "b = (LEAST b. b < ?N \<and> blk_free (view s) ?S b)"
    have b: "b < ?N" "blk_free (view s) ?S b"
      using LeastI_ex [of "\<lambda>b. b < ?N \<and> blk_free (view s) ?S b"] True by (auto simp: b_def)
    have ff: "first_free (view s) ?S 0 b"
      using b not_less_Least [of _ "\<lambda>b. b < ?N \<and> blk_free (view s) ?S b", folded b_def] by (auto simp: first_free_def)
    obtain s' t where 1: "balloc 1 s = Ret (of_nat b) t" "qt c {} s' t" "lframe s s'" "view s' = allocated b ?S (view s)"
      using balloc_loop_ok [of c s s p 0 0 b ?K] q inv r bo ff K bl by (auto simp: numeral_2_eq_2)
    have v: "view t = allocated b ?S (view s)" and sbt: "sb t = ?S"
      using qt_view [OF 1(2)] 1(4) qt_inodes [OF 1(2)] lframe_inodes [OF 1(3)] by simp_all
    have "memdisk t = memdisk s"
      using arg_cong [OF v, of vdisk] by (simp add: view_disk allocated_def Let_def)
    moreover have "blk_free (view t) ?S b' \<longleftrightarrow> b' \<noteq> b \<and> blk_free (view s) ?S b'" if "b' < ?N" for b'
      using allocated_free [OF bo b that] v by simp
    ultimately show ?thesis
      using 1(1) ff True v sbt b by (auto simp: allocated_def Let_def)
  qed
qed

text \<open>Three unused buffers, and a disk of four blocks; block 0 is the bitmap, in which only block 1 is free.\<close>

definition bitmap0 :: icache where
  "bitmap0 = con0 \<lparr>bufs = [unused1\<lparr>bprev := Head, bnext := Buf 1\<rparr>, unused1\<lparr>bprev := Buf 0, bnext := Buf 2\<rparr>,
       unused1\<lparr>bprev := Buf 1, bnext := Head\<rparr>],
     bhead = unused1\<lparr>bprev := Buf 2, bnext := Buf 0\<rparr>,
     memdisk = [13 # replicate 511 0, replicate BSIZE 5, replicate BSIZE 0, replicate BSIZE 9], disksize = 4, dwrites = [],
     log_start = 2, log_size = 3, outstanding = 1, committing = False, log_dev = 1, lh_n = 0, lh_block = replicate LOGSIZE 0,
     sb = \<lparr>sb_size = 4, sb_nblocks = 1, sb_ninodes = 0, sb_nlog = 2, sb_logstart = 2, sb_inodestart = 0, sb_bmapstart = 0\<rparr>,
     inodes = [], devsw = []\<rparr>"

lemma bitmap0_sel [simp]:
  "bufs bitmap0 = [unused1\<lparr>bprev := Head, bnext := Buf 1\<rparr>, unused1\<lparr>bprev := Buf 0, bnext := Buf 2\<rparr>, unused1\<lparr>bprev := Buf 1, bnext := Head\<rparr>]"
  "memdisk bitmap0 = [13 # replicate 511 0, replicate BSIZE 5, replicate BSIZE 0, replicate BSIZE 9]" "disksize bitmap0 = 4"
  "lh_n bitmap0 = 0" "log_size bitmap0 = 3" "outstanding bitmap0 = 1" "lh_block bitmap0 = replicate LOGSIZE 0"
  "sb bitmap0 = \<lparr>sb_size = 4, sb_nblocks = 1, sb_ninodes = 0, sb_nlog = 2, sb_logstart = 2, sb_inodestart = 0, sb_bmapstart = 0\<rparr>"
  by (simp_all add: bitmap0_def con0_def)

lemma bitmap0_BI: "BI 0 0 bitmap0"
proof -
  have "dll bitmap0 [0, 1, 2]"
    by (simp add: dll_def bitmap0_def con0_def nx_def pv_def getb_def)
  then have "\<exists>xs. dll bitmap0 xs \<and> set xs = {..<Suc (Suc (Suc 0))}"
    by (intro exI [of _ "[0, 1, 2]"]) auto
  moreover have "cached_once (bufs bitmap0)" "list_all (buf_ok 1 (memdisk bitmap0)) (bufs bitmap0)"
    by (simp_all add: cached_once_def less_Suc_eq buf_ok_def)
  moreover have "kidle 0 0 bitmap0" "pid (procs bitmap0 ! 0) = 1"
    by (simp_all add: bitmap0_def con0_kidle) (simp add: con0_def)
  ultimately show ?thesis by (simp add: BI_def binv_def)
qed

lemma bitmap0_view: "vdirty (view bitmap0) = {}" "vheld (view bitmap0) = {}" "vdisk (view bitmap0) = memdisk bitmap0"
  "vblk (view bitmap0) 0 = 13 # replicate 511 0"
  by (auto simp: view_def less_Suc_eq nth_Cons' blk_def split: if_splits)

lemma bitmap0_block: "b < 4 \<Longrightarrow> BBLOCK (of_nat b) (sb bitmap0) = 0"
  by (auto simp: BBLOCK_def BPB_def BSIZE_def word_eq_unat unat_div unat_of_nat32)

lemma bitmap0_free: "b < 4 \<Longrightarrow> blk_free (view bitmap0) (sb bitmap0) b \<longleftrightarrow> b = 1"
proof -
  assume b: "b < 4"
  then have "blk_free (view bitmap0) (sb bitmap0) b \<longleftrightarrow> \<not> bit (13 :: u8) b"
    unfolding blk_free_def bitmap0_block [OF b] by (simp add: bit_clear_iff bitmap0_view)
  then show ?thesis using b by (auto simp: less_Suc_eq numeral_eq_Suc bit_simps)
qed

theorem balloc_first_free_witness: "\<exists>t. balloc 1 bitmap0 = Ret 1 t \<and> vblk (view t) 1 = replicate BSIZE 0"
proof -
  have i: "QI 0 0 bitmap0" using bitmap0_BI bitmap0_view by (simp add: QI_def)
  have r: "log_room 2 bitmap0"
    by (simp add: log_room_def log_inv_def bitmap0_view(1) LOGSIZE_def MAXOPBLOCKS_def)
  have ne: "(of_nat 1 :: u32) \<noteq> 0" by simp
  have bo: "bitmap_ok (view bitmap0) (sb bitmap0)"
    unfolding bitmap_ok_def using bitmap0_block bitmap0_free by (auto simp: bitmap0_view(3,4) simp del: of_nat_1)
  have f: "\<exists>b < unat (sb_size (sb bitmap0)). blk_free (view bitmap0) (sb bitmap0) b"
    by (rule exI [of _ 1]) (simp add: bitmap0_free del: bitmap0_sel(8), simp)
  then obtain b t where "balloc 1 bitmap0 = Ret (of_nat b) t" "first_free (view bitmap0) (sb bitmap0) 0 b"
    "vblk (view t) (of_nat b) = replicate BSIZE 0"
    using balloc_first_free [OF i r bo] by auto
  moreover have "b = 1" using bitmap0_free [of b] calculation(2) by (simp add: first_free_def)
  ultimately show ?thesis by auto
qed

section \<open>Inodes on the disk\<close>

lemma length_set16 [simp]: "length (set16 d k v) = length d"
  by (simp add: set16_def)

lemma get16_set16:
  assumes "k + 1 < length d"
  shows "get16 (set16 d k v) k = v"
proof -
  have "unat v < 65536" using unsigned_less [of v] by simp
  then have "unat v div 256 < 256" by (simp add: div_less_iff_less_mult)
  then have "unat (of_nat (unat v div 256) :: u8) = unat v div 256" "unat (of_nat (unat v) :: u8) = unat v mod 256"
    by (simp_all add: unat_of_nat unsigned_ucast_eq take_bit_eq_mod)
  moreover have "unat v mod 256 + 256 * (unat v div 256) = unat v" by simp
  ultimately show ?thesis
    using assms by (simp add: get16_def set16_def del: mod_mult_div_eq)
qed

lemma get16_set16_other:
  assumes "j + 2 \<le> k \<or> k + 2 \<le> j"
  shows "get16 (set16 d k v) j = get16 d j"
  using assms by (auto simp: get16_def set16_def nth_list_update)

lemma get16_set32:
  assumes "j + 2 \<le> k \<or> k + 4 \<le> j"
  shows "get16 (set32 d k v) j = get16 d j"
  using assms by (auto simp: get16_def set32_def nth_list_update)

lemma get32_set16:
  assumes "j + 4 \<le> k \<or> k + 2 \<le> j"
  shows "get32 (set16 d k v) j = get32 d j"
  using assms by (auto simp: get32_def set16_def nth_list_update)

lemma put_addrs:
  "length (fold (\<lambda>j d. set32 d (k + 4 * j) (A j)) [0..<n] d) = length d"
  "j + 2 \<le> k \<or> k + 4 * n \<le> j \<Longrightarrow> get16 (fold (\<lambda>j d. set32 d (k + 4 * j) (A j)) [0..<n] d) j = get16 d j"
  "j + 4 \<le> k \<or> k + 4 * n \<le> j \<Longrightarrow> get32 (fold (\<lambda>j d. set32 d (k + 4 * j) (A j)) [0..<n] d) j = get32 d j"
  "i < n \<Longrightarrow> k + 4 * n \<le> length d \<Longrightarrow> get32 (fold (\<lambda>j d. set32 d (k + 4 * j) (A j)) [0..<n] d) (k + 4 * i) = A i"
proof (induction n)
  case (Suc n)
  let ?f = "fold (\<lambda>j d. set32 d (k + 4 * j) (A j)) [0..<n] d"
  have l: "length ?f = length d" by (rule Suc.IH(1))
  { case 1 then show ?case by (simp add: Suc.IH(1)) }
  { case 2 then show ?case using Suc.IH(2) by (auto simp: get16_set32) }
  { case 3 then show ?case using Suc.IH(3) by (auto simp: get32_set32_other) }
  { case 4
    then show ?case
      using Suc.IH(4) l by (cases "i = n") (simp_all add: get32_set32 get32_set32_other) }
qed simp_all

lemma dinode_put_get:
  assumes "k + DINODE_SIZE \<le> length d" and "length (di_addrs di) = NDIRECT + 1"
  shows "dinode_at (put_dinode d k di) k = di"
proof -
  have k: "k + 64 \<le> length d" using assms(1) by (simp add: DINODE_SIZE_def NDIRECT_def)
  define N where "N = NDIRECT + 1"
  then have N: "NDIRECT + 1 = N" "4 * N = 52" by (simp_all add: NDIRECT_def)
  note pd = put_dinode_def Let_def N(1)
  note gs = get16_set16 get16_set16_other get16_set32 get32_set32 get32_set32_other get32_set16
  have "map (\<lambda>j. get32 (put_dinode d k di) (k + 12 + 4 * j)) [0..<N] = map (\<lambda>j. di_addrs di ! j) [0..<N]"
    unfolding pd using k N(2) by (intro map_cong refl) (simp add: put_addrs(4))
  also have "\<dots> = di_addrs di" using assms(2) N map_nth [of "di_addrs di"] by simp
  finally have a: "map (\<lambda>j. get32 (put_dinode d k di) (k + 12 + 4 * j)) [0..<N] = di_addrs di" .
  show ?thesis unfolding dinode_at_def N(1) a unfolding pd using k by (simp add: put_addrs(2,3) gs)
qed

lemma dinode_put_other:
  assumes "k' + DINODE_SIZE \<le> k \<or> k + DINODE_SIZE \<le> k'"
  shows "dinode_at (put_dinode d k di) k' = dinode_at d k'"
proof -
  have k': "k' + 64 \<le> k \<or> k + 64 \<le> k'" using assms by (simp add: DINODE_SIZE_def NDIRECT_def)
  define N where "N = NDIRECT + 1"
  then have N: "NDIRECT + 1 = N" "4 * N = 52" by (simp_all add: NDIRECT_def)
  note pd = put_dinode_def Let_def N(1)
  note gs = get16_set16_other get16_set32 get32_set32_other get32_set16
  have b: "map (\<lambda>j. get32 (put_dinode d k di) (k' + 12 + 4 * j)) [0..<N] = map (\<lambda>j. get32 d (k' + 12 + 4 * j)) [0..<N]"
    unfolding pd using k' N(2) by (intro map_cong refl) (auto simp: put_addrs(3) gs)
  show ?thesis unfolding dinode_at_def N(1) b unfolding pd using k' N(2) by (auto simp: put_addrs(2,3) gs)
qed

lemma length_put_dinode [simp]: "length (put_dinode d k di) = length d"
  by (simp add: put_dinode_def Let_def put_addrs(1))

text \<open>The inode number \<open>n\<close> on the disk, as the kernel sees it.\<close>

definition disk_inode :: "bview \<Rightarrow> superblock \<Rightarrow> u32 \<Rightarrow> dinode" where
  "disk_inode v S n = dinode_at (vblk v (IBLOCK n S)) (dinode_off n)"

lemma IPB_8: "IPB = 8" "DINODE_SIZE = 64"
  by (simp_all add: IPB_def DINODE_SIZE_def NDIRECT_def BSIZE_def)

lemma dinode_off_bound: "dinode_off n + DINODE_SIZE \<le> 512"
proof -
  have "unat (n mod 8) < 8" by (simp add: unat_mod)
  then show ?thesis by (simp add: dinode_off_def IPB_8)
qed

text \<open>Two inodes in the same block have their places apart.\<close>

lemma dinode_off_apart:
  assumes "IBLOCK n S = IBLOCK m S" "n \<noteq> m"
  shows "dinode_off n + DINODE_SIZE \<le> dinode_off m \<or> dinode_off m + DINODE_SIZE \<le> dinode_off n"
proof -
  have "n div 8 = m div 8" using assms(1) by (simp add: IBLOCK_def IPB_8)
  then have "unat (n div 8) = unat (m div 8)" by simp
  then have "unat n div 8 = unat m div 8" by (simp add: unat_div)
  then have "unat n mod 8 \<noteq> unat m mod 8" using assms(2) by (metis mult_div_mod_eq word_unat_eq_iff)
  then show ?thesis by (auto simp: dinode_off_def IPB_8 unat_mod)
qed

text \<open>Putting an inode into its block changes that inode only.\<close>

lemma disk_inode_put:
  assumes "length (vblk v (IBLOCK m S)) = BSIZE" "length (di_addrs di) = NDIRECT + 1"
  shows "disk_inode (v\<lparr>vblk := (vblk v)(IBLOCK m S := put_dinode (vblk v (IBLOCK m S)) (dinode_off m) di), vdirty := D\<rparr>) S n =
    (if n = m then di else disk_inode v S n)"
  using dinode_put_get [of "dinode_off m" "vblk v (IBLOCK m S)" di] dinode_off_bound [of m] assms dinode_put_other dinode_off_apart [of n S m]
  by (auto simp: disk_inode_def BSIZE_def)

section \<open>Writing and reading inodes\<close>

text \<open>The sleep locks of the inodes.\<close>

interpretation il: sleep_lock "inode_lock i" "\<lambda>s. i < length (inodes s)" for i
proof unfold_locales
  fix c L and s t :: "'a icache_scheme"
  assume "qt c L s t"
  then show "sl_get (inode_lock i) t = sl_get (inode_lock i) s" "(i < length (inodes t)) = (i < length (inodes s))"
    by (auto elim!: qtE simp: inode_lock_def)
qed (auto simp: inode_lock_def upd_inode_def payload_def)

lemma payload_upd_inode [simp]: "payload (upd_inode i f)"
  by (simp add: payload_def upd_inode_def)

text \<open>The cache of blocks does not depend on the inodes.\<close>

lemma BI_upd_inode [simp]:
  "view (upd_inode i f s) = view s" "BI c p (upd_inode i f s) = BI c p s" "QI c p (upd_inode i f s) = QI c p s"
  "sb (upd_inode i f s) = sb s" "bufs (upd_inode i f s) = bufs s" "memdisk (upd_inode i f s) = memdisk s"
proof -
  show v: "view (upd_inode i f s) = view s" by (simp add: view_def upd_inode_def blk_def fun_eq_iff split: option.splits)
  have "nx (upd_inode i f s) = nx s" "pv (upd_inode i f s) = pv s"
    by (simp_all add: nx_def pv_def getb_def upd_inode_def fun_eq_iff split: bptr.splits)
  then have "dll (upd_inode i f s) xs = dll s xs" for xs by (simp add: dll_def) (simp add: upd_inode_def)
  then show b: "BI c p (upd_inode i f s) = BI c p s"
    by (simp add: BI_def kidle_def cpu_ok_def this_cpu_def lock_free_def binv_def) (simp add: upd_inode_def)
  show "QI c p (upd_inode i f s) = QI c p s" unfolding QI_def v b ..
qed (simp_all add: upd_inode_def)

lemma iupdate_ok:
  assumes q: "qt c {} s t" and inv: "QI c p s" and r: "log_room (Suc k) s" and ip: "inodes s ! ip = I" "idev I = 1"
    and a: "unat (IBLOCK (inum I) (sb s)) < length (vdisk (view s))"
  obtains s' t' where "iupdate ip t = Ret () t'" "qt c {} s' t'" "QI c p s'" "lframe s s'" "log_room k s'"
    "view s' = (view s)\<lparr>vblk := (vblk (view s))(IBLOCK (inum I) (sb s) :=
        put_dinode (vblk (view s) (IBLOCK (inum I) (sb s))) (dinode_off (inum I)) (dinode_of I)),
      vdirty := insert (IBLOCK (inum I) (sb s)) (vdirty (view s))\<rparr>"
proof -
  let ?f = "\<lambda>d. put_dinode d (dinode_off (inum I)) (dinode_of I)"
  obtain i t1 t2 s3 t3 where 1: "bread 1 (IBLOCK (inum I) (sb s)) t = Ret i t1" "\<exists>s1. qt c {} s1 t1 \<and> bframe s s1"
      "log_write i (upd_buf i (\<lambda>b. b\<lparr>data := ?f (data b)\<rparr>) t1) = Ret () t2" "brelse i t2 = Ret () t3"
      "qt c {} s3 t3" "QI c p s3" "lframe s s3" "log_room k s3"
      "view s3 = (view s)\<lparr>vblk := (vblk (view s))(IBLOCK (inum I) (sb s) := ?f (vblk (view s) (IBLOCK (inum I) (sb s)))),
        vdirty := insert (IBLOCK (inum I) (sb s)) (vdirty (view s))\<rparr>"
    using q inv a r by (rule update_block [where f = ?f]) blast
  have "inodes t ! ip = I" "sb t = sb s" "inodes t1 ! ip = I" using qt_inodes [OF q] ip(1) 1(2) qt_inodes bframe_inodes by metis+
  then have "iupdate ip t = Ret () t3" using 1(1,3,4) ip(2) by (simp add: iupdate_def Let_def)
  then show ?thesis using 1(5-9) by (rule that)
qed

lemma ilock_loads:
  assumes q: "qt c {} s t" and inv: "QI c p s" and r: "card (vdirty (view s)) < length (bufs s)"
    and jp: "jp < length (inodes s)" "inodes s ! jp = J" "idev J = 1" "\<not> ivalid J" "1 \<le> iref J" "slocked (ilk J) = 0"
    and a: "unat (IBLOCK (inum J) (sb s)) < length (vdisk (view s))"
    and D: "disk_inode (view s) (sb s) (inum J) = D" "di_type D \<noteq> 0"
  obtains s' t' k where "ilock (Some jp) t = Ret () t'" "qt c {} s' t'" "QI c p s'" "view s' = view s"
    "inodes s' ! jp = J\<lparr>ilk := k, ivalid := True, itype := di_type D, imajor := di_major D, iminor := di_minor D,
       inlink := di_nlink D, isize := di_size D, addrs := di_addrs D\<rparr>" "slocked k = 1"
proof -
  let ?l = "\<lambda>k. k\<lparr>slocked := 1, spid := pid (procs s ! p)\<rparr>" and ?a = "IBLOCK (inum J) (sb s)"
  let ?s0 = "upd_inode jp (\<lambda>q. q\<lparr>ilk := ?l (ilk q)\<rparr>) s"
  have bi: "BI c p s" and h: "vheld (view s) = {}" using inv by (simp_all add: QI_def)
  note ki = kidleD [of c p s]
  have k: "kidle c p s" using bi by (simp add: BI_def)
  obtain t0 where 0: "acquiresleep (inode_lock jp) t = Ret () t0" "qt c {} (sl_upd (inode_lock jp) ?l s) t0"
    by (rule il.acquiresleep_free [OF q, of jp p]) (use ki [OF k] jp in \<open>simp_all add: inode_lock_def\<close>)
  then have q0: "qt c {} ?s0 t0" by (simp add: inode_lock_def)
  have j0: "inodes t0 ! jp = J\<lparr>ilk := ?l (ilk J)\<rparr>" "sb t0 = sb s" using qt_inodes [OF q0] jp(1,2) by (simp_all add: upd_inode_def)
  have b0: "BI c p ?s0" using bi by simp
  have ct: "can_take ?s0 ?a" using a r h by (simp add: can_take_def view_disk)
  obtain i s1 t1 where 1: "bread 1 ?a t0 = Ret i t1" "qt c {} s1 t1" "BI c p s1" "bframe ?s0 s1"
      "view s1 = (view ?s0)\<lparr>vheld := insert (i, ?a) (vheld (view ?s0))\<rparr>" "i < length (bufs s1)" "data (bufs s1 ! i) = vblk (view ?s0) ?a"
    using q0 b0 ct by (rule bread_ok)
  let ?f = "\<lambda>q. q\<lparr>itype := di_type D, imajor := di_major D, iminor := di_minor D, inlink := di_nlink D, isize := di_size D, addrs := di_addrs D\<rparr>"
  have q1: "qt c {} (upd_inode jp ?f s1) (upd_inode jp ?f t1)" by (rule qt_payload [OF payload_upd_inode 1(2)])
  have b1: "BI c p (upd_inode jp ?f s1)" using 1(3) by simp
  have cl: "(i, ?a) \<in> vheld (view (upd_inode jp ?f s1))"
      "?a \<in> vdirty (view (upd_inode jp ?f s1)) \<or> vblk (view (upd_inode jp ?f s1)) ?a = vdisk (view (upd_inode jp ?f s1)) ! unat ?a"
    using 1(5) QI_clean [OF inv, of ?a] by auto
  obtain s2 t2 where 2: "brelse i (upd_inode jp ?f t1) = Ret () t2" "qt c {} s2 t2" "BI c p s2" "bframe (upd_inode jp ?f s1) s2"
      "view s2 = (view (upd_inode jp ?f s1))\<lparr>vheld := vheld (view (upd_inode jp ?f s1)) - {(i, ?a)}\<rparr>"
    using q1 b1 cl by (rule brelse_ok)
  let ?v = "\<lambda>q. q\<lparr>ivalid := True\<rparr>"
  have i1: "inodes s1 = inodes ?s0" "inodes t1 = inodes ?s0" using bframe_inodes [OF 1(4)] qt_inodes [OF 1(2)] by simp_all
  have i2: "inodes t2 = inodes s2" "inodes s2 = (inodes ?s0)[jp := ?f (inodes ?s0 ! jp)]"
    using qt_inodes [OF 2(2)] bframe_inodes [OF 2(4)] i1 by (simp_all add: upd_inode_def)
  have "dinode_at (data (bufs t1 ! i)) (dinode_off (inum J)) = D"
    using 1(7) qt_bufs(1) [OF 1(2)] D(1) by (simp add: disk_inode_def)
  moreover have "inodes t1 ! jp = J\<lparr>ilk := ?l (ilk J)\<rparr>" using i1 jp by (simp add: upd_inode_def)
  moreover have "iref (inodes t ! jp) = iref J" using qt_inodes [OF q] jp(2) by simp
  moreover have "itype (inodes (upd_inode jp ?v t2) ! jp) = di_type D" using i2 jp(1) by (simp add: upd_inode_def)
  ultimately have "ilock (Some jp) t = Ret () (upd_inode jp ?v t2)"
    using 0(1) 1(1) 2(1) j0 jp D(2) by (simp add: ilock_def Let_def)
  moreover have "qt c {} (upd_inode jp ?v s2) (upd_inode jp ?v t2)" by (rule qt_payload [OF payload_upd_inode 2(2)])
  moreover have v: "view (upd_inode jp ?v s2) = view s" using 2(5) 1(5) h by simp
  moreover have "QI c p (upd_inode jp ?v s2)" using 2(3) v h by (simp add: QI_def)
  moreover have "inodes (upd_inode jp ?v s2) ! jp = J\<lparr>ilk := ?l (ilk J), ivalid := True, itype := di_type D, imajor := di_major D, iminor := di_minor D,
       inlink := di_nlink D, isize := di_size D, addrs := di_addrs D\<rparr>"
    using i2 jp by (simp add: upd_inode_def)
  moreover have "slocked (?l (ilk J)) = 1" by simp
  ultimately show ?thesis using that by blast
qed

text \<open>
  C35. The inode that \<open>iupdate\<close> writes is the one that \<open>ilock\<close> reads: \<open>iupdate\<close> of a cached inode of the root device
  with a valid block, in an operation with room for one block in the log, returns, puts the fields of the inode into
  its place on the disk as the kernel sees it, and changes no other inode and no other block, nor the disk itself
  before the commit; and when a cache entry is used anew for an inode of that number, with its contents
  not valid yet, \<open>ilock\<close> of it returns with the lock held and gives it the type, the device numbers, the
  link count, the size and the block addresses that were written.
\<close>

theorem inode_roundtrip:
  assumes inv: "QI c p s" and r: "log_room 1 s"
    and I: "inodes s ! ip = I" "idev I = 1" "itype I \<noteq> 0" "length (addrs I) = NDIRECT + 1"
    and a: "unat (IBLOCK (inum I) (sb s)) < length (vdisk (view s))" "length (vblk (view s) (IBLOCK (inum I) (sb s))) = BSIZE"
    and J: "jp < length (inodes s)" "idev J = 1" "inum J = inum I" "\<not> ivalid J" "1 \<le> iref J" "slocked (ilk J) = 0"
  shows "\<exists>t t'. iupdate ip s = Ret () t \<and> memdisk t = memdisk s \<and>
    (\<forall>n. disk_inode (view t) (sb t) n = (if n = inum I then dinode_of I else disk_inode (view s) (sb s) n)) \<and>
    (\<forall>b. b \<noteq> IBLOCK (inum I) (sb s) \<longrightarrow> vblk (view t) b = vblk (view s) b) \<and>
    ilock (Some jp) (upd_inode jp (\<lambda>_. J) t) = Ret () t' \<and> view t' = view t \<and>
    dinode_of (inodes t' ! jp) = dinode_of I \<and> ivalid (inodes t' ! jp) \<and> inum (inodes t' ! jp) = inum I \<and>
    slocked (ilk (inodes t' ! jp)) = 1"
proof -
  let ?a = "IBLOCK (inum I) (sb s)"
  have q: "qt c {} s s" using inv by (intro qt_start) (simp add: QI_def BI_def kidle_def)
  have "log_room (Suc 0) s" using r by simp
  from iupdate_ok [OF q inv this I(1,2) a(1)] obtain s1 t1 where 1: "iupdate ip s = Ret () t1" "qt c {} s1 t1" "QI c p s1" "lframe s s1" "log_room 0 s1"
      "view s1 = (view s)\<lparr>vblk := (vblk (view s))(?a := put_dinode (vblk (view s) ?a) (dinode_off (inum I)) (dinode_of I)),
        vdirty := insert ?a (vdirty (view s))\<rparr>"
    by metis
  have e: "view t1 = view s1" "sb t1 = sb s" "sb s1 = sb s" "inodes s1 = inodes s"
    using qt_view [OF 1(2)] qt_inodes [OF 1(2)] lframe_inodes [OF 1(4)] by simp_all
  have d: "disk_inode (view s1) (sb s) n = (if n = inum I then dinode_of I else disk_inode (view s) (sb s) n)" for n
    unfolding 1(6) using a(2) I(4) by (intro disk_inode_put) (simp_all add: dinode_of_def)
  let ?J = "upd_inode jp (\<lambda>_. J)"
  have qJ: "qt c {} (?J s1) (?J t1)" by (rule qt_payload [OF payload_upd_inode 1(2)])
  obtain s2 t2 k where 2: "ilock (Some jp) (?J t1) = Ret () t2" "qt c {} s2 t2" "QI c p s2" "view s2 = view (?J s1)"
      "inodes s2 ! jp = J\<lparr>ilk := k, ivalid := True, itype := itype I, imajor := imajor I, iminor := iminor I,
        inlink := inlink I, isize := isize I, addrs := addrs I\<rparr>" "slocked k = 1"
    by (rule ilock_loads [OF qJ, of p jp J "dinode_of I"])
      (use J a(1) I(3) 1(3) log_room_card [OF 1(5)] d e(3,4) in \<open>simp_all add: 1(6) dinode_of_def, simp_all add: upd_inode_def\<close>)
  have "inodes t2 ! jp = inodes s2 ! jp" "view t2 = view t1" using qt_inodes [OF 2(2)] qt_view [OF 2(2)] 2(4) e(1) by simp_all
  moreover have "memdisk t1 = memdisk s" using arg_cong [OF 1(6), of vdisk] e(1) by (simp add: view_disk flip: view_disk)
  ultimately show ?thesis using 1(1,6) 2(1,5,6) d e J(3) by (intro exI [of _ t1] exI [of _ t2]) (simp add: dinode_of_def)
qed

text \<open>Two unused buffers, and a disk on which inode 2, which is in the cache with a file of 512 bytes, is in block 0.\<close>

definition isave0 :: icache where
  "isave0 = cache0 unused0 [replicate BSIZE 0, replicate BSIZE 5, replicate BSIZE 0, replicate BSIZE 9]
     \<lparr>log_start = 2, log_size = 3, outstanding = 1, committing = False, log_dev = 1, lh_n = 0,
      lh_block = replicate LOGSIZE 0, sb = superblock_of (replicate BSIZE 0), inodes = [inode1], devsw = []\<rparr>"

lemma isave0_sel [simp]:
  "bufs isave0 = [unused0, unused1]" "memdisk isave0 = [replicate BSIZE 0, replicate BSIZE 5, replicate BSIZE 0, replicate BSIZE 9]"
  "lh_n isave0 = 0" "lh_block isave0 = replicate LOGSIZE 0" "log_size isave0 = 3" "outstanding isave0 = 1" "inodes isave0 = [inode1]" "IBLOCK (inum inode1) (sb isave0) = 0"
proof -
  have "get32 (replicate BSIZE 0) 20 = 0" by (simp add: get32_def BSIZE_def word_of_bytes_def)
  then show "IBLOCK (inum inode1) (sb isave0) = 0"
    by (simp add: isave0_def cache0_def con0_def superblock_of_def IBLOCK_def IPB_8 inode1_def)
qed (simp_all add: isave0_def, simp_all add: cache0_def con0_def)

lemma isave0_view: "vdirty (view isave0) = {}" "vheld (view isave0) = {}" "vdisk (view isave0) = memdisk isave0" "vblk (view isave0) 0 = replicate BSIZE 0"
  by (auto simp: view_def less_Suc_eq nth_Cons' blk_def)

lemma isave0_QI: "QI 0 0 isave0"
proof -
  have "BI 0 0 isave0" unfolding isave0_def by (rule cache0_BI) (simp_all add: buf_ok_def)
  then show ?thesis by (simp add: QI_def isave0_view)
qed

lemma isave0_room: "log_room 1 isave0"
  by (simp add: log_room_def log_inv_def isave0_view(1) LOGSIZE_def MAXOPBLOCKS_def)

theorem inode_roundtrip_witness:
  "\<exists>t t'. iupdate 0 isave0 = Ret () t \<and> disk_inode (view t) (sb t) 2 = dinode_of inode1 \<and>
     ilock (Some 0) (upd_inode 0 (\<lambda>_. inode1\<lparr>ivalid := False, itype := 0, inlink := 0, isize := 0, addrs := replicate 13 0\<rparr>) t) = Ret () t' \<and>
     isize (inodes t' ! 0) = 512 \<and> addrs (inodes t' ! 0) = 1 # replicate 12 0"
proof -
  let ?J = "inode1\<lparr>ivalid := False, itype := 0, inlink := 0, isize := 0, addrs := replicate 13 0\<rparr>"
  have I: "inodes isave0 ! 0 = inode1" "idev inode1 = 1" "itype inode1 \<noteq> 0" "length (addrs inode1) = NDIRECT + 1" "inum inode1 = 2"
    by (simp_all add: inode1_def NDIRECT_def)
  have a: "unat (IBLOCK (inum inode1) (sb isave0)) < length (vdisk (view isave0))"
      "length (vblk (view isave0) (IBLOCK (inum inode1) (sb isave0))) = BSIZE"
    by (simp_all add: isave0_view)
  have J: "0 < length (inodes isave0)" "idev ?J = 1" "inum ?J = inum inode1" "\<not> ivalid ?J" "1 \<le> iref ?J" "slocked (ilk ?J) = 0"
    by (simp_all add: inode1_def nolock_def)
  obtain t t' where t: "iupdate 0 isave0 = Ret () t"
      "\<forall>n. disk_inode (view t) (sb t) n = (if n = inum inode1 then dinode_of inode1 else disk_inode (view isave0) (sb isave0) n)"
      "ilock (Some 0) (upd_inode 0 (\<lambda>_. ?J) t) = Ret () t'" "dinode_of (inodes t' ! 0) = dinode_of inode1"
    using inode_roundtrip [OF isave0_QI isave0_room I(1-4) a J] by blast
  have "isize (inodes t' ! 0) = isize inode1" "addrs (inodes t' ! 0) = addrs inode1" using t(4) by (simp_all add: dinode_of_def)
  then show ?thesis using t(1-3) I(5) by (intro exI [of _ t] exI [of _ t']) (simp add: inode1_def)
qed

end
