(* ===== verification/Mkfs.thy ===== *)
theory Mkfs
  imports Alloc Ide
begin

text \<open>
  mkfs.c: the program of the host that builds the image of the file system. The image is the list of
  its sectors; the inodes and the superblock are put into them in the format that the kernel reads
  (\<open>dinode_at\<close> and \<open>superblock_of\<close>). The fields of an inode in memory are kept in the byte order of the
  disk, which is what \<open>xint\<close> and \<open>xshort\<close> are for; the failures of the host's disk are not modelled.

  The theorems say that the image has every file with its contents, in blocks that no two files share
  and that the bitmap marks as used.
\<close>

section \<open>Layout\<close>

definition NINODES :: nat where "NINODES = 200"
definition ninodeblocks :: nat where "ninodeblocks = NINODES div IPB + 1"
definition nmeta :: nat where "nmeta = (let nbitmap = unat FSSIZE div (BSIZE * 8) + 1 in 2 + LOGSIZE + ninodeblocks + nbitmap)"

definition mkfs_sb :: superblock where
  "mkfs_sb =
     (let nlog = LOGSIZE; nblocks = unat FSSIZE - nmeta
      in \<lparr>sb_size = FSSIZE, sb_nblocks = of_nat nblocks, sb_ninodes = of_nat NINODES, sb_nlog = of_nat nlog,
          sb_logstart = 2, sb_inodestart = of_nat (2 + nlog), sb_bmapstart = of_nat (2 + nlog + ninodeblocks)\<rparr>)"

text \<open>The bytes of \<open>struct superblock\<close> at the start of a sector.\<close>

definition sb_bytes :: "superblock \<Rightarrow> u8 list" where
  "sb_bytes S =
     fold (\<lambda>(k, v) d. set32 d (4 * k) v)
       [(0, sb_size S), (1, sb_nblocks S), (2, sb_ninodes S), (3, sb_nlog S), (4, sb_logstart S),
        (5, sb_inodestart S), (6, sb_bmapstart S)] (replicate BSIZE 0)"

section \<open>State and sectors\<close>

record image =
  sects :: "u8 list list"
  freeinode :: u32
  freeblock :: u32

text \<open>The two ways in which the program gives up: \<open>exit(1)\<close> after a failed call, and \<open>assert\<close>.\<close>

datatype mkfs_error = Exit1 | Assert

text \<open>The position of a sector in the file, as the product that \<open>lseek\<close> is given.\<close>

abbreviation sect_no :: "u32 \<Rightarrow> nat" where
  "sect_no sec \<equiv> unat (sec * of_nat BSIZE) div BSIZE"

definition wsect :: "u32 \<Rightarrow> u8 list \<Rightarrow> image \<Rightarrow> image" where
  "wsect sec buf st =
     (let k = sect_no sec; d = sects st
      in st\<lparr>sects := (if k < length d then d[k := buf] else d @ replicate (k - length d) (replicate BSIZE 0) @ [buf])\<rparr>)"

definition rsect :: "u32 \<Rightarrow> image \<Rightarrow> mkfs_error + u8 list" where
  "rsect sec st = (if sect_no sec < length (sects st) then Inr (sects st ! sect_no sec) else Inl Exit1)"

section \<open>Inodes\<close>

definition winode :: "u32 \<Rightarrow> dinode \<Rightarrow> image \<Rightarrow> mkfs_error + image" where
  "winode ino di st =
     (let bn = IBLOCK ino mkfs_sb
      in case rsect bn st of
           Inl e \<Rightarrow> Inl e
         | Inr buf \<Rightarrow> Inr (wsect bn (put_dinode buf (dinode_off ino) di) st))"

definition rinode :: "u32 \<Rightarrow> image \<Rightarrow> mkfs_error + dinode" where
  "rinode ino st =
     (case rsect (IBLOCK ino mkfs_sb) st of
        Inl e \<Rightarrow> Inl e
      | Inr buf \<Rightarrow> Inr (dinode_at buf (dinode_off ino)))"

abbreviation new_dinode :: "u16 \<Rightarrow> dinode" where
  "new_dinode ty \<equiv>
     \<lparr>di_type = ty, di_major = 0, di_minor = 0, di_nlink = 1, di_size = 0, di_addrs = replicate (NDIRECT + 1) 0\<rparr>"

definition mk_ialloc :: "u16 \<Rightarrow> image \<Rightarrow> mkfs_error + u32 \<times> image" where
  "mk_ialloc ty st =
     (let ino = freeinode st; st = st\<lparr>freeinode := freeinode st + 1\<rparr>
      in case winode ino (new_dinode ty) st of
           Inl e \<Rightarrow> Inl e
         | Inr st \<Rightarrow> Inr (ino, st))"

text \<open>The bitmap in which the first \<open>used\<close> bits are set.\<close>

definition used_bits :: "nat \<Rightarrow> u8 list" where
  "used_bits used = fold (\<lambda>i d. d[i div 8 := d ! (i div 8) OR push_bit (i mod 8) 1]) [0..<used] (replicate BSIZE 0)"

definition mk_balloc :: "nat \<Rightarrow> image \<Rightarrow> mkfs_error + image" where
  "mk_balloc used st =
     (if used < BSIZE * 8 then Inr (wsect (sb_bmapstart mkfs_sb) (used_bits used) st) else Inl Assert)"

section \<open>Appending to a file\<close>

text \<open>The block number of block \<open>fbn\<close> of the file, which is taken from the free ones if there is none.\<close>

definition iappend_block :: "nat \<Rightarrow> dinode \<Rightarrow> image \<Rightarrow> mkfs_error + u32 \<times> dinode \<times> image" where
  "iappend_block fbn din st =
     (if fbn < NDIRECT then
        (let (din, st) =
           (if di_addrs din ! fbn = 0
            then (din\<lparr>di_addrs := (di_addrs din)[fbn := freeblock st]\<rparr>, st\<lparr>freeblock := freeblock st + 1\<rparr>)
            else (din, st))
         in Inr (di_addrs din ! fbn, din, st))
      else
        (let (din, st) =
           (if di_addrs din ! NDIRECT = 0
            then (din\<lparr>di_addrs := (di_addrs din)[NDIRECT := freeblock st]\<rparr>, st\<lparr>freeblock := freeblock st + 1\<rparr>)
            else (din, st))
         in case rsect (di_addrs din ! NDIRECT) st of
              Inl e \<Rightarrow> Inl e
            | Inr ind \<Rightarrow>
                let k = 4 * (fbn - NDIRECT);
                    (ind, st) =
                      (if get32 ind k = 0
                       then (let ind' = set32 ind k (freeblock st)
                             in (ind', wsect (di_addrs din ! NDIRECT) ind' (st\<lparr>freeblock := freeblock st + 1\<rparr>)))
                       else (ind, st))
                in Inr (get32 ind k, din, st)))"

function iappend_loop :: "dinode \<Rightarrow> u32 \<Rightarrow> u8 list \<Rightarrow> image \<Rightarrow> mkfs_error + dinode \<times> u32 \<times> image" where
  "iappend_loop din off p st =
     (if p = [] then Inr (din, off, st)
      else
        let fbn = unat off div BSIZE
        in if \<not> fbn < MAXFILE then Inl Assert
           else
             (case iappend_block fbn din st of
                Inl e \<Rightarrow> Inl e
              | Inr (x, din, st) \<Rightarrow>
                  let o1 = unat off mod BSIZE; n1 = min (length p) (BSIZE - o1)
                  in (case rsect x st of
                        Inl e \<Rightarrow> Inl e
                      | Inr buf \<Rightarrow>
                          iappend_loop din (off + of_nat n1) (drop n1 p)
                            (wsect x (take o1 buf @ take n1 p @ drop (o1 + n1) buf) st))))"
  by pat_completeness auto
termination
proof (relation "measure (\<lambda>(din, off, p, st). length p)", goal_cases)
  case (2 din off p st fbn y z x din' st' o1 n1 buf)
  have "o1 < BSIZE" using 2 by (simp add: BSIZE_def)
  then show ?case using 2 by (cases p) auto
qed simp

declare iappend_loop.simps [simp del]

definition iappend :: "u32 \<Rightarrow> u8 list \<Rightarrow> image \<Rightarrow> mkfs_error + image" where
  "iappend ino p st =
     (case rinode ino st of
        Inl e \<Rightarrow> Inl e
      | Inr din \<Rightarrow>
          (case iappend_loop din (di_size din) p st of
             Inl e \<Rightarrow> Inl e
           | Inr (din, off, st) \<Rightarrow> winode ino (din\<lparr>di_size := off\<rparr>) st))"

section \<open>The program\<close>

text \<open>The loop that copies a file of the host, which \<open>read\<close> delivers in blocks.\<close>

function copy_file :: "u32 \<Rightarrow> u8 list \<Rightarrow> image \<Rightarrow> mkfs_error + image" where
  "copy_file ino p st =
     (if p = [] then Inr st
      else case iappend ino (take BSIZE p) st of
             Inl e \<Rightarrow> Inl e
           | Inr st \<Rightarrow> copy_file ino (drop BSIZE p) st)"
  by pat_completeness auto
termination
  by (relation "measure (\<lambda>(ino, p, st). length p)") (auto simp: BSIZE_def)

declare copy_file.simps [simp del]

text \<open>
  The name in the directory: a leading underscore is dropped. The files are pairs of the name and the contents,
  \<open>None\<close> for a file that cannot be opened.
\<close>

definition mk_name :: "u8 list \<Rightarrow> u8 list" where
  "mk_name nm = (case nm of c # r \<Rightarrow> if c = of_char CHR ''_'' then r else nm | [] \<Rightarrow> nm)"

fun add_files :: "u32 \<Rightarrow> (u8 list \<times> u8 list option) list \<Rightarrow> image \<Rightarrow> mkfs_error + image" where
  "add_files rootino [] st = Inr st"
| "add_files rootino ((nm, None) # fs) st = Inl (if of_char CHR ''/'' \<in> set nm then Assert else Exit1)"
| "add_files rootino ((nm, Some p) # fs) st =
     (if of_char CHR ''/'' \<in> set nm then Inl Assert
      else case mk_ialloc T_FILE st of
        Inl e \<Rightarrow> Inl e
      | Inr (ino, st) \<Rightarrow>
          (case iappend rootino (mk_dirent (ucast ino) (mk_name nm)) st of
             Inl e \<Rightarrow> Inl e
           | Inr st \<Rightarrow>
               (case copy_file ino p st of
                  Inl e \<Rightarrow> Inl e
                | Inr st \<Rightarrow> add_files rootino fs st)))"

definition blank :: image where
  "blank =
     \<lparr>sects = (replicate (unat FSSIZE) (replicate BSIZE 0))[1 := sb_bytes mkfs_sb], freeinode = 1, freeblock = of_nat nmeta\<rparr>"

text \<open>The size of the root directory is rounded up at the end.\<close>

definition fix_root :: "u32 \<Rightarrow> image \<Rightarrow> mkfs_error + image" where
  "fix_root rootino st =
     (case rinode rootino st of
        Inl e \<Rightarrow> Inl e
      | Inr din \<Rightarrow> winode rootino (din\<lparr>di_size := (di_size din div of_nat BSIZE + 1) * of_nat BSIZE\<rparr>) st)"

definition mkfs :: "(u8 list \<times> u8 list option) list \<Rightarrow> mkfs_error + image" where
  "mkfs fs =
     (case mk_ialloc T_DIR blank of
        Inl e \<Rightarrow> Inl e
      | Inr (rootino, st) \<Rightarrow>
          if rootino \<noteq> ROOTINO then Inl Assert
          else
            (case iappend rootino (mk_dirent (ucast rootino) [of_char CHR ''.'']) st of
               Inl e \<Rightarrow> Inl e
             | Inr st \<Rightarrow>
                 (case iappend rootino (mk_dirent (ucast rootino) [of_char CHR ''.'', of_char CHR ''.'']) st of
                    Inl e \<Rightarrow> Inl e
                  | Inr st \<Rightarrow>
                      (case add_files rootino fs st of
                         Inl e \<Rightarrow> Inl e
                       | Inr st \<Rightarrow>
                           (case fix_root rootino st of
                              Inl e \<Rightarrow> Inl e
                            | Inr st \<Rightarrow> mk_balloc (unat (freeblock st)) st)))))"

section \<open>Sectors\<close>

lemma mk_consts:
  "BSIZE = 512" "unat FSSIZE = 1000" "NDIRECT = 12" "NINDIRECT = 128" "MAXFILE = 140" "nmeta = 59" "NINODES = 200"
  "IPB = 8" "DINODE_SIZE = 64" "LOGSIZE = 30" "ninodeblocks = 26"
  by (simp_all add: BSIZE_def FSSIZE_def NDIRECT_def NINDIRECT_def MAXFILE_def nmeta_def ninodeblocks_def
      NINODES_def IPB_def DINODE_SIZE_def LOGSIZE_def MAXOPBLOCKS_def)

lemma sect_no_small: "unat x < 1000 \<Longrightarrow> sect_no x = unat x"
proof -
  assume "unat x < 1000"
  then have "unat (x * 512) = unat x * 512" by (simp add: unat_word_ariths)
  then show ?thesis by (simp add: mk_consts)
qed

text \<open>The image between two operations: the blocks from \<open>freeblock\<close> on have not been touched.\<close>

definition img_ok :: "image \<Rightarrow> bool" where
  "img_ok st \<longleftrightarrow>
     length (sects st) = 1000 \<and> (\<forall>k<1000. length (sects st ! k) = 512) \<and> 59 \<le> unat (freeblock st) \<and> unat (freeblock st) \<le> 1000 \<and>
     (\<forall>k<1000. unat (freeblock st) \<le> k \<longrightarrow> sects st ! k = replicate 512 0)"

abbreviation sec :: "image \<Rightarrow> u32 \<Rightarrow> u8 list" where
  "sec st x \<equiv> sects st ! unat x"

lemma img_okD:
  assumes "img_ok st"
  shows "length (sects st) = 1000" "k < 1000 \<Longrightarrow> length (sects st ! k) = 512" "59 \<le> unat (freeblock st)" "unat (freeblock st) \<le> 1000"
    "k < 1000 \<Longrightarrow> unat (freeblock st) \<le> k \<Longrightarrow> sects st ! k = replicate 512 0"
  using assms by (auto simp: img_ok_def)

lemma rsect_ok: "img_ok st \<Longrightarrow> unat x < 1000 \<Longrightarrow> rsect x st = Inr (sec st x)"
  by (simp add: rsect_def sect_no_small img_okD(1))

lemma wsect_ok: "img_ok st \<Longrightarrow> unat x < 1000 \<Longrightarrow> wsect x d st = st\<lparr>sects := (sects st)[unat x := d]\<rparr>"
  by (simp add: wsect_def sect_no_small img_okD(1))

lemma wsect_img_ok:
  assumes "img_ok st" "unat x < unat (freeblock st)" "length d = 512"
  shows "img_ok (wsect x d st)"
proof -
  have "unat x < 1000" using assms(1,2) img_okD(4) by fastforce
  then show ?thesis using assms by (auto simp: wsect_ok img_ok_def nth_list_update)
qed

text \<open>Blocks are taken in order.\<close>

lemma freeblock_next:
  assumes "img_ok st" "unat (freeblock st) < 1000"
  shows "img_ok (st\<lparr>freeblock := freeblock st + 1\<rparr>)" "unat (freeblock st + 1) = unat (freeblock st) + 1"
    "sec st (freeblock st) = replicate 512 0"
proof -
  show u: "unat (freeblock st + 1) = unat (freeblock st) + 1" using assms(2) by (simp add: unat_word_ariths)
  show "img_ok (st\<lparr>freeblock := freeblock st + 1\<rparr>)" using assms u by (auto simp: img_ok_def)
  show "sec st (freeblock st) = replicate 512 0" using img_okD(5) [OF assms(1,2)] by simp
qed

section \<open>The blocks of a file\<close>

text \<open>The inode \<open>di\<close> has the data blocks \<open>bl\<close>, the first twelve in the inode and the others in a table.\<close>

definition rep :: "image \<Rightarrow> dinode \<Rightarrow> u32 list \<Rightarrow> bool" where
  "rep st di bl \<longleftrightarrow>
     length (di_addrs di) = 13 \<and> length bl \<le> 140 \<and> (\<forall>k<12. di_addrs di ! k = (if k < length bl then bl ! k else 0)) \<and>
     (if length bl \<le> 12 then di_addrs di ! 12 = 0
      else \<forall>j<128. get32 (sec st (di_addrs di ! 12)) (4 * j) = (if 12 + j < length bl then bl ! (12 + j) else 0))"

definition tabs :: "dinode \<Rightarrow> u32 list \<Rightarrow> u32 list" where
  "tabs di bl = (if 12 < length bl then [di_addrs di ! 12] else [])"

definition owned :: "dinode \<Rightarrow> u32 list \<Rightarrow> u32 list" where
  "owned di bl = bl @ tabs di bl"

definition blocks_ok :: "image \<Rightarrow> u32 list \<Rightarrow> bool" where
  "blocks_ok st xs \<longleftrightarrow> distinct xs \<and> (\<forall>x\<in>set xs. 59 \<le> unat x \<and> unat x < unat (freeblock st))"

definition file_bytes :: "image \<Rightarrow> u32 list \<Rightarrow> u8 list" where
  "file_bytes st bl = concat (map (sec st) bl)"

text \<open>Blocks for the data and the table of a file of \<open>n\<close> bytes.\<close>

definition nblk :: "nat \<Rightarrow> nat" where
  "nblk n = (n + 511) div 512 + (if 12 < (n + 511) div 512 then 1 else 0)"

lemma iappend_block_old:
  assumes ok: "img_ok st" and r: "rep st di bl" and b: "blocks_ok st (owned di bl)" and k: "k < length bl"
  shows "iappend_block k di st = Inr (bl ! k, di, st)"
proof -
  have "59 \<le> unat (bl ! k)" using b nth_mem [OF k] by (simp add: blocks_ok_def owned_def)
  then have nz: "bl ! k \<noteq> 0" by auto
  show ?thesis
  proof (cases "k < 12")
    case True
    then show ?thesis using r k nz by (simp add: iappend_block_def rep_def mk_consts)
  next
    case False
    then have l: "12 < length bl" "length bl \<le> 140" using k r by (simp_all add: rep_def)
    have t: "unat (di_addrs di ! 12) < 1000" "di_addrs di ! 12 \<noteq> 0"
      using b l(1) img_okD(4) [OF ok] by (auto simp: blocks_ok_def owned_def tabs_def)
    have "get32 (sec st (di_addrs di ! 12)) (4 * (k - 12)) = bl ! k"
      using r False k l by (auto simp: rep_def)
    then show ?thesis using False t nz rsect_ok [OF ok t(1)] by (simp add: iappend_block_def mk_consts Let_def)
  qed
qed

text \<open>
  What taking a new block does: the file gets the block \<open>x\<close>, which is zero; only the table of the file
  changes among the blocks that were in use.
\<close>

definition extended :: "image \<Rightarrow> dinode \<Rightarrow> u32 list \<Rightarrow> u32 \<Rightarrow> dinode \<Rightarrow> image \<Rightarrow> bool" where
  "extended st di bl x di' st' \<longleftrightarrow>
     img_ok st' \<and> rep st' di' (bl @ [x]) \<and> blocks_ok st' (owned di' (bl @ [x])) \<and> sec st' x = replicate 512 0 \<and>
     (\<forall>y\<in>set (owned di' (bl @ [x])). y \<in> set (owned di bl) \<or> unat (freeblock st) \<le> unat y) \<and>
     unat (freeblock st') = unat (freeblock st) + (if length bl = 12 then 2 else 1) \<and> freeinode st' = freeinode st \<and>
     di' = di\<lparr>di_addrs := di_addrs di'\<rparr> \<and>
     (\<forall>k<1000. k < unat (freeblock st) \<longrightarrow> k \<notin> unat ` set (tabs di bl) \<longrightarrow> sects st' ! k = sects st ! k)"

lemma extend_direct:
  assumes ok: "img_ok st" and r: "rep st di bl" and b: "blocks_ok st (owned di bl)" and k: "length bl < 12" and f: "unat (freeblock st) < 1000"
  shows "\<exists>x di' st'. iappend_block (length bl) di st = Inr (x, di', st') \<and> extended st di bl x di' st'"
proof -
  let ?x = "freeblock st"
  let ?di = "di\<lparr>di_addrs := (di_addrs di)[length bl := ?x]\<rparr>"
  let ?st = "st\<lparr>freeblock := ?x + 1\<rparr>"
  note n = freeblock_next [OF ok f]
  have z: "di_addrs di ! length bl = 0" "length (di_addrs di) = 13" using r k by (simp_all add: rep_def)
  have o: "owned di bl = bl" "owned ?di (bl @ [?x]) = bl @ [?x]" using k by (simp_all add: owned_def tabs_def)
  have "rep ?st ?di (bl @ [?x])" using r k by (auto simp: rep_def nth_append nth_list_update)
  moreover have "blocks_ok ?st (bl @ [?x])"
    using b n(2) img_okD(3) [OF ok] unfolding o(1) by (auto simp: blocks_ok_def)
  ultimately have "extended st di bl ?x ?di ?st" using n o k by (auto simp: extended_def)
  moreover have "iappend_block (length bl) di st = Inr (?x, ?di, ?st)"
    using z k by (simp add: iappend_block_def mk_consts)
  ultimately show ?thesis by blast
qed

text \<open>An entry of the table is set.\<close>

lemma rep_table:
  assumes k: "12 \<le> length bl" "length bl < 140" and d: "length (di_addrs di) = 13" "\<forall>k<12. di_addrs di ! k = bl ! k"
    and s: "sec st' (di_addrs di ! 12) = set32 tb (4 * (length bl - 12)) x" "length tb = 512"
      "\<forall>j<128. get32 tb (4 * j) = (if 12 + j < length bl then bl ! (12 + j) else 0)"
  shows "rep st' di (bl @ [x])"
proof -
  have "get32 (sec st' (di_addrs di ! 12)) (4 * j) = (if 12 + j < length bl + 1 then (bl @ [x]) ! (12 + j) else 0)"
    if j: "j < 128" for j
  proof (cases "j = length bl - 12")
    case True
    then have "get32 (sec st' (di_addrs di ! 12)) (4 * j) = x" using s(1,2) j by (simp add: get32_set32)
    then show ?thesis using True k by (simp add: nth_append)
  next
    case False
    then have "4 * j + 4 \<le> 4 * (length bl - 12) \<or> 4 * (length bl - 12) + 4 \<le> 4 * j" by linarith
    then have "get32 (sec st' (di_addrs di ! 12)) (4 * j) = get32 tb (4 * j)" using s(1) by (simp add: get32_set32_other)
    then show ?thesis using s(3) j False k by (auto simp: nth_append)
  qed
  then show ?thesis using k d by (auto simp: rep_def nth_append)
qed

lemma get32_zero: "j < 128 \<Longrightarrow> get32 (replicate 512 0) (4 * j) = 0"
  by (simp add: get32_def word_of_bytes_def)

lemma extend_slot:
  assumes ok: "img_ok st" and k: "12 \<le> length bl" "length bl < 140" and f: "unat (freeblock st) < 1000"
    and d: "length (di_addrs di) = 13" "\<forall>k<12. di_addrs di ! k = bl ! k" and b: "blocks_ok st (bl @ [di_addrs di ! 12])"
    and e: "\<forall>j<128. get32 (sec st (di_addrs di ! 12)) (4 * j) = (if 12 + j < length bl then bl ! (12 + j) else 0)"
  defines "st' \<equiv> wsect (di_addrs di ! 12) (set32 (sec st (di_addrs di ! 12)) (4 * (length bl - 12)) (freeblock st)) (st\<lparr>freeblock := freeblock st + 1\<rparr>)"
  shows "img_ok st'" "rep st' di (bl @ [freeblock st])" "blocks_ok st' (owned di (bl @ [freeblock st]))"
    "sec st' (freeblock st) = replicate 512 0" "unat (freeblock st') = unat (freeblock st) + 1" "freeinode st' = freeinode st"
    "\<And>k. k \<noteq> unat (di_addrs di ! 12) \<Longrightarrow> sects st' ! k = sects st ! k"
proof -
  let ?t = "di_addrs di ! 12"
  note n = freeblock_next [OF ok f]
  have t: "59 \<le> unat ?t" "unat ?t < unat (freeblock st)" using b by (auto simp: blocks_ok_def)
  then have w: "st' = st\<lparr>freeblock := freeblock st + 1, sects := (sects st)[unat ?t := set32 (sec st ?t) (4 * (length bl - 12)) (freeblock st)]\<rparr>"
    using wsect_ok [OF n(1), of ?t] f unfolding st'_def by simp
  have l: "length (sec st ?t) = 512" "length (sects st) = 1000" using img_okD [OF ok] t f by auto
  show "img_ok st'" unfolding st'_def using wsect_img_ok [OF n(1), of ?t] n(2) t l by simp
  show "rep st' di (bl @ [freeblock st])" using rep_table [OF k d _ l(1) e, of st' "freeblock st"] w l t f by simp
  show "blocks_ok st' (owned di (bl @ [freeblock st]))"
    using b w n(2) img_okD(3) [OF ok] k by (auto simp: blocks_ok_def owned_def tabs_def)
  show "sec st' (freeblock st) = replicate 512 0" using n(3) w t by simp
  show "unat (freeblock st') = unat (freeblock st) + 1" "freeinode st' = freeinode st" using w n(2) by simp_all
  show "\<And>k. k \<noteq> unat ?t \<Longrightarrow> sects st' ! k = sects st ! k" using w by simp
qed

lemma extend_later:
  assumes ok: "img_ok st" and r: "rep st di bl" and b: "blocks_ok st (owned di bl)" and k: "12 < length bl" "length bl < 140" and f: "unat (freeblock st) < 1000"
  shows "\<exists>x di' st'. iappend_block (length bl) di st = Inr (x, di', st') \<and> extended st di bl x di' st'"
proof -
  let ?t = "di_addrs di ! 12"
  let ?st = "wsect ?t (set32 (sec st ?t) (4 * (length bl - 12)) (freeblock st)) (st\<lparr>freeblock := freeblock st + 1\<rparr>)"
  have d: "length (di_addrs di) = 13" "\<forall>k<12. di_addrs di ! k = bl ! k"
    and e: "\<forall>j<128. get32 (sec st ?t) (4 * j) = (if 12 + j < length bl then bl ! (12 + j) else 0)"
    using r k by (simp_all add: rep_def)
  have o: "owned di bl = bl @ [?t]" using k by (simp add: owned_def tabs_def)
  note p = extend_slot [OF ok _ k(2) f d b [unfolded o] e]
  have t: "?t \<noteq> 0" "unat ?t < 1000" using b img_okD(4) [OF ok] unfolding o by (auto simp: blocks_ok_def)
  have "get32 (sec st ?t) (4 * (length bl - 12)) = 0" using spec [OF e, of "length bl - 12"] k by simp
  then have "iappend_block (length bl) di st = Inr (freeblock st, di, ?st)"
    using k t rsect_ok [OF ok t(2)] img_okD(2) [OF ok t(2)] by (simp add: iappend_block_def mk_consts Let_def get32_set32)
  moreover have "extended st di bl (freeblock st) di ?st"
    unfolding extended_def using p k by (auto simp: owned_def tabs_def)
  ultimately show ?thesis by blast
qed

lemma extend_first:
  assumes ok: "img_ok st" and r: "rep st di bl" and b: "blocks_ok st (owned di bl)" and k: "length bl = 12" and f: "unat (freeblock st) + 1 < 1000"
  shows "\<exists>x di' st'. iappend_block (length bl) di st = Inr (x, di', st') \<and> extended st di bl x di' st'"
proof -
  let ?t = "freeblock st"
  let ?s1 = "st\<lparr>freeblock := ?t + 1\<rparr>"
  let ?di = "di\<lparr>di_addrs := (di_addrs di)[12 := ?t]\<rparr>"
  let ?st = "wsect ?t (set32 (sec ?s1 ?t) 0 (?t + 1)) (?s1\<lparr>freeblock := ?t + 1 + 1\<rparr>)"
  have f1: "unat (freeblock st) < 1000" using f by simp
  note n = freeblock_next [OF ok f1]
  have z: "di_addrs di ! 12 = 0" "length (di_addrs di) = 13" "\<forall>k<12. di_addrs di ! k = bl ! k" using r k by (simp_all add: rep_def)
  have f2: "unat (freeblock ?s1) < 1000" using f n(2) by simp
  have d: "length (di_addrs ?di) = 13" "\<forall>k<12. di_addrs ?di ! k = bl ! k" and a: "di_addrs ?di ! 12 = ?t" using z by simp_all
  have b1: "blocks_ok ?s1 (bl @ [di_addrs ?di ! 12])"
    using b n(2) img_okD(3) [OF ok] k unfolding a by (auto simp: blocks_ok_def owned_def tabs_def)
  have e: "\<forall>j<128. get32 (sec ?s1 (di_addrs ?di ! 12)) (4 * j) = (if 12 + j < length bl then bl ! (12 + j) else 0)"
    unfolding a using n(3) k by (simp add: get32_zero)
  have k12: "12 \<le> length bl" "length bl < 140" using k by simp_all
  note p = extend_slot [OF n(1) k12 f2 d b1 e, unfolded a]
  have "get32 (sec st ?t) 0 = 0" using n(3) get32_zero [of 0] by simp
  moreover have "?t \<noteq> 0" using img_okD(3) [OF ok] by auto
  ultimately have "iappend_block (length bl) di st = Inr (?t + 1, ?di, ?st)"
    using k z rsect_ok [OF n(1) f1] n(3) by (simp add: iappend_block_def mk_consts Let_def get32_set32)
  moreover have "extended st di bl (?t + 1) ?di ?st"
    unfolding extended_def using p k n(2) z(2) by (auto simp: owned_def tabs_def)
  ultimately show ?thesis by blast
qed

lemma iappend_block_new:
  assumes "img_ok st" "rep st di bl" "blocks_ok st (owned di bl)" "length bl < 140"
    and "unat (freeblock st) + (if length bl = 12 then 2 else 1) \<le> 1000"
  shows "\<exists>x di' st'. iappend_block (length bl) di st = Inr (x, di', st') \<and> extended st di bl x di' st'"
proof (cases "length bl" "12 :: nat" rule: linorder_cases)
  case less
  then show ?thesis using extend_direct [OF assms(1-3)] assms(5) by simp
next
  case equal
  then show ?thesis using extend_first [OF assms(1-3)] assms(5) by simp
next
  case greater
  then show ?thesis using extend_later [OF assms(1-3)] assms(4,5) by simp
qed

text \<open>
  What appending to a file leaves alone: blocks in use by others, the fields of the inode other than its
  addresses, and the count of inodes. Blocks are only added from the free ones.
\<close>

definition grown :: "image \<Rightarrow> dinode \<Rightarrow> u32 list \<Rightarrow> image \<Rightarrow> dinode \<Rightarrow> u32 list \<Rightarrow> bool" where
  "grown st di bl st' di' bl' \<longleftrightarrow>
     unat (freeblock st) \<le> unat (freeblock st') \<and> freeinode st' = freeinode st \<and> di' = di\<lparr>di_addrs := di_addrs di'\<rparr> \<and>
     (\<forall>k<unat (freeblock st). k \<notin> unat ` set (owned di bl) \<longrightarrow> sects st' ! k = sects st ! k) \<and>
     (\<forall>y\<in>set (owned di' bl'). y \<in> set (owned di bl) \<or> unat (freeblock st) \<le> unat y)"

lemma grown_refl: "grown st di bl st di bl"
  by (simp add: grown_def)

lemma dinode_addrs_twice: "di\<lparr>di_addrs := a\<rparr>\<lparr>di_addrs := c\<rparr> = di\<lparr>di_addrs := c\<rparr>" for di :: dinode
  by simp

lemma grown_trans:
  assumes "grown st di bl st1 di1 bl1" "grown st1 di1 bl1 st2 di2 bl2"
  shows "grown st di bl st2 di2 bl2"
proof -
  have "sects st2 ! k = sects st ! k" if k: "k < unat (freeblock st)" "k \<notin> unat ` set (owned di bl)" for k
  proof -
    have "k \<notin> unat ` set (owned di1 bl1)" using assms(1) k by (force simp: grown_def)
    then show ?thesis using assms k by (simp add: grown_def)
  qed
  moreover have "y \<in> set (owned di bl) \<or> unat (freeblock st) \<le> unat y" if "y \<in> set (owned di2 bl2)" for y
    using assms that unfolding grown_def by (meson le_trans)
  moreover have "di1 = di\<lparr>di_addrs := di_addrs di1\<rparr>" "di2 = di1\<lparr>di_addrs := di_addrs di2\<rparr>"
    using assms by (simp_all add: grown_def)
  then have "di2 = di\<lparr>di_addrs := di_addrs di2\<rparr>" by (metis dinode_addrs_twice)
  moreover have "unat (freeblock st) \<le> unat (freeblock st2)" "freeinode st2 = freeinode st"
    using assms unfolding grown_def by auto
  ultimately show ?thesis unfolding grown_def by blast
qed

lemma extended_grown:
  assumes "extended st di bl x di' st'" "img_ok st"
  shows "grown st di bl st' di' (bl @ [x])"
proof -
  have "sects st' ! k = sects st ! k" if k: "k < unat (freeblock st)" "k \<notin> unat ` set (owned di bl)" for k
  proof -
    have "k \<notin> unat ` set (tabs di bl)" "k < 1000" using k img_okD(4) [OF assms(2)] by (auto simp: owned_def)
    then show ?thesis using assms(1) k(1) unfolding extended_def by blast
  qed
  moreover have "unat (freeblock st) \<le> unat (freeblock st')" "freeinode st' = freeinode st"
    "di' = di\<lparr>di_addrs := di_addrs di'\<rparr>"
    "\<forall>y\<in>set (owned di' (bl @ [x])). y \<in> set (owned di bl) \<or> unat (freeblock st) \<le> unat y"
    using assms(1) unfolding extended_def by simp_all
  ultimately show ?thesis unfolding grown_def by blast
qed

text \<open>Writing a block of the file.\<close>

lemma write_block:
  assumes ok: "img_ok st" and r: "rep st di (pre @ [x])" and b: "blocks_ok st (owned di (pre @ [x]))" and d: "length d = 512"
  shows "img_ok (wsect x d st)" "rep (wsect x d st) di (pre @ [x])" "blocks_ok (wsect x d st) (owned di (pre @ [x]))"
    "file_bytes (wsect x d st) (pre @ [x]) = file_bytes st pre @ d" "grown st di (pre @ [x]) (wsect x d st) di (pre @ [x])"
    "freeblock (wsect x d st) = freeblock st"
proof -
  have x: "59 \<le> unat x" "unat x < unat (freeblock st)" "x \<notin> set pre" using b by (auto simp: blocks_ok_def owned_def)
  have x1: "unat x < 1000" using x img_okD(4) [OF ok] by simp
  note w = wsect_ok [OF ok x1]
  show "img_ok (wsect x d st)" by (rule wsect_img_ok [OF ok x(2) d])
  have other: "sec (wsect x d st) y = sec st y" if "y \<noteq> x" for y
    using that w by (simp add: word_unat_eq_iff)
  have "di_addrs di ! 12 \<noteq> x" if "12 < length (pre @ [x])"
    using b that by (auto simp: blocks_ok_def owned_def tabs_def)
  then have "sec (wsect x d st) (di_addrs di ! 12) = sec st (di_addrs di ! 12)" if "12 < length (pre @ [x])"
    using that other by blast
  then show "rep (wsect x d st) di (pre @ [x])" using r unfolding rep_def by simp
  show "blocks_ok (wsect x d st) (owned di (pre @ [x]))" using b unfolding w by (simp add: blocks_ok_def)
  have "map (sec (wsect x d st)) pre = map (sec st) pre" unfolding map_eq_conv using x(3) other by metis
  moreover have "sec (wsect x d st) x = d" using x1 img_okD(1) [OF ok] by (simp add: w)
  ultimately show "file_bytes (wsect x d st) (pre @ [x]) = file_bytes st pre @ d" by (simp add: file_bytes_def del: map_eq_conv)
  show "grown st di (pre @ [x]) (wsect x d st) di (pre @ [x])" unfolding grown_def w by (auto simp: owned_def)
  show "freeblock (wsect x d st) = freeblock st" by (simp add: w)
qed

section \<open>Appending\<close>

text \<open>The inode \<open>di\<close> has the contents \<open>c\<close> in the blocks \<open>bl\<close>, and zeros in the rest of the last one.\<close>

definition has :: "image \<Rightarrow> dinode \<Rightarrow> u32 list \<Rightarrow> u8 list \<Rightarrow> bool" where
  "has st di bl c \<longleftrightarrow>
     rep st di bl \<and> blocks_ok st (owned di bl) \<and> length bl = (length c + 511) div 512 \<and>
     file_bytes st bl = c @ replicate (512 * length bl - length c) 0"

lemma file_bytes_length:
  assumes "img_ok st" "\<forall>x\<in>set bl. unat x < unat (freeblock st)"
  shows "length (file_bytes st bl) = 512 * length bl"
proof -
  have "length (sec st x) = 512" if "x \<in> set bl" for x
    using that assms(2) img_okD [OF assms(1)] by fastforce
  then show ?thesis by (induction bl) (simp_all add: file_bytes_def)
qed

lemma round_up:
  "n mod 512 = 0 \<Longrightarrow> (n + 511) div 512 = n div 512"
  "n mod 512 \<noteq> 0 \<Longrightarrow> (n + 511) div 512 = n div 512 + 1"
  "0 < m \<Longrightarrow> m \<le> 512 - n mod 512 \<Longrightarrow> (n + m + 511) div 512 = n div 512 + 1" for n m :: nat
proof -
  define q r where "q = n div 512" and "r = n mod 512"
  then have n: "n = r + 512 * q" "r < 512" "n div 512 = q" "n mod 512 = r" by simp_all
  have e: "(r + 512 * q + k + 511) div 512 = q + (r + k + 511) div 512" for k
    using div_mult_self2 [of 512 "r + k + 511" q] by (simp add: algebra_simps)
  have "(r + k + 511) div 512 = 1" if "0 < r + k" "r + k \<le> 512" for k
    by (rule div_nat_eqI) (use that in auto)
  then show "n mod 512 = 0 \<Longrightarrow> (n + 511) div 512 = n div 512" "n mod 512 \<noteq> 0 \<Longrightarrow> (n + 511) div 512 = n div 512 + 1"
    "0 < m \<Longrightarrow> m \<le> 512 - n mod 512 \<Longrightarrow> (n + m + 511) div 512 = n div 512 + 1"
    unfolding n(3,4) using e [of 0] e [of m] n(1,2) by simp_all
qed

lemma tail_length: "512 * (n div 512 + 1) - (n + q) = 512 - n mod 512 - q" for n q :: nat
proof -
  have "512 * (d + 1) - (512 * d + m + q) = 512 - m - q" for d m :: nat by simp
  from this [of "n div 512" "n mod 512"] show ?thesis by simp
qed

text \<open>The block in which byte \<open>length c\<close> goes is the last one of the file, there already or new.\<close>

lemma get_block_old:
  assumes ok: "img_ok st" and h: "has st di bl c" and m: "length c mod 512 \<noteq> 0"
  shows "\<exists>x pre. iappend_block (length c div 512) di st = Inr (x, di, st) \<and> bl = pre @ [x] \<and> length pre = length c div 512 \<and>
      c = file_bytes st pre @ take (length c mod 512) (sec st x) \<and>
      drop (length c mod 512) (sec st x) = replicate (512 - length c mod 512) 0"
proof -
  have r: "rep st di bl" "blocks_ok st (owned di bl)" using h by (simp_all add: has_def)
  have l: "length bl = length c div 512 + 1" using h round_up(2) [OF m] by (simp add: has_def)
  then obtain pre x where bl: "bl = pre @ [x]" by (cases bl rule: rev_cases) auto
  then have p: "length pre = length c div 512" using l by simp
  have "blocks_ok st (owned di (pre @ [x]))" using r bl by simp
  then have f: "length (file_bytes st pre) = 512 * length pre"
    using file_bytes_length [OF ok, of pre] by (auto simp: blocks_ok_def owned_def)
  have b: "file_bytes st pre @ sec st x = c @ replicate (512 * length bl - length c) 0"
    using h bl unfolding has_def by (simp add: file_bytes_def del: length_append)
  have "512 * length bl - length c = 512 - length c mod 512" using tail_length [of "length c" 0] l by simp
  moreover have "take (length c) (file_bytes st pre @ sec st x) = c"
      "drop (length c) (file_bytes st pre @ sec st x) = replicate (512 * length bl - length c) 0"
    unfolding b by simp_all
  ultimately have "c = file_bytes st pre @ take (length c mod 512) (sec st x)"
      "drop (length c mod 512) (sec st x) = replicate (512 - length c mod 512) 0"
    using p f by (simp_all add: minus_mult_div_eq_mod)
  moreover have "iappend_block (length pre) di st = Inr (x, di, st)"
    using iappend_block_old [OF ok r, of "length pre"] bl by simp
  ultimately show ?thesis using bl p by auto
qed

lemma extended_bytes:
  assumes e: "extended st di bl x di' st'" and ok: "img_ok st" and b: "blocks_ok st (owned di bl)"
  shows "file_bytes st' bl = file_bytes st bl"
proof -
  have "sec st' y = sec st y" if y: "y \<in> set bl" for y
  proof -
    have "unat y < unat (freeblock st)" "y \<notin> set (tabs di bl)" using b y by (auto simp: blocks_ok_def owned_def)
    moreover have "unat y \<notin> unat ` set (tabs di bl)" using calculation(2) by (auto simp: word_unat_eq_iff [symmetric])
    ultimately show ?thesis using e img_okD(4) [OF ok] by (simp add: extended_def)
  qed
  then show ?thesis unfolding file_bytes_def by (metis (no_types, lifting) map_eq_conv)
qed

lemma get_block_new:
  assumes ok: "img_ok st" and h: "has st di bl c" and m: "length c mod 512 = 0" and c: "length c < 140 * 512"
    and f: "unat (freeblock st) + (if length bl = 12 then 2 else 1) \<le> 1000"
  shows "\<exists>x di' st'. iappend_block (length c div 512) di st = Inr (x, di', st') \<and> extended st di bl x di' st' \<and>
      length bl = length c div 512 \<and> c = file_bytes st' bl"
proof -
  have r: "rep st di bl" "blocks_ok st (owned di bl)" and l: "length bl = length c div 512"
    and t: "file_bytes st bl = c @ replicate (512 * length bl - length c) 0"
    using h round_up(1) [OF m] by (simp_all add: has_def)
  have "length bl < 140" using l c by simp
  then obtain x di' st' where n: "iappend_block (length bl) di st = Inr (x, di', st')" and e: "extended st di bl x di' st'"
    using iappend_block_new [OF ok r _ f] by blast
  have "length (file_bytes st bl) = length c"
    using file_bytes_length [OF ok, of bl] r(2) l m by (auto simp: blocks_ok_def owned_def)
  then have "c = file_bytes st' bl" using t extended_bytes [OF e ok r(2)] by simp
  then show ?thesis using n e l by auto
qed

text \<open>Either way.\<close>

definition got :: "image \<Rightarrow> dinode \<Rightarrow> u32 list \<Rightarrow> u8 list \<Rightarrow> u32 list \<Rightarrow> u32 \<Rightarrow> dinode \<Rightarrow> image \<Rightarrow> bool" where
  "got st di bl c pre x di' st' \<longleftrightarrow>
     img_ok st' \<and> rep st' di' (pre @ [x]) \<and> blocks_ok st' (owned di' (pre @ [x])) \<and> length pre = length c div 512 \<and>
     c = file_bytes st' pre @ take (length c mod 512) (sec st' x) \<and>
     drop (length c mod 512) (sec st' x) = replicate (512 - length c mod 512) 0 \<and> grown st di bl st' di' (pre @ [x]) \<and>
     unat (freeblock st') + nblk (length c) = unat (freeblock st) + nblk (512 * (length c div 512) + 1)"

lemma nblk_first:
  "n mod 512 \<noteq> 0 \<Longrightarrow> nblk (512 * (n div 512) + 1) = nblk n"
  "n mod 512 = 0 \<Longrightarrow> nblk (512 * (n div 512) + 1) = nblk n + (if n div 512 = 12 then 2 else 1)"
  "0 < m \<Longrightarrow> m \<le> 512 - n mod 512 \<Longrightarrow> nblk (n + m) = nblk (512 * (n div 512) + 1)"
  using round_up(1,2) [of n] round_up(3) [of m n] round_up(3) [of 1 "512 * (n div 512)"]
  by (simp_all add: nblk_def)

lemma get_block:
  assumes ok: "img_ok st" and h: "has st di bl c" and c: "length c < 140 * 512"
    and f: "unat (freeblock st) + nblk (512 * (length c div 512) + 1) \<le> 1000 + nblk (length c)"
  shows "\<exists>x pre di' st'. iappend_block (length c div 512) di st = Inr (x, di', st') \<and> got st di bl c pre x di' st'"
proof (cases "length c mod 512 = 0")
  case True
  have l: "length bl = length c div 512" using h round_up(1) [OF True] by (simp add: has_def)
  have "unat (freeblock st) + (if length bl = 12 then 2 else 1) \<le> 1000" using f nblk_first(2) [OF True] l by simp
  then obtain x di' st' where n: "iappend_block (length c div 512) di st = Inr (x, di', st')" and e: "extended st di bl x di' st'"
    and p: "length bl = length c div 512" "c = file_bytes st' bl"
    using get_block_new [OF ok h True c] by blast
  have "got st di bl c bl x di' st'"
    unfolding got_def using e extended_grown [OF e ok] p True nblk_first(2) [OF True] by (simp add: extended_def)
  then show ?thesis using n by blast
next
  case False
  then obtain x pre where n: "iappend_block (length c div 512) di st = Inr (x, di, st)" and p: "bl = pre @ [x]"
      "length pre = length c div 512" "c = file_bytes st pre @ take (length c mod 512) (sec st x)"
      "drop (length c mod 512) (sec st x) = replicate (512 - length c mod 512) 0"
    using get_block_old [OF ok h] by blast
  have "got st di bl c pre x di st"
    unfolding got_def using p(2) h ok nblk_first(1) [OF False] grown_refl [of st di bl] unfolding p(1)
    using p(3,4) by (simp add: has_def)
  then show ?thesis using n by blast
qed

lemma nblk_mono: "m \<le> n \<Longrightarrow> nblk m \<le> nblk n"
  using div_le_mono [of "m + 511" "n + 511" 512] by (simp add: nblk_def)

text \<open>The contents \<open>p\<close> have been appended to the \<open>c\<close> that the file had.\<close>

definition appended :: "image \<Rightarrow> dinode \<Rightarrow> u32 list \<Rightarrow> u8 list \<Rightarrow> u8 list \<Rightarrow> image \<Rightarrow> dinode \<Rightarrow> u32 list \<Rightarrow> bool" where
  "appended st di bl c p st' di' bl' \<longleftrightarrow>
     img_ok st' \<and> has st' di' bl' (c @ p) \<and> grown st di bl st' di' bl' \<and>
     unat (freeblock st') + nblk (length c) = unat (freeblock st) + nblk (length c + length p)"

lemma appended_trans:
  assumes "appended st di bl c p st1 di1 bl1" "appended st1 di1 bl1 (c @ p) q st2 di2 bl2"
  shows "appended st di bl c (p @ q) st2 di2 bl2"
  using assms grown_trans [of st di bl st1 di1 bl1 st2 di2 bl2] unfolding appended_def by (simp add: add.assoc)

lemma got_write:
  assumes g: "got st di bl c pre x di' st'" and q: "q \<noteq> []" "length q \<le> 512 - length c mod 512"
  defines "buf \<equiv> sec st' x"
  shows "rsect x st' = Inr buf"
    "appended st di bl c q (wsect x (take (length c mod 512) buf @ q @ drop (length c mod 512 + length q) buf) st') di' (pre @ [x])"
proof -
  let ?d = "take (length c mod 512) buf @ q @ drop (length c mod 512 + length q) buf"
  have ok: "img_ok st'" and r: "rep st' di' (pre @ [x])" "blocks_ok st' (owned di' (pre @ [x]))" and l: "length pre = length c div 512"
    and c: "c = file_bytes st' pre @ take (length c mod 512) buf"
    and z: "drop (length c mod 512) buf = replicate (512 - length c mod 512) 0" and w: "grown st di bl st' di' (pre @ [x])"
    and n: "unat (freeblock st') + nblk (length c) = unat (freeblock st) + nblk (512 * (length c div 512) + 1)"
    using g by (auto simp: got_def buf_def)
  have x: "unat x < 1000" using r(2) img_okD(4) [OF ok] by (auto simp: blocks_ok_def owned_def)
  show "rsect x st' = Inr buf" using rsect_ok [OF ok x] by (simp add: buf_def)
  have b: "length buf = 512" using img_okD(2) [OF ok x] by (simp add: buf_def)
  have m: "length c mod 512 < 512" by simp
  then have d: "length ?d = 512" using b q(2) by simp
  note wb = write_block [OF ok r d]
  have u: "(length (c @ q) + 511) div 512 = length c div 512 + 1" using round_up(3) [of "length q" "length c"] q by simp
  have "drop (length c mod 512 + length q) buf = replicate (512 - length c mod 512 - length q) 0"
    using arg_cong [OF z, of "drop (length q)"] by (simp add: add.commute)
  moreover have "512 * length (pre @ [x]) - length (c @ q) = 512 - length c mod 512 - length q"
    using tail_length [of "length c" "length q"] l by simp
  moreover have "file_bytes (wsect x ?d st') (pre @ [x]) = c @ q @ drop (length c mod 512 + length q) buf"
    using wb(4) c by (metis append.assoc)
  ultimately have "has (wsect x ?d st') di' (pre @ [x]) (c @ q)" using wb(2,3) u l by (simp add: has_def)
  moreover have "nblk (length c + length q) = nblk (512 * (length c div 512) + 1)" using nblk_first(3) [of "length q" "length c"] q by simp
  ultimately show "appended st di bl c q (wsect x ?d st') di' (pre @ [x])"
    using wb(1,6) n grown_trans [OF w wb(5)] by (simp add: appended_def)
qed

text \<open>One round of the loop, which appends as much as goes into the block.\<close>

lemma iappend_loop_round:
  assumes ok: "img_ok st" and h: "has st di bl c" and off: "unat off = length c" and c: "length c + length p \<le> 140 * 512"
    and f: "unat (freeblock st) + nblk (length c + length p) \<le> 1000 + nblk (length c)" and p: "p \<noteq> []"
  shows "\<exists>n st' di' bl'. 0 < n \<and> n \<le> length p \<and> unat (off + of_nat n) = length (c @ take n p) \<and>
    iappend_loop di off p st = iappend_loop di' (off + of_nat n) (drop n p) st' \<and> appended st di bl c (take n p) st' di' bl'"
proof -
  let ?o1 = "length c mod 512"
  let ?n1 = "min (length p) (512 - ?o1)"
  have o1: "?o1 < 512" by simp
  have n1: "0 < ?n1" "?n1 \<le> 512 - ?o1" "?n1 \<le> length p" using p o1 by simp_all
  have c1: "length c < 140 * 512" using c n1 by linarith
  have g: "nblk (512 * (length c div 512) + 1) \<le> nblk (length c + length p)"
    using nblk_first(3) [OF n1(1,2)] nblk_mono [of "length c + ?n1" "length c + length p"] n1(3) by simp
  then obtain x pre di1 st1 where b: "iappend_block (length c div 512) di st = Inr (x, di1, st1)" and
      got: "got st di bl c pre x di1 st1"
    using get_block [OF ok h c1] f by force
  let ?st2 = "wsect x (take ?o1 (sec st1 x) @ take ?n1 p @ drop (?o1 + ?n1) (sec st1 x)) st1"
  have q: "take ?n1 p \<noteq> []" "length (take ?n1 p) = ?n1" using p n1 by auto
  have w: "rsect x st1 = Inr (sec st1 x)" "appended st di bl c (take ?n1 p) ?st2 di1 (pre @ [x])"
    using got_write [OF got q(1)] n1(2) unfolding q(2) by simp_all
  have "unat (off + of_nat ?n1) = length (c @ take ?n1 p)"
    using off c n1 by (simp add: unat_word_ariths unat_of_nat)
  moreover have "iappend_loop di off p st = iappend_loop di1 (off + of_nat ?n1) (drop ?n1 p) ?st2"
    using p off b w(1) less_mult_imp_div_less [OF c1] by (subst iappend_loop.simps) (simp add: mk_consts Let_def)
  ultimately show ?thesis using n1(1,3) w(2) by blast
qed

lemma iappend_loop_appends:
  assumes "img_ok st" "has st di bl c" "unat off = length c" "length c + length p \<le> 140 * 512"
    and "unat (freeblock st) + nblk (length c + length p) \<le> 1000 + nblk (length c)"
  shows "\<exists>st' di' bl'. iappend_loop di off p st = Inr (di', of_nat (length c + length p), st') \<and> appended st di bl c p st' di' bl'"
  using assms
proof (induction "length p" arbitrary: st di bl c off p rule: less_induct)
  case less
  note ok = less.prems(1) and h = less.prems(2) and off = less.prems(3) and c = less.prems(4) and f = less.prems(5)
  show ?case
  proof (cases "p = []")
    case True
    then have "iappend_loop di off p st = Inr (di, of_nat (length c + length p), st)"
      using off by (simp add: iappend_loop.simps flip: off)
    moreover have "appended st di bl c p st di bl" using True ok h grown_refl by (simp add: appended_def)
    ultimately show ?thesis by blast
  next
    case False
    then obtain n st2 di2 bl2 where n: "0 < n" "n \<le> length p" "unat (off + of_nat n) = length (c @ take n p)"
        and s: "iappend_loop di off p st = iappend_loop di2 (off + of_nat n) (drop n p) st2"
        and w: "appended st di bl c (take n p) st2 di2 bl2"
      using iappend_loop_round [OF ok h off c f] by blast
    have len: "length (drop n p) < length p" "length (c @ take n p) + length (drop n p) = length c + length p" using n(1,2) by simp_all
    have a: "img_ok st2" "has st2 di2 bl2 (c @ take n p)"
        "unat (freeblock st2) + nblk (length c) = unat (freeblock st) + nblk (length (c @ take n p))"
      using w unfolding appended_def length_append by blast+
    have "unat (freeblock st2) + nblk (length c + length p) \<le> 1000 + nblk (length (c @ take n p))" using a(3) f by linarith
    then obtain st' di' bl' where
        i: "iappend_loop di2 (off + of_nat n) (drop n p) st2 = Inr (di', of_nat (length c + length p), st')"
          "appended st2 di2 bl2 (c @ take n p) (drop n p) st' di' bl'"
      using less.hyps [OF len(1) a(1,2) n(3)] c unfolding len(2) by blast
    then show ?thesis using s appended_trans [OF w i(2)] unfolding append_take_drop_id by auto
  qed
qed

section \<open>Inodes of the image\<close>

definition inode_at :: "image \<Rightarrow> nat \<Rightarrow> dinode" where
  "inode_at st i = dinode_at (sects st ! (32 + i div 8)) (64 * (i mod 8))"

lemma inode_place:
  assumes "i < 200"
  shows "unat (IBLOCK (of_nat i) mkfs_sb) = 32 + i div 8" "dinode_off (of_nat i) = 64 * (i mod 8)"
proof -
  have "unat (of_nat i div 8 :: u32) = i div 8" using assms by (simp add: unat_div unat_of_nat)
  moreover have "i div 8 < 25" using assms by (intro less_mult_imp_div_less) simp
  ultimately show "unat (IBLOCK (of_nat i) mkfs_sb) = 32 + i div 8"
    by (simp add: IBLOCK_def mkfs_sb_def Let_def mk_consts unat_word_ariths)
  show "dinode_off (of_nat i) = 64 * (i mod 8)" using assms by (simp add: dinode_off_def mk_consts unat_mod unat_of_nat)
qed

lemma rinode_ok: "img_ok st \<Longrightarrow> i < 200 \<Longrightarrow> rinode (of_nat i) st = Inr (inode_at st i)"
  using less_mult_imp_div_less [of i 25 8] by (simp add: rinode_def rsect_ok inode_place inode_at_def)

lemma winode_ok:
  assumes ok: "img_ok st" and i: "i < 200" and di: "length (di_addrs di) = 13"
  obtains st' where "winode (of_nat i) di st = Inr st'" "img_ok st'" "freeblock st' = freeblock st" "freeinode st' = freeinode st"
    "inode_at st' i = di" "\<And>j. j \<noteq> i \<Longrightarrow> inode_at st' j = inode_at st j" "\<And>k. k < 32 \<or> 58 \<le> k \<Longrightarrow> sects st' ! k = sects st ! k"
proof -
  let ?k = "32 + i div 8"
  let ?b = "put_dinode (sects st ! ?k) (64 * (i mod 8)) di"
  let ?st = "st\<lparr>sects := (sects st)[?k := ?b]\<rparr>"
  have k: "?k < 58" using less_mult_imp_div_less [of i 25 8] i by simp
  then have x: "unat (IBLOCK (of_nat i) mkfs_sb) < 1000" using inode_place(1) [OF i] by simp
  have w: "winode (of_nat i) di st = Inr ?st" using rsect_ok [OF ok x] wsect_ok [OF ok x] inode_place [OF i] by (simp add: winode_def)
  have l: "length (sects st ! ?k) = 512" "length (sects st) = 1000" using img_okD [OF ok] k by auto
  have "img_ok ?st" using wsect_img_ok [OF ok, of "IBLOCK (of_nat i) mkfs_sb" ?b] wsect_ok [OF ok x] inode_place(1) [OF i] k l img_okD(3) [OF ok]
    by simp
  moreover have "inode_at ?st i = di"
    using dinode_put_get [of "64 * (i mod 8)" "sects st ! ?k" di] l k di mod_less_divisor [of 8 i] by (simp add: inode_at_def mk_consts)
  moreover have "inode_at ?st j = inode_at st j" if "j \<noteq> i" for j
  proof (cases "j div 8 = i div 8")
    case True
    then have "j mod 8 \<noteq> i mod 8" using that mult_div_mod_eq [of 8 i] mult_div_mod_eq [of 8 j] by metis
    then have "64 * (j mod 8) + 64 \<le> 64 * (i mod 8) \<or> 64 * (i mod 8) + 64 \<le> 64 * (j mod 8)" by linarith
    then show ?thesis using True dinode_put_other [of "64 * (j mod 8)" "64 * (i mod 8)"] l k by (simp add: inode_at_def mk_consts)
  qed (simp add: inode_at_def)
  moreover have "sects ?st ! k' = sects st ! k'" if "k' < 32 \<or> 58 \<le> k'" for k' using that k by auto
  ultimately show ?thesis using that [OF w] by simp
qed

text \<open>The contents of a file depend on its own blocks.\<close>

lemma has_other:
  assumes h: "has st di bl c" and y: "\<And>y. y \<in> set (owned di bl) \<Longrightarrow> sec st' y = sec st y"
    and f: "unat (freeblock st) \<le> unat (freeblock st')"
  shows "has st' di bl c"
proof -
  have "sec st' (di_addrs di ! 12) = sec st (di_addrs di ! 12)" if "12 < length bl"
    using that y by (simp add: owned_def tabs_def)
  then have "rep st' di bl" using h by (auto simp: has_def rep_def)
  moreover have "file_bytes st' bl = file_bytes st bl"
    unfolding file_bytes_def using y by (intro arg_cong [of _ _ concat] map_cong) (simp_all add: owned_def)
  moreover have "blocks_ok st' (owned di bl)" using h f by (auto simp: has_def blocks_ok_def)
  ultimately show ?thesis using h by (simp add: has_def)
qed

lemma has_size: "has st (di\<lparr>di_size := n\<rparr>) bl c = has st di bl c"
  by (simp add: has_def rep_def owned_def tabs_def)

section \<open>The image as a list of files\<close>

text \<open>
  File \<open>i\<close> of the list has inode \<open>i + 1\<close>. The blocks of two files are disjoint, and \<open>freeblock\<close> counts the
  blocks of all of them.
\<close>

definition file_at :: "image \<Rightarrow> nat \<Rightarrow> u16 \<times> u8 list \<Rightarrow> u32 list \<Rightarrow> bool" where
  "file_at st i f bl \<longleftrightarrow>
     has st (inode_at st i) bl (snd f) \<and> unat (di_size (inode_at st i)) = length (snd f) \<and>
     di_type (inode_at st i) = fst f \<and> di_nlink (inode_at st i) = 1"

definition blocks :: "(u16 \<times> u8 list) list \<Rightarrow> nat" where
  "blocks fs = (\<Sum>f\<leftarrow>fs. nblk (length (snd f)))"

definition layout :: "image \<Rightarrow> (u16 \<times> u8 list) list \<Rightarrow> u32 list list \<Rightarrow> bool" where
  "layout st fs bls \<longleftrightarrow>
     img_ok st \<and> unat (freeinode st) = length fs + 1 \<and> length fs < 200 \<and> length bls = length fs \<and>
     unat (freeblock st) = 59 + blocks fs \<and> (\<forall>k<32. sects st ! k = sects blank ! k) \<and>
     (\<forall>i<length fs. file_at st (i + 1) (fs ! i) (bls ! i)) \<and>
     (\<forall>i<length fs. \<forall>j<length fs. i \<noteq> j \<longrightarrow>
        set (owned (inode_at st (i + 1)) (bls ! i)) \<inter> set (owned (inode_at st (j + 1)) (bls ! j)) = {}) \<and>
     (\<forall>i<200. i = 0 \<or> length fs < i \<longrightarrow> di_type (inode_at st i) = 0)"

lemma layoutD:
  assumes "layout st fs bls"
  shows "img_ok st" "unat (freeinode st) = length fs + 1" "length fs < 200" "length bls = length fs"
    "unat (freeblock st) = 59 + blocks fs" "k < 32 \<Longrightarrow> sects st ! k = sects blank ! k"
    "i < length fs \<Longrightarrow> file_at st (i + 1) (fs ! i) (bls ! i)"
    "i < length fs \<Longrightarrow> j < length fs \<Longrightarrow> i \<noteq> j \<Longrightarrow>
       set (owned (inode_at st (i + 1)) (bls ! i)) \<inter> set (owned (inode_at st (j + 1)) (bls ! j)) = {}"
    "i < 200 \<Longrightarrow> i = 0 \<or> length fs < i \<Longrightarrow> di_type (inode_at st i) = 0"
  using assms by (auto simp: layout_def)

lemma blocks_app [simp]: "blocks (fs @ gs) = blocks fs + blocks gs"
  by (simp add: blocks_def)

lemma blocks_update:
  assumes "i < length fs"
  shows "blocks (fs[i := f]) + nblk (length (snd (fs ! i))) = blocks fs + nblk (length (snd f))"
proof -
  have e: "fs = take i fs @ fs ! i # drop (Suc i) fs" using assms by (rule id_take_nth_drop)
  have "fs[i := f] = take i fs @ f # drop (Suc i) fs" using assms by (rule upd_conv_take_nth_drop)
  then have "blocks (fs[i := f]) = blocks (take i fs) + nblk (length (snd f)) + blocks (drop (Suc i) fs)"
    by (simp add: blocks_def)
  moreover have "blocks fs = blocks (take i fs) + nblk (length (snd (fs ! i))) + blocks (drop (Suc i) fs)"
    by (subst e) (simp add: blocks_def)
  ultimately show ?thesis by simp
qed

lemma owned_range:
  assumes "layout st fs bls" "i < length fs" "y \<in> set (owned (inode_at st (i + 1)) (bls ! i))"
  shows "59 \<le> unat y" "unat y < unat (freeblock st)"
  using layoutD(7) [OF assms(1,2)] assms(3) by (auto simp: file_at_def has_def blocks_ok_def)

text \<open>A change of inode \<open>i + 1\<close> that only writes into its own blocks and free ones keeps the others.\<close>

lemma file_kept:
  assumes L: "layout st fs bls" and i: "i < length fs" and j: "j < length fs" "j \<noteq> i"
    and n: "inode_at st' (j + 1) = inode_at st (j + 1)" and f: "unat (freeblock st) \<le> unat (freeblock st')"
    and s: "\<forall>k<unat (freeblock st). 59 \<le> k \<longrightarrow> k \<notin> unat ` set (owned (inode_at st (i + 1)) (bls ! i)) \<longrightarrow> sects st' ! k = sects st ! k"
  shows "file_at st' (j + 1) (fs ! j) (bls ! j)"
proof -
  have "sec st' y = sec st y" if y: "y \<in> set (owned (inode_at st (j + 1)) (bls ! j))" for y
  proof -
    have "y \<notin> set (owned (inode_at st (i + 1)) (bls ! i))" using layoutD(8) [OF L i j(1)] j(2) y by blast
    then have "unat y \<notin> unat ` set (owned (inode_at st (i + 1)) (bls ! i))" by (auto simp: word_unat_eq_iff [symmetric])
    then show ?thesis using s owned_range [OF L j(1) y] by blast
  qed
  then show ?thesis using layoutD(7) [OF L j(1)] has_other [of st "inode_at st (j + 1)" "bls ! j" _ st'] f n
    by (simp add: file_at_def)
qed

lemma grown_low:
  assumes "grown st di bl st' di' bl'" "img_ok st" "blocks_ok st (owned di bl)" "k < 59"
  shows "sects st' ! k = sects st ! k"
proof -
  have "k \<notin> unat ` set (owned di bl)" "k < unat (freeblock st)" using assms(3,4) img_okD(3) [OF assms(2)] by (auto simp: blocks_ok_def)
  then show ?thesis using assms(1) by (simp add: grown_def)
qed

text \<open>
  The inode \<open>i + 1\<close> of the image \<open>st\<close> has become \<open>di\<close>, with the contents \<open>c\<close> in the blocks \<open>bl\<close>; this is what an
  operation on one file has to show for the layout to be kept.
\<close>

lemma layout_update:
  assumes L: "layout st fs bls" and i: "i < length fs" and ok: "img_ok st'" and n: "freeinode st' = freeinode st"
    and f: "unat (freeblock st') = 59 + blocks (fs[i := g])" "unat (freeblock st) \<le> unat (freeblock st')"
    and g: "file_at st' (i + 1) g bl" and o: "\<And>j. j < 200 \<Longrightarrow> j \<noteq> i + 1 \<Longrightarrow> inode_at st' j = inode_at st j"
    and s: "\<forall>k<unat (freeblock st). k < 32 \<or> 59 \<le> k \<and> k \<notin> unat ` set (owned (inode_at st (i + 1)) (bls ! i)) \<longrightarrow> sects st' ! k = sects st ! k"
    and b: "\<forall>y\<in>set (owned (inode_at st' (i + 1)) bl). y \<in> set (owned (inode_at st (i + 1)) (bls ! i)) \<or> unat (freeblock st) \<le> unat y"
  shows "layout st' (fs[i := g]) (bls[i := bl])"
proof -
  note D = layoutD [OF L]
  have oj: "inode_at st' (j + 1) = inode_at st (j + 1)" if "j < length fs" "j \<noteq> i" for j using o [of "j + 1"] that D(3) i by simp
  have fl: "file_at st' (j + 1) (fs[i := g] ! j) (bls[i := bl] ! j)" if j: "j < length fs" for j
    using file_kept [OF L i j _ oj [OF j] f(2)] s g i D(4) by (cases "j = i") auto
  have dj: "set (owned (inode_at st' (i + 1)) bl) \<inter> set (owned (inode_at st (j + 1)) (bls ! j)) = {}" if j: "j < length fs" "j \<noteq> i" for j
  proof (rule equals0I)
    fix y
    assume "y \<in> set (owned (inode_at st' (i + 1)) bl) \<inter> set (owned (inode_at st (j + 1)) (bls ! j))"
    then have y: "y \<in> set (owned (inode_at st' (i + 1)) bl)" "y \<in> set (owned (inode_at st (j + 1)) (bls ! j))" by simp_all
    then show False using b D(8) [OF i j(1) j(2) [symmetric]] owned_range(2) [OF L j(1) y(2)] by fastforce
  qed
  have "set (owned (inode_at st' (j + 1)) (bls[i := bl] ! j)) \<inter> set (owned (inode_at st' (k + 1)) (bls[i := bl] ! k)) = {}"
    if jk: "j < length fs" "k < length fs" "j \<noteq> k" for j k
  proof -
    consider "j = i" "k \<noteq> i" | "k = i" "j \<noteq> i" | "j \<noteq> i" "k \<noteq> i" using jk(3) by blast
    then show ?thesis
    proof cases
      case 1
      then show ?thesis using dj [OF jk(2)] oj [OF jk(2)] D(4) i by simp
    next
      case 2
      then show ?thesis using dj [OF jk(1)] oj [OF jk(1)] D(4) i by (simp add: Int_commute)
    next
      case 3
      then show ?thesis using D(8) [OF jk] oj [OF jk(1)] oj [OF jk(2)] by simp
    qed
  qed
  moreover have "\<forall>j<200. j = 0 \<or> length fs < j \<longrightarrow> di_type (inode_at st' j) = 0" using D(9) o i by auto
  moreover have "\<forall>k<32. sects st' ! k = sects blank ! k" using D(6) s img_okD(3) [OF D(1)] by auto
  ultimately show ?thesis using fl ok n f(1) D(2-4) by (simp add: layout_def)
qed

lemma iappend_layout:
  assumes L: "layout st fs bls" and i: "i < length fs" and f: "fs ! i = (ty, c)" and l: "length c + length p \<le> 140 * 512"
    and fit: "59 + blocks (fs[i := (ty, c @ p)]) \<le> 1000"
  shows "\<exists>st' bls'. iappend (of_nat (i + 1)) p st = Inr st' \<and> layout st' (fs[i := (ty, c @ p)]) bls'"
proof -
  note D = layoutD [OF L]
  let ?di = "inode_at st (i + 1)"
  have i200: "i + 1 < 200" using i D(3) by simp
  have F: "has st ?di (bls ! i) c" "unat (di_size ?di) = length c" "di_type ?di = ty" "di_nlink ?di = 1"
    using D(7) [OF i] f by (auto simp: file_at_def)
  have bu: "blocks (fs[i := (ty, c @ p)]) + nblk (length c) = blocks fs + nblk (length c + length p)"
    using blocks_update [OF i, of "(ty, c @ p)"] f by simp
  then have "unat (freeblock st) + nblk (length c + length p) \<le> 1000 + nblk (length c)" using fit D(5) by simp
  then obtain s1 d1 bl where e: "iappend_loop ?di (di_size ?di) p st = Inr (d1, of_nat (length c + length p), s1)"
      and a: "appended st ?di (bls ! i) c p s1 d1 bl"
    using iappend_loop_appends [OF D(1) F(1,2) l] by blast
  have A: "img_ok s1" "has s1 d1 bl (c @ p)" "grown st ?di (bls ! i) s1 d1 bl"
      "unat (freeblock s1) + nblk (length c) = unat (freeblock st) + nblk (length c + length p)"
    using a by (simp_all add: appended_def)
  have low: "k < 59 \<Longrightarrow> sects s1 ! k = sects st ! k" for k using grown_low [OF A(3) D(1)] F(1) by (simp add: has_def)
  let ?d = "d1\<lparr>di_size := of_nat (length c + length p)\<rparr>"
  have "length (di_addrs ?d) = 13" using A(2) by (simp add: has_def rep_def)
  then obtain s2 where w: "winode (of_nat (i + 1)) ?d s1 = Inr s2" "img_ok s2" "freeblock s2 = freeblock s1" "freeinode s2 = freeinode s1"
      "inode_at s2 (i + 1) = ?d" "\<And>j. j \<noteq> i + 1 \<Longrightarrow> inode_at s2 j = inode_at s1 j" "\<And>k. k < 32 \<or> 58 \<le> k \<Longrightarrow> sects s2 ! k = sects s1 ! k"
    using winode_ok [OF A(1) i200] by metis
  have d1: "d1 = ?di\<lparr>di_addrs := di_addrs d1\<rparr>" using A(3) by (simp only: grown_def)
  have t: "di_type d1 = ty" "di_nlink d1 = 1" using arg_cong [OF d1, of di_type] arg_cong [OF d1, of di_nlink] F(3,4) by simp_all
  have "has s2 d1 bl (c @ p)"
    using A(2) w(3,7) by (intro has_other [OF A(2)]) (auto simp: has_def blocks_ok_def)
  then have g: "file_at s2 (i + 1) (ty, c @ p) bl" using w(5) t l by (simp add: file_at_def has_size unat_word_ariths unat_of_nat)
  have "layout s2 (fs[i := (ty, c @ p)]) (bls[i := bl])"
  proof (rule layout_update [OF L i w(2) _ _ _ g])
    show "freeinode s2 = freeinode st" "unat (freeblock st) \<le> unat (freeblock s2)" using w(3,4) A(3) by (simp_all add: grown_def)
    show "unat (freeblock s2) = 59 + blocks (fs[i := (ty, c @ p)])" using w(3) A(4) bu D(5) by simp
    show "inode_at s2 j = inode_at st j" if "j < 200" "j \<noteq> i + 1" for j
      using w(6) [OF that(2)] low [of "32 + j div 8"] less_mult_imp_div_less [of j 25 8] that(1) by (simp add: inode_at_def)
    show "\<forall>k<unat (freeblock st). k < 32 \<or> 59 \<le> k \<and> k \<notin> unat ` set (owned ?di (bls ! i)) \<longrightarrow> sects s2 ! k = sects st ! k"
      using w(7) low A(3) by (auto simp: grown_def)
    show "\<forall>y\<in>set (owned (inode_at s2 (i + 1)) bl). y \<in> set (owned ?di (bls ! i)) \<or> unat (freeblock st) \<le> unat y"
      using w(5) A(3) by (simp add: grown_def owned_def tabs_def)
  qed
  then show ?thesis using rinode_ok [OF D(1) i200] e w(1) by (auto simp: iappend_def)
qed

lemma mk_ialloc_layout:
  assumes L: "layout st fs bls" and n: "length fs + 1 < 200"
  shows "\<exists>st'. mk_ialloc ty st = Inr (of_nat (length fs + 1), st') \<and> layout st' (fs @ [(ty, [])]) (bls @ [[]])"
proof -
  note D = layoutD [OF L]
  let ?i = "length fs + 1"
  let ?s = "st\<lparr>freeinode := freeinode st + 1\<rparr>"
  have ino: "freeinode st = of_nat ?i" using D(2) n by (simp add: word_unat_eq_iff unat_word_ariths unat_of_nat)
  have fi: "unat (freeinode st + 1) = ?i + 1" using D(2) n by (simp add: unat_word_ariths)
  have ok: "img_ok ?s" using D(1) by (simp add: img_ok_def)
  have la: "length (di_addrs (new_dinode ty)) = 13" by (simp add: mk_consts)
  obtain s2 where w: "winode (of_nat ?i) (new_dinode ty) ?s = Inr s2" "img_ok s2" "freeblock s2 = freeblock ?s" "freeinode s2 = freeinode ?s"
      "inode_at s2 ?i = new_dinode ty" "\<And>j. j \<noteq> ?i \<Longrightarrow> inode_at s2 j = inode_at ?s j" "\<And>k. k < 32 \<or> 58 \<le> k \<Longrightarrow> sects s2 ! k = sects ?s ! k"
    by (rule winode_ok [OF ok n la]) blast
  have same: "inode_at s2 j = inode_at st j" if "j \<noteq> ?i" for j using w(6) [OF that] by (simp add: inode_at_def)
  have new: "file_at s2 ?i (ty, []) []"
    unfolding file_at_def w(5) by (simp add: has_def rep_def owned_def tabs_def blocks_ok_def file_bytes_def mk_consts)
  have old: "file_at s2 (j + 1) (fs ! j) (bls ! j)" if j: "j < length fs" for j
  proof -
    have "has s2 (inode_at st (j + 1)) (bls ! j) (snd (fs ! j))"
    proof (rule has_other [of st])
      show "has st (inode_at st (j + 1)) (bls ! j) (snd (fs ! j))" using D(7) [OF j] by (simp add: file_at_def)
      show "sec s2 y = sec st y" if "y \<in> set (owned (inode_at st (j + 1)) (bls ! j))" for y
        using w(7) [of "unat y"] owned_range(1) [OF L j that] by simp
    qed (simp add: w(3))
    then show ?thesis using D(7) [OF j] same [of "j + 1"] j by (simp add: file_at_def)
  qed
  have "layout s2 (fs @ [(ty, [])]) (bls @ [[]])"
    unfolding layout_def
  proof (intro conjI allI impI)
    show "file_at s2 (j + 1) ((fs @ [(ty, [])]) ! j) ((bls @ [[]]) ! j)" if "j < length (fs @ [(ty, [])])" for j
      using that new old [of j] D(4) by (cases "j < length fs") (auto simp: nth_append less_Suc_eq)
    show "set (owned (inode_at s2 (j + 1)) ((bls @ [[]]) ! j)) \<inter> set (owned (inode_at s2 (k + 1)) ((bls @ [[]]) ! k)) = {}"
      if "j < length (fs @ [(ty, [])])" "k < length (fs @ [(ty, [])])" "j \<noteq> k" for j k
      using that D(4) D(8) [of j k] same [of "j + 1"] same [of "k + 1"]
      by (cases "j < length fs"; cases "k < length fs") (auto simp: nth_append owned_def tabs_def less_Suc_eq)
    show "di_type (inode_at s2 j) = 0" if "j < 200" "j = 0 \<or> length (fs @ [(ty, [])]) < j" for j
      using that D(9) [of j] same [of j] by auto
  qed (use w D fi n in \<open>simp_all add: nblk_def blocks_def\<close>)
  then show ?thesis using w(1) ino by (simp add: mk_ialloc_def)
qed

lemma copy_file_layout:
  assumes "layout st fs bls" and "i < length fs" and "fs ! i = (ty, c)" and "length c + length p \<le> 140 * 512"
    and "59 + blocks (fs[i := (ty, c @ p)]) \<le> 1000"
  shows "\<exists>st' bls'. copy_file (of_nat (i + 1)) p st = Inr st' \<and> layout st' (fs[i := (ty, c @ p)]) bls'"
  using assms
proof (induction "length p" arbitrary: st fs bls c p rule: less_induct)
  case less
  note L = less.prems(1) and i = less.prems(2) and f = less.prems(3) and l = less.prems(4) and fit = less.prems(5)
  show ?case
  proof (cases "p = []")
    case True
    then have "copy_file (of_nat (i + 1)) p st = Inr st" by (simp add: copy_file.simps)
    moreover have "layout st (fs[i := (ty, c @ p)]) bls" using L f True list_update_id [of fs i] by simp
    ultimately show ?thesis by blast
  next
    case False
    let ?c = "c @ take 512 p"
    have "blocks (fs[i := (ty, ?c)]) \<le> blocks (fs[i := (ty, c @ p)])"
      using blocks_update [OF i, of "(ty, ?c)"] blocks_update [OF i, of "(ty, c @ p)"] nblk_mono [of "length ?c" "length (c @ p)"]
      by simp
    then have "59 + blocks (fs[i := (ty, ?c)]) \<le> 1000" using fit by linarith
    moreover have "length c + length (take 512 p) \<le> 140 * 512" unfolding length_take using l by linarith
    ultimately obtain s1 b1 where s1: "iappend (of_nat (i + 1)) (take 512 p) st = Inr s1" "layout s1 (fs[i := (ty, ?c)]) b1"
      using iappend_layout [OF L i f] by blast
    have "length (drop 512 p) < length p" using False by simp
    moreover have "(fs[i := (ty, ?c)])[i := (ty, ?c @ drop 512 p)] = fs[i := (ty, c @ p)]" by simp
    moreover have "length ?c + length (drop 512 p) \<le> 140 * 512" unfolding length_append length_take length_drop using l by linarith
    ultimately obtain st' bls' where "copy_file (of_nat (i + 1)) (drop 512 p) s1 = Inr st'" "layout st' (fs[i := (ty, c @ p)]) bls'"
      using less.hyps [OF _ s1(2), of "drop 512 p" ?c] i l fit by auto
    then show ?thesis using False s1(1) by (subst copy_file.simps) (auto simp: mk_consts)
  qed
qed

section \<open>The whole image\<close>

text \<open>The entries that the root directory gets for the files, from inode \<open>k\<close> on.\<close>

fun dirents :: "nat \<Rightarrow> (u8 list \<times> u8 list option) list \<Rightarrow> u8 list" where
  "dirents k [] = []"
| "dirents k ((nm, p) # fs) = mk_dirent (of_nat k) (mk_name nm) @ dirents (Suc k) fs"

definition as_files :: "(u8 list \<times> u8 list option) list \<Rightarrow> (u16 \<times> u8 list) list" where
  "as_files fs = map (\<lambda>(nm, p). (T_FILE, the p)) fs"

lemma as_files_simps [simp]:
  "as_files [] = []" "as_files ((nm, p) # fs) = (T_FILE, the p) # as_files fs" "length (as_files fs) = length fs"
  by (simp_all add: as_files_def)

definition good_files :: "(u8 list \<times> u8 list option) list \<Rightarrow> bool" where
  "good_files fs \<longleftrightarrow> (\<forall>(nm, p)\<in>set fs. of_char CHR ''/'' \<notin> set nm \<and> p \<noteq> None \<and> length (the p) \<le> MAXFILE * BSIZE)"

lemma length_dirent [simp]: "length (mk_dirent n nm) = 16"
  by (simp add: mk_dirent_def strncpy_bytes_def Let_def DIRSIZ_def)

lemma length_dirents [simp]: "length (dirents k fs) = 16 * length fs"
  by (induction fs arbitrary: k) auto

lemma ucast_nat: "k < 2 ^ 32 \<Longrightarrow> (ucast (of_nat k :: u32) :: u16) = of_nat k"
  by (simp add: unsigned_of_nat take_bit_nat_eq_self)

lemma blocks_Cons: "blocks ((ty, c) # fs) = nblk (length c) + blocks fs" "blocks [] = 0"
  by (simp_all add: blocks_def)

lemma add_files_layout:
  assumes "layout st ((ty, c) # gs) bls" and "good_files fs" and "Suc (length gs + length fs) < 200"
    and "length c + 16 * length fs \<le> 140 * 512"
    and "59 + blocks ((ty, c @ dirents (length gs + 2) fs) # gs @ as_files fs) \<le> 1000"
  shows "\<exists>st' bls'. add_files 1 fs st = Inr st' \<and> layout st' ((ty, c @ dirents (length gs + 2) fs) # gs @ as_files fs) bls'"
  using assms
proof (induction fs arbitrary: st c gs bls)
  case Nil
  then show ?case by auto
next
  case (Cons f fs)
  note L = Cons.prems(1) and n = Cons.prems(3) and l = Cons.prems(4) and fit = Cons.prems(5)
  obtain nm p where f: "f = (nm, Some p)" and ok: "of_char CHR ''/'' \<notin> set nm" "length p \<le> 140 * 512" "good_files fs"
    using Cons.prems(2) by (cases f) (auto simp: good_files_def mk_consts)
  let ?k = "length gs + 2" and ?d = "mk_dirent (of_nat (length gs + 2)) (mk_name nm)"
  obtain s1 where s1: "mk_ialloc T_FILE st = Inr (of_nat ?k, s1)" "layout s1 ((ty, c) # gs @ [(T_FILE, [])]) (bls @ [[]])"
    using mk_ialloc_layout [OF L, of T_FILE] n by auto
  have b: "nblk (length c + 16) \<le> nblk (length c + 16 + 16 * length fs)" by (simp add: nblk_mono)
  have z: "nblk 0 = 0" by (simp add: nblk_def)
  have fit1: "59 + blocks ((ty, c @ ?d) # gs @ [(T_FILE, p)]) \<le> 1000"
    using fit b by (simp add: f blocks_Cons add.assoc)
  then obtain s2 b2 where s2: "iappend 1 ?d s1 = Inr s2" "layout s2 ((ty, c @ ?d) # gs @ [(T_FILE, [])]) b2"
    using iappend_layout [OF s1(2), of 0 ty c ?d] l z by (auto simp: blocks_Cons)
  have "length gs + 1 < length ((ty, c @ ?d) # gs @ [(T_FILE, [])])" "((ty, c @ ?d) # gs @ [(T_FILE, [])]) ! (length gs + 1) = (T_FILE, [])"
      "((ty, c @ ?d) # gs @ [(T_FILE, [])])[length gs + 1 := (T_FILE, [] @ p)] = (ty, c @ ?d) # gs @ [(T_FILE, p)]"
    by simp_all
  then obtain s3 b3 where s3: "copy_file (of_nat ?k) p s2 = Inr s3" "layout s3 ((ty, c @ ?d) # gs @ [(T_FILE, p)]) b3"
    using copy_file_layout [OF s2(2), of "length gs + 1" T_FILE "[]" p] ok(2) fit1 by (auto simp: add.commute [of 2])
  have "\<exists>st' bls'. add_files 1 fs s3 = Inr st' \<and>
      layout st' ((ty, (c @ ?d) @ dirents (length (gs @ [(T_FILE, p)]) + 2) fs) # (gs @ [(T_FILE, p)]) @ as_files fs) bls'"
    using n l fit by (intro Cons.IH [OF s3(2) ok(3)]) (simp_all add: f)
  moreover have "(ucast (2 + of_nat (length gs) :: u32) :: u16) = 2 + of_nat (length gs)" using ucast_nat [of "length gs + 2"] n by simp
  ultimately show ?case using s1(1) s2(1) s3(1) ok(1) by (auto simp: f)
qed

lemma blank_layout: "layout blank [] []"
proof -
  have l: "length (sb_bytes mkfs_sb) = 512" by (simp add: sb_bytes_def mk_consts)
  have "sects blank ! k = (if k = 1 then sb_bytes mkfs_sb else replicate 512 0)" if "k < 1000" for k
    using that by (simp add: blank_def mk_consts nth_list_update)
  moreover have "length (sects blank) = 1000" "freeblock blank = 59" "freeinode blank = 1" by (simp_all add: blank_def mk_consts)
  moreover have "get16 (replicate 512 0) (64 * (i mod 8)) = 0" for i :: nat
    using mod_less_divisor [of 8 i] by (simp add: get16_def word_of_bytes_def)
  ultimately show ?thesis using l less_mult_imp_div_less [of _ 25 8]
    by (simp add: layout_def img_ok_def blocks_Cons inode_at_def dinode_at_def)
qed

lemma superblock_blank: "superblock_of (sb_bytes mkfs_sb) = mkfs_sb"
  by (simp add: superblock_of_def sb_bytes_def get32_set32 get32_set32_other mk_consts)

text \<open>The first \<open>used\<close> bits of the bitmap are set, in the sense of the kernel's \<open>balloc\<close>.\<close>

lemma used_bits_clear:
  assumes "used \<le> 4096"
  shows "length (used_bits used) = 512 \<and> (\<forall>b<4096. bit_clear (used_bits used) b \<longleftrightarrow> used \<le> b)"
  using assms
proof (induction used)
  case 0
  have "b div 8 < 512" if "b < 4096" for b :: nat using that by (intro less_mult_imp_div_less) simp
  then show ?case by (simp add: used_bits_def mk_consts bit_clear_iff)
next
  case (Suc used)
  have "used div 8 < 512" using Suc.prems by (intro less_mult_imp_div_less) simp
  moreover have "used_bits (Suc used) = mark_bit used (used_bits used)" by (simp add: used_bits_def mark_bit_def bit_mask_def)
  ultimately show ?case using Suc bit_clear_mark(1) [of used "used_bits used"] by auto
qed

section \<open>Reading the image\<close>

text \<open>
  What a reader of the image finds: the address of a block of an inode, the bytes of a file up to its
  size, and all blocks an inode refers to.
\<close>

definition map_block :: "image \<Rightarrow> dinode \<Rightarrow> nat \<Rightarrow> u32" where
  "map_block st di k =
     (if k < NDIRECT then di_addrs di ! k else get32 (sec st (di_addrs di ! NDIRECT)) (4 * (k - NDIRECT)))"

definition contents :: "image \<Rightarrow> nat \<Rightarrow> u8 list" where
  "contents st i =
     (let di = inode_at st i; n = unat (di_size di)
      in take n (concat (map (\<lambda>k. sec st (map_block st di k)) [0..<(n + 511) div 512])))"

definition inode_blocks :: "image \<Rightarrow> nat \<Rightarrow> u32 list" where
  "inode_blocks st i =
     (let di = inode_at st i; t = di_addrs di ! NDIRECT
      in filter (\<lambda>b. b \<noteq> 0) (di_addrs di) @
         (if t = 0 then [] else filter (\<lambda>b. b \<noteq> 0) (map (\<lambda>j. get32 (sec st t) (4 * j)) [0..<NINDIRECT])))"

lemma map_block_rep: "rep st di bl \<Longrightarrow> k < length bl \<Longrightarrow> map_block st di k = bl ! k"
  by (auto simp: map_block_def rep_def mk_consts)

lemma read_has:
  assumes h: "has st di bl c" and m: "length bl \<le> m"
  shows "take (length c) (concat (map (\<lambda>k. sec st (map_block st di k)) [0..<m])) = c"
proof -
  let ?f = "\<lambda>k. sec st (map_block st di k)"
  have r: "rep st di bl" and b: "file_bytes st bl = c @ replicate (512 * length bl - length c) 0" using h by (simp_all add: has_def)
  have "map ?f [0..<length bl] = map (sec st) bl" by (rule nth_equalityI) (simp_all add: map_block_rep [OF r])
  then have "concat (map ?f [0..<length bl]) = c @ replicate (512 * length bl - length c) 0" using b by (simp add: file_bytes_def)
  moreover have "[0..<m] = [0..<length bl] @ [length bl..<m]" using m upt_add_eq_append [of 0 "length bl" "m - length bl"] by simp
  ultimately show ?thesis by simp
qed

lemma filter_nonzero_prefix:
  assumes "\<forall>x\<in>set bl. x \<noteq> 0" "length bl \<le> n"
  shows "filter (\<lambda>b. b \<noteq> 0) (map (\<lambda>k. if k < length bl then bl ! k else 0) [0..<n]) = (bl :: u32 list)"
proof -
  have "map (\<lambda>k. if k < length bl then bl ! k else 0) [0..<n] = bl @ replicate (n - length bl) 0"
    using assms(2) by (intro nth_equalityI) (auto simp: nth_append)
  then show ?thesis using assms(1) by (simp add: filter_id_conv)
qed

lemma inode_blocks_owned:
  assumes h: "has st (inode_at st i) bl c"
  shows "inode_blocks st i = take 12 bl @ tabs (inode_at st i) bl @ drop 12 bl"
proof -
  let ?di = "inode_at st i"
  let ?t = "di_addrs ?di ! 12"
  have r: "rep st ?di bl" and b: "blocks_ok st (owned ?di bl)" using h by (simp_all add: has_def)
  have nz: "\<forall>x\<in>set (owned ?di bl). x \<noteq> 0" using b by (auto simp: blocks_ok_def)
  then have nzb: "\<forall>x\<in>set (take 12 bl). x \<noteq> 0" "\<forall>x\<in>set (drop 12 bl). x \<noteq> 0" by (auto simp: owned_def dest: in_set_takeD in_set_dropD)
  have e: "di_addrs ?di = map (\<lambda>k. if k < length (take 12 bl) then take 12 bl ! k else 0) [0..<12] @ [?t]"
    (is "_ = ?l")
  proof (rule nth_equalityI)
    show "length (di_addrs ?di) = length ?l" using r by (simp add: rep_def)
    fix k
    assume "k < length (di_addrs ?di)"
    then have "k < 12 \<or> k = 12" using r by (auto simp: rep_def)
    then show "di_addrs ?di ! k = ?l ! k" using r by (elim disjE) (simp_all add: rep_def nth_append)
  qed
  have "length (take 12 bl) \<le> 12" by simp
  note p = filter_nonzero_prefix [OF nzb(1) this]
  have a: "filter (\<lambda>b. b \<noteq> 0) (di_addrs ?di) = take 12 bl @ filter (\<lambda>b. b \<noteq> 0) [?t]"
    using arg_cong [OF e, of "filter (\<lambda>b. b \<noteq> 0)"] unfolding filter_append p .
  show ?thesis
  proof (cases "12 < length bl")
    case True
    then have "?t \<noteq> 0" using nz by (simp add: owned_def tabs_def)
    moreover have "map (\<lambda>j. get32 (sec st ?t) (4 * j)) [0..<128] = map (\<lambda>k. if k < length (drop 12 bl) then drop 12 bl ! k else 0) [0..<128]"
      using r True by (intro map_cong) (auto simp: rep_def)
    moreover have "length (drop 12 bl) \<le> 128" using r unfolding rep_def by simp linarith
    ultimately show ?thesis
      using True a filter_nonzero_prefix [OF nzb(2), of 128] by (simp add: inode_blocks_def Let_def mk_consts tabs_def del: map_eq_conv)
  next
    case False
    then have "?t = 0" using r by (simp add: rep_def)
    then show ?thesis using False a by (simp add: inode_blocks_def Let_def mk_consts tabs_def)
  qed
qed

section \<open>The finished image\<close>

text \<open>The last two steps change the size of the root directory and the bitmap.\<close>

definition finished :: "image \<Rightarrow> image \<Rightarrow> bool" where
  "finished st st' \<longleftrightarrow>
     length (sects st') = 1000 \<and> (\<forall>k<1000. length (sects st' ! k) = 512) \<and> freeblock st' = freeblock st \<and>
     inode_at st' 1 = (inode_at st 1)\<lparr>di_size := (di_size (inode_at st 1) div 512 + 1) * 512\<rparr> \<and>
     (\<forall>j<200. j \<noteq> 1 \<longrightarrow> inode_at st' j = inode_at st j) \<and> sects st' ! 58 = used_bits (unat (freeblock st)) \<and>
     (\<forall>k. k < 32 \<or> 59 \<le> k \<longrightarrow> sects st' ! k = sects st ! k)"

lemma finish_image:
  assumes L: "layout st (f # gs) bls"
  shows "\<exists>s1 s2. fix_root 1 st = Inr s1 \<and> mk_balloc (unat (freeblock s1)) s1 = Inr s2 \<and> finished st s2"
proof -
  note D = layoutD [OF L]
  let ?d = "(inode_at st 1)\<lparr>di_size := (di_size (inode_at st 1) div 512 + 1) * 512\<rparr>"
  have la: "length (di_addrs ?d) = 13" using D(7) [of 0] by (simp add: file_at_def has_def rep_def)
  obtain s1 where w: "winode (of_nat 1) ?d st = Inr s1" "img_ok s1" "freeblock s1 = freeblock st" "freeinode s1 = freeinode st"
      "inode_at s1 1 = ?d" "\<And>j. j \<noteq> 1 \<Longrightarrow> inode_at s1 j = inode_at st j" "\<And>k. k < 32 \<or> 58 \<le> k \<Longrightarrow> sects s1 ! k = sects st ! k"
    by (rule winode_ok [OF D(1) _ la, of 1]) (simp, blast)
  have fr: "fix_root 1 st = Inr s1" using rinode_ok [OF D(1), of 1] w(1) by (simp add: fix_root_def mk_consts)
  have b: "sb_bmapstart mkfs_sb = 58" by (simp add: mkfs_sb_def Let_def mk_consts)
  let ?s2 = "s1\<lparr>sects := (sects s1)[58 := used_bits (unat (freeblock st))]\<rparr>"
  have mb: "mk_balloc (unat (freeblock s1)) s1 = Inr ?s2"
    using img_okD(4) [OF D(1)] wsect_ok [OF w(2), of 58] w(3) by (simp add: mk_balloc_def mk_consts b)
  have "inode_at ?s2 j = inode_at s1 j" if "j < 200" for j
    using that less_mult_imp_div_less [of j 25 8] by (simp add: inode_at_def)
  moreover have "length (used_bits (unat (freeblock st))) = 512" using used_bits_clear [of "unat (freeblock st)"] img_okD(4) [OF D(1)] by simp
  then have "\<forall>k<1000. length (sects ?s2 ! k) = 512" using img_okD(1,2) [OF w(2)] by (simp add: nth_list_update)
  ultimately have "finished st ?s2" using w img_okD(1) [OF w(2)] by (auto simp: finished_def)
  then show ?thesis using fr mb by blast
qed

lemma finished_has:
  assumes L: "layout st fs bls" and F: "finished st st'" and i: "i < length fs"
  shows "has st' (inode_at st' (i + 1)) (bls ! i) (snd (fs ! i))"
    "owned (inode_at st' (i + 1)) (bls ! i) = owned (inode_at st (i + 1)) (bls ! i)"
    "di_type (inode_at st' (i + 1)) = fst (fs ! i)"
proof -
  have e: "inode_at st' (i + 1) = inode_at st (i + 1) \<or> (\<exists>n. inode_at st' (i + 1) = (inode_at st (i + 1))\<lparr>di_size := n\<rparr>)"
    using F i layoutD(3) [OF L] by (cases i) (auto simp: finished_def)
  show "owned (inode_at st' (i + 1)) (bls ! i) = owned (inode_at st (i + 1)) (bls ! i)" using e by (auto simp: owned_def tabs_def)
  show "di_type (inode_at st' (i + 1)) = fst (fs ! i)" using e layoutD(7) [OF L i] by (auto simp: file_at_def)
  have "has st' (inode_at st (i + 1)) (bls ! i) (snd (fs ! i))"
  proof (rule has_other [of st])
    show "has st (inode_at st (i + 1)) (bls ! i) (snd (fs ! i))" using layoutD(7) [OF L i] by (simp add: file_at_def)
    show "sec st' y = sec st y" if "y \<in> set (owned (inode_at st (i + 1)) (bls ! i))" for y
      using owned_range(1) [OF L i that] F by (simp add: finished_def)
    show "unat (freeblock st) \<le> unat (freeblock st')" using F by (simp add: finished_def)
  qed
  then show "has st' (inode_at st' (i + 1)) (bls ! i) (snd (fs ! i))" using e has_size by metis
qed

lemma finished_contents:
  assumes L: "layout st fs bls" and F: "finished st st'" and i: "0 < i" "i < length fs"
  shows "contents st' (i + 1) = snd (fs ! i)"
proof -
  let ?di = "inode_at st' (i + 1)"
  have h: "has st' ?di (bls ! i) (snd (fs ! i))" by (rule finished_has [OF L F i(2)])
  moreover have "?di = inode_at st (i + 1)" using F i layoutD(3) [OF L] by (auto simp: finished_def)
  then have "unat (di_size ?di) = length (snd (fs ! i))" using layoutD(7) [OF L i(2)] by (simp add: file_at_def)
  ultimately show ?thesis using read_has [OF h, of "(length (snd (fs ! i)) + 511) div 512"] by (simp add: contents_def Let_def has_def)
qed

text \<open>The size of the root directory is rounded to the next multiple of a block.\<close>

lemma finished_root:
  assumes L: "layout st (f # gs) bls" and F: "finished st st'" and c: "length (snd f) \<le> 140 * 512"
  shows "unat (di_size (inode_at st' 1)) = 512 * (length (snd f) div 512 + 1)" "take (length (snd f)) (contents st' 1) = snd f"
proof -
  let ?di = "inode_at st' 1" and ?n = "length (snd f)"
  have h: "has st' ?di (bls ! 0) (snd f)" using finished_has(1) [OF L F, of 0] by simp
  have s: "unat (di_size (inode_at st 1)) = ?n" using layoutD(7) [OF L, of 0] by (simp add: file_at_def)
  have q: "?n div 512 \<le> 140" using c div_le_mono [of ?n "140 * 512" 512] by simp
  have "unat (di_size (inode_at st 1) div 512) = ?n div 512" using s by (simp add: unat_div)
  then show u: "unat (di_size ?di) = 512 * (?n div 512 + 1)"
    using F q by (simp add: finished_def unat_word_ariths)
  have nb: "(unat (di_size ?di) + 511) div 512 = ?n div 512 + 1" unfolding u using round_up(1) [of "512 * (?n div 512 + 1)"] by simp
  have "length (bls ! 0) \<le> ?n div 512 + 1"
    using h round_up(1,2) [of ?n] by (cases "?n mod 512 = 0") (simp_all add: has_def)
  then have "take ?n (concat (map (\<lambda>k. sec st' (map_block st' ?di k)) [0..<?n div 512 + 1])) = snd f" by (rule read_has [OF h])
  moreover have "512 * d + m \<le> 512 * (d + 1)" if "m < 512" for d m :: nat using that by simp
  from this [of "?n mod 512" "?n div 512"] have "?n \<le> unat (di_size ?di)" unfolding u by simp
  ultimately show "take ?n (contents st' 1) = snd f" unfolding contents_def Let_def nb take_take by (simp only: min_absorb1)
qed

text \<open>The blocks from 59 on that are in use are those of the files, each once.\<close>

lemma length_owned: "has st di bl c \<Longrightarrow> length (owned di bl) = nblk (length c)"
  by (auto simp: has_def owned_def tabs_def nblk_def)

lemma finished_blocks:
  assumes L: "layout st fs bls" and F: "finished st st'" and i: "i < length fs"
  shows "set (inode_blocks st' (i + 1)) = set (owned (inode_at st (i + 1)) (bls ! i))" "distinct (inode_blocks st' (i + 1))"
proof -
  let ?di = "inode_at st' (i + 1)" and ?bl = "bls ! i"
  note h = finished_has [OF L F i]
  have p: "inode_blocks st' (i + 1) = take 12 ?bl @ tabs ?di ?bl @ drop 12 ?bl" by (rule inode_blocks_owned [OF h(1)])
  have s: "owned ?di ?bl = (take 12 ?bl @ drop 12 ?bl) @ tabs ?di ?bl" by (simp add: owned_def)
  show "set (inode_blocks st' (i + 1)) = set (owned (inode_at st (i + 1)) (bls ! i))"
    unfolding p h(2) [symmetric] s by (simp only: set_append Un_ac)
  have "distinct (owned ?di ?bl)" using h(1) by (simp add: has_def blocks_ok_def)
  then show "distinct (inode_blocks st' (i + 1))" unfolding p s by (simp only: distinct_append) (auto dest: in_set_takeD in_set_dropD)
qed

lemma distinct_concat_map:
  assumes "\<And>i. i < n \<Longrightarrow> distinct (f i)" "\<And>i j. i < n \<Longrightarrow> j < n \<Longrightarrow> i \<noteq> j \<Longrightarrow> set (f i) \<inter> set (f j) = {}"
  shows "distinct (concat (map f [0..<n]))"
  using assms
proof (induction n)
  case (Suc n)
  have "set (f j) \<inter> set (f n) = {}" if "j < n" for j using Suc.prems(2) [of j n] that by simp
  moreover have "distinct (concat (map f [0..<n]))" using Suc.prems by (intro Suc.IH) simp_all
  moreover have "set (concat (map f [0..<n])) \<inter> set (f n) = {}" using calculation(1) by fastforce
  ultimately show ?case using Suc.prems(1) [of n] by simp
qed simp

lemma finished_all_blocks:
  assumes L: "layout st fs bls" and F: "finished st st'"
  defines "bs \<equiv> concat (map (\<lambda>i. inode_blocks st' (i + 1)) [0..<length fs])"
  shows "distinct bs" "unat ` set bs = {59..<59 + blocks fs}"
proof -
  note fb = finished_blocks [OF L F]
  show d: "distinct bs" unfolding bs_def
  proof (rule distinct_concat_map)
    show "distinct (inode_blocks st' (i + 1))" if "i < length fs" for i by (rule fb(2) [OF that])
    show "set (inode_blocks st' (i + 1)) \<inter> set (inode_blocks st' (j + 1)) = {}" if "i < length fs" "j < length fs" "i \<noteq> j" for i j
      unfolding fb(1) [OF that(1)] fb(1) [OF that(2)] by (rule layoutD(8) [OF L that])
  qed
  have sub: "unat ` set bs \<subseteq> {59..<59 + blocks fs}"
    using owned_range [OF L] fb(1) layoutD(5) [OF L] by (auto simp: bs_def)
  have "length (inode_blocks st' (i + 1)) = nblk (length (snd (fs ! i)))" if "i < length fs" for i
    using length_owned [OF finished_has(1) [OF L F that]] inode_blocks_owned [OF finished_has(1) [OF L F that]]
      append_take_drop_id [of 12 "bls ! i"] by (simp add: owned_def del: append_take_drop_id)
  then have "length bs = (\<Sum>i\<leftarrow>[0..<length fs]. nblk (length (snd (fs ! i))))"
    unfolding bs_def length_concat map_map by (intro arg_cong [of _ _ sum_list] map_cong) simp_all
  also have "\<dots> = blocks fs" unfolding blocks_def by (metis (no_types, lifting) map_map map_nth o_def map_eq_conv)
  finally have "card (set bs) = blocks fs" using distinct_card [OF d] by simp
  then have "card (unat ` set bs) = blocks fs" by (subst card_image) (auto intro: inj_onI simp: word_unat_eq_iff [symmetric])
  then show "unat ` set bs = {59..<59 + blocks fs}" using sub by (intro card_subset_eq) simp_all
qed

section \<open>Theorems\<close>

definition rootdir :: "(u8 list \<times> u8 list option) list \<Rightarrow> u8 list" where
  "rootdir fs = mk_dirent 1 [of_char CHR ''.''] @ mk_dirent 1 [of_char CHR ''.'', of_char CHR ''.''] @ dirents 2 fs"

text \<open>There are inodes and blocks for all files and the root directory.\<close>

definition fits :: "(u8 list \<times> u8 list option) list \<Rightarrow> bool" where
  "fits fs \<longleftrightarrow> length fs + 1 < NINODES \<and> nmeta + blocks ((T_DIR, rootdir fs) # as_files fs) \<le> unat FSSIZE"

lemma mkfs_finished:
  assumes g: "good_files fs" and f: "fits fs"
  shows "\<exists>st st' bls. mkfs fs = Inr st' \<and> layout st ((T_DIR, rootdir fs) # as_files fs) bls \<and> finished st st'"
proof -
  let ?d1 = "mk_dirent 1 [of_char CHR ''.'']" and ?d2 = "mk_dirent 1 [of_char CHR ''.'', of_char CHR ''.'']"
  have n: "length fs < 199" and fit: "59 + blocks ((T_DIR, rootdir fs) # as_files fs) \<le> 1000" using f by (simp_all add: fits_def mk_consts)
  have m: "nblk 16 \<le> nblk (32 + 16 * length fs)" "nblk 32 \<le> nblk (32 + 16 * length fs)" by (simp_all add: nblk_mono)
  have fb: "nblk (32 + 16 * length fs) + blocks (as_files fs) \<le> 941" using fit by (simp add: blocks_Cons rootdir_def)
  obtain s1 where s1: "mk_ialloc T_DIR blank = Inr (1, s1)" "layout s1 [(T_DIR, [])] [[]]"
    using mk_ialloc_layout [OF blank_layout, of T_DIR] by auto
  obtain s2 b2 where s2: "iappend 1 ?d1 s1 = Inr s2" "layout s2 [(T_DIR, ?d1)] b2"
    using iappend_layout [OF s1(2), of 0 T_DIR "[]" ?d1] m fb by (auto simp: blocks_Cons)
  obtain s3 b3 where s3: "iappend 1 ?d2 s2 = Inr s3" "layout s3 [(T_DIR, ?d1 @ ?d2)] b3"
    using iappend_layout [OF s2(2), of 0 T_DIR ?d1 ?d2] m fb by (auto simp: blocks_Cons)
  obtain s4 b4 where s4: "add_files 1 fs s3 = Inr s4" "layout s4 ((T_DIR, rootdir fs) # as_files fs) b4"
    using add_files_layout [OF s3(2) g] n fit by (auto simp: rootdir_def simp flip: numeral_2_eq_2)
  obtain s5 s6 where s5: "fix_root 1 s4 = Inr s5" "mk_balloc (unat (freeblock s5)) s5 = Inr s6" "finished s4 s6"
    using finish_image [OF s4(2)] by blast
  have "mkfs fs = Inr s6" using s1(1) s2(1) s3(1) s4(1) s5(1,2) by (simp add: mkfs_def ROOTINO_def)
  then show ?thesis using s4(2) s5(3) by blast
qed

text \<open>
  C10. The image that \<open>mkfs\<close> builds has what it was given: for files that can be opened, have no slash in
  their names and are not too large for an inode, as long as there are inodes and blocks for them, the
  program ends with success; block 1 holds the superblock in the kernel's format; inode 1 is a directory
  that starts with the entries of itself twice and of the files in order, without a leading underscore;
  inode \<open>k + 2\<close> is a file with exactly the contents of file \<open>k\<close>, read through its direct and indirect
  blocks; and every other inode is free.
\<close>

theorem mkfs_contents:
  assumes "good_files fs" and "fits fs"
  shows "\<exists>st. mkfs fs = Inr st \<and> length (sects st) = unat FSSIZE \<and> superblock_of (sects st ! 1) = mkfs_sb \<and>
    di_type (inode_at st 1) = T_DIR \<and> take (length (rootdir fs)) (contents st 1) = rootdir fs \<and>
    (\<forall>k<length fs. di_type (inode_at st (k + 2)) = T_FILE \<and> snd (fs ! k) = Some (contents st (k + 2))) \<and>
    (\<forall>i<NINODES. i = 0 \<or> length fs + 1 < i \<longrightarrow> di_type (inode_at st i) = 0)"
proof -
  let ?fs = "(T_DIR, rootdir fs) # as_files fs"
  obtain s0 st bls where m: "mkfs fs = Inr st" and L: "layout s0 ?fs bls" and F: "finished s0 st"
    using mkfs_finished [OF assms] by blast
  have n: "length fs < 199" using assms(2) by (simp add: fits_def mk_consts)
  have "sects st ! 1 = sb_bytes mkfs_sb" using F layoutD(6) [OF L, of 1] by (simp add: finished_def blank_def mk_consts)
  moreover have "take (length (rootdir fs)) (contents st 1) = rootdir fs"
    using finished_root(2) [OF L F] n by (simp add: rootdir_def)
  moreover have "di_type (inode_at st 1) = T_DIR" using finished_has(3) [OF L F, of 0] by simp
  moreover have "di_type (inode_at st (k + 2)) = T_FILE \<and> snd (fs ! k) = Some (contents st (k + 2))" if k: "k < length fs" for k
  proof -
    have "as_files fs ! k = (T_FILE, the (snd (fs ! k)))" using k by (simp add: as_files_def split_beta)
    moreover have "snd (fs ! k) \<noteq> None" using assms(1) nth_mem [OF k] by (auto simp: good_files_def)
    ultimately show ?thesis
      using finished_has(3) [OF L F, of "k + 1"] finished_contents [OF L F, of "k + 1"] k by auto
  qed
  moreover have "di_type (inode_at st i) = 0" if "i < 200" "i = 0 \<or> length fs + 1 < i" for i
    using that layoutD(9) [OF L, of i] F by (auto simp: finished_def)
  moreover have "length (sects st) = 1000" using F by (simp add: finished_def)
  ultimately show ?thesis using m superblock_blank by (intro exI [of _ st]) (auto simp: mk_consts)
qed

text \<open>
  C22. No block of the image is used twice and none is lost: the blocks to which the inodes of the
  files refer are all different, and the bitmap, read as \<open>balloc\<close> of the kernel does, has as free exactly
  the data blocks to which no inode refers.
\<close>

theorem mkfs_bitmap:
  assumes "good_files fs" and "fits fs"
  shows "\<exists>st. mkfs fs = Inr st \<and>
    (let bs = concat (map (inode_blocks st) [1..<length fs + 2])
     in distinct bs \<and>
        (\<forall>b<unat FSSIZE. bit_clear (sects st ! unat (BBLOCK (of_nat b) mkfs_sb)) b \<longleftrightarrow> nmeta \<le> b \<and> of_nat b \<notin> set bs))"
proof -
  let ?fs = "(T_DIR, rootdir fs) # as_files fs"
  obtain s0 st bls where m: "mkfs fs = Inr st" and L: "layout s0 ?fs bls" and F: "finished s0 st"
    using mkfs_finished [OF assms] by blast
  let ?bs = "concat (map (inode_blocks st) [1..<length fs + 2])"
  have "[1..<length fs + 2] = map Suc [0..<length ?fs]" unfolding map_Suc_upt by simp
  then have "map (\<lambda>i. inode_blocks st (i + 1)) [0..<length ?fs] = map (inode_blocks st) [1..<length fs + 2]" by simp
  then have d: "distinct ?bs" and u: "unat ` set ?bs = {59..<59 + blocks ?fs}" using finished_all_blocks [OF L F] by simp_all
  have fb: "unat (freeblock s0) = 59 + blocks ?fs" "unat (freeblock s0) \<le> 1000"
    using layoutD(5) [OF L] img_okD(4) [OF layoutD(1) [OF L]] by simp_all
  have "bit_clear (sects st ! unat (BBLOCK (of_nat b) mkfs_sb)) b \<longleftrightarrow> 59 \<le> b \<and> of_nat b \<notin> set ?bs" if b: "b < 1000" for b
  proof -
    have "unat (BBLOCK (of_nat b) mkfs_sb) = 58" using BBLOCK_nat [of b 0 mkfs_sb] b by (simp add: BBLOCK_def mkfs_sb_def Let_def mk_consts)
    moreover have "bit_clear (used_bits (unat (freeblock s0))) b \<longleftrightarrow> unat (freeblock s0) \<le> b"
      using used_bits_clear [of "unat (freeblock s0)"] fb(2) b by simp
    moreover have ub: "unat (of_nat b :: u32) = b" using b by (simp add: unat_of_nat)
    have "inj (unat :: u32 \<Rightarrow> nat)" by (rule injI) (simp add: word_unat_eq_iff)
    from inj_image_mem_iff [OF this, of "of_nat b" "set ?bs"] ub have "of_nat b \<in> set ?bs \<longleftrightarrow> b \<in> unat ` set ?bs" by simp
    ultimately show ?thesis using F fb(1) u by (auto simp: finished_def)
  qed
  then show ?thesis using m d by (auto simp: Let_def mk_consts)
qed

section \<open>The image as the disk of the kernel\<close>

lemma nth_concat_blocks:
  assumes "\<forall>x\<in>set xs. length x = 512" "j < 512 * length xs"
  shows "concat xs ! j = xs ! (j div 512) ! (j mod 512)"
  using assms
proof (induction xs arbitrary: j)
  case (Cons x xs)
  show ?case
  proof (cases "j < 512")
    case False
    then obtain i where "j = 512 + i" by (metis le_Suc_ex not_less)
    moreover have "(512 + i) div 512 = Suc (i div 512)" by simp
    ultimately show ?thesis using Cons by (simp add: nth_append)
  qed (use Cons.prems in \<open>simp add: nth_append\<close>)
qed simp

text \<open>
  An inode of the kernel with the fields of an inode of the image, over a disk that shows the image, is
  mapped and has the bytes of the file.
\<close>

lemma has_mapped:
  assumes ok: "length (sects st) = 1000" "unat (freeblock st) \<le> 1000" "\<forall>k<1000. length (sects st ! k) = 512" and h: "has st di bl c"
    and v: "vdisk v = sects st" "\<And>a. vblk v a = sec st a" and i: "idev i = 1" "addrs i = di_addrs di"
  shows "mapped v i (length bl)" "j < length c \<Longrightarrow> fbyte v i j = c ! j"
proof -
  have r: "rep st di bl" and b: "blocks_ok st (owned di bl)" and l: "length bl = (length c + 511) div 512"
    and f: "file_bytes st bl = c @ replicate (512 * length bl - length c) 0"
    using h by (simp_all add: has_def)
  have a: "faddr v i k = bl ! k" if "k < length bl" for k
    using map_block_rep [OF r that] unfolding faddr_def map_block_def v(2) i(2) .
  have o: "59 \<le> unat y" "unat y < 1000" "length (sec st y) = 512" if "y \<in> set (owned di bl)" for y
    using b that ok(2,3) by (auto simp: blocks_ok_def)
  have im: "faddr v i ` {..<length bl} = set bl" using a by (auto simp: in_set_conv_nth image_iff)
  have "inj_on (faddr v i) {..<length bl}"
    using b a by (intro inj_onI) (simp add: blocks_ok_def owned_def nth_eq_iff_index_eq)
  moreover have "faddr v i k \<noteq> 0 \<and> unat (faddr v i k) < length (vdisk v) \<and> length (vblk v (faddr v i k)) = 512" if k: "k < length bl" for k
    using o [of "bl ! k"] nth_mem [OF k] a [OF k] ok(1) v by (auto simp: owned_def)
  moreover have "addrs i ! NDIRECT \<noteq> 0 \<and> unat (addrs i ! NDIRECT) < length (vdisk v) \<and> addrs i ! NDIRECT \<notin> set bl" if "12 < length bl"
    using that o [of "di_addrs di ! 12"] b ok(1) by (auto simp: i(2) v(1) mk_consts owned_def tabs_def blocks_ok_def)
  ultimately show "mapped v i (length bl)" unfolding mapped_def im using r i(1) by (simp add: rep_def mk_consts)
  assume j: "j < length c"
  have l2: "length (file_bytes st bl) = 512 * length bl" using f l by simp
  have "c ! j = file_bytes st bl ! j" using j f by (simp add: nth_append)
  also have "\<dots> = map (sec st) bl ! (j div 512) ! (j mod 512)"
    unfolding file_bytes_def using j l o by (intro nth_concat_blocks) (auto simp: owned_def)
  finally show "fbyte v i j = c ! j" using j l a [of "j div 512"] by (simp add: fbyte_def v(2) less_mult_imp_div_less)
qed

lemma mkfs_has:
  assumes "good_files fs" and "fits fs" and m: "mkfs fs = Inr st" and k: "k < length fs"
  obtains bl where "length (sects st) = 1000" "unat (freeblock st) \<le> 1000" "\<forall>k<1000. length (sects st ! k) = 512"
    "has st (inode_at st (k + 2)) bl (the (snd (fs ! k)))" "unat (di_size (inode_at st (k + 2))) = length (the (snd (fs ! k)))"
    "di_type (inode_at st (k + 2)) = T_FILE"
proof -
  let ?fs = "(T_DIR, rootdir fs) # as_files fs"
  obtain s0 bls where L: "layout s0 ?fs bls" and F: "finished s0 st"
    using mkfs_finished [OF assms(1,2)] m by auto
  have f: "?fs ! (k + 1) = (T_FILE, the (snd (fs ! k)))" "k + 1 < length ?fs" using k by (simp_all add: as_files_def split_beta)
  note h = finished_has [OF L F f(2), unfolded f(1)]
  have "inode_at st (k + 2) = inode_at s0 (k + 2)" using F layoutD(3) [OF L] k by (auto simp: finished_def)
  then have "unat (di_size (inode_at st (k + 2))) = length (the (snd (fs ! k)))"
    using layoutD(7) [OF L f(2)] f(1) by (simp add: file_at_def)
  then show ?thesis using that [of "bls ! (k + 1)"] h(1,3) F img_okD(4) [OF layoutD(1) [OF L]] by (simp add: finished_def)
qed

section \<open>Examples\<close>

text \<open>Two files, the second of which needs an indirect block.\<close>

definition files0 :: "(u8 list \<times> u8 list option) list" where
  "files0 = [([95, 99, 97, 116], Some [7, 8, 9]), ([119, 99], Some (replicate 7000 1))]"

lemma files0_ok: "good_files files0" "fits files0"
  by (simp_all add: files0_def good_files_def fits_def mk_consts blocks_Cons rootdir_def nblk_def)

theorem mkfs_contents_witness:
  "\<exists>st. mkfs files0 = Inr st \<and> contents st 2 = [7, 8, 9] \<and> contents st 3 = replicate 7000 1 \<and> superblock_of (sects st ! 1) = mkfs_sb"
proof -
  have l: "length files0 = 2" by (simp add: files0_def)
  obtain st where st: "mkfs files0 = Inr st" "superblock_of (sects st ! 1) = mkfs_sb"
    "\<forall>k<length files0. di_type (inode_at st (k + 2)) = T_FILE \<and> snd (files0 ! k) = Some (contents st (k + 2))"
    using mkfs_contents [OF files0_ok] by blast
  have n: "0 + 2 = (2 :: nat)" "1 + 2 = (3 :: nat)" by simp_all
  have "contents st 2 = [7, 8, 9]" "contents st 3 = replicate 7000 1"
    using spec [OF st(3), of 0] spec [OF st(3), of 1] unfolding l n by (simp_all add: files0_def)
  then show ?thesis using st(1,2) by blast
qed

theorem mkfs_bitmap_witness:
  "\<exists>st. mkfs files0 = Inr st \<and> distinct (concat (map (inode_blocks st) [1..<4]))"
proof -
  have l: "length files0 + 2 = 4" by (simp add: files0_def)
  show ?thesis using mkfs_bitmap [OF files0_ok] unfolding l by (auto simp: Let_def)
qed

text \<open>
  The size of the root directory is rounded up by a block even when it is a multiple of one: with thirty
  files, whose entries fill a block, the size is two blocks, of which one is there.
\<close>

theorem mkfs_root_multiple:
  "\<exists>st. mkfs (replicate 30 ([97], Some [])) = Inr st \<and> unat (di_size (inode_at st 1)) = 1024 \<and> length (inode_blocks st 1) = 1"
proof -
  let ?fs = "replicate 30 ([97], Some []) :: (u8 list \<times> u8 list option) list"
  have a: "as_files ?fs = replicate 30 (T_FILE, [])" by (simp add: as_files_def)
  have r: "length (rootdir ?fs) = 512" by (simp add: rootdir_def)
  have "good_files ?fs" by (simp add: good_files_def)
  moreover have "blocks (replicate 30 (T_FILE, [])) = 0" by (simp add: blocks_def nblk_def sum_list_replicate)
  then have "fits ?fs" by (simp add: fits_def mk_consts blocks_Cons a r nblk_def)
  ultimately obtain s0 st bls where m: "mkfs ?fs = Inr st" and L: "layout s0 ((T_DIR, rootdir ?fs) # as_files ?fs) bls" and F: "finished s0 st"
    using mkfs_finished by blast
  have "has st (inode_at st 1) (bls ! 0) (rootdir ?fs)" using finished_has(1) [OF L F, of 0] by simp
  then have "length (inode_blocks st 1) = 1"
    using inode_blocks_owned [of st 1 "bls ! 0" "rootdir ?fs"] r by (simp add: has_def tabs_def)
  moreover have "unat (di_size (inode_at st 1)) = 1024" using finished_root(1) [OF L F] r by simp
  ultimately show ?thesis using m by blast
qed

end
