(* ===== verification/Spec2Isabelle.thy ===== *)
theory Spec2Isabelle
  imports Wakeup Smp Trap Ide Pipes Line Shell Umalloc Mp Boot Mkfs
begin

text \<open>
  A model of the operating system under \<open>src/\<close>, a version of xv6 with additional system calls, and of
  the programs that come with it, with the theorems that its parts rely on.

  \<^bold>\<open>The program.\<close> The kernel runs on several processors. Spin locks protect its tables
  (\<open>spinlock.c\<close>); physical pages come from a free list (\<open>kalloc.c\<close>) and page tables are built from them
  (\<open>vm.c\<close>); the process table, the scheduler and sleep and wakeup are in \<open>proc.c\<close>. Above them is the file
  system: a buffer cache (\<open>bio.c\<close>) over the disk (\<open>ide.c\<close>, or \<open>memide.c\<close> for a disk in memory), a redo log
  (\<open>log.c\<close>), blocks, inodes, directories and path names (\<open>fs.c\<close>), open files and pipes (\<open>file.c\<close>, \<open>pipe.c\<close>),
  and \<open>exec.c\<close>. A trap (\<open>trap.c\<close>) dispatches to a system call (\<open>syscall.c\<close>, \<open>sysfile.c\<close>, \<open>sysproc.c\<close>) or
  to a device (\<open>console.c\<close>, \<open>kbd.c\<close>, \<open>uart.c\<close>, \<open>ide.c\<close>). The user programs call the kernel through a small
  library (\<open>ulib.c\<close>, \<open>printf.c\<close>, \<open>umalloc.c\<close>). \<open>mkfs.c\<close>, which runs on the host, builds the disk, and
  \<open>bootmain.c\<close> loads the kernel.

  \<^bold>\<open>State and outcomes.\<close> The state of the kernel is one record that grows by a layer for each
  part: \<open>machine\<close> (Machine), \<open>kmem\<close> (Kalloc), \<open>vm\<close> (Vm), \<open>ptable\<close> (Proc), \<open>console\<close> (Console), \<open>bcache\<close>
  (Bio), \<open>log\<close> (Log), \<open>icache\<close> (Fs), \<open>ftable\<close> (File), \<open>kernel\<close> (Uaccess). An operation of a layer takes
  every extension of the layer's record, so that upper layers call it without conversion. C integers are
  words of their width, and \<open>int\<close> where the code cannot overflow. Memory is a function from 32-bit
  addresses to bytes; page tables, the free list of pages, trap frames and stacks are bytes of it. The
  outcome of an operation (\<open>kres\<close> of Prelude) is a return, a panic with its message, a wait that never
  ends, a sleep that hands over to the scheduler, or an access outside an array, after which the C program
  has no meaning. A loop that sleeps is a function that ends in the sleep and is entered again when the
  process is woken.

  \<^bold>\<open>Theories.\<close>
  \<^item> Prelude: words, outcomes, encodings of integers as bytes. Cmem: memory and \<open>string.c\<close>.
  \<^item> Machine, Spinlock: the processor and \<open>spinlock.c\<close>. Smp: the routines of \<open>spinlock.c\<close> cut at
    their shared accesses, as a step relation on any number of processors.
  \<^item> Kalloc: \<open>kalloc.c\<close>. Vm: \<open>vm.c\<close>. Proc, Fork: \<open>proc.c\<close>. Sched: facts on them. Wakeup: the
    statements of \<open>sleep\<close> and \<open>wakeup\<close> and the scheduler, as a step relation on any number of processors. Mp: \<open>mp.c\<close>.
  \<^item> Quiet: what taking and dropping locks leaves behind, for the proofs of the upper layers.
    Sleeplock: \<open>sleeplock.c\<close>.
  \<^item> Console, Kbd: \<open>console.c\<close>, \<open>uart.c\<close>, \<open>kbd.c\<close>. Line: facts on the line editor.
  \<^item> Bio: \<open>bio.c\<close> and \<open>memide.c\<close>. Lru, Bcache: facts on the cache. Ide: \<open>ide.c\<close>.
  \<^item> Log: \<open>log.c\<close>. Journal, Crash, Txn: commit, crashes and recovery, transactions.
  \<^item> Fs, Dir: \<open>fs.c\<close>. Content, Alloc: facts on files, the bitmap and inodes.
  \<^item> File: \<open>file.c\<close> and \<open>pipe.c\<close>. Fifo, Pipes: bounded queues and pipes as such queues.
  \<^item> Uaccess: access to user memory and the arguments of system calls (\<open>syscall.c\<close>). Exec: \<open>exec.c\<close>.
    Sysfile: \<open>sysfile.c\<close>. Trap: \<open>sysproc.c\<close>, the dispatch of \<open>syscall.c\<close>, and \<open>trap.c\<close>.
  \<^item> Ulib: \<open>ulib.c\<close> and \<open>printf.c\<close>. Umalloc: \<open>umalloc.c\<close>. Grep: \<open>grep.c\<close>. Shell: \<open>sh.c\<close>. Utils: the other
    programs. A program is a tree of system calls, with one branch for each answer of the kernel.
  \<^item> Mkfs: \<open>mkfs.c\<close>. Boot: \<open>bootmain.c\<close>.

  Definitions have the names of the C functions; a suffix \<open>_loop\<close>, \<open>1\<close> or the like marks a loop or a
  part of the function, a prefix or suffix a name that is taken (\<open>ufree\<close> for the \<open>free\<close> of \<open>umalloc.c\<close>,
  \<open>mk_ialloc\<close> for the \<open>ialloc\<close> of \<open>mkfs.c\<close>).

  \<^bold>\<open>Interfaces.\<close> Locales state what one part relies on in another: \<open>page_allocator\<close> (the pages that
  Kalloc hands to Vm; interpretation \<open>ka\<close>), \<open>sync_frame\<close> (fields that locking and waking keep; \<open>pt\<close> for the
  process table, \<open>ci\<close> for the input line), \<open>sleep_lock\<close> (a lock inside a structure; \<open>bl\<close> for buffers, \<open>il\<close> for
  inodes),
  \<open>bounded_fifo\<close> (\<open>pq\<close> for pipes).

  \<^bold>\<open>What is shown.\<close>
  \<^item> Locks: at most one processor owns a spin lock in every interleaving, with interrupts off (Smp).
  \<^item> Memory: pages are handed out once and come back (Kalloc); \<open>mappages\<close>, \<open>allocuvm\<close>, \<open>deallocuvm\<close>
    and \<open>copyout\<close> do to the address space what they promise and nothing else (Vm).
  \<^item> Processes: no wakeup is lost between the test of a condition and the sleep, in every interleaving
    of the processors (Wakeup); a round of the scheduler ends and runs every runnable process; ids are
    unique; \<open>kill\<close>; the prime search (Sched).
  \<^item> Disk: \<open>bread\<close> gives the newest contents of a block and \<open>bget\<close> recycles in order of use (Bcache);
    after a crash at any write of a commit, recovery finds all of the transaction or nothing (Crash);
    transactions collect their blocks once, reserve log space and commit at the end of the last (Txn).
  \<^item> Files: \<open>readi\<close> and \<open>writei\<close> on the blocks of an inode (Content); \<open>balloc\<close>, and what \<open>iupdate\<close> writes and
    \<open>ilock\<close> reads of an inode (Alloc);
    pipes are queues (Pipes); the input line (Line).
  \<^item> Programs: \<open>malloc\<close> and \<open>free\<close> keep the ring of free blocks and hand out disjoint blocks (Umalloc);
    the shell's parser inverts its printer, returns on every line and produces well-formed commands, and
    its child ends in \<open>exit\<close> (Shell); what \<open>grep\<close> matches (Grep); \<open>atoi\<close> reads what \<open>printf\<close> writes (Ulib).
  \<^item> Image: \<open>mkfs\<close> puts every file in the image and marks exactly the blocks in use (Mkfs), and the
    kernel's \<open>readi\<close> on a disk with that image returns the files (below).
  \<^item> Boot: the loader puts every segment of the kernel where its headers say (Boot).

  Theorems named after what goes wrong (\<open>getMostCaller_not_maximal\<close>, \<open>mp_entries_stuck\<close>, \<open>log_write_full\<close>,
  \<open>nunits_wraps\<close>, \<open>umemmove_overlap\<close>, \<open>grep_loses_line\<close> and others) show inputs on which the code does not do
  what it is meant to.

  \<^bold>\<open>Bounds and fuel.\<close> The loops over an address space in Vm and Exec have \<open>PAGES\<close> rounds, one for each
  page there is, which every round passes; the theorems say that they return. The parser of the shell has
  fuel \<open>4 * length + 4\<close> for a line, and \<open>parsecmd_returns\<close> says that this is enough: every call consumes a
  character or goes one level down in the grammar. The loops of \<open>mp.c\<close>, of \<open>umalloc.c\<close>, of
  \<open>bootmain.c\<close>, of a round of the scheduler and of the prime search are \<open>partial_function (option)\<close>, where \<open>None\<close> is a loop that does not end, and the theorems show a
  result. The loops of user programs around system calls, which end only by the answers of the kernel,
  take the number of their rounds as an argument. Waits for a device consume a list of the device's
  answers, and spin at its end.

  \<^bold>\<open>Not modelled.\<close>
  \<^item> Assembly (\<open>bootasm.S\<close>, \<open>entry.S\<close>, \<open>entryother.S\<close>, \<open>swtch.S\<close>, \<open>trapasm.S\<close>, \<open>vectors.S\<close>, \<open>initcode.S\<close>,
    \<open>usys.S\<close>) and the wrappers of \<open>x86.h\<close> that load descriptor tables: what the C code sees of them is the
    trap frame, the saved context and the interrupt flag, which are part of the state.
  \<^item> \<open>lapic.c\<close>, \<open>ioapic.c\<close> and \<open>picirq.c\<close>: sequences of writes to device registers, nothing of which the kernel
    reads back except the number of the processor, which is a field of \<open>machine\<close>.
  \<^item> \<open>main.c\<close>: the order of the initialisation calls, each of which is modelled in its part; the start of
    the other processors is assembly and device registers.
  \<^item> \<open>usertests.c\<close>: a program that tests the kernel; the calls it makes are those of the other programs.
  \<^item> \<open>tempfile.c\<close> and \<open>test(1).c\<close>, which the \<open>Makefile\<close> does not build; \<open>defs.h\<close> (prototypes); scripts.
  \<^item> Interleavings of kernel code on several processors other than in the lock routines and in sleep and
    wakeup, where taking and dropping a lock is one step: the proofs of the upper layers are for one path
    of the kernel, between whose steps at a sleep other paths may run.
\<close>

section \<open>From the builder of the image to the kernel\<close>

text \<open>
  C9. The kernel reads what \<open>mkfs\<close> has written: on a disk that holds the image that \<open>mkfs\<close> makes of some
  files, with nothing newer in the buffer cache, \<open>readi\<close> of the inode of file \<open>k\<close> returns the contents of that
  file, all of them.
\<close>

theorem mkfs_then_readi:
  assumes "good_files fs" and "fits fs" and "mkfs fs = Inr st" and "k < length fs"
    and inv: "QI c p s" and cache: "vdirty (view s) = {}" "bufs s \<noteq> []" and disk: "memdisk s = sects st"
    and ino: "dinode_of (inodes s ! ip) = inode_at st (k + 2)" "idev (inodes s ! ip) = 1"
  shows "\<exists>t. readi ip 0 (isize (inodes s ! ip)) s = Ret (int (length (the (snd (fs ! k)))), the (snd (fs ! k))) t"
proof -
  let ?i = "inodes s ! ip" and ?c = "the (snd (fs ! k))"
  obtain bl where h: "length (sects st) = 1000" "unat (freeblock st) \<le> 1000" "\<forall>k<1000. length (sects st ! k) = 512"
      "has st (inode_at st (k + 2)) bl ?c" "unat (di_size (inode_at st (k + 2))) = length ?c" "di_type (inode_at st (k + 2)) = T_FILE"
    using assms(1-4) by (rule mkfs_has)
  have i: "addrs ?i = di_addrs (inode_at st (k + 2))" "unat (isize ?i) = length ?c" "itype ?i \<noteq> T_DEV"
    using h(5,6) unfolding ino(1) [symmetric] by (simp_all add: dinode_of_def T_FILE_def T_DEV_def)
  have v: "vdisk (view s) = sects st" "\<And>a. vblk (view s) a = sects st ! unat a"
    using QI_clean [OF inv] cache(1) disk by (simp_all add: view_disk)
  note m = has_mapped [OF h(1-4) v ino(2) i(1)]
  have q: "qt c {} s s" using inv by (intro qt_start) (simp add: QI_def BI_def kidle_def)
  have r: "card (vdirty (view s)) < length (bufs s)" using cache by simp
  have sz: "unat (isize ?i) \<le> 512 * length bl" using h(4) i(2) by (auto simp: has_def)
  have o: "unat 0 + unat (isize ?i) < 2 ^ 32" "unat 0 \<le> unat (isize ?i)" using unsigned_less [of "isize ?i"] by simp_all
  have k: "length ?c = min (unat (isize ?i)) (unat (isize ?i) - unat 0)" using i(2) by simp
  obtain t where "readi ip 0 (isize ?i) s = Ret (int (length ?c), map (fbyte (view s) ?i) [0..<length ?c]) t"
    using readi_ok [OF q inv r i(3) m(1) sz _ _ k] o by auto
  moreover have "map (fbyte (view s) ?i) [0..<length ?c] = ?c" using m(2) by (intro nth_equalityI) simp_all
  ultimately show ?thesis by auto
qed

text \<open>The kernel after the start, with an empty cache and one inode in memory.\<close>

definition booted :: "image \<Rightarrow> icache" where
  "booted st = cache0 unused0 (sects st)
     \<lparr>log_start = 2, log_size = 30, outstanding = 0, committing = False, log_dev = 1, lh_n = 0, lh_block = replicate LOGSIZE 0, sb = mkfs_sb,
      inodes = [let di = inode_at st 3
                in \<lparr>idev = 1, inum = 3, iref = 1, ilk = nolock, ivalid = True, itype = di_type di, imajor = di_major di,
                    iminor = di_minor di, inlink = di_nlink di, isize = di_size di, addrs = di_addrs di\<rparr>], devsw = []\<rparr>"

theorem mkfs_then_readi_witness:
  "\<exists>st t. mkfs files0 = Inr st \<and> readi 0 0 (di_size (inode_at st 3)) (booted st) = Ret (7000, replicate 7000 1) t"
proof -
  have l: "1 < length files0" by (simp add: files0_def)
  obtain st where st: "mkfs files0 = Inr st" using mkfs_finished [OF files0_ok] by blast
  have "length (sects st) = 1000" using mkfs_has [OF files0_ok st l] by blast
  then have "BI 0 0 (booted st)" unfolding booted_def by (intro cache0_BI) (simp_all add: buf_ok_def)
  moreover have b: "bufs (booted st) = [unused0, unused1]" "memdisk (booted st) = sects st" by (simp_all add: booted_def)
  then have v: "vdirty (view (booted st)) = {}" "vheld (view (booted st)) = {}" by (auto simp: view_def less_Suc_eq nth_Cons')
  ultimately have q: "QI 0 0 (booted st)" by (simp add: QI_def)
  have i: "inodes (booted st) ! 0 = \<lparr>idev = 1, inum = 3, iref = 1, ilk = nolock, ivalid = True, itype = di_type (inode_at st 3),
      imajor = di_major (inode_at st 3), iminor = di_minor (inode_at st 3), inlink = di_nlink (inode_at st 3),
      isize = di_size (inode_at st 3), addrs = di_addrs (inode_at st 3)\<rparr>"
    by (simp add: booted_def cache0_def con0_def Let_def)
  have n: "1 + 2 = (3 :: nat)" by simp
  have d: "dinode_of (inodes (booted st) ! 0) = inode_at st (1 + 2)" "idev (inodes (booted st) ! 0) = 1"
    unfolding n i by (simp_all add: dinode_of_def)
  have "the (snd (files0 ! 1)) = replicate 7000 1" by (simp add: files0_def)
  then show ?thesis
    using mkfs_then_readi [OF files0_ok st l q v(1) _ b(2) d] b(1) i st by auto
qed

end
